(* ===== verification/C_Prelude.thy ===== *)
theory C_Prelude
  imports Main "HOL-Library.Word" "HOL-Library.Signed_Division"
begin

text \<open>
  Shared vocabulary of the development: the sum type every fallible C function returns and the
  sequencing operator on it, the C library's character classes and number printing, and the facts
  about lists and machine words that several components use.  The collection
  \<open>crun\<close> gathers the equations that run a model one C statement at a time; the
  collection \<open>csplit\<close> the inversion rules for a run that is known to have succeeded.
\<close>

named_theorems crun
named_theorems csplit

section \<open>Results: a run stops with an error or goes on with a value\<close>

type_synonym ('e, 'a) res = "'e + 'a"

definition bindE :: "('e, 'a) res \<Rightarrow> ('a \<Rightarrow> ('e, 'b) res) \<Rightarrow> ('e, 'b) res" where
  "bindE m k = (case m of Inl e \<Rightarrow> Inl e | Inr x \<Rightarrow> k x)"

definition assertE :: "bool \<Rightarrow> 'e \<Rightarrow> ('e, unit) res" where
  "assertE p e = (if p then Inr () else Inl e)"

lemma bindE_Inl [simp, crun]: "bindE (Inl e) k = Inl e"
  by (simp add: bindE_def)

lemma bindE_Inr [simp, crun]: "bindE (Inr x) k = k x"
  by (simp add: bindE_def)

lemma bindE_cong [fundef_cong]:
  "m = m' \<Longrightarrow> (\<And>x. m' = Inr x \<Longrightarrow> k x = k' x) \<Longrightarrow> bindE m k = bindE m' k'"
  by (auto simp: bindE_def split: sum.splits)

lemma bindE_eq_Inr [csplit]: "bindE m k = Inr y \<longleftrightarrow> (\<exists>x. m = Inr x \<and> k x = Inr y)"
  by (auto simp: bindE_def split: sum.splits)

lemma bindE_eq_Inl [csplit]:
  "bindE m k = Inl e \<longleftrightarrow> m = Inl e \<or> (\<exists>x. m = Inr x \<and> k x = Inl e)"
  by (auto simp: bindE_def split: sum.splits)

lemma assertE_eq_Inr [csplit]: "assertE p e = Inr u \<longleftrightarrow> p"
  by (simp add: assertE_def)

lemma assertE_eq_Inl [csplit]: "assertE p e = Inl e' \<longleftrightarrow> \<not> p \<and> e' = e"
  by (auto simp: assertE_def)

lemma assertE_True [simp, crun]: "assertE True e = Inr ()"
  by (simp add: assertE_def)

lemma assertE_False [simp, crun]: "assertE False e = Inl e"
  by (simp add: assertE_def)

lemma bindE_assoc: "bindE (bindE m f) g = bindE m (\<lambda>x. bindE (f x) g)"
  by (cases m) simp_all

section \<open>Characters, as \<open>ctype.h\<close> classifies them in the C locale\<close>

definition isspace :: "char \<Rightarrow> bool" where
  "isspace c \<longleftrightarrow> c = CHR '' '' \<or> (9 \<le> (of_char c :: nat) \<and> (of_char c :: nat) \<le> 13)"

definition isupper :: "char \<Rightarrow> bool" where
  "isupper c \<longleftrightarrow> 65 \<le> (of_char c :: nat) \<and> (of_char c :: nat) \<le> 90"

definition isdigit :: "char \<Rightarrow> bool" where
  "isdigit c \<longleftrightarrow> 48 \<le> (of_char c :: nat) \<and> (of_char c :: nat) \<le> 57"

text \<open>The value of a (signed) \<open>char\<close> when it is promoted to an integer.\<close>

definition schar :: "char \<Rightarrow> int" where
  "schar c = (let n = of_char c :: int in if n < 128 then n else n - 256)"

section \<open>Printing numbers: the conversions \<open>%d\<close> and \<open>%x\<close> of \<open>printf\<close>\<close>

definition digit_char :: "nat \<Rightarrow> char" where
  "digit_char d = (if d < 10 then char_of (48 + d) else char_of (87 + d))"

fun show_base :: "nat \<Rightarrow> nat \<Rightarrow> string" where
  "show_base b n =
     (if b < 2 \<or> n < b then [digit_char n] else show_base b (n div b) @ [digit_char (n mod b)])"

declare show_base.simps [simp del]

definition show_nat :: "nat \<Rightarrow> string" where
  "show_nat n = show_base 10 n"

definition show_hex :: "nat \<Rightarrow> string" where
  "show_hex n = show_base 16 n"

definition show_int :: "int \<Rightarrow> string" where
  "show_int i = (if i < 0 then CHR ''-'' # show_nat (nat (- i)) else show_nat (nat i))"

section \<open>Reading numbers: \<open>strtol\<close> with base 0, on 64-bit \<open>long\<close>\<close>

definition digit_value :: "char \<Rightarrow> nat option" where
  "digit_value c =
     (let n = of_char c :: nat in
      if 48 \<le> n \<and> n \<le> 57 then Some (n - 48)
      else if 97 \<le> n \<and> n \<le> 122 then Some (n - 87)
      else if 65 \<le> n \<and> n \<le> 90 then Some (n - 55)
      else None)"

fun read_digits :: "nat \<Rightarrow> nat \<Rightarrow> string \<Rightarrow> nat" where
  "read_digits b acc [] = acc"
| "read_digits b acc (c # cs) =
     (case digit_value c of
        None \<Rightarrow> acc
      | Some d \<Rightarrow> if d < b then read_digits b (acc * b + d) cs else acc)"

definition is_digit_of :: "nat \<Rightarrow> char \<Rightarrow> bool" where
  "is_digit_of b c \<longleftrightarrow> (case digit_value c of None \<Rightarrow> False | Some d \<Rightarrow> d < b)"

definition strtol_sign :: "string \<Rightarrow> bool \<times> string" where
  "strtol_sign s =
     (case s of
        [] \<Rightarrow> (False, [])
      | c # cs \<Rightarrow> if c = CHR ''-'' then (True, cs) else if c = CHR ''+'' then (False, cs)
                  else (False, s))"

definition strtol_base :: "string \<Rightarrow> nat \<times> string" where
  "strtol_base s =
     (case s of
        z # x # d # cs \<Rightarrow>
          if z = CHR ''0'' \<and> (x = CHR ''x'' \<or> x = CHR ''X'') \<and> is_digit_of 16 d then (16, d # cs)
          else if z = CHR ''0'' then (8, s) else (10, s)
      | z # cs \<Rightarrow> if z = CHR ''0'' then (8, s) else (10, s)
      | [] \<Rightarrow> (10, s))"

text \<open>Out of the range of \<open>long\<close>, \<open>strtol\<close> returns the nearer end of the range.\<close>

definition strtol0 :: "string \<Rightarrow> int" where
  "strtol0 s =
     (let (neg, s1) = strtol_sign (dropWhile isspace s);
          (b, s2) = strtol_base s1;
          n = int (read_digits b 0 s2);
          v = (if neg then - n else n)
      in max (- (2 ^ 63)) (min (2 ^ 63 - 1) v))"

section \<open>Printing and reading back\<close>

lemma digit_value_char: "d < 16 \<Longrightarrow> digit_value (digit_char d) = Some d"
proof -
  assume "d < 16"
  then have "(48 + d) mod 256 = 48 + d" "(87 + d) mod 256 = 87 + d" by simp_all
  with \<open>d < 16\<close> show ?thesis
    by (simp add: digit_value_def digit_char_def Let_def)
qed

lemma mod_base_bounds: "2 \<le> b \<Longrightarrow> b \<le> 16 \<Longrightarrow> n mod b < b \<and> n mod b < (16 :: nat)"
  using mod_less_divisor [of b n] by linarith

lemma read_digits_append:
  "\<forall>c \<in> set xs. is_digit_of b c \<Longrightarrow>
   read_digits b acc (xs @ ys) = read_digits b (read_digits b acc xs) ys"
  by (induction xs arbitrary: acc) (auto simp: is_digit_of_def split: option.splits)

lemma show_base_digits:
  assumes "2 \<le> b" "b \<le> 16"
  shows "\<forall>c \<in> set (show_base b n). is_digit_of b c"
proof (induction n rule: less_induct)
  case (less n)
  have "is_digit_of b (digit_char (n mod b))" "n < b \<Longrightarrow> is_digit_of b (digit_char n)"
    using assms mod_base_bounds [OF assms, of n] by (simp_all add: is_digit_of_def digit_value_char)
  moreover have "\<forall>c \<in> set (show_base b (n div b)). is_digit_of b c" if "\<not> n < b"
    using that assms by (intro less.IH) simp
  ultimately show ?case
    using assms by (subst show_base.simps) auto
qed

lemma read_show_base:
  assumes "2 \<le> b" "b \<le> 16"
  shows "read_digits b 0 (show_base b n) = n"
proof (induction n rule: less_induct)
  case (less n)
  show ?case
  proof (cases "n < b")
    case True
    then show ?thesis
      using assms by (subst show_base.simps) (simp add: digit_value_char)
  next
    case False
    then have "read_digits b 0 (show_base b (n div b)) = n div b"
      using assms by (intro less.IH) simp
    moreover have "show_base b n = show_base b (n div b) @ [digit_char (n mod b)]"
      using False assms by (subst show_base.simps) simp
    ultimately show ?thesis
      using show_base_digits [OF assms, of "n div b"] mod_base_bounds [OF assms, of n]
      by (simp add: read_digits_append digit_value_char)
  qed
qed

lemma show_nat_inj [simp]: "show_nat m = show_nat n \<longleftrightarrow> m = n"
proof
  assume "show_nat m = show_nat n"
  then have "read_digits 10 0 (show_nat m) = read_digits 10 0 (show_nat n)"
    by (rule arg_cong)
  then show "m = n"
    by (simp add: show_nat_def read_show_base)
qed simp

text \<open>A number below \<open>b ^ k\<close> has at most \<open>k\<close> digits.\<close>

lemma show_base_length: "2 \<le> b \<Longrightarrow> n < b ^ k \<Longrightarrow> 0 < k \<Longrightarrow> length (show_base b n) \<le> k"
proof (induction k arbitrary: n)
  case (Suc k)
  show ?case
  proof (cases "n < b")
    case False
    then have "0 < k" using Suc.prems by (cases k) auto
    moreover have "n div b < b ^ k"
      using Suc.prems by (simp add: less_mult_imp_div_less mult.commute)
    ultimately have "length (show_base b (n div b)) \<le> k" using Suc.IH Suc.prems(1) by simp
    then show ?thesis using False Suc.prems(1) by (subst show_base.simps) simp
  qed (subst show_base.simps, simp)
qed simp

text \<open>The range of a signed 64-bit integer.\<close>

lemma sint_64_range: "- (2 ^ 63) \<le> sint (w :: 64 word)" "sint (w :: 64 word) < 2 ^ 63"
  using sint_greater_eq [of w] sint_lt [of w] by simp_all

text \<open>Greatest elements.\<close>

lemma Max_insert_max: fixes m b :: "'a::linorder"
  shows "finite S \<Longrightarrow> Max (insert (max m b) S) = max m (Max (insert b S))"
  by (cases "S = {}") (simp_all add: max.assoc)

end
