(* ===== verification/Basic_Ast.thy ===== *)
theory Basic_Ast
  imports C_Prelude
begin

text \<open>
  The abstract syntax of TeenyBASIC (\<open>project03-kweng/include/ast.h\<close> and
  \<open>src/ast.c\<close>): the tagged union of nodes as a datatype with one constructor per node
  type, the constructors \<open>init_..._node\<close> with their \<open>NULL\<close> checks (\<open>None\<close>
  is the null pointer), the debugging printer, and the list of heap blocks that \<open>free_ast\<close>
  releases.
\<close>

section \<open>Nodes\<close>

type_synonym i64 = "64 word"

datatype node_t =
    NUM i64
  | BINARY_OP char node_t node_t
  | VAR char
  | PRINT node_t
  | LET char node_t
  | LABEL string
  | GOTO string
  | COND node_t node_t

section \<open>Constructors\<close>

definition init_num_node :: "string option \<Rightarrow> node_t option" where
  "init_num_node num_as_str =
     (case num_as_str of None \<Rightarrow> None | Some s \<Rightarrow> Some (NUM (word_of_int (strtol0 s))))"

definition init_binary_node :: "char \<Rightarrow> node_t option \<Rightarrow> node_t option \<Rightarrow> node_t option" where
  "init_binary_node op left right =
     (case (left, right) of (Some l, Some r) \<Rightarrow> Some (BINARY_OP op l r) | _ \<Rightarrow> None)"

definition init_var_node :: "char \<Rightarrow> node_t option" where
  "init_var_node name = (if name = CHR 0x00 then None else Some (VAR name))"

definition init_print_node :: "node_t option \<Rightarrow> node_t option" where
  "init_print_node expr = map_option PRINT expr"

definition init_let_node :: "char \<Rightarrow> node_t option \<Rightarrow> node_t option" where
  "init_let_node name v = (if name = CHR 0x00 then None else map_option (LET name) v)"

definition init_label_node :: "string option \<Rightarrow> node_t option" where
  "init_label_node label = map_option LABEL label"

definition init_goto_node :: "string option \<Rightarrow> node_t option" where
  "init_goto_node label = map_option GOTO label"

definition init_cond_node :: "node_t option \<Rightarrow> node_t option \<Rightarrow> node_t option" where
  "init_cond_node condition if_branch =
     (case (condition, if_branch) of (Some c, Some b) \<Rightarrow> Some (COND c b) | _ \<Rightarrow> None)"

section \<open>Releasing and printing a tree\<close>

text \<open>
  A tree owns one heap block per node and one per label string.  \<open>free_ast\<close> is modelled by
  the sequence of blocks it hands to \<open>free\<close>, in order; a block is named by the path of child
  indices from the root to its node (the label string of a node is its child 0).
\<close>

type_synonym block_path = "nat list"

fun free_ast_at :: "block_path \<Rightarrow> node_t \<Rightarrow> block_path list" where
  "free_ast_at p (BINARY_OP op l r) = free_ast_at (p @ [0]) l @ free_ast_at (p @ [1]) r @ [p]"
| "free_ast_at p (PRINT e) = free_ast_at (p @ [0]) e @ [p]"
| "free_ast_at p (LET n e) = free_ast_at (p @ [0]) e @ [p]"
| "free_ast_at p (LABEL s) = [p @ [0], p]"
| "free_ast_at p (GOTO s) = [p @ [0], p]"
| "free_ast_at p (COND c b) = free_ast_at (p @ [0]) c @ free_ast_at (p @ [1]) b @ [p]"
| "free_ast_at p (NUM v) = [p]"
| "free_ast_at p (VAR n) = [p]"

definition free_ast :: "node_t option \<Rightarrow> block_path list" where
  "free_ast node = (case node of None \<Rightarrow> [] | Some n \<Rightarrow> free_ast_at [] n)"

fun print_ast :: "node_t \<Rightarrow> string" where
  "print_ast (NUM v) = show_int (sint v)"
| "print_ast (BINARY_OP op l r) = [op] @ ''('' @ print_ast l @ '', '' @ print_ast r @ '')''"
| "print_ast (VAR n) = [n]"
| "print_ast (PRINT e) = ''PRINT('' @ print_ast e @ '')''"
| "print_ast (LET n e) = ''LET('' @ [n] @ '', '' @ print_ast e @ '')''"
| "print_ast (LABEL s) = ''LABEL('' @ s @ '')''"
| "print_ast (GOTO s) = ''GOTO('' @ s @ '')''"
| "print_ast (COND c b) = ''IF('' @ print_ast c @ '', '' @ print_ast b @ '')''"

section \<open>Properties\<close>

text \<open>The blocks a node owns: itself, its label string, and what its children own.\<close>

fun owned_blocks :: "block_path \<Rightarrow> node_t \<Rightarrow> block_path set" where
  "owned_blocks p (BINARY_OP op l r) =
     insert p (owned_blocks (p @ [0]) l \<union> owned_blocks (p @ [1]) r)"
| "owned_blocks p (PRINT e) = insert p (owned_blocks (p @ [0]) e)"
| "owned_blocks p (LET n e) = insert p (owned_blocks (p @ [0]) e)"
| "owned_blocks p (LABEL s) = {p, p @ [0]}"
| "owned_blocks p (GOTO s) = {p, p @ [0]}"
| "owned_blocks p (COND c b) =
     insert p (owned_blocks (p @ [0]) c \<union> owned_blocks (p @ [1]) b)"
| "owned_blocks p (NUM v) = {p}"
| "owned_blocks p (VAR n) = {p}"

lemma free_ast_at_set: "set (free_ast_at p n) = owned_blocks p n"
  by (induction p n rule: free_ast_at.induct) auto

lemma free_ast_at_below: "q \<in> set (free_ast_at p n) \<Longrightarrow> \<exists>r. q = p @ r"
  by (induction p n rule: free_ast_at.induct) fastforce+

lemma free_ast_at_children_disjoint:
  "i \<noteq> j \<Longrightarrow> set (free_ast_at (p @ [i]) l) \<inter> set (free_ast_at (p @ [j]) r) = {}"
  by (fastforce dest: free_ast_at_below)

lemma free_ast_at_parent_notin: "p \<notin> set (free_ast_at (p @ [i]) n)"
  by (fastforce dest: free_ast_at_below)

lemma free_ast_at_distinct: "distinct (free_ast_at p n)"
  by (induction p n rule: free_ast_at.induct)
    (simp_all add: free_ast_at_children_disjoint free_ast_at_parent_notin)

end
