(* ===== verification/X86_Machine.thy ===== *)
theory X86_Machine
  imports C_Prelude
begin

text \<open>
  The fragment of x86-64 that the TeenyBASIC compiler emits: quad-word moves, stack operations,
  two's complement arithmetic, the comparison flags, conditional moves, and jumps to labels.  A
  program is a list of assembly lines; the program counter is an index into it.  The only
  instruction that leaves the program is the call of \<open>print_int\<close>, the routine of the emitted
  header that calls \<open>printf\<close>: what that call does to the caller-saved registers and to
  memory is the parameter \<open>clob\<close> of the machine.
\<close>

section \<open>Assembly lines\<close>

datatype reg = RAX | RDI | RSI | RDX | RBP | RSP

datatype asm =
    Mov_imm "64 word" reg
  | Mov_hex "64 word" reg
  | Movl_zero_eax
  | Mov reg reg
  | Load "64 word" reg
  | Store reg "64 word"
  | Push reg
  | Pop reg
  | Addq reg reg
  | Subq reg reg
  | Imulq reg reg
  | Add_imm "64 word" reg
  | Sub_imm "64 word" reg
  | Cqto
  | Idiv reg
  | Cmp reg reg
  | Cmovl reg reg
  | Cmovg reg reg
  | Cmove reg reg
  | Test reg reg
  | Je string
  | Jmp string
  | Lbl string
  | Call_print_int
  | Ret

text \<open>
  \<open>Mov_imm\<close> and \<open>Mov_hex\<close> differ only in how the constant is written;
  \<open>Movl_zero_eax\<close> is \<open>movl $0, %eax\<close>, which clears the whole of \<open>%rax\<close>.
  \<open>Load d r\<close> is \<open>mov -d(%rbp), r\<close> and \<open>Store r d\<close> is
  \<open>mov r, -d(%rbp)\<close>; two-register instructions list their operands in AT\<open>&\<close>T order, source
  first.
\<close>

section \<open>Machine states\<close>

record mach =
  pc :: nat
  regs :: "reg \<Rightarrow> 64 word"
  ZF :: bool
  SF :: bool
  OF :: bool
  memq :: "64 word \<Rightarrow> 64 word"
  printed :: "int list"

datatype outcome = Running mach | Trap mach | Done mach | Stuck mach

type_synonym clobber = "mach \<Rightarrow> mach"

abbreviation set_reg :: "reg \<Rightarrow> 64 word \<Rightarrow> mach \<Rightarrow> mach" where
  "set_reg r v s \<equiv> s\<lparr>regs := (regs s)(r := v)\<rparr>"

abbreviation set_mem :: "64 word \<Rightarrow> 64 word \<Rightarrow> mach \<Rightarrow> mach" where
  "set_mem a v s \<equiv> s\<lparr>memq := (memq s)(a := v)\<rparr>"

definition next_pc :: "mach \<Rightarrow> mach" where
  "next_pc s = s\<lparr>pc := Suc (pc s)\<rparr>"

text \<open>\<open>cmp a, b\<close> sets the flags of the subtraction \<open>b - a\<close>.\<close>

definition set_cmp :: "64 word \<Rightarrow> 64 word \<Rightarrow> mach \<Rightarrow> mach" where
  "set_cmp a b s = s\<lparr>ZF := (b = a), SF := (sint (b - a) < 0), OF := (sint (b - a) \<noteq> sint b - sint a)\<rparr>"

fun find_label :: "asm list \<Rightarrow> string \<Rightarrow> nat option" where
  "find_label [] l = None"
| "find_label (i # is) l = (if i = Lbl l then Some 0 else map_option Suc (find_label is l))"

definition jump :: "asm list \<Rightarrow> string \<Rightarrow> mach \<Rightarrow> outcome" where
  "jump p l s = (case find_label p l of None \<Rightarrow> Stuck s | Some i \<Rightarrow> Running (s\<lparr>pc := i\<rparr>))"

text \<open>
  \<open>idiv\<close> divides the signed 128-bit number in \<open>rdx:rax\<close>; after \<open>cqto\<close> that is
  the sign-extended \<open>rax\<close>.  It traps on a zero divisor and when the quotient does not fit.
\<close>

definition dividend :: "mach \<Rightarrow> int" where
  "dividend s = sint (regs s RDX) * 2 ^ 64 + uint (regs s RAX)"

definition exec_idiv :: "64 word \<Rightarrow> mach \<Rightarrow> outcome" where
  "exec_idiv d s =
     (let q = dividend s sdiv sint d; m = dividend s smod sint d in
      if sint d = 0 \<or> q < - (2 ^ 63) \<or> 2 ^ 63 \<le> q then Trap s
      else Running (next_pc (set_reg RAX (word_of_int q) (set_reg RDX (word_of_int m) s))))"

definition exec_instr :: "clobber \<Rightarrow> asm list \<Rightarrow> asm \<Rightarrow> mach \<Rightarrow> outcome" where
  "exec_instr clob p i s =
     (let g = regs s in
      case i of
        Mov_imm v r \<Rightarrow> Running (next_pc (set_reg r v s))
      | Mov_hex v r \<Rightarrow> Running (next_pc (set_reg r v s))
      | Movl_zero_eax \<Rightarrow> Running (next_pc (set_reg RAX 0 s))
      | Mov a b \<Rightarrow> Running (next_pc (set_reg b (g a) s))
      | Load d r \<Rightarrow> Running (next_pc (set_reg r (memq s (g RBP - d)) s))
      | Store r d \<Rightarrow> Running (next_pc (set_mem (g RBP - d) (g r) s))
      | Push r \<Rightarrow> Running (next_pc (set_mem (g RSP - 8) (g r) (set_reg RSP (g RSP - 8) s)))
      | Pop r \<Rightarrow>
          Running (next_pc (set_reg r (memq s (g RSP)) (set_reg RSP (g RSP + 8) s)))
      | Addq a b \<Rightarrow> Running (next_pc (set_reg b (g b + g a) s))
      | Subq a b \<Rightarrow> Running (next_pc (set_reg b (g b - g a) s))
      | Imulq a b \<Rightarrow> Running (next_pc (set_reg b (g b * g a) s))
      | Add_imm v r \<Rightarrow> Running (next_pc (set_reg r (g r + v) s))
      | Sub_imm v r \<Rightarrow> Running (next_pc (set_reg r (g r - v) s))
      | Cqto \<Rightarrow> Running (next_pc (set_reg RDX (if sint (g RAX) < 0 then - 1 else 0) s))
      | Idiv r \<Rightarrow> exec_idiv (g r) s
      | Cmp a b \<Rightarrow> Running (next_pc (set_cmp (g a) (g b) s))
      | Cmovl a b \<Rightarrow> Running (next_pc (if SF s \<noteq> OF s then set_reg b (g a) s else s))
      | Cmovg a b \<Rightarrow>
          Running (next_pc (if \<not> ZF s \<and> SF s = OF s then set_reg b (g a) s else s))
      | Cmove a b \<Rightarrow> Running (next_pc (if ZF s then set_reg b (g a) s else s))
      | Test a b \<Rightarrow>
          Running (next_pc (s\<lparr>ZF := (and (g a) (g b) = 0), SF := (sint (and (g a) (g b)) < 0),
                             OF := False\<rparr>))
      | Je l \<Rightarrow> if ZF s then jump p l s else Running (next_pc s)
      | Jmp l \<Rightarrow> jump p l s
      | Lbl l \<Rightarrow> Running (next_pc s)
      | Call_print_int \<Rightarrow>
          Running (next_pc ((clob s)\<lparr>pc := pc s, printed := printed s @ [sint (g RDI)]\<rparr>))
      | Ret \<Rightarrow> Done s)"

definition step :: "clobber \<Rightarrow> asm list \<Rightarrow> mach \<Rightarrow> outcome" where
  "step clob p s = (if pc s < length p then exec_instr clob p (p ! pc s) s else Stuck s)"

fun run :: "clobber \<Rightarrow> asm list \<Rightarrow> nat \<Rightarrow> mach \<Rightarrow> outcome" where
  "run clob p 0 s = Running s"
| "run clob p (Suc n) s = (case step clob p s of Running s' \<Rightarrow> run clob p n s' | r \<Rightarrow> r)"

section \<open>Runs compose\<close>

definition reaches :: "clobber \<Rightarrow> asm list \<Rightarrow> mach \<Rightarrow> mach \<Rightarrow> bool" where
  "reaches clob p s t \<longleftrightarrow> (\<exists>n. run clob p n s = Running t)"

definition traps :: "clobber \<Rightarrow> asm list \<Rightarrow> mach \<Rightarrow> bool" where
  "traps clob p s \<longleftrightarrow> (\<exists>n t. run clob p n s = Trap t)"

lemma run_add: "run clob p (m + n) s =
  (case run clob p m s of Running s' \<Rightarrow> run clob p n s' | r \<Rightarrow> r)"
  by (induction m arbitrary: s) (auto split: outcome.splits)

lemma reaches_refl [simp, intro]: "reaches clob p s s"
  unfolding reaches_def by (rule exI [of _ 0]) simp

lemma reaches_trans: "reaches clob p s t \<Longrightarrow> reaches clob p t u \<Longrightarrow> reaches clob p s u"
  unfolding reaches_def by (metis run_add outcome.case(1))

lemma reaches_step: "step clob p s = Running t \<Longrightarrow> reaches clob p t u \<Longrightarrow> reaches clob p s u"
  by (rule reaches_trans [of _ _ _ t])
    (auto simp: reaches_def intro!: exI [of _ "Suc 0"])

lemma traps_step: "step clob p s = Trap t \<Longrightarrow> traps clob p s"
  unfolding traps_def by (rule exI [of _ "Suc 0"]) simp

lemma reaches_traps: "reaches clob p s t \<Longrightarrow> traps clob p t \<Longrightarrow> traps clob p s"
  unfolding reaches_def traps_def by (metis run_add outcome.case(1))

text \<open>Execution of the instruction at a known place in the program.\<close>

lemma reaches_instr:
  assumes "pc s < length p" "exec_instr clob p (p ! pc s) s = Running t" "reaches clob p t u"
  shows "reaches clob p s u"
  using assms by (intro reaches_step [OF _ assms(3)]) (simp add: step_def)

lemma next_pc_simps [simp]:
  "pc (next_pc s) = Suc (pc s)" "regs (next_pc s) = regs s" "memq (next_pc s) = memq s"
  "printed (next_pc s) = printed s" "ZF (next_pc s) = ZF s" "SF (next_pc s) = SF s"
  "OF (next_pc s) = OF s"
  by (simp_all add: next_pc_def)

section \<open>The flags of a comparison decide the signed order\<close>

lemma signed_take_bit_63_eqI:
  fixes x y k :: int
  assumes "x = y + k * 2 ^ 64" "- (2 ^ 63) \<le> y" "y < 2 ^ 63"
  shows "signed_take_bit 63 x = y"
proof -
  have "x + 2 ^ 63 = (y + 2 ^ 63) + k * 2 ^ 64"
    by (simp add: assms(1))
  then have "(x + 2 ^ 63) mod 2 ^ 64 = (y + 2 ^ 63) mod 2 ^ 64"
    by (simp only: mod_mult_self1)
  also have "\<dots> = y + 2 ^ 63"
    using assms(2,3) by (intro mod_pos_pos_trivial) simp_all
  finally show ?thesis
    by (simp add: signed_take_bit_eq_take_bit_shift take_bit_eq_mod)
qed

lemma sint_diff_64_cases:
  fixes a b :: "64 word"
  shows "sint (b - a) = sint b - sint a
    \<or> (sint b - sint a < - (2 ^ 63) \<and> sint (b - a) = sint b - sint a + 2 ^ 64)
    \<or> (2 ^ 63 \<le> sint b - sint a \<and> sint (b - a) = sint b - sint a - 2 ^ 64)"
proof -
  have eq: "sint (b - a) = signed_take_bit 63 (sint b - sint a)"
    by (simp add: sint_word_ariths)
  have r: "- (2 ^ 63) \<le> sint b" "sint b < 2 ^ 63" "- (2 ^ 63) \<le> sint a" "sint a < 2 ^ 63"
    by (rule sint_64_range)+
  consider "sint b - sint a < - (2 ^ 63)" | "2 ^ 63 \<le> sint b - sint a"
    | "- (2 ^ 63) \<le> sint b - sint a" "sint b - sint a < 2 ^ 63"
    by linarith
  then show ?thesis
  proof cases
    case 1
    then have "sint (b - a) = sint b - sint a + 2 ^ 64"
      unfolding eq using r by (intro signed_take_bit_63_eqI [where k = "- 1"]) simp_all
    with 1 show ?thesis by blast
  next
    case 2
    then have "sint (b - a) = sint b - sint a - 2 ^ 64"
      unfolding eq using r by (intro signed_take_bit_63_eqI [where k = 1]) simp_all
    with 2 show ?thesis by blast
  next
    case 3
    then have "sint (b - a) = sint b - sint a"
      unfolding eq by (intro signed_take_bit_63_eqI [where k = 0]) simp_all
    then show ?thesis by blast
  qed
qed

lemma cmp_signed_less:
  "(SF (set_cmp a b s) \<noteq> OF (set_cmp a b s)) = (sint b < sint a)"
  using sint_diff_64_cases [of b a] sint_64_range [of b] sint_64_range [of a]
  by (auto simp: set_cmp_def)

lemma cmp_signed_greater:
  "(\<not> ZF (set_cmp a b s) \<and> SF (set_cmp a b s) = OF (set_cmp a b s)) = (sint a < sint b)"
proof -
  have "b = a \<longleftrightarrow> sint b = sint a"
    by (auto intro: signed_word_eqI)
  with cmp_signed_less [of a b s] show ?thesis
    by (auto simp: set_cmp_def)
qed

lemma set_cmp_simps [simp]:
  "regs (set_cmp a b s) = regs s" "memq (set_cmp a b s) = memq s" "pc (set_cmp a b s) = pc s"
  "printed (set_cmp a b s) = printed s" "ZF (set_cmp a b s) = (b = a)"
  by (simp_all add: set_cmp_def)

lemma sint_uint_64_cases:
  "sint (w :: 64 word) = uint w \<or> sint w = uint w - 2 ^ 64 \<and> sint w < 0"
proof -
  have r: "0 \<le> uint w" "uint w < 2 ^ 64"
    using uint_lt2p [of w] by simp_all
  have eq: "sint w = signed_take_bit 63 (uint w)"
    by (simp add: sint_uint)
  show ?thesis
  proof (cases "uint w < 2 ^ 63")
    case True
    then have "sint w = uint w"
      unfolding eq using r by (intro signed_take_bit_63_eqI [where k = 0]) linarith+
    then show ?thesis ..
  next
    case False
    then have "sint w = uint w - 2 ^ 64"
      unfolding eq using r by (intro signed_take_bit_63_eqI [where k = 1]) simp_all
    with r show ?thesis by simp
  qed
qed

text \<open>After \<open>cqto\<close>, the dividend is the signed value of \<open>rax\<close>.\<close>

lemma dividend_cqto:
  "regs s RDX = (if sint (regs s RAX) < 0 then - 1 else 0) \<Longrightarrow> dividend s = sint (regs s RAX)"
proof -
  assume h: "regs s RDX = (if sint (regs s RAX) < 0 then - 1 else 0)"
  have "sint (regs s RAX) = uint (regs s RAX) \<or>
        sint (regs s RAX) = uint (regs s RAX) - 2 ^ 64 \<and> sint (regs s RAX) < 0"
    by (rule sint_uint_64_cases)
  with h uint_nonnegative [of "regs s RAX"] show ?thesis by (auto simp: dividend_def)
qed

end
