(* ===== verification/Basic_Correct.thy ===== *)
theory Basic_Correct
  imports Basic_Compile
begin

text \<open>
  Correctness of the TeenyBASIC compiler: the code of an expression leaves its value in
  \<open>%rax\<close> and touches only the stack below \<open>%rsp\<close>; the code of a statement
  simulates one step of the program; the whole output runs to its \<open>ret\<close> and prints what the
  program prints.
\<close>

section \<open>Slots of the frame\<close>

text \<open>\<open>slot s n\<close> is the quad-word \<open>n\<close> bytes below the frame pointer.\<close>

definition slot :: "mach \<Rightarrow> nat \<Rightarrow> i64" where
  "slot s n = memq s (regs s RBP - of_nat n)"

definition var_slot :: "char \<Rightarrow> nat" where
  "var_slot c = 8 * (of_char c - 65)"

lemma addr_below_eq_iff:
  assumes "a < 2 ^ 64" "b < 2 ^ 64"
  shows "(w :: 64 word) - of_nat a = w - of_nat b \<longleftrightarrow> a = b"
proof -
  have "unat (of_nat a :: 64 word) = a" "unat (of_nat b :: 64 word) = b"
    using assms by (simp_all add: unat_of_nat)
  then have "(of_nat a :: 64 word) = of_nat b \<longleftrightarrow> a = b"
    by metis
  then show ?thesis by simp
qed

lemma isupper_code:
  assumes "isupper c"
  obtains n :: nat where "(of_char c :: nat) = 65 + n" "n \<le> 25" "schar c = 65 + int n"
proof -
  define m :: nat where "m = of_char c"
  have "(of_char c :: int) = int m" by (simp add: m_def of_nat_of_char)
  with assms have "(of_char c :: nat) = 65 + (m - 65)" "m - 65 \<le> 25" "schar c = 65 + int (m - 65)"
    by (auto simp: isupper_def schar_def m_def [symmetric])
  then show thesis by (rule that)
qed

lemma var_offset_slot: "isupper c \<Longrightarrow> var_offset c = of_nat (var_slot c)"
  by (erule isupper_code) (simp add: var_offset_def var_slot_def bytes_per_int_def ascii_offset_def)

lemma var_slot_bound: "isupper c \<Longrightarrow> var_slot c \<le> 200"
  by (erule isupper_code) (simp add: var_slot_def)

lemma var_slot_inj: "isupper c \<Longrightarrow> isupper d \<Longrightarrow> var_slot c = var_slot d \<longleftrightarrow> c = d"
proof -
  assume "isupper c" "isupper d"
  then obtain m n where "(of_char c :: nat) = 65 + m" "(of_char d :: nat) = 65 + n"
    by (metis isupper_code)
  then have "var_slot c = var_slot d \<longleftrightarrow> (of_char c :: nat) = of_char d"
    by (simp add: var_slot_def)
  then show ?thesis by (metis char_of_char)
qed

section \<open>The simulation relation\<close>

definition vars_match :: "env \<Rightarrow> mach \<Rightarrow> bool" where
  "vars_match env s \<longleftrightarrow> (\<forall>c. isupper c \<longrightarrow> slot s (var_slot c) = env c)"

text \<open>
  \<open>frame_ok d s\<close>: the stack pointer is \<open>d\<close> pushes below the frame of 0xd0 bytes.
  \<open>kept d s t\<close>: from \<open>s\<close> to \<open>t\<close> the frame pointer, the stack pointer, the output and
  every slot down to the stack pointer are unchanged.
\<close>

definition frame_ok :: "nat \<Rightarrow> mach \<Rightarrow> bool" where
  "frame_ok d s \<longleftrightarrow> regs s RSP = regs s RBP - of_nat (208 + 8 * d)"

definition kept :: "nat \<Rightarrow> mach \<Rightarrow> mach \<Rightarrow> bool" where
  "kept d s t \<longleftrightarrow> regs t RBP = regs s RBP \<and> regs t RSP = regs s RSP \<and> printed t = printed s
     \<and> (\<forall>n. n \<le> 208 + 8 * d \<longrightarrow> slot t n = slot s n)"

lemma kept_refl: "kept d s s"
  by (simp add: kept_def)

lemma kept_trans: "kept d s t \<Longrightarrow> kept d t u \<Longrightarrow> kept d s u"
  by (simp add: kept_def)

lemma kept_mono: "kept d s t \<Longrightarrow> d' \<le> d \<Longrightarrow> kept d' s t"
  by (auto simp: kept_def)

lemma kept_vars: "kept d s t \<Longrightarrow> vars_match env s \<Longrightarrow> vars_match env t"
proof -
  assume k: "kept d s t" and m: "vars_match env s"
  have "slot t (var_slot c) = env c" if "isupper c" for c
    using k m that var_slot_bound [OF that] by (simp add: kept_def vars_match_def)
  then show ?thesis by (simp add: vars_match_def)
qed

lemma kept_frame: "kept d s t \<Longrightarrow> frame_ok d' s \<Longrightarrow> frame_ok d' t"
  by (simp add: kept_def frame_ok_def)

section \<open>Expressions\<close>

fun stack_need :: "node_t \<Rightarrow> nat" where
  "stack_need (BINARY_OP op l r) = max (stack_need l) (Suc (stack_need r))"
| "stack_need (PRINT e) = stack_need e"
| "stack_need (LET n e) = stack_need e"
| "stack_need (COND c b) = max (stack_need c) (stack_need b)"
| "stack_need _ = 0"

fun expr_code :: "node_t \<Rightarrow> asm list" where
  "expr_code (NUM v) = [Mov_imm v RAX]"
| "expr_code (VAR n) = [Load (var_offset n) RAX]"
| "expr_code (BINARY_OP op l r) =
     expr_code l @ [Push RAX] @ expr_code r @ [Pop RDI] @ snd (compile_op op)"
| "expr_code _ = []"

lemma compile_op_known: "op \<in> set ''+-*/<>='' \<Longrightarrow> fst (compile_op op)"
  by (auto simp: compile_op_def Let_def)

lemma compile_ast_expr: "wf_expr e \<Longrightarrow> compile_ast e k = (True, expr_code e, k)"
proof (induction e arbitrary: k)
  case (BINARY_OP op l r)
  then show ?case
    using compile_op_known [of op] by (cases "compile_op op") (auto simp: Let_def)
qed simp_all

text \<open>Code in the middle of a program, and running its first instruction.\<close>

definition code_at :: "asm list \<Rightarrow> nat \<Rightarrow> asm list \<Rightarrow> bool" where
  "code_at p i c \<longleftrightarrow> i \<le> length p \<and> take (length c) (drop i p) = c"

lemma code_at_append: "code_at p i (c @ d) \<longleftrightarrow> code_at p i c \<and> code_at p (i + length c) d"
proof -
  have "take (length (c @ d)) (drop i p) =
      take (length c) (drop i p) @ take (length d) (drop (i + length c) p)"
    by (simp add: take_add add.commute)
  moreover have "length (take (length c) (drop i p)) = length c"
    if "i \<le> length p" "i + length c \<le> length p" using that by simp
  moreover have "i + length c \<le> length p" if "i \<le> length p" "take (length c) (drop i p) = c"
    using arg_cong [OF that(2), of length] that(1) by simp
  moreover have "i + length c \<le> length p"
    if "i \<le> length p" "take (length (c @ d)) (drop i p) = c @ d"
    using arg_cong [OF that(2), of length] that(1) by simp
  ultimately show ?thesis
    unfolding code_at_def by (metis append_eq_append_conv)
qed

lemma code_at_Cons: "code_at p i (x # c) \<longleftrightarrow> i < length p \<and> p ! i = x \<and> code_at p (Suc i) c"
proof -
  have "code_at p i [x] \<longleftrightarrow> i < length p \<and> p ! i = x"
    unfolding code_at_def
    by (cases "i < length p") (auto simp: Cons_nth_drop_Suc [symmetric] simp del: Cons_nth_drop_Suc)
  then show ?thesis
    using code_at_append [of p i "[x]" c] by simp
qed

lemma code_at_Nil: "code_at p i [] \<longleftrightarrow> i \<le> length p"
  by (simp add: code_at_def)

lemmas code_at_simps = code_at_append code_at_Cons code_at_Nil

lemma reaches_at:
  assumes "code_at p (pc s) (x # c)" "exec_instr clob p x s = Running t" "reaches clob p t u"
  shows "reaches clob p s u"
  using assms reaches_instr [of s p clob t u] by (simp add: code_at_Cons)

text \<open>
  What the operator's lines do, once the operands are in place: the result in \<open>%rax\<close>, or a
  trap, and no effect beyond the scratch registers and the flags.
\<close>

definition computes :: "clobber \<Rightarrow> asm list \<Rightarrow> nat \<Rightarrow> mach \<Rightarrow> nat \<Rightarrow> i64 option \<Rightarrow> bool" where
  "computes clob p d s n r \<longleftrightarrow>
     (case r of
        None \<Rightarrow> traps clob p s
      | Some v \<Rightarrow> \<exists>t. reaches clob p s t \<and> pc t = pc s + n \<and> regs t RAX = v \<and> kept d s t)"

lemma computes_step:
  assumes "code_at p (pc s) (x # c)" "exec_instr clob p x s = Running t"
    "pc t = Suc (pc s)" "kept d s t" "computes clob p d t n r"
  shows "computes clob p d s (Suc n) r"
proof (cases r)
  case None
  with assms show ?thesis
    using reaches_at [OF assms(1,2) reaches_refl] by (auto simp: computes_def intro: reaches_traps)
next
  case (Some v)
  with assms(5) obtain u where "reaches clob p t u" "pc u = pc t + n" "regs u RAX = v" "kept d t u"
    by (auto simp: computes_def)
  with Some assms show ?thesis
    using reaches_at [OF assms(1,2)] kept_trans [of d s t u] by (auto simp: computes_def)
qed

lemma computes_done: "regs s RAX = v \<Longrightarrow> computes clob p d s 0 (Some v)"
  by (auto simp: computes_def kept_refl)

lemma kept_set_reg:
  "r \<noteq> RBP \<Longrightarrow> r \<noteq> RSP \<Longrightarrow> kept d s (next_pc (set_reg r v s))"
  by (simp add: kept_def slot_def)

lemma kept_set_cmp: "kept d s (next_pc (set_cmp a b s))"
  by (simp add: kept_def slot_def)

lemma kept_next_pc: "kept d s (next_pc s)"
  by (simp add: kept_def slot_def)

lemmas kept_intros = kept_set_reg kept_set_cmp kept_next_pc

lemma exec_instr_moves [simp]:
  "exec_instr clob p (Mov_imm v r) s = Running (next_pc (set_reg r v s))"
  "exec_instr clob p (Mov_hex v r) s = Running (next_pc (set_reg r v s))"
  "exec_instr clob p (Mov a b) s = Running (next_pc (set_reg b (regs s a) s))"
  "exec_instr clob p (Addq a b) s = Running (next_pc (set_reg b (regs s b + regs s a) s))"
  "exec_instr clob p (Subq a b) s = Running (next_pc (set_reg b (regs s b - regs s a) s))"
  "exec_instr clob p (Imulq a b) s = Running (next_pc (set_reg b (regs s b * regs s a) s))"
  "exec_instr clob p (Cmp a b) s = Running (next_pc (set_cmp (regs s a) (regs s b) s))"
  "exec_instr clob p (Lbl l) s = Running (next_pc s)"
  "exec_instr clob p (Load d r) s = Running (next_pc (set_reg r (memq s (regs s RBP - d)) s))"
  "exec_instr clob p (Jmp l) s = jump p l s"
  by (simp_all add: exec_instr_def Let_def)

lemma computes_reg:
  assumes "code_at p (pc s) (x # c)" "exec_instr clob p x s = Running (next_pc (set_reg r v s))"
    "r \<noteq> RBP" "r \<noteq> RSP" "computes clob p d (next_pc (set_reg r v s)) n res"
  shows "computes clob p d s (Suc n) res"
  using assms by (intro computes_step [OF assms(1,2) _ _ assms(5)]) (simp_all add: kept_set_reg)

text \<open>The comparison sequence: the flags survive the two moves before the conditional move.\<close>

lemma computes_compare:
  assumes "code_at p (pc s) [Cmp RAX RDI, Mov_hex 0 RAX, Mov_hex 1 RSI, i]"
    and i: "\<And>u. regs u RSI = 1 \<Longrightarrow> exec_instr clob p i u =
      Running (next_pc (if test (ZF u) (SF u) (OF u) then set_reg RAX 1 u else u))"
    and t: "let c = set_cmp (regs s RAX) (regs s RDI) s in test (ZF c) (SF c) (OF c) = b"
  shows "computes clob p d s 4 (Some (if b then 1 else 0))"
proof -
  define s1 where "s1 = next_pc (set_cmp (regs s RAX) (regs s RDI) s)"
  define s2 where "s2 = next_pc (set_reg RAX 0 s1)"
  define s3 where "s3 = next_pc (set_reg RSI 1 s2)"
  define s4 where "s4 = next_pc (if b then set_reg RAX 1 s3 else s3)"
  have at: "code_at p (pc s1) [Mov_hex 0 RAX, Mov_hex 1 RSI, i]"
    "code_at p (pc s2) [Mov_hex 1 RSI, i]" "code_at p (pc s3) [i]"
    using assms(1) by (simp_all add: s1_def s2_def s3_def code_at_Cons)
  have "exec_instr clob p i s3 = Running s4"
    using t by (subst i) (auto simp: s4_def s3_def s2_def s1_def Let_def set_cmp_def)
  moreover have "kept d s3 s4" "pc s4 = Suc (pc s3)"
    by (simp_all add: s4_def kept_intros)
  moreover have "regs s4 RAX = (if b then 1 else 0)"
    by (simp add: s4_def s3_def s2_def)
  ultimately have "computes clob p d s3 (Suc 0) (Some (if b then 1 else 0))"
    by (intro computes_step [OF at(3)]) (auto intro: computes_done)
  then have "computes clob p d s2 (Suc (Suc 0)) (Some (if b then 1 else 0))"
    unfolding s3_def by (intro computes_reg [OF at(2)]) simp_all
  then have "computes clob p d s1 (Suc (Suc (Suc 0))) (Some (if b then 1 else 0))"
    unfolding s2_def by (intro computes_reg [OF at(1)]) simp_all
  then have "computes clob p d s (Suc (Suc (Suc (Suc 0)))) (Some (if b then 1 else 0))"
    unfolding s1_def by (intro computes_step [OF assms(1)]) (simp_all add: kept_set_cmp)
  then show ?thesis by (simp add: numeral_eq_Suc)
qed

lemma cmov_exec:
  "regs u RSI = 1 \<Longrightarrow> exec_instr clob p (Cmovl RSI RAX) u =
     Running (next_pc (if SF u \<noteq> OF u then set_reg RAX 1 u else u))"
  "regs u RSI = 1 \<Longrightarrow> exec_instr clob p (Cmovg RSI RAX) u =
     Running (next_pc (if \<not> ZF u \<and> SF u = OF u then set_reg RAX 1 u else u))"
  "regs u RSI = 1 \<Longrightarrow> exec_instr clob p (Cmove RSI RAX) u =
     Running (next_pc (if ZF u then set_reg RAX 1 u else u))"
  by (simp_all add: exec_instr_def)

lemma sdiv_64_range:
  fixes a b :: "64 word"
  assumes "b \<noteq> 0"
  shows "- (2 ^ 63) \<le> sint a sdiv sint b" "sint a sdiv sint b \<le> 2 ^ 63"
proof -
  have b: "1 \<le> \<bar>sint b\<bar>"
    using assms by (metis abs_ge_zero abs_le_zero_iff int_one_le_iff_zero_less order_le_less sint_0
      signed_word_eqI)
  have "\<bar>sint a\<bar> \<le> 2 ^ 63"
    using sint_64_range [of a] by linarith
  moreover have "\<bar>sint a\<bar> div \<bar>sint b\<bar> \<le> \<bar>sint a\<bar>"
    using b by (metis abs_ge_zero div_by_1 zdiv_mono2 zero_less_one)
  moreover have "\<bar>sint a sdiv sint b\<bar> = \<bar>sint a\<bar> div \<bar>sint b\<bar>"
    by (simp add: signed_divide_int_def abs_mult sgn_if pos_imp_zdiv_nonneg_iff)
  ultimately show "- (2 ^ 63) \<le> sint a sdiv sint b" "sint a sdiv sint b \<le> 2 ^ 63"
    by linarith+
qed

lemma computes_divide:
  assumes at: "code_at p (pc s) [Mov RAX RSI, Mov RDI RAX, Cqto, Idiv RSI]"
  shows "computes clob p d s 4 (apply_op CHR ''/'' (regs s RDI) (regs s RAX))"
proof -
  define a where "a = regs s RDI"
  define b where "b = regs s RAX"
  define s1 where "s1 = next_pc (set_reg RSI b s)"
  define s2 where "s2 = next_pc (set_reg RAX a s1)"
  define s3 where "s3 = next_pc (set_reg RDX (if sint a < 0 then - 1 else 0) s2)"
  have ats: "code_at p (pc s1) [Mov RDI RAX, Cqto, Idiv RSI]" "code_at p (pc s2) [Cqto, Idiv RSI]"
    "code_at p (pc s3) [Idiv RSI]"
    using at by (simp_all add: s1_def s2_def s3_def code_at_Cons)
  have regs3: "regs s3 RAX = a" "regs s3 RSI = b" "dividend s3 = sint a"
    by (simp_all add: s3_def s2_def s1_def dividend_cqto)
  have b0: "sint b = 0 \<longleftrightarrow> b = 0"
    by (metis sint_0 signed_word_eqI)
  have "computes clob p d s3 (Suc 0) (apply_op CHR ''/'' a b)"
  proof (cases "b = 0 \<or> sint a sdiv sint b = 2 ^ 63")
    case True
    then have "exec_instr clob p (Idiv RSI) s3 = Trap s3"
      by (auto simp: exec_instr_def exec_idiv_def regs3 b0 Let_def)
    then have "traps clob p s3"
      using ats(3) by (intro traps_step) (simp add: step_def code_at_Cons)
    with True show ?thesis by (auto simp: computes_def apply_op_def)
  next
    case False
    define s4 where "s4 = next_pc (set_reg RAX (word_of_int (sint a sdiv sint b))
      (set_reg RDX (word_of_int (sint a smod sint b)) s3))"
    have "exec_instr clob p (Idiv RSI) s3 = Running s4"
      using False sdiv_64_range [of b a]
      by (auto simp: exec_instr_def exec_idiv_def regs3 b0 Let_def s4_def)
    moreover have "kept d s3 s4" by (simp add: s4_def kept_def slot_def)
    ultimately have "computes clob p d s3 (Suc 0) (Some (word_of_int (sint a sdiv sint b)))"
      by (intro computes_step [OF ats(3)]) (auto intro!: computes_done simp: s4_def)
    with False show ?thesis by (simp add: apply_op_def)
  qed
  then have "computes clob p d s2 (Suc (Suc 0)) (apply_op CHR ''/'' a b)"
    unfolding s3_def by (intro computes_reg [OF ats(2)]) (simp_all add: exec_instr_def s2_def)
  then have "computes clob p d s1 (Suc (Suc (Suc 0))) (apply_op CHR ''/'' a b)"
    unfolding s2_def by (intro computes_reg [OF ats(1)]) (simp_all add: s1_def a_def)
  then have "computes clob p d s (Suc (Suc (Suc (Suc 0)))) (apply_op CHR ''/'' a b)"
    unfolding s1_def by (intro computes_reg [OF at]) (simp_all add: b_def)
  then show ?thesis by (simp add: numeral_eq_Suc a_def b_def)
qed

lemma computes_op:
  assumes at: "code_at p (pc s) (snd (compile_op op))" and op: "op \<in> set ''+-*/<>=''"
    and r: "regs s RDI = a" "regs s RAX = b"
  shows "computes clob p d s (length (snd (compile_op op))) (apply_op op a b)"
proof -
  consider "op = CHR ''+''" | "op = CHR ''-''" | "op = CHR ''*''" | "op = CHR ''/''"
    | "op = CHR ''<''" | "op = CHR ''>''" | "op = CHR ''=''"
    using op by auto
  then show ?thesis
  proof cases
    case 1
    with at r show ?thesis
      by (auto simp: compile_op_def apply_op_def add.commute
        intro!: computes_reg [where c = "[]"] computes_done)
  next
    case 2
    define s1 where "s1 = next_pc (set_reg RDI (a - b) s)"
    have ats: "code_at p (pc s) [Subq RAX RDI, Mov RDI RAX]" "code_at p (pc s1) [Mov RDI RAX]"
      using at 2 by (simp_all add: compile_op_def s1_def code_at_Cons)
    have "computes clob p d s1 (Suc 0) (Some (a - b))"
      by (rule computes_reg [OF ats(2), where r = RAX and v = "a - b"])
        (simp_all add: s1_def computes_done)
    then have "computes clob p d s (Suc (Suc 0)) (Some (a - b))"
      unfolding s1_def by (intro computes_reg [OF ats(1)]) (simp_all add: r)
    with 2 show ?thesis by (simp add: compile_op_def apply_op_def)
  next
    case 3
    with at r show ?thesis
      by (auto simp: compile_op_def apply_op_def mult.commute
        intro!: computes_reg [where c = "[]"] computes_done)
  next
    case 4
    with at r show ?thesis
      using computes_divide [of p s clob d] by (simp add: compile_op_def numeral_eq_Suc)
  next
    case 5
    with at r show ?thesis
      using computes_compare [of p s "Cmovl RSI RAX" clob "\<lambda>z s v. s \<noteq> v" "sint a < sint b" d]
        cmp_signed_less [of b a s]
      by (simp add: compile_op_def apply_op_def cmov_exec Let_def numeral_eq_Suc)
  next
    case 6
    with at r show ?thesis
      using computes_compare [of p s "Cmovg RSI RAX" clob "\<lambda>z s v. \<not> z \<and> s = v" "sint b < sint a" d]
        cmp_signed_greater [of b a s]
      by (simp add: compile_op_def apply_op_def cmov_exec Let_def numeral_eq_Suc)
  next
    case 7
    with at r show ?thesis
      using computes_compare [of p s "Cmove RSI RAX" clob "\<lambda>z s v. z" "a = b" d]
      by (simp add: compile_op_def apply_op_def cmov_exec Let_def numeral_eq_Suc)
  qed
qed

lemma computes_trans:
  assumes "reaches clob p s t" "pc t = pc s + m" "kept d s t" "computes clob p d t n r"
  shows "computes clob p d s (m + n) r"
proof (cases r)
  case None
  with assms show ?thesis by (auto simp: computes_def intro: reaches_traps)
next
  case (Some v)
  with assms(4) obtain u where "reaches clob p t u" "pc u = pc t + n" "regs u RAX = v" "kept d t u"
    by (auto simp: computes_def)
  with Some assms show ?thesis
    by (auto simp: computes_def intro!: exI [of _ u] intro: reaches_trans kept_trans)
qed

text \<open>A push keeps the frame; the matching pop brings the pushed value back.\<close>

definition pushed :: "mach \<Rightarrow> mach" where
  "pushed s = next_pc (set_mem (regs s RSP - 8) (regs s RAX) (set_reg RSP (regs s RSP - 8) s))"

lemma push_frame:
  assumes "frame_ok d s" "208 + 8 * Suc d < 2 ^ 64"
  shows "frame_ok (Suc d) (pushed s)" "slot (pushed s) (208 + 8 * Suc d) = regs s RAX"
    "n \<le> 208 + 8 * d \<Longrightarrow> slot (pushed s) n = slot s n"
    "regs (pushed s) RBP = regs s RBP" "printed (pushed s) = printed s"
    "pc (pushed s) = Suc (pc s)"
proof -
  have sp: "regs s RSP - 8 = regs s RBP - of_nat (208 + 8 * Suc d)"
    using assms(1) by (simp add: frame_ok_def)
  show "frame_ok (Suc d) (pushed s)" "slot (pushed s) (208 + 8 * Suc d) = regs s RAX"
    by (simp_all only: frame_ok_def slot_def pushed_def sp) simp_all
  show "n \<le> 208 + 8 * d \<Longrightarrow> slot (pushed s) n = slot s n"
    using addr_below_eq_iff [of n "208 + 8 * Suc d" "regs s RBP"] assms(2)
    unfolding slot_def pushed_def sp by simp
  show "regs (pushed s) RBP = regs s RBP" "printed (pushed s) = printed s"
    "pc (pushed s) = Suc (pc s)"
    by (simp_all add: pushed_def)
qed

lemma exec_push_pop [simp]:
  "exec_instr clob p (Push RAX) s = Running (pushed s)"
  "exec_instr clob p (Pop RDI) s =
     Running (next_pc (set_reg RDI (memq s (regs s RSP)) (set_reg RSP (regs s RSP + 8) s)))"
  by (simp_all add: exec_instr_def pushed_def Let_def)

text \<open>An operation pushes the left operand while the right one is computed.\<close>

lemma computes_binary:
  assumes at: "code_at p (pc s) (expr_code (BINARY_OP op l r))" and env: "vars_match env s" "frame_ok d s"
    and op: "op \<in> set ''+-*/<>=''" and room: "208 + 8 * Suc d < 2 ^ 64"
    and l: "computes clob p d s (length (expr_code l)) (eval_node env l)"
    and right: "\<And>t. code_at p (pc t) (expr_code r) \<Longrightarrow> vars_match env t \<Longrightarrow> frame_ok (Suc d) t \<Longrightarrow>
      computes clob p (Suc d) t (length (expr_code r)) (eval_node env r)"
  shows "computes clob p d s (length (expr_code (BINARY_OP op l r))) (eval_node env (BINARY_OP op l r))"
proof -
  let ?cl = "expr_code l" and ?cr = "expr_code r" and ?co = "snd (compile_op op)"
  have at_l: "code_at p (pc s) ?cl"
    and at_push: "code_at p (pc s + length ?cl) [Push RAX]"
    and at_r: "code_at p (pc s + length ?cl + 1) ?cr"
    and at_pop: "code_at p (pc s + length ?cl + 1 + length ?cr) [Pop RDI]"
    and at_op: "code_at p (pc s + length ?cl + 1 + length ?cr + 1) ?co"
    using at by (simp_all add: code_at_simps)
  show ?thesis
  proof (cases "eval_node env l")
    case None
    with l show ?thesis by (simp add: computes_def)
  next
    case (Some a)
    with l obtain t1 where t1: "reaches clob p s t1" "pc t1 = pc s + length ?cl"
      "regs t1 RAX = a" "kept d s t1" by (auto simp: computes_def)
    have f1: "frame_ok d t1" and v1: "vars_match env t1"
      using t1(4) env by (auto intro: kept_frame kept_vars)
    let ?t2 = "pushed t1"
    note push = push_frame [OF f1 room]
    have s2: "reaches clob p s ?t2" "pc ?t2 = pc s + length ?cl + 1"
      using reaches_trans [OF t1(1) reaches_at [OF _ _ reaches_refl]] at_push
      by (simp_all add: t1(2) push)
    have v2: "vars_match env ?t2"
      unfolding vars_match_def
    proof (intro allI impI)
      fix c assume "isupper c"
      then show "slot ?t2 (var_slot c) = env c"
        using v1 push(3) [of "var_slot c"] var_slot_bound [of c] by (simp add: vars_match_def)
    qed
    have r: "computes clob p (Suc d) ?t2 (length ?cr) (eval_node env r)"
      using at_r by (intro right [OF _ v2 push(1)]) (simp add: s2(2))
    show ?thesis
    proof (cases "eval_node env r")
      case None
      with r s2 Some show ?thesis by (auto simp: computes_def intro: reaches_traps)
    next
      case (Some b)
      with r obtain t3 where t3: "reaches clob p ?t2 t3" "pc t3 = pc ?t2 + length ?cr"
        "regs t3 RAX = b" "kept (Suc d) ?t2 t3" by (auto simp: computes_def)
      define t4 where
        "t4 = next_pc (set_reg RDI (memq t3 (regs t3 RSP)) (set_reg RSP (regs t3 RSP + 8) t3))"
      have f3: "frame_ok (Suc d) t3" using t3(4) push(1) by (rule kept_frame)
      have "slot t3 (208 + 8 * Suc d) = a"
        using t3(4) push(2) t1(3) by (simp add: kept_def)
      with f3 have pop: "memq t3 (regs t3 RSP) = a"
        by (simp add: frame_ok_def slot_def)
      have "regs t4 RSP = regs t1 RSP"
        using f1 f3 t3(4) push(4) by (simp add: t4_def frame_ok_def kept_def)
      moreover have "slot t4 n = slot t3 n" for n
        by (simp add: slot_def t4_def)
      ultimately have k4: "kept d s t4"
        using t1(4) t3(4) push(3,4,5) by (simp add: kept_def t4_def)
      have at4: "pc t4 = pc s + length ?cl + 1 + length ?cr + 1"
        using t3(2) s2(2) by (simp add: t4_def)
      have s4: "reaches clob p s t4"
        using reaches_trans [OF reaches_trans [OF s2(1) t3(1)] reaches_at [OF _ _ reaches_refl]]
          at_pop t3(2) s2(2) by (simp add: t4_def)
      have "computes clob p d t4 (length ?co) (apply_op op a b)"
        using at_op op pop t3(3)
        by (intro computes_op) (simp_all add: at4, simp_all add: t4_def)
      from computes_trans [OF s4 _ k4 this, of "length ?cl + 1 + length ?cr + 1"]
      show ?thesis using Some \<open>eval_node env l = Some a\<close> at4 by (simp add: add.assoc)
    qed
  qed
qed

lemma expr_computes:
  assumes "wf_expr e" "code_at p (pc s) (expr_code e)" "vars_match env s" "frame_ok d s"
    "208 + 8 * (d + stack_need e) < 2 ^ 64"
  shows "computes clob p d s (length (expr_code e)) (eval_node env e)"
  using assms
proof (induction e arbitrary: s d)
  case (NUM v)
  then show ?case
    by (auto intro!: computes_reg [where c = "[]"] computes_done)
next
  case (VAR n)
  then show ?case
    by (auto simp: vars_match_def slot_def var_offset_slot
      intro!: computes_reg [where c = "[]"] computes_done)
next
  case (BINARY_OP op l r)
  have wf: "wf_expr l" "wf_expr r" "op \<in> set ''+-*/<>=''"
    using BINARY_OP.prems(1) by simp_all
  have need: "208 + 8 * (d + stack_need l) < 2 ^ 64" "208 + 8 * (Suc d + stack_need r) < 2 ^ 64"
    using BINARY_OP.prems(5) by (simp_all add: max_def split: if_splits)
  have "code_at p (pc s) (expr_code l)" using BINARY_OP.prems(2) by (simp add: code_at_simps)
  from BINARY_OP.IH(1) [OF wf(1) this BINARY_OP.prems(3,4) need(1)] show ?case
    using need(2) by (intro computes_binary [OF BINARY_OP.prems(2-4) wf(3)] BINARY_OP.IH(2) [OF wf(2)]) simp_all
qed simp_all

section \<open>Statements\<close>

fun nconds :: "node_t \<Rightarrow> nat" where
  "nconds (COND c b) = Suc (nconds b)"
| "nconds _ = 0"

text \<open>
  The code of a statement is its core followed by the labels of the conditionals nested in it,
  innermost first.
\<close>

fun stmt_core :: "node_t \<Rightarrow> nat \<Rightarrow> asm list" where
  "stmt_core (LABEL l) k = [Lbl (user_label l)]"
| "stmt_core (PRINT e) k = expr_code e @ [Mov RAX RDI, Call_print_int]"
| "stmt_core (LET n e) k = expr_code e @ [Store RAX (var_offset n)]"
| "stmt_core (GOTO l) k = [Jmp (user_label l)]"
| "stmt_core (COND c b) k = expr_code c @ [Test RAX RAX, Je (cond_label k)] @ stmt_core b k"
| "stmt_core _ k = []"

definition cond_labels :: "nat \<Rightarrow> nat \<Rightarrow> asm list" where
  "cond_labels k n = map (\<lambda>j. Lbl (cond_label j)) [k..<k + n]"

definition stmt_code :: "node_t \<Rightarrow> nat \<Rightarrow> asm list" where
  "stmt_code n k = stmt_core n k @ cond_labels k (nconds n)"

lemma cond_label_eq [simp]: "cond_label i = cond_label j \<longleftrightarrow> i = j"
  by (simp add: cond_label_def)

lemma label_kinds [simp]: "cond_label i \<noteq> user_label l" "user_label l \<noteq> cond_label i"
  by (simp_all add: cond_label_def user_label_def)

lemma user_label_eq [simp]: "user_label l = user_label m \<longleftrightarrow> l = m"
  by (simp add: user_label_def)

lemma cond_labels_Suc: "cond_labels k (Suc n) = cond_labels k n @ [Lbl (cond_label (k + n))]"
  by (simp add: cond_labels_def)

lemma compile_ast_branch: "wf_branch n \<Longrightarrow> compile_ast n k = (True, stmt_code n k, k + nconds n)"
  by (induction n arbitrary: k)
    (auto simp: stmt_code_def compile_ast_expr cond_labels_Suc, simp_all add: cond_labels_def)

lemma compile_ast_stmt: "wf_stmt n \<Longrightarrow> compile_ast n k = (True, stmt_code n k, k + nconds n)"
  unfolding wf_stmt_def by (auto simp: compile_ast_branch, simp add: stmt_code_def cond_labels_def)

lemma expr_code_no_label: "Lbl l \<notin> set (expr_code e)"
  by (induction e) (auto simp: compile_op_def Let_def)

lemma stmt_core_labels:
  "wf_stmt n \<Longrightarrow> Lbl x \<in> set (stmt_core n k) \<longleftrightarrow> (\<exists>l. n = LABEL l \<and> x = user_label l)"
proof -
  have "wf_branch n \<Longrightarrow> Lbl x \<notin> set (stmt_core n k)"
    by (induction n) (auto simp: expr_code_no_label)
  then show "wf_stmt n \<Longrightarrow> ?thesis"
    by (auto simp: wf_stmt_def)
qed

lemma stmt_code_labels:
  "wf_stmt n \<Longrightarrow> Lbl (cond_label j) \<in> set (stmt_code n k) \<longleftrightarrow> k \<le> j \<and> j < k + nconds n"
  "wf_stmt n \<Longrightarrow> Lbl (user_label l) \<in> set (stmt_code n k) \<longleftrightarrow> n = LABEL l"
  by (auto simp: stmt_code_def stmt_core_labels cond_labels_def)

section \<open>Programs\<close>

fun body :: "node_t list \<Rightarrow> nat \<Rightarrow> asm list" where
  "body [] k = []"
| "body (n # ns) k = stmt_code n k @ body ns (k + nconds n)"

abbreviation counter :: "node_t list \<Rightarrow> nat" where
  "counter ns \<equiv> sum_list (map nconds ns)"

lemma compile_stmts_body:
  "\<forall>n \<in> set ns. wf_stmt n \<Longrightarrow> compile_stmts ns k = Inr (body ns k, k + counter ns)"
  by (induction ns arbitrary: k) (simp_all add: compile_ast_stmt add.assoc)

lemma body_append: "body (ms @ ns) k = body ms k @ body ns (k + counter ms)"
  by (induction ms arbitrary: k) (simp_all add: add.assoc)

lemma body_split:
  "i < length ns \<Longrightarrow> body ns k = body (take i ns) k @ stmt_code (ns ! i) (k + counter (take i ns))
     @ body (drop (Suc i) ns) (k + counter (take i ns) + nconds (ns ! i))"
  using body_append [of "take i ns" "ns ! i # drop (Suc i) ns" k] id_take_nth_drop [of i ns] by simp

definition program_image :: "node_t list \<Rightarrow> asm list" where
  "program_image ps = header_code @ body ps 0 @ footer_code"

definition position :: "node_t list \<Rightarrow> nat \<Rightarrow> nat" where
  "position ps i = length header_code + length (body (take i ps) 0)"

lemma compile_program_image:
  "\<forall>n \<in> set ps. wf_stmt n \<Longrightarrow> compile_program ps = Inr (program_image ps)"
  by (simp add: compile_program_def compile_stmts_body program_image_def)

lemma find_label_append:
  "find_label (a @ b) l =
     (case find_label a l of Some i \<Rightarrow> Some i | None \<Rightarrow> map_option (\<lambda>i. length a + i) (find_label b l))"
proof (induction a)
  case Nil
  show ?case by (cases "find_label b l") simp_all
next
  case (Cons x a)
  then show ?case by (cases "find_label b l") (simp_all split: option.splits)
qed

lemma find_label_None: "Lbl l \<notin> set a \<Longrightarrow> find_label a l = None"
  by (induction a) auto

lemma find_label_at: "Lbl l \<notin> set a \<Longrightarrow> find_label (a @ Lbl l # b) l = Some (length a)"
  by (simp add: find_label_append find_label_None)

lemma find_label_body:
  "\<forall>n \<in> set ns. wf_stmt n \<Longrightarrow> find_label (body ns k @ footer_code) (user_label l) =
     map_option (\<lambda>j. length (body (take j ns) k)) (find_stmt ns l)"
proof (induction ns arbitrary: k)
  case Nil
  then show ?case by (simp add: footer_code_def)
next
  case (Cons n ns)
  show ?case
  proof (cases "n = LABEL l")
    case True
    then show ?thesis by (simp add: stmt_code_def)
  next
    case False
    then have "find_label (stmt_code n k) (user_label l) = None"
      using Cons.prems by (intro find_label_None) (simp add: stmt_code_labels)
    with False Cons show ?thesis
      by (simp add: find_label_append option.map_comp comp_def)
  qed
qed

lemma find_label_user:
  "\<forall>n \<in> set ps. wf_stmt n \<Longrightarrow>
   find_label (program_image ps) (user_label l) = map_option (position ps) (find_stmt ps l)"
proof -
  assume wf: "\<forall>n \<in> set ps. wf_stmt n"
  have "find_label header_code (user_label l) = None"
    by (simp add: header_code_def)
  then have "find_label (program_image ps) (user_label l) =
      map_option (\<lambda>i. length header_code + i) (find_label (body ps 0 @ footer_code) (user_label l))"
    unfolding program_image_def by (subst find_label_append) simp
  also have "\<dots> = map_option (position ps) (find_stmt ps l)"
    by (cases "find_stmt ps l") (simp_all add: find_label_body [OF wf] position_def)
  finally show ?thesis .
qed

lemma body_cond_labels:
  "\<forall>n \<in> set ns. wf_stmt n \<Longrightarrow> Lbl (cond_label j) \<in> set (body ns k) \<Longrightarrow> j < k + counter ns"
  by (induction ns arbitrary: k) (fastforce simp: stmt_code_labels)+

lemma find_label_cond:
  assumes wf: "\<forall>n \<in> set ps. wf_stmt n" and i: "i < length ps"
    and j: "j < nconds (ps ! i)"
  shows "find_label (program_image ps) (cond_label (counter (take i ps) + j)) =
    Some (position ps i + length (stmt_core (ps ! i) (counter (take i ps))) + j)"
proof -
  define k where "k = counter (take i ps)"
  define core where "core = header_code @ body (take i ps) 0 @ stmt_core (ps ! i) k
    @ cond_labels k j"
  have "[k..<k + nconds (ps ! i)] = [k..<k + j] @ (k + j) # [Suc (k + j)..<k + nconds (ps ! i)]"
    using j by (metis add_less_cancel_left le_add1 upt_add_eq_append upt_conv_Cons less_imp_le_nat
      le_add_diff_inverse add.assoc)
  then have "cond_labels k (nconds (ps ! i)) =
      cond_labels k j @ Lbl (cond_label (k + j)) # map (\<lambda>j. Lbl (cond_label j)) [Suc (k + j)..<k + nconds (ps ! i)]"
    by (simp add: cond_labels_def)
  then have "\<exists>post. program_image ps = core @ Lbl (cond_label (k + j)) # post"
    using body_split [OF i, of 0] by (simp add: program_image_def core_def stmt_code_def k_def)
  moreover have "Lbl (cond_label (k + j)) \<notin> set core"
  proof -
    have "wf_stmt (ps ! i)" using wf i by simp
    then have "Lbl (cond_label (k + j)) \<notin> set (stmt_core (ps ! i) k)"
      by (simp add: stmt_core_labels)
    moreover have "Lbl (cond_label (k + j)) \<notin> set (body (take i ps) 0)"
      using body_cond_labels [of "take i ps" "k + j" 0] wf by (auto simp: k_def dest: in_set_takeD)
    ultimately show ?thesis
      by (auto simp: core_def header_code_def cond_labels_def)
  qed
  ultimately have "find_label (program_image ps) (cond_label (k + j)) = Some (length core)"
    by (auto simp: find_label_at)
  then show ?thesis
    by (simp add: core_def position_def k_def cond_labels_def)
qed

lemma code_at_stmt:
  "i < length ps \<Longrightarrow> code_at (program_image ps) (position ps i) (stmt_code (ps ! i) (counter (take i ps)))"
  using body_split [of i ps 0]
  by (auto simp: program_image_def position_def code_at_def header_code_def)

lemma code_at_footer: "code_at (program_image ps) (position ps (length ps)) footer_code"
  by (simp add: program_image_def position_def code_at_def header_code_def)

lemma position_Suc:
  "i < length ps \<Longrightarrow> position ps (Suc i) =
     position ps i + length (stmt_code (ps ! i) (counter (take i ps)))"
  by (simp add: position_def take_Suc_conv_app_nth body_append)

end
