(* ===== verification/Basic_Program.thy ===== *)
theory Basic_Program
  imports Basic_Correct
begin

text \<open>
  The compiled program as a whole: every statement of a TeenyBASIC program is simulated by its
  code, jumps land where the program says, and the image runs from its prologue to its
  \<open>ret\<close>.  The call of \<open>printf\<close> is constrained by the System V ABI only
  (\<open>printf_abi\<close>; the convention also asks the caller for an aligned stack, which \<open>print_int\<close> does not provide and which the
  model does not check).
\<close>

section \<open>The call out of the program\<close>

text \<open>
  \<open>printf\<close> returns with the frame and stack pointers it was called with and leaves the
  caller's frame, from the stack pointer up to the frame pointer, unchanged.
\<close>

definition printf_abi :: "clobber \<Rightarrow> bool" where
  "printf_abi clob \<longleftrightarrow> (\<forall>s. regs (clob s) RBP = regs s RBP \<and> regs (clob s) RSP = regs s RSP \<and>
     (\<forall>n \<le> unat (regs s RBP - regs s RSP). slot (clob s) n = slot s n))"

lemma exec_instr_control [simp]:
  "exec_instr clob p (Store r d) s = Running (next_pc (set_mem (regs s RBP - d) (regs s r) s))"
  "exec_instr clob p (Je l) s = (if ZF s then jump p l s else Running (next_pc s))"
  "exec_instr clob p Call_print_int s =
     Running (next_pc ((clob s)\<lparr>pc := pc s, printed := printed s @ [sint (regs s RDI)]\<rparr>))"
  "exec_instr clob p (Add_imm v r) s = Running (next_pc (set_reg r (regs s r + v) s))"
  "exec_instr clob p (Sub_imm v r) s = Running (next_pc (set_reg r (regs s r - v) s))"
  "exec_instr clob p Movl_zero_eax s = Running (next_pc (set_reg RAX 0 s))"
  "exec_instr clob p Ret s = Done s"
  by (simp_all add: exec_instr_def Let_def)

definition tested :: "mach \<Rightarrow> mach" where
  "tested s = next_pc (s\<lparr>ZF := (regs s RAX = 0), SF := (sint (regs s RAX) < 0), OF := False\<rparr>)"

lemma exec_test [simp]: "exec_instr clob p (Test RAX RAX) s = Running (tested s)"
  by (simp add: exec_instr_def tested_def Let_def)

lemma tested_simps [simp]:
  "pc (tested s) = Suc (pc s)" "regs (tested s) = regs s" "memq (tested s) = memq s"
  "printed (tested s) = printed s" "ZF (tested s) = (regs s RAX = 0)"
  by (simp_all add: tested_def)

section \<open>Data of a configuration\<close>

definition data_ok :: "env \<Rightarrow> int list \<Rightarrow> i64 \<Rightarrow> mach \<Rightarrow> bool" where
  "data_ok env out fp s \<longleftrightarrow>
     vars_match env s \<and> frame_ok 0 s \<and> regs s RBP = fp \<and> printed s = out"

lemma data_ok_kept: "data_ok env out fp s \<Longrightarrow> kept 0 s t \<Longrightarrow> data_ok env out fp t"
  using kept_vars [of 0 s t env] kept_frame [of 0 s t 0] by (auto simp: data_ok_def, simp_all add: kept_def)

lemma data_ok_same:
  "data_ok env out fp s \<Longrightarrow> regs t RBP = regs s RBP \<Longrightarrow> regs t RSP = regs s RSP \<Longrightarrow> memq t = memq s \<Longrightarrow>
   printed t = printed s \<Longrightarrow> data_ok env out fp t"
  by (auto simp: data_ok_def vars_match_def slot_def frame_ok_def)

lemma data_ok_store:
  assumes "data_ok env out fp s" "isupper c"
  shows "data_ok (env(c := v)) out fp (next_pc (set_mem (regs s RBP - var_offset c) v s))"
proof -
  have "slot (next_pc (set_mem (regs s RBP - var_offset c) v s)) (var_slot d) = (env(c := v)) d"
    if d: "isupper d" for d
  proof -
    have "regs s RBP - of_nat (var_slot d) = regs s RBP - of_nat (var_slot c) \<longleftrightarrow> d = c"
      using var_slot_inj [OF d assms(2)] var_slot_bound [OF d] var_slot_bound [OF assms(2)]
      by (subst addr_below_eq_iff) auto
    with assms(1) d show ?thesis
      by (auto simp: slot_def var_offset_slot [OF assms(2)] data_ok_def vars_match_def)
  qed
  with assms(1) show ?thesis
    by (auto simp: data_ok_def vars_match_def frame_ok_def)
qed

lemma data_ok_call:
  assumes "data_ok env out fp s" "printf_abi clob"
  shows "data_ok env (out @ [v]) fp (next_pc ((clob s)\<lparr>pc := i, printed := printed s @ [v]\<rparr>))"
proof -
  have "unat (regs s RBP - regs s RSP) = 208"
    using assms(1) by (simp add: data_ok_def frame_ok_def)
  then have "slot (clob s) n = slot s n" if "n \<le> 208" for n
    using assms(2) that by (simp add: printf_abi_def)
  moreover have "slot (next_pc ((clob s)\<lparr>pc := i, printed := printed s @ [v]\<rparr>)) n = slot (clob s) n"
    for n by (simp add: slot_def)
  ultimately have "vars_match env (next_pc ((clob s)\<lparr>pc := i, printed := printed s @ [v]\<rparr>))"
    using assms(1) var_slot_bound by (force simp: data_ok_def vars_match_def)
  with assms show ?thesis
    by (auto simp: data_ok_def frame_ok_def printf_abi_def)
qed

section \<open>One statement\<close>

lemma expr_runs:
  assumes "wf_expr e" "code_at p (pc s) (expr_code e)" "data_ok env out fp s"
    "208 + 8 * stack_need e < 2 ^ 64"
  shows "case eval_node env e of
      None \<Rightarrow> traps clob p s
    | Some v \<Rightarrow> \<exists>t. reaches clob p s t \<and> pc t = pc s + length (expr_code e) \<and> regs t RAX = v
        \<and> data_ok env out fp t"
  using expr_computes [of e p s env 0 clob] assms data_ok_kept [OF assms(3)]
  by (auto simp: computes_def data_ok_def split: option.splits)

lemma run_labels:
  "code_at p (pc s) (cond_labels k n) \<Longrightarrow> data_ok env out fp s \<Longrightarrow>
   \<exists>t. reaches clob p s t \<and> pc t = pc s + n \<and> data_ok env out fp t"
proof (induction n arbitrary: s k)
  case 0
  then show ?case by (auto intro: exI [of _ s])
next
  case (Suc n)
  have "cond_labels k (Suc n) = Lbl (cond_label k) # cond_labels (Suc k) n"
    by (simp add: cond_labels_def upt_conv_Cons del: upt_Suc)
  with Suc.prems(1) have at: "code_at p (pc s) (Lbl (cond_label k) # cond_labels (Suc k) n)"
    by simp
  then have at': "code_at p (pc (next_pc s)) (cond_labels (Suc k) n)"
    by (simp add: code_at_Cons)
  have d: "data_ok env out fp (next_pc s)"
    by (rule data_ok_same [OF Suc.prems(2)]) simp_all
  from Suc.IH [OF at' d] obtain t where
    "reaches clob p (next_pc s) t" "pc t = pc (next_pc s) + n" "data_ok env out fp t" by blast
  then show ?case
    using reaches_at [OF at] by (auto intro: exI [of _ t])
qed

text \<open>
  The outcome of a statement's code: control is behind the code, or, after a jump, at the position
  of the statement the program goes to.
\<close>

definition stmt_simulated ::
  "clobber \<Rightarrow> node_t list \<Rightarrow> nat \<Rightarrow> nat \<Rightarrow> i64 \<Rightarrow> mach \<Rightarrow> src_outcome \<Rightarrow> bool" where
  "stmt_simulated clob ps i len fp s r \<longleftrightarrow>
     (case r of
        Go j env out \<Rightarrow> \<exists>t. reaches clob (program_image ps) s t \<and> data_ok env out fp t \<and>
          (j = Suc i \<and> pc t = pc s + len \<or> j < length ps \<and> pc t = position ps j)
      | SrcTrap \<Rightarrow> traps clob (program_image ps) s
      | SrcStuck \<Rightarrow> True)"

lemma find_stmt_bound: "find_stmt ps l = Some j \<Longrightarrow> j < length ps"
  by (induction ps arbitrary: j) (auto split: if_splits)

lemma stmt_simulated_prefix:
  assumes "reaches clob (program_image ps) s t" "pc s + n = pc t + m"
    "stmt_simulated clob ps i m fp t r"
  shows "stmt_simulated clob ps i n fp s r"
proof (cases r)
  case (Go j env out)
  with assms(3) obtain u where "reaches clob (program_image ps) t u" "data_ok env out fp u"
    "j = Suc i \<and> pc u = pc t + m \<or> j < length ps \<and> pc u = position ps j"
    by (auto simp: stmt_simulated_def)
  with Go assms(1,2) show ?thesis
    unfolding stmt_simulated_def by (auto intro!: exI [of _ u] intro: reaches_trans)
next
  case SrcTrap
  with assms show ?thesis by (auto simp: stmt_simulated_def intro: reaches_traps)
qed (simp add: stmt_simulated_def)

lemma stmt_simulated_suffix:
  assumes "stmt_simulated clob ps i n fp s r"
    "\<And>t env out. pc t = pc s + n \<Longrightarrow> data_ok env out fp t \<Longrightarrow>
       \<exists>u. reaches clob (program_image ps) t u \<and> data_ok env out fp u \<and> pc u = pc s + n'"
  shows "stmt_simulated clob ps i n' fp s r"
proof (cases r)
  case (Go j env out)
  with assms(1) obtain t where t: "reaches clob (program_image ps) s t" "data_ok env out fp t"
    "j = Suc i \<and> pc t = pc s + n \<or> j < length ps \<and> pc t = position ps j"
    by (auto simp: stmt_simulated_def)
  from t(3) show ?thesis
  proof
    assume j: "j = Suc i \<and> pc t = pc s + n"
    with assms(2) t(2) obtain u where "reaches clob (program_image ps) t u" "data_ok env out fp u"
      "pc u = pc s + n'" by blast
    with Go j t show ?thesis
      unfolding stmt_simulated_def by (auto intro!: exI [of _ u] intro: reaches_trans)
  qed (use Go t in \<open>auto simp: stmt_simulated_def\<close>)
qed (use assms(1) in \<open>simp_all add: stmt_simulated_def\<close>)

text \<open>
  A statement somewhere in the image, below \<open>IF\<close>s or not: \<open>labels_placed\<close> says that the
  labels of the conditionals nested in it sit behind its core.
\<close>

definition labels_placed :: "node_t list \<Rightarrow> node_t \<Rightarrow> nat \<Rightarrow> nat \<Rightarrow> bool" where
  "labels_placed ps n k at \<longleftrightarrow> (\<forall>j < nconds n.
     find_label (program_image ps) (cond_label (k + j)) = Some (at + length (stmt_core n k) + j))"

lemma let_simulated:
  assumes "wf_expr e" "isupper c" "code_at (program_image ps) (pc s) (stmt_code (LET c e) k)"
    "data_ok env out fp s" "208 + 8 * stack_need e < 2 ^ 64"
  shows "stmt_simulated clob ps i (length (stmt_code (LET c e) k)) fp s
    (exec_stmt ps (LET c e) i env out)"
proof -
  have at: "code_at (program_image ps) (pc s) (expr_code e)"
    "code_at (program_image ps) (pc s + length (expr_code e)) [Store RAX (var_offset c)]"
    using assms(3) by (simp_all add: stmt_code_def cond_labels_def code_at_simps)
  show ?thesis
  proof (cases "eval_node env e")
    case None
    with expr_runs [OF assms(1) at(1) assms(4,5), of clob] show ?thesis
      by (simp add: stmt_simulated_def)
  next
    case (Some v)
    with expr_runs [OF assms(1) at(1) assms(4,5), of clob] obtain t where
      t: "reaches clob (program_image ps) s t" "pc t = pc s + length (expr_code e)"
        "regs t RAX = v" "data_ok env out fp t" by auto
    let ?u = "next_pc (set_mem (regs t RBP - var_offset c) v t)"
    have "code_at (program_image ps) (pc t) [Store RAX (var_offset c)]"
      using at(2) t(2) by simp
    then have "reaches clob (program_image ps) t ?u"
      by (rule reaches_at [OF _ _ reaches_refl]) (simp add: t(3))
    with t data_ok_store [OF t(4) assms(2), of v] Some show ?thesis
      by (auto simp: stmt_simulated_def stmt_code_def cond_labels_def
        intro!: exI [of _ ?u] intro: reaches_trans)
  qed
qed

lemma print_simulated:
  assumes "wf_expr e" "code_at (program_image ps) (pc s) (stmt_code (PRINT e) k)"
    "data_ok env out fp s" "208 + 8 * stack_need e < 2 ^ 64" "printf_abi clob"
  shows "stmt_simulated clob ps i (length (stmt_code (PRINT e) k)) fp s
    (exec_stmt ps (PRINT e) i env out)"
proof -
  have at: "code_at (program_image ps) (pc s) (expr_code e)"
    "code_at (program_image ps) (pc s + length (expr_code e)) [Mov RAX RDI, Call_print_int]"
    using assms(2) by (simp_all add: stmt_code_def cond_labels_def code_at_simps)
  show ?thesis
  proof (cases "eval_node env e")
    case None
    with expr_runs [OF assms(1) at(1) assms(3,4), of clob] show ?thesis
      by (simp add: stmt_simulated_def)
  next
    case (Some v)
    with expr_runs [OF assms(1) at(1) assms(3,4), of clob] obtain t where
      t: "reaches clob (program_image ps) s t" "pc t = pc s + length (expr_code e)"
        "regs t RAX = v" "data_ok env out fp t" by auto
    define t1 where "t1 = next_pc (set_reg RDI v t)"
    let ?u = "next_pc ((clob t1)\<lparr>pc := pc t1, printed := printed t1 @ [sint v]\<rparr>)"
    have d1: "data_ok env out fp t1"
      by (rule data_ok_same [OF t(4)]) (simp_all add: t1_def)
    have at1: "code_at (program_image ps) (pc t) [Mov RAX RDI, Call_print_int]"
      "code_at (program_image ps) (pc t1) [Call_print_int]"
      using at(2) t(2) by (simp_all add: t1_def code_at_Cons)
    have "reaches clob (program_image ps) t1 ?u"
      by (rule reaches_at [OF at1(2) _ reaches_refl]) (simp add: t1_def)
    then have "reaches clob (program_image ps) t ?u"
      by (intro reaches_at [OF at1(1)]) (simp_all add: t1_def t(3))
    with t data_ok_call [OF d1 assms(5), of "sint v" "pc t1"] Some show ?thesis
      by (auto simp: stmt_simulated_def stmt_code_def cond_labels_def t1_def
        intro!: exI [of _ ?u] intro: reaches_trans)
  qed
qed

lemma goto_simulated:
  assumes "\<forall>n \<in> set ps. wf_stmt n" "code_at (program_image ps) (pc s) (stmt_code (GOTO l) k)"
    "data_ok env out fp s"
  shows "stmt_simulated clob ps i (length (stmt_code (GOTO l) k)) fp s
    (exec_stmt ps (GOTO l) i env out)"
proof (cases "find_stmt ps l")
  case None
  then show ?thesis by (simp add: stmt_simulated_def)
next
  case (Some j)
  let ?u = "s\<lparr>pc := position ps j\<rparr>"
  have "code_at (program_image ps) (pc s) [Jmp (user_label l)]"
    using assms(2) by (simp add: stmt_code_def cond_labels_def)
  then have "reaches clob (program_image ps) s ?u"
    by (rule reaches_at [OF _ _ reaches_refl])
      (simp add: jump_def find_label_user [OF assms(1)] Some)
  moreover have "data_ok env out fp ?u"
    by (rule data_ok_same [OF assms(3)]) simp_all
  ultimately show ?thesis
    using Some find_stmt_bound [OF Some]
    by (auto simp: stmt_simulated_def intro!: exI [of _ ?u])
qed

lemma labels_placed_branch:
  "labels_placed ps (COND c b) k at \<Longrightarrow> labels_placed ps b k (at + length (expr_code c) + 2)"
  by (auto simp: labels_placed_def add.assoc)

lemma code_at_cond:
  assumes "code_at p i (stmt_code (COND c b) k)"
  shows "code_at p i (expr_code c)"
    "code_at p (i + length (expr_code c)) [Test RAX RAX, Je (cond_label k)]"
    "code_at p (i + length (expr_code c) + 2) (stmt_code b k)"
    "code_at p (i + length (expr_code c) + 2 + length (stmt_core b k)) (cond_labels k (Suc (nconds b)))"
    "code_at p (i + length (expr_code c) + 2 + length (stmt_code b k)) [Lbl (cond_label (k + nconds b))]"
  using assms
  by (simp_all add: stmt_code_def cond_labels_Suc code_at_simps ac_simps)

lemma cond_test:
  assumes "code_at (program_image ps) (pc t) [Test RAX RAX, Je (cond_label k)]"
    "find_label (program_image ps) (cond_label k) = Some l" "data_ok env out fp t"
  shows "\<exists>u. reaches clob (program_image ps) t u \<and> data_ok env out fp u \<and>
    pc u = (if regs t RAX = 0 then l else pc t + 2)"
proof -
  let ?u = "if regs t RAX = 0 then (tested t)\<lparr>pc := l\<rparr> else next_pc (tested t)"
  have "code_at (program_image ps) (pc (tested t)) [Je (cond_label k)]"
    using assms(1) by (simp add: code_at_Cons)
  then have "reaches clob (program_image ps) (tested t) ?u"
    by (rule reaches_at [OF _ _ reaches_refl]) (simp add: jump_def assms(2))
  then have "reaches clob (program_image ps) t ?u"
    by (rule reaches_at [OF assms(1) exec_test])
  moreover have "data_ok env out fp ?u"
    by (rule data_ok_same [OF assms(3)]) simp_all
  ultimately show ?thesis
    by (auto intro!: exI [of _ ?u])
qed

text \<open>A branch that is taken runs the body and passes the label behind it.\<close>

lemma branch_taken:
  assumes su: "reaches clob (program_image ps) s u" and body: "stmt_simulated clob ps i m fp u r"
    and at: "code_at (program_image ps) (pc u + m) [Lbl l]" and len: "pc s + n = pc u + (m + 1)"
  shows "stmt_simulated clob ps i n fp s r"
proof -
  have "stmt_simulated clob ps i (m + 1) fp u r"
    using body
  proof (rule stmt_simulated_suffix)
    fix w env out assume w: "pc w = pc u + m" "data_ok env out fp w"
    then have "reaches clob (program_image ps) w (next_pc w)"
      using at by (intro reaches_at [OF _ _ reaches_refl, of _ _ "Lbl l"]) simp_all
    moreover have "data_ok env out fp (next_pc w)"
      by (rule data_ok_same [OF w(2)]) simp_all
    ultimately show "\<exists>x. reaches clob (program_image ps) w x \<and> data_ok env out fp x \<and> pc x = pc u + (m + 1)"
      using w(1) by (auto intro!: exI [of _ "next_pc w"])
  qed
  from stmt_simulated_prefix [OF su _ this, of n] len show ?thesis by simp
qed

lemma branch_simulated:
  assumes "\<forall>n \<in> set ps. wf_stmt n" "printf_abi clob"
  shows "wf_branch n \<Longrightarrow> code_at (program_image ps) (pc s) (stmt_code n k) \<Longrightarrow>
    labels_placed ps n k (pc s) \<Longrightarrow> data_ok env out fp s \<Longrightarrow> 208 + 8 * stack_need n < 2 ^ 64 \<Longrightarrow>
    stmt_simulated clob ps i (length (stmt_code n k)) fp s (exec_stmt ps n i env out)"
proof (induction n arbitrary: s)
  case (COND c b)
  let ?p = "program_image ps" and ?lc = "length (expr_code c)"
  note at = code_at_cond [OF COND.prems(2)]
  have wf: "wf_expr c" "wf_branch b" and room: "208 + 8 * stack_need c < 2 ^ 64"
      "208 + 8 * stack_need b < 2 ^ 64"
    using COND.prems(1,5) by simp_all
  have len: "length (stmt_code (COND c b) k) = ?lc + 2 + length (stmt_code b k) + 1"
    "length (stmt_code b k) = length (stmt_core b k) + nconds b"
    by (simp_all add: stmt_code_def cond_labels_def)
  have lbl: "find_label ?p (cond_label k) = Some (pc s + ?lc + 2 + length (stmt_core b k))"
    using COND.prems(3) by (auto simp: labels_placed_def dest: spec [of _ 0])
  show ?case
  proof (cases "eval_node env c")
    case None
    with expr_runs [OF wf(1) at(1) COND.prems(4) room(1), of clob] show ?thesis
      by (simp add: stmt_simulated_def)
  next
    case (Some v)
    with expr_runs [OF wf(1) at(1) COND.prems(4) room(1), of clob] obtain t where
      t: "reaches clob ?p s t" "pc t = pc s + ?lc" "regs t RAX = v" "data_ok env out fp t" by auto
    have at_t: "code_at ?p (pc t) [Test RAX RAX, Je (cond_label k)]"
      using at(2) t(2) by simp
    from cond_test [OF at_t lbl t(4), of clob] t(2,3) obtain u where
      tu: "reaches clob ?p t u" and u: "data_ok env out fp u"
        "pc u = (if v = 0 then pc s + ?lc + 2 + length (stmt_core b k) else pc s + ?lc + 2)"
      by auto
    have su: "reaches clob ?p s u"
      using t(1) tu by (rule reaches_trans)
    show ?thesis
    proof (cases "v = 0")
      case True
      with run_labels [of ?p u k "Suc (nconds b)" env out fp clob] at(4) u obtain w where
        "reaches clob ?p u w" "pc w = pc u + Suc (nconds b)" "data_ok env out fp w" by auto
      with True Some u len show ?thesis
        by (auto simp: stmt_simulated_def intro!: exI [of _ w] intro: reaches_trans [OF su])
    next
      case False
      then have pc_u: "pc u = pc s + ?lc + 2" using u(2) by simp
      have "stmt_simulated clob ps i (length (stmt_code b k)) fp u (exec_stmt ps b i env out)"
        using COND.IH(2) [OF wf(2), of u] at(3) u(1) room(2) labels_placed_branch [OF COND.prems(3)]
        by (simp add: pc_u)
      moreover have "code_at ?p (pc u + length (stmt_code b k)) [Lbl (cond_label (k + nconds b))]"
        using at(5) by (simp add: pc_u)
      ultimately have "stmt_simulated clob ps i (length (stmt_code (COND c b) k)) fp s (exec_stmt ps b i env out)"
        by (rule branch_taken [OF su]) (simp add: len(1) pc_u)
      then show ?thesis using False Some by simp
    qed
  qed
qed (use assms in \<open>simp_all add: let_simulated [simplified] print_simulated [simplified]
      goto_simulated [simplified]\<close>)

lemma statement_simulated:
  assumes "\<forall>n \<in> set ps. wf_stmt n" "printf_abi clob" "i < length ps"
    "\<forall>n \<in> set ps. 208 + 8 * stack_need n < 2 ^ 64"
    "pc s = position ps i" "data_ok env out fp s"
  shows "case exec_stmt ps (ps ! i) i env out of
      Go j env' out' \<Rightarrow> \<exists>t. reaches clob (program_image ps) s t \<and> data_ok env' out' fp t \<and>
        pc t = position ps j \<and> j \<le> length ps
    | SrcTrap \<Rightarrow> traps clob (program_image ps) s
    | SrcStuck \<Rightarrow> True"
proof -
  let ?n = "ps ! i" and ?k = "counter (take i ps)"
  have at: "code_at (program_image ps) (pc s) (stmt_code ?n ?k)"
    using code_at_stmt [OF assms(3)] assms(5) by simp
  have "wf_stmt ?n" using assms(1,3) by simp
  then consider l where "?n = LABEL l" | "wf_branch ?n"
    by (auto simp: wf_stmt_def)
  then have "stmt_simulated clob ps i (length (stmt_code ?n ?k)) fp s (exec_stmt ps ?n i env out)"
  proof cases
    case (1 l)
    with at have "code_at (program_image ps) (pc s) [Lbl (user_label l)]"
      by (simp add: stmt_code_def cond_labels_def)
    then have "reaches clob (program_image ps) s (next_pc s)"
      by (rule reaches_at [OF _ _ reaches_refl]) simp
    moreover have "data_ok env out fp (next_pc s)"
      by (rule data_ok_same [OF assms(6)]) simp_all
    ultimately show ?thesis
      using 1 by (auto simp: stmt_simulated_def stmt_code_def cond_labels_def
        intro!: exI [of _ "next_pc s"])
  next
    case 2
    moreover have "labels_placed ps ?n ?k (pc s)"
      using find_label_cond [OF assms(1,3)] assms(5) by (simp add: labels_placed_def)
    ultimately show ?thesis
      using assms(3,4,6) at by (intro branch_simulated [OF assms(1,2)]) auto
  qed
  then show ?thesis
    using position_Suc [OF assms(3)] assms(3,5)
    by (auto simp: stmt_simulated_def split: src_outcome.splits)
qed

section \<open>Whole programs\<close>

text \<open>
  The variables as a program finds them: \<open>A\<close> lives in the word the frame pointer points to,
  which the prologue has filled with the caller's \<open>%rbp\<close>; the others in stack memory the
  prologue has only reserved.
\<close>

definition start_env :: "mach \<Rightarrow> env" where
  "start_env s c = (if c = CHR ''A'' then regs s RBP else memq s (regs s RSP - 8 - var_offset c))"

lemma header_runs:
  assumes "pc s = 0"
  shows "\<exists>t. reaches clob (program_image ps) s t \<and> pc t = position ps 0 \<and>
    data_ok (start_env s) (printed s) (regs s RSP - 8) t"
proof -
  let ?p = "program_image ps"
  define s1 where "s1 = next_pc (set_mem (regs s RSP - 8) (regs s RBP) (set_reg RSP (regs s RSP - 8) s))"
  define s2 where "s2 = next_pc (set_reg RBP (regs s1 RSP) s1)"
  define s3 where "s3 = next_pc (set_reg RSP (regs s2 RSP - 0xd0) s2)"
  have at: "code_at ?p (pc s) [Push RBP, Mov RSP RBP, Sub_imm 0xd0 RSP]"
    "code_at ?p (pc s1) [Mov RSP RBP, Sub_imm 0xd0 RSP]" "code_at ?p (pc s2) [Sub_imm 0xd0 RSP]"
    by (simp_all add: program_image_def header_code_def code_at_def s1_def s2_def assms)
  have "reaches clob ?p s2 s3"
    by (rule reaches_at [OF at(3) _ reaches_refl]) (simp add: s3_def)
  then have "reaches clob ?p s1 s3"
    by (rule reaches_at [OF at(2), rotated]) (simp add: s2_def)
  then have "reaches clob ?p s s3"
    by (rule reaches_at [OF at(1), rotated]) (simp add: s1_def exec_instr_def Let_def)
  moreover have "slot s3 (var_slot c) = start_env s c" if c: "isupper c" for c
  proof -
    have "regs s RSP - 8 - of_nat (var_slot c) = regs s RSP - 8 - of_nat 0 \<longleftrightarrow> var_slot c = 0"
      using var_slot_bound [OF c] by (intro addr_below_eq_iff) simp_all
    moreover have "var_slot c = 0 \<longleftrightarrow> c = CHR ''A''"
      using var_slot_inj [OF c, of "CHR ''A''"] by (simp add: var_slot_def isupper_def)
    ultimately show ?thesis
      by (simp add: slot_def s3_def s2_def s1_def start_env_def var_offset_slot [OF c])
  qed
  ultimately show ?thesis
    by (intro exI [of _ s3]) (simp add: data_ok_def vars_match_def frame_ok_def position_def
      header_code_def, simp add: s3_def s2_def s1_def assms)
qed

lemma footer_runs:
  assumes "pc s = position ps (length ps)" "data_ok env out fp s"
  shows "\<exists>n t. run clob (program_image ps) n s = Done t \<and> printed t = out \<and> regs t RAX = 0 \<and>
    regs t RSP = fp + 8 \<and> regs t RBP = env CHR ''A''"
proof -
  let ?p = "program_image ps"
  have at: "code_at ?p (pc s) [Add_imm 0xd0 RSP, Pop RBP, Movl_zero_eax, Ret]"
    using code_at_footer [of ps] assms(1) by (simp add: footer_code_def)
  define u where "u = next_pc (set_reg RAX 0 (next_pc (set_reg RBP (memq s fp)
      (set_reg RSP (fp + 8) (next_pc (set_reg RSP fp s))))))"
  have "run clob ?p 4 s = Done u"
    using at assms(2) by (simp add: numeral_eq_Suc step_def code_at_Cons data_ok_def frame_ok_def
      exec_instr_def Let_def u_def)
  moreover have "memq s fp = env CHR ''A''"
    using assms(2) by (auto simp: data_ok_def vars_match_def slot_def isupper_def var_slot_def
      dest!: spec [of _ "CHR ''A''"])
  then have "printed u = out" "regs u RAX = 0" "regs u RSP = fp + 8" "regs u RBP = env CHR ''A''"
    using assms(2) by (simp_all add: u_def data_ok_def)
  ultimately show ?thesis by blast
qed

lemma src_run_simulated:
  assumes "\<forall>n \<in> set ps. wf_stmt n" "printf_abi clob" "\<forall>n \<in> set ps. 208 + 8 * stack_need n < 2 ^ 64"
  shows "i \<le> length ps \<Longrightarrow> pc s = position ps i \<Longrightarrow> data_ok env out fp s \<Longrightarrow>
    (case src_run ps n i env out of
       Go j env' out' \<Rightarrow> \<exists>t. reaches clob (program_image ps) s t \<and> data_ok env' out' fp t \<and>
         pc t = position ps j \<and> j \<le> length ps
     | SrcTrap \<Rightarrow> traps clob (program_image ps) s
     | SrcStuck \<Rightarrow> True)"
proof (induction n arbitrary: i s env out)
  case (Suc n)
  show ?case
  proof (cases "i < length ps")
    case True
    note st = statement_simulated [OF assms(1,2) True assms(3) Suc.prems(2,3)]
    show ?thesis
    proof (cases "exec_stmt ps (ps ! i) i env out")
      case (Go j env' out')
      with st obtain t where t: "reaches clob (program_image ps) s t" "data_ok env' out' fp t"
        "pc t = position ps j" "j \<le> length ps" by auto
      from Suc.IH [OF t(4,3,2)] True Go show ?thesis
        by (auto split: src_outcome.splits intro: reaches_trans [OF t(1)] reaches_traps [OF t(1)])
    qed (use st True in simp_all)
  qed (use Suc.prems in auto)
qed auto

section \<open>Correctness of the compiler\<close>

definition printf_keeps :: clobber where
  "printf_keeps s = s\<lparr>regs := (regs s)(RAX := 2, RDI := 0, RSI := 0, RDX := 0)\<rparr>"

definition start_state :: mach where
  "start_state = \<lparr>pc = 0, regs = (\<lambda>r. if r = RSP then 0x7ffd0000 else 0), ZF = False, SF = False,
     OF = False, memq = (\<lambda>a. 0), printed = []\<rparr>"

definition countdown :: "node_t list" where
  "countdown = [LET CHR ''N'' (NUM 3), LABEL ''top'', PRINT (VAR CHR ''N''),
     LET CHR ''N'' (BINARY_OP CHR ''-'' (VAR CHR ''N'') (NUM 1)),
     COND (BINARY_OP CHR ''>'' (VAR CHR ''N'') (NUM 0)) (GOTO ''top'')]"

definition divide_by_zero :: "node_t list" where
  "divide_by_zero = [PRINT (NUM 7), LET CHR ''B'' (NUM 0),
     COND (VAR CHR ''B'') (GOTO ''nowhere''), PRINT (BINARY_OP CHR ''/'' (NUM 1) (VAR CHR ''B''))]"

lemma printf_keeps_abi: "printf_abi printf_keeps"
  by (simp add: printf_abi_def printf_keeps_def slot_def)

text \<open>
  C1. A well-formed TeenyBASIC program that runs to its end compiles, and the emitted assembly,
  started at its first line, returns after printing exactly what the program prints, with exit
  status 0 and the stack pointer restored.  The variable \<open>A\<close> shares its word with the
  saved frame pointer, so the caller gets back the value of \<open>A\<close> in \<open>%rbp\<close>.
\<close>

theorem compiled_program_prints:
  assumes "\<forall>n \<in> set ps. wf_stmt n" "printf_abi clob" "\<forall>n \<in> set ps. 208 + 8 * stack_need n < 2 ^ 64"
    "pc s = 0" "src_run ps n 0 (start_env s) (printed s) = Go (length ps) env out"
  shows "\<exists>code m t. compile_program ps = Inr code \<and> run clob code m s = Done t \<and>
    printed t = out \<and> regs t RAX = 0 \<and> regs t RSP = regs s RSP \<and> regs t RBP = env CHR ''A''"
proof -
  obtain t where t: "reaches clob (program_image ps) s t" "pc t = position ps 0"
    "data_ok (start_env s) (printed s) (regs s RSP - 8) t"
    using header_runs [OF assms(4)] by blast
  from src_run_simulated [OF assms(1-3) _ t(2,3), of n] assms(5) obtain u where
    u: "reaches clob (program_image ps) t u" "data_ok env out (regs s RSP - 8) u"
      "pc u = position ps (length ps)" by auto
  from footer_runs [OF u(3,2), of clob] obtain m w where
    "run clob (program_image ps) m u = Done w" "printed w = out" "regs w RAX = 0"
    "regs w RSP = regs s RSP" "regs w RBP = env CHR ''A''" by auto
  moreover obtain k where "run clob (program_image ps) k s = Running u"
    using reaches_trans [OF t(1) u(1)] by (auto simp: reaches_def)
  ultimately have "run clob (program_image ps) (k + m) s = Done w"
    by (simp add: run_add)
  with \<open>printed w = out\<close> \<open>regs w RAX = 0\<close> \<open>regs w RSP = regs s RSP\<close> \<open>regs w RBP = env CHR ''A''\<close>
  show ?thesis
    using compile_program_image [OF assms(1)] by blast
qed

theorem compiled_program_prints_witness:
  "\<exists>code m t. compile_program countdown = Inr code \<and> run printf_keeps code m start_state = Done t \<and>
    printed t = [3, 2, 1] \<and> regs t RAX = 0"
proof -
  have "\<exists>env. src_run countdown 20 0 (start_env start_state) (printed start_state) =
      Go (length countdown) env [3, 2, 1]"
    by (simp add: countdown_def start_state_def numeral_eq_Suc apply_op_def)
  then obtain env where "src_run countdown 20 0 (start_env start_state) (printed start_state) =
      Go (length countdown) env [3, 2, 1]" ..
  from compiled_program_prints [OF _ printf_keeps_abi _ _ this]
  have "\<exists>code m t. compile_program countdown = Inr code \<and> run printf_keeps code m start_state = Done t \<and>
    printed t = [3, 2, 1] \<and> regs t RAX = 0 \<and> regs t RSP = regs start_state RSP \<and>
    regs t RBP = env CHR ''A''"
    by (simp add: countdown_def start_state_def wf_stmt_def isupper_def)
  then show ?thesis by blast
qed

text \<open>
  C14. A program that divides by zero (or divides the least integer by -1) traps: the compiled code
  stops with a divide error instead of returning.
\<close>

theorem compiled_program_traps:
  assumes "\<forall>n \<in> set ps. wf_stmt n" "printf_abi clob" "\<forall>n \<in> set ps. 208 + 8 * stack_need n < 2 ^ 64"
    "pc s = 0" "src_run ps n 0 (start_env s) (printed s) = SrcTrap"
  shows "\<exists>code m t. compile_program ps = Inr code \<and> run clob code m s = Trap t"
proof -
  obtain t where t: "reaches clob (program_image ps) s t" "pc t = position ps 0"
    "data_ok (start_env s) (printed s) (regs s RSP - 8) t"
    using header_runs [OF assms(4)] by blast
  from src_run_simulated [OF assms(1-3) _ t(2,3), of n] assms(5)
  have "traps clob (program_image ps) t" by simp
  with t(1) show ?thesis
    using compile_program_image [OF assms(1)] reaches_traps unfolding traps_def by blast
qed

theorem compiled_program_traps_witness:
  "\<exists>code m t. compile_program divide_by_zero = Inr code \<and> run printf_keeps code m start_state = Trap t"
proof -
  have "src_run divide_by_zero 4 0 (start_env start_state) (printed start_state) = SrcTrap"
    by (simp add: divide_by_zero_def start_state_def apply_op_def numeral_eq_Suc)
  from compiled_program_traps [OF _ printf_keeps_abi _ _ this] show ?thesis
    by (simp add: divide_by_zero_def start_state_def wf_stmt_def isupper_def)
qed

text \<open>
  C13. Also for programs that never end: after any number of statements the compiled code has
  printed what those statements print and stands at the code of the next statement.
\<close>

theorem compiled_program_follows:
  assumes "\<forall>n \<in> set ps. wf_stmt n" "printf_abi clob" "\<forall>n \<in> set ps. 208 + 8 * stack_need n < 2 ^ 64"
    "pc s = 0" "src_run ps n 0 (start_env s) (printed s) = Go i env out"
  shows "\<exists>code m t. compile_program ps = Inr code \<and> run clob code m s = Running t \<and>
    printed t = out \<and> pc t = position ps i \<and> i \<le> length ps \<and>
    (\<forall>c. isupper c \<longrightarrow> memq t (regs t RBP - var_offset c) = env c)"
proof -
  obtain t where t: "reaches clob (program_image ps) s t" "pc t = position ps 0"
    "data_ok (start_env s) (printed s) (regs s RSP - 8) t"
    using header_runs [OF assms(4)] by blast
  from src_run_simulated [OF assms(1-3) _ t(2,3), of n] assms(5) obtain u where
    u: "reaches clob (program_image ps) t u" "data_ok env out (regs s RSP - 8) u"
      "pc u = position ps i" "i \<le> length ps" by auto
  moreover have "memq u (regs u RBP - var_offset c) = env c" if "isupper c" for c
    using u(2) that var_offset_slot [OF that] by (auto simp: data_ok_def vars_match_def slot_def)
  moreover obtain m where "run clob (program_image ps) m s = Running u"
    using reaches_trans [OF t(1) u(1)] by (auto simp: reaches_def)
  ultimately show ?thesis
    using compile_program_image [OF assms(1)]
    by (intro exI [of _ "program_image ps"] exI [of _ m] exI [of _ u]) (simp add: data_ok_def)
qed

theorem compiled_program_follows_witness:
  "\<exists>code m t. compile_program [LABEL ''x'', PRINT (NUM 5), GOTO ''x''] = Inr code \<and>
    run printf_keeps code m start_state = Running t \<and> printed t = [5, 5, 5]"
proof -
  have "src_run [LABEL ''x'', PRINT (NUM 5), GOTO ''x''] 9 0 (start_env start_state)
      (printed start_state) = Go 0 (start_env start_state) [5, 5, 5]"
    by (simp add: numeral_eq_Suc start_state_def)
  from compiled_program_follows [OF _ printf_keeps_abi _ _ this] show ?thesis
    by (auto simp: start_state_def wf_stmt_def)
qed

end
