(* ===== verification/Basic_Parser.thy ===== *)
theory Basic_Parser
  imports Basic_Ast
begin

text \<open>
  The recursive-descent parser of TeenyBASIC (\<open>project03-kweng/src/parser.c\<close>) over an
  explicit model of the input stream, and the loop of \<open>main\<close> that reads statements until the
  end-of-file indicator is set.  The stream keeps its position and its end-of-file indicator:
  \<open>fgetc\<close> at the end sets the indicator and does not move, \<open>fseek(-1)\<close> clears it
  and moves back one byte, so peeking at the end of the file steps back onto the last byte.
  Loops and recursive calls that depend on the stream take fuel; running out of fuel is the
  error \<open>Out_of_fuel\<close>.
\<close>

section \<open>The stream\<close>

record stream =
  contents :: string
  offset :: nat
  eof :: bool

definition fgetc :: "stream \<Rightarrow> char option \<times> stream" where
  "fgetc s = (if offset s < length (contents s)
     then (Some (contents s ! offset s), s\<lparr>offset := Suc (offset s)\<rparr>)
     else (None, s\<lparr>eof := True\<rparr>))"

text \<open>Seeking before the start of the file fails and leaves the stream as it is.\<close>

definition rewind_one :: "stream \<Rightarrow> stream" where
  "rewind_one s = (if offset s = 0 then s else s\<lparr>offset := offset s - 1, eof := False\<rparr>)"

section \<open>Tokens\<close>

definition is_variable_name :: "char \<Rightarrow> bool" where
  "is_variable_name c = isupper c"

definition is_number_start :: "char \<Rightarrow> bool" where
  "is_number_start c \<longleftrightarrow> c = CHR ''+'' \<or> c = CHR ''-'' \<or> isdigit c"

definition is_expression_start :: "char \<Rightarrow> bool" where
  "is_expression_start c \<longleftrightarrow> c = CHR ''('' \<or> is_variable_name c \<or> is_number_start c"

definition is_operator :: "char \<Rightarrow> bool" where
  "is_operator c \<longleftrightarrow> c = CHR ''+'' \<or> c = CHR ''-'' \<or> c = CHR ''*'' \<or> c = CHR ''/'' \<or>
     c = CHR ''<'' \<or> c = CHR ''='' \<or> c = CHR ''>'' \<or> c = CHR ''('' \<or> c = CHR '')''"

text \<open>
  \<open>advance\<close> skips white space and reads one character; \<open>'\0'\<close> stands for the end of the
  file.
\<close>

function advance :: "stream \<Rightarrow> char \<times> stream" where
  "advance s =
     (case fgetc s of
        (None, s') \<Rightarrow> (CHR 0x00, s')
      | (Some c, s') \<Rightarrow> if isspace c then advance s' else (c, s'))"
  by pat_completeness auto
termination
  by (relation "measure (\<lambda>s. length (contents s) - offset s)")
    (auto simp: fgetc_def split: if_splits)

declare advance.simps [simp del]

definition peek :: "stream \<Rightarrow> char \<times> stream" where
  "peek s = (let (c, s') = advance s in (c, rewind_one s'))"

datatype perr = Out_of_fuel | Buffer_overflow | Null_pointer

definition MAX_KEYWORD_LENGTH :: nat where
  "MAX_KEYWORD_LENGTH = 100"

text \<open>
  The token buffer has \<open>MAX_KEYWORD_LENGTH + 1\<close> bytes and no bounds check: storing a byte (or
  the terminator) behind it is the error \<open>Buffer_overflow\<close>.  \<open>None\<close> is the null
  pointer returned at the end of the file.
\<close>

function until_separator :: "string \<Rightarrow> stream \<Rightarrow> (perr, string option \<times> stream) res" where
  "until_separator result s =
     (case fgetc s of
        (None, s1) \<Rightarrow> Inr (None, s1)
      | (Some c, s1) \<Rightarrow>
          let (c, s2) = (if is_operator c \<and> 0 < length result then (CHR '' '', rewind_one s1)
                         else (c, s1)) in
          if MAX_KEYWORD_LENGTH < length result then Inl Buffer_overflow
          else if isspace c then Inr (Some result, s2)
          else until_separator (result @ [c]) s2)"
  by pat_completeness auto
termination
  by (relation "measure (\<lambda>(r, s). length (contents s) - offset s)")
    (auto simp: fgetc_def isspace_def split: if_splits)

declare until_separator.simps [simp del]

text \<open>A token is used as a C string, which ends at the first null byte the source text has in it.\<close>

definition c_string :: "string \<Rightarrow> string" where
  "c_string bytes = takeWhile (\<lambda>c. c \<noteq> CHR 0x00) bytes"

definition advance_until_separator :: "stream \<Rightarrow> (perr, string option \<times> stream) res" where
  "advance_until_separator s =
     bindE (until_separator [] s) (\<lambda>(result, s1). Inr (map_option c_string result, s1))"

function to_newline :: "stream \<Rightarrow> stream" where
  "to_newline s =
     (case fgetc s of
        (None, s') \<Rightarrow> s'
      | (Some c, s') \<Rightarrow> if c = CHR 0x0A then s' else to_newline s')"
  by pat_completeness auto
termination
  by (relation "measure (\<lambda>s. length (contents s) - offset s)")
    (auto simp: fgetc_def split: if_splits)

declare to_newline.simps [simp del]

definition skip_line :: "stream \<Rightarrow> stream" where
  "skip_line s = to_newline (rewind_one s)"

section \<open>Expressions\<close>

text \<open>
  One unit of fuel per call and per turn of a loop.  \<open>parse_term\<close> is the source's
  \<open>term\<close>; \<open>term_loop\<close> and \<open>expression_loop\<close> are the \<open>while (true)\<close>
  loops of \<open>term\<close> and \<open>expression\<close>.
\<close>

fun factor :: "nat \<Rightarrow> stream \<Rightarrow> (perr, node_t option \<times> stream) res"
and parse_term :: "nat \<Rightarrow> stream \<Rightarrow> (perr, node_t option \<times> stream) res"
and term_loop :: "nat \<Rightarrow> node_t option \<Rightarrow> stream \<Rightarrow> (perr, node_t option \<times> stream) res"
and expression :: "nat \<Rightarrow> stream \<Rightarrow> (perr, node_t option \<times> stream) res"
and expression_loop :: "nat \<Rightarrow> node_t option \<Rightarrow> stream \<Rightarrow> (perr, node_t option \<times> stream) res" where
  "factor 0 s = Inl Out_of_fuel"
| "factor (Suc n) s =
     (let (next, s1) = peek s in
      if next = CHR 0x00 then Inr (None, s1)
      else if next = CHR ''('' then
        (let (_, s2) = advance s1 in
         bindE (expression n s2) (\<lambda>(node, s3).
         (let (next, s4) = advance s3 in
          if next \<noteq> CHR '')'' then Inr (None, rewind_one s4) else Inr (node, s4))))
      else if is_variable_name next then
        (let (c, s2) = advance s1 in Inr (init_var_node c, s2))
      else if is_number_start next then
        bindE (advance_until_separator s1) (\<lambda>(tok, s2). Inr (init_num_node tok, s2))
      else Inr (None, s1))"
| "parse_term 0 s = Inl Out_of_fuel"
| "parse_term (Suc n) s = bindE (factor n s) (\<lambda>(result, s1). term_loop n result s1)"
| "term_loop 0 result s = Inl Out_of_fuel"
| "term_loop (Suc n) result s =
     (let (next, s1) = advance s in
      if \<not> (next = CHR ''*'' \<or> next = CHR ''/'') then Inr (result, rewind_one s1)
      else bindE (factor n s1) (\<lambda>(right, s2). term_loop n (init_binary_node next result right) s2))"
| "expression 0 s = Inl Out_of_fuel"
| "expression (Suc n) s =
     (let (next, s1) = peek s in
      if \<not> is_expression_start next then Inr (None, s1)
      else bindE (parse_term n s1) (\<lambda>(result, s2). expression_loop n result s2))"
| "expression_loop 0 result s = Inl Out_of_fuel"
| "expression_loop (Suc n) result s =
     (let (next, s1) = advance s in
      if \<not> (next = CHR ''+'' \<or> next = CHR ''-'') then Inr (result, rewind_one s1)
      else bindE (parse_term n s1)
        (\<lambda>(right, s2). expression_loop n (init_binary_node next result right) s2))"

definition comparison :: "nat \<Rightarrow> stream \<Rightarrow> (perr, node_t option \<times> stream) res" where
  "comparison n s =
     bindE (expression n s) (\<lambda>(left, s1).
     (let (op, s2) = advance s1 in
      if \<not> (op = CHR ''<'' \<or> op = CHR ''='' \<or> op = CHR ''>'') then Inr (None, s2)
      else bindE (expression n s2) (\<lambda>(right, s3). Inr (init_binary_node op left right, s3))))"

section \<open>Statements and programs\<close>

fun statement :: "nat \<Rightarrow> stream \<Rightarrow> (perr, node_t option \<times> stream) res" where
  "statement 0 s = Inl Out_of_fuel"
| "statement (Suc n) s =
     bindE (advance_until_separator s) (\<lambda>(next, s1).
     (case next of
        None \<Rightarrow> Inr (None, s1)
      | Some tok \<Rightarrow>
          if tok = [] then Inr (None, s1)
          else if hd tok = CHR ''#'' then Inr (None, skip_line s1)
          else if tok = ''GOTO'' then
            bindE (advance_until_separator s1) (\<lambda>(l, s2). Inr (init_goto_node l, s2))
          else if tok = ''PRINT'' then
            bindE (expression n s1) (\<lambda>(e, s2). Inr (init_print_node e, s2))
          else if tok = ''LET'' then
            (let (var, s2) = advance s1 in
             if isupper var then
               (let (eq, s3) = advance s2 in
                if eq = CHR ''='' then
                  bindE (expression n s3) (\<lambda>(e, s4). Inr (init_let_node var e, s4))
                else Inr (None, s3))
             else Inr (None, s2))
          else if tok = ''IF'' then
            bindE (comparison n s1) (\<lambda>(c, s2).
            bindE (advance_until_separator s2) (\<lambda>(th, s3).
            (case th of
               None \<Rightarrow> Inl Null_pointer
             | Some t \<Rightarrow>
                 if t \<noteq> ''THEN'' then Inr (None, s3)
                 else bindE (statement n s3) (\<lambda>(b, s4). Inr (init_cond_node c b, s4)))))
          else Inr (init_label_node (Some tok), s1)))"

definition parse :: "nat \<Rightarrow> stream \<Rightarrow> (perr, node_t option \<times> stream) res" where
  "parse n s = statement n s"

text \<open>
  The reading loop of \<open>main\<close>: statements are read until the end-of-file indicator is set;
  null results (comments, blank lines, errors) are skipped.
\<close>

fun parse_program :: "nat \<Rightarrow> stream \<Rightarrow> (perr, node_t list) res" where
  "parse_program 0 s = Inl Out_of_fuel"
| "parse_program (Suc n) s =
     (if eof s then Inr []
      else bindE (parse n s) (\<lambda>(ast, s1). bindE (parse_program n s1) (\<lambda>rest.
        Inr (case ast of None \<Rightarrow> rest | Some a \<Rightarrow> a # rest))))"

definition open_stream :: "string \<Rightarrow> stream" where
  "open_stream text = \<lparr>contents = text, offset = 0, eof = False\<rparr>"

section \<open>Every run on a file that ends in white space comes to an end\<close>

text \<open>
  \<open>left s\<close> is the distance to the last byte.  When that byte is white space no token is read
  there, so every token that is read brings the parser nearer to it, and stepping back from the end
  of the file does not go behind it.
\<close>

definition left :: "stream \<Rightarrow> nat" where
  "left s = (length (contents s) - 1) - offset s"

definition spaced :: "stream \<Rightarrow> bool" where
  "spaced s \<longleftrightarrow> contents s \<noteq> [] \<and> isspace (last (contents s)) \<and> offset s \<le> length (contents s)"

definition forward :: "stream \<Rightarrow> stream \<Rightarrow> bool" where
  "forward s t \<longleftrightarrow> contents t = contents s \<and> offset t \<le> length (contents t) \<and> left t \<le> left s"

lemma forward_refl: "spaced s \<Longrightarrow> forward s s"
  by (simp add: forward_def spaced_def)

lemma forward_trans: "forward s t \<Longrightarrow> forward t u \<Longrightarrow> forward s u"
  by (auto simp: forward_def)

lemma forward_spaced: "spaced s \<Longrightarrow> forward s t \<Longrightarrow> spaced t"
  by (auto simp: forward_def spaced_def)

lemma not_space_NUL [simp]: "\<not> isspace CHR 0x00"
  by (simp add: isspace_def)

lemma nonspace_before_last:
  "spaced s \<Longrightarrow> q < length (contents s) \<Longrightarrow> \<not> isspace (contents s ! q) \<Longrightarrow> q < length (contents s) - 1"
  by (cases "q = length (contents s) - 1") (auto simp: spaced_def last_conv_nth)

text \<open>
  What \<open>advance\<close> returns: the end of the file, or the first character that is not white
  space.
\<close>

lemma advance_cases:
  obtains (eof) "advance s = (CHR 0x00, s\<lparr>offset := max (offset s) (length (contents s)), eof := True\<rparr>)"
      "\<forall>i. offset s \<le> i \<and> i < length (contents s) \<longrightarrow> isspace (contents s ! i)"
  | (char) q where "offset s \<le> q" "q < length (contents s)" "\<not> isspace (contents s ! q)"
      "\<forall>i. offset s \<le> i \<and> i < q \<longrightarrow> isspace (contents s ! i)"
      "advance s = (contents s ! q, s\<lparr>offset := Suc q\<rparr>)"
proof -
  have "(advance s = (CHR 0x00, s\<lparr>offset := max (offset s) (length (contents s)), eof := True\<rparr>) \<and>
      (\<forall>i. offset s \<le> i \<and> i < length (contents s) \<longrightarrow> isspace (contents s ! i))) \<or>
    (\<exists>q. offset s \<le> q \<and> q < length (contents s) \<and> \<not> isspace (contents s ! q) \<and>
      (\<forall>i. offset s \<le> i \<and> i < q \<longrightarrow> isspace (contents s ! i)) \<and>
      advance s = (contents s ! q, s\<lparr>offset := Suc q\<rparr>))"
  proof (induction s rule: advance.induct)
    case (1 s)
    consider "length (contents s) \<le> offset s" | "offset s < length (contents s)" by linarith
    then show ?case
    proof cases
      case 1
      then show ?thesis by (auto simp: advance.simps [of s] fgetc_def)
    next
      case 2
      let ?t = "s\<lparr>offset := Suc (offset s)\<rparr>"
      have adv: "advance s = (if isspace (contents s ! offset s) then advance ?t
          else (contents s ! offset s, ?t))"
        using 2 by (simp add: advance.simps [of s] fgetc_def)
      show ?thesis
      proof (cases "isspace (contents s ! offset s)")
        case True
        have sp: "isspace (contents s ! i)" if "offset s \<le> i" "Suc (offset s) \<le> i \<Longrightarrow> isspace (contents s ! i)" for i
          using that True by (cases "i = offset s") auto
        from 1 [OF _ refl True] 2 show ?thesis
          by (auto simp: fgetc_def adv True max_def intro: sp Suc_leD)
      qed (use 2 adv in auto)
    qed
  qed
  then show thesis using eof char by blast
qed

lemma advance_forward: "spaced s \<Longrightarrow> advance s = (c, t) \<Longrightarrow> forward s t"
  by (cases s rule: advance_cases) (auto simp: forward_def left_def spaced_def max_def)

lemma advance_less:
  "spaced s \<Longrightarrow> advance s = (c, t) \<Longrightarrow> c \<noteq> CHR 0x00 \<Longrightarrow> left t < left s"
  by (cases s rule: advance_cases) (auto simp: left_def dest: nonspace_before_last)

lemma rewind_forward: "spaced s \<Longrightarrow> advance s = (c, t) \<Longrightarrow> forward s (rewind_one t)"
  by (cases s rule: advance_cases)
    (auto simp: forward_def left_def rewind_one_def spaced_def max_def dest: nonspace_before_last)

lemma peek_forward: "spaced s \<Longrightarrow> peek s = (c, t) \<Longrightarrow> forward s t"
  by (auto simp: peek_def Let_def rewind_forward split: prod.splits)

lemma until_separator_step:
  assumes "offset s < length (contents s)"
  shows "until_separator r s =
    (let c = contents s ! offset s; t = s\<lparr>offset := Suc (offset s)\<rparr> in
     if MAX_KEYWORD_LENGTH < length r then Inl Buffer_overflow
     else if is_operator c \<and> r \<noteq> [] then Inr (Some r, s\<lparr>eof := False\<rparr>)
     else if isspace c then Inr (Some r, t)
     else until_separator (r @ [c]) t)"
  using assms by (subst until_separator.simps) (auto simp: fgetc_def rewind_one_def isspace_def)

lemma until_separator_end:
  "length (contents s) \<le> offset s \<Longrightarrow> until_separator r s = Inr (None, s\<lparr>eof := True\<rparr>)"
  by (subst until_separator.simps) (simp add: fgetc_def)

lemma until_separator_moves:
  "until_separator r s = Inr (tok, t) \<Longrightarrow> offset s \<le> length (contents s) \<Longrightarrow>
   contents t = contents s \<and> offset s \<le> offset t \<and> offset t \<le> length (contents s) \<and>
   (tok = None \<longrightarrow> eof t) \<and>
   (\<forall>k. tok = Some k \<longrightarrow> k = r \<and> (r = [] \<longrightarrow> offset t = Suc (offset s)) \<or>
      k \<noteq> [] \<and> offset s < length (contents s) \<and> \<not> isspace (contents s ! offset s) \<and>
      offset s < offset t)"
proof (induction r s rule: until_separator.induct)
  case (1 r s)
  show ?case
  proof (cases "offset s < length (contents s)")
    case True
    let ?c = "contents s ! offset s" and ?t = "s\<lparr>offset := Suc (offset s)\<rparr>"
    from "1.prems"(1) True consider
        "is_operator ?c" "r \<noteq> []" "tok = Some r" "t = s\<lparr>eof := False\<rparr>"
      | "\<not> (is_operator ?c \<and> r \<noteq> [])" "isspace ?c" "tok = Some r" "t = ?t"
      | "\<not> (is_operator ?c \<and> r \<noteq> [])" "\<not> isspace ?c" "\<not> MAX_KEYWORD_LENGTH < length r"
        "until_separator (r @ [?c]) ?t = Inr (tok, t)"
      by (auto simp: until_separator_step Let_def split: if_splits)
    then show ?thesis
    proof cases
      case 3
      from 3 True have "contents t = contents ?t \<and> offset ?t \<le> offset t \<and> offset t \<le> length (contents ?t) \<and>
          (tok = None \<longrightarrow> eof t) \<and>
          (\<forall>k. tok = Some k \<longrightarrow> k = r @ [?c] \<and> (r @ [?c] = [] \<longrightarrow> offset t = Suc (offset ?t)) \<or>
             k \<noteq> [] \<and> offset ?t < length (contents ?t) \<and> \<not> isspace (contents ?t ! offset ?t) \<and>
             offset ?t < offset t)"
        by (intro "1.IH") (auto simp: fgetc_def)
      with 3 True show ?thesis by auto
    qed (use True in auto)
  qed (use 1 in \<open>auto simp: until_separator_end\<close>)
qed

lemma token_moves:
  assumes "spaced s" "advance_until_separator s = Inr (tok, t)"
  obtains raw where "tok = map_option c_string raw" "contents t = contents s" "offset s \<le> offset t" "offset t \<le> length (contents s)"
    "raw = None \<longrightarrow> eof t" "raw = Some [] \<longrightarrow> offset t = Suc (offset s)"
    "\<And>k. raw = Some k \<Longrightarrow> k \<noteq> [] \<Longrightarrow> offset s < length (contents s) - 1 \<and> offset s < offset t"
proof -
  obtain raw where raw: "until_separator [] s = Inr (raw, t)" "tok = map_option c_string raw"
    using assms(2) by (auto simp: advance_until_separator_def bindE_eq_Inr)
  have "offset s \<le> length (contents s)" using assms(1) by (simp add: spaced_def)
  from until_separator_moves [OF raw(1) this] show thesis
    using nonspace_before_last [OF assms(1), of "offset s"] raw(2) by (intro that [of raw]) auto
qed

lemma token_forward: "spaced s \<Longrightarrow> advance_until_separator s = Inr (tok, t) \<Longrightarrow> forward s t"
  by (erule (1) token_moves) (auto simp: forward_def left_def)

lemma token_less:
  assumes "spaced s" "advance_until_separator s = Inr (Some k, t)" "k \<noteq> []"
  shows "left t < left s \<and> offset s < offset t"
proof (rule token_moves [OF assms(1,2)])
  fix raw
  assume raw: "Some k = map_option c_string raw" "contents t = contents s"
    "\<And>k. raw = Some k \<Longrightarrow> k \<noteq> [] \<Longrightarrow> offset s < length (contents s) - 1 \<and> offset s < offset t"
  from raw(1) obtain r where r: "raw = Some r" "k = c_string r" by (cases raw) simp_all
  then have "r \<noteq> []" using assms(3) by (auto simp: c_string_def)
  then have "offset s < length (contents s) - 1" "offset s < offset t" using raw(3) [OF r(1)] by simp_all
  then show ?thesis using raw(2) by (simp add: left_def)
qed

lemma until_separator_fuel: "until_separator r s \<noteq> Inl Out_of_fuel"
proof (induction r s rule: until_separator.induct)
  case (1 r s)
  show ?case
  proof (cases "offset s < length (contents s)")
    case True
    then show ?thesis
      using "1.IH" by (auto simp: until_separator_step Let_def fgetc_def) blast
  qed (simp add: until_separator_end)
qed

lemma token_fuel: "advance_until_separator s \<noteq> Inl Out_of_fuel"
  using until_separator_fuel [of "[]" s]
  by (cases "until_separator [] s") (auto simp: advance_until_separator_def split: prod.splits)

text \<open>The result of a parsing function that goes forward and had enough fuel.\<close>

definition settled :: "stream \<Rightarrow> (perr, node_t option \<times> stream) res \<Rightarrow> bool" where
  "settled s r \<longleftrightarrow> r \<noteq> Inl Out_of_fuel \<and> (\<forall>x t. r = Inr (x, t) \<longrightarrow> forward s t)"

lemma settled_bind:
  assumes "settled s m" "\<And>x t. m = Inr (x, t) \<Longrightarrow> forward s t \<Longrightarrow> settled t (k x t)"
  shows "settled s (bindE m (\<lambda>(x, t). k x t))"
proof (cases m)
  case (Inr a)
  obtain x t where a: "a = (x, t)" by (cases a)
  then have "forward s t" "settled t (k x t)" using assms Inr by (auto simp: settled_def)
  then show ?thesis
    using Inr a by (auto simp: settled_def intro: forward_trans)
qed (use assms(1) in \<open>auto simp: settled_def\<close>)

lemma settled_from: "forward s t \<Longrightarrow> settled t r \<Longrightarrow> settled s r"
  by (auto simp: settled_def intro: forward_trans)

lemma settled_Inr: "forward s t \<Longrightarrow> settled s (Inr (x, t))"
  by (simp add: settled_def)

lemma settled_map: "settled s m \<Longrightarrow> settled s (bindE m (\<lambda>(x, t). Inr (f x, t)))"
  by (cases m) (auto simp: settled_def)

lemma settled_if:
  "(b \<Longrightarrow> settled s x) \<Longrightarrow> (\<not> b \<Longrightarrow> settled s y) \<Longrightarrow> settled s (if b then x else y)"
  by simp

lemma settled_Null: "settled s (Inl Null_pointer)"
  by (simp add: settled_def)

lemma settled_token:
  assumes "spaced s" "\<And>x t. advance_until_separator s = Inr (x, t) \<Longrightarrow> forward s t \<Longrightarrow> settled s (k x t)"
  shows "settled s (bindE (advance_until_separator s) (\<lambda>(x, t). k x t))"
proof (cases "advance_until_separator s")
  case (Inl e)
  then show ?thesis using token_fuel [of s] by (auto simp: settled_def)
next
  case (Inr a)
  obtain x t where a: "a = (x, t)" by (cases a)
  with Inr token_forward [OF assms(1)] have "forward s t" by blast
  with assms(2) Inr a show ?thesis by auto
qed

definition fuel_ok :: "nat \<Rightarrow> stream \<Rightarrow> bool" where
  "fuel_ok n s \<longleftrightarrow>
     (4 * left s + 1 \<le> n \<longrightarrow> settled s (factor n s)) \<and>
     (4 * left s + 2 \<le> n \<longrightarrow> settled s (parse_term n s)) \<and>
     (\<forall>r. 4 * left s + 1 \<le> n \<longrightarrow> settled s (term_loop n r s)) \<and>
     (4 * left s + 3 \<le> n \<longrightarrow> settled s (expression n s)) \<and>
     (\<forall>r. 4 * left s + 1 \<le> n \<longrightarrow> settled s (expression_loop n r s))"

lemma factor_settled:
  assumes IH: "\<And>t. spaced t \<Longrightarrow> fuel_ok n t" and s: "spaced s" "4 * left s \<le> n"
  shows "settled s (factor (Suc n) s)"
proof -
  obtain c s1 where p: "peek s = (c, s1)" by (cases "peek s")
  have f1: "forward s s1" by (rule peek_forward [OF s(1) p])
  have sp1: "spaced s1" by (rule forward_spaced [OF s(1) f1])
  have paren: "settled s1 (bindE (expression n s2) (\<lambda>(node, s3).
      let (next, s4) = advance s3 in
      if next \<noteq> CHR '')'' then Inr (None, rewind_one s4) else Inr (node, s4)))"
    if "c = CHR ''(''" "advance s1 = (d, s2)" for d s2
  proof -
    have adv: "fst (advance s) = c"
      using p by (auto simp: peek_def Let_def split: prod.splits)
    have lt: "left s2 < left s1"
    proof (cases s rule: advance_cases)
      case (char q)
      then have "s1 = s\<lparr>offset := q, eof := False\<rparr>" "contents s ! q = c"
        using p by (auto simp: peek_def rewind_one_def)
      then have "advance s1 = (c, s1\<lparr>offset := Suc q\<rparr>)"
        using char by (subst advance.simps) (auto simp: fgetc_def)
      with sp1 that show ?thesis by (auto dest: advance_less)
    qed (use adv that in auto)
    have f2: "forward s1 s2" using sp1 that by (auto dest: advance_forward)
    have sp2: "spaced s2" by (rule forward_spaced [OF sp1 f2])
    have "left s1 \<le> left s" using f1 by (simp add: forward_def)
    with lt s(2) have "4 * left s2 + 3 \<le> n" by linarith
    then have "settled s2 (expression n s2)"
      using IH [OF sp2] by (simp add: fuel_ok_def)
    then have "settled s2 (bindE (expression n s2) (\<lambda>(node, s3).
      let (next, s4) = advance s3 in
      if next \<noteq> CHR '')'' then Inr (None, rewind_one s4) else Inr (node, s4)))"
      by (rule settled_bind)
        (auto simp: Let_def split: prod.splits intro!: settled_Inr
          intro: rewind_forward advance_forward forward_spaced [OF sp2])
    with f2 show ?thesis by (rule settled_from)
  qed
  have var: "forward s1 s2" if "advance s1 = (d, s2)" for d s2
    using sp1 that by (rule advance_forward)
  have num: "settled s1 (bindE (advance_until_separator s1) (\<lambda>(tok, s2). Inr (init_num_node tok, s2)))"
    by (rule settled_token [OF sp1]) (rule settled_Inr)
  have "settled s1 (factor (Suc n) s)"
    using p paren num forward_refl [OF sp1]
    by (auto simp: Let_def split: prod.splits intro!: settled_Inr intro: var)
  with f1 show ?thesis by (rule settled_from)
qed

lemma term_loop_settled:
  assumes IH: "\<And>t. spaced t \<Longrightarrow> fuel_ok n t" and s: "spaced s" "4 * left s \<le> n"
  shows "settled s (term_loop (Suc n) r s)"
proof -
  obtain c s1 where p: "advance s = (c, s1)" by (cases "advance s")
  have f1: "forward s s1" and sp1: "spaced s1"
    using advance_forward [OF s(1) p] forward_spaced [OF s(1)] by auto
  show ?thesis
  proof (cases "c = CHR ''*'' \<or> c = CHR ''/''")
    case True
    then have lt: "left s1 < left s" using advance_less [OF s(1) p] by auto
    have "settled s1 (bindE (factor n s1) (\<lambda>(right, s2). term_loop n (init_binary_node c r right) s2))"
    proof (rule settled_bind)
      fix x t assume f: "forward s1 t"
      then have "4 * left t + 1 \<le> n" using lt s(2) by (simp add: forward_def)
      with IH [OF forward_spaced [OF sp1 f]]
      show "settled t (term_loop n (init_binary_node c r x) t)" by (simp add: fuel_ok_def)
    qed (use IH [OF sp1] lt s(2) in \<open>simp add: fuel_ok_def\<close>)
    with True p f1 show ?thesis by (auto intro: settled_from)
  qed (use p s(1) in \<open>auto intro: settled_Inr rewind_forward\<close>)
qed

lemma expression_loop_settled:
  assumes IH: "\<And>t. spaced t \<Longrightarrow> fuel_ok n t" and s: "spaced s" "4 * left s \<le> n"
  shows "settled s (expression_loop (Suc n) r s)"
proof -
  obtain c s1 where p: "advance s = (c, s1)" by (cases "advance s")
  have f1: "forward s s1" and sp1: "spaced s1"
    using advance_forward [OF s(1) p] forward_spaced [OF s(1)] by auto
  show ?thesis
  proof (cases "c = CHR ''+'' \<or> c = CHR ''-''")
    case True
    then have lt: "left s1 < left s" using advance_less [OF s(1) p] by auto
    have "settled s1 (bindE (parse_term n s1)
        (\<lambda>(right, s2). expression_loop n (init_binary_node c r right) s2))"
    proof (rule settled_bind)
      fix x t assume f: "forward s1 t"
      then have "4 * left t + 1 \<le> n" using lt s(2) by (simp add: forward_def)
      with IH [OF forward_spaced [OF sp1 f]]
      show "settled t (expression_loop n (init_binary_node c r x) t)" by (simp add: fuel_ok_def)
    qed (use IH [OF sp1] lt s(2) in \<open>simp add: fuel_ok_def\<close>)
    with True p f1 show ?thesis by (auto intro: settled_from)
  qed (use p s(1) in \<open>auto intro: settled_Inr rewind_forward\<close>)
qed

lemma parse_term_settled:
  assumes IH: "\<And>t. spaced t \<Longrightarrow> fuel_ok n t" and s: "spaced s" "4 * left s + 1 \<le> n"
  shows "settled s (parse_term (Suc n) s)"
  unfolding parse_term.simps
proof (rule settled_bind)
  fix x t assume f: "forward s t"
  then have "4 * left t + 1 \<le> n" using s(2) by (simp add: forward_def)
  with IH [OF forward_spaced [OF s(1) f]] show "settled t (term_loop n x t)"
    by (simp add: fuel_ok_def)
qed (use IH [OF s(1)] s(2) in \<open>simp add: fuel_ok_def\<close>)

lemma expression_settled:
  assumes IH: "\<And>t. spaced t \<Longrightarrow> fuel_ok n t" and s: "spaced s" "4 * left s + 2 \<le> n"
  shows "settled s (expression (Suc n) s)"
proof -
  obtain c s1 where p: "peek s = (c, s1)" by (cases "peek s")
  have f1: "forward s s1" by (rule peek_forward [OF s(1) p])
  have sp1: "spaced s1" by (rule forward_spaced [OF s(1) f1])
  have "settled s1 (bindE (parse_term n s1) (\<lambda>(result, s2). expression_loop n result s2))"
  proof (rule settled_bind)
    fix x t assume f: "forward s1 t"
    then have "4 * left t + 1 \<le> n" using f1 s(2) by (simp add: forward_def)
    with IH [OF forward_spaced [OF sp1 f]] show "settled t (expression_loop n x t)"
      by (simp add: fuel_ok_def)
  qed (use IH [OF sp1] f1 s(2) in \<open>simp add: fuel_ok_def forward_def\<close>)
  with p f1 show ?thesis
    by (auto intro: settled_from settled_Inr)
qed

lemma fuel_enough: "spaced s \<Longrightarrow> fuel_ok n s"
proof (induction n arbitrary: s)
  case (Suc n)
  then show ?case
    unfolding fuel_ok_def
    using factor_settled [OF Suc.IH] parse_term_settled [OF Suc.IH] term_loop_settled [OF Suc.IH]
      expression_settled [OF Suc.IH] expression_loop_settled [OF Suc.IH]
    by simp
qed (simp add: fuel_ok_def)

lemma expression_fuel: "spaced s \<Longrightarrow> 4 * left s + 3 \<le> n \<Longrightarrow> settled s (expression n s)"
  using fuel_enough [of s n] by (simp add: fuel_ok_def)

lemma to_newline_forward: "spaced s \<Longrightarrow> forward s (to_newline s)"
proof (induction s rule: to_newline.induct)
  case (1 s)
  show ?case
  proof (cases "offset s < length (contents s)")
    case True
    let ?t = "s\<lparr>offset := Suc (offset s)\<rparr>"
    have f: "forward s ?t" using True by (auto simp: forward_def left_def)
    have "forward ?t (to_newline ?t)" if "contents s ! offset s \<noteq> CHR 0x0A"
      using "1.IH" [OF _ refl that] True forward_spaced [OF "1.prems" f] by (simp add: fgetc_def)
    with f True show ?thesis
      by (subst to_newline.simps) (auto simp: fgetc_def intro: forward_trans)
  next
    case False
    with "1.prems" show ?thesis
      by (subst to_newline.simps) (auto simp: fgetc_def forward_def left_def spaced_def)
  qed
qed

text \<open>
  Skipping a comment first steps back over the separator behind its first token, and then reads at
  least that byte again.
\<close>

lemma skip_line_forward:
  assumes "spaced s" "0 < offset s"
  shows "forward s (skip_line s)"
proof -
  let ?r = "rewind_one s" and ?t = "s\<lparr>eof := False\<rparr>"
  have "offset ?r < length (contents ?r)" "?r\<lparr>offset := Suc (offset ?r)\<rparr> = ?t"
    using assms by (auto simp: rewind_one_def spaced_def)
  then have "to_newline ?r = (if contents ?r ! offset ?r = CHR 0x0A then ?t else to_newline ?t)"
    by (subst to_newline.simps) (simp add: fgetc_def)
  moreover have "spaced ?t" "forward s ?t"
    using assms by (auto simp: spaced_def forward_def left_def)
  ultimately show ?thesis
    unfolding skip_line_def by (auto intro: to_newline_forward forward_trans split: if_splits)
qed

lemma comparison_fuel:
  assumes "spaced s" "4 * left s + 3 \<le> n"
  shows "settled s (comparison n s)"
  unfolding comparison_def
proof (rule settled_bind [OF expression_fuel [OF assms]])
  fix l t assume f: "forward s t"
  have sp: "spaced t" by (rule forward_spaced [OF assms(1) f])
  obtain c u where p: "advance t = (c, u)" by (cases "advance t")
  have f1: "forward t u" by (rule advance_forward [OF sp p])
  have "settled u (bindE (expression n u) (\<lambda>(right, s3). Inr (init_binary_node c l right, s3)))"
    using assms(2) f f1 forward_spaced [OF sp f1]
    by (intro settled_map expression_fuel) (simp_all add: forward_def)
  with p f1 show "settled t (let (op, s2) = advance t in
      if \<not> (op = CHR ''<'' \<or> op = CHR ''='' \<or> op = CHR ''>'') then Inr (None, s2)
      else bindE (expression n s2) (\<lambda>(right, s3). Inr (init_binary_node op l right, s3)))"
    by (auto intro: settled_from settled_Inr)
qed

lemma let_settled:
  assumes "spaced s" "4 * left s + 3 \<le> n"
  shows "settled s (let (var, s2) = advance s in
     if isupper var then
       (let (eq, s3) = advance s2 in
        if eq = CHR ''='' then
          bindE (expression n s3) (\<lambda>(e, s4). Inr (init_let_node var e, s4))
        else Inr (None, s3))
     else Inr (None, s2))"
proof -
  obtain c t where p: "advance s = (c, t)" by (cases "advance s")
  obtain d u where q: "advance t = (d, u)" by (cases "advance t")
  have f: "forward s t" by (rule advance_forward [OF assms(1) p])
  have sp: "spaced t" by (rule forward_spaced [OF assms(1) f])
  have g: "forward t u" by (rule advance_forward [OF sp q])
  have "settled u (bindE (expression n u) (\<lambda>(e, s4). Inr (init_let_node c e, s4)))"
    using assms(2) f g forward_spaced [OF sp g]
    by (intro settled_map expression_fuel) (simp_all add: forward_def)
  with p q f forward_trans [OF f g] show ?thesis
    by (auto intro: settled_from settled_Inr)
qed

lemma if_settled:
  assumes "spaced s" "4 * left s + 3 \<le> n"
    "\<And>t. spaced t \<Longrightarrow> left t \<le> left s \<Longrightarrow> settled t (statement n t)"
  shows "settled s (bindE (comparison n s) (\<lambda>(c, s2).
     bindE (advance_until_separator s2) (\<lambda>(th, s3).
     (case th of
        None \<Rightarrow> Inl Null_pointer
      | Some t \<Rightarrow>
          if t \<noteq> ''THEN'' then Inr (None, s3)
          else bindE (statement n s3) (\<lambda>(b, s4). Inr (init_cond_node c b, s4))))))"
proof (rule settled_bind [OF comparison_fuel [OF assms(1,2)]])
  fix c s2 assume f: "forward s s2"
  have sp: "spaced s2" by (rule forward_spaced [OF assms(1) f])
  show "settled s2 (bindE (advance_until_separator s2) (\<lambda>(th, s3).
     (case th of
        None \<Rightarrow> Inl Null_pointer
      | Some t \<Rightarrow>
          if t \<noteq> ''THEN'' then Inr (None, s3)
          else bindE (statement n s3) (\<lambda>(b, s4). Inr (init_cond_node c b, s4)))))"
  proof (rule settled_token [OF sp], goal_cases)
    case (1 th s3)
    have "settled s3 (statement n s3)"
      using forward_spaced [OF sp 1(2)] 1(2) f by (intro assms(3)) (simp_all add: forward_def)
    then have "settled s2 (bindE (statement n s3) (\<lambda>(b, s4). Inr (init_cond_node c b, s4)))"
      by (rule settled_from [OF 1(2) settled_map])
    with 1(2) show ?case
      by (auto split: option.splits intro: settled_Inr settled_Null)
  qed
qed

lemma statement_settledI:
  assumes "spaced s" "0 < n"
    "\<And>tok s1. advance_until_separator s = Inr (tok, s1) \<Longrightarrow> settled s1 (statement n s)"
  shows "settled s (statement n s)"
proof (cases "advance_until_separator s")
  case (Inl e)
  with token_fuel [of s] assms(2) show ?thesis
    by (cases n) (auto simp: settled_def)
next
  case (Inr a)
  with assms(3) token_forward [OF assms(1)] show ?thesis
    by (cases a) (auto intro: settled_from)
qed

lemma statement_from_token:
  "spaced s \<Longrightarrow> 4 * left s + 4 \<le> n \<Longrightarrow> advance_until_separator s = Inr (tok, s1) \<Longrightarrow>
   settled s1 (statement n s)"
proof (induction n arbitrary: s tok s1)
  case (Suc n)
  note tok = Suc.prems(3)
  have f: "forward s s1" by (rule token_forward [OF Suc.prems(1) tok])
  have sp: "spaced s1" by (rule forward_spaced [OF Suc.prems(1) f])
  have n: "4 * left s1 + 3 \<le> n" using f Suc.prems(2) by (simp add: forward_def)
  have here: "settled s1 (Inr (x, s1))" for x by (rule settled_Inr [OF forward_refl [OF sp]])
  show ?case
  proof (cases "tok = None \<or> tok = Some []")
    case True
    with tok here show ?thesis by auto
  next
    case False
    then obtain k where k: "tok = Some k" "k \<noteq> []" by auto
    have "left s1 < left s" using token_less [OF Suc.prems(1)] tok k by blast
    then have IH: "settled t (statement n t)" if "spaced t" "left t \<le> left s1" for t
      using Suc.IH [OF that(1)] that Suc.prems(2) by (intro statement_settledI) simp_all
    have "0 < offset s1" using token_less [OF Suc.prems(1)] tok k by fastforce
    with sp have skip: "forward s1 (skip_line s1)" by (rule skip_line_forward)
    have goto: "settled s1 (bindE (advance_until_separator s1) (\<lambda>(l, s2). Inr (init_goto_node l, s2)))"
      by (rule settled_token [OF sp]) (rule settled_Inr)
    note parts = goto let_settled [OF sp n] settled_map [OF expression_fuel [OF sp n], of init_print_node]
      if_settled [OF sp n IH] settled_Inr [OF skip] here
    show ?thesis
      unfolding statement.simps tok bindE_Inr prod.case k option.case by (intro settled_if parts)
  qed
qed simp

lemma statement_fuel: "spaced s \<Longrightarrow> 4 * left s + 4 \<le> n \<Longrightarrow> settled s (statement n s)"
  by (rule statement_settledI) (auto intro: statement_from_token)

text \<open>
  The loop of \<open>main\<close>: a statement with a token brings the parser nearer to the last byte, a
  blank moves it by one byte, and at the end of the file the indicator is set.
\<close>

definition weight :: "stream \<Rightarrow> nat" where
  "weight s = left s + (if offset s < length (contents s) then 1 else 0)"

lemma token_weight:
  assumes "spaced s" "advance_until_separator s = Inr (Some k, t)"
  shows "weight t < weight s"
proof (rule token_moves [OF assms])
  fix raw
  assume raw: "Some k = map_option c_string raw" "contents t = contents s" "offset s \<le> offset t" "offset t \<le> length (contents s)"
    "raw = Some [] \<longrightarrow> offset t = Suc (offset s)"
    "\<And>k. raw = Some k \<Longrightarrow> k \<noteq> [] \<Longrightarrow> offset s < length (contents s) - 1 \<and> offset s < offset t"
  from raw(1) obtain r where r: "raw = Some r" by (cases raw) simp_all
  show ?thesis
  proof (cases "r = []")
    case True
    then show ?thesis using raw(2,4,5) r by (auto simp: weight_def left_def)
  next
    case False
    then show ?thesis using raw(2,4) raw(6) [OF r] by (auto simp: weight_def left_def)
  qed
qed

lemma statement_progress:
  assumes "spaced s" "4 * left s + 4 \<le> n" "statement n s = Inr (x, t)" "\<not> eof t"
  shows "weight t < weight s"
proof -
  obtain m where n: "n = Suc m" using assms(2) by (cases n) auto
  obtain tok s1 where tok: "advance_until_separator s = Inr (tok, s1)"
    using assms(3) n by (auto simp: bindE_eq_Inr)
  have moves: "tok = None \<longrightarrow> eof s1" by (rule token_moves [OF assms(1) tok]) auto
  consider "tok = None" | "tok = Some []" | k where "tok = Some k" "k \<noteq> []" by (cases tok) auto
  then show ?thesis
  proof cases
    case 1
    then show ?thesis using assms(3,4) n tok moves by simp
  next
    case 2
    then have "t = s1" using assms(3) n tok by simp
    then show ?thesis using token_weight [OF assms(1)] tok 2 by simp
  next
    case 3
    then have "left s1 < left s" using token_less [OF assms(1)] tok by blast
    moreover have "0 < left s" using calculation by simp
    moreover have "left t \<le> left s1"
      using statement_from_token [OF assms(1,2) tok] assms(3) by (simp add: settled_def forward_def)
    ultimately show ?thesis by (auto simp: weight_def left_def)
  qed
qed

lemma parse_program_fuel:
  "spaced s \<Longrightarrow> 4 * length (contents s) + weight s + 3 \<le> n \<Longrightarrow> parse_program n s \<noteq> Inl Out_of_fuel"
proof (induction n arbitrary: s)
  case (Suc n)
  have left: "left s < length (contents s)"
    using Suc.prems(1) by (simp add: left_def spaced_def)
  with Suc.prems have n: "4 * left s + 4 \<le> n" by simp
  show ?case
  proof (cases "parse n s")
    case (Inl e)
    then show ?thesis
      using statement_fuel [OF Suc.prems(1) n] by (auto simp: parse_def settled_def)
  next
    case (Inr a)
    obtain x t where a: "a = (x, t)" by (cases a)
    have st: "statement n s = Inr (x, t)" using Inr a by (simp add: parse_def)
    have f: "forward s t"
      using statement_fuel [OF Suc.prems(1) n] st by (simp add: settled_def)
    have sp: "spaced t" by (rule forward_spaced [OF Suc.prems(1) f])
    have "parse_program n t \<noteq> Inl Out_of_fuel"
    proof (cases "eof t")
      case True
      then show ?thesis using n by (cases n) simp_all
    next
      case False
      then have "weight t < weight s" by (rule statement_progress [OF Suc.prems(1) n st])
      then show ?thesis
        using Suc.prems(2) f by (intro Suc.IH sp) (simp add: forward_def)
    qed
    with Inr a show ?thesis by (cases "parse_program n t") simp_all
  qed
qed simp

text \<open>
  C15. The parser comes to an end on every program text that ends in white space (as a text file
  that ends in a newline does): with fuel linear in the length of the text neither the loops of
  \<open>term\<close> and \<open>expression\<close>, nor the recursion, nor the loop of \<open>main\<close>
  runs out of it.
\<close>

theorem parse_terminates:
  assumes "src \<noteq> []" "isspace (last src)" "5 * length src + 4 \<le> n"
  shows "parse_program n (open_stream src) \<noteq> Inl Out_of_fuel"
proof (rule parse_program_fuel)
  show "spaced (open_stream src)" using assms by (simp add: spaced_def open_stream_def)
  have "weight (open_stream src) \<le> length src"
    using assms(1) by (cases src) (simp_all add: weight_def left_def open_stream_def)
  then show "4 * length (contents (open_stream src)) + weight (open_stream src) + 3 \<le> n"
    using assms(3) by (simp add: open_stream_def)
qed

theorem parse_terminates_witness:
  "parse_program 100 (open_stream (''PRINT A*'' @ [CHR 0x0A])) \<noteq> Inl Out_of_fuel"
  by (rule parse_terminates) (simp_all add: isspace_def)

text \<open>
  Without the final white space this fails: after an operator at the very end of the file,
  \<open>factor\<close> peeks at the end of the file and thereby steps back onto the operator, which the
  loop of \<open>term\<close> then reads again.
\<close>

lemma term_loop_at_star:
  "term_loop n r \<lparr>contents = ''PRINT A*'', offset = 7, eof = False\<rparr> = Inl Out_of_fuel"
proof (induction n arbitrary: r)
  case (Suc n)
  let ?s = "\<lparr>contents = ''PRINT A*'', offset = 7, eof = False\<rparr>"
  have adv: "advance ?s = (CHR ''*'', ?s\<lparr>offset := 8\<rparr>)"
    by (subst advance.simps) (simp add: fgetc_def isspace_def)
  have peek: "peek (?s\<lparr>offset := 8\<rparr>) = (CHR 0x00, ?s)"
    unfolding peek_def by (subst advance.simps) (simp add: fgetc_def rewind_one_def)
  show ?case
    using adv peek Suc.IH by (cases n) simp_all
qed simp

text \<open>
  C34. The compiler does not come to an end on a program whose last byte is an operator: for
  \<open>PRINT A*\<close> without a newline behind it, no amount of fuel is enough.
\<close>

theorem parse_hangs: "parse_program n (open_stream ''PRINT A*'') = Inl Out_of_fuel"
proof -
  let ?s = "\<lambda>i. \<lparr>contents = ''PRINT A*'', offset = i, eof = False\<rparr>"
  have tok: "advance_until_separator (?s 0) = Inr (Some ''PRINT'', ?s 6)"
    by (simp add: advance_until_separator_def until_separator_step isspace_def is_operator_def
      MAX_KEYWORD_LENGTH_def Let_def c_string_def)
  have a: "advance (?s 6) = (CHR ''A'', ?s 7)"
    by (subst advance.simps) (simp add: fgetc_def isspace_def)
  then have p: "peek (?s 6) = (CHR ''A'', ?s 6)"
    by (simp add: peek_def rewind_one_def)
  have "factor n (?s 6) = Inl Out_of_fuel \<or> factor n (?s 6) = Inr (init_var_node CHR ''A'', ?s 7)" for n
    using a p by (cases n) (simp_all add: is_variable_name_def isupper_def)
  then have "parse_term n (?s 6) = Inl Out_of_fuel" for n
    using term_loop_at_star by (cases n) (auto, metis bindE_Inl bindE_Inr prod.case)
  then have "expression n (?s 6) = Inl Out_of_fuel" for n
    using p by (cases n) (simp_all add: is_expression_start_def is_variable_name_def isupper_def)
  then have "statement n (?s 0) = Inl Out_of_fuel" for n
    using tok by (cases n) simp_all
  then show ?thesis
    by (cases n) (simp_all add: parse_def open_stream_def)
qed

text \<open>
  A conditional that ends with the file is not reported as a syntax error: for the one line
  \<open>IF A\<close>, \<open>statement\<close> passes the null pointer it gets from
  \<open>advance_until_separator\<close> to \<open>strcmp\<close>.
\<close>

theorem if_without_then_null:
  "parse_program 20 (open_stream (''IF A'' @ [CHR 0x0A])) = Inl Null_pointer"
  by code_simp

end
