(* ===== verification/Basic_Roundtrip.thy ===== *)
theory Basic_Roundtrip
  imports Basic_Parser
begin

text \<open>
  Parsing what a program prints to: every program built from the statements of TeenyBASIC, written
  out with parentheses around each arithmetic operation and one statement per line, is read back by
  the parser of \<open>project03-kweng/src/parser.c\<close> as the same list of syntax trees.
\<close>

section \<open>Program texts\<close>

fun show_expr :: "node_t \<Rightarrow> string" where
  "show_expr (NUM v) = show_int (sint v)"
| "show_expr (VAR n) = [n]"
| "show_expr (BINARY_OP op l r) = ''('' @ show_expr l @ [op] @ show_expr r @ '')''"
| "show_expr _ = []"

fun arith :: "node_t \<Rightarrow> bool" where
  "arith (NUM v) = True"
| "arith (VAR n) = isupper n"
| "arith (BINARY_OP op l r) = (op \<in> set ''+-*/'' \<and> arith l \<and> arith r)"
| "arith _ = False"

fun show_cond :: "node_t \<Rightarrow> string" where
  "show_cond (BINARY_OP op l r) = show_expr l @ [op] @ show_expr r"
| "show_cond _ = []"

fun condition :: "node_t \<Rightarrow> bool" where
  "condition (BINARY_OP op l r) = (op \<in> set ''<=>'' \<and> arith l \<and> arith r)"
| "condition _ = False"

fun show_stmt :: "node_t \<Rightarrow> string" where
  "show_stmt (PRINT e) = ''PRINT '' @ show_expr e @ [CHR 0x0A]"
| "show_stmt (LET n e) = ''LET '' @ [n] @ ''='' @ show_expr e @ [CHR 0x0A]"
| "show_stmt (GOTO l) = ''GOTO '' @ l @ [CHR 0x0A]"
| "show_stmt (LABEL l) = l @ [CHR 0x0A]"
| "show_stmt (COND c b) = ''IF '' @ show_cond c @ '' THEN '' @ show_stmt b"
| "show_stmt _ = []"

text \<open>
  Labels fit into the token buffer and consist of characters that do not end a token; a label that
  stands as a statement does not start a comment and is not a keyword.
\<close>

definition token :: "string \<Rightarrow> bool" where
  "token l \<longleftrightarrow> l \<noteq> [] \<and> length l \<le> MAX_KEYWORD_LENGTH \<and> (\<forall>c \<in> set l. \<not> isspace c \<and> \<not> is_operator c \<and> c \<noteq> CHR 0x00)"

definition plain_label :: "string \<Rightarrow> bool" where
  "plain_label l \<longleftrightarrow> token l \<and> hd l \<noteq> CHR ''#'' \<and> l \<notin> {''GOTO'', ''PRINT'', ''LET'', ''IF''}"

fun printable :: "node_t \<Rightarrow> bool" where
  "printable (PRINT e) = arith e"
| "printable (LET n e) = (isupper n \<and> arith e)"
| "printable (GOTO l) = token l"
| "printable (LABEL l) = plain_label l"
| "printable (COND c b) = (condition c \<and> printable b)"
| "printable _ = False"

definition show_program :: "node_t list \<Rightarrow> string" where
  "show_program ps = concat (map show_stmt ps)"

section \<open>Where the stream stands\<close>

text \<open>
  \<open>stands s xs\<close>: behind white space, the rest of the file is \<open>xs\<close>.  \<open>ready s xs\<close>:
  moreover no white space is left before a token.
\<close>

definition rest :: "stream \<Rightarrow> string" where
  "rest s = drop (offset s) (contents s)"

definition stands :: "stream \<Rightarrow> string \<Rightarrow> bool" where
  "stands s xs \<longleftrightarrow> spaced s \<and> \<not> eof s \<and> dropWhile isspace (rest s) = xs"

definition ready :: "stream \<Rightarrow> string \<Rightarrow> bool" where
  "ready s xs \<longleftrightarrow> stands s xs \<and> (xs \<noteq> [] \<longrightarrow> rest s = xs)"

lemma rest_nth: "offset s < length (contents s) \<Longrightarrow> rest s = contents s ! offset s # rest (s\<lparr>offset := Suc (offset s)\<rparr>)"
  by (simp add: rest_def Cons_nth_drop_Suc)

lemma dropWhile_rest:
  assumes "\<forall>i. offset s \<le> i \<and> i < q \<longrightarrow> isspace (contents s ! i)" "offset s \<le> q" "q \<le> length (contents s)"
  shows "dropWhile isspace (rest s) = dropWhile isspace (drop q (contents s))"
  using assms(2,1,3)
proof (induction "q - offset s" arbitrary: s)
  case 0
  then show ?case by (simp add: rest_def)
next
  case (Suc n)
  let ?t = "s\<lparr>offset := Suc (offset s)\<rparr>"
  have "dropWhile isspace (rest s) = dropWhile isspace (rest ?t)"
    using Suc.prems Suc.hyps(2) by (subst rest_nth) auto
  also have "\<dots> = dropWhile isspace (drop q (contents ?t))"
    using Suc.prems Suc.hyps(2) by (intro Suc.hyps(1)) auto
  finally show ?case by simp
qed

lemma advance_stands:
  assumes "stands s (c # xs)"
  obtains t where "advance s = (c, t)" "rest t = xs" "\<not> eof t" "spaced t"
    "ready (rewind_one t) (c # xs)"
proof (cases s rule: advance_cases)
  case eof
  then have "dropWhile isspace (rest s) = []"
    using assms dropWhile_rest [of s "length (contents s)"] by (simp add: stands_def spaced_def)
  with assms show ?thesis by (simp add: stands_def)
next
  case (char q)
  have "dropWhile isspace (drop q (contents s)) = drop q (contents s)"
    using char by (simp add: Cons_nth_drop_Suc [symmetric])
  then have q: "drop q (contents s) = c # xs"
    using assms dropWhile_rest [OF char(4,1)] char(2) by (simp add: stands_def)
  then have cq: "contents s ! q = c" "drop (Suc q) (contents s) = xs"
    using Cons_nth_drop_Suc [OF char(2)] by simp_all
  have "\<not> isspace c" using char(3) cq by simp
  with char cq q assms show ?thesis
    by (intro that [of "s\<lparr>offset := Suc q\<rparr>"])
      (auto simp: rest_def stands_def spaced_def ready_def rewind_one_def)
qed

lemma advance_end:
  assumes "stands s []"
  obtains t where "advance s = (CHR 0x00, t)" "ready (rewind_one t) []"
proof (cases s rule: advance_cases)
  case eof
  let ?t = "s\<lparr>offset := max (offset s) (length (contents s)), eof := True\<rparr>"
  have len: "offset s \<le> length (contents s)" "contents s \<noteq> []" "isspace (last (contents s))"
    using assms by (simp_all add: stands_def spaced_def)
  then have "drop (length (contents s) - 1) (contents s) = [last (contents s)]"
    by (metis append_butlast_last_id append_eq_conv_conj length_butlast)
  with len have "ready (rewind_one ?t) []"
    by (auto simp: ready_def stands_def spaced_def rewind_one_def rest_def max_def)
  with eof that show ?thesis by blast
next
  case (char q)
  have "dropWhile isspace (drop q (contents s)) \<noteq> []"
    using char by (simp add: Cons_nth_drop_Suc [symmetric])
  with assms dropWhile_rest [OF char(4,1)] char(2) show ?thesis by (simp add: stands_def)
qed

lemma peek_stands:
  assumes "stands s (c # xs)"
  obtains t where "peek s = (c, t)" "ready t (c # xs)"
  using assms by (rule advance_stands) (simp add: peek_def that)

lemma ready_stands: "ready s xs \<Longrightarrow> stands s xs"
  by (simp add: ready_def)

lemma stands_rest: "spaced t \<Longrightarrow> \<not> eof t \<Longrightarrow> rest t = xs \<Longrightarrow> stands t (dropWhile isspace xs)"
  by (simp add: stands_def)

section \<open>Tokens\<close>

definition ends_token :: "char \<Rightarrow> bool" where
  "ends_token d \<longleftrightarrow> isspace d \<or> is_operator d"

definition behind :: "char \<Rightarrow> string \<Rightarrow> string" where
  "behind d ys = (if isspace d then ys else d # ys)"

lemma operator_not_space: "is_operator c \<Longrightarrow> \<not> isspace c"
  by (auto simp: is_operator_def isspace_def)

lemma rest_Cons:
  "rest s = c # xs \<Longrightarrow> offset s < length (contents s) \<and> contents s ! offset s = c \<and>
     rest (s\<lparr>offset := Suc (offset s)\<rparr>) = xs"
  by (metis drop_all list.discI list.inject linorder_not_le rest_def rest_nth)

lemma until_separator_reads:
  "rest s = tok @ d # ys \<Longrightarrow> \<forall>c \<in> set tok. \<not> ends_token c \<Longrightarrow> ends_token d \<Longrightarrow>
   r \<noteq> [] \<Longrightarrow> length r + length tok \<le> MAX_KEYWORD_LENGTH \<Longrightarrow> spaced s \<Longrightarrow> \<not> eof s \<Longrightarrow>
   \<exists>t. until_separator r s = Inr (Some (r @ tok), t) \<and> rest t = behind d ys \<and> spaced t \<and> \<not> eof t"
proof (induction tok arbitrary: r s)
  case Nil
  then have d: "offset s < length (contents s)" "contents s ! offset s = d"
    "rest (s\<lparr>offset := Suc (offset s)\<rparr>) = ys" using rest_Cons [of s d ys] by simp_all
  show ?case
  proof (cases "is_operator d")
    case True
    with Nil d show ?thesis
      by (auto simp: until_separator_step Let_def behind_def operator_not_space spaced_def rest_def)
  next
    case False
    with Nil d show ?thesis
      by (auto simp: until_separator_step Let_def behind_def ends_token_def spaced_def)
  qed
next
  case (Cons c tok)
  let ?t = "s\<lparr>offset := Suc (offset s)\<rparr>"
  have c: "offset s < length (contents s)" "contents s ! offset s = c" "rest ?t = tok @ d # ys"
    using rest_Cons [of s c "tok @ d # ys"] Cons.prems(1) by simp_all
  have "until_separator r s = until_separator (r @ [c]) ?t"
    using Cons.prems(2,5) c by (simp add: until_separator_step Let_def ends_token_def)
  moreover have "\<exists>t. until_separator (r @ [c]) ?t = Inr (Some ((r @ [c]) @ tok), t) \<and>
      rest t = behind d ys \<and> spaced t \<and> \<not> eof t"
    using Cons.prems c by (intro Cons.IH) (auto simp: spaced_def)
  ultimately show ?case by simp
qed

lemma token_reads:
  assumes "rest s = c # tok @ d # ys" "\<not> isspace c" "\<forall>c \<in> set tok. \<not> ends_token c" "ends_token d"
    "Suc (length tok) \<le> MAX_KEYWORD_LENGTH" "spaced s" "\<not> eof s" "\<forall>x \<in> set (c # tok). x \<noteq> CHR 0x00"
  obtains t where "advance_until_separator s = Inr (Some (c # tok), t)" "rest t = behind d ys"
    "spaced t" "\<not> eof t"
proof -
  let ?t = "s\<lparr>offset := Suc (offset s)\<rparr>"
  have c: "offset s < length (contents s)" "contents s ! offset s = c" "rest ?t = tok @ d # ys"
    using rest_Cons [of s c "tok @ d # ys"] assms(1) by simp_all
  have "until_separator [] s = until_separator [c] ?t"
    using assms(2) c by (simp add: until_separator_step Let_def)
  moreover have "c_string (c # tok) = c # tok" using assms(8) by (simp add: c_string_def takeWhile_eq_all_conv)
  moreover have "\<exists>t. until_separator [c] ?t = Inr (Some ([c] @ tok), t) \<and> rest t = behind d ys \<and>
      spaced t \<and> \<not> eof t"
    using assms c by (intro until_separator_reads) (auto simp: spaced_def)
  ultimately show thesis using that by (auto simp: advance_until_separator_def)
qed

lemma behind_space: "dropWhile isspace (behind d ys) = dropWhile isspace (d # ys)"
  by (simp add: behind_def)

section \<open>Numbers\<close>

lemma digit_char_isdigit: "d < 10 \<Longrightarrow> isdigit (digit_char d)"
proof -
  assume "d < 10"
  then have "(48 + d) mod 256 = 48 + d" by simp
  with \<open>d < 10\<close> show ?thesis by (simp add: isdigit_def digit_char_def)
qed

lemma show_nat_digits: "\<forall>c \<in> set (show_nat n). isdigit c"
  unfolding show_nat_def
proof (induction n rule: less_induct)
  case (less n)
  then have "\<not> n < 10 \<Longrightarrow> \<forall>c \<in> set (show_base 10 (n div 10)). isdigit c"
    by (intro less.IH) simp
  then show ?case
    by (subst show_base.simps) (auto simp: digit_char_isdigit)
qed

lemma show_base_not_Nil [simp]: "show_base b n \<noteq> []"
  by (subst show_base.simps) simp

lemma show_nat_not_Nil [simp]: "show_nat n \<noteq> []"
  by (simp add: show_nat_def)

lemma isdigit_plain: "isdigit c \<Longrightarrow> \<not> ends_token c \<and> c \<noteq> CHR ''-'' \<and> c \<noteq> CHR ''+'' \<and> c \<noteq> CHR ''x'' \<and> c \<noteq> CHR ''X''"
  by (auto simp: isdigit_def ends_token_def isspace_def is_operator_def)

lemma show_base_hd:
  "2 \<le> b \<Longrightarrow> b \<le> 10 \<Longrightarrow> 0 < n \<Longrightarrow> hd (show_base b n) \<noteq> CHR ''0''"
proof (induction n rule: less_induct)
  case (less n)
  show ?case
  proof (cases "n < b")
    case True
    then have "n < 10" using less.prems by simp
    then have "(of_char (digit_char n) :: nat) = 48 + n" by (simp add: digit_char_def)
    then have "digit_char n \<noteq> CHR ''0''" using less.prems(3) by auto
    with True show ?thesis by (subst show_base.simps) simp
  next
    case False
    then have "hd (show_base b (n div b)) \<noteq> CHR ''0''"
      using less.prems by (intro less.IH) (auto simp: div_greater_zero_iff)
    with False less.prems show ?thesis by (subst show_base.simps) simp
  qed
qed

lemma strtol_base_show: "strtol_base (show_nat n) = (if n = 0 then 8 else 10, show_nat n)"
proof (cases "n = 0")
  case True
  moreover have "show_nat 0 = ''0''" by code_simp
  ultimately show ?thesis by (simp add: strtol_base_def)
next
  case False
  then have "hd (show_nat n) \<noteq> CHR ''0''" by (simp add: show_nat_def show_base_hd)
  with False show ?thesis
    by (cases "show_nat n") (auto simp: strtol_base_def split: list.splits)
qed

lemma read_show_nat: "read_digits (if n = 0 then 8 else 10) 0 (show_nat n) = n"
  by (cases "n = 0") (simp_all add: show_nat_def read_show_base,
      simp add: show_base.simps digit_value_char)

lemma strtol0_show_int:
  assumes "- (2 ^ 63) \<le> i" "i < 2 ^ 63"
  shows "strtol0 (show_int i) = i"
proof -
  define n where "n = nat \<bar>i\<bar>"
  obtain c cs where cs: "show_nat n = c # cs" by (cases "show_nat n") auto
  have c: "isdigit c" using show_nat_digits [of n] cs by simp
  then have sp: "\<not> isspace c" using isdigit_plain [of c] by (simp add: ends_token_def)
  have body: "int (read_digits (if n = 0 then 8 else 10) 0 (show_nat n)) = \<bar>i\<bar>"
    by (simp only: read_show_nat) (simp add: n_def)
  show ?thesis
  proof (cases "i < 0")
    case True
    then have "show_int i = CHR ''-'' # show_nat n" by (simp add: show_int_def n_def)
    with True assms body show ?thesis
      by (simp add: strtol0_def strtol_sign_def isspace_def strtol_base_show split: if_splits)
  next
    case False
    then have "show_int i = show_nat n" by (simp add: show_int_def n_def)
    moreover have "strtol_sign (show_nat n) = (False, show_nat n)" "dropWhile isspace (show_nat n) = show_nat n"
      using c sp cs isdigit_plain [OF c] by (simp_all add: strtol_sign_def)
    ultimately show ?thesis
      using False assms body by (simp add: strtol0_def strtol_base_show split: if_splits)
  qed
qed

lemma show_int_token:
  fixes v :: i64
  obtains c cs where "show_int (sint v) = c # cs" "is_number_start c" "\<forall>c \<in> set cs. \<not> ends_token c"
    "length cs \<le> 20" "\<forall>x \<in> set (c # cs). x \<noteq> CHR 0x00"
proof -
  define n where "n = nat \<bar>sint v\<bar>"
  have "\<bar>sint v\<bar> \<le> 2 ^ 63" using sint_greater_eq [of v] sint_lt [of v] by simp
  then have "n < 10 ^ 20" by (simp add: n_def)
  then have len: "length (show_nat n) \<le> 20"
    unfolding show_nat_def by (intro show_base_length) simp_all
  obtain c cs where cs: "show_nat n = c # cs" by (cases "show_nat n") auto
  have d: "\<forall>c \<in> set (show_nat n). \<not> ends_token c" "isdigit c" "\<forall>x \<in> set (show_nat n). x \<noteq> CHR 0x00"
    using show_nat_digits [of n] isdigit_plain cs by (auto simp: isdigit_def)
  show thesis
  proof (cases "sint v < 0")
    case True
    then have "show_int (sint v) = CHR ''-'' # show_nat n" by (simp add: show_int_def n_def)
    with d len show ?thesis by (intro that [of "CHR ''-''" "show_nat n"]) (simp_all add: is_number_start_def)
  next
    case False
    then have "show_int (sint v) = c # cs" using cs by (simp add: show_int_def n_def)
    with d len cs show ?thesis by (intro that [of c cs]) (simp_all add: is_number_start_def)
  qed
qed

section \<open>Expressions\<close>

fun weight_of :: "node_t \<Rightarrow> nat" where
  "weight_of (BINARY_OP op l r) = 1 + weight_of l + weight_of r"
| "weight_of _ = 1"

lemma weight_of_pos [simp]: "0 < weight_of e"
  by (cases e) simp_all

text \<open>What may follow an expression: white space or an operator.\<close>

definition closed_by :: "string \<Rightarrow> bool" where
  "closed_by ys \<longleftrightarrow> (\<exists>d zs. ys = d # zs \<and> ends_token d)"

lemma show_expr_start:
  "arith e \<Longrightarrow> \<exists>c cs. show_expr e = c # cs \<and> is_expression_start c \<and> \<not> isspace c \<and> c \<noteq> CHR 0x00"
proof (cases e)
  case (NUM v)
  obtain c cs where "show_int (sint v) = c # cs" "is_number_start c"
    by (rule show_int_token)
  with NUM show ?thesis
    by (auto simp: is_expression_start_def is_number_start_def isspace_def isdigit_def)
qed (auto simp: is_expression_start_def is_variable_name_def isspace_def isupper_def)

lemma loops_stop:
  assumes "stands s (c # xs)" "0 < n"
  obtains t where "ready t (c # xs)"
    "c \<noteq> CHR ''*'' \<Longrightarrow> c \<noteq> CHR ''/'' \<Longrightarrow> term_loop n r s = Inr (r, t)"
    "c \<noteq> CHR ''+'' \<Longrightarrow> c \<noteq> CHR ''-'' \<Longrightarrow> expression_loop n r s = Inr (r, t)"
proof -
  obtain m where n: "n = Suc m" using assms(2) by (cases n) auto
  from assms(1) obtain t where "advance s = (c, t)" "ready (rewind_one t) (c # xs)"
    by (rule advance_stands)
  then show thesis
    using n by (intro that [of "rewind_one t"]) simp_all
qed

text \<open>What a factor, a term or an expression reads: the expression, up to what follows it.\<close>

definition reads :: "(perr, node_t option \<times> stream) res \<Rightarrow> node_t \<Rightarrow> string \<Rightarrow> bool" where
  "reads res e ys \<longleftrightarrow> (\<exists>t. res = Inr (Some e, t) \<and> stands t (dropWhile isspace ys))"

lemma factor_leaf:
  assumes "stands s (show_expr e @ ys)" "closed_by ys" "arith e" "\<nexists>op l r. e = BINARY_OP op l r"
  shows "reads (factor (Suc n) s) e ys"
proof -
  obtain c cs where c: "show_expr e = c # cs" "\<not> isspace c" "c \<noteq> CHR 0x00"
    using show_expr_start [OF assms(3)] by blast
  from assms(1) c(1) obtain t where p: "peek s = (c, t)" "ready t (c # cs @ ys)"
    by (metis append_Cons peek_stands)
  obtain d zs where d: "ys = d # zs" "ends_token d" using assms(2) by (auto simp: closed_by_def)
  have rest: "rest t = c # cs @ ys" "spaced t" "\<not> eof t"
    using p(2) by (simp_all add: ready_def stands_def)
  show ?thesis
  proof (cases e)
    case (NUM v)
    obtain c' cs' where t': "show_int (sint v) = c' # cs'" "is_number_start c'"
      "\<forall>c \<in> set cs'. \<not> ends_token c" "length cs' \<le> 20" "\<forall>x \<in> set (c' # cs'). x \<noteq> CHR 0x00" by (rule show_int_token)
    with NUM c have eq: "c' = c" "cs' = cs" by simp_all
    obtain u where u: "advance_until_separator t = Inr (Some (c # cs), u)" "rest u = behind d zs"
      "spaced u" "\<not> eof u"
      using rest c(2) t' eq d by (elim token_reads [of t c cs d zs, rotated -1])
        (simp_all add: MAX_KEYWORD_LENGTH_def)
    have "word_of_int (strtol0 (c # cs)) = v"
      using strtol0_show_int [of "sint v"] t'(1) eq sint_greater_eq [of v] sint_lt [of v] by simp
    moreover have "\<not> is_variable_name c" "c \<noteq> CHR ''(''"
      using t'(2) eq by (auto simp: is_number_start_def is_variable_name_def isdigit_def isupper_def)
    moreover have "stands u (dropWhile isspace ys)"
      using u behind_space d(1) by (simp add: stands_def)
    ultimately show ?thesis
      using p(1) c(3) t'(2) eq u(1) NUM by (simp add: reads_def init_num_node_def)
  next
    case (VAR x)
    with c assms(3) have x: "c = x" "cs = []" "isupper x" by simp_all
    from p(2) x obtain u where u: "advance t = (c, u)" "rest u = ys" "\<not> eof u" "spaced u"
      using advance_stands [of t c ys] by (auto simp: ready_def)
    moreover have "c \<noteq> CHR ''(''" using x by (auto simp: isupper_def)
    ultimately show ?thesis
      using p(1) x VAR c(3) by (simp add: reads_def init_var_node_def is_variable_name_def stands_def)
  qed (use assms in auto)
qed

lemma stands_show:
  "arith e \<Longrightarrow> dropWhile isspace (show_expr e @ ys) = show_expr e @ ys"
  using show_expr_start [of e] by auto

text \<open>An operation, when the first operand and the operator have been read: a product is made in the loop over factors, a sum in the
  loop over terms, which reads the operator a second time.\<close>

lemma product_reads:
  assumes op: "op = CHR ''*'' \<or> op = CHR ''/''" and start: "peek s = (c, s1)" "is_expression_start c"
    "factor (Suc k) s1 = Inr (Some l, s2)" "advance s2 = (op, s3)" and k: "0 < k"
    and r: "reads (factor k s3) r (CHR '')'' # ys)"
  shows "\<exists>t. expression (Suc (Suc (Suc k))) s = Inr (Some (BINARY_OP op l r), t) \<and> ready t (CHR '')'' # ys)"
proof -
  have "dropWhile isspace (CHR '')'' # ys) = CHR '')'' # ys" by (simp add: isspace_def)
  with r obtain s4 where s4: "factor k s3 = Inr (Some r, s4)" "stands s4 (CHR '')'' # ys)"
    unfolding reads_def by auto
  from loops_stop [OF s4(2) k, of "Some (BINARY_OP op l r)"] obtain s5 where
    s5: "ready s5 (CHR '')'' # ys)" "term_loop k (Some (BINARY_OP op l r)) s4 = Inr (Some (BINARY_OP op l r), s5)"
    by auto
  from loops_stop [OF ready_stands [OF s5(1)], of "Suc (Suc k)" "Some (BINARY_OP op l r)"] obtain s6 where
    s6: "ready s6 (CHR '')'' # ys)"
      "expression_loop (Suc (Suc k)) (Some (BINARY_OP op l r)) s5 = Inr (Some (BINARY_OP op l r), s6)"
    by auto
  have "expression (Suc (Suc (Suc k))) s = Inr (Some (BINARY_OP op l r), s6)"
    using op start s4(1) s5(2) s6(2)
    by (auto simp: init_binary_node_def simp del: expression_loop.simps)
  with s6(1) show ?thesis by blast
qed

lemma sum_reads:
  assumes op: "op = CHR ''+'' \<or> op = CHR ''-''" and start: "peek s = (c, s1)" "is_expression_start c"
    "factor (Suc k) s1 = Inr (Some l, s2)" "advance s2 = (op, s3)" "advance (rewind_one s3) = (op, s4)" and k: "0 < k"
    and r: "reads (factor k s4) r (CHR '')'' # ys)"
  shows "\<exists>t. expression (Suc (Suc (Suc k))) s = Inr (Some (BINARY_OP op l r), t) \<and> ready t (CHR '')'' # ys)"
proof -
  have stop: "term_loop (Suc k) (Some l) s2 = Inr (Some l, rewind_one s3)"
    using op start(4) by auto
  have "dropWhile isspace (CHR '')'' # ys) = CHR '')'' # ys" by (simp add: isspace_def)
  with r obtain s5 where s5: "factor k s4 = Inr (Some r, s5)" "stands s5 (CHR '')'' # ys)"
    unfolding reads_def by auto
  from loops_stop [OF s5(2) k, of "Some r"] obtain s6 where
    s6: "ready s6 (CHR '')'' # ys)" "term_loop k (Some r) s5 = Inr (Some r, s6)" by auto
  from loops_stop [OF ready_stands [OF s6(1)], of "Suc k" "Some (BINARY_OP op l r)"] obtain s7 where
    s7: "ready s7 (CHR '')'' # ys)"
      "expression_loop (Suc k) (Some (BINARY_OP op l r)) s6 = Inr (Some (BINARY_OP op l r), s7)"
    by auto
  have "expression_loop (Suc (Suc k)) (Some l) (rewind_one s3) = Inr (Some (BINARY_OP op l r), s7)"
    using op start(5) s5(1) s6(2) s7(2)
    by (subst expression_loop.simps) (auto simp: init_binary_node_def simp del: expression_loop.simps)
  then have "expression (Suc (Suc (Suc k))) s = Inr (Some (BINARY_OP op l r), s7)"
    using start(1-3) stop by (simp del: expression_loop.simps term_loop.simps)
  with s7(1) show ?thesis by blast
qed

lemma operation_reads:
  assumes op: "op \<in> set ''+-*/''" and n: "4 * weight_of l + 2 \<le> n" "4 * weight_of r + 3 \<le> n"
    and s: "stands s (show_expr l @ op # show_expr r @ CHR '')'' # ys)" and wf: "arith l" "arith r"
    and IH: "\<And>s ys n. closed_by ys \<Longrightarrow> stands s (show_expr l @ ys) \<Longrightarrow> 4 * weight_of l \<le> n \<Longrightarrow> reads (factor n s) l ys"
      "\<And>s ys n. closed_by ys \<Longrightarrow> stands s (show_expr r @ ys) \<Longrightarrow> 4 * weight_of r \<le> n \<Longrightarrow> reads (factor n s) r ys"
  shows "\<exists>t. expression n s = Inr (Some (BINARY_OP op l r), t) \<and> ready t (CHR '')'' # ys)"
proof -
  let ?rest = "show_expr r @ CHR '')'' # ys"
  obtain k where k: "n = Suc (Suc (Suc k))"
  proof
    show "n = Suc (Suc (Suc (n - 3)))" using n(2) by simp
  qed
  have opc: "is_operator op" "\<not> isspace op" "closed_by (op # ?rest)" "closed_by (CHR '')'' # ys)"
    using op by (auto simp: is_operator_def isspace_def closed_by_def ends_token_def)
  have sp: "dropWhile isspace (op # ?rest) = op # ?rest"
    "dropWhile isspace (CHR '')'' # ys) = CHR '')'' # ys" using opc operator_not_space [of "CHR '')''"] by (simp_all add: is_operator_def)
  obtain c cs where c: "show_expr l = c # cs" "is_expression_start c"
    using show_expr_start [OF wf(1)] by blast
  with s obtain s1 where s1: "peek s = (c, s1)" "ready s1 (show_expr l @ op # ?rest)"
    by (metis append_Cons peek_stands)
  then have "reads (factor (Suc k) s1) l (op # ?rest)"
    using n(1) k by (intro IH(1) opc ready_stands) simp_all
  then obtain s2 where s2: "factor (Suc k) s1 = Inr (Some l, s2)" "stands s2 (op # ?rest)"
    unfolding reads_def sp by blast
  from s2(2) obtain s3 where s3: "advance s2 = (op, s3)" "rest s3 = ?rest" "\<not> eof s3" "spaced s3"
    and s2': "ready (rewind_one s3) (op # ?rest)" by (rule advance_stands)
  have s3': "stands s3 ?rest" using s3 stands_show [OF wf(2)] by (simp add: stands_def)
  have pos: "0 < k" using n(1) k weight_of_pos [of l] by linarith
  show ?thesis
  proof (cases "op = CHR ''*'' \<or> op = CHR ''/''")
    case True
    have "reads (factor k s3) r (CHR '')'' # ys)" using n(2) k s3' by (intro IH(2) opc) simp_all
    from product_reads [OF True s1(1) c(2) s2(1) s3(1) pos this] show ?thesis unfolding k .
  next
    case False
    then have pm: "op = CHR ''+'' \<or> op = CHR ''-''" using op by auto
    from s2' obtain s4 where s4: "advance (rewind_one s3) = (op, s4)" "rest s4 = ?rest" "\<not> eof s4" "spaced s4"
      by (auto elim: advance_stands [OF ready_stands])
    have "stands s4 ?rest" using s4 stands_show [OF wf(2)] by (simp add: stands_def)
    then have "reads (factor k s4) r (CHR '')'' # ys)" using n(2) k by (intro IH(2) opc) simp_all
    from sum_reads [OF pm s1(1) c(2) s2(1) s3(1) s4(1) pos this] show ?thesis unfolding k .
  qed
qed

lemma factor_reads:
  "arith e \<Longrightarrow> closed_by ys \<Longrightarrow> stands s (show_expr e @ ys) \<Longrightarrow> 4 * weight_of e \<le> n \<Longrightarrow>
   reads (factor n s) e ys"
proof (induction e arbitrary: s ys n)
  case (BINARY_OP op l r)
  obtain m where m: "n = Suc m" using BINARY_OP.prems(4) by (cases n) auto
  from BINARY_OP.prems(3) obtain s1 where s1: "peek s = (CHR ''('', s1)"
    "ready s1 (CHR ''('' # show_expr l @ op # show_expr r @ CHR '')'' # ys)"
    by (auto elim: peek_stands)
  from s1(2) obtain s2 where s2: "advance s1 = (CHR ''('', s2)" "\<not> eof s2" "spaced s2"
    "rest s2 = show_expr l @ op # show_expr r @ CHR '')'' # ys"
    by (auto elim: advance_stands [OF ready_stands])
  have wf: "op \<in> set ''+-*/''" "arith l" "arith r" using BINARY_OP.prems(1) by auto
  have st: "stands s2 (show_expr l @ op # show_expr r @ CHR '')'' # ys)"
    using s2 stands_show [OF wf(2)] by (simp add: stands_def)
  have w: "4 * weight_of l + 2 \<le> m" "4 * weight_of r + 3 \<le> m"
    using BINARY_OP.prems(4) m weight_of_pos [of l] weight_of_pos [of r] by simp_all
  from operation_reads [OF wf(1) w st wf(2,3) BINARY_OP.IH(1) [OF wf(2)] BINARY_OP.IH(2) [OF wf(3)]]
  obtain s3 where
    s3: "expression m s2 = Inr (Some (BINARY_OP op l r), s3)" "ready s3 (CHR '')'' # ys)" by blast
  from s3(2) obtain s4 where "advance s3 = (CHR '')'', s4)" "rest s4 = ys" "\<not> eof s4" "spaced s4"
    by (auto elim: advance_stands [OF ready_stands])
  then show ?case
    using m s1(1) s2(1) s3(1) by (simp add: reads_def stands_def)
next
  case (NUM v)
  then show ?case using factor_leaf [of s "NUM v" ys "n - 1"] by (cases n) auto
next
  case (VAR v)
  then show ?case using factor_leaf [of s "VAR v" ys "n - 1"] by (cases n) auto
qed simp_all

section \<open>Statements\<close>

definition stop :: "string \<Rightarrow> bool" where
  "stop xs \<longleftrightarrow> xs = [] \<or> hd xs \<notin> set ''+-*/''"

lemma loops_stop_at:
  assumes "stands s xs" "stop xs" "0 < n"
  obtains t where "ready t xs" "term_loop n r s = Inr (r, t)" "expression_loop n r s = Inr (r, t)"
proof (cases xs)
  case Nil
  obtain m where n: "n = Suc m" using assms(3) by (cases n) auto
  from assms(1) Nil obtain t where "advance s = (CHR 0x00, t)" "ready (rewind_one t) []"
    by (auto elim: advance_end)
  then show thesis using n Nil by (intro that [of "rewind_one t"]) simp_all
next
  case (Cons c cs)
  with assms have "stands s (c # cs)" "c \<notin> set ''+-*/''" by (simp_all add: stop_def)
  from loops_stop [OF this(1) assms(3), of r] this(2) that Cons show thesis by auto
qed

lemma expression_reads:
  assumes "arith e" "closed_by ys" "stop (dropWhile isspace ys)" "stands s (show_expr e @ ys)"
    "4 * weight_of e + 2 \<le> n"
  obtains t where "expression n s = Inr (Some e, t)" "ready t (dropWhile isspace ys)"
proof -
  obtain k where k: "n = Suc (Suc k)"
  proof
    show "n = Suc (Suc (n - 2))" using assms(5) by simp
  qed
  have k0: "0 < k" using k assms(5) weight_of_pos [of e] by linarith
  obtain c cs where c: "show_expr e = c # cs" "is_expression_start c"
    using show_expr_start [OF assms(1)] by blast
  with assms(4) obtain s1 where s1: "peek s = (c, s1)" "ready s1 (show_expr e @ ys)"
    by (metis append_Cons peek_stands)
  have "reads (factor k s1) e ys"
    using assms k s1(2) by (intro factor_reads ready_stands) simp_all
  then obtain s2 where s2: "factor k s1 = Inr (Some e, s2)" "stands s2 (dropWhile isspace ys)"
    unfolding reads_def by blast
  from s2(2) assms(3) k0 obtain s3 where
    s3: "ready s3 (dropWhile isspace ys)" "term_loop k (Some e) s2 = Inr (Some e, s3)"
    by (rule loops_stop_at)
  from ready_stands [OF s3(1)] assms(3) zero_less_Suc [of k] obtain s4 where
    s4: "ready s4 (dropWhile isspace ys)" "expression_loop (Suc k) (Some e) s3 = Inr (Some e, s4)"
    by (rule loops_stop_at)
  have "expression n s = Inr (Some e, s4)"
    using k s1(1) c(2) s2(1) s3(2) s4(2) by (simp del: expression_loop.simps)
  with s4(1) show thesis by (rule that [rotated])
qed

lemma comparison_reads:
  assumes "condition c" "closed_by ys" "stop (dropWhile isspace ys)" "stands s (show_cond c @ ys)"
    "4 * weight_of c \<le> n"
  obtains t where "comparison n s = Inr (Some c, t)" "ready t (dropWhile isspace ys)"
proof -
  obtain op l r where c: "c = BINARY_OP op l r" "op \<in> set ''<=>''" "arith l" "arith r"
    using assms(1) by (cases c) auto
  let ?rest = "op # show_expr r @ ys"
  have op: "\<not> isspace op" "closed_by ?rest" "stop ?rest"
    using c(2) by (auto simp: isspace_def closed_by_def ends_token_def is_operator_def stop_def)
  then have sp: "dropWhile isspace ?rest = ?rest" by simp
  have st: "stands s (show_expr l @ ?rest)" using assms(4) c(1) by simp
  have w: "4 * weight_of l + 2 \<le> n" "4 * weight_of r + 2 \<le> n" using assms(5) c(1) by simp_all
  obtain s1 where s1: "expression n s = Inr (Some l, s1)" "ready s1 ?rest"
    using expression_reads [OF c(3) op(2) _ st w(1)] op(3) unfolding sp by blast
  from ready_stands [OF s1(2)] obtain s2 where s2: "advance s1 = (op, s2)" "rest s2 = show_expr r @ ys"
    "\<not> eof s2" "spaced s2" by (rule advance_stands)
  then have "stands s2 (show_expr r @ ys)" using stands_show [OF c(4)] by (simp add: stands_def)
  from expression_reads [OF c(4) assms(2,3) this w(2)] obtain s3 where
    s3: "expression n s2 = Inr (Some r, s3)" "ready s3 (dropWhile isspace ys)" by blast
  have "comparison n s = Inr (Some c, s3)"
    using s1(1) s2(1) s3(1) c(1,2) by (auto simp: comparison_def init_binary_node_def)
  with s3(2) show thesis by (rule that [rotated])
qed

definition standby :: "stream \<Rightarrow> string \<Rightarrow> bool" where
  "standby s ys \<longleftrightarrow> spaced s \<and> \<not> eof s \<and>
     (if ys = [] then \<forall>c \<in> set (rest s). isspace c else rest s = ys)"

definition opens :: "string \<Rightarrow> bool" where
  "opens ys \<longleftrightarrow> ys = [] \<or> \<not> ends_token (hd ys)"

lemma opens_stop: "opens ys \<Longrightarrow> dropWhile isspace (CHR 0x0A # ys) = ys \<and> stop ys"
  by (cases ys) (auto simp: opens_def stop_def ends_token_def is_operator_def isspace_def)

lemma ready_standby: "ready s ys \<Longrightarrow> standby s ys"
  by (auto simp: ready_def standby_def stands_def dropWhile_eq_Nil_conv)

lemma rest_standby: "spaced s \<Longrightarrow> \<not> eof s \<Longrightarrow> rest s = ys \<Longrightarrow> standby s ys"
  by (simp add: standby_def)

text \<open>Statements begin with a character that neither ends a token nor is an operator.\<close>

lemma printable_start: "printable n \<Longrightarrow> \<exists>c cs. show_stmt n = c # cs \<and> \<not> ends_token c"
proof (cases n)
  case (LABEL l)
  moreover assume "printable n"
  ultimately show ?thesis
    by (cases l) (auto simp: plain_label_def token_def ends_token_def)
qed (auto simp: ends_token_def isspace_def is_operator_def)

lemma label_token:
  assumes "token l" "rest s = l @ CHR 0x0A # ys" "spaced s" "\<not> eof s"
  obtains t where "advance_until_separator s = Inr (Some l, t)" "rest t = ys" "spaced t" "\<not> eof t"
proof -
  obtain c cs where l: "l = c # cs" using assms(1) by (cases l) (auto simp: token_def)
  show thesis
    by (rule token_reads [of s c cs "CHR 0x0A" ys])
      (use assms l that in \<open>auto simp: token_def ends_token_def behind_def isspace_def\<close>)
qed

lemma keyword_token:
  assumes "rest s = (c # w) @ CHR '' '' # ys" "spaced s" "\<not> eof s"
    "\<forall>x \<in> set (c # w). isupper x" "length w \<le> 10"
  obtains t where "advance_until_separator s = Inr (Some (c # w), t)" "rest t = ys" "spaced t" "\<not> eof t"
proof -
  have nul: "\<not> isupper CHR 0x00" by (simp add: isupper_def)
  have "\<not> ends_token x" if "isupper x" for x
    using that by (auto simp: isupper_def ends_token_def isspace_def is_operator_def)
  then have "\<not> isspace c" "\<forall>x \<in> set w. \<not> ends_token x" "ends_token CHR '' ''"
    using assms(4) by (auto simp: ends_token_def isspace_def)
  then show thesis
    by (rule token_reads [of s c w "CHR '' ''" ys, rotated])
      (use assms that nul in \<open>auto simp: behind_def isspace_def MAX_KEYWORD_LENGTH_def\<close>)
qed

fun stmt_weight :: "node_t \<Rightarrow> nat" where
  "stmt_weight (PRINT e) = 4 * weight_of e + 3"
| "stmt_weight (LET n e) = 4 * weight_of e + 3"
| "stmt_weight (COND c b) = Suc (max (4 * weight_of c) (stmt_weight b))"
| "stmt_weight _ = 1"

lemma closed_newline: "closed_by (CHR 0x0A # ys)" "closed_by ('' THEN '' @ ys)"
  by (simp_all add: closed_by_def ends_token_def isspace_def)

lemma statement_expression:
  assumes "arith e" "rest s = show_expr e @ CHR 0x0A # ys" "spaced s" "\<not> eof s" "opens ys"
    "4 * weight_of e + 2 \<le> n"
  obtains t where "expression n s = Inr (Some e, t)" "standby t ys"
proof -
  have "stands s (show_expr e @ CHR 0x0A # ys)"
    using assms(2-4) stands_show [OF assms(1)] by (simp add: stands_def)
  from expression_reads [OF assms(1) closed_newline(1) _ this assms(6)] opens_stop [OF assms(5)]
  show thesis using that ready_standby by auto
qed

lemma let_reads:
  assumes "printable (LET v e)" "opens ys" "spaced s" "\<not> eof s" "rest s = show_stmt (LET v e) @ ys" "stmt_weight (LET v e) \<le> k"
  shows "\<exists>t. statement k s = Inr (Some (LET v e), t) \<and> standby t ys"
proof -
  obtain m where k: "k = Suc m" using assms(6) by (cases k) auto
  have v: "isupper v" "\<not> isspace v" using assms(1) by (auto simp: isupper_def isspace_def)
  have "rest s = ''LET'' @ CHR '' '' # v # CHR ''='' # show_expr e @ CHR 0x0A # ys"
    using assms(5) by simp
  then obtain s1 where s1: "advance_until_separator s = Inr (Some ''LET'', s1)"
    "rest s1 = v # CHR ''='' # show_expr e @ CHR 0x0A # ys" "spaced s1" "\<not> eof s1"
    using assms(3,4) by (elim keyword_token) (simp_all add: isupper_def)
  then have "stands s1 (v # CHR ''='' # show_expr e @ CHR 0x0A # ys)"
    using v by (simp add: stands_def)
  then obtain s2 where s2: "advance s1 = (v, s2)" "rest s2 = CHR ''='' # show_expr e @ CHR 0x0A # ys"
    "\<not> eof s2" "spaced s2" by (rule advance_stands)
  then have "stands s2 (CHR ''='' # show_expr e @ CHR 0x0A # ys)"
    using operator_not_space [of "CHR ''=''"] by (simp add: stands_def is_operator_def)
  then obtain s3 where s3: "advance s2 = (CHR ''='', s3)" "rest s3 = show_expr e @ CHR 0x0A # ys"
    "\<not> eof s3" "spaced s3" by (rule advance_stands)
  obtain s4 where "expression m s3 = Inr (Some e, s4)" "standby s4 ys"
    by (rule statement_expression [of e s3 ys m]) (use assms s3 k in simp_all)
  moreover have "v \<noteq> CHR 0x00" using v by (auto simp: isupper_def)
  ultimately show ?thesis
    using k s1(1) s2(1) s3(1) v(1) by (simp add: init_let_node_def)
qed

lemma cond_reads:
  assumes "printable (COND c b)" "opens ys" "spaced s" "\<not> eof s" "rest s = show_stmt (COND c b) @ ys" "stmt_weight (COND c b) \<le> k"
    and IH: "\<And>m s. printable b \<Longrightarrow> spaced s \<Longrightarrow> \<not> eof s \<Longrightarrow> rest s = show_stmt b @ ys \<Longrightarrow> stmt_weight b \<le> m \<Longrightarrow>
      \<exists>t. statement m s = Inr (Some b, t) \<and> standby t ys"
  shows "\<exists>t. statement k s = Inr (Some (COND c b), t) \<and> standby t ys"
proof -
  obtain m where k: "k = Suc m" using assms(6) by (cases k) auto
  have wf: "condition c" "printable b" using assms(1) by simp_all
  let ?ys = "'' THEN '' @ show_stmt b @ ys" and ?zs = "''THEN'' @ CHR '' '' # show_stmt b @ ys"
  have "rest s = ''IF'' @ CHR '' '' # show_cond c @ ?ys" using assms(5) by simp
  then obtain s1 where s1: "advance_until_separator s = Inr (Some ''IF'', s1)"
    "rest s1 = show_cond c @ ?ys" "spaced s1" "\<not> eof s1"
    using assms(3,4) by (elim keyword_token) (simp_all add: isupper_def)
  have "dropWhile isspace (show_cond c @ ?ys) = show_cond c @ ?ys"
    using wf(1) stands_show by (cases c) auto
  with s1 have st: "stands s1 (show_cond c @ ?ys)" by (simp add: stands_def)
  have sp: "dropWhile isspace ?ys = ?zs" by (simp add: isspace_def)
  have "stop (dropWhile isspace ?ys)" by (simp add: isspace_def stop_def)
  from comparison_reads [OF wf(1) closed_newline(2) this st, of m] assms(6) k obtain s2 where
    s2: "comparison m s1 = Inr (Some c, s2)" "ready s2 ?zs" unfolding sp by auto
  then have "rest s2 = ?zs" "spaced s2" "\<not> eof s2" by (simp_all add: ready_def stands_def)
  then obtain s3 where s3: "advance_until_separator s2 = Inr (Some ''THEN'', s3)"
    "rest s3 = show_stmt b @ ys" "spaced s3" "\<not> eof s3"
    by (elim keyword_token) (simp_all add: isupper_def)
  from IH [OF wf(2) s3(3,4,2), of m] assms(6) k obtain s4 where
    "statement m s3 = Inr (Some b, s4)" "standby s4 ys" by auto
  with k s1(1) s2(1) s3(1) show ?thesis by (simp add: init_cond_node_def)
qed

lemma statement_reads:
  "printable n \<Longrightarrow> opens ys \<Longrightarrow> spaced s \<Longrightarrow> \<not> eof s \<Longrightarrow> rest s = show_stmt n @ ys \<Longrightarrow>
   stmt_weight n \<le> k \<Longrightarrow> \<exists>t. statement k s = Inr (Some n, t) \<and> standby t ys"
proof (induction n arbitrary: s k)
  case (PRINT e)
  obtain m where k: "k = Suc m" using PRINT.prems(6) by (cases k) auto
  have "rest s = ''PRINT'' @ CHR '' '' # show_expr e @ CHR 0x0A # ys" using PRINT.prems(5) by simp
  then obtain s1 where s1: "advance_until_separator s = Inr (Some ''PRINT'', s1)"
    "rest s1 = show_expr e @ CHR 0x0A # ys" "spaced s1" "\<not> eof s1"
    using PRINT.prems(3,4) by (elim keyword_token) (simp_all add: isupper_def)
  obtain s2 where "expression m s1 = Inr (Some e, s2)" "standby s2 ys"
    by (rule statement_expression [of e s1 ys m]) (use PRINT.prems s1 k in simp_all)
  with k s1(1) show ?case by (simp add: init_print_node_def)
next
  case (LET v e)
  from LET.prems show ?case by (rule let_reads)
next
  case (GOTO l)
  obtain m where k: "k = Suc m" using GOTO.prems(6) by (cases k) auto
  have "rest s = ''GOTO'' @ CHR '' '' # l @ CHR 0x0A # ys" using GOTO.prems(5) by simp
  then obtain s1 where s1: "advance_until_separator s = Inr (Some ''GOTO'', s1)"
    "rest s1 = l @ CHR 0x0A # ys" "spaced s1" "\<not> eof s1"
    using GOTO.prems(3,4) by (elim keyword_token) (simp_all add: isupper_def)
  have "token l" using GOTO.prems(1) by simp
  then obtain s2 where "advance_until_separator s1 = Inr (Some l, s2)" "rest s2 = ys" "spaced s2"
    "\<not> eof s2" using s1(2-4) by (rule label_token)
  with k s1(1) show ?case by (auto simp: init_goto_node_def intro: rest_standby)
next
  case (LABEL l)
  obtain m where k: "k = Suc m" using LABEL.prems(6) by (cases k) auto
  have l: "token l" "l \<noteq> []" "hd l \<noteq> CHR ''#''" "l \<notin> {''GOTO'', ''PRINT'', ''LET'', ''IF''}"
    using LABEL.prems(1) by (auto simp: plain_label_def token_def)
  have "rest s = l @ CHR 0x0A # ys" using LABEL.prems(5) by simp
  with l(1) obtain s1 where "advance_until_separator s = Inr (Some l, s1)" "rest s1 = ys" "spaced s1"
    "\<not> eof s1" using LABEL.prems(3,4) by (rule label_token)
  with k l show ?case by (auto simp: init_label_node_def intro: rest_standby)
next
  case (COND c b)
  from COND.prems COND.IH(2) [OF _ COND.prems(2)] show ?case by (rule cond_reads)
qed simp_all

section \<open>Programs\<close>

lemma blanks_read:
  "\<forall>c \<in> set (rest s). isspace c \<Longrightarrow> length (rest s) + 3 \<le> n \<Longrightarrow> offset s \<le> length (contents s) \<Longrightarrow>
   \<not> eof s \<Longrightarrow> parse_program n s = Inr []"
proof (induction "length (rest s)" arbitrary: s n)
  case 0
  obtain m where n: "n = Suc (Suc (Suc m))"
  proof
    show "n = Suc (Suc (Suc (n - 3)))" using 0(3) by simp
  qed
  have "length (contents s) \<le> offset s" using 0(1) by (simp add: rest_def)
  with n 0(5) show ?case
    by (simp add: parse_def advance_until_separator_def until_separator_end)
next
  case (Suc k)
  let ?t = "s\<lparr>offset := Suc (offset s)\<rparr>"
  obtain m where n: "n = Suc (Suc m)"
  proof
    show "n = Suc (Suc (n - 2))" using Suc.prems(2) by simp
  qed
  obtain c cs where c: "rest s = c # cs" using Suc.hyps(2) by (cases "rest s") auto
  have o: "offset s < length (contents s)" "contents s ! offset s = c" "rest ?t = cs"
    using rest_Cons [OF c] by simp_all
  have "isspace c" "\<not> is_operator c" using Suc.prems(1) c operator_not_space by auto
  then have "advance_until_separator s = Inr (Some [], ?t)"
    using o by (simp add: advance_until_separator_def until_separator_step Let_def MAX_KEYWORD_LENGTH_def c_string_def)
  moreover have "parse_program (Suc m) ?t = Inr []"
    using Suc.prems Suc.hyps(2) o c n by (intro Suc.hyps(1)) simp_all
  ultimately show ?case
    using n Suc.prems(4) by (simp add: parse_def del: parse_program.simps(2))
      (simp add: parse_program.simps(2) [of "Suc m" s] parse_def)
qed

lemma stmt_weight_pos: "0 < stmt_weight n"
  by (cases n) simp_all

lemma show_program_opens: "\<forall>n \<in> set ps. printable n \<Longrightarrow> opens (show_program ps)"
proof (cases ps)
  case (Cons n ns)
  moreover assume "\<forall>n \<in> set ps. printable n"
  ultimately show ?thesis
    using printable_start [of n] by (auto simp: opens_def show_program_def)
qed (simp add: opens_def show_program_def)

lemma show_program_Nil: "\<forall>n \<in> set ps. printable n \<Longrightarrow> show_program ps = [] \<longleftrightarrow> ps = []"
  using printable_start by (cases ps) (fastforce simp: show_program_def)+

lemma program_reads:
  "\<forall>n \<in> set ps. printable n \<Longrightarrow> standby s (show_program ps) \<Longrightarrow>
   sum_list (map stmt_weight ps) + 4 * length (contents s) + 4 \<le> k \<Longrightarrow> parse_program k s = Inr ps"
proof (induction ps arbitrary: s k)
  case Nil
  then show ?case
    by (intro blanks_read) (simp_all add: standby_def show_program_def spaced_def rest_def)
next
  case (Cons n ns)
  obtain m where k: "k = Suc m" using Cons.prems(3) by (cases k) auto
  have ne: "show_program (n # ns) \<noteq> []" using show_program_Nil [OF Cons.prems(1)] by simp
  have s: "spaced s" "\<not> eof s" "rest s = show_stmt n @ show_program ns"
    using Cons.prems(2) ne by (simp_all add: standby_def) (simp add: show_program_def)
  have "\<exists>t. statement m s = Inr (Some n, t) \<and> standby t (show_program ns)"
    using Cons.prems k by (intro statement_reads s show_program_opens) simp_all
  then obtain t where t: "statement m s = Inr (Some n, t)" "standby t (show_program ns)" by blast
  have "4 * left s + 4 \<le> m"
    using Cons.prems(3) k stmt_weight_pos [of n] by (simp add: left_def)
  from statement_fuel [OF s(1) this] t(1) have "contents t = contents s"
    by (simp add: settled_def forward_def)
  then have "parse_program m t = Inr ns"
    using Cons.prems k stmt_weight_pos [of n] t(2) by (intro Cons.IH) simp_all
  with k s(2) t(1) show ?case by (simp add: parse_def)
qed

lemma show_stmt_last: "printable n \<Longrightarrow> show_stmt n \<noteq> [] \<and> last (show_stmt n) = CHR 0x0A"
  by (induction n) auto

lemma show_program_last:
  "\<forall>n \<in> set ps. printable n \<Longrightarrow> ps \<noteq> [] \<Longrightarrow> last (show_program ps) = CHR 0x0A"
proof (induction ps)
  case (Cons n ns)
  then show ?case
    using show_stmt_last [of n] show_program_Nil [of ns]
    by (cases "ns = []") (simp_all add: show_program_def)
qed simp

definition parse_fuel :: "node_t list \<Rightarrow> nat" where
  "parse_fuel ps = sum_list (map stmt_weight ps) + 4 * length (show_program ps) + 4"

text \<open>
  C7. Round trip of programs: the text of a program, with its expressions in parentheses and one
  statement per line, is parsed to the same list of statements.
\<close>

theorem parse_show_program:
  assumes "\<forall>n \<in> set ps. printable n" "parse_fuel ps \<le> k"
  shows "parse_program k (open_stream (show_program ps)) = Inr ps"
proof (cases "ps = []")
  case True
  have "parse_program k (open_stream []) = Inr []"
    using assms(2) by (intro blanks_read) (simp_all add: rest_def open_stream_def parse_fuel_def)
  with True show ?thesis by (simp add: show_program_def)
next
  case False
  have "spaced (open_stream (show_program ps))"
    using show_program_last [OF assms(1) False] show_program_Nil [OF assms(1)] False
    by (simp add: spaced_def open_stream_def isspace_def)
  then have "standby (open_stream (show_program ps)) (show_program ps)"
    by (simp add: standby_def rest_def open_stream_def)
  with assms show ?thesis
    by (intro program_reads) (simp_all add: parse_fuel_def open_stream_def)
qed

definition sample :: "node_t list" where
  "sample = [LET CHR ''X'' (BINARY_OP CHR ''*'' (NUM (- 3)) (VAR CHR ''Y'')), LABEL ''10'',
     COND (BINARY_OP CHR ''<'' (VAR CHR ''X'') (NUM 100)) (GOTO ''10''), PRINT (VAR CHR ''X'')]"

theorem parse_show_program_witness:
  "parse_program (parse_fuel sample) (open_stream (show_program sample)) = Inr sample"
  by (rule parse_show_program)
    (auto simp: sample_def isupper_def plain_label_def token_def isspace_def is_operator_def
      MAX_KEYWORD_LENGTH_def)

end
