(* ===== verification/Class_File.thy ===== *)
theory Class_File
  imports C_Prelude
begin

text \<open>
  The class-file reader of TeenyJVM (\<open>project01-kweng/class_file.h\<close> and
  \<open>read_class.c\<close>) over a file given by its bytes and the position in it.  Every
  \<open>assert\<close> of the source is an error value.  The second half writes a class file and proves
  that the reader reads back exactly what was written.
\<close>

unbundle bit_operations_syntax

section \<open>Data\<close>

type_synonym u1 = "8 word"
type_synonym u2 = "16 word"
type_synonym u4 = "32 word"
type_synonym bytes = "u1 list"

text \<open>Each constant with its tag; a UTF-8 constant is the byte array that was read, without its final NUL.\<close>

datatype cp_info =
    CONSTANT_Utf8 bytes
  | CONSTANT_Integer u4
  | CONSTANT_Class u2
  | CONSTANT_Fieldref u2 u2
  | CONSTANT_Methodref u2 u2
  | CONSTANT_NameAndType u2 u2

type_synonym constant_pool_t = "cp_info list"

record class_header_t =
  magic :: u4
  major_version :: u2
  minor_version :: u2

record class_info_t =
  class_access_flags :: u2
  this_class :: u2
  super_class :: u2

record code_t =
  max_stack :: u2
  max_locals :: u2
  code :: bytes

record method_t =
  name :: bytes
  descriptor :: bytes
  mcode :: code_t

record class_file_t =
  constant_pool :: constant_pool_t
  methods :: "method_t list"

text \<open>A byte array as a C string ends at its first NUL.\<close>

definition cstr :: "bytes \<Rightarrow> bytes" where
  "cstr b = takeWhile (\<lambda>x. x \<noteq> 0) b"

definition streq :: "bytes \<Rightarrow> bytes \<Rightarrow> bool" where
  "streq a b \<longleftrightarrow> cstr a = cstr b"

definition ascii :: "string \<Rightarrow> bytes" where
  "ascii s = map (\<lambda>c. of_nat (of_char c)) s"

datatype jerr =
    Premature_eof | Invalid_index | Expected_Methodref | Expected_NameAndType | Expected_Utf8
  | Unknown_constant | No_interfaces | No_fields | Duplicate_code | Missing_code | Not_static
  | Null_method | Code_bounds | Stack_underflow | Stack_overflow | Locals_bounds
  | Uninitialised | Not_an_Integer | Divide_error | Main_returned | Missing_main | Jvm_fuel

section \<open>Reading integers\<close>

record cfile =
  content :: bytes
  fpos :: nat

definition read_u1 :: "cfile \<Rightarrow> (jerr, u1 \<times> cfile) res" where
  "read_u1 f = (if fpos f < length (content f)
     then Inr (content f ! fpos f, f\<lparr>fpos := Suc (fpos f)\<rparr>) else Inl Premature_eof)"

definition read_u2 :: "cfile \<Rightarrow> (jerr, u2 \<times> cfile) res" where
  "read_u2 f = bindE (read_u1 f) (\<lambda>(hi, f1). bindE (read_u1 f1) (\<lambda>(lo, f2).
     Inr (push_bit 8 (ucast hi) OR ucast lo, f2)))"

definition read_u4 :: "cfile \<Rightarrow> (jerr, u4 \<times> cfile) res" where
  "read_u4 f = bindE (read_u2 f) (\<lambda>(hi, f1). bindE (read_u2 f1) (\<lambda>(lo, f2).
     Inr (push_bit 16 (ucast hi) OR ucast lo, f2)))"

text \<open>\<open>fread\<close> of \<open>n\<close> bytes, with the assertion that all of them were there.\<close>

definition read_bytes :: "nat \<Rightarrow> cfile \<Rightarrow> (jerr, bytes \<times> cfile) res" where
  "read_bytes n f = (if n \<le> length (content f) - fpos f
     then Inr (take n (drop (fpos f) (content f)), f\<lparr>fpos := fpos f + n\<rparr>) else Inl Premature_eof)"

section \<open>The constant pool\<close>

definition get_constant :: "constant_pool_t \<Rightarrow> u2 \<Rightarrow> (jerr, cp_info) res" where
  "get_constant cp index = (if 0 < unat index \<and> unat index \<le> length cp
     then Inr (cp ! (unat index - 1)) else Inl Invalid_index)"

definition get_utf8 :: "constant_pool_t \<Rightarrow> u2 \<Rightarrow> (jerr, bytes) res" where
  "get_utf8 cp index = bindE (get_constant cp index) (\<lambda>c.
     case c of CONSTANT_Utf8 b \<Rightarrow> Inr b | _ \<Rightarrow> Inl Expected_Utf8)"

definition get_method_name_and_type :: "constant_pool_t \<Rightarrow> u2 \<Rightarrow> (jerr, u2 \<times> u2) res" where
  "get_method_name_and_type cp index = bindE (get_constant cp index) (\<lambda>c.
     case c of
       CONSTANT_Methodref cls nt \<Rightarrow> bindE (get_constant cp nt) (\<lambda>d.
         case d of CONSTANT_NameAndType n t \<Rightarrow> Inr (n, t) | _ \<Rightarrow> Inl Expected_NameAndType)
     | _ \<Rightarrow> Inl Expected_Methodref)"

text \<open>\<open>strlen - 3\<close>, truncated to 16 bits.\<close>

definition get_number_of_parameters :: "method_t \<Rightarrow> u2" where
  "get_number_of_parameters m = of_nat (length (cstr (descriptor m))) - 3"

definition find_method :: "bytes \<Rightarrow> bytes \<Rightarrow> class_file_t \<Rightarrow> method_t option" where
  "find_method nm desc cls = find (\<lambda>m. streq nm (name m) \<and> streq desc (descriptor m)) (methods cls)"

definition find_method_from_index :: "u2 \<Rightarrow> class_file_t \<Rightarrow> (jerr, method_t option) res" where
  "find_method_from_index index cls =
     bindE (get_method_name_and_type (constant_pool cls) index) (\<lambda>(n, t).
     bindE (get_utf8 (constant_pool cls) n) (\<lambda>nm.
     bindE (get_utf8 (constant_pool cls) t) (\<lambda>desc.
     Inr (find_method nm desc cls))))"

section \<open>Reading the parts of a class file\<close>

definition get_class_header :: "cfile \<Rightarrow> (jerr, class_header_t \<times> cfile) res" where
  "get_class_header f =
     bindE (read_u4 f) (\<lambda>(mg, f1). bindE (read_u2 f1) (\<lambda>(mj, f2). bindE (read_u2 f2) (\<lambda>(mn, f3).
     Inr (\<lparr>magic = mg, major_version = mj, minor_version = mn\<rparr>, f3))))"

definition read_two :: "(u2 \<Rightarrow> u2 \<Rightarrow> cp_info) \<Rightarrow> cfile \<Rightarrow> (jerr, cp_info \<times> cfile) res" where
  "read_two C f = bindE (read_u2 f) (\<lambda>(a, f1). bindE (read_u2 f1) (\<lambda>(b, f2). Inr (C a b, f2)))"

text \<open>One turn of the loop of \<open>get_constant_pool\<close>.\<close>

definition read_constant :: "cfile \<Rightarrow> (jerr, cp_info \<times> cfile) res" where
  "read_constant f = bindE (read_u1 f) (\<lambda>(tag, f1).
     if tag = 1 then
       bindE (read_u2 f1) (\<lambda>(len, f2). bindE (read_bytes (unat len) f2) (\<lambda>(v, f3).
       Inr (CONSTANT_Utf8 v, f3)))
     else if tag = 3 then bindE (read_u4 f1) (\<lambda>(v, f2). Inr (CONSTANT_Integer v, f2))
     else if tag = 7 then bindE (read_u2 f1) (\<lambda>(v, f2). Inr (CONSTANT_Class v, f2))
     else if tag = 10 then read_two CONSTANT_Methodref f1
     else if tag = 9 then read_two CONSTANT_Fieldref f1
     else if tag = 12 then read_two CONSTANT_NameAndType f1
     else Inl Unknown_constant)"

fun read_constants :: "nat \<Rightarrow> cfile \<Rightarrow> (jerr, cp_info list \<times> cfile) res" where
  "read_constants 0 f = Inr ([], f)"
| "read_constants (Suc n) f = bindE (read_constant f) (\<lambda>(c, f1).
     bindE (read_constants n f1) (\<lambda>(cs, f2). Inr (c # cs, f2)))"

definition get_constant_pool :: "cfile \<Rightarrow> (jerr, constant_pool_t \<times> cfile) res" where
  "get_constant_pool f = bindE (read_u2 f) (\<lambda>(n, f1). read_constants (unat (n - 1)) f1)"

definition get_class_info :: "cfile \<Rightarrow> (jerr, class_info_t \<times> cfile) res" where
  "get_class_info f =
     bindE (read_u2 f) (\<lambda>(af, f1). bindE (read_u2 f1) (\<lambda>(tc, f2). bindE (read_u2 f2) (\<lambda>(sc, f3).
     bindE (read_u2 f3) (\<lambda>(ic, f4). bindE (assertE (ic = 0) No_interfaces) (\<lambda>_.
     bindE (read_u2 f4) (\<lambda>(fc, f5). bindE (assertE (fc = 0) No_fields) (\<lambda>_.
     Inr (\<lparr>class_access_flags = af, this_class = tc, super_class = sc\<rparr>, f5))))))))"

text \<open>
  The attributes of a method: the loop keeps the code found so far (\<open>found_code\<close>), and after
  each attribute the file is positioned at the attribute's end, wherever its contents ended.
\<close>

fun read_attributes ::
  "nat \<Rightarrow> constant_pool_t \<Rightarrow> code_t option \<Rightarrow> cfile \<Rightarrow> (jerr, code_t option \<times> cfile) res" where
  "read_attributes 0 cp found f = Inr (found, f)"
| "read_attributes (Suc n) cp found f =
     bindE (read_u2 f) (\<lambda>(ni, f1).
     bindE (read_u4 f1) (\<lambda>(len, f2).
     let attribute_end = fpos f2 + unat len in
     bindE (get_utf8 cp ni) (\<lambda>type.
     bindE (if streq type (ascii ''Code'') then
              bindE (assertE (found = None) Duplicate_code) (\<lambda>_.
              bindE (read_u2 f2) (\<lambda>(ms, f3). bindE (read_u2 f3) (\<lambda>(ml, f4).
              bindE (read_u4 f4) (\<lambda>(cl, f5). bindE (read_bytes (unat cl) f5) (\<lambda>(c, f6).
              Inr (Some \<lparr>max_stack = ms, max_locals = ml, code = c\<rparr>, f6))))))
            else Inr (found, f2))
       (\<lambda>(found', f'). read_attributes n cp found' (f'\<lparr>fpos := attribute_end\<rparr>)))))"

definition read_method_attributes ::
  "nat \<Rightarrow> constant_pool_t \<Rightarrow> cfile \<Rightarrow> (jerr, code_t \<times> cfile) res" where
  "read_method_attributes n cp f = bindE (read_attributes n cp None f) (\<lambda>(found, f').
     case found of None \<Rightarrow> Inl Missing_code | Some c \<Rightarrow> Inr (c, f'))"

definition IS_STATIC :: u2 where
  "IS_STATIC = 8"

definition read_method :: "constant_pool_t \<Rightarrow> cfile \<Rightarrow> (jerr, method_t \<times> cfile) res" where
  "read_method cp f =
     bindE (read_u2 f) (\<lambda>(af, f1). bindE (read_u2 f1) (\<lambda>(ni, f2).
     bindE (read_u2 f2) (\<lambda>(di, f3). bindE (read_u2 f3) (\<lambda>(ac, f4).
     bindE (get_utf8 cp ni) (\<lambda>nm. bindE (get_utf8 cp di) (\<lambda>desc.
     bindE (assertE (streq nm (ascii ''<init>'') \<or> af AND IS_STATIC \<noteq> 0) Not_static) (\<lambda>_.
     bindE (read_method_attributes (unat ac) cp f4) (\<lambda>(c, f5).
     Inr (\<lparr>name = nm, descriptor = desc, mcode = c\<rparr>, f5)))))))))"

fun read_methods :: "nat \<Rightarrow> constant_pool_t \<Rightarrow> cfile \<Rightarrow> (jerr, method_t list \<times> cfile) res" where
  "read_methods 0 cp f = Inr ([], f)"
| "read_methods (Suc n) cp f = bindE (read_method cp f) (\<lambda>(m, f1).
     bindE (read_methods n cp f1) (\<lambda>(ms, f2). Inr (m # ms, f2)))"

definition get_methods :: "constant_pool_t \<Rightarrow> cfile \<Rightarrow> (jerr, method_t list \<times> cfile) res" where
  "get_methods cp f = bindE (read_u2 f) (\<lambda>(n, f1). read_methods (unat n) cp f1)"

definition get_class :: "cfile \<Rightarrow> (jerr, class_file_t \<times> cfile) res" where
  "get_class f =
     bindE (get_class_header f) (\<lambda>(_, f1).
     bindE (get_constant_pool f1) (\<lambda>(cp, f2).
     bindE (get_class_info f2) (\<lambda>(_, f3).
     bindE (get_methods cp f3) (\<lambda>(ms, f4).
     Inr (\<lparr>constant_pool = cp, methods = ms\<rparr>, f4)))))"

text \<open>
  \<open>free_class\<close> as the sequence of blocks it releases: the \<open>info\<close> of every constant,
  the pool, the code of every method, the array of methods.
\<close>

datatype class_block = Info nat | Pool | Code_block nat | Methods_block

definition free_class :: "class_file_t \<Rightarrow> class_block list" where
  "free_class cls = map Info [0..<length (constant_pool cls)] @ [Pool]
     @ map Code_block [0..<length (methods cls)] @ [Methods_block]"

definition open_class :: "bytes \<Rightarrow> cfile" where
  "open_class b = \<lparr>content = b, fpos = 0\<rparr>"

section \<open>Writing a class file\<close>

definition enc_u2 :: "u2 \<Rightarrow> bytes" where
  "enc_u2 w = [ucast (drop_bit 8 w), ucast w]"

definition enc_u4 :: "u4 \<Rightarrow> bytes" where
  "enc_u4 w = enc_u2 (ucast (drop_bit 16 w)) @ enc_u2 (ucast w)"

fun enc_constant :: "cp_info \<Rightarrow> bytes" where
  "enc_constant (CONSTANT_Utf8 b) = [1] @ enc_u2 (of_nat (length b)) @ b"
| "enc_constant (CONSTANT_Integer v) = [3] @ enc_u4 v"
| "enc_constant (CONSTANT_Class v) = [7] @ enc_u2 v"
| "enc_constant (CONSTANT_Fieldref a b) = [9] @ enc_u2 a @ enc_u2 b"
| "enc_constant (CONSTANT_Methodref a b) = [10] @ enc_u2 a @ enc_u2 b"
| "enc_constant (CONSTANT_NameAndType a b) = [12] @ enc_u2 a @ enc_u2 b"

text \<open>
  The attributes of a method as they stand in a file: the code, with the tables that follow it in
  the attribute, and attributes the reader skips.
\<close>

datatype attribute = Code_attr u2 code_t bytes | Other_attr u2 bytes

fun attr_index :: "attribute \<Rightarrow> u2" where
  "attr_index (Code_attr i c t) = i"
| "attr_index (Other_attr i b) = i"

fun attr_body :: "attribute \<Rightarrow> bytes" where
  "attr_body (Code_attr i c t) =
     enc_u2 (max_stack c) @ enc_u2 (max_locals c) @ enc_u4 (of_nat (length (code c))) @ code c @ t"
| "attr_body (Other_attr i b) = b"

definition enc_attr :: "attribute \<Rightarrow> bytes" where
  "enc_attr a = enc_u2 (attr_index a) @ enc_u4 (of_nat (length (attr_body a))) @ attr_body a"

record method_entry =
  me_flags :: u2
  me_name :: u2
  me_descriptor :: u2
  me_before :: "attribute list"
  me_code :: attribute
  me_after :: "attribute list"

definition me_attrs :: "method_entry \<Rightarrow> attribute list" where
  "me_attrs m = me_before m @ me_code m # me_after m"

definition enc_method :: "method_entry \<Rightarrow> bytes" where
  "enc_method m = enc_u2 (me_flags m) @ enc_u2 (me_name m) @ enc_u2 (me_descriptor m)
     @ enc_u2 (of_nat (length (me_attrs m))) @ concat (map enc_attr (me_attrs m))"

definition enc_class :: "class_header_t \<Rightarrow> constant_pool_t \<Rightarrow> class_info_t \<Rightarrow> method_entry list \<Rightarrow> bytes" where
  "enc_class h cp i ms =
     enc_u4 (magic h) @ enc_u2 (major_version h) @ enc_u2 (minor_version h)
     @ enc_u2 (of_nat (length cp + 1)) @ concat (map enc_constant cp)
     @ enc_u2 (class_access_flags i) @ enc_u2 (this_class i) @ enc_u2 (super_class i)
     @ enc_u2 0 @ enc_u2 0
     @ enc_u2 (of_nat (length ms)) @ concat (map enc_method ms)"

text \<open>What fits the widths of the length fields, and what the reader insists on.\<close>

fun fits_constant :: "cp_info \<Rightarrow> bool" where
  "fits_constant (CONSTANT_Utf8 b) = (length b < 2 ^ 16)"
| "fits_constant _ = True"

definition code_name :: "constant_pool_t \<Rightarrow> u2 \<Rightarrow> bool" where
  "code_name cp i = (case get_utf8 cp i of Inr b \<Rightarrow> streq b (ascii ''Code'') | Inl _ \<Rightarrow> False)"

fun fits_attr :: "constant_pool_t \<Rightarrow> attribute \<Rightarrow> bool" where
  "fits_attr cp (Code_attr i c t) =
     (code_name cp i \<and> length (attr_body (Code_attr i c t)) < 2 ^ 32 \<and> length (code c) < 2 ^ 32)"
| "fits_attr cp (Other_attr i b) =
     (\<not> code_name cp i \<and> (case get_utf8 cp i of Inr _ \<Rightarrow> True | Inl _ \<Rightarrow> False) \<and> length b < 2 ^ 32)"

fun is_code :: "attribute \<Rightarrow> bool" where
  "is_code (Code_attr i c t) = True"
| "is_code (Other_attr i b) = False"

fun attr_code :: "attribute \<Rightarrow> code_t" where
  "attr_code (Code_attr i c t) = c"
| "attr_code (Other_attr i b) = \<lparr>max_stack = 0, max_locals = 0, code = []\<rparr>"

definition fits_method :: "constant_pool_t \<Rightarrow> method_entry \<Rightarrow> bool" where
  "fits_method cp m \<longleftrightarrow>
     length (me_attrs m) < 2 ^ 16 \<and> list_all (fits_attr cp) (me_attrs m) \<and>
     list_all (\<lambda>a. \<not> is_code a) (me_before m @ me_after m) \<and> is_code (me_code m) \<and>
     (case get_utf8 cp (me_descriptor m) of Inr d \<Rightarrow> True | Inl _ \<Rightarrow> False) \<and>
     (case get_utf8 cp (me_name m) of
        Inr n \<Rightarrow> streq n (ascii ''<init>'') \<or> me_flags m AND IS_STATIC \<noteq> 0
      | Inl _ \<Rightarrow> False)"

definition utf8_at :: "constant_pool_t \<Rightarrow> u2 \<Rightarrow> bytes" where
  "utf8_at cp i = (case get_utf8 cp i of Inr b \<Rightarrow> b | Inl _ \<Rightarrow> [])"

definition loaded :: "constant_pool_t \<Rightarrow> method_entry \<Rightarrow> method_t" where
  "loaded cp m = \<lparr>name = utf8_at cp (me_name m), descriptor = utf8_at cp (me_descriptor m),
     mcode = attr_code (me_code m)\<rparr>"

section \<open>The reader reads what was written\<close>

definition ahead :: "cfile \<Rightarrow> bytes" where
  "ahead f = drop (fpos f) (content f)"

abbreviation skip :: "nat \<Rightarrow> cfile \<Rightarrow> cfile" where
  "skip n f \<equiv> f\<lparr>fpos := fpos f + n\<rparr>"

definition reads_as :: "(cfile \<Rightarrow> (jerr, 'a \<times> cfile) res) \<Rightarrow> bytes \<Rightarrow> 'a \<Rightarrow> bool" where
  "reads_as rd enc v \<longleftrightarrow> (\<forall>f xs. ahead f = enc @ xs \<longrightarrow> rd f = Inr (v, skip (length enc) f))"

lemma ahead_skip: "ahead f = enc @ xs \<Longrightarrow> ahead (skip (length enc) f) = xs"
  by (metis ahead_def append_eq_conv_conj cfile.ext_inject cfile.surjective cfile.update_convs(2)
      drop_drop add.commute)

lemma reads_bind:
  assumes "reads_as r e v" "reads_as (k v) e' v'"
  shows "reads_as (\<lambda>f. bindE (r f) (\<lambda>(x, f1). k x f1)) (e @ e') v'"
  unfolding reads_as_def
proof (intro allI impI)
  fix f xs assume a: "ahead f = (e @ e') @ xs"
  then have "r f = Inr (v, skip (length e) f)" using assms(1) by (simp add: reads_as_def)
  moreover have "ahead (skip (length e) f) = e' @ xs" using a by (intro ahead_skip) simp
  then have "k v (skip (length e) f) = Inr (v', skip (length e') (skip (length e) f))"
    using assms(2) by (simp add: reads_as_def)
  ultimately show "bindE (r f) (\<lambda>(x, f1). k x f1) = Inr (v', skip (length (e @ e')) f)"
    by (simp add: add.assoc)
qed

lemma reads_last:
  assumes "reads_as r e v"
  shows "reads_as (\<lambda>f. bindE (r f) (\<lambda>(x, f1). Inr (g x, f1))) e (g v)"
  using assms by (simp add: reads_as_def)

lemma reads_u1: "reads_as read_u1 [b] b"
proof -
  have "fpos f < length (content f) \<and> content f ! fpos f = b" if "ahead f = [b] @ xs" for f xs
    using that unfolding ahead_def
    by (metis append_Cons drop_all linorder_not_less list.discI list.sel(1) hd_drop_conv_nth)
  then show ?thesis by (auto simp: reads_as_def read_u1_def)
qed

lemma join_u2: "push_bit 8 (ucast (ucast (drop_bit 8 w) :: u1)) OR ucast (ucast w :: u1) = (w :: u2)"
  by (rule bit_word_eqI) (auto simp: bit_simps)

lemma join_u4: "push_bit 16 (ucast (ucast (drop_bit 16 w) :: u2)) OR ucast (ucast w :: u2) = (w :: u4)"
  by (rule bit_word_eqI) (auto simp: bit_simps)

lemma reads_u2: "reads_as read_u2 (enc_u2 w) w"
proof -
  have "reads_as (\<lambda>f. bindE (read_u1 f) (\<lambda>(hi, f1). bindE (read_u1 f1) (\<lambda>(lo, f2).
     Inr (push_bit 8 (ucast hi) OR ucast lo, f2)))) ([ucast (drop_bit 8 w)] @ [ucast w])
     (push_bit 8 (ucast (ucast (drop_bit 8 w) :: u1)) OR ucast (ucast w :: u1) :: u2)"
    by (rule reads_bind [OF reads_u1]) (rule reads_last [OF reads_u1])
  then show ?thesis unfolding join_u2 enc_u2_def read_u2_def [abs_def] by simp
qed

lemma reads_u4: "reads_as read_u4 (enc_u4 w) w"
proof -
  have "reads_as (\<lambda>f. bindE (read_u2 f) (\<lambda>(hi, f1). bindE (read_u2 f1) (\<lambda>(lo, f2).
     Inr (push_bit 16 (ucast hi) OR ucast lo, f2)))) (enc_u2 (ucast (drop_bit 16 w)) @ enc_u2 (ucast w))
     (push_bit 16 (ucast (ucast (drop_bit 16 w) :: u2)) OR ucast (ucast w :: u2) :: u4)"
    by (rule reads_bind [OF reads_u2]) (rule reads_last [OF reads_u2])
  then show ?thesis unfolding join_u4 enc_u4_def read_u4_def [abs_def] .
qed

lemma reads_bytes: "reads_as (read_bytes (length b)) b b"
proof -
  have "length b \<le> length (content f) - fpos f" if "ahead f = b @ xs" for f xs
    using arg_cong [OF that, of length] by (simp add: ahead_def)
  then show ?thesis by (simp add: reads_as_def read_bytes_def ahead_def)
qed

lemma unat_of_nat_16 [simp]: "n < 2 ^ 16 \<Longrightarrow> unat (of_nat n :: u2) = n"
  by (simp add: unat_of_nat)

lemma unat_of_nat_32 [simp]: "n < 2 ^ 32 \<Longrightarrow> unat (of_nat n :: u4) = n"
  by (simp add: unat_of_nat)

lemma reads_two: "reads_as (read_two C) (enc_u2 a @ enc_u2 b) (C a b)"
  unfolding read_two_def [abs_def] by (rule reads_bind [OF reads_u2]) (rule reads_last [OF reads_u2])

lemma reads_constant:
  assumes "fits_constant c"
  shows "reads_as read_constant (enc_constant c) c"
proof (cases c)
  case (CONSTANT_Utf8 b)
  have "reads_as (\<lambda>f1. bindE (read_u2 f1) (\<lambda>(len, f2). bindE (read_bytes (unat len) f2) (\<lambda>(v, f3).
      Inr (CONSTANT_Utf8 v, f3)))) (enc_u2 (of_nat (length b)) @ b) (CONSTANT_Utf8 b)"
    using assms CONSTANT_Utf8
    by (intro reads_bind [OF reads_u2] reads_last) (simp add: reads_bytes)
  then have "reads_as read_constant ([1] @ enc_u2 (of_nat (length b)) @ b) (CONSTANT_Utf8 b)"
    unfolding read_constant_def [abs_def] by (intro reads_bind [OF reads_u1]) simp
  then show ?thesis by (simp add: CONSTANT_Utf8)
next
  case (CONSTANT_Integer v)
  have "reads_as read_constant ([3] @ enc_u4 v) (CONSTANT_Integer v)"
    unfolding read_constant_def [abs_def]
    by (rule reads_bind [OF reads_u1]) (simp add: reads_last [OF reads_u4, of CONSTANT_Integer])
  then show ?thesis by (simp add: CONSTANT_Integer)
next
  case (CONSTANT_Class v)
  have "reads_as read_constant ([7] @ enc_u2 v) (CONSTANT_Class v)"
    unfolding read_constant_def [abs_def]
    by (rule reads_bind [OF reads_u1]) (simp add: reads_last [OF reads_u2, of CONSTANT_Class])
  then show ?thesis by (simp add: CONSTANT_Class)
next
  case (CONSTANT_Fieldref a b)
  have "reads_as read_constant ([9] @ enc_u2 a @ enc_u2 b) (CONSTANT_Fieldref a b)"
    unfolding read_constant_def [abs_def]
    by (rule reads_bind [OF reads_u1]) (simp add: reads_two)
  then show ?thesis by (simp add: CONSTANT_Fieldref)
next
  case (CONSTANT_Methodref a b)
  have "reads_as read_constant ([10] @ enc_u2 a @ enc_u2 b) (CONSTANT_Methodref a b)"
    unfolding read_constant_def [abs_def]
    by (rule reads_bind [OF reads_u1]) (simp add: reads_two)
  then show ?thesis by (simp add: CONSTANT_Methodref)
next
  case (CONSTANT_NameAndType a b)
  have "reads_as read_constant ([12] @ enc_u2 a @ enc_u2 b) (CONSTANT_NameAndType a b)"
    unfolding read_constant_def [abs_def]
    by (rule reads_bind [OF reads_u1]) (simp add: reads_two)
  then show ?thesis by (simp add: CONSTANT_NameAndType)
qed

lemma reads_return: "reads_as (\<lambda>f. Inr (v, f)) [] v"
  by (simp add: reads_as_def)

lemma reads_constants:
  "list_all fits_constant cs \<Longrightarrow> reads_as (read_constants (length cs)) (concat (map enc_constant cs)) cs"
proof (induction cs)
  case Nil
  then show ?case using reads_return [of "[]"] by (simp add: fun_eq_iff [symmetric])
next
  case (Cons c cs)
  then have "reads_as (\<lambda>f. bindE (read_constant f) (\<lambda>(c, f1).
      bindE (read_constants (length cs) f1) (\<lambda>(cs, f2). Inr (c # cs, f2))))
      (enc_constant c @ concat (map enc_constant cs)) (c # cs)"
    by (intro reads_bind [OF reads_constant] reads_last) simp_all
  then show ?case by simp
qed

lemma reads_pool:
  assumes "list_all fits_constant cp" "length cp + 1 < 2 ^ 16"
  shows "reads_as get_constant_pool (enc_u2 (of_nat (length cp + 1)) @ concat (map enc_constant cp)) cp"
proof -
  have "unat ((of_nat (length cp + 1) :: u2) - 1) = length cp"
    using assms(2) by simp
  with reads_constants [OF assms(1)] show ?thesis
    unfolding get_constant_pool_def [abs_def] by (intro reads_bind [OF reads_u2]) simp
qed

text \<open>
  Attributes: whatever the reader does inside an attribute, it goes on right behind it.
\<close>

lemma read_code:
  assumes "ahead f = attr_body (Code_attr i c t) @ xs" "length (code c) < 2 ^ 32"
  shows "\<exists>f6. content f6 = content f \<and>
    bindE (read_u2 f) (\<lambda>(ms, f3). bindE (read_u2 f3) (\<lambda>(ml, f4).
    bindE (read_u4 f4) (\<lambda>(cl, f5). bindE (read_bytes (unat cl) f5) (\<lambda>(cd, f6).
    Inr (Some \<lparr>max_stack = ms, max_locals = ml, code = cd\<rparr>, f6))))) = Inr (Some c, f6)"
proof -
  have r: "reads_as (\<lambda>f. bindE (read_u2 f) (\<lambda>(ms, f3). bindE (read_u2 f3) (\<lambda>(ml, f4).
    bindE (read_u4 f4) (\<lambda>(cl, f5). bindE (read_bytes (unat cl) f5) (\<lambda>(cd, f6).
    Inr (Some \<lparr>max_stack = ms, max_locals = ml, code = cd\<rparr>, f6))))))
    (enc_u2 (max_stack c) @ enc_u2 (max_locals c) @ enc_u4 (of_nat (length (code c))) @ code c)
    (Some \<lparr>max_stack = max_stack c, max_locals = max_locals c, code = code c\<rparr>)"
    using assms(2) by (intro reads_bind [OF reads_u2] reads_bind [OF reads_u4] reads_last)
      (simp add: reads_bytes)
  have "ahead f = (enc_u2 (max_stack c) @ enc_u2 (max_locals c) @ enc_u4 (of_nat (length (code c)))
      @ code c) @ t @ xs" using assms(1) by simp
  with r show ?thesis unfolding reads_as_def by fastforce
qed

definition picks :: "attribute \<Rightarrow> code_t option \<Rightarrow> code_t option" where
  "picks a found = (if is_code a then Some (attr_code a) else found)"

lemma reads_attribute:
  assumes "fits_attr cp a" "is_code a \<Longrightarrow> found = None"
    "reads_as (read_attributes n cp (picks a found)) e r"
  shows "reads_as (read_attributes (Suc n) cp found) (enc_attr a @ e) r"
  unfolding reads_as_def
proof (intro allI impI)
  fix f xs assume f: "ahead f = (enc_attr a @ e) @ xs"
  let ?b = "attr_body a"
  let ?f2 = "skip 4 (skip 2 f)"
  have len: "length (enc_u2 w) = 2" "length (enc_u4 v) = 4" for w v
    by (simp_all add: enc_u2_def enc_u4_def)
  have fits: "length ?b < 2 ^ 32" using assms(1) by (cases a) auto
  have f': "ahead f = enc_u2 (attr_index a) @ enc_u4 (of_nat (length ?b)) @ ?b @ e @ xs"
    using f by (simp add: enc_attr_def)
  then have r1: "read_u2 f = Inr (attr_index a, skip 2 f)"
    using reads_u2 [unfolded reads_as_def] len(1) by metis
  have a1: "ahead (skip 2 f) = enc_u4 (of_nat (length ?b)) @ ?b @ e @ xs"
    using ahead_skip [OF f'] len by simp
  then have r2: "read_u4 (skip 2 f) = Inr (of_nat (length ?b), ?f2)"
    using reads_u4 [unfolded reads_as_def] len(2) by metis
  have a2: "ahead ?f2 = ?b @ e @ xs" using ahead_skip [OF a1] len by simp
  let ?f3 = "skip (length ?b) ?f2"
  have "ahead ?f3 = e @ xs" using ahead_skip [OF a2] by simp
  then have rest: "read_attributes n cp (picks a found) ?f3 = Inr (r, skip (length e) ?f3)"
    using assms(3) by (simp add: reads_as_def)
  have pos: "skip (length e) ?f3 = skip (length (enc_attr a @ e)) f"
    by (simp add: enc_attr_def len add.assoc)
  obtain u where u: "get_utf8 cp (attr_index a) = Inr u" "streq u (ascii ''Code'') \<longleftrightarrow> is_code a"
    using assms(1) by (cases a) (auto simp: code_name_def split: sum.splits)
  show "read_attributes (Suc n) cp found f = Inr (r, skip (length (enc_attr a @ e)) f)"
  proof (cases a)
    case (Code_attr i c t)
    with a2 assms(1) obtain f6 where f6: "content f6 = content ?f2"
      "bindE (read_u2 ?f2) (\<lambda>(ms, f3). bindE (read_u2 f3) (\<lambda>(ml, f4).
        bindE (read_u4 f4) (\<lambda>(cl, f5). bindE (read_bytes (unat cl) f5) (\<lambda>(cd, f6).
        Inr (Some \<lparr>max_stack = ms, max_locals = ml, code = cd\<rparr>, f6))))) = Inr (Some c, f6)"
      using read_code [of ?f2 i c t "e @ xs"] by auto
    have "f6\<lparr>fpos := fpos ?f3\<rparr> = ?f3" using f6(1) by simp
    with Code_attr r1 r2 u f6(2) rest pos fits assms(2) show ?thesis
      by (simp add: picks_def Let_def del: attr_body.simps)
  next
    case (Other_attr i b)
    with r1 r2 u rest pos fits show ?thesis
      by (simp add: picks_def Let_def)
  qed
qed

lemma reads_plain_attributes:
  "list_all (fits_attr cp) as \<Longrightarrow> list_all (\<lambda>a. \<not> is_code a) as \<Longrightarrow>
   reads_as (read_attributes n cp found) e r \<Longrightarrow>
   reads_as (read_attributes (length as + n) cp found) (concat (map enc_attr as) @ e) r"
proof (induction as)
  case (Cons a as)
  then have "reads_as (read_attributes (length as + n) cp (picks a found)) (concat (map enc_attr as) @ e) r"
    by (simp add: picks_def)
  from reads_attribute [OF _ _ this] Cons.prems show ?case by (simp del: read_attributes.simps)
qed simp

lemma reads_attributes:
  assumes "fits_method cp m"
  shows "reads_as (read_attributes (length (me_attrs m)) cp None) (concat (map enc_attr (me_attrs m)))
    (Some (attr_code (me_code m)))"
proof -
  let ?c = "me_code m" and ?v = "Some (attr_code (me_code m))"
  have fits: "list_all (fits_attr cp) (me_before m)" "list_all (fits_attr cp) (me_after m)" "fits_attr cp ?c"
    "list_all (\<lambda>a. \<not> is_code a) (me_before m)" "list_all (\<lambda>a. \<not> is_code a) (me_after m)" "is_code ?c"
    using assms by (simp_all add: fits_method_def me_attrs_def)
  have "reads_as (read_attributes 0 cp ?v) [] ?v"
    by (simp add: reads_as_def)
  from reads_plain_attributes [OF fits(2,5) this]
  have "reads_as (read_attributes (length (me_after m)) cp (picks ?c None))
      (concat (map enc_attr (me_after m))) ?v" using fits(6) by (simp add: picks_def)
  from reads_attribute [OF fits(3) refl this] reads_plain_attributes [OF fits(1,4)]
  show ?thesis by (fastforce simp: me_attrs_def)
qed

lemma reads_method:
  assumes "fits_method cp m"
  shows "reads_as (read_method cp) (enc_method m) (loaded cp m)"
proof -
  obtain n where n: "get_utf8 cp (me_name m) = Inr n" "streq n (ascii ''<init>'') \<or> me_flags m AND IS_STATIC \<noteq> 0"
    using assms by (auto simp: fits_method_def split: sum.splits)
  obtain d where d: "get_utf8 cp (me_descriptor m) = Inr d"
    using assms by (auto simp: fits_method_def split: sum.splits)
  have "reads_as (read_method_attributes (length (me_attrs m)) cp) (concat (map enc_attr (me_attrs m)))
      (attr_code (me_code m))"
    using reads_attributes [OF assms] by (auto simp: reads_as_def read_method_attributes_def)
  then have "reads_as (\<lambda>f. bindE (read_method_attributes (unat (of_nat (length (me_attrs m)) :: u2)) cp f)
      (\<lambda>(c, f5). Inr (\<lparr>name = n, descriptor = d, mcode = c\<rparr>, f5))) (concat (map enc_attr (me_attrs m)))
      \<lparr>name = n, descriptor = d, mcode = attr_code (me_code m)\<rparr>"
    using assms by (intro reads_last) (simp add: fits_method_def)
  moreover have "assertE (streq n (ascii ''<init>'') \<or> me_flags m AND IS_STATIC \<noteq> 0) Not_static = Inr ()"
    using n(2) by (simp add: assertE_def)
  ultimately show ?thesis
    unfolding read_method_def [abs_def] enc_method_def loaded_def utf8_at_def
    by (intro reads_bind [OF reads_u2]) (simp add: n(1) d)
qed

lemma reads_methods:
  "list_all (fits_method cp) ms \<Longrightarrow>
   reads_as (read_methods (length ms) cp) (concat (map enc_method ms)) (map (loaded cp) ms)"
proof (induction ms)
  case (Cons m ms)
  then have "reads_as (\<lambda>f. bindE (read_method cp f) (\<lambda>(m, f1).
      bindE (read_methods (length ms) cp f1) (\<lambda>(ms, f2). Inr (m # ms, f2))))
      (enc_method m @ concat (map enc_method ms)) (loaded cp m # map (loaded cp) ms)"
    by (intro reads_bind [OF reads_method] reads_last) simp_all
  then show ?case by simp
qed (simp add: reads_as_def)

definition fits_class :: "constant_pool_t \<Rightarrow> method_entry list \<Rightarrow> bool" where
  "fits_class cp ms \<longleftrightarrow> length cp + 1 < 2 ^ 16 \<and> list_all fits_constant cp \<and>
     length ms < 2 ^ 16 \<and> list_all (fits_method cp) ms"

lemma reads_info:
  "reads_as get_class_info (enc_u2 (class_access_flags i) @ enc_u2 (this_class i) @ enc_u2 (super_class i)
     @ enc_u2 0 @ enc_u2 0)
   \<lparr>class_access_flags = class_access_flags i, this_class = this_class i, super_class = super_class i\<rparr>"
proof -
  have "reads_as (\<lambda>f. bindE (read_u2 f) (\<lambda>(fc, f5). bindE (assertE (fc = 0) No_fields) (\<lambda>_.
      Inr (v, f5)))) (enc_u2 0) v" for v :: class_info_t
    using reads_u2 [of 0] by (simp add: reads_as_def)
  then show ?thesis
    unfolding get_class_info_def [abs_def] by (intro reads_bind [OF reads_u2]) simp
qed

lemma reads_header:
  "reads_as get_class_header (enc_u4 (magic h) @ enc_u2 (major_version h) @ enc_u2 (minor_version h))
   \<lparr>magic = magic h, major_version = major_version h, minor_version = minor_version h\<rparr>"
  unfolding get_class_header_def [abs_def]
  by (intro reads_bind [OF reads_u4] reads_bind [OF reads_u2] reads_last reads_u2)

text \<open>
  C6. Round trip of class files: a class file written with a constant pool and methods that fit its
  length fields is read back as exactly that constant pool and those methods, with the name and
  descriptor of each method looked up in the pool, the code taken from its one \<open>Code\<close>
  attribute, and every other attribute and whatever follows the class skipped.
\<close>

theorem get_class_reads_back:
  assumes "fits_class cp ms"
  shows "\<exists>f. get_class (open_class (enc_class h cp i ms @ rest)) =
    Inr (\<lparr>constant_pool = cp, methods = map (loaded cp) ms\<rparr>, f) \<and> ahead f = rest"
proof -
  have m: "reads_as (get_methods cp) (enc_u2 (of_nat (length ms)) @ concat (map enc_method ms))
      (map (loaded cp) ms)"
    unfolding get_methods_def [abs_def]
    using assms reads_methods [of cp ms] by (intro reads_bind [OF reads_u2]) (simp add: fits_class_def)
  have pool: "reads_as get_constant_pool (enc_u2 (of_nat (length cp + 1)) @ concat (map enc_constant cp)) cp"
    using assms by (intro reads_pool) (simp_all add: fits_class_def)
  have "reads_as get_class
      ((enc_u4 (magic h) @ enc_u2 (major_version h) @ enc_u2 (minor_version h))
       @ (enc_u2 (of_nat (length cp + 1)) @ concat (map enc_constant cp))
       @ (enc_u2 (class_access_flags i) @ enc_u2 (this_class i) @ enc_u2 (super_class i) @ enc_u2 0 @ enc_u2 0)
       @ (enc_u2 (of_nat (length ms)) @ concat (map enc_method ms)))
      \<lparr>constant_pool = cp, methods = map (loaded cp) ms\<rparr>"
    unfolding get_class_def [abs_def]
    by (rule reads_bind [OF reads_header], rule reads_bind [OF pool], rule reads_bind [OF reads_info],
        rule reads_last [OF m])
  then have "reads_as get_class (enc_class h cp i ms) \<lparr>constant_pool = cp, methods = map (loaded cp) ms\<rparr>"
    by (simp add: enc_class_def)
  moreover have a: "ahead (open_class (enc_class h cp i ms @ rest)) = enc_class h cp i ms @ rest"
    by (simp add: ahead_def open_class_def)
  ultimately show ?thesis
    using ahead_skip [OF a] by (auto simp: reads_as_def)
qed

definition demo_pool :: constant_pool_t where
  "demo_pool = [CONSTANT_Utf8 (ascii ''main''), CONSTANT_Utf8 (ascii ''([Ljava/lang/String;)V''),
     CONSTANT_Utf8 (ascii ''Code''), CONSTANT_Utf8 (ascii ''Deprecated''), CONSTANT_Integer 123456]"

definition demo_method :: method_entry where
  "demo_method = \<lparr>me_flags = 9, me_name = 1, me_descriptor = 2, me_before = [Other_attr 4 []],
     me_code = Code_attr 3 \<lparr>max_stack = 2, max_locals = 1, code = [0x12, 5, 0xb6, 0, 0, 0xb1]\<rparr> [0, 0, 0, 0],
     me_after = []\<rparr>"

theorem get_class_reads_back_witness:
  "\<exists>f. get_class (open_class (enc_class \<lparr>magic = 0xCAFEBABE, major_version = 0, minor_version = 55\<rparr>
      demo_pool \<lparr>class_access_flags = 33, this_class = 5, super_class = 6\<rparr> [demo_method] @ [])) =
    Inr (\<lparr>constant_pool = demo_pool, methods = map (loaded demo_pool) [demo_method]\<rparr>, f) \<and> ahead f = []"
  by (rule get_class_reads_back)
    (simp add: fits_class_def demo_pool_def demo_method_def fits_method_def me_attrs_def code_name_def
      get_utf8_def get_constant_def ascii_def streq_def cstr_def enc_u2_def enc_u4_def IS_STATIC_def)

text \<open>\<open>free_class\<close> releases every block of the class once.\<close>

lemma free_class_distinct: "distinct (free_class cls)"
  by (auto simp: free_class_def distinct_map inj_on_def)

end
