(* ===== verification/Jvm.thy ===== *)
theory Jvm
  imports Class_File
begin

text \<open>
  The interpreter of TeenyJVM (\<open>project01-kweng/jvm.h\<close> and \<open>jvm.c\<close>): the opcodes,
  the function tables for arithmetic and comparisons that are indexed by opcode offsets, one turn of
  the loop of \<open>execute\<close>, the recursive call of \<open>invokestatic\<close>, and \<open>main\<close>.
  The operand stack is the part of the array below \<open>size\<close>, its top first.  An access outside
  the operand stack, the local variables or the code is an error value, and so is reading a local
  variable that was never written.  Execution takes fuel: one unit per instruction.
\<close>

section \<open>Opcodes\<close>

datatype jvm_instruction_t =
    i_iconst_m1 | i_iconst_0 | i_iconst_1 | i_iconst_2 | i_iconst_3 | i_iconst_4 | i_iconst_5
  | i_bipush | i_sipush | i_ldc
  | i_iload | i_iload_0 | i_iload_1 | i_iload_2 | i_iload_3
  | i_istore | i_istore_0 | i_istore_1 | i_istore_2 | i_istore_3
  | i_iadd | i_isub | i_imul | i_idiv | i_irem | i_ineg | i_iinc
  | i_ifeq | i_ifne | i_iflt | i_ifge | i_ifgt | i_ifle
  | i_if_icmpeq | i_if_icmpne | i_if_icmplt | i_if_icmpge | i_if_icmpgt | i_if_icmple
  | i_goto | i_ireturn | i_return | i_getstatic | i_invokevirtual | i_invokestatic

primrec opcode :: "jvm_instruction_t \<Rightarrow> u1" where
  "opcode i_iconst_m1 = 0x2"
| "opcode i_iconst_0 = 0x3"
| "opcode i_iconst_1 = 0x4"
| "opcode i_iconst_2 = 0x5"
| "opcode i_iconst_3 = 0x6"
| "opcode i_iconst_4 = 0x7"
| "opcode i_iconst_5 = 0x8"
| "opcode i_bipush = 0x10"
| "opcode i_sipush = 0x11"
| "opcode i_ldc = 0x12"
| "opcode i_iload = 0x15"
| "opcode i_iload_0 = 0x1a"
| "opcode i_iload_1 = 0x1b"
| "opcode i_iload_2 = 0x1c"
| "opcode i_iload_3 = 0x1d"
| "opcode i_istore = 0x36"
| "opcode i_istore_0 = 0x3b"
| "opcode i_istore_1 = 0x3c"
| "opcode i_istore_2 = 0x3d"
| "opcode i_istore_3 = 0x3e"
| "opcode i_iadd = 0x60"
| "opcode i_isub = 0x64"
| "opcode i_imul = 0x68"
| "opcode i_idiv = 0x6c"
| "opcode i_irem = 0x70"
| "opcode i_ineg = 0x74"
| "opcode i_iinc = 0x84"
| "opcode i_ifeq = 0x99"
| "opcode i_ifne = 0x9a"
| "opcode i_iflt = 0x9b"
| "opcode i_ifge = 0x9c"
| "opcode i_ifgt = 0x9d"
| "opcode i_ifle = 0x9e"
| "opcode i_if_icmpeq = 0x9f"
| "opcode i_if_icmpne = 0xa0"
| "opcode i_if_icmplt = 0xa1"
| "opcode i_if_icmpge = 0xa2"
| "opcode i_if_icmpgt = 0xa3"
| "opcode i_if_icmple = 0xa4"
| "opcode i_goto = 0xa7"
| "opcode i_ireturn = 0xac"
| "opcode i_return = 0xb1"
| "opcode i_getstatic = 0xb2"
| "opcode i_invokevirtual = 0xb6"
| "opcode i_invokestatic = 0xb8"

definition cases :: "u1 \<Rightarrow> jvm_instruction_t list \<Rightarrow> bool" where
  "cases op is \<longleftrightarrow> op \<in> opcode ` set is"

section \<open>Arithmetic and comparisons\<close>

type_synonym i32 = "32 word"

text \<open>
  Two's complement arithmetic; the division instruction of the machine traps on a zero divisor and
  on the one quotient that does not fit.
\<close>

definition add :: "i32 \<Rightarrow> i32 \<Rightarrow> (jerr, i32) res" where
  "add a b = Inr (a + b)"

definition subtract :: "i32 \<Rightarrow> i32 \<Rightarrow> (jerr, i32) res" where
  "subtract a b = Inr (a - b)"

definition multiply :: "i32 \<Rightarrow> i32 \<Rightarrow> (jerr, i32) res" where
  "multiply a b = Inr (a * b)"

definition traps_on :: "i32 \<Rightarrow> i32 \<Rightarrow> bool" where
  "traps_on a b \<longleftrightarrow> b = 0 \<or> (sint a = - (2 ^ 31) \<and> sint b = - 1)"

definition divide :: "i32 \<Rightarrow> i32 \<Rightarrow> (jerr, i32) res" where
  "divide a b = (if traps_on a b then Inl Divide_error else Inr (word_of_int (sint a sdiv sint b)))"

definition remain :: "i32 \<Rightarrow> i32 \<Rightarrow> (jerr, i32) res" where
  "remain a b = (if traps_on a b then Inl Divide_error else Inr (word_of_int (sint a smod sint b)))"

definition arithmetic :: "(i32 \<Rightarrow> i32 \<Rightarrow> (jerr, i32) res) list" where
  "arithmetic = [add, subtract, multiply, divide, remain]"

definition eq :: "i32 \<Rightarrow> i32 \<Rightarrow> bool" where
  "eq a b \<longleftrightarrow> a = b"

definition ne :: "i32 \<Rightarrow> i32 \<Rightarrow> bool" where
  "ne a b \<longleftrightarrow> a \<noteq> b"

definition lt :: "i32 \<Rightarrow> i32 \<Rightarrow> bool" where
  "lt a b \<longleftrightarrow> sint a < sint b"

definition ge :: "i32 \<Rightarrow> i32 \<Rightarrow> bool" where
  "ge a b \<longleftrightarrow> sint a \<ge> sint b"

definition gt :: "i32 \<Rightarrow> i32 \<Rightarrow> bool" where
  "gt a b \<longleftrightarrow> sint a > sint b"

definition le :: "i32 \<Rightarrow> i32 \<Rightarrow> bool" where
  "le a b \<longleftrightarrow> sint a \<le> sint b"

definition compare :: "(i32 \<Rightarrow> i32 \<Rightarrow> bool) list" where
  "compare = [eq, ne, lt, ge, gt, le]"

definition const_offset :: u1 where "const_offset = 0x3"

definition load_offset :: u1 where "load_offset = 0x1a"

definition store_offset :: u1 where "store_offset = 0x3b"

definition arithmetic_offset :: u1 where "arithmetic_offset = 0x60"

definition jump_zero_offset :: u1 where "jump_zero_offset = 0x99"

definition jump_offset :: u1 where "jump_offset = 0x9f"

section \<open>Frames\<close>

record frame =
  f_pc :: int
  f_stack :: "i32 list"
  f_locals :: "i32 option list"

definition code_byte :: "method_t \<Rightarrow> int \<Rightarrow> (jerr, u1) res" where
  "code_byte m pc = (if 0 \<le> pc \<and> pc < int (length (code (mcode m)))
     then Inr (code (mcode m) ! nat pc) else Inl Code_bounds)"

definition push :: "method_t \<Rightarrow> i32 \<Rightarrow> i32 list \<Rightarrow> (jerr, i32 list) res" where
  "push m v st = (if length st < unat (max_stack (mcode m)) then Inr (v # st) else Inl Stack_overflow)"

definition pop :: "i32 list \<Rightarrow> (jerr, i32 \<times> i32 list) res" where
  "pop st = (case st of [] \<Rightarrow> Inl Stack_underflow | v # st' \<Rightarrow> Inr (v, st'))"

definition get_local :: "nat \<Rightarrow> i32 option list \<Rightarrow> (jerr, i32) res" where
  "get_local i ls = (if i < length ls then (case ls ! i of None \<Rightarrow> Inl Uninitialised | Some v \<Rightarrow> Inr v)
     else Inl Locals_bounds)"

definition set_local :: "nat \<Rightarrow> i32 \<Rightarrow> i32 option list \<Rightarrow> (jerr, i32 option list) res" where
  "set_local i v ls = (if i < length ls then Inr (ls[i := Some v]) else Inl Locals_bounds)"

definition join16 :: "u1 \<Rightarrow> u1 \<Rightarrow> u2" where
  "join16 hi lo = push_bit 8 (ucast hi) OR ucast lo"

definition conditional_jump :: "bool \<Rightarrow> method_t \<Rightarrow> int \<Rightarrow> (jerr, int) res" where
  "conditional_jump condition m pc =
     (if condition then
        bindE (code_byte m (pc + 1)) (\<lambda>hi. bindE (code_byte m (pc + 2)) (\<lambda>lo.
        Inr (pc + (sint (join16 hi lo) - 1))))
      else Inr (pc + 2))"

section \<open>One instruction\<close>

datatype instr_result = Next frame "int list" | Return i32

text \<open>
  The body of the switch for every opcode but \<open>i_return\<close> and \<open>i_invokestatic\<close>.  As in
  the source, the increment of the program counter that all instructions share comes afterwards.
\<close>

definition exec_switch ::
  "class_file_t \<Rightarrow> method_t \<Rightarrow> u1 \<Rightarrow> frame \<Rightarrow> int list \<Rightarrow> (jerr, instr_result) res" where
  "exec_switch cls m op fr out =
     (let pc = f_pc fr; st = f_stack fr; ls = f_locals fr in
      if cases op [i_iconst_m1, i_iconst_0, i_iconst_1, i_iconst_2, i_iconst_3, i_iconst_4, i_iconst_5] then
        bindE (push m (ucast op - ucast const_offset) st) (\<lambda>st'. Inr (Next (fr\<lparr>f_stack := st'\<rparr>) out))
      else if op = opcode i_bipush then
        bindE (code_byte m (pc + 1)) (\<lambda>b. bindE (push m (scast b) st) (\<lambda>st'.
        Inr (Next (fr\<lparr>f_pc := pc + 1, f_stack := st'\<rparr>) out)))
      else if op = opcode i_sipush then
        bindE (code_byte m (pc + 1)) (\<lambda>hi. bindE (code_byte m (pc + 2)) (\<lambda>lo.
        bindE (push m (scast (push_bit 8 (ucast hi) :: u2) OR ucast lo) st) (\<lambda>st'.
        Inr (Next (fr\<lparr>f_pc := pc + 2, f_stack := st'\<rparr>) out))))
      else if op = opcode i_ldc then
        bindE (code_byte m (pc + 1)) (\<lambda>i. bindE (get_constant (constant_pool cls) (ucast i)) (\<lambda>c.
        (case c of
           CONSTANT_Integer v \<Rightarrow> bindE (push m v st) (\<lambda>st'.
             Inr (Next (fr\<lparr>f_pc := pc + 1, f_stack := st'\<rparr>) out))
         | _ \<Rightarrow> Inl Not_an_Integer)))
      else if op = opcode i_iload then
        bindE (code_byte m (pc + 1)) (\<lambda>i. bindE (get_local (unat i) ls) (\<lambda>v. bindE (push m v st) (\<lambda>st'.
        Inr (Next (fr\<lparr>f_pc := pc + 1, f_stack := st'\<rparr>) out))))
      else if cases op [i_iload_0, i_iload_1, i_iload_2, i_iload_3] then
        bindE (get_local (unat (op - load_offset)) ls) (\<lambda>v. bindE (push m v st) (\<lambda>st'.
        Inr (Next (fr\<lparr>f_stack := st'\<rparr>) out)))
      else if op = opcode i_istore then
        bindE (code_byte m (pc + 1)) (\<lambda>i. bindE (pop st) (\<lambda>(v, st'). bindE (set_local (unat i) v ls) (\<lambda>ls'.
        Inr (Next (fr\<lparr>f_pc := pc + 1, f_stack := st', f_locals := ls'\<rparr>) out))))
      else if cases op [i_istore_0, i_istore_1, i_istore_2, i_istore_3] then
        bindE (pop st) (\<lambda>(v, st'). bindE (set_local (unat (op - store_offset)) v ls) (\<lambda>ls'.
        Inr (Next (fr\<lparr>f_stack := st', f_locals := ls'\<rparr>) out)))
      else if cases op [i_iadd, i_isub, i_imul, i_idiv, i_irem] then
        bindE (pop st) (\<lambda>(b, st1). bindE (pop st1) (\<lambda>(a, st2).
        bindE ((arithmetic ! (unat (op - arithmetic_offset) div 4)) a b) (\<lambda>v.
        Inr (Next (fr\<lparr>f_stack := v # st2\<rparr>) out))))
      else if op = opcode i_ineg then
        bindE (pop st) (\<lambda>(a, st'). Inr (Next (fr\<lparr>f_stack := a * (- 1) # st'\<rparr>) out))
      else if op = opcode i_iinc then
        bindE (code_byte m (pc + 1)) (\<lambda>i. bindE (code_byte m (pc + 2)) (\<lambda>d.
        bindE (get_local (unat i) ls) (\<lambda>v. bindE (set_local (unat i) (v + scast d) ls) (\<lambda>ls'.
        Inr (Next (fr\<lparr>f_pc := pc + 2, f_locals := ls'\<rparr>) out)))))
      else if cases op [i_ifeq, i_ifne, i_iflt, i_ifge, i_ifgt, i_ifle] then
        bindE (pop st) (\<lambda>(a, st').
        bindE (conditional_jump ((compare ! unat (op - jump_zero_offset)) a 0) m pc) (\<lambda>pc'.
        Inr (Next (fr\<lparr>f_pc := pc', f_stack := st'\<rparr>) out)))
      else if cases op [i_if_icmpeq, i_if_icmpne, i_if_icmplt, i_if_icmpge, i_if_icmpgt, i_if_icmple] then
        bindE (pop st) (\<lambda>(b, st1). bindE (pop st1) (\<lambda>(a, st2).
        bindE (conditional_jump ((compare ! unat (op - jump_offset)) a b) m pc) (\<lambda>pc'.
        Inr (Next (fr\<lparr>f_pc := pc', f_stack := st2\<rparr>) out))))
      else if op = opcode i_goto then
        bindE (conditional_jump True m pc) (\<lambda>pc'. Inr (Next (fr\<lparr>f_pc := pc'\<rparr>) out))
      else if op = opcode i_ireturn then
        bindE (pop st) (\<lambda>(v, st'). Inr (Return v))
      else if op = opcode i_getstatic then
        Inr (Next (fr\<lparr>f_pc := pc + 2\<rparr>) out)
      else if op = opcode i_invokevirtual then
        bindE (pop st) (\<lambda>(v, st'). Inr (Next (fr\<lparr>f_pc := pc + 2, f_stack := st'\<rparr>) (out @ [sint v])))
      else Inr (Next fr out))"

section \<open>Methods\<close>

text \<open>The loop that moves the arguments from the caller's stack to the callee's local variables.\<close>

fun take_args :: "nat \<Rightarrow> i32 option list \<Rightarrow> i32 list \<Rightarrow> (jerr, i32 option list \<times> i32 list) res" where
  "take_args 0 ls st = Inr (ls, st)"
| "take_args (Suc k) ls st = bindE (pop st) (\<lambda>(v, st').
     bindE (set_local k v ls) (\<lambda>ls'. take_args k ls' st'))"

definition entry :: "i32 option list \<Rightarrow> frame" where
  "entry ls = \<lparr>f_pc = 0, f_stack = [], f_locals = ls\<rparr>"

definition fresh_locals :: "method_t \<Rightarrow> i32 option list" where
  "fresh_locals m = replicate (unat (max_locals (mcode m))) None"

text \<open>
  \<open>execute\<close> returns the value of the method, if any, and what has been printed.
\<close>

fun execute ::
  "nat \<Rightarrow> class_file_t \<Rightarrow> method_t \<Rightarrow> frame \<Rightarrow> int list \<Rightarrow> (jerr, i32 option \<times> int list) res" where
  "execute 0 cls m fr out = Inl Jvm_fuel"
| "execute (Suc n) cls m fr out =
     bindE (code_byte m (f_pc fr)) (\<lambda>op.
     if op = opcode i_return then Inr (None, out)
     else if op = opcode i_invokestatic then
       bindE (code_byte m (f_pc fr + 1)) (\<lambda>hi. bindE (code_byte m (f_pc fr + 2)) (\<lambda>lo.
       bindE (find_method_from_index (join16 hi lo) cls) (\<lambda>next_method.
       (case next_method of
          None \<Rightarrow> Inl Null_method
        | Some m' \<Rightarrow>
            bindE (take_args (unat (get_number_of_parameters m')) (fresh_locals m') (f_stack fr)) (\<lambda>(ls, st).
            bindE (execute n cls m' (entry ls) out) (\<lambda>(returned_value, out').
            bindE (case returned_value of None \<Rightarrow> Inr st | Some v \<Rightarrow> push m v st) (\<lambda>st'.
            execute n cls m (fr\<lparr>f_pc := f_pc fr + 3, f_stack := st'\<rparr>) out')))))))
     else
       bindE (exec_switch cls m op fr out) (\<lambda>r.
       (case r of
          Return v \<Rightarrow> Inr (Some v, out)
        | Next fr' out' \<Rightarrow> execute n cls m (fr'\<lparr>f_pc := f_pc fr' + 1\<rparr>) out')))"

definition MAIN_METHOD :: bytes where
  "MAIN_METHOD = ascii ''main''"

definition MAIN_DESCRIPTOR :: bytes where
  "MAIN_DESCRIPTOR = ascii ''([Ljava/lang/String;)V''"

definition run_main :: "nat \<Rightarrow> class_file_t \<Rightarrow> (jerr, int list) res" where
  "run_main n cls =
     (case find_method MAIN_METHOD MAIN_DESCRIPTOR cls of
        None \<Rightarrow> Inl Missing_main
      | Some m \<Rightarrow> bindE (execute n cls m (entry (fresh_locals m)) []) (\<lambda>(result, out).
          case result of None \<Rightarrow> Inr out | Some _ \<Rightarrow> Inl Main_returned))"

definition jvm_main :: "nat \<Rightarrow> bytes \<Rightarrow> (jerr, int list) res" where
  "jvm_main n file = bindE (get_class (open_class file)) (\<lambda>(cls, _). run_main n cls)"

end
