(* ===== verification/Jvm_Safe.thy ===== *)
theory Jvm_Safe
  imports Jvm
begin

text \<open>
  Safety of the interpreter of TeenyJVM: code that passes a bytecode check, which follows the height
  of the operand stack through every method, is executed without leaving the operand stack, the
  local variables or the code, without confusing constants and without missing methods; a method
  returns a value exactly when its descriptor says so.  The tables indexed by opcode offsets select
  the intended functions, and jumps go to the signed 16-bit offset.
\<close>

section \<open>The bytecode check\<close>

definition operand :: "method_t \<Rightarrow> int \<Rightarrow> u1 option" where
  "operand m pc = (case code_byte m pc of Inl _ \<Rightarrow> None | Inr b \<Rightarrow> Some b)"

definition operand16 :: "method_t \<Rightarrow> int \<Rightarrow> u2 option" where
  "operand16 m pc = (case (operand m pc, operand m (pc + 1)) of
     (Some hi, Some lo) \<Rightarrow> Some (join16 hi lo) | _ \<Rightarrow> None)"

definition returns_int :: "method_t \<Rightarrow> bool" where
  "returns_int m \<longleftrightarrow> (let d = cstr (descriptor m) in d \<noteq> [] \<and> last d = of_nat (of_char CHR ''I''))"

definition local_ok :: "method_t \<Rightarrow> u1 option \<Rightarrow> bool" where
  "local_ok m i = (case i of None \<Rightarrow> False | Some j \<Rightarrow> unat j < unat (max_locals (mcode m)))"

definition integer_constant :: "class_file_t \<Rightarrow> u1 option \<Rightarrow> bool" where
  "integer_constant cls i = (case i of None \<Rightarrow> False | Some j \<Rightarrow>
     (case get_constant (constant_pool cls) (ucast j) of Inr (CONSTANT_Integer v) \<Rightarrow> True | _ \<Rightarrow> False))"

text \<open>
  What an instruction takes from the stack, what it pushes, and where execution goes on; \<open>None\<close>
  rejects the instruction.
\<close>

definition guarded :: "bool \<Rightarrow> 'a \<Rightarrow> 'a option" where
  "guarded b x = (if b then Some x else None)"

definition effect :: "class_file_t \<Rightarrow> method_t \<Rightarrow> u1 \<Rightarrow> int \<Rightarrow> (nat \<times> nat \<times> int list) option" where
  "effect cls m op pc =
     (if op = opcode i_return then guarded (\<not> returns_int m) (0, 0, [])
      else if op = opcode i_invokestatic then
        (case operand16 m (pc + 1) of
           None \<Rightarrow> None
         | Some i \<Rightarrow>
             (case find_method_from_index i cls of
                Inr (Some m') \<Rightarrow>
                  guarded (unat (get_number_of_parameters m') \<le> unat (max_locals (mcode m')))
                    (unat (get_number_of_parameters m'), if returns_int m' then 1 else 0, [pc + 3])
              | _ \<Rightarrow> None))
      else if cases op [i_iconst_m1, i_iconst_0, i_iconst_1, i_iconst_2, i_iconst_3, i_iconst_4, i_iconst_5] then
        Some (0, 1, [pc + 1])
      else if op = opcode i_bipush then guarded (operand m (pc + 1) \<noteq> None) (0, 1, [pc + 2])
      else if op = opcode i_sipush then guarded (operand16 m (pc + 1) \<noteq> None) (0, 1, [pc + 3])
      else if op = opcode i_ldc then guarded (integer_constant cls (operand m (pc + 1))) (0, 1, [pc + 2])
      else if op = opcode i_iload then guarded (local_ok m (operand m (pc + 1))) (0, 1, [pc + 2])
      else if cases op [i_iload_0, i_iload_1, i_iload_2, i_iload_3] then
        guarded (local_ok m (Some (op - load_offset))) (0, 1, [pc + 1])
      else if op = opcode i_istore then guarded (local_ok m (operand m (pc + 1))) (1, 0, [pc + 2])
      else if cases op [i_istore_0, i_istore_1, i_istore_2, i_istore_3] then
        guarded (local_ok m (Some (op - store_offset))) (1, 0, [pc + 1])
      else if cases op [i_iadd, i_isub, i_imul, i_idiv, i_irem] then Some (2, 1, [pc + 1])
      else if op = opcode i_ineg then Some (1, 1, [pc + 1])
      else if op = opcode i_iinc then
        guarded (local_ok m (operand m (pc + 1)) \<and> operand m (pc + 2) \<noteq> None) (0, 0, [pc + 3])
      else if cases op [i_ifeq, i_ifne, i_iflt, i_ifge, i_ifgt, i_ifle] then
        (case operand16 m (pc + 1) of None \<Rightarrow> None | Some d \<Rightarrow> Some (1, 0, [pc + 3, pc + sint d]))
      else if cases op [i_if_icmpeq, i_if_icmpne, i_if_icmplt, i_if_icmpge, i_if_icmpgt, i_if_icmple] then
        (case operand16 m (pc + 1) of None \<Rightarrow> None | Some d \<Rightarrow> Some (2, 0, [pc + 3, pc + sint d]))
      else if op = opcode i_goto then
        (case operand16 m (pc + 1) of None \<Rightarrow> None | Some d \<Rightarrow> Some (0, 0, [pc + sint d]))
      else if op = opcode i_ireturn then guarded (returns_int m) (1, 0, [])
      else if op = opcode i_getstatic then Some (0, 0, [pc + 3])
      else if op = opcode i_invokevirtual then Some (1, 0, [pc + 3])
      else Some (0, 0, [pc + 1]))"

definition check_at :: "class_file_t \<Rightarrow> method_t \<Rightarrow> nat option list \<Rightarrow> nat \<Rightarrow> bool" where
  "check_at cls m hts pc =
     (case hts ! pc of
        None \<Rightarrow> True
      | Some h \<Rightarrow>
          (case effect cls m (code (mcode m) ! pc) (int pc) of
             None \<Rightarrow> False
           | Some (p, q, succs) \<Rightarrow>
               p \<le> h \<and> h - p + q \<le> unat (max_stack (mcode m)) \<and>
               list_all (\<lambda>t. 0 \<le> t \<and> t < int (length hts) \<and> hts ! nat t = Some (h - p + q)) succs))"

definition verify_method :: "class_file_t \<Rightarrow> method_t \<Rightarrow> nat option list \<Rightarrow> bool" where
  "verify_method cls m hts \<longleftrightarrow>
     length hts = length (code (mcode m)) \<and> hts \<noteq> [] \<and> hd hts = Some 0 \<and>
     list_all (check_at cls m hts) [0..<length hts]"

definition verify_class :: "class_file_t \<Rightarrow> nat option list list \<Rightarrow> bool" where
  "verify_class cls H \<longleftrightarrow> list_all2 (verify_method cls) (methods cls) H"

text \<open>What checked code can still stop with.\<close>

definition harmless :: "jerr \<Rightarrow> bool" where
  "harmless e \<longleftrightarrow> e = Jvm_fuel \<or> e = Divide_error \<or> e = Uninitialised"

section \<open>One instruction\<close>

lemma arithmetic_error:
  assumes "cases op [i_iadd, i_isub, i_imul, i_idiv, i_irem]"
    "(arithmetic ! (unat (op - arithmetic_offset) div 4)) a b = Inl e"
  shows "e = Divide_error"
  using assms
  by (auto simp: cases_def arithmetic_def arithmetic_offset_def add_def subtract_def multiply_def
      divide_def remain_def split: if_splits)

definition sound :: "method_t \<Rightarrow> int list \<Rightarrow> nat \<Rightarrow> (jerr, instr_result) res \<Rightarrow> bool" where
  "sound m succs h r \<longleftrightarrow>
     (case r of
        Inl e \<Rightarrow> harmless e
      | Inr (Return v) \<Rightarrow> returns_int m
      | Inr (Next fr out) \<Rightarrow> f_pc fr + 1 \<in> set succs \<and> length (f_stack fr) = h \<and>
          length (f_locals fr) = unat (max_locals (mcode m)))"

lemma operand_Some: "operand m pc = Some b \<longleftrightarrow> code_byte m pc = Inr b"
  by (auto simp: operand_def split: sum.splits)

lemma operand16_Some:
  "operand16 m pc = Some w \<longleftrightarrow> (\<exists>hi lo. code_byte m pc = Inr hi \<and> code_byte m (pc + 1) = Inr lo \<and> w = join16 hi lo)"
  by (cases "code_byte m pc"; cases "code_byte m (pc + 1)") (auto simp: operand16_def operand_def)

lemma operand16_next:
  "operand16 m (pc + 1) = Some w \<longleftrightarrow>
     (\<exists>hi lo. code_byte m (pc + 1) = Inr hi \<and> code_byte m (pc + 2) = Inr lo \<and> w = join16 hi lo)"
  unfolding operand16_Some add.assoc one_add_one ..

lemma local_ok_Some: "local_ok m i \<longleftrightarrow> (\<exists>j. i = Some j \<and> unat j < unat (max_locals (mcode m)))"
  by (auto simp: local_ok_def split: option.splits)

lemma integer_constant_Some:
  "integer_constant cls i \<longleftrightarrow>
     (\<exists>j v. i = Some j \<and> get_constant (constant_pool cls) (ucast j) = Inr (CONSTANT_Integer v))"
  by (auto simp: integer_constant_def split: option.splits sum.splits cp_info.splits)

lemmas operand_simps = operand_Some local_ok_Some integer_constant_Some


lemma sound_push:
  "h < unat (max_stack (mcode m)) \<Longrightarrow> length st = h \<Longrightarrow>
   (\<And>st'. length st' = Suc h \<Longrightarrow> sound m succs k (f st')) \<Longrightarrow> sound m succs k (bindE (push m v st) f)"
  by (simp add: push_def)

lemma sound_pop:
  "0 < length st \<Longrightarrow> (\<And>v st'. Suc (length st') = length st \<Longrightarrow> sound m succs k (f (v, st'))) \<Longrightarrow>
   sound m succs k (bindE (pop st) f)"
  by (cases st) (simp_all add: pop_def)

lemma sound_get:
  "i < length ls \<Longrightarrow> (\<And>v. sound m succs k (f v)) \<Longrightarrow> sound m succs k (bindE (get_local i ls) f)"
  by (simp add: get_local_def sound_def harmless_def split: option.splits)

lemma sound_set:
  "i < length ls \<Longrightarrow> (\<And>ls'. length ls' = length ls \<Longrightarrow> sound m succs k (f ls')) \<Longrightarrow>
   sound m succs k (bindE (set_local i v ls) f)"
  by (simp add: set_local_def)

lemma sound_jump:
  "operand16 m (pc + 1) = Some d \<Longrightarrow> (c \<Longrightarrow> sound m succs k (f (pc + sint d - 1))) \<Longrightarrow>
   (\<not> c \<Longrightarrow> sound m succs k (f (pc + 2))) \<Longrightarrow> sound m succs k (bindE (conditional_jump c m pc) f)"
  by (auto simp: conditional_jump_def operand16_Some algebra_simps)

lemma sound_arith:
  "cases op [i_iadd, i_isub, i_imul, i_idiv, i_irem] \<Longrightarrow> (\<And>v. sound m succs k (f v)) \<Longrightarrow>
   sound m succs k (bindE ((arithmetic ! (unat (op - arithmetic_offset) div 4)) a b) f)"
  by (cases "(arithmetic ! (unat (op - arithmetic_offset) div 4)) a b")
    (auto simp: sound_def harmless_def dest: arithmetic_error)

lemma sound_Next:
  "f_pc fr + 1 \<in> set succs \<Longrightarrow> length (f_stack fr) = h \<Longrightarrow>
   length (f_locals fr) = unat (max_locals (mcode m)) \<Longrightarrow> sound m succs h (Inr (Next fr out))"
  by (simp add: sound_def)

lemma sound_Return: "returns_int m \<Longrightarrow> sound m succs h (Inr (Return v))"
  by (simp add: sound_def)

lemmas sound_intros = sound_push sound_pop sound_get sound_set sound_jump sound_arith sound_Next
  sound_Return

lemma sound_if:
  "(b \<Longrightarrow> sound m succs h x) \<Longrightarrow> (\<not> b \<Longrightarrow> sound m succs h y) \<Longrightarrow> sound m succs h (if b then x else y)"
  by simp

lemma exec_switch_sound:
  assumes "effect cls m op (f_pc fr) = Some (p, q, succs)" "p \<le> length (f_stack fr)"
    "length (f_stack fr) - p + q \<le> unat (max_stack (mcode m))"
    "length (f_locals fr) = unat (max_locals (mcode m))"
    "op \<noteq> opcode i_return" "op \<noteq> opcode i_invokestatic"
  shows "sound m succs (length (f_stack fr) - p + q) (exec_switch cls m op fr out)"
proof -
  note eff = assms(1) [unfolded effect_def if_not_P [OF assms(5)] if_not_P [OF assms(6)] guarded_def]
  show ?thesis
    unfolding exec_switch_def Let_def
    by (intro sound_if; insert eff assms(2-4);
        auto simp: operand_simps operand16_next split: if_splits option.splits intro!: sound_intros)
qed

section \<open>Methods\<close>

lemma take_args_sound:
  "k \<le> length st \<Longrightarrow> k \<le> length ls \<Longrightarrow>
   \<exists>ls'. take_args k ls st = Inr (ls', drop k st) \<and> length ls' = length ls"
proof (induction k arbitrary: ls st)
  case (Suc k)
  then obtain v st' where "st = v # st'" by (cases st) auto
  with Suc.prems Suc.IH [of st' "ls[k := Some v]"] show ?case
    by (simp add: pop_def set_local_def)
qed simp

lemma find_method_from_index_in:
  "find_method_from_index i cls = Inr (Some m) \<Longrightarrow> m \<in> set (methods cls)"
  by (auto simp: find_method_from_index_def find_method_def bindE_eq_Inr find_Some_iff)

lemma verify_class_method:
  "verify_class cls H \<Longrightarrow> m \<in> set (methods cls) \<Longrightarrow> \<exists>hts. verify_method cls m hts"
  by (auto simp: verify_class_def list_all2_conv_all_nth in_set_conv_nth)

definition at_height :: "method_t \<Rightarrow> nat option list \<Rightarrow> frame \<Rightarrow> bool" where
  "at_height m hts fr \<longleftrightarrow> 0 \<le> f_pc fr \<and> f_pc fr < int (length hts) \<and>
     hts ! nat (f_pc fr) = Some (length (f_stack fr)) \<and>
     length (f_locals fr) = unat (max_locals (mcode m))"

lemma at_height_check:
  assumes "verify_method cls m hts" "at_height m hts fr"
  obtains op p q succs where "code_byte m (f_pc fr) = Inr op"
    "effect cls m op (f_pc fr) = Some (p, q, succs)" "p \<le> length (f_stack fr)"
    "length (f_stack fr) - p + q \<le> unat (max_stack (mcode m))"
    "\<forall>t \<in> set succs. 0 \<le> t \<and> t < int (length hts) \<and> hts ! nat t = Some (length (f_stack fr) - p + q)"
proof -
  let ?pc = "nat (f_pc fr)"
  have pc: "?pc < length hts" "int ?pc = f_pc fr" using assms(2) by (auto simp: at_height_def)
  then have "check_at cls m hts ?pc"
    using assms(1) by (simp add: verify_method_def list_all_iff)
  then obtain p q succs where "effect cls m (code (mcode m) ! ?pc) (f_pc fr) = Some (p, q, succs)"
    "p \<le> length (f_stack fr)" "length (f_stack fr) - p + q \<le> unat (max_stack (mcode m))"
    "list_all (\<lambda>t. 0 \<le> t \<and> t < int (length hts) \<and> hts ! nat t = Some (length (f_stack fr) - p + q)) succs"
    using assms(2) pc by (auto simp: check_at_def at_height_def split: option.splits)
  moreover have "code_byte m (f_pc fr) = Inr (code (mcode m) ! ?pc)"
    using assms pc(1) unfolding code_byte_def verify_method_def at_height_def by simp
  ultimately show thesis by (intro that [of _ p q succs]) (simp_all add: list_all_iff)
qed

definition safe :: "method_t \<Rightarrow> (jerr, i32 option \<times> int list) res \<Rightarrow> bool" where
  "safe m r \<longleftrightarrow> (case r of Inl e \<Rightarrow> harmless e | Inr (v, out) \<Rightarrow> v \<noteq> None \<longleftrightarrow> returns_int m)"

text \<open>A call: the arguments fit the parameters, the callee is verified, and what it returns is what its descriptor says.\<close>

lemma invoke_safe:
  assumes "verify_class cls H" "code_byte m (f_pc fr) = Inr (opcode i_invokestatic)"
    "effect cls m (opcode i_invokestatic) (f_pc fr) = Some (p, q, succs)" "p \<le> length (f_stack fr)"
    "length (f_stack fr) - p + q \<le> unat (max_stack (mcode m))" "length (f_locals fr) = unat (max_locals (mcode m))"
    and callee: "\<And>m' hts' fr'. verify_method cls m' hts' \<Longrightarrow> at_height m' hts' fr' \<Longrightarrow> safe m' (execute n cls m' fr' out)"
    and go: "\<And>fr' out'. f_pc fr' \<in> set succs \<Longrightarrow> length (f_stack fr') = length (f_stack fr) - p + q \<Longrightarrow>
      length (f_locals fr') = unat (max_locals (mcode m)) \<Longrightarrow> safe m (execute n cls m fr' out')"
  shows "safe m (execute (Suc n) cls m fr out)"
proof -
  have ne: "opcode i_invokestatic \<noteq> opcode i_return" by simp
  obtain hi lo m' where c: "code_byte m (f_pc fr + 1) = Inr hi" "code_byte m (f_pc fr + 2) = Inr lo"
    "find_method_from_index (join16 hi lo) cls = Inr (Some m')"
    "unat (get_number_of_parameters m') \<le> unat (max_locals (mcode m'))"
    "p = unat (get_number_of_parameters m')" "q = (if returns_int m' then 1 else 0)" "succs = [f_pc fr + 3]"
    using assms(3) by (auto simp: effect_def guarded_def operand16_next split: option.splits sum.splits if_splits)
  let ?st = "drop p (f_stack fr)"
  obtain lc where lc: "take_args p (fresh_locals m') (f_stack fr) = Inr (lc, ?st)" "length lc = unat (max_locals (mcode m'))"
    using take_args_sound [of p "f_stack fr" "fresh_locals m'"] assms(4) c(4,5) by (auto simp: fresh_locals_def)
  obtain hts' where v': "verify_method cls m' hts'"
    using verify_class_method [OF assms(1) find_method_from_index_in [OF c(3)]] by blast
  have "at_height m' hts' (entry lc)"
    using v' lc(2) by (cases hts') (auto simp: at_height_def entry_def verify_method_def)
  then have callee': "safe m' (execute n cls m' (entry lc) out)" by (rule callee [OF v'])
  show ?thesis
  proof (cases "execute n cls m' (entry lc) out")
    case (Inl e)
    with callee' ne assms(2) c lc(1) show ?thesis by (simp add: safe_def)
  next
    case (Inr r)
    obtain rv out' where r: "r = (rv, out')" by (cases r)
    have ret: "rv \<noteq> None \<longleftrightarrow> returns_int m'" using callee' Inr r by (simp add: safe_def)
    obtain st' where st': "(case rv of None \<Rightarrow> Inr ?st | Some v \<Rightarrow> push m v ?st) = Inr st'" "length st' = length (f_stack fr) - p + q"
      using ret assms(4,5) c(6) by (cases rv) (auto simp: push_def)
    have "safe m (execute n cls m (fr\<lparr>f_pc := f_pc fr + 3, f_stack := st'\<rparr>) out')"
      using st'(2) c(7) assms(6) by (intro go) simp_all
    with ne assms(2) c(1-3) lc(1) [unfolded c(5)] Inr r st'(1) [unfolded c(5)] show ?thesis by simp
  qed
qed

lemma execute_safe:
  assumes "verify_class cls H"
  shows "verify_method cls m hts \<Longrightarrow> at_height m hts fr \<Longrightarrow> safe m (execute n cls m fr out)"
proof (induction n arbitrary: m hts fr out)
  case 0
  then show ?case by (simp add: safe_def harmless_def)
next
  case (Suc n)
  from Suc.prems obtain op p q succs where op: "code_byte m (f_pc fr) = Inr op"
    "effect cls m op (f_pc fr) = Some (p, q, succs)" "p \<le> length (f_stack fr)"
    "length (f_stack fr) - p + q \<le> unat (max_stack (mcode m))"
    "\<forall>t \<in> set succs. 0 \<le> t \<and> t < int (length hts) \<and> hts ! nat t = Some (length (f_stack fr) - p + q)"
    by (rule at_height_check)
  have ls: "length (f_locals fr) = unat (max_locals (mcode m))"
    using Suc.prems(2) by (simp add: at_height_def)
  have go: "safe m (execute n cls m fr' out')" if "f_pc fr' \<in> set succs"
    "length (f_stack fr') = length (f_stack fr) - p + q" "length (f_locals fr') = unat (max_locals (mcode m))"
    for fr' out'
    using op(5) that by (intro Suc.IH [OF Suc.prems(1)]) (simp add: at_height_def)
  consider "op = opcode i_return" | "op = opcode i_invokestatic"
    | "op \<noteq> opcode i_return" "op \<noteq> opcode i_invokestatic" by blast
  then show ?case
  proof cases
    case 1
    with op(1,2) show ?thesis by (auto simp: safe_def effect_def guarded_def split: if_splits)
  next
    case 2
    show ?thesis
      by (rule invoke_safe [OF assms op(1-2) [unfolded 2] op(3,4) ls]) (rule Suc.IH, assumption+, rule go)
  next
    case 3
    have so: "sound m succs (length (f_stack fr) - p + q) (exec_switch cls m op fr out)"
      by (rule exec_switch_sound [OF op(2-4) ls 3])
    show ?thesis
    proof (cases "exec_switch cls m op fr out")
      case (Inl e)
      with so 3 op(1) show ?thesis by (simp add: sound_def safe_def)
    next
      case (Inr r)
      show ?thesis
      proof (cases r)
        case (Next fr' out')
        with so Inr have "safe m (execute n cls m (fr'\<lparr>f_pc := f_pc fr' + 1\<rparr>) out')"
          by (intro go) (simp_all add: sound_def)
        with 3 op(1) Inr Next show ?thesis by simp
      next
        case (Return v)
        with so Inr 3 op(1) show ?thesis by (simp add: sound_def safe_def)
      qed
    qed
  qed
qed

lemma streq_returns: "streq d (descriptor m) \<Longrightarrow>
  returns_int m \<longleftrightarrow> (cstr d \<noteq> [] \<and> last (cstr d) = of_nat (of_char CHR ''I''))"
  by (simp add: streq_def returns_int_def Let_def)

text \<open>
  C4. Type safety of TeenyJVM: running the main method of a checked class, for any number of
  instructions, never leaves the operand stack, the local variables or the code, never reads a
  constant of the wrong kind, and never returns a value from \<open>main\<close>.  What can still stop it is
  a division trap, a read of a local variable that was never written, a class without
  \<open>main\<close>, or the bound on the number of instructions.
\<close>

theorem verified_class_safe:
  assumes "verify_class cls H"
  shows "(\<exists>out. run_main n cls = Inr out) \<or>
    run_main n cls \<in> {Inl Jvm_fuel, Inl Divide_error, Inl Uninitialised, Inl Missing_main}"
proof (cases "find_method MAIN_METHOD MAIN_DESCRIPTOR cls")
  case None
  then show ?thesis by (simp add: run_main_def)
next
  case (Some m)
  then have m: "m \<in> set (methods cls)" "streq MAIN_DESCRIPTOR (descriptor m)"
    by (auto simp: find_method_def find_Some_iff)
  obtain hts where v: "verify_method cls m hts" using verify_class_method [OF assms(1) m(1)] by blast
  have "at_height m hts (entry (fresh_locals m))"
    using v by (cases hts) (auto simp: at_height_def entry_def verify_method_def fresh_locals_def)
  then have s: "safe m (execute n cls m (entry (fresh_locals m)) [])" by (rule execute_safe [OF assms(1) v])
  have "\<not> returns_int m"
    unfolding streq_returns [OF m(2)] by code_simp
  with s Some show ?thesis
    by (auto simp: run_main_def safe_def harmless_def split: option.splits sum.splits)
qed

text \<open>
  A class with a recursive method: \<open>main\<close> prints the factorial of 5, \<open>fact\<close> is
  \<open>(n < 2) ? 1 : n * fact(n - 1)\<close>.
\<close>

definition fact_class :: class_file_t where
  "fact_class = \<lparr>constant_pool = [CONSTANT_Methodref 0 2, CONSTANT_NameAndType 3 4,
       CONSTANT_Utf8 (ascii ''fact''), CONSTANT_Utf8 (ascii ''(I)I'')],
     methods =
       [\<lparr>name = ascii ''fact'', descriptor = ascii ''(I)I'', mcode = \<lparr>max_stack = 3, max_locals = 1,
          code = [0x1a, 0x05, 0xa2, 0, 5, 0x04, 0xac, 0x1a, 0x1a, 0x04, 0x64, 0xb8, 0, 1, 0x68, 0xac]\<rparr>\<rparr>,
        \<lparr>name = MAIN_METHOD, descriptor = MAIN_DESCRIPTOR, mcode = \<lparr>max_stack = 2, max_locals = 1,
          code = [0x10, 5, 0xb8, 0, 1, 0xb6, 0, 0, 0xb1]\<rparr>\<rparr>]\<rparr>"

definition fact_heights :: "nat option list list" where
  "fact_heights =
     [[Some 0, Some 1, Some 2, None, None, Some 0, Some 1, Some 0, Some 1, Some 2, Some 3, Some 2, None, None,
       Some 2, Some 1],
      [Some 0, None, Some 1, None, None, Some 1, None, None, Some 0]]"

theorem verified_class_safe_witness:
  "verify_class fact_class fact_heights \<and>
   ((\<exists>out. run_main 100 fact_class = Inr out) \<or>
    run_main 100 fact_class \<in> {Inl Jvm_fuel, Inl Divide_error, Inl Uninitialised, Inl Missing_main})"
proof -
  have "verify_class fact_class fact_heights" by code_simp
  with verified_class_safe [OF this, of 100] show ?thesis by blast
qed

lemma fact_class_prints: "run_main 100 fact_class = Inr [120]"
  by code_simp

section \<open>The opcode tables and the jumps\<close>

text \<open>
  C35. The arithmetic opcodes, through the table that is indexed by the opcode's distance from
  \<open>iadd\<close>, compute what the instruction set says: with \<open>b\<close> on top of the stack and
  \<open>a\<close> below it, the operation is \<open>a op b\<close> in 32-bit two's complement, with division
  towards zero.
\<close>

theorem arithmetic_opcodes:
  assumes "f_stack fr = b # a # st"
  shows "exec_switch cls m (opcode i_iadd) fr out = Inr (Next (fr\<lparr>f_stack := (a + b) # st\<rparr>) out) \<and>
    exec_switch cls m (opcode i_isub) fr out = Inr (Next (fr\<lparr>f_stack := (a - b) # st\<rparr>) out) \<and>
    exec_switch cls m (opcode i_imul) fr out = Inr (Next (fr\<lparr>f_stack := (a * b) # st\<rparr>) out) \<and>
    exec_switch cls m (opcode i_idiv) fr out = (if traps_on a b then Inl Divide_error
      else Inr (Next (fr\<lparr>f_stack := word_of_int (sint a sdiv sint b) # st\<rparr>) out)) \<and>
    exec_switch cls m (opcode i_irem) fr out = (if traps_on a b then Inl Divide_error
      else Inr (Next (fr\<lparr>f_stack := word_of_int (sint a smod sint b) # st\<rparr>) out)) \<and>
    exec_switch cls m (opcode i_ineg) fr out = Inr (Next (fr\<lparr>f_stack := - b # a # st\<rparr>) out)"
  by (simp add: exec_switch_def cases_def assms pop_def arithmetic_def arithmetic_offset_def
      add_def subtract_def multiply_def divide_def remain_def)

theorem arithmetic_opcodes_witness:
  "exec_switch fact_class (hd (methods fact_class)) (opcode i_isub)
     \<lparr>f_pc = 0, f_stack = [3, 10], f_locals = []\<rparr> [] =
   Inr (Next \<lparr>f_pc = 0, f_stack = [7], f_locals = []\<rparr> [])"
  using arithmetic_opcodes [of "\<lparr>f_pc = 0, f_stack = [3, 10], f_locals = []\<rparr>" 3 10 "[]" fact_class
    "hd (methods fact_class)" "[]"]
  by simp

definition branch :: "frame \<Rightarrow> bool \<Rightarrow> u2 \<Rightarrow> i32 list \<Rightarrow> frame" where
  "branch fr taken d st = fr\<lparr>f_pc := f_pc fr + (if taken then sint d else 3), f_stack := st\<rparr>"

definition after_increment :: "(jerr, instr_result) res \<Rightarrow> (jerr, instr_result) res" where
  "after_increment r = bindE r (\<lambda>x. Inr (case x of Next fr out \<Rightarrow> Next (fr\<lparr>f_pc := f_pc fr + 1\<rparr>) out | Return v \<Rightarrow> Return v))"

text \<open>
  The comparing jumps, through the table indexed by the opcode's distance from the first of
  them: with \<open>b\<close> on top of the stack and \<open>a\<close> below it, \<open>if_icmp\<close> jumps when
  \<open>a\<close> compares to \<open>b\<close> as signed integers, \<open>if\<close> when \<open>b\<close> compares to
  zero; after the shared increment the program counter has moved by the signed 16-bit offset behind
  the opcode when the jump is taken and to the next instruction otherwise.
\<close>

theorem jump_opcodes:
  assumes "f_stack fr = b # a # st" "operand16 m (f_pc fr + 1) = Some d"
  shows "list_all (\<lambda>(i, r). after_increment (exec_switch cls m (opcode i) fr out) =
      Inr (Next (branch fr (r (sint a) (sint b)) d st) out))
    [(i_if_icmpeq, (=)), (i_if_icmpne, (\<noteq>)), (i_if_icmplt, (<)), (i_if_icmpge, (\<ge>)), (i_if_icmpgt, (>)),
     (i_if_icmple, (\<le>))] \<and>
   list_all (\<lambda>(i, r). after_increment (exec_switch cls m (opcode i) fr out) =
      Inr (Next (branch fr (r (sint b) 0) d (a # st)) out))
    [(i_ifeq, (=)), (i_ifne, (\<noteq>)), (i_iflt, (<)), (i_ifge, (\<ge>)), (i_ifgt, (>)), (i_ifle, (\<le>))]"
proof -
  have eq: "x = y \<longleftrightarrow> sint x = sint y" for x y :: i32
    by (auto intro: signed_word_eqI)
  obtain hi lo where c: "code_byte m (f_pc fr + 1) = Inr hi" "code_byte m (f_pc fr + 2) = Inr lo"
    "d = join16 hi lo" using assms(2) by (auto simp: operand16_next)
  have jump: "after_increment (bindE (conditional_jump t m (f_pc fr)) (\<lambda>pc'. Inr (Next (fr\<lparr>f_pc := pc', f_stack := x\<rparr>) out))) =
      Inr (Next (branch fr t d x) out)" for t x
    by (cases t) (simp_all add: conditional_jump_def c branch_def after_increment_def)
  show ?thesis
    by (simp add: exec_switch_def cases_def assms(1) pop_def compare_def jump_offset_def
        jump_zero_offset_def jump eq_def ne_def lt_def ge_def gt_def le_def eq)
qed

definition jump_demo :: method_t where
  "jump_demo = \<lparr>name = [], descriptor = [], mcode = \<lparr>max_stack = 2, max_locals = 0,
     code = [0xa1, 0xff, 0xf0, 0xb1]\<rparr>\<rparr>"

theorem jump_opcodes_witness:
  "after_increment (exec_switch fact_class jump_demo (opcode i_if_icmplt)
     \<lparr>f_pc = 0, f_stack = [3, - 10], f_locals = []\<rparr> []) =
   Inr (Next (branch \<lparr>f_pc = 0, f_stack = [3, - 10], f_locals = []\<rparr> True 0xfff0 []) [])"
proof -
  have "operand16 jump_demo (0 + 1) = Some 0xfff0"
    by (simp add: jump_demo_def operand16_def operand_def code_byte_def join16_def)
  with jump_opcodes [of "\<lparr>f_pc = 0, f_stack = [3, - 10], f_locals = []\<rparr>" 3 "- 10" "[]" jump_demo
      "0xfff0" fact_class "[]"]
  show ?thesis by simp
qed

section \<open>Fuel\<close>

text \<open>
  The number of instructions allowed only decides whether the interpreter gets to the end: a run
  that did not use up its fuel has the same result, and the same output, with any larger amount.
\<close>

theorem execute_more_fuel:
  "execute n cls m fr out \<noteq> Inl Jvm_fuel \<Longrightarrow> n \<le> k \<Longrightarrow> execute k cls m fr out = execute n cls m fr out"
proof (induction n arbitrary: m fr out k)
  case (Suc n)
  then obtain j where k: "k = Suc j" "n \<le> j" by (cases k) auto
  have IH: "execute j cls m' fr' out' = execute n cls m' fr' out'"
    if "execute n cls m' fr' out' \<noteq> Inl Jvm_fuel" for m' fr' out' using Suc.IH k(2) that by blast
  show ?case
    using Suc.prems(1) k(1)
    by (auto simp: bindE_def IH split: sum.splits option.splits instr_result.splits)
qed simp

theorem execute_more_fuel_witness:
  "execute 200 fact_class (methods fact_class ! 1) (entry [None]) [] =
   execute 100 fact_class (methods fact_class ! 1) (entry [None]) []"
  by (rule execute_more_fuel) code_simp+

end
