(* ===== verification/C_Memory.thy ===== *)
theory C_Memory
  imports C_Prelude
begin

text \<open>
  A byte-addressed memory: little-endian loads and stores of integers, \<open>memcpy\<close> and
  \<open>memset\<close>.  The locale \<open>cells\<close> states what a program that keeps integers in disjoint
  cells of memory relies on; it is interpreted on the 64-bit and the 32-bit accesses.
\<close>

type_synonym mem = "nat \<Rightarrow> 8 word"

section \<open>Accesses\<close>

fun load_bytes :: "nat \<Rightarrow> mem \<Rightarrow> nat \<Rightarrow> nat" where
  "load_bytes 0 m a = 0"
| "load_bytes (Suc n) m a = unat (m a) + 256 * load_bytes n m (a + 1)"

fun store_bytes :: "nat \<Rightarrow> mem \<Rightarrow> nat \<Rightarrow> nat \<Rightarrow> mem" where
  "store_bytes 0 m a v = m"
| "store_bytes (Suc n) m a v = store_bytes n (m(a := of_nat v)) (a + 1) (v div 256)"

definition load64 :: "mem \<Rightarrow> nat \<Rightarrow> nat" where
  "load64 m a = load_bytes 8 m a"

definition store64 :: "mem \<Rightarrow> nat \<Rightarrow> nat \<Rightarrow> mem" where
  "store64 m a v = store_bytes 8 m a v"

definition load32 :: "mem \<Rightarrow> nat \<Rightarrow> nat" where
  "load32 m a = load_bytes 4 m a"

definition store32 :: "mem \<Rightarrow> nat \<Rightarrow> nat \<Rightarrow> mem" where
  "store32 m a v = store_bytes 4 m a v"

text \<open>Copying \<open>n\<close> bytes between regions that do not overlap, and filling a region.\<close>

definition memcpy :: "mem \<Rightarrow> nat \<Rightarrow> nat \<Rightarrow> nat \<Rightarrow> mem" where
  "memcpy m dst src n = (\<lambda>a. if dst \<le> a \<and> a < dst + n then m (src + (a - dst)) else m a)"

definition memset :: "mem \<Rightarrow> nat \<Rightarrow> 8 word \<Rightarrow> nat \<Rightarrow> mem" where
  "memset m dst b n = (\<lambda>a. if dst \<le> a \<and> a < dst + n then b else m a)"

text \<open>Subtraction of \<open>size_t\<close> and \<open>uintptr_t\<close> values wraps around.\<close>

definition sub64 :: "nat \<Rightarrow> nat \<Rightarrow> nat" where
  "sub64 a b = (a + (2 ^ 64 - b)) mod 2 ^ 64"

lemma sub64_le: "b \<le> a \<Longrightarrow> a < 2 ^ 64 \<Longrightarrow> sub64 a b = a - b"
proof -
  assume h: "b \<le> a" "a < 2 ^ 64"
  then have "a + (2 ^ 64 - b) = 2 ^ 64 + (a - b)" by simp
  moreover have "(2 ^ 64 + (a - b)) mod 2 ^ 64 = a - b"
    using h(2) less_imp_diff_less mod_add_self1 mod_less by metis
  ultimately show ?thesis by (simp only: sub64_def)
qed

section \<open>Loads and stores\<close>

lemma store_bytes_other: "b < a \<or> a + n \<le> b \<Longrightarrow> store_bytes n m a v b = m b"
  by (induction n arbitrary: m a v) auto

lemma load_bytes_cong: "(\<And>i. a \<le> i \<Longrightarrow> i < a + n \<Longrightarrow> m i = m' i) \<Longrightarrow> load_bytes n m a = load_bytes n m' a"
  by (induction n arbitrary: a) auto

lemma load_store_other: "a + n \<le> b \<or> b + k \<le> a \<Longrightarrow> load_bytes k (store_bytes n m a v) b = load_bytes k m b"
  by (rule load_bytes_cong, rule store_bytes_other) linarith

lemma load_store_same: "load_bytes n (store_bytes n m a v) a = v mod 256 ^ n"
proof (induction n arbitrary: m a v)
  case (Suc n)
  have "store_bytes n (m(a := of_nat v)) (a + 1) (v div 256) a = of_nat v"
    by (subst store_bytes_other) simp_all
  then have "load_bytes (Suc n) (store_bytes (Suc n) m a v) a = v mod 256 + 256 * (v div 256 mod 256 ^ n)"
    by (simp add: unat_of_nat Suc.IH)
  also have "\<dots> = v mod (256 * 256 ^ n)"
    by (simp add: mod_mult2_eq)
  finally show ?case by simp
qed simp

lemma load_bytes_bound: "load_bytes n m a < 256 ^ n"
proof (induction n arbitrary: a)
  case (Suc n)
  have "unat (m a) < 256" using unsigned_less [of "m a", where 'a = nat] by simp
  with Suc.IH [of "a + 1"] show ?case by simp
qed simp

section \<open>Cells\<close>

text \<open>
  Accesses of a fixed width: a load sees the last store to its cell and is not affected by stores
  to other cells, nor by changes elsewhere.
\<close>

locale cells =
  fixes load :: "mem \<Rightarrow> nat \<Rightarrow> nat"
    and store :: "mem \<Rightarrow> nat \<Rightarrow> nat \<Rightarrow> mem"
    and width :: nat
  assumes load_same: "v < 256 ^ width \<Longrightarrow> load (store m a v) a = v"
    and store_elsewhere: "b < a \<or> a + width \<le> b \<Longrightarrow> store m a v b = m b"
    and load_local: "(\<And>i. a \<le> i \<Longrightarrow> i < a + width \<Longrightarrow> m i = m' i) \<Longrightarrow> load m a = load m' a"
    and load_range: "load m a < 256 ^ width"
begin

lemma load_other: "a + width \<le> b \<or> b + width \<le> a \<Longrightarrow> load (store m a v) b = load m b"
  by (rule load_local, rule store_elsewhere) linarith

lemma load_memcpy_other: "dst + n \<le> a \<or> a + width \<le> dst \<Longrightarrow> load (memcpy m dst src n) a = load m a"
  by (rule load_local) (auto simp: memcpy_def)

lemma load_memset_other: "dst + n \<le> a \<or> a + width \<le> dst \<Longrightarrow> load (memset m dst b n) a = load m a"
  by (rule load_local) (auto simp: memset_def)

end

interpretation quad: cells load64 store64 8
proof
  show "load64 (store64 m a v) a = v" if "v < 256 ^ 8" for m a v
    using that by (simp add: load64_def store64_def load_store_same)
  show "store64 m a v b = m b" if "b < a \<or> a + 8 \<le> b" for m a v b
    using that by (simp add: store64_def store_bytes_other)
  show "load64 m a = load64 m' a" if "\<And>i. a \<le> i \<Longrightarrow> i < a + 8 \<Longrightarrow> m i = m' i" for m m' a
    unfolding load64_def using that by (rule load_bytes_cong)
  show "load64 m a < 256 ^ 8" for m a
    unfolding load64_def by (rule load_bytes_bound)
qed

interpretation long: cells load32 store32 4
proof
  show "load32 (store32 m a v) a = v" if "v < 256 ^ 4" for m a v
    using that by (simp add: load32_def store32_def load_store_same)
  show "store32 m a v b = m b" if "b < a \<or> a + 4 \<le> b" for m a v b
    using that by (simp add: store32_def store_bytes_other)
  show "load32 m a = load32 m' a" if "\<And>i. a \<le> i \<Longrightarrow> i < a + 4 \<Longrightarrow> m i = m' i" for m m' a
    unfolding load32_def using that by (rule load_bytes_cong)
  show "load32 m a < 256 ^ 4" for m a
    unfolding load32_def by (rule load_bytes_bound)
qed

end
