(* ===== verification/Malloc_Heap.thy ===== *)
theory Malloc_Heap
  imports C_Memory
begin

text \<open>
  The allocator of the malloc project (\<open>project04-kweng/mm.c\<close>) on the simulated memory system
  (\<open>memlib.c\<close>): an implicit list of blocks, each with its size and an allocated bit in a
  header and a footer, first-fit search, splitting, coalescing with both neighbours on
  \<open>free\<close>, and the links \<open>free\<close> writes into the payload of freed blocks.  Addresses are
  natural numbers, the null pointer is 0; sizes are computed modulo \<open>2 ^ 64\<close>.
\<close>

section \<open>The memory system\<close>

record heap_state =
  heap :: nat
  mem_brk :: nat
  mem_max_addr :: nat
  bytes :: mem
  last_node :: nat

definition MAX_HEAP :: nat where
  "MAX_HEAP = 100 * 2 ^ 20"

text \<open>\<open>mem_init\<close>, with the address that \<open>mmap\<close> returned.\<close>

definition mem_init :: "nat \<Rightarrow> heap_state \<Rightarrow> heap_state" where
  "mem_init addr s = s\<lparr>heap := addr, mem_max_addr := addr + MAX_HEAP, mem_brk := addr,
     bytes := (\<lambda>a. if addr \<le> a \<and> a < addr + MAX_HEAP then 0 else bytes s a)\<rparr>"

definition mem_reset_brk :: "heap_state \<Rightarrow> heap_state" where
  "mem_reset_brk s = s\<lparr>mem_brk := heap s\<rparr>"

text \<open>
  The increment is a signed 64-bit number given by its unsigned value; \<open>None\<close> is the pointer
  \<open>-1\<close>.
\<close>

definition mem_sbrk :: "nat \<Rightarrow> heap_state \<Rightarrow> nat option \<times> heap_state" where
  "mem_sbrk incr s =
     (if 2 ^ 63 \<le> incr \<or> mem_max_addr s < mem_brk s + incr then (None, s)
      else (Some (mem_brk s), s\<lparr>mem_brk := mem_brk s + incr\<rparr>))"

definition mem_heap_lo :: "heap_state \<Rightarrow> nat" where
  "mem_heap_lo s = heap s"

definition mem_heap_hi :: "heap_state \<Rightarrow> nat" where
  "mem_heap_hi s = mem_brk s - 1"

definition mem_heapsize :: "heap_state \<Rightarrow> nat" where
  "mem_heapsize s = mem_brk s - heap s"

section \<open>Blocks\<close>

definition ALIGNMENT :: nat where
  "ALIGNMENT = 16"

text \<open>\<open>sizeof(block_t)\<close> and \<open>offsetof(block_t, payload)\<close>.\<close>

definition header_bytes :: nat where
  "header_bytes = 8"

definition round_up :: "nat \<Rightarrow> nat \<Rightarrow> nat" where
  "round_up sz n = (sz + n - 1) mod 2 ^ 64 div n * n"

definition get_size :: "nat \<Rightarrow> heap_state \<Rightarrow> nat" where
  "get_size block s = load64 (bytes s) block div 2 * 2"

definition with_bit :: "nat \<Rightarrow> bool \<Rightarrow> nat" where
  "with_bit sz is_allocated = (if is_allocated then sz div 2 * 2 + 1 else sz)"

definition set_header :: "nat \<Rightarrow> nat \<Rightarrow> bool \<Rightarrow> heap_state \<Rightarrow> heap_state" where
  "set_header block sz is_allocated s = s\<lparr>bytes := store64 (bytes s) block (with_bit sz is_allocated)\<rparr>"

definition check_allocated :: "nat \<Rightarrow> heap_state \<Rightarrow> bool" where
  "check_allocated block s = odd (load64 (bytes s) block)"

definition set_footer :: "nat \<Rightarrow> heap_state \<Rightarrow> heap_state" where
  "set_footer block s = s\<lparr>bytes := store64 (bytes s) (block + get_size block s - 8)
     (with_bit (get_size block s) (check_allocated block s))\<rparr>"

definition first_block :: "heap_state \<Rightarrow> nat" where
  "first_block s = mem_heap_lo s + ALIGNMENT - header_bytes"

definition mm_init :: "heap_state \<Rightarrow> int \<times> heap_state" where
  "mm_init s = (case mem_sbrk (ALIGNMENT - header_bytes) (mem_reset_brk s) of
     (None, s') \<Rightarrow> (- 1, s') | (Some _, s') \<Rightarrow> (0, s'))"

section \<open>Coalescing\<close>

text \<open>The neighbours that \<open>coalesce\<close> looks at; \<open>None\<close> is the null pointer.\<close>

definition next_block :: "nat \<Rightarrow> heap_state \<Rightarrow> nat option" where
  "next_block b s = (if b + get_size b s \<ge> mem_heap_hi s then None else Some (b + get_size b s))"

definition prev_block :: "nat \<Rightarrow> heap_state \<Rightarrow> nat option" where
  "prev_block b s =
     (if sub64 b (get_size b s) \<le> first_block s then None
      else Some (sub64 b (load64 (bytes s) (b - 8) div 2 * 2)))"

definition merge :: "nat \<Rightarrow> nat \<Rightarrow> heap_state \<Rightarrow> heap_state" where
  "merge b sz s = set_footer b (set_header b sz False s)"

definition coalesce :: "nat \<Rightarrow> heap_state \<Rightarrow> nat \<times> heap_state" where
  "coalesce b s =
     (let c = next_block b s; a = prev_block b s in
      case c of
        Some c' \<Rightarrow>
          if \<not> check_allocated c' s then
            (case a of
               Some a' \<Rightarrow>
                 if \<not> check_allocated a' s
                 then (a', merge a' (get_size a' s + get_size b s + get_size c' s) s)
                 else (b, merge b (get_size b s + get_size c' s) s)
             | None \<Rightarrow> (b, merge b (get_size b s + get_size c' s) s))
          else
            (case a of
               Some a' \<Rightarrow>
                 if \<not> check_allocated a' s then (a', merge a' (get_size a' s + get_size b s) s)
                 else (b, merge b (get_size b s) s)
             | None \<Rightarrow> (b, merge b (get_size b s) s))
      | None \<Rightarrow>
          (case a of
             Some a' \<Rightarrow>
               if \<not> check_allocated a' s then (a', merge a' (get_size a' s + get_size b s) s)
               else (b, merge b (get_size b s) s)
           | None \<Rightarrow> (b, merge b (get_size b s) s)))"

section \<open>Allocating\<close>

datatype merr = Endless_search | Assertion_failed

text \<open>
  The search advances by the size of a block; a block of size 0 would make it run forever.  The fuel
  is the number of addresses that can be visited.
\<close>

fun find_fit_from :: "nat \<Rightarrow> nat \<Rightarrow> nat \<Rightarrow> heap_state \<Rightarrow> (merr, nat option) res" where
  "find_fit_from 0 p sz s = Inl Endless_search"
| "find_fit_from (Suc n) p sz s =
     (if p < mem_heap_hi s then
        if sz \<le> get_size p s \<and> \<not> check_allocated p s then Inr (Some p)
        else find_fit_from n (p + get_size p s) sz s
      else Inr None)"

definition find_fit :: "nat \<Rightarrow> heap_state \<Rightarrow> (merr, nat option) res" where
  "find_fit sz s = find_fit_from (mem_brk s + 1) (first_block s) sz s"

definition split_block :: "nat \<Rightarrow> nat \<Rightarrow> heap_state \<Rightarrow> nat \<times> heap_state" where
  "split_block block n s =
     (let original_size = get_size block s;
          s_size = sub64 original_size n;
          s1 = set_footer block (set_header block n True s)
      in (block, if 0 < s_size then set_footer (block + n) (set_header (block + n) s_size False s1) else s1))"

definition block_size :: "nat \<Rightarrow> nat" where
  "block_size sz = round_up ((header_bytes + sz + 8) mod 2 ^ 64) ALIGNMENT"

text \<open>\<open>malloc\<close> returns the address of the payload, or 0.\<close>

definition mm_malloc :: "nat \<Rightarrow> heap_state \<Rightarrow> (merr, nat \<times> heap_state) res" where
  "mm_malloc req s =
     (let sz = block_size req in
      bindE (find_fit sz s) (\<lambda>block.
      case block of
        None \<Rightarrow>
          (case mem_sbrk sz s of
             (None, s') \<Rightarrow> Inr (0, s')
           | (Some b, s') \<Rightarrow> Inr (b + header_bytes, set_footer b (set_header b sz True s')))
      | Some b \<Rightarrow> (let (b', s') = split_block b sz s in Inr (b' + header_bytes, s'))))"

section \<open>Freeing, reallocating\<close>

text \<open>
  The links of a free node are at its payload: \<open>prev\<close> at offset 0, \<open>next\<close> at offset 8.
\<close>

definition set_prev :: "nat \<Rightarrow> nat \<Rightarrow> heap_state \<Rightarrow> heap_state" where
  "set_prev node v s = s\<lparr>bytes := store64 (bytes s) node v\<rparr>"

definition set_next :: "nat \<Rightarrow> nat \<Rightarrow> heap_state \<Rightarrow> heap_state" where
  "set_next node v s = s\<lparr>bytes := store64 (bytes s) (node + 8) v\<rparr>"

definition link_node :: "nat \<Rightarrow> heap_state \<Rightarrow> heap_state" where
  "link_node node s =
     (let s1 = set_next node 0 (set_prev node 0 s) in
      let s2 = (if last_node s1 \<noteq> 0 then set_prev node (last_node s1) (set_next (last_node s1) node s1) else s1) in
      s2\<lparr>last_node := node\<rparr>)"

definition mm_free :: "nat \<Rightarrow> heap_state \<Rightarrow> (merr, heap_state) res" where
  "mm_free ptr s =
     (if ptr = 0 then Inr s
      else (let (block, s1) = coalesce (ptr - header_bytes) s in
            bindE (assertE (\<not> check_allocated block s1) Assertion_failed) (\<lambda>_.
            Inr (link_node (block + 8) s1))))"

definition mm_realloc :: "nat \<Rightarrow> nat \<Rightarrow> heap_state \<Rightarrow> (merr, nat \<times> heap_state) res" where
  "mm_realloc old_ptr sz s =
     (if sz = 0 then bindE (mm_free old_ptr s) (\<lambda>s'. Inr (0, s'))
      else if old_ptr = 0 then mm_malloc sz s
      else bindE (mm_malloc sz s) (\<lambda>(new_ptr, s1).
        if new_ptr = 0 then Inr (0, s1)
        else
          (let old_size = get_size (old_ptr - header_bytes) s1;
               n = (if sz < old_size then sz else old_size);
               s2 = s1\<lparr>bytes := memcpy (bytes s1) new_ptr old_ptr n\<rparr>
           in bindE (mm_free old_ptr s2) (\<lambda>s3. Inr (new_ptr, s3)))))"

definition mm_calloc :: "nat \<Rightarrow> nat \<Rightarrow> heap_state \<Rightarrow> (merr, nat \<times> heap_state) res" where
  "mm_calloc nmemb sz s =
     (let n = nmemb * sz mod 2 ^ 64 in
      bindE (mm_malloc n s) (\<lambda>(new_ptr, s').
      Inr (new_ptr, if new_ptr \<noteq> 0 then s'\<lparr>bytes := memset (bytes s') new_ptr 0 n\<rparr> else s')))"

text \<open>The heap checker asserts that sizes are positive multiples of the alignment.\<close>

fun checkheap_from :: "nat \<Rightarrow> nat \<Rightarrow> heap_state \<Rightarrow> (merr, unit) res" where
  "checkheap_from 0 p s = Inl Endless_search"
| "checkheap_from (Suc n) p s =
     (if p < mem_heap_hi s then
        bindE (assertE (0 < get_size p s) Assertion_failed) (\<lambda>_.
        bindE (assertE (get_size p s mod ALIGNMENT = 0) Assertion_failed) (\<lambda>_.
        checkheap_from n (p + get_size p s) s))
      else Inr ())"

definition mm_checkheap :: "heap_state \<Rightarrow> (merr, unit) res" where
  "mm_checkheap s = checkheap_from (mem_brk s + 1) (first_block s) s"

end
