(* ===== verification/Malloc_Blocks.thy ===== *)
theory Malloc_Blocks
  imports Malloc_Heap
begin

text \<open>
  The block structure of the heap of \<open>project04-kweng/mm.c\<close>: a heap represents a list of
  blocks, each with a size and an allocated bit, laid out without gaps from the first block to the
  break.  This theory relates the primitive operations on headers and footers to that list.
\<close>

type_synonym block = "nat \<times> bool"

section \<open>Lists of blocks\<close>

abbreviation extent :: "block list \<Rightarrow> nat" where
  "extent bs \<equiv> sum_list (map fst bs)"

fun placed :: "nat \<Rightarrow> block list \<Rightarrow> (nat \<times> nat \<times> bool) list" where
  "placed p [] = []"
| "placed p ((n, al) # bs) = (p, n, al) # placed (p + n) bs"

lemma placed_append: "placed p (xs @ ys) = placed p xs @ placed (p + extent xs) ys"
  by (induction p xs rule: placed.induct) (simp_all add: add.assoc)

lemma placed_range: "(q, n, al) \<in> set (placed p bs) \<Longrightarrow> p \<le> q \<and> q + n \<le> p + extent bs"
  by (induction p bs rule: placed.induct) fastforce+

lemma placed_split:
  "(q, n, al) \<in> set (placed p bs) \<longleftrightarrow> (\<exists>xs ys. bs = xs @ (n, al) # ys \<and> q = p + extent xs)"
proof (induction p bs rule: placed.induct)
  case (2 p k b bs)
  show ?case
  proof
    assume "(q, n, al) \<in> set (placed p ((k, b) # bs))"
    then consider "q = p" "n = k" "al = b" | "(q, n, al) \<in> set (placed (p + k) bs)" by auto
    then show "\<exists>xs ys. (k, b) # bs = xs @ (n, al) # ys \<and> q = p + extent xs"
    proof cases
      case 1
      then show ?thesis by (intro exI [of _ "[]"] exI [of _ bs]) simp
    next
      case 2
      with "2.IH" obtain xs ys where "bs = xs @ (n, al) # ys" "q = p + k + extent xs" by blast
      then show ?thesis by (intro exI [of _ "(k, b) # xs"] exI [of _ ys]) simp
    qed
  next
    assume "\<exists>xs ys. (k, b) # bs = xs @ (n, al) # ys \<and> q = p + extent xs"
    then show "(q, n, al) \<in> set (placed p ((k, b) # bs))"
      by (auto simp: placed_append Cons_eq_append_conv)
  qed
qed simp

text \<open>Blocks at different places do not overlap.\<close>

lemma placed_disjoint:
  assumes "(q, n, al) \<in> set (placed p bs)" "(q', n', al') \<in> set (placed p bs)" "q < q'"
  shows "q + n \<le> q'"
proof -
  obtain xs ys where bs: "bs = xs @ (n, al) # ys" "q = p + extent xs"
    using assms(1) by (auto simp: placed_split)
  have "(q', n', al') \<in> set (placed p xs) \<or> (q', n', al') = (q, n, al) \<or> (q', n', al') \<in> set (placed (q + n) ys)"
    using assms(2) bs by (auto simp: placed_append)
  then show ?thesis
    using assms(3) bs(2) placed_range by fastforce
qed

lemma placed_same:
  assumes "(q, n, al) \<in> set (placed p bs)" "(q, n', al') \<in> set (placed p bs)" "0 < n" "0 < n'"
  shows "n' = n \<and> al' = al"
proof -
  obtain xs ys where bs: "bs = xs @ (n, al) # ys" "q = p + extent xs"
    using assms(1) by (auto simp: placed_split)
  have "(q, n', al') \<in> set (placed p xs) \<or> (q, n', al') = (q, n, al) \<or> (q, n', al') \<in> set (placed (q + n) ys)"
    using assms(2) bs by (auto simp: placed_append)
  then show ?thesis
    using assms(3,4) bs(2) placed_range by fastforce
qed

lemma placed_apart:
  assumes "(q, n, al) \<in> set (placed p bs)" "(q', n', al') \<in> set (placed p bs)" "0 < n" "0 < n'"
    "q \<noteq> q' \<or> al \<noteq> al'"
  shows "q + n \<le> q' \<or> q' + n' \<le> q"
proof -
  have "q \<noteq> q'" using placed_same [of q n al p bs n' al'] assms by auto
  then consider "q < q'" | "q' < q" by linarith
  then show ?thesis
    using placed_disjoint [OF assms(1,2)] placed_disjoint [OF assms(2,1)] by cases auto
qed

section \<open>Blocks in memory\<close>

definition cell_ok :: "mem \<Rightarrow> nat \<times> nat \<times> bool \<Rightarrow> bool" where
  "cell_ok m = (\<lambda>(q, n, al). 16 \<le> n \<and> 16 dvd n \<and> n < 2 ^ 63 \<and>
     load64 m q = with_bit n al \<and> load64 m (q + n - 8) = with_bit n al)"

definition cells_ok :: "mem \<Rightarrow> nat \<Rightarrow> block list \<Rightarrow> bool" where
  "cells_ok m p bs \<longleftrightarrow> (\<forall>x \<in> set (placed p bs). cell_ok m x)"

lemma cells_ok_append: "cells_ok m p (xs @ ys) \<longleftrightarrow> cells_ok m p xs \<and> cells_ok m (p + extent xs) ys"
  by (auto simp: cells_ok_def placed_append)

lemma cells_ok_Cons: "cells_ok m p ((n, al) # bs) \<longleftrightarrow> cell_ok m (p, n, al) \<and> cells_ok m (p + n) bs"
  by (simp add: cells_ok_def)

lemma cells_ok_Nil [simp]: "cells_ok m p []"
  by (simp add: cells_ok_def)

lemma cell_ok_local:
  assumes "cell_ok m (q, n, al)" "\<And>a. q \<le> a \<Longrightarrow> a < q + 8 \<Longrightarrow> m' a = m a"
    "\<And>a. q + n - 8 \<le> a \<Longrightarrow> a < q + n \<Longrightarrow> m' a = m a"
  shows "cell_ok m' (q, n, al)"
proof -
  have "load64 m' q = load64 m q" using assms(2) by (intro quad.load_local) simp
  moreover have "load64 m' (q + n - 8) = load64 m (q + n - 8)"
    using assms(1,3) by (intro quad.load_local) (simp add: cell_ok_def)
  ultimately show ?thesis using assms(1) by (simp add: cell_ok_def)
qed

lemma cells_ok_local:
  assumes "cells_ok m p bs" "\<And>a. p \<le> a \<Longrightarrow> a < p + extent bs \<Longrightarrow> m' a = m a"
  shows "cells_ok m' p bs"
  unfolding cells_ok_def
proof
  fix x assume x: "x \<in> set (placed p bs)"
  obtain q n al where e: "x = (q, n, al)" by (cases x)
  have r: "p \<le> q" "q + n \<le> p + extent bs" using placed_range x e by auto
  have ok: "cell_ok m (q, n, al)" using assms(1) x e by (simp add: cells_ok_def)
  then have "8 \<le> n" by (simp add: cell_ok_def)
  with ok r show "cell_ok m' x"
    unfolding e by (intro cell_ok_local [OF ok] assms(2)) simp_all
qed

text \<open>Writing inside the payload of a block keeps the structure.\<close>

lemma cells_ok_inside:
  assumes "cells_ok m p bs" "(q, n, al) \<in> set (placed p bs)"
    "\<And>a. a < q + 8 \<or> q + n - 8 \<le> a \<Longrightarrow> m' a = m a"
  shows "cells_ok m' p bs"
  unfolding cells_ok_def
proof
  fix x assume x: "x \<in> set (placed p bs)"
  obtain q' n' al' where e: "x = (q', n', al')" by (cases x)
  have ok: "cell_ok m (q', n', al')" "16 \<le> n'" "16 \<le> n"
    using assms(1,2) x e by (auto simp: cells_ok_def cell_ok_def)
  consider "q < q'" | "q' < q" | "q' = q" by linarith
  then show "cell_ok m' x"
  proof cases
    case 1
    then have "q + n \<le> q'" using placed_disjoint assms(2) x e by blast
    then show ?thesis unfolding e using ok(2) by (intro cell_ok_local [OF ok(1)] assms(3)) auto
  next
    case 2
    then have "q' + n' \<le> q" using placed_disjoint assms(2) x e by blast
    then show ?thesis unfolding e using ok(2) by (intro cell_ok_local [OF ok(1)] assms(3)) auto
  next
    case 3
    then have "n' = n"
      using placed_same [OF assms(2), of n' al'] x e ok(2,3) by simp
    with 3 show ?thesis unfolding e using ok by (intro cell_ok_local [OF ok(1)] assms(3)) auto
  qed
qed

section \<open>Headers and footers\<close>

lemma with_bit_even: "even n \<Longrightarrow> with_bit n al = n + (if al then 1 else 0)"
  by (simp add: with_bit_def)

lemma cell_ok_reads:
  assumes "cell_ok (bytes s) (q, n, al)"
  shows "get_size q s = n" "check_allocated q s = al" "load64 (bytes s) (q + n - 8) div 2 * 2 = n"
proof -
  have "even n" using assms by (auto simp: cell_ok_def elim: dvd_trans [rotated])
  then have "with_bit n al div 2 * 2 = n" "odd (with_bit n al) = al"
    by (auto simp: with_bit_even)
  with assms show "get_size q s = n" "check_allocated q s = al" "load64 (bytes s) (q + n - 8) div 2 * 2 = n"
    by (simp_all add: cell_ok_def get_size_def check_allocated_def)
qed

definition write_block :: "nat \<Rightarrow> nat \<Rightarrow> bool \<Rightarrow> heap_state \<Rightarrow> heap_state" where
  "write_block q n al s = set_footer q (set_header q n al s)"

lemma write_block_fields [simp]:
  "heap (write_block q n al s) = heap s" "mem_brk (write_block q n al s) = mem_brk s"
  "mem_max_addr (write_block q n al s) = mem_max_addr s" "last_node (write_block q n al s) = last_node s"
  by (simp_all add: write_block_def set_footer_def set_header_def)

lemma write_block_ok:
  assumes "16 \<le> n" "16 dvd n" "n < 2 ^ 63"
  shows "cell_ok (bytes (write_block q n al s)) (q, n, al)"
    "a < q \<or> q + n \<le> a \<Longrightarrow> bytes (write_block q n al s) a = bytes s a"
    "\<And>a. q + 8 \<le> a \<Longrightarrow> a < q + n - 8 \<Longrightarrow> bytes (write_block q n al s) a = bytes s a"
proof -
  let ?v = "with_bit n al" and ?s1 = "set_header q n al s"
  have ev: "even n" using assms(2) by (auto elim: dvd_trans [rotated])
  then have v: "?v < 256 ^ 8" "?v div 2 * 2 = n" "odd ?v = al"
    using assms(3) by (auto simp: with_bit_even)
  have h: "load64 (bytes ?s1) q = ?v" using v(1) by (simp add: set_header_def quad.load_same)
  then have g: "get_size q ?s1 = n" "check_allocated q ?s1 = al"
    using v by (simp_all add: get_size_def check_allocated_def)
  have b: "bytes (write_block q n al s) = store64 (store64 (bytes s) q ?v) (q + n - 8) ?v"
    by (simp add: write_block_def set_footer_def g) (simp add: set_header_def)
  have "load64 (store64 (store64 (bytes s) q ?v) (q + n - 8) ?v) q = ?v"
    using assms(1) v(1) by (subst quad.load_other) (auto simp: quad.load_same)
  then show "cell_ok (bytes (write_block q n al s)) (q, n, al)"
    using assms v(1) by (simp add: b cell_ok_def quad.load_same)
  show "a < q \<or> q + n \<le> a \<Longrightarrow> bytes (write_block q n al s) a = bytes s a"
    using assms(1) by (auto simp: b quad.store_elsewhere)
  show "\<And>a. q + 8 \<le> a \<Longrightarrow> a < q + n - 8 \<Longrightarrow> bytes (write_block q n al s) a = bytes s a"
    by (simp add: b quad.store_elsewhere)
qed

section \<open>Heaps\<close>

text \<open>
  The region lies below \<open>2 ^ 63\<close> and is not longer than its start address is large (the code maps
  100 MiB near \<open>0x800000000\<close>), so that no difference of an address and a size wraps around.
\<close>

definition heap_rep :: "heap_state \<Rightarrow> block list \<Rightarrow> bool" where
  "heap_rep s bs \<longleftrightarrow> 16 dvd heap s \<and> mem_brk s = first_block s + extent bs \<and>
     mem_brk s \<le> mem_max_addr s \<and> mem_max_addr s < 2 ^ 63 \<and> mem_max_addr s \<le> 2 * heap s \<and>
     cells_ok (bytes s) (first_block s) bs"

abbreviation layout :: "heap_state \<Rightarrow> block list \<Rightarrow> (nat \<times> nat \<times> bool) list" where
  "layout s bs \<equiv> placed (first_block s) bs"

lemma heap_rep_cell: "heap_rep s bs \<Longrightarrow> x \<in> set (layout s bs) \<Longrightarrow> cell_ok (bytes s) x"
  by (simp add: heap_rep_def cells_ok_def)

lemma first_block_cong [simp]:
  "first_block (s\<lparr>mem_brk := v\<rparr>) = first_block s" "first_block (s\<lparr>bytes := m\<rparr>) = first_block s"
  "first_block (s\<lparr>last_node := v\<rparr>) = first_block s" "first_block (write_block q n al s) = first_block s"
  by (simp_all add: first_block_def mem_heap_lo_def)

text \<open>Replacing a run of blocks by another run of the same length, written to the same place.\<close>

lemma heap_rep_replace:
  assumes "heap_rep s (xs @ ms @ ys)" "extent ms' = extent ms"
    "bytes s' = m'" "heap s' = heap s" "mem_brk s' = mem_brk s" "mem_max_addr s' = mem_max_addr s"
    "cells_ok m' (first_block s + extent xs) ms'"
    "\<And>a. a < first_block s + extent xs \<or> first_block s + extent xs + extent ms \<le> a \<Longrightarrow> m' a = bytes s a"
  shows "heap_rep s' (xs @ ms' @ ys)"
proof -
  have fb: "first_block s' = first_block s" using assms(4) by (simp add: first_block_def mem_heap_lo_def)
  have c: "cells_ok (bytes s) (first_block s) xs"
    "cells_ok (bytes s) (first_block s + extent xs + extent ms) ys"
    using assms(1) by (simp_all add: heap_rep_def cells_ok_append add.assoc)
  have "cells_ok m' (first_block s) xs" "cells_ok m' (first_block s + extent xs + extent ms) ys"
    using assms(8) by (auto intro: cells_ok_local [OF c(1)] cells_ok_local [OF c(2)])
  with assms fb show ?thesis
    by (simp add: heap_rep_def cells_ok_append add.assoc)
qed

lemma heap_rep_inside:
  assumes "heap_rep s bs" "(q, n, al) \<in> set (layout s bs)"
    "\<And>a. a < q + 8 \<or> q + n - 8 \<le> a \<Longrightarrow> m' a = bytes s a"
  shows "heap_rep (s\<lparr>bytes := m'\<rparr>) bs"
  using assms cells_ok_inside [OF _ assms(2), of "bytes s" m'] by (simp add: heap_rep_def)

lemma heap_rep_node: "heap_rep (s\<lparr>last_node := v\<rparr>) bs = heap_rep s bs"
  by (simp add: heap_rep_def)

end
