(* ===== verification/Malloc_Correct.thy ===== *)
theory Malloc_Correct
  imports Malloc_Blocks
begin

text \<open>
  Correctness of the allocator of \<open>project04-kweng/mm.c\<close> against lists of blocks: first fit and
  splitting, extension of the heap, coalescing; every sequence of allocations, writes to live
  payloads and releases of live blocks keeps the heap well-formed, live blocks apart and payloads
  aligned.  Two further theorems show where the code does not do what it means to.
\<close>

section \<open>Sizes\<close>

lemma block_size_ok:
  assumes "0 < req" "req + 31 < 2 ^ 64"
  shows "16 dvd block_size req" "req + 16 \<le> block_size req" "block_size req < req + 32" "32 \<le> block_size req"
proof -
  have "block_size req = (req + 31) div 16 * 16"
    using assms(2) by (simp add: block_size_def round_up_def header_bytes_def ALIGNMENT_def add.commute [of 16])
  moreover have "(req + 31) div 16 * 16 + (req + 31) mod 16 = req + 31" "(req + 31) mod 16 < 16"
    by simp_all
  ultimately show b: "16 dvd block_size req" "req + 16 \<le> block_size req" "block_size req < req + 32"
    by (simp, linarith+)
  from b(1) obtain k where "block_size req = 16 * k" by (auto elim: dvdE)
  with b(2) assms(1) show "32 \<le> block_size req" by simp
qed

section \<open>First fit\<close>

fun first_fit :: "nat \<Rightarrow> nat \<Rightarrow> block list \<Rightarrow> nat option" where
  "first_fit n p [] = None"
| "first_fit n p ((k, al) # bs) = (if n \<le> k \<and> \<not> al then Some p else first_fit n (p + k) bs)"

lemma first_fit_Some:
  "first_fit n p bs = Some q \<Longrightarrow> \<exists>xs k ys. bs = xs @ (k, False) # ys \<and> q = p + extent xs \<and> n \<le> k \<and>
     (\<forall>(j, al) \<in> set xs. al \<or> j < n)"
proof (induction n p bs rule: first_fit.induct)
  case (2 n p k al bs)
  show ?case
  proof (cases "n \<le> k \<and> \<not> al")
    case True
    with 2 show ?thesis by (intro exI [of _ "[]"] exI [of _ k] exI [of _ bs]) simp
  next
    case False
    with 2 obtain xs j ys where "bs = xs @ (j, False) # ys" "q = p + k + extent xs" "n \<le> j"
      "\<forall>(j, al) \<in> set xs. al \<or> j < n" by auto
    moreover have "al \<or> k < n" using False by auto
    ultimately show ?thesis
      by (intro exI [of _ "(k, al) # xs"] exI [of _ j] exI [of _ ys]) simp
  qed
qed simp

lemma find_fit_from_blocks:
  "cells_ok (bytes s) p bs \<Longrightarrow> mem_brk s = p + extent bs \<Longrightarrow> length bs < m \<Longrightarrow>
   find_fit_from m p n s = Inr (first_fit n p bs)"
proof (induction bs arbitrary: p m)
  case Nil
  have "\<not> p < p - 1" by simp
  with Nil show ?case by (cases m) (simp_all add: mem_heap_hi_def)
next
  case (Cons b bs)
  obtain k al where b: "b = (k, al)" by (cases b)
  obtain m' where m: "m = Suc m'" using Cons.prems(3) by (cases m) auto
  have ok: "cell_ok (bytes s) (p, k, al)" "cells_ok (bytes s) (p + k) bs"
    using Cons.prems(1) b by (simp_all add: cells_ok_Cons)
  have k: "16 \<le> k" using ok(1) by (simp add: cell_ok_def)
  have "find_fit_from m' (p + k) n s = Inr (first_fit n (p + k) bs)"
    using Cons.prems m b ok(2) by (intro Cons.IH) simp_all
  moreover have "p < mem_heap_hi s" using k b Cons.prems(2) by (simp add: mem_heap_hi_def)
  ultimately show ?case
    using m b by (simp add: cell_ok_reads [OF ok(1)])
qed

lemma length_le_extent: "cells_ok m p bs \<Longrightarrow> length bs \<le> extent bs"
proof (induction bs arbitrary: p)
  case (Cons b bs)
  obtain k al where b: "b = (k, al)" by (cases b)
  with Cons show ?case by (fastforce simp: cells_ok_Cons cell_ok_def)
qed simp

lemma find_fit_blocks: "heap_rep s bs \<Longrightarrow> find_fit n s = Inr (first_fit n (first_block s) bs)"
  unfolding find_fit_def
  by (rule find_fit_from_blocks) (auto simp: heap_rep_def dest!: length_le_extent)

section \<open>Splitting and extending\<close>

definition split_into :: "nat \<Rightarrow> nat \<Rightarrow> block list" where
  "split_into n k = (n, True) # (if n < k then [(k - n, False)] else [])"

lemma extent_split: "n \<le> k \<Longrightarrow> extent (split_into n k) = k"
  by (simp add: split_into_def)

lemma split_block_unfold:
  "n \<le> get_size q s \<Longrightarrow> split_block q n s = (q, if n < get_size q s
     then write_block (q + n) (get_size q s - n) False (write_block q n True s)
     else write_block q n True s)"
  using quad.load_range [of "bytes s" q]
  by (simp add: split_block_def write_block_def Let_def sub64_le get_size_def)

lemma split_block_rep:
  assumes "heap_rep s (xs @ (k, False) # ys)" "n \<le> k" "16 \<le> n" "16 dvd n"
  shows "\<exists>s'. split_block (first_block s + extent xs) n s = (first_block s + extent xs, s') \<and>
    heap_rep s' (xs @ split_into n k @ ys) \<and> first_block s' = first_block s \<and> last_node s' = last_node s \<and>
    (\<forall>a. a < first_block s + extent xs \<or> first_block s + extent xs + k \<le> a \<longrightarrow> bytes s' a = bytes s a)"
proof -
  let ?q = "first_block s + extent xs"
  have ok: "cell_ok (bytes s) (?q, k, False)"
    using assms(1) by (simp add: heap_rep_def cells_ok_append cells_ok_Cons)
  then have k: "get_size ?q s = k" "16 dvd k" "k < 2 ^ 63" by (auto simp: cell_ok_reads) (auto simp: cell_ok_def)
  define s1 where "s1 = write_block ?q n True s"
  define s2 where "s2 = (if n < k then write_block (?q + n) (k - n) False s1 else s1)"
  have n: "n < 2 ^ 63" using assms(2) k(3) by simp
  note w1 = write_block_ok [OF assms(3,4) n, where q = ?q and al = True and s = s, folded s1_def]
  have rest: "16 \<le> k - n" "16 dvd k - n" "k - n < 2 ^ 63" if "n < k"
    using that k assms(4) by (auto simp: dvd_diff_nat intro: dvd_imp_le)
  note w2 = write_block_ok [OF rest, where q = "?q + n" and al = False and s = s1]
  have out: "bytes s2 a = bytes s a" if "a < ?q \<or> ?q + k \<le> a" for a
    using that w1(2) w2(2) assms(2) by (auto simp: s2_def)
  have first: "cell_ok (bytes s2) (?q, n, True)"
  proof (cases "n < k")
    case True
    then show ?thesis
      using assms(3) by (auto simp: s2_def intro!: cell_ok_local [OF w1(1)] w2(2))
  qed (simp add: s2_def w1(1))
  then have "cells_ok (bytes s2) ?q (split_into n k)"
    using w2(1) by (auto simp: split_into_def cells_ok_Cons s2_def)
  moreover have "heap_rep s (xs @ [(k, False)] @ ys)" "extent (split_into n k) = extent [(k, False)]"
    using assms(1,2) by (simp_all add: extent_split)
  moreover have "heap s2 = heap s" "mem_brk s2 = mem_brk s" "mem_max_addr s2 = mem_max_addr s"
    by (simp_all add: s2_def s1_def)
  ultimately have "heap_rep s2 (xs @ split_into n k @ ys)"
    using out heap_rep_replace [of s xs "[(k, False)]" ys "split_into n k" s2 "bytes s2"] by simp
  moreover have "split_block ?q n s = (?q, s2)"
    using assms(2) by (simp add: split_block_unfold k(1) s2_def s1_def)
  moreover have "first_block s2 = first_block s" "last_node s2 = last_node s"
    by (simp_all add: s2_def s1_def)
  ultimately show ?thesis using out by blast
qed

lemma extend_rep:
  assumes "heap_rep s bs" "mem_sbrk n s = (Some b, s1)" "16 \<le> n" "16 dvd n"
  shows "b = first_block s + extent bs" "heap_rep (write_block b n True s1) (bs @ [(n, True)])"
    "a < b \<Longrightarrow> bytes (write_block b n True s1) a = bytes s a"
    "first_block (write_block b n True s1) = first_block s" "last_node (write_block b n True s1) = last_node s"
proof -
  have s1: "s1 = s\<lparr>mem_brk := mem_brk s + n\<rparr>" "b = mem_brk s" "n < 2 ^ 63" "mem_brk s + n \<le> mem_max_addr s"
    using assms(2) by (auto simp: mem_sbrk_def split: if_splits)
  note w = write_block_ok [OF assms(3,4) s1(3), where q = b and al = True and s = s1]
  show b: "b = first_block s + extent bs" using assms(1) s1(2) by (simp add: heap_rep_def)
  show old: "bytes (write_block b n True s1) a = bytes s a" if "a < b" for a using w(2) that s1(1) by simp
  have "cells_ok (bytes (write_block b n True s1)) (first_block s) bs"
    by (rule cells_ok_local [of "bytes s"]) (use assms(1) old b in \<open>simp_all only: heap_rep_def\<close>)
  with assms(1) s1 b w(1) show "heap_rep (write_block b n True s1) (bs @ [(n, True)])"
    by (simp add: heap_rep_def cells_ok_append cells_ok_Cons)
  show "first_block (write_block b n True s1) = first_block s" "last_node (write_block b n True s1) = last_node s"
    by (simp_all add: s1(1))
qed

section \<open>Allocation\<close>

text \<open>
  The last node that was freed is the payload of a block that has room for its links.  On an empty heap
  the node may also be left from an earlier use of the region, at the place of the first payload:
  \<open>mm_init\<close> does not reset \<open>last_node\<close>.
\<close>

definition node_ok :: "heap_state \<Rightarrow> block list \<Rightarrow> bool" where
  "node_ok s bs \<longleftrightarrow> last_node s = 0 \<or> bs = [] \<and> last_node s = first_block s + 8 \<or>
     (\<exists>q n al. last_node s = q + 8 \<and> (q, n, al) \<in> set (layout s bs) \<and> 32 \<le> n)"

definition heap_inv :: "heap_state \<Rightarrow> block list \<Rightarrow> bool" where
  "heap_inv s bs \<longleftrightarrow> heap_rep s bs \<and> node_ok s bs"

text \<open>What allocation does to the list of blocks: a free block is split, or a block is appended.\<close>

definition allocated_from :: "block list \<Rightarrow> nat \<Rightarrow> block list \<Rightarrow> block list \<Rightarrow> bool" where
  "allocated_from bs n xs ys \<longleftrightarrow>
     (\<exists>k zs. bs = xs @ (k, False) # zs \<and> n \<le> k \<and> ys = (if n < k then [(k - n, False)] else []) @ zs) \<or>
     (bs = xs \<and> ys = [])"

definition keeps_live :: "heap_state \<Rightarrow> block list \<Rightarrow> heap_state \<Rightarrow> bool" where
  "keeps_live s bs s' \<longleftrightarrow> (\<forall>q n a. (q, n, True) \<in> set (layout s bs) \<longrightarrow> q \<le> a \<longrightarrow> a < q + n \<longrightarrow>
     bytes s' a = bytes s a)"

lemma node_ok_split:
  assumes "node_ok s (xs @ (k, False) # ys)" "first_block s' = first_block s" "last_node s' = last_node s" "32 \<le> n" "n \<le> k"
  shows "node_ok s' (xs @ split_into n k @ ys)"
  using assms unfolding node_ok_def
proof (elim disjE exE conjE, goal_cases)
  case (3 q j al)
  then consider "(q, j, al) \<in> set (layout s xs)" | "q = first_block s + extent xs"
    | "(q, j, al) \<in> set (placed (first_block s + extent xs + k) ys)"
    by (auto simp: placed_append)
  then show ?case
  proof cases
    case 2
    then have "(q, n, True) \<in> set (layout s' (xs @ split_into n k @ ys))"
      using assms(2) by (simp add: placed_append split_into_def)
    then show ?thesis using \<open>last_node s = q + 8\<close> assms(3,4) by metis
  next
    case 3
    then have "(q, j, al) \<in> set (layout s' (xs @ split_into n k @ ys))"
      using assms(2,5) by (simp add: placed_append extent_split add.assoc)
    then show ?thesis using \<open>last_node s = q + 8\<close> \<open>32 \<le> j\<close> assms(3) by metis
  qed (use 3 in \<open>auto simp: placed_append\<close>)
qed simp_all

text \<open>Without a fit the heap is extended; otherwise the first fit is split.\<close>

lemma malloc_extends:
  assumes "heap_inv s bs" "0 < req" "req + 31 < 2 ^ 64" "first_fit (block_size req) (first_block s) bs = None"
    "mem_sbrk (block_size req) s = (Some b, s1)"
  shows "\<exists>s'. mm_malloc req s = Inr (first_block s + extent bs + 8, s') \<and>
      heap_inv s' (bs @ (block_size req, True) # []) \<and>
      first_block s' = first_block s \<and> keeps_live s bs s'"
proof -
  let ?n = "block_size req"
  note n = block_size_ok [OF assms(2,3)]
  have rep: "heap_rep s bs" and node: "node_ok s bs" using assms(1) by (simp_all add: heap_inv_def)
  have n16: "16 \<le> ?n" using n(4) by simp
  note e = extend_rep [OF rep assms(5) n16 n(1)]
  have "node_ok (write_block b ?n True s1) (bs @ [(?n, True)])"
    using node e(4,5) n(4) unfolding node_ok_def by (auto simp: placed_append)
  with e(2) have "heap_inv (write_block b ?n True s1) (bs @ (?n, True) # [])"
    by (simp add: heap_inv_def)
  moreover have "mm_malloc req s = Inr (first_block s + extent bs + 8, write_block b ?n True s1)"
    using assms(4,5) e(1)
    by (simp add: mm_malloc_def Let_def find_fit_blocks [OF rep] write_block_def header_bytes_def)
  moreover have "keeps_live s bs (write_block b ?n True s1)"
    unfolding keeps_live_def using placed_range [of _ _ _ "first_block s" bs] e(1,3)
    by (meson dual_order.strict_trans1)
  ultimately show ?thesis using e(4) by blast
qed

lemma malloc_fits:
  assumes "heap_inv s bs" "0 < req" "req + 31 < 2 ^ 64" "first_fit (block_size req) (first_block s) bs = Some q"
  shows "\<exists>xs k ys s'. bs = xs @ (k, False) # ys \<and> q = first_block s + extent xs \<and> block_size req \<le> k \<and>
      (\<forall>(j, al) \<in> set xs. al \<or> j < block_size req) \<and> mm_malloc req s = Inr (q + 8, s') \<and> heap_inv s' (xs @ split_into (block_size req) k @ ys) \<and>
      first_block s' = first_block s \<and> keeps_live s bs s'"
proof -
  let ?n = "block_size req"
  note n = block_size_ok [OF assms(2,3)]
  have rep: "heap_rep s bs" and node: "node_ok s bs" using assms(1) by (simp_all add: heap_inv_def)
  from first_fit_Some [OF assms(4)] obtain xs k ys where
    bs: "bs = xs @ (k, False) # ys" and q: "q = first_block s + extent xs" and k: "?n \<le> k"
    and before: "\<forall>(j, al) \<in> set xs. al \<or> j < ?n" by blast
  have rep': "heap_rep s (xs @ (k, False) # ys)" using rep bs by simp
  from split_block_rep [OF rep' k _ n(1)] n(4) obtain s' where
    s': "split_block q ?n s = (q, s')" "heap_rep s' (xs @ split_into ?n k @ ys)"
      "first_block s' = first_block s" "last_node s' = last_node s"
      "\<And>a. a < q \<or> q + k \<le> a \<Longrightarrow> bytes s' a = bytes s a"
    using q by auto
  have "node_ok s' (xs @ split_into ?n k @ ys)"
    using node bs s'(3,4) n(4) k by (intro node_ok_split [of s]) simp_all
  with s'(2) have "heap_inv s' (xs @ split_into ?n k @ ys)"
    by (simp add: heap_inv_def)
  moreover have "mm_malloc req s = Inr (q + 8, s')"
    using assms(4) s'(1) q by (simp add: mm_malloc_def Let_def find_fit_blocks [OF rep] header_bytes_def)
  moreover have "keeps_live s bs s'"
    unfolding keeps_live_def
  proof (intro allI impI)
    fix p j a assume that: "(p, j, True) \<in> set (layout s bs)" "p \<le> a" "a < p + j"
    have "(p, j, True) \<in> set (layout s xs) \<or> (p, j, True) \<in> set (placed (q + k) ys)"
      using that(1) bs q by (auto simp: placed_append)
    then have "a < q \<or> q + k \<le> a" using placed_range that(2,3) q by fastforce
    then show "bytes s' a = bytes s a" by (rule s'(5))
  qed
  ultimately show ?thesis
    using s'(3) bs q k before by blast
qed

lemma malloc_alloc:
  assumes "heap_inv s bs" "0 < req" "req + 31 < 2 ^ 64"
  shows "(\<exists>xs ys s'. mm_malloc req s = Inr (first_block s + extent xs + 8, s') \<and>
      allocated_from bs (block_size req) xs ys \<and> heap_inv s' (xs @ (block_size req, True) # ys) \<and>
      first_block s' = first_block s \<and>
      keeps_live s bs s') \<or>
    mm_malloc req s = Inr (0, s) \<and> mem_max_addr s < mem_brk s + block_size req \<and>
      first_fit (block_size req) (first_block s) bs = None"
proof (cases "first_fit (block_size req) (first_block s) bs")
  case None
  note n = block_size_ok [OF assms(2,3)]
  have rep: "heap_rep s bs" using assms(1) by (simp add: heap_inv_def)
  obtain r s1 where sb: "mem_sbrk (block_size req) s = (r, s1)" by (cases "mem_sbrk (block_size req) s")
  show ?thesis
  proof (cases r)
    case (Some b)
    have "allocated_from bs (block_size req) bs []" by (simp add: allocated_from_def)
    with Some sb show ?thesis using malloc_extends [OF assms None] by blast
  next
    case None
    with sb have "s1 = s" "mem_max_addr s < mem_brk s + block_size req"
      using n(3) assms(3) rep by (auto simp: mem_sbrk_def heap_rep_def split: if_splits)
    with sb None \<open>first_fit (block_size req) (first_block s) bs = None\<close> show ?thesis
      by (simp add: mm_malloc_def Let_def find_fit_blocks [OF rep])
  qed
next
  case (Some q)
  from malloc_fits [OF assms this] obtain xs k ys s' where bs: "bs = xs @ (k, False) # ys" "q = first_block s + extent xs"
    "block_size req \<le> k" and s': "mm_malloc req s = Inr (q + 8, s')" "heap_inv s' (xs @ split_into (block_size req) k @ ys)"
    "first_block s' = first_block s" "keeps_live s bs s'"
    by blast
  let ?ys = "(if block_size req < k then [(k - block_size req, False)] else []) @ ys"
  have "allocated_from bs (block_size req) xs ?ys" using bs by (auto simp: allocated_from_def)
  moreover have "heap_inv s' (xs @ (block_size req, True) # ?ys)" using s'(2) by (simp add: split_into_def)
  ultimately show ?thesis using s'(1,3,4) bs(2) by blast
qed

section \<open>Coalescing\<close>

text \<open>
  What \<open>coalesce\<close> does to the list: it merges a free successor, and a free predecessor when the
  block is not larger than everything before it (the source compares with the size of the block
  itself, not with that of the predecessor).
\<close>

definition next_free :: "block list \<Rightarrow> bool" where
  "next_free ys \<longleftrightarrow> ys \<noteq> [] \<and> \<not> snd (hd ys)"

definition prev_free :: "block list \<Rightarrow> nat \<Rightarrow> bool" where
  "prev_free xs n \<longleftrightarrow> n < extent xs \<and> \<not> snd (last xs)"

definition merged :: "block list \<Rightarrow> nat \<Rightarrow> block list \<Rightarrow> block list \<times> nat \<times> block list" where
  "merged xs n ys =
     (if prev_free xs n then butlast xs else xs,
      (if prev_free xs n then fst (last xs) else 0) + n + (if next_free ys then fst (hd ys) else 0),
      if next_free ys then tl ys else ys)"

lemma prev_free_Nil: "prev_free xs n \<Longrightarrow> xs \<noteq> []"
  by (auto simp: prev_free_def)

lemma extent_butlast: "xs \<noteq> [] \<Longrightarrow> extent xs = extent (butlast xs) + fst (last xs)"
  by (induction xs) auto

lemma next_block_rep:
  assumes "heap_rep s (xs @ (n, al) # ys)"
  shows "next_block (first_block s + extent xs) s =
    (if ys = [] then None else Some (first_block s + extent xs + n))"
    "ys \<noteq> [] \<Longrightarrow> check_allocated (first_block s + extent xs + n) s = snd (hd ys)"
    "ys \<noteq> [] \<Longrightarrow> get_size (first_block s + extent xs + n) s = fst (hd ys)"
proof -
  let ?q = "first_block s + extent xs"
  have ok: "cell_ok (bytes s) (?q, n, al)" "cells_ok (bytes s) (?q + n) ys"
    using assms by (simp_all add: heap_rep_def cells_ok_append cells_ok_Cons)
  have brk: "mem_brk s = ?q + n + extent ys" using assms by (simp add: heap_rep_def)
  have g: "get_size ?q s = n" by (rule cell_ok_reads [OF ok(1)])
  have c: "cell_ok (bytes s) (?q + n, fst (hd ys), snd (hd ys))" "16 \<le> extent ys" if "ys \<noteq> []"
    using ok(2) that by (cases ys; fastforce simp: cells_ok_Cons cell_ok_def)+
  show "next_block ?q s = (if ys = [] then None else Some (?q + n))"
  proof (cases "ys = []")
    case False
    then have "\<not> mem_brk s - 1 \<le> ?q + n" using c(2) brk by linarith
    with False g show ?thesis by (simp add: next_block_def mem_heap_hi_def)
  qed (use brk g in \<open>simp add: next_block_def mem_heap_hi_def\<close>)
  show "ys \<noteq> [] \<Longrightarrow> check_allocated (?q + n) s = snd (hd ys)" "ys \<noteq> [] \<Longrightarrow> get_size (?q + n) s = fst (hd ys)"
    using cell_ok_reads [OF c(1)] by simp_all
qed

lemma prev_block_rep:
  assumes "heap_rep s (xs @ (n, al) # ys)"
  shows "prev_block (first_block s + extent xs) s =
    (if n < extent xs then Some (first_block s + extent (butlast xs)) else None)"
    "xs \<noteq> [] \<Longrightarrow> check_allocated (first_block s + extent (butlast xs)) s = snd (last xs)"
    "xs \<noteq> [] \<Longrightarrow> get_size (first_block s + extent (butlast xs)) s = fst (last xs)"
proof -
  let ?q = "first_block s + extent xs" and ?p = "first_block s + extent (butlast xs)"
  have ok: "cell_ok (bytes s) (?q, n, al)"
    using assms by (simp add: heap_rep_def cells_ok_append cells_ok_Cons)
  have g: "get_size ?q s = n" by (rule cell_ok_reads [OF ok])
  have xs: "xs = butlast xs @ [(fst (last xs), snd (last xs))]" "extent xs = extent (butlast xs) + fst (last xs)"
    if "xs \<noteq> []"
    using that by (simp_all add: extent_butlast)
  have c: "cell_ok (bytes s) (?p, fst (last xs), snd (last xs))" if "xs \<noteq> []"
  proof -
    have "cells_ok (bytes s) (first_block s) xs"
      using assms by (simp add: heap_rep_def cells_ok_append)
    then have "cells_ok (bytes s) (first_block s) (butlast xs @ [(fst (last xs), snd (last xs))])"
      using xs(1) [OF that] by metis
    then show ?thesis unfolding cells_ok_append cells_ok_Cons by blast
  qed
  show "xs \<noteq> [] \<Longrightarrow> check_allocated ?p s = snd (last xs)" "xs \<noteq> [] \<Longrightarrow> get_size ?p s = fst (last xs)"
    using cell_ok_reads [OF c] by simp_all
  have "load64 (bytes s) (?q - 8) div 2 * 2 = fst (last xs)" if "xs \<noteq> []"
    using cell_ok_reads(3) [OF c [OF that]] xs(2) [OF that] by (simp add: add.assoc)
  moreover have q: "?q < 2 ^ 64" "n \<le> ?q" "sub64 ?q n = ?q - n"
    using assms by (auto simp: heap_rep_def first_block_def mem_heap_lo_def ALIGNMENT_def header_bytes_def sub64_le)
  ultimately have "sub64 ?q (load64 (bytes s) (?q - 8) div 2 * 2) = ?p" if "xs \<noteq> []"
    using that xs(2) [OF that] by (simp add: sub64_le)
  moreover have "?q - n \<le> first_block s \<longleftrightarrow> \<not> n < extent xs" using q(2) by linarith
  ultimately show "prev_block ?q s = (if n < extent xs then Some ?p else None)"
    unfolding prev_block_def g q(3) by (cases "xs = []") auto
qed

lemma coalesce_unfold:
  assumes "heap_rep s (xs @ (n, al) # ys)" "merged xs n ys = (us, k, vs)"
  shows "coalesce (first_block s + extent xs) s =
    (first_block s + extent us, write_block (first_block s + extent us) k False s)"
proof -
  have "cell_ok (bytes s) (first_block s + extent xs, n, al)"
    using assms(1) by (simp add: heap_rep_def cells_ok_append cells_ok_Cons)
  then have g: "get_size (first_block s + extent xs) s = n" by (rule cell_ok_reads)
  have m: "us = fst (merged xs n ys)" "k = fst (snd (merged xs n ys))" using assms(2) by simp_all
  have x: "xs \<noteq> []" if "n < extent xs" using that by auto
  note nb = next_block_rep [OF assms(1)] and pb = prev_block_rep [OF assms(1)]
  show ?thesis
    unfolding m
    by (cases "ys = []"; cases "n < extent xs")
      (simp_all add: coalesce_def Let_def merge_def write_block_def merged_def next_free_def
        prev_free_def nb nb [unfolded add.assoc] pb x g add.assoc)
qed

text \<open>The merged block covers the run of blocks it replaces.\<close>

lemma merged_run:
  assumes "merged xs n ys = (us, k, vs)"
  obtains ms where "xs @ (n, al) # ys = us @ ms @ vs" "extent ms = k" "n \<le> k"
    "\<And>p q j. (q, j, True) \<in> set (placed (p + extent us) ms) \<Longrightarrow> q = p + extent xs"
proof
  let ?ms = "(if prev_free xs n then [last xs] else []) @ (n, al) # (if next_free ys then [hd ys] else [])"
  have xs: "prev_free xs n \<Longrightarrow> butlast xs @ [last xs] = xs"
    and e: "prev_free xs n \<Longrightarrow> extent xs = extent (butlast xs) + fst (last xs)"
    by (simp_all add: prev_free_Nil extent_butlast)
  have ys: "next_free ys \<Longrightarrow> hd ys # tl ys = ys" by (simp add: next_free_def)
  have m: "us = (if prev_free xs n then butlast xs else xs)" "vs = (if next_free ys then tl ys else ys)"
    "k = (if prev_free xs n then fst (last xs) else 0) + n + (if next_free ys then fst (hd ys) else 0)"
    using assms by (auto simp: merged_def)
  have "xs = us @ (if prev_free xs n then [last xs] else [])" using xs m(1) by simp
  moreover have "ys = (if next_free ys then [hd ys] else []) @ vs" using ys m(2) by simp
  ultimately show "xs @ (n, al) # ys = us @ ?ms @ vs"
    by (metis append.assoc append_Cons)
  show "extent ?ms = k" "n \<le> k" unfolding m by simp_all
  show "q = p + extent xs" if "(q, j, True) \<in> set (placed (p + extent us) ?ms)" for p q j
    using that e unfolding m
    by (cases "last xs"; cases "hd ys") (auto simp: prev_free_def next_free_def split: if_splits)
qed

lemma cells_ok_dvd: "cells_ok m p bs \<Longrightarrow> 16 dvd extent bs"
proof (induction bs arbitrary: p)
  case (Cons b bs)
  then show ?case by (cases b) (auto simp: cells_ok_Cons cell_ok_def)
qed simp

lemma coalesce_rep:
  assumes "heap_rep s (xs @ (n, True) # ys)" "merged xs n ys = (us, k, vs)"
  obtains s1 where "coalesce (first_block s + extent xs) s = (first_block s + extent us, s1)"
    "heap_rep s1 (us @ (k, False) # vs)" "first_block s1 = first_block s" "last_node s1 = last_node s" "n \<le> k"
    "\<And>q j b. (q, j, b) \<in> set (layout s (xs @ (n, True) # ys)) \<Longrightarrow>
       (q, j, b) \<in> set (layout s (us @ (k, False) # vs)) \<and> (\<forall>a. q \<le> a \<longrightarrow> a < q + j \<longrightarrow> bytes s1 a = bytes s a) \<or>
       first_block s + extent us \<le> q \<and> q + j \<le> first_block s + extent us + k \<and> (b \<longrightarrow> q = first_block s + extent xs)"
proof -
  let ?p = "first_block s + extent us"
  define s1 where "s1 = write_block ?p k False s"
  from merged_run [OF assms(2), of True] obtain ms where ms: "xs @ (n, True) # ys = us @ ms @ vs"
    "extent ms = k" "n \<le> k" "\<And>p q j. (q, j, True) \<in> set (placed (p + extent us) ms) \<Longrightarrow> q = p + extent xs"
    by metis
  have rep: "heap_rep s (us @ ms @ vs)" using assms(1) ms(1) by simp
  then have cm: "cells_ok (bytes s) ?p ms" "mem_brk s = ?p + k + extent vs" "mem_brk s < 2 ^ 63"
    using ms(2) by (simp_all add: heap_rep_def cells_ok_append)
  have "16 dvd extent ms" using cm(1) by (rule cells_ok_dvd)
  moreover have "16 \<le> n"
    using assms(1) by (simp add: heap_rep_def cells_ok_append cells_ok_Cons cell_ok_def)
  ultimately have k: "16 dvd k" "16 \<le> k" "k < 2 ^ 63" using ms(2,3) cm(2,3) by simp_all
  note w = write_block_ok [OF k(2,1,3), where q = ?p and al = False and s = s, folded s1_def]
  have "heap_rep s1 (us @ [(k, False)] @ vs)"
    by (rule heap_rep_replace [OF rep, where m' = "bytes s1"])
      (use ms(2) w(1,2) in \<open>simp_all add: cells_ok_Cons s1_def add.assoc\<close>)
  moreover have "(q, j, b) \<in> set (layout s (us @ (k, False) # vs)) \<and> (\<forall>a. q \<le> a \<longrightarrow> a < q + j \<longrightarrow> bytes s1 a = bytes s a) \<or>
       ?p \<le> q \<and> q + j \<le> ?p + k \<and> (b \<longrightarrow> q = first_block s + extent xs)"
    if h: "(q, j, b) \<in> set (layout s (xs @ (n, True) # ys))" for q j b
  proof -
    consider "(q, j, b) \<in> set (layout s us)" | "(q, j, b) \<in> set (placed ?p ms)"
      | "(q, j, b) \<in> set (placed (?p + k) vs)"
      using h [unfolded ms(1)] ms(2) by (auto simp: placed_append add.assoc)
    then show ?thesis
    proof cases
      case 1
      with placed_range [OF 1] show ?thesis by (auto simp: placed_append intro!: w(2))
    next
      case 2
      with placed_range [OF 2] ms(2,4) show ?thesis by (cases b) auto
    next
      case 3
      with placed_range [OF 3] show ?thesis by (auto simp: placed_append intro!: w(2))
    qed
  qed
  ultimately show thesis
    using coalesce_unfold [OF assms] ms(3) by (intro that [of s1]) (simp_all add: s1_def)
qed

section \<open>Release\<close>

text \<open>The writes of \<open>link_node\<close>: the links of the freed block, and the link of the previous node.\<close>

lemma store64_outside: "a < w \<or> w + 8 \<le> a \<Longrightarrow> store64 m w v a = m a"
  by (rule quad.store_elsewhere) auto

definition link_cells :: "nat \<Rightarrow> nat \<Rightarrow> nat set" where
  "link_cells node prior = {node..<node + 16} \<union> (if prior = 0 then {} else {prior + 8..<prior + 16})"

lemma link_node_bytes:
  "a \<notin> link_cells node (last_node s) \<Longrightarrow> bytes (link_node node s) a = bytes s a"
  by (auto simp: link_node_def Let_def set_prev_def set_next_def link_cells_def store64_outside)

lemma link_node_fields [simp]:
  "heap (link_node node s) = heap s" "mem_brk (link_node node s) = mem_brk s"
  "mem_max_addr (link_node node s) = mem_max_addr s" "last_node (link_node node s) = node"
  "first_block (link_node node s) = first_block s"
  by (simp_all add: link_node_def Let_def set_prev_def set_next_def first_block_def mem_heap_lo_def)

text \<open>Bytes strictly inside the blocks of a list, away from headers and footers.\<close>

definition interior :: "nat \<Rightarrow> block list \<Rightarrow> nat \<Rightarrow> bool" where
  "interior p bs a \<longleftrightarrow> (\<exists>q n al. (q, n, al) \<in> set (placed p bs) \<and> q + 8 \<le> a \<and> a < q + n - 8)"

lemma cells_ok_interior:
  assumes "cells_ok m p bs" "\<And>a. \<not> interior p bs a \<Longrightarrow> m' a = m a"
  shows "cells_ok m' p bs"
  unfolding cells_ok_def
proof
  fix x assume x: "x \<in> set (placed p bs)"
  obtain q n al where e: "x = (q, n, al)" by (cases x)
  have ok: "cell_ok m (q, n, al)" "16 \<le> n" using assms(1) x e by (auto simp: cells_ok_def cell_ok_def)
  have "\<not> interior p bs a" if "q \<le> a \<and> a < q + 8 \<or> q + n - 8 \<le> a \<and> a < q + n" for a
  proof
    assume "interior p bs a"
    then obtain q' n' al' where i: "(q', n', al') \<in> set (placed p bs)" "q' + 8 \<le> a" "a < q' + n' - 8"
      by (auto simp: interior_def)
    have "16 \<le> n'" using assms(1) i(1) by (auto simp: cells_ok_def cell_ok_def)
    consider "q < q'" | "q' < q" | "q' = q" by linarith
    then show False
    proof cases
      case 1
      then have "q + n \<le> q'" using placed_disjoint x e i(1) by blast
      with i that ok(2) show False by linarith
    next
      case 2
      then have "q' + n' \<le> q" using placed_disjoint x e i(1) by blast
      with i that ok(2) show False by linarith
    next
      case 3
      then have "n' = n" using placed_same [of q n al p bs n' al'] x e i(1) ok(2) \<open>16 \<le> n'\<close> by simp
      with 3 i that show False by linarith
    qed
  qed
  then show "cell_ok m' x"
    unfolding e using ok(2) by (intro cell_ok_local [OF ok(1)] assms(2)) auto
qed

text \<open>
  Releasing a live block: the block becomes free and is merged with its free neighbours, and the
  bytes of all other live blocks stay as they are, except for the link that is written into the node
  freed last.
\<close>

text \<open>The node freed last lies inside a block also after the merge, and so do the cells that linking the new node writes.\<close>

lemma link_cells_inside:
  assumes inb: "(p, k, False) \<in> set (placed base bs')" "32 \<le> k" and node: "node_ok s bs" "base = first_block s" "bs \<noteq> []"
    and moves: "\<And>q j b. (q, j, b) \<in> set (layout s bs) \<Longrightarrow> (q, j, b) \<in> set (placed base bs') \<or> p \<le> q \<and> q + j \<le> p + k"
    and a: "a \<in> link_cells (p + 8) (last_node s)"
  shows "interior base bs' a"
proof (cases "p + 8 \<le> a \<and> a < p + 24")
  case True
  then have "p + 8 \<le> a" "a < p + k - 8" using inb(2) by linarith+
  with inb(1) show ?thesis unfolding interior_def by blast
next
  case False
  then have h: "last_node s \<noteq> 0" "last_node s + 8 \<le> a" "a < last_node s + 16"
    using a by (auto simp: link_cells_def split: if_splits)
  obtain q j b where l: "last_node s = q + 8" "(q, j, b) \<in> set (layout s bs)" "32 \<le> j"
    using node(1,3) h(1) by (auto simp: node_ok_def)
  from moves [OF l(2)] show ?thesis
  proof
    assume "p \<le> q \<and> q + j \<le> p + k"
    with l h have "p + 8 \<le> a" "a < p + k - 8" by linarith+
    with inb(1) show ?thesis unfolding interior_def by blast
  next
    assume "(q, j, b) \<in> set (placed base bs')"
    then show ?thesis unfolding interior_def using l h by force
  qed
qed

lemma free_rep:
  assumes inv: "heap_inv s (xs @ (n, True) # ys)" and n: "32 \<le> n" and m: "merged xs n ys = (us, k, vs)"
  obtains s' where "mm_free (first_block s + extent xs + 8) s = Inr s'" "heap_inv s' (us @ (k, False) # vs)"
    "first_block s' = first_block s" "last_node s' = first_block s + extent us + 8"
    "\<And>q j a. (q, j, True) \<in> set (layout s (xs @ (n, True) # ys)) \<Longrightarrow> q \<noteq> first_block s + extent xs \<Longrightarrow>
       q \<le> a \<Longrightarrow> a < q + j \<Longrightarrow> a \<notin> {last_node s + 8..<last_node s + 16} \<Longrightarrow> bytes s' a = bytes s a"
    "last_node s \<noteq> 0 \<Longrightarrow> last_node s < first_block s + extent us \<or> first_block s + extent us + k \<le> last_node s \<Longrightarrow>
       load64 (bytes s') (last_node s + 8) = first_block s + extent us + 8"
    "\<And>q j. (q, j, True) \<in> set (layout s (xs @ (n, True) # ys)) \<Longrightarrow> q \<noteq> first_block s + extent xs \<Longrightarrow>
       (q, j, True) \<in> set (layout s (us @ (k, False) # vs))"
proof -
  let ?p = "first_block s + extent us" and ?bs = "xs @ (n, True) # ys" and ?bs' = "us @ (k, False) # vs"
  have rep: "heap_rep s ?bs" and node: "node_ok s ?bs" using inv by (simp_all add: heap_inv_def)
  from coalesce_rep [OF rep m] obtain s1 where c: "coalesce (first_block s + extent xs) s = (?p, s1)"
    "heap_rep s1 ?bs'" "first_block s1 = first_block s" "last_node s1 = last_node s" "n \<le> k"
    and moves: "\<And>q j b. (q, j, b) \<in> set (layout s ?bs) \<Longrightarrow>
       (q, j, b) \<in> set (layout s ?bs') \<and> (\<forall>a. q \<le> a \<longrightarrow> a < q + j \<longrightarrow> bytes s1 a = bytes s a) \<or>
       ?p \<le> q \<and> q + j \<le> ?p + k \<and> (b \<longrightarrow> q = first_block s + extent xs)" by metis
  define s' where "s' = link_node (?p + 8) s1"
  have inb: "(?p, k, False) \<in> set (layout s ?bs')" by (simp add: placed_append)
  have int: "interior (first_block s) ?bs' a" if "a \<in> link_cells (?p + 8) (last_node s)" for a
    using that n c(5) by (intro link_cells_inside [OF inb _ node refl]) (use moves in auto)
  have fb: "first_block s' = first_block s" using c(3) by (simp add: s'_def)
  have "cells_ok (bytes s') (first_block s) ?bs'"
  proof (rule cells_ok_interior)
    show "cells_ok (bytes s1) (first_block s) ?bs'" using c(2,3) by (simp add: heap_rep_def)
    show "bytes s' a = bytes s1 a" if "\<not> interior (first_block s) ?bs' a" for a
      using that int c(4) unfolding s'_def by (intro link_node_bytes) auto
  qed
  then have "heap_rep s' ?bs'" using c(2,3) fb by (simp add: heap_rep_def) (simp add: s'_def)
  moreover have "node_ok s' ?bs'"
    using inb fb n c(5) unfolding node_ok_def by (auto simp: s'_def)
  moreover have "\<not> check_allocated ?p s1"
    using heap_rep_cell [OF c(2), of "(?p, k, False)"] inb c(3) by (simp add: cell_ok_reads)
  moreover have "first_block s + extent xs + 8 \<noteq> 0" by simp
  ultimately have "mm_free (first_block s + extent xs + 8) s = Inr s'" "heap_inv s' ?bs'"
    using c(1) by (simp_all add: mm_free_def header_bytes_def s'_def heap_inv_def)
  moreover have "bytes s' a = bytes s a"
    if "(q, j, True) \<in> set (layout s ?bs)" "q \<noteq> first_block s + extent xs" "q \<le> a" "a < q + j"
      "a \<notin> {last_node s + 8..<last_node s + 16}" for q j a
  proof -
    have "(q, j, True) \<in> set (layout s ?bs')" "bytes s1 a = bytes s a"
      using moves [OF that(1)] that by auto
    moreover have "q + j \<le> ?p \<or> ?p + k \<le> q"
    proof -
      have "0 < k" "0 < j"
        using heap_rep_cell [OF c(2), of "(?p, k, False)"] heap_rep_cell [OF c(2), of "(q, j, True)"]
          inb calculation(1) c(3) by (simp_all add: cell_ok_def)
      then show ?thesis using calculation(1) inb by (intro placed_apart [of q j True _ _ ?p k False]) simp_all
    qed
    ultimately have "a \<notin> link_cells (?p + 8) (last_node s1)" "bytes s1 a = bytes s a"
      using that n c(4,5) by (auto simp: link_cells_def split: if_splits)
    then show ?thesis by (simp add: s'_def link_node_bytes)
  qed
  moreover have "load64 (bytes s') (last_node s + 8) = ?p + 8"
    if l: "last_node s \<noteq> 0" "last_node s < ?p \<or> ?p + k \<le> last_node s"
  proof -
    obtain q j b where q: "last_node s = q + 8" "(q, j, b) \<in> set (layout s ?bs)" "32 \<le> j"
      using node l(1) by (auto simp: node_ok_def)
    have "q + j \<le> ?p" if "q + 8 < ?p"
      using moves [OF q(2)] placed_disjoint [OF _ inb, of q j b] that by auto
    then have "last_node s + 16 \<le> ?p + 8 \<or> ?p + 8 + 8 \<le> last_node s + 8"
      using l(2) q(1,3) n c(5) by auto
    then have "load64 (store64 m (?p + 8) v) (last_node s + 8) = load64 m (last_node s + 8)" for m v
      by (intro quad.load_other) auto
    moreover have "?p + 8 < 256 ^ 8"
      using c(2,3) by (simp add: heap_rep_def)
    ultimately show ?thesis
      using l(1) c(4) unfolding s'_def link_node_def
      by (simp add: Let_def set_prev_def set_next_def quad.load_same)
  qed
  moreover have "(q, j, True) \<in> set (layout s ?bs')"
    if "(q, j, True) \<in> set (layout s ?bs)" "q \<noteq> first_block s + extent xs" for q j
    using moves [OF that(1)] that(2) by auto
  ultimately show thesis using fb by (intro that [of s']) (auto simp: s'_def)
qed

section \<open>Clients\<close>

text \<open>
  A client of the allocator: it requests blocks of 1 to \<open>2 ^ 64 - 32\<close> bytes, writes into the payloads
  it holds, and releases each of them at most once.  The sizes left out are those for which the code
  fails: 0 (\<open>zero_request_corrupts\<close>) and the sizes whose block size wraps around
  (\<open>huge_request_wraps\<close>).  The client starts on a heap that \<open>mm_init\<close> has just emptied, where
  \<open>last_node\<close> is null or left at the place of the first payload.  \<open>client s live\<close> says that the client can be in
  state \<open>s\<close> with the requests \<open>live\<close> outstanding (payload address and requested size).
\<close>

inductive client :: "heap_state \<Rightarrow> (nat \<times> nat) list \<Rightarrow> bool" where
  start: "16 dvd heap s \<Longrightarrow> heap s + 16 \<le> mem_max_addr s \<Longrightarrow> mem_max_addr s \<le> 2 * heap s \<Longrightarrow> mem_max_addr s < 2 ^ 63 \<Longrightarrow> last_node s = 0 \<or> last_node s = heap s + 16 \<Longrightarrow>
    mm_init s = (0, s') \<Longrightarrow> client s' []"
| malloc: "client s live \<Longrightarrow> 0 < req \<Longrightarrow> req + 31 < 2 ^ 64 \<Longrightarrow> mm_malloc req s = Inr (p, s') \<Longrightarrow>
    client s' (if p = 0 then live else (p, req) # live)"
| store: "client s live \<Longrightarrow> (\<And>a. m a \<noteq> bytes s a \<Longrightarrow> \<exists>(p, req) \<in> set live. p \<le> a \<and> a < p + req) \<Longrightarrow>
    client (s\<lparr>bytes := m\<rparr>) live"
| free: "client s live \<Longrightarrow> (p, req) \<in> set live \<Longrightarrow> mm_free p s = Inr s' \<Longrightarrow>
    client s' (remove1 (p, req) live)"

definition live_ok :: "heap_state \<Rightarrow> block list \<Rightarrow> (nat \<times> nat) list \<Rightarrow> bool" where
  "live_ok s bs live \<longleftrightarrow> distinct (map fst live) \<and>
     (\<forall>(p, req) \<in> set live. \<exists>q n. p = q + 8 \<and> (q, n, True) \<in> set (layout s bs) \<and> 32 \<le> n \<and> req + 16 \<le> n)"

definition client_inv :: "heap_state \<Rightarrow> (nat \<times> nat) list \<Rightarrow> bool" where
  "client_inv s live \<longleftrightarrow> (\<exists>bs. heap_inv s bs \<and> live_ok s bs live)"

lemma client_start:
  assumes "16 dvd heap s" "heap s + 16 \<le> mem_max_addr s" "mem_max_addr s \<le> 2 * heap s" "mem_max_addr s < 2 ^ 63" "last_node s = 0 \<or> last_node s = heap s + 16"
    "mm_init s = (0, s')"
  shows "client_inv s' []"
proof -
  have "s' = s\<lparr>mem_brk := heap s + 8\<rparr>"
    using assms by (simp add: mm_init_def mem_sbrk_def mem_reset_brk_def ALIGNMENT_def header_bytes_def)
  then have "heap_inv s' []"
    using assms by (auto simp: heap_inv_def heap_rep_def node_ok_def first_block_def mem_heap_lo_def
      ALIGNMENT_def header_bytes_def)
  then show ?thesis by (auto simp: client_inv_def live_ok_def)
qed

lemma allocated_from_layout:
  assumes "allocated_from bs n xs ys"
  shows "(q, j, True) \<in> set (placed p bs) \<Longrightarrow> (q, j, True) \<in> set (placed p (xs @ (n, True) # ys))"
    "0 < j \<Longrightarrow> \<forall>(k, al) \<in> set bs. 0 < k \<Longrightarrow> (p + extent xs, j, True) \<notin> set (placed p bs)"
proof -
  consider k zs where "bs = xs @ (k, False) # zs" "n \<le> k" "ys = (if n < k then [(k - n, False)] else []) @ zs"
    | "bs = xs" "ys = []"
    using assms unfolding allocated_from_def by blast
  note c = this
  show "(q, j, True) \<in> set (placed p bs) \<Longrightarrow> (q, j, True) \<in> set (placed p (xs @ (n, True) # ys))"
    by (cases rule: c) (auto simp: placed_append add.assoc)
  assume j: "0 < j" "\<forall>(k, al) \<in> set bs. 0 < k"
  show "(p + extent xs, j, True) \<notin> set (placed p bs)"
  proof (cases rule: c)
    case (1 k zs)
    then have "(p + extent xs, k, False) \<in> set (placed p bs)" "0 < k" using j(2) by (auto simp: placed_append)
    then show ?thesis using placed_same [of _ k False p bs j True] j(1) by blast
  next
    case 2
    then show ?thesis using placed_range [of "p + extent xs" j True p bs] j(1) by auto
  qed
qed

lemma live_ok_block:
  assumes "live_ok s bs live" "(p, req) \<in> set live"
  obtains q n where "p = q + 8" "(q, n, True) \<in> set (layout s bs)" "32 \<le> n" "req + 16 \<le> n"
  using assms unfolding live_ok_def by fastforce

lemma heap_rep_pos: "heap_rep s bs \<Longrightarrow> \<forall>(k, al) \<in> set bs. 0 < k"
proof clarify
  fix k al assume h: "heap_rep s bs" "(k, al) \<in> set bs"
  then obtain xs ys where "bs = xs @ (k, al) # ys" by (meson split_list)
  with h(1) show "0 < k" by (simp add: heap_rep_def cells_ok_append cells_ok_Cons cell_ok_def)
qed

lemma client_malloc:
  assumes "client_inv s live" "0 < req" "req + 31 < 2 ^ 64" "mm_malloc req s = Inr (p, s')"
  shows "client_inv s' (if p = 0 then live else (p, req) # live)"
proof -
  obtain bs where bs: "heap_inv s bs" "live_ok s bs live" using assms(1) by (auto simp: client_inv_def)
  show ?thesis
    using malloc_alloc [OF bs(1) assms(2,3)] assms(4)
  proof (elim disjE exE conjE)
    fix xs ys t
    assume r: "mm_malloc req s = Inr (first_block s + extent xs + 8, t)"
      and af: "allocated_from bs (block_size req) xs ys"
      and inv: "heap_inv t (xs @ (block_size req, True) # ys)" and fb: "first_block t = first_block s"
    have p: "p = first_block s + extent xs + 8" "t = s'" using r assms(4) by simp_all
    have "live_ok s' (xs @ (block_size req, True) # ys) ((p, req) # live)"
      unfolding live_ok_def
    proof (intro conjI ballI)
      have "p \<notin> fst ` set live"
      proof
        assume "p \<in> fst ` set live"
        then obtain req' where l: "(p, req') \<in> set live" by force
        obtain q n where q: "p = q + 8" "(q, n, True) \<in> set (layout s bs)" "32 \<le> n"
          using live_ok_block [OF bs(2) l] by metis
        have n: "(first_block s + extent xs, n, True) \<in> set (layout s bs)" "0 < n"
          using q p(1) by simp_all
        have "\<forall>(k, al) \<in> set bs. 0 < k"
          by (rule heap_rep_pos [of s]) (use bs(1) in \<open>simp add: heap_inv_def\<close>)
        from allocated_from_layout(2) [OF af n(2) this] n(1) show False by simp
      qed
      then show "distinct (map fst ((p, req) # live))" using bs(2) by (simp add: live_ok_def)
      fix x assume x: "x \<in> set ((p, req) # live)"
      show "case x of (a, r) \<Rightarrow> \<exists>q n. a = q + 8 \<and>
        (q, n, True) \<in> set (layout s' (xs @ (block_size req, True) # ys)) \<and> 32 \<le> n \<and> r + 16 \<le> n"
      proof (cases "x = (p, req)")
        case True
        with p fb block_size_ok [OF assms(2,3)] show ?thesis by (auto simp: placed_append)
      next
        case False
        then obtain p' req' where x': "x = (p', req')" "(p', req') \<in> set live" using x by (cases x) auto
        obtain q n where q: "p' = q + 8" "(q, n, True) \<in> set (layout s bs)" "32 \<le> n" "req' + 16 \<le> n"
          using live_ok_block [OF bs(2) x'(2)] by metis
        have "(q, n, True) \<in> set (layout s' (xs @ (block_size req, True) # ys))"
          using allocated_from_layout(1) [OF af q(2)] fb p(2) by simp
        with q show ?thesis unfolding x'(1) case_prod_conv by blast
      qed
    qed
    with inv p show ?thesis by (auto simp: client_inv_def)
  qed (use assms in auto)
qed

lemma client_store:
  assumes "client_inv s live" "\<And>a. m a \<noteq> bytes s a \<Longrightarrow> \<exists>(p, req) \<in> set live. p \<le> a \<and> a < p + req"
  shows "client_inv (s\<lparr>bytes := m\<rparr>) live"
proof -
  obtain bs where bs: "heap_inv s bs" "live_ok s bs live" using assms(1) by (auto simp: client_inv_def)
  have "interior (first_block s) bs a" if d: "m a \<noteq> bytes s a" for a
  proof -
    obtain p req where l: "(p, req) \<in> set live" "p \<le> a" "a < p + req" using assms(2) [OF d] by auto
    obtain q n where "p = q + 8" "(q, n, True) \<in> set (layout s bs)" "req + 16 \<le> n"
      using live_ok_block [OF bs(2) l(1)] by metis
    then show ?thesis using l by (force simp: interior_def)
  qed
  then have "cells_ok m (first_block s) bs"
    using bs(1) cells_ok_interior [of "bytes s" "first_block s" bs m] by (auto simp: heap_inv_def heap_rep_def)
  with bs show ?thesis
    by (auto simp: client_inv_def heap_inv_def heap_rep_def node_ok_def live_ok_def)
qed

text \<open>
  Releasing a live block: it becomes the last node freed, the others stay live, and the word at
  offset 8 of the node freed before receives its address.
\<close>

text \<open>The payloads that stay live are in blocks of the new layout.\<close>

lemma live_ok_freed:
  assumes "live_ok s bs live" "(q + 8, req) \<in> set live" "first_block s' = first_block s"
    and stay: "\<And>q' j. (q', j, True) \<in> set (layout s bs) \<Longrightarrow> q' \<noteq> q \<Longrightarrow> (q', j, True) \<in> set (layout s bs')"
  shows "live_ok s' bs' (remove1 (q + 8, req) live)"
  unfolding live_ok_def
proof (intro conjI ballI)
  have dist: "distinct (map fst live)" using assms(1) by (simp add: live_ok_def)
  show "distinct (map fst (remove1 (q + 8, req) live))"
    using dist by (simp add: distinct_map) (meson Diff_subset inj_on_subset)
  fix x assume x: "x \<in> set (remove1 (q + 8, req) live)"
  obtain p' r where x': "x = (p', r)" by (cases x)
  have l: "(p', r) \<in> set live" "(p', r) \<noteq> (q + 8, req)"
    using x x' dist by (auto simp: distinct_map)
  then have "p' \<noteq> q + 8" using eq_key_imp_eq_value [OF dist, of "q + 8" r req] assms(2) by auto
  from live_ok_block [OF assms(1) l(1)] stay show "case x of (p, req) \<Rightarrow> \<exists>q n. p = q + 8 \<and>
      (q, n, True) \<in> set (layout s' bs') \<and> 32 \<le> n \<and> req + 16 \<le> n"
    unfolding x' case_prod_conv using assms(3) \<open>p' \<noteq> q + 8\<close> by metis
qed

lemma client_free_run:
  assumes "client_inv s live" "(p, req) \<in> set live"
  obtains s' where "mm_free p s = Inr s'" "client_inv s' (remove1 (p, req) live)" "last_node s' \<le> p"
    "\<And>p' r i. (p', r) \<in> set live \<Longrightarrow> p' \<noteq> p \<Longrightarrow> i < r \<Longrightarrow>
       p' + i \<notin> {last_node s + 8..<last_node s + 16} \<Longrightarrow> bytes s' (p' + i) = bytes s (p' + i)"
    "\<And>r. (last_node s, r) \<in> set live \<Longrightarrow> last_node s \<noteq> p \<Longrightarrow>
       load64 (bytes s') (last_node s + 8) = last_node s'"
proof -
  obtain bs where bs: "heap_inv s bs" "live_ok s bs live" using assms(1) by (auto simp: client_inv_def)
  obtain q n where q: "p = q + 8" "(q, n, True) \<in> set (layout s bs)" "32 \<le> n" "req + 16 \<le> n"
    using live_ok_block [OF bs(2) assms(2)] by metis
  obtain xs ys where xs: "bs = xs @ (n, True) # ys" "q = first_block s + extent xs"
    using q(2) by (auto simp: placed_split)
  obtain us k vs where m: "merged xs n ys = (us, k, vs)" by (cases "merged xs n ys")
  note run = free_rep [OF bs(1) [unfolded xs(1)] q(3) m, folded xs, folded q(1)]
  obtain s' where
    f: "mm_free p s = Inr s'" "heap_inv s' (us @ (k, False) # vs)" "first_block s' = first_block s"
      "last_node s' = first_block s + extent us + 8"
    and keep: "\<And>q' j a. (q', j, True) \<in> set (layout s bs) \<Longrightarrow> q' \<noteq> q \<Longrightarrow>
       q' \<le> a \<Longrightarrow> a < q' + j \<Longrightarrow> a \<notin> {last_node s + 8..<last_node s + 16} \<Longrightarrow> bytes s' a = bytes s a"
    and lnk: "last_node s \<noteq> 0 \<Longrightarrow> last_node s < first_block s + extent us \<or>
       first_block s + extent us + k \<le> last_node s \<Longrightarrow>
       load64 (bytes s') (last_node s + 8) = first_block s + extent us + 8"
    and stay: "\<And>q' j. (q', j, True) \<in> set (layout s bs) \<Longrightarrow> q' \<noteq> q \<Longrightarrow>
       (q', j, True) \<in> set (layout s (us @ (k, False) # vs))"
    by (rule run) (rule that)
  have "live_ok s' (us @ (k, False) # vs) (remove1 (p, req) live)"
    unfolding q(1) by (rule live_ok_freed [OF bs(2) assms(2) [unfolded q(1)] f(3)]) (rule stay)
  with f(2) have "client_inv s' (remove1 (p, req) live)" by (auto simp: client_inv_def)
  moreover have "last_node s' \<le> p"
    using m f(4) q(1) xs(2) by (auto simp: merged_def prev_free_Nil extent_butlast split: if_splits)
  moreover have "bytes s' (p' + i) = bytes s (p' + i)"
    if h: "(p', r) \<in> set live" "p' \<noteq> p" "i < r" "p' + i \<notin> {last_node s + 8..<last_node s + 16}" for p' r i
  proof -
    obtain q' j where "p' = q' + 8" "(q', j, True) \<in> set (layout s bs)" "r + 16 \<le> j"
      using live_ok_block [OF bs(2) h(1)] by metis
    with h q(1) show ?thesis by (intro keep [of q' j]) auto
  qed
  moreover have "load64 (bytes s') (last_node s + 8) = last_node s'"
    if h: "(last_node s, r) \<in> set live" "last_node s \<noteq> p" for r
  proof -
    obtain q' j where q': "last_node s = q' + 8" "(q', j, True) \<in> set (layout s bs)" "32 \<le> j"
      using live_ok_block [OF bs(2) h(1)] by metis
    have "(q', j, True) \<in> set (layout s (us @ (k, False) # vs))" using stay q' q(1) h(2) by auto
    moreover have "(first_block s + extent us, k, False) \<in> set (layout s (us @ (k, False) # vs))"
      by (simp add: placed_append)
    moreover have "0 < k" using m q(3) by (auto simp: merged_def split: if_splits)
    ultimately have "q' + j \<le> first_block s + extent us \<or> first_block s + extent us + k \<le> q'"
      using q'(3) by (intro placed_apart [of q' j True _ _ _ k False]) simp_all
    then show ?thesis unfolding f(4) using q' by (intro lnk) auto
  qed
  ultimately show thesis using f(1) that by blast
qed

lemma client_invariant: "client s live \<Longrightarrow> client_inv s live"
proof (induction rule: client.induct)
  case (start s s')
  then show ?case by (intro client_start)
next
  case (malloc s live req p s')
  then show ?case by (intro client_malloc)
next
  case (store s live m)
  then show ?case by (intro client_store)
next
  case (free s live p req s')
  from client_free_run [OF free(4,2)] free(3) show ?case by (metis sum.inject(2))
qed

end
