(* ===== verification/Malloc_Client.thy ===== *)
theory Malloc_Client
  imports Malloc_Correct
begin

text \<open>
  What a client of the allocator of \<open>project04-kweng/mm.c\<close> can rely on, over every sequence of
  requests (of 1 to \<open>2 ^ 64 - 32\<close> bytes), writes to live payloads and releases; and the ways in
  which the code fails it: a release writes into the node that was released before, even when that
  node has been handed out again; the release of a payload of no bytes writes over the header behind
  it; and the size computation of a huge request wraps around.
\<close>

section \<open>Live blocks\<close>

lemma checkheap_from_blocks:
  "cells_ok (bytes s) p bs \<Longrightarrow> mem_brk s = p + extent bs \<Longrightarrow> length bs < m \<Longrightarrow>
   checkheap_from m p s = Inr ()"
proof (induction bs arbitrary: p m)
  case Nil
  have "\<not> p < p - 1" by simp
  with Nil show ?case by (cases m) (simp_all add: mem_heap_hi_def)
next
  case (Cons b bs)
  obtain k al where b: "b = (k, al)" by (cases b)
  obtain m' where m: "m = Suc m'" using Cons.prems(3) by (cases m) auto
  have ok: "cell_ok (bytes s) (p, k, al)" "cells_ok (bytes s) (p + k) bs"
    using Cons.prems(1) b by (simp_all add: cells_ok_Cons)
  have "k mod 16 = 0" "0 < k" using ok(1) by (auto simp: cell_ok_def)
  moreover have "checkheap_from m' (p + k) s = Inr ()"
    using Cons.prems m b ok(2) by (intro Cons.IH) simp_all
  ultimately show ?case
    using m by (simp add: cell_ok_reads [OF ok(1)] ALIGNMENT_def)
qed

lemma checkheap_blocks: "heap_rep s bs \<Longrightarrow> mm_checkheap s = Inr ()"
  unfolding mm_checkheap_def
  by (rule checkheap_from_blocks) (auto simp: heap_rep_def dest!: length_le_extent)

lemma live_apart:
  assumes "heap_rep s bs" "live_ok s bs live" "(p, r) \<in> set live" "(p', r') \<in> set live" "p \<noteq> p'"
  shows "p + r + 16 \<le> p' \<or> p' + r' + 16 \<le> p"
proof -
  obtain q n where q: "p = q + 8" "(q, n, True) \<in> set (layout s bs)" "32 \<le> n" "r + 16 \<le> n"
    using live_ok_block [OF assms(2,3)] by metis
  obtain q' n' where q': "p' = q' + 8" "(q', n', True) \<in> set (layout s bs)" "32 \<le> n'" "r' + 16 \<le> n'"
    using live_ok_block [OF assms(2,4)] by metis
  have "q + n \<le> q' \<or> q' + n' \<le> q"
    using q q' assms(5) by (intro placed_apart [of q n True _ _ q' n' True]) simp_all
  with q q' show ?thesis by linarith
qed

lemma live_place:
  assumes "heap_rep s bs" "live_ok s bs live" "(p, r) \<in> set live"
  shows "16 dvd p" "heap s + 16 \<le> p" "p + r + 8 \<le> mem_brk s"
proof -
  obtain q n where q: "p = q + 8" "(q, n, True) \<in> set (layout s bs)" "32 \<le> n" "r + 16 \<le> n"
    using live_ok_block [OF assms(2,3)] by metis
  obtain xs ys where xs: "bs = xs @ (n, True) # ys" "q = first_block s + extent xs"
    using q(2) by (auto simp: placed_split)
  have "16 dvd extent xs"
    using assms(1) xs(1) by (auto simp: heap_rep_def cells_ok_append intro: cells_ok_dvd)
  moreover have "p = heap s + 16 + extent xs"
    using q(1) xs(2) by (simp add: first_block_def mem_heap_lo_def ALIGNMENT_def header_bytes_def)
  ultimately show "16 dvd p" "heap s + 16 \<le> p" using assms(1) by (simp_all add: heap_rep_def)
  show "p + r + 8 \<le> mem_brk s"
    using placed_range [OF q(2)] q(1,4) assms(1) by (simp add: heap_rep_def)
qed

lemma malloc_serves:
  assumes "client s live" "0 < req" "req + 31 < 2 ^ 64"
  shows "\<exists>p s'. mm_malloc req s = Inr (p, s') \<and>
    (p = 0 \<longrightarrow> s' = s \<and> find_fit (block_size req) s = Inr None \<and> mem_max_addr s < mem_brk s + block_size req) \<and>
    (p \<noteq> 0 \<longrightarrow> (\<forall>(p', r) \<in> set live. (p + req \<le> p' \<or> p' + r \<le> p) \<and> (\<forall>i < r. bytes s' (p' + i) = bytes s (p' + i))))"
proof -
  obtain bs where bs: "heap_inv s bs" "live_ok s bs live"
    using client_invariant [OF assms(1)] by (auto simp: client_inv_def)
  have rep: "heap_rep s bs" using bs(1) by (simp add: heap_inv_def)
  show ?thesis
    using malloc_alloc [OF bs(1) assms(2,3)]
  proof (elim disjE exE conjE)
    fix xs ys s'
    assume r: "mm_malloc req s = Inr (first_block s + extent xs + 8, s')" and k: "keeps_live s bs s'"
    let ?p = "first_block s + extent xs + 8"
    have "client_inv s' ((?p, req) # live)"
      using client_malloc [OF client_invariant [OF assms(1)] assms(2,3) r] by simp
    then obtain bs' where bs': "heap_rep s' bs'" "live_ok s' bs' ((?p, req) # live)"
      by (auto simp: client_inv_def heap_inv_def)
    have "?p + req \<le> p' \<or> p' + r \<le> ?p" if h: "(p', r) \<in> set live" for p' r
    proof -
      have "p' \<noteq> ?p" using bs'(2) h by (force simp: live_ok_def)
      then show ?thesis using live_apart [OF bs', of ?p req p' r] h by auto
    qed
    moreover have "bytes s' (p' + i) = bytes s (p' + i)" if h: "(p', r) \<in> set live" "i < r" for p' r i
    proof -
      obtain q n where "p' = q + 8" "(q, n, True) \<in> set (layout s bs)" "r + 16 \<le> n"
        using live_ok_block [OF bs(2) h(1)] by metis
      with k h(2) show ?thesis unfolding keeps_live_def by auto
    qed
    ultimately show ?thesis using r by (intro exI [of _ ?p] exI [of _ s']) auto
  qed (simp add: find_fit_blocks [OF rep])
qed

section \<open>Where a request is placed\<close>

text \<open>The blocks of the heap, by the walk over their headers; a block has room for a request when it is free and holds a header, the
  payload and a footer. This is said without the search of the code and without its size computation.\<close>

inductive block_at :: "heap_state \<Rightarrow> nat \<Rightarrow> bool" for s where
  block_first: "first_block s < mem_brk s \<Longrightarrow> block_at s (first_block s)"
| block_next: "block_at s q \<Longrightarrow> q + get_size q s < mem_brk s \<Longrightarrow> block_at s (q + get_size q s)"

definition has_room :: "heap_state \<Rightarrow> nat \<Rightarrow> nat \<Rightarrow> bool" where
  "has_room s req q \<longleftrightarrow> block_at s q \<and> \<not> check_allocated q s \<and> req + 16 \<le> get_size q s"

definition rounded_request :: "nat \<Rightarrow> nat" where
  "rounded_request req = (req + 31) div 16 * 16"

lemma layout_reads:
  assumes "heap_rep s bs" "(q, k, al) \<in> set (layout s bs)"
  shows "get_size q s = k" "check_allocated q s = al" "16 dvd k" "q + k \<le> mem_brk s" "0 < k"
proof -
  note c = heap_rep_cell [OF assms]
  show "get_size q s = k" "check_allocated q s = al" using cell_ok_reads [OF c] by simp_all
  show "16 dvd k" "0 < k" using c by (auto simp: cell_ok_def)
  show "q + k \<le> mem_brk s" using placed_range [OF assms(2)] assms(1) by (simp add: heap_rep_def)
qed

lemma block_at_layout:
  assumes rep: "heap_rep s bs"
  shows "block_at s q \<longleftrightarrow> (\<exists>k al. (q, k, al) \<in> set (layout s bs))"
proof
  assume "block_at s q"
  then show "\<exists>k al. (q, k, al) \<in> set (layout s bs)"
  proof induction
    case block_first
    then have "bs \<noteq> []" using rep by (auto simp: heap_rep_def)
    then obtain k al ys where "bs = (k, al) # ys" by (metis neq_Nil_conv surj_pair)
    then show ?case by auto
  next
    case (block_next q)
    then obtain k al where q: "(q, k, al) \<in> set (layout s bs)" by blast
    then obtain xs ys where bs: "bs = xs @ (k, al) # ys" "q = first_block s + extent xs" by (auto simp: placed_split)
    have "get_size q s = k" using layout_reads [OF rep q] by simp
    moreover from this have "ys \<noteq> []" using block_next(2) bs rep by (auto simp: heap_rep_def)
    then obtain k' al' zs where "ys = (k', al') # zs" by (metis neq_Nil_conv surj_pair)
    ultimately show ?case using bs by (auto simp: placed_append)
  qed
next
  have walk: "block_at s (first_block s + extent xs)" if "bs = xs @ (k, al) # ys" for xs k al ys
    using that
  proof (induction xs arbitrary: k al ys rule: rev_induct)
    case Nil
    then show ?case using rep by (auto simp: heap_rep_def cells_ok_Cons cell_ok_def intro!: block_first)
  next
    case (snoc b xs)
    obtain j b' where b: "b = (j, b')" by (cases b)
    then have "block_at s (first_block s + extent xs)" using snoc by simp
    moreover have "(first_block s + extent xs, j, b') \<in> set (layout s bs)" using snoc.prems b by (simp add: placed_append)
    then have "get_size (first_block s + extent xs) s = j" using layout_reads [OF rep] by simp
    moreover have "(first_block s + extent xs + j, k, al) \<in> set (layout s bs)" using snoc.prems b by (simp add: placed_append add.assoc)
    then have "first_block s + extent xs + j < mem_brk s" using layout_reads(4,5) [OF rep] by fastforce
    ultimately show ?case using block_next [of s "first_block s + extent xs"] b by (simp add: add.assoc)
  qed
  assume "\<exists>k al. (q, k, al) \<in> set (layout s bs)"
  then show "block_at s q" by (auto simp: placed_split intro: walk)
qed

lemma rounded_request_eq: "req + 31 < 2 ^ 64 \<Longrightarrow> block_size req = rounded_request req"
  by (simp add: block_size_def round_up_def header_bytes_def ALIGNMENT_def rounded_request_def add.commute [of 16])

lemma rounded_request_least: "16 dvd k \<Longrightarrow> req + 16 \<le> k \<longleftrightarrow> rounded_request req \<le> k"
  by (auto simp: rounded_request_def)

lemma has_room_layout:
  assumes "heap_rep s bs"
  shows "has_room s req q \<longleftrightarrow> (\<exists>k. (q, k, False) \<in> set (layout s bs) \<and> rounded_request req \<le> k)"
proof -
  have "rounded_request req \<le> k \<longleftrightarrow> req + 16 \<le> get_size q s" "check_allocated q s = al" if "(q, k, al) \<in> set (layout s bs)" for k al
    using layout_reads [OF assms that] rounded_request_least by auto
  then show ?thesis unfolding has_room_def block_at_layout [OF assms] by metis
qed

lemma first_fit_None: "first_fit n p bs = None \<Longrightarrow> (k, False) \<in> set bs \<Longrightarrow> k < n"
  by (induction n p bs rule: first_fit.induct) (auto split: if_splits)

lemma placed_member: "(q, k, al) \<in> set (placed p bs) \<Longrightarrow> (k, al) \<in> set bs"
  by (auto simp: placed_split)

lemma free_keeps:
  assumes "client s live" "(p, r) \<in> set live"
  obtains s' where "mm_free p s = Inr s'" "client s' (remove1 (p, r) live)"
    "\<And>p' r' i. (p', r') \<in> set live \<Longrightarrow> p' \<noteq> p \<Longrightarrow> i < r' \<Longrightarrow>
       p' + i \<notin> {last_node s + 8..<last_node s + 16} \<Longrightarrow> bytes s' (p' + i) = bytes s (p' + i)"
proof -
  obtain s' where s': "mm_free p s = Inr s'"
    "\<And>p' r i. (p', r) \<in> set live \<Longrightarrow> p' \<noteq> p \<Longrightarrow> i < r \<Longrightarrow>
       p' + i \<notin> {last_node s + 8..<last_node s + 16} \<Longrightarrow> bytes s' (p' + i) = bytes s (p' + i)"
    by (rule client_free_run [OF client_invariant [OF assms(1)] assms(2)]) (rule that)
  then show thesis using client.free [OF assms s'(1)] that by blast
qed

lemma client_positive:
  assumes "client s live" "(p, r) \<in> set live"
  shows "0 < p"
proof -
  obtain bs where "heap_rep s bs" "live_ok s bs live"
    using client_invariant [OF assms(1)] by (auto simp: client_inv_def heap_inv_def)
  from live_place(2) [OF this assms(2)] show ?thesis by simp
qed

lemma malloc_last_node: "mm_malloc req s = Inr (p, s') \<Longrightarrow> last_node s' = last_node s"
  by (auto simp: mm_malloc_def Let_def mem_sbrk_def csplit set_header_def set_footer_def
    split_block_def split: option.splits if_splits)

lemma client_get_size:
  assumes "client s live" "(p, r) \<in> set live"
  shows "r \<le> get_size (p - header_bytes) s"
proof -
  obtain bs where bs: "heap_rep s bs" "live_ok s bs live"
    using client_invariant [OF assms(1)] by (auto simp: client_inv_def heap_inv_def)
  obtain q n where q: "p = q + 8" "(q, n, True) \<in> set (layout s bs)" "r + 16 \<le> n"
    using live_ok_block [OF bs(2) assms(2)] by metis
  then show ?thesis
    using cell_ok_reads(1) [OF heap_rep_cell [OF bs(1) q(2)]] by (simp add: header_bytes_def)
qed

section \<open>Properties\<close>

text \<open>
  C3. In every state a client can reach, the payloads it holds are aligned to 16 bytes, lie
  inside the heap, do not overlap one another, and the heap checker finds nothing wrong.
\<close>

theorem client_safe:
  assumes "client s live"
  shows "distinct (map fst live) \<and> mm_checkheap s = Inr () \<and>
    (\<forall>(p, r) \<in> set live. p mod ALIGNMENT = 0 \<and> mem_heap_lo s < p \<and> p + r \<le> mem_heap_hi s \<and>
       (\<forall>(p', r') \<in> set live. p \<noteq> p' \<longrightarrow> p + r \<le> p' \<or> p' + r' \<le> p))"
proof -
  obtain bs where bs: "heap_rep s bs" "live_ok s bs live"
    using client_invariant [OF assms] by (auto simp: client_inv_def heap_inv_def)
  have "p mod ALIGNMENT = 0 \<and> mem_heap_lo s < p \<and> p + r \<le> mem_heap_hi s" if "(p, r) \<in> set live" for p r
    using live_place [OF bs that] by (auto simp: ALIGNMENT_def mem_heap_lo_def mem_heap_hi_def)
  moreover have "p + r \<le> p' \<or> p' + r' \<le> p"
    if "(p, r) \<in> set live" "(p', r') \<in> set live" "p \<noteq> p'" for p r p' r'
    using live_apart [OF bs that] by auto
  moreover have "distinct (map fst live)" using bs(2) by (simp add: live_ok_def)
  ultimately show ?thesis using checkheap_blocks [OF bs(1)] by blast
qed

text \<open>The two ways in which a request is served, and the one in which it is not.\<close>

lemma malloc_places:
  assumes c: "client s live" and req: "0 < req" "req + 31 < 2 ^ 64"
  shows "\<exists>p s'. mm_malloc req s = Inr (p, s') \<and>
    (if \<exists>q. has_room s req q
     then has_room s req (p - 8) \<and> (\<forall>q. has_room s req q \<longrightarrow> p - 8 \<le> q) \<and> 8 \<le> p \<and> mem_brk s' = mem_brk s
     else if mem_brk s + rounded_request req \<le> mem_max_addr s
     then p = mem_brk s + 8 \<and> mem_brk s' = mem_brk s + rounded_request req
     else p = 0 \<and> s' = s) \<and>
    (p \<noteq> 0 \<longrightarrow> get_size (p - 8) s' = rounded_request req \<and> check_allocated (p - 8) s')"
proof -
  obtain bs where inv: "heap_inv s bs" using client_invariant [OF c] by (auto simp: client_inv_def)
  then have rep: "heap_rep s bs" by (simp add: heap_inv_def)
  note room = has_room_layout [OF rep] and n = rounded_request_eq [OF req(2)]
  show ?thesis
  proof (cases "first_fit (block_size req) (first_block s) bs")
    case (Some q)
    from malloc_fits [OF inv req Some] obtain xs k ys s' where bs: "bs = xs @ (k, False) # ys" "q = first_block s + extent xs"
      "rounded_request req \<le> k" "\<forall>(j, al) \<in> set xs. al \<or> j < rounded_request req" and m: "mm_malloc req s = Inr (q + 8, s')"
      and inv': "heap_inv s' (xs @ split_into (rounded_request req) k @ ys)" and fb: "first_block s' = first_block s"
      unfolding n by blast
    have rep': "heap_rep s' (xs @ split_into (rounded_request req) k @ ys)" using inv' by (simp add: heap_inv_def)
    have here: "(q, k, False) \<in> set (layout s bs)" using bs(1,2) by (simp add: placed_append)
    then have "has_room s req q" using bs(3) by (auto simp: room)
    moreover have "q \<le> q'" if h: "has_room s req q'" for q'
    proof (rule ccontr)
      assume less: "\<not> q \<le> q'"
      obtain j where j: "(q', j, False) \<in> set (layout s bs)" "rounded_request req \<le> j" using h room by blast
      have "layout s bs = layout s xs @ (q, k, False) # placed (q + k) ys" by (simp add: bs(1,2) placed_append)
      then consider "(q', j, False) \<in> set (layout s xs)" | "q' = q" | "(q', j, False) \<in> set (placed (q + k) ys)"
        using j(1) by auto
      then have "(q', j, False) \<in> set (layout s xs)"
      proof cases
        case 3
        with placed_range [OF 3] less show ?thesis by simp
      qed (use less in simp_all)
      then have "(j, False) \<in> set xs" by (rule placed_member)
      then show False using bs(4) j(2) by auto
    qed
    moreover have "mem_brk s' = mem_brk s"
      using rep rep' bs(1,3) fb by (simp add: heap_rep_def extent_split)
    moreover have "(q, rounded_request req, True) \<in> set (layout s' (xs @ split_into (rounded_request req) k @ ys))"
      using fb bs(2) by (simp add: placed_append split_into_def)
    then have "get_size q s' = rounded_request req" "check_allocated q s'" using layout_reads [OF rep'] by simp_all
    ultimately show ?thesis using m by (intro exI [of _ "q + 8"] exI [of _ s']) auto
  next
    case None
    have no: "\<not> (\<exists>q. has_room s req q)"
      using first_fit_None [OF None] placed_member unfolding room n by fastforce
    show ?thesis
    proof (cases "mem_brk s + rounded_request req \<le> mem_max_addr s")
      case True
      then have "mem_sbrk (block_size req) s = (Some (mem_brk s), s\<lparr>mem_brk := mem_brk s + rounded_request req\<rparr>)"
        using rep by (simp add: mem_sbrk_def n heap_rep_def)
      from malloc_extends [OF inv req None this] obtain s' where m: "mm_malloc req s = Inr (mem_brk s + 8, s')"
        and inv': "heap_inv s' (bs @ [(rounded_request req, True)])" and fb: "first_block s' = first_block s"
        unfolding n using rep by (auto simp: heap_rep_def)
      have rep': "heap_rep s' (bs @ [(rounded_request req, True)])" using inv' by (simp add: heap_inv_def)
      have "mem_brk s' = mem_brk s + rounded_request req" using rep rep' fb by (simp add: heap_rep_def)
      moreover have "(mem_brk s, rounded_request req, True) \<in> set (layout s' (bs @ [(rounded_request req, True)]))"
        using fb rep by (simp add: placed_append heap_rep_def)
      then have "get_size (mem_brk s) s' = rounded_request req" "check_allocated (mem_brk s) s'" using layout_reads [OF rep'] by simp_all
      ultimately show ?thesis using m no True by (intro exI [of _ "mem_brk s + 8"] exI [of _ s']) auto
    next
      case False
      then have "mem_sbrk (block_size req) s = (None, s)" by (simp add: mem_sbrk_def n)
      then have "mm_malloc req s = Inr (0, s)" using None by (simp add: mm_malloc_def Let_def find_fit_blocks [OF rep])
      then show ?thesis using no False by simp
    qed
  qed
qed

text \<open>
  C20. A request of 1 to 2^64 - 32 bytes returns. Let a block have room when the walk over the headers reaches it, it is not
  allocated, and its size is at least that of the request plus header and footer. If some block has room, the payload of the
  first such block is handed out; otherwise the heap is extended by the size of the request plus 16, rounded up to a multiple
  of 16, if the region allows it, and the payload of the new block is handed out; otherwise the result is NULL and the state
  is unchanged. The block handed out is marked allocated with exactly that rounded size, and the payloads the client holds
  keep their bytes and are apart from the new one.
\<close>

theorem malloc_serves_request:
  assumes "client s live" "0 < req" "req + 31 < 2 ^ 64"
  shows "\<exists>p s'. mm_malloc req s = Inr (p, s') \<and>
    (if \<exists>q. has_room s req q
     then has_room s req (p - 8) \<and> (\<forall>q. has_room s req q \<longrightarrow> p - 8 \<le> q) \<and> 8 \<le> p \<and> mem_brk s' = mem_brk s
     else if mem_brk s + rounded_request req \<le> mem_max_addr s
     then p = mem_brk s + 8 \<and> mem_brk s' = mem_brk s + rounded_request req
     else p = 0 \<and> s' = s) \<and>
    (p \<noteq> 0 \<longrightarrow> get_size (p - 8) s' = rounded_request req \<and> check_allocated (p - 8) s' \<and> client s' ((p, req) # live) \<and>
       (\<forall>(p', r) \<in> set live. (p + req \<le> p' \<or> p' + r \<le> p) \<and> (\<forall>i < r. bytes s' (p' + i) = bytes s (p' + i))))"
proof -
  obtain p s' where m: "mm_malloc req s = Inr (p, s')"
    "p \<noteq> 0 \<longrightarrow> (\<forall>(p', r) \<in> set live. (p + req \<le> p' \<or> p' + r \<le> p) \<and> (\<forall>i < r. bytes s' (p' + i) = bytes s (p' + i)))"
    using malloc_serves [OF assms] by blast
  have "p \<noteq> 0 \<longrightarrow> client s' ((p, req) # live)" using client.malloc [OF assms m(1)] by auto
  with m malloc_places [OF assms] show ?thesis by (intro exI [of _ p] exI [of _ s']) simp
qed

text \<open>
  C21. Releasing a payload the client holds returns (the search for neighbours stays inside the
  heap, the assertion holds), and the other payloads keep their bytes, except for the word at offset 8
  of the node that was released before.
\<close>

theorem free_keeps_others:
  assumes "client s live" "(p, r) \<in> set live"
  shows "\<exists>s'. mm_free p s = Inr s' \<and> client s' (remove1 (p, r) live) \<and>
    (\<forall>(p', r') \<in> set live. \<forall>i < r'. p' \<noteq> p \<longrightarrow> \<not> (last_node s + 8 \<le> p' + i \<and> p' + i < last_node s + 16) \<longrightarrow>
       bytes s' (p' + i) = bytes s (p' + i))"
proof -
  obtain s' where "mm_free p s = Inr s'" "client s' (remove1 (p, r) live)"
    "\<And>p' r' i. (p', r') \<in> set live \<Longrightarrow> p' \<noteq> p \<Longrightarrow> i < r' \<Longrightarrow>
       p' + i \<notin> {last_node s + 8..<last_node s + 16} \<Longrightarrow> bytes s' (p' + i) = bytes s (p' + i)"
    by (rule free_keeps [OF assms]) (rule that)
  then show ?thesis by auto
qed

lemma realloc_run:
  assumes "client s live" "(p, r) \<in> set live" "0 < sz" "sz + 31 < 2 ^ 64"
  shows "\<exists>p' s'. mm_realloc p sz s = Inr (p', s') \<and> (p' = 0 \<longrightarrow> s' = s) \<and>
    (p' \<noteq> 0 \<longrightarrow> client s' ((p', sz) # remove1 (p, r) live) \<and>
      (\<forall>i < min r sz. \<not> (last_node s + 8 \<le> p' + i \<and> p' + i < last_node s + 16) \<longrightarrow>
         bytes s' (p' + i) = bytes s (p + i)))"
proof -
  obtain p' s1 where m: "mm_malloc sz s = Inr (p', s1)" "p' = 0 \<Longrightarrow> s1 = s"
    "p' \<noteq> 0 \<Longrightarrow> \<forall>(a, r) \<in> set live. (p' + sz \<le> a \<or> a + r \<le> p') \<and> (\<forall>i < r. bytes s1 (a + i) = bytes s (a + i))"
    using malloc_serves [OF assms(1,3,4)] by blast
  have p0: "p \<noteq> 0"
    using client_positive [OF assms(1,2)] by simp
  show ?thesis
  proof (cases "p' = 0")
    case True
    then show ?thesis using m(1,2) p0 assms(3) by (simp add: mm_realloc_def)
  next
    case False
    have c1: "client s1 ((p', sz) # live)"
      using client.malloc [OF assms(1,3,4) m(1)] False by simp
    define n where "n = (if sz < get_size (p - header_bytes) s1 then sz else get_size (p - header_bytes) s1)"
    define s2 where "s2 = s1\<lparr>bytes := memcpy (bytes s1) p' p n\<rparr>"
    have n: "min r sz \<le> n" "n \<le> sz"
      using client_get_size [OF c1, of p r] assms(2) by (auto simp: n_def)
    have c2: "client s2 ((p', sz) # live)"
      unfolding s2_def using n(2) by (intro client.store [OF c1]) (auto simp: memcpy_def split: if_splits)
    have "distinct (map fst ((p', sz) # live))"
      using client_invariant [OF c1] unfolding client_inv_def live_ok_def by blast
    then have "p' \<notin> fst ` set live" by simp
    then have pp: "p' \<noteq> p" using imageI [OF assms(2), of fst] by auto
    have l2: "(p, r) \<in> set ((p', sz) # live)" using assms(2) by simp
    obtain s3 where f: "mm_free p s2 = Inr s3" "client s3 (remove1 (p, r) ((p', sz) # live))"
      "\<And>a r' i. (a, r') \<in> set ((p', sz) # live) \<Longrightarrow> a \<noteq> p \<Longrightarrow> i < r' \<Longrightarrow>
       a + i \<notin> {last_node s2 + 8..<last_node s2 + 16} \<Longrightarrow> bytes s3 (a + i) = bytes s2 (a + i)"
      by (rule free_keeps [OF c2 l2]) (rule that)
    have ln: "last_node s2 = last_node s" using malloc_last_node [OF m(1)] by (simp add: s2_def)
    have "bytes s3 (p' + i) = bytes s (p + i)"
      if i: "i < min r sz" "\<not> (last_node s + 8 \<le> p' + i \<and> p' + i < last_node s + 16)" for i
    proof -
      have "bytes s3 (p' + i) = bytes s2 (p' + i)" using f(3) [of p' sz i] i pp ln by auto
      also have "\<dots> = bytes s1 (p + i)" using less_le_trans [OF i(1) n(1)] by (simp add: s2_def memcpy_def)
      also have "\<dots> = bytes s (p + i)" using m(3) [OF False] assms(2) i by auto
      finally show ?thesis .
    qed
    moreover have "mm_realloc p sz s = Inr (p', s3)"
      using m(1) f(1) False p0 assms(3) by (simp add: mm_realloc_def Let_def n_def s2_def)
    ultimately show ?thesis using f(2) pp False by auto
  qed
qed

lemma realloc_refused:
  assumes "client s live" "(p, r) \<in> set live" "mm_realloc p sz s = Inr (0, s')" "0 < sz"
  shows "mm_malloc sz s = Inr (0, s')"
  using assms(3,4) client_positive [OF assms(1,2)] by (auto simp: mm_realloc_def csplit Let_def split: if_splits)

text \<open>
  C22. Resizing a payload the client holds, to any size from 0 to 2^64 - 32, returns. Size 0 releases the payload and returns
  NULL. For a positive size, NULL is returned only when \<open>malloc\<close> refuses that size, with the state unchanged;
  otherwise the client holds the new payload in place of the old one, with the bytes of the old one up to the smaller of the
  two sizes, except for the word at offset 8 of the node released last.
\<close>

theorem realloc_copies:
  assumes "client s live" "(p, r) \<in> set live" "sz + 31 < 2 ^ 64"
  shows "\<exists>p' s'. mm_realloc p sz s = Inr (p', s') \<and>
    (sz = 0 \<longrightarrow> p' = 0 \<and> mm_free p s = Inr s' \<and> client s' (remove1 (p, r) live)) \<and>
    (sz \<noteq> 0 \<and> p' = 0 \<longrightarrow> s' = s \<and> mm_malloc sz s = Inr (0, s)) \<and>
    (p' \<noteq> 0 \<longrightarrow> client s' ((p', sz) # remove1 (p, r) live) \<and>
      (\<forall>i < min r sz. \<not> (last_node s + 8 \<le> p' + i \<and> p' + i < last_node s + 16) \<longrightarrow>
         bytes s' (p' + i) = bytes s (p + i)))"
proof (cases "sz = 0")
  case True
  obtain s' where "mm_free p s = Inr s'" "client s' (remove1 (p, r) live)" by (rule free_keeps [OF assms(1,2)]) (rule that)
  then show ?thesis using True by (simp add: mm_realloc_def)
next
  case False
  then show ?thesis using realloc_run [OF assms(1,2) _ assms(3)] realloc_refused [OF assms(1,2)] by (metis neq0_conv)
qed

text \<open>
  C23. A zeroed allocation of 1 to 2^64 - 32 bytes in all (the product of the two arguments) returns: it hands out a payload of
  zeroes that is apart from the payloads the client holds, or NULL with the state unchanged when \<open>malloc\<close> refuses that many bytes.
\<close>

theorem calloc_zeroes:
  assumes "client s live" "0 < nmemb * sz" "nmemb * sz + 31 < 2 ^ 64"
  shows "\<exists>p s'. mm_calloc nmemb sz s = Inr (p, s') \<and> (p = 0 \<longrightarrow> s' = s \<and> mm_malloc (nmemb * sz) s = Inr (0, s)) \<and>
    (p \<noteq> 0 \<longrightarrow> client s' ((p, nmemb * sz) # live) \<and> (\<forall>i < nmemb * sz. bytes s' (p + i) = 0) \<and>
       (\<forall>(p', r) \<in> set live. (p + nmemb * sz \<le> p' \<or> p' + r \<le> p) \<and> (\<forall>i < r. bytes s' (p' + i) = bytes s (p' + i))))"
proof -
  obtain p s1 where m: "mm_malloc (nmemb * sz) s = Inr (p, s1)" "p = 0 \<Longrightarrow> s1 = s"
    "p \<noteq> 0 \<Longrightarrow> \<forall>(p', r) \<in> set live. (p + nmemb * sz \<le> p' \<or> p' + r \<le> p) \<and> (\<forall>i < r. bytes s1 (p' + i) = bytes s (p' + i))"
    using malloc_serves [OF assms] by blast
  have w: "nmemb * sz mod 2 ^ 64 = nmemb * sz" using assms(3) by simp
  show ?thesis
  proof (cases "p = 0")
    case True
    then show ?thesis using m w by (simp add: mm_calloc_def)
  next
    case False
    let ?s = "s1\<lparr>bytes := memset (bytes s1) p 0 (nmemb * sz)\<rparr>"
    have c1: "client s1 ((p, nmemb * sz) # live)" using client.malloc [OF assms m(1)] False by simp
    have "client ?s ((p, nmemb * sz) # live)"
      by (intro client.store [OF c1]) (auto simp: memset_def split: if_splits)
    moreover have "(p + nmemb * sz \<le> p' \<or> p' + r \<le> p) \<and> (\<forall>i < r. bytes ?s (p' + i) = bytes s (p' + i))" if "(p', r) \<in> set live" for p' r
      using m(3) [OF False] that by (fastforce simp: memset_def)
    moreover have "bytes ?s (p + i) = 0" if "i < nmemb * sz" for i using that by (simp add: memset_def)
    moreover have "mm_calloc nmemb sz s = Inr (p, ?s)" using m(1) w False by (simp add: mm_calloc_def)
    ultimately show ?thesis using False by blast
  qed
qed

text \<open>
  C38. When the node released last has been handed out again and holds at least 16 bytes, the next
  release of another payload overwrites bytes 8 to 15 of it with the address of the newly freed node:
  the allocator corrupts data its client owns.
\<close>

theorem free_overwrites_live_payload:
  assumes "client s live" "(last_node s, r) \<in> set live" "16 \<le> r" "(p, r') \<in> set live" "p \<noteq> last_node s"
  shows "\<exists>s'. mm_free p s = Inr s' \<and> (last_node s, r) \<in> set (remove1 (p, r') live) \<and>
    load64 (bytes s') (last_node s + 8) = last_node s' \<and> last_node s' \<noteq> 0"
proof -
  obtain s' where s': "mm_free p s = Inr s'" "client_inv s' (remove1 (p, r') live)"
    "\<And>r. (last_node s, r) \<in> set live \<Longrightarrow> last_node s \<noteq> p \<Longrightarrow>
       load64 (bytes s') (last_node s + 8) = last_node s'"
    by (rule client_free_run [OF client_invariant [OF assms(1)] assms(4)]) (rule that)
  have "p \<noteq> 0" using client_positive [OF assms(1,4)] by simp
  then have "last_node s' \<noteq> 0"
    using s'(1) by (auto simp: mm_free_def Let_def csplit split: prod.splits if_splits)
  with s' assms(2,5) show ?thesis by auto
qed

text \<open>A request of no bytes gets a block of 16 bytes, in which the links of a freed node do not fit.\<close>

lemma find_fit_stuck: "p < mem_heap_hi s \<Longrightarrow> get_size p s = 0 \<Longrightarrow> 0 < sz \<Longrightarrow> find_fit_from n p sz s = Inl Endless_search"
  by (induction n) simp_all

lemma zero_block:
  assumes "heap_inv s []" "mem_brk s + 16 \<le> mem_max_addr s" "last_node s = 0"
  obtains s1 where "mm_malloc 0 s = Inr (first_block s + 8, s1)" "heap_inv s1 [(16, True)]" "first_block s1 = first_block s"
    "last_node s1 = 0" "mem_max_addr s1 = mem_max_addr s"
proof -
  let ?b = "mem_brk s" and ?t = "s\<lparr>mem_brk := mem_brk s + 16\<rparr>"
  have rep: "heap_rep s []" using assms(1) by (simp add: heap_inv_def)
  then have b: "?b = first_block s" by (simp add: heap_rep_def)
  have z: "block_size 0 = 16" by (simp add: block_size_def round_up_def header_bytes_def ALIGNMENT_def)
  have sb: "mem_sbrk 16 s = (Some ?b, ?t)" using assms(2) by (simp add: mem_sbrk_def)
  note e = extend_rep [OF rep sb]
  have "heap_inv (write_block ?b 16 True ?t) [(16, True)]"
    using e(2) assms(3) by (simp add: heap_inv_def node_ok_def)
  moreover have "mm_malloc 0 s = Inr (first_block s + 8, write_block ?b 16 True ?t)"
    using b by (simp add: mm_malloc_def Let_def z find_fit_blocks [OF rep] sb write_block_def header_bytes_def)
  ultimately show thesis using assms(3) by (intro that [of "write_block ?b 16 True ?t"]) simp_all
qed

text \<open>Freeing it zeroes the header of the next block.\<close>

lemma zero_block_freed:
  assumes inv: "heap_inv s [(16, True), (n, True)]" and "last_node s = 0" "32 \<le> n"
  obtains s' where "mm_free (first_block s + 8) s = Inr s'" "get_size (first_block s) s' = 16" "get_size (first_block s + 16) s' = 0"
    "first_block s' = first_block s" "mem_brk s' = first_block s + 16 + n"
proof -
  let ?F = "first_block s"
  have rep: "heap_rep s ([] @ (16, True) # [(n, True)])" using inv by (simp add: heap_inv_def)
  have m: "merged [] 16 [(n, True)] = ([], 16, [(n, True)])" by (simp add: merged_def prev_free_def next_free_def)
  obtain t where c: "coalesce ?F s = (?F, t)" "heap_rep t [(16, False), (n, True)]" "first_block t = ?F" "last_node t = 0"
    by (rule coalesce_rep [OF rep m]) (use assms(2) in simp)
  let ?s = "link_node (?F + 8) t"
  have "cell_ok (bytes t) (?F, 16, False)" using c(2,3) by (simp add: heap_rep_def cells_ok_Cons)
  note r = cell_ok_reads [OF this]
  have l: "link_node (?F + 8) t = t\<lparr>bytes := store64 (store64 (bytes t) (?F + 8) 0) (?F + 16) 0, last_node := ?F + 8\<rparr>"
    using c(4) by (simp add: link_node_def Let_def set_prev_def set_next_def add.commute [of 16])
  have "mm_free (?F + 8) s = Inr ?s" using c(1) r by (simp add: mm_free_def header_bytes_def)
  moreover have "get_size ?F ?s = get_size ?F t" unfolding l by (simp add: get_size_def quad.load_other)
  moreover have "get_size (?F + 16) ?s = 0" unfolding l by (simp add: get_size_def quad.load_same)
  moreover have "mem_brk ?s = ?F + 16 + n" using c(2,3) by (simp add: heap_rep_def)
  ultimately show thesis using r(1) c(3) by (intro that [of ?s]) simp_all
qed

text \<open>
  C36. A request of no bytes breaks the allocator. On a heap that has just been emptied, \<open>malloc(0)\<close> and any further request
  are served; releasing the first payload then writes the links of the free node over the header of the second block, so that
  the heap checker fails its assertion, and every later request of 1 to 2^64 - 32 bytes searches for ever.
\<close>

theorem zero_request_corrupts:
  assumes "mm_init s = (0, s0)" "16 dvd heap s" "mem_max_addr s \<le> 2 * heap s" "mem_max_addr s < 2 ^ 63" "last_node s = 0"
    "0 < req" "req + 31 < 2 ^ 64" "heap s + 24 + rounded_request req \<le> mem_max_addr s"
  shows "\<exists>s1 s2 s3. mm_malloc 0 s0 = Inr (heap s + 16, s1) \<and> mm_malloc req s1 = Inr (heap s + 32, s2) \<and>
    mm_free (heap s + 16) s2 = Inr s3 \<and> mm_checkheap s3 = Inl Assertion_failed \<and>
    (\<forall>m. 0 < m \<and> m + 31 < 2 ^ 64 \<longrightarrow> mm_malloc m s3 = Inl Endless_search)"
proof -
  let ?F = "heap s + 8" and ?n = "rounded_request req"
  have s0: "s0 = s\<lparr>mem_brk := ?F\<rparr>"
    using assms(1) by (auto simp: mm_init_def mem_sbrk_def mem_reset_brk_def ALIGNMENT_def header_bytes_def split: if_splits)
  then have F: "first_block s0 = ?F" by (simp add: first_block_def mem_heap_lo_def ALIGNMENT_def header_bytes_def)
  have "heap_inv s0 []" using assms(2-5,8) F by (simp add: heap_inv_def heap_rep_def node_ok_def s0)
  moreover have "mem_brk s0 + 16 \<le> mem_max_addr s0" "last_node s0 = 0" using assms(5,8) by (simp_all add: s0)
  ultimately obtain s1 where s1: "mm_malloc 0 s0 = Inr (?F + 8, s1)" "heap_inv s1 [(16, True)]" "first_block s1 = ?F"
    "last_node s1 = 0" "mem_max_addr s1 = mem_max_addr s" unfolding F [symmetric] by (rule zero_block) (simp add: s0)
  note n = rounded_request_eq [OF assms(7)] and n32 = block_size_ok(4) [OF assms(6,7)]
  have brk: "mem_brk s1 = ?F + 16" using s1(2,3) by (simp add: heap_inv_def heap_rep_def)
  have "mem_sbrk (block_size req) s1 = (Some (mem_brk s1), s1\<lparr>mem_brk := mem_brk s1 + block_size req\<rparr>)"
    using assms(4,8) s1(5) brk by (simp add: mem_sbrk_def n)
  moreover have "first_fit (block_size req) (first_block s1) [(16, True)] = None" by simp
  ultimately obtain s2 where s2: "mm_malloc req s1 = Inr (?F + 24, s2)" "heap_inv s2 [(16, True), (?n, True)]" "first_block s2 = ?F"
    using malloc_extends [OF s1(2) assms(6,7)] s1(3) by (auto simp: n)
  have "last_node s2 = 0" using malloc_last_node [OF s2(1)] s1(4) by simp
  then obtain s3 where s3: "mm_free (?F + 8) s2 = Inr s3" "get_size ?F s3 = 16" "get_size (?F + 16) s3 = 0"
    "first_block s3 = ?F" "mem_brk s3 = ?F + 16 + ?n"
    using zero_block_freed [OF s2(2)] n32 unfolding s2(3) n by metis
  have hi: "?F + 16 < mem_heap_hi s3" using s3(5) n32 by (simp add: mem_heap_hi_def n)
  obtain k where k: "mem_brk s3 + 1 = Suc (Suc k)" using s3(5) by (cases "mem_brk s3") auto
  have "mm_checkheap s3 = Inl Assertion_failed"
    unfolding mm_checkheap_def k s3(4) using hi s3(2,3) by (simp add: ALIGNMENT_def)
  moreover have "mm_malloc m s3 = Inl Endless_search" if "0 < m" "m + 31 < 2 ^ 64" for m
  proof -
    have "32 \<le> block_size m" by (rule block_size_ok(4) [OF that])
    then have "find_fit (block_size m) s3 = Inl Endless_search"
      unfolding find_fit_def k s3(4) using hi s3(2,3) find_fit_stuck [of "?F + 16" s3 "block_size m" "Suc k"] by simp
    then show ?thesis by (simp add: mm_malloc_def Let_def)
  qed
  moreover have "?F + 8 = heap s + 16" "?F + 24 = heap s + 32" by simp_all
  ultimately show ?thesis using s1(1) s2(1) s3(1) by metis
qed

text \<open>
  For the sixteen requests from 2^64 - 31 to 2^64 - 16 the block size wraps around to zero, and on a
  fresh heap such a request is served: a payload past the break is handed out, nothing is reserved.
\<close>

theorem huge_request_wraps:
  assumes "2 ^ 64 - 31 \<le> req" "req \<le> 2 ^ 64 - 16" "mm_init s = (0, s0)"
  shows "block_size req = 0 \<and>
    (\<exists>s'. mm_malloc req s0 = Inr (first_block s + 8, s') \<and> mem_brk s' = mem_brk s0 \<and> mem_brk s' = first_block s)"
proof -
  have "(req + 16) mod 2 ^ 64 = (if req = 2 ^ 64 - 16 then 0 else req + 16)" using assms(1,2) by auto
  moreover have "(req + 31) mod 2 ^ 64 < 16" using assms(1,2) by (subst mod_if, subst mod_if) auto
  ultimately have z: "block_size req = 0"
    by (auto simp: block_size_def round_up_def header_bytes_def ALIGNMENT_def add.commute)
  have s0: "s0 = s\<lparr>mem_brk := first_block s\<rparr>" "first_block s0 = first_block s" "first_block s \<le> mem_max_addr s"
    using assms(3) by (auto simp: mm_init_def mem_sbrk_def mem_reset_brk_def ALIGNMENT_def header_bytes_def
      first_block_def mem_heap_lo_def split: if_splits)
  have "\<not> first_block s < first_block s - 1" by simp
  then have "find_fit 0 s0 = Inr None"
    using s0 by (simp add: find_fit_def mem_heap_hi_def)
  then show ?thesis
    using z s0 by (simp add: mm_malloc_def mem_sbrk_def header_bytes_def set_footer_def set_header_def)
qed

section \<open>A run\<close>

text \<open>
  A region of 1024 bytes; two requests of 16 bytes, the release of the first payload, and a third
  request that gets it again.
\<close>

definition sample_heap :: "nat \<Rightarrow> mem \<Rightarrow> nat \<Rightarrow> heap_state" where
  "sample_heap brk m node = \<lparr>heap = 1024, mem_brk = brk, mem_max_addr = 2048, bytes = m, last_node = node\<rparr>"

definition sample_block :: "nat \<Rightarrow> nat \<Rightarrow> mem \<Rightarrow> mem" where
  "sample_block q v m = store64 (store64 m q v) (q + 24) v"

definition sample_mem :: mem where
  "sample_mem = sample_block 1064 33 (sample_block 1032 33 (\<lambda>_. 0))"

definition sample_reused :: mem where
  "sample_reused = sample_block 1032 33 (store64 (store64 (sample_block 1032 32 sample_mem) 1040 0) 1048 0)"

lemma find_fit_from_numeral: "find_fit_from (numeral k) p sz s =
     (if p < mem_heap_hi s then
        if sz \<le> get_size p s \<and> \<not> check_allocated p s then Inr (Some p)
        else find_fit_from (pred_numeral k) (p + get_size p s) sz s
      else Inr None)"
  by (simp add: numeral_eq_Suc)

lemmas sample_eval = mm_malloc_def find_fit_def find_fit_from_numeral block_size_def round_up_def
  header_bytes_def ALIGNMENT_def first_block_def mem_heap_lo_def mem_heap_hi_def mem_sbrk_def set_header_def
  set_footer_def get_size_def check_allocated_def with_bit_def split_block_def sub64_le quad.load_same
  quad.load_other sample_heap_def sample_block_def sample_mem_def sample_reused_def mm_free_def coalesce_def
  next_block_def prev_block_def merge_def link_node_def set_prev_def set_next_def Let_def

lemma sample_start: "mm_init (sample_heap 0 (\<lambda>_. 0) 0) = (0, sample_heap 1032 (\<lambda>_. 0) 0)"
  by (simp add: mm_init_def mem_reset_brk_def sample_eval)

lemma sample_first: "mm_malloc 16 (sample_heap 1032 (\<lambda>_. 0) 0) =
    Inr (1040, sample_heap 1064 (sample_block 1032 33 (\<lambda>_. 0)) 0)"
  by (simp add: sample_eval)

lemma sample_second: "mm_malloc 16 (sample_heap 1064 (sample_block 1032 33 (\<lambda>_. 0)) 0) =
    Inr (1072, sample_heap 1096 sample_mem 0)"
  by (simp add: sample_eval)

lemma sample_release: "mm_free 1040 (sample_heap 1096 sample_mem 0) =
    Inr (sample_heap 1096 (store64 (store64 (sample_block 1032 32 sample_mem) 1040 0) 1048 0) 1040)"
  by (simp add: sample_eval)

lemma sample_third: "mm_malloc 16 (sample_heap 1096 (store64 (store64 (sample_block 1032 32 sample_mem) 1040 0) 1048 0) 1040) =
    Inr (1040, sample_heap 1096 sample_reused 1040)"
  by (simp add: sample_eval)

lemma sample_client: "client (sample_heap 1096 sample_reused 1040) [(1040, 16), (1072, 16)]"
proof -
  have "client (sample_heap 1032 (\<lambda>_. 0) 0) []"
    using sample_start by (intro client.start [of "sample_heap 0 (\<lambda>_. 0) 0"]) (simp_all add: sample_heap_def)
  from client.malloc [OF this _ _ sample_first]
  have "client (sample_heap 1064 (sample_block 1032 33 (\<lambda>_. 0)) 0) [(1040, 16)]" by simp
  from client.malloc [OF this _ _ sample_second]
  have "client (sample_heap 1096 sample_mem 0) [(1072, 16), (1040, 16)]" by simp
  from client.free [OF this _ sample_release]
  have "client (sample_heap 1096 (store64 (store64 (sample_block 1032 32 sample_mem) 1040 0) 1048 0) 1040) [(1072, 16)]"
    by simp
  from client.malloc [OF this _ _ sample_third] show ?thesis by simp
qed

theorem client_safe_witness:
  "mm_checkheap (sample_heap 1096 sample_reused 1040) = Inr () \<and> (1040 :: nat) mod ALIGNMENT = 0 \<and>
   mem_heap_lo (sample_heap 1096 sample_reused 1040) < 1040"
  using client_safe [OF sample_client] by simp

theorem malloc_serves_request_witness:
  "\<exists>p s'. mm_malloc 100 (sample_heap 1096 sample_reused 1040) = Inr (p, s') \<and> p \<noteq> 0 \<and> get_size (p - 8) s' = 128 \<and>
     bytes s' 1075 = bytes (sample_heap 1096 sample_reused 1040) 1075"
proof -
  let ?s = "sample_heap 1096 sample_reused 1040"
  have n: "rounded_request 100 = 128" by (simp add: rounded_request_def)
  obtain p s' where r: "mm_malloc 100 ?s = Inr (p, s')"
    "p = 0 \<Longrightarrow> \<not> mem_brk ?s + rounded_request 100 \<le> mem_max_addr ?s"
    "p \<noteq> 0 \<Longrightarrow> get_size (p - 8) s' = rounded_request 100 \<and> (\<forall>i < 16. bytes s' (1072 + i) = bytes ?s (1072 + i))"
    using malloc_serves_request [OF sample_client, of 100] by (simp split: if_splits) fastforce+
  have "p \<noteq> 0" using r(2) n by (auto simp: sample_heap_def)
  with r(3) n have "get_size (p - 8) s' = 128" "\<forall>i < 16. bytes s' (1072 + i) = bytes ?s (1072 + i)" by auto
  from this(1) this(2) [rule_format, of 3] r(1) \<open>p \<noteq> 0\<close> show ?thesis by auto
qed

theorem free_keeps_others_witness:
  "\<exists>s'. mm_free 1072 (sample_heap 1096 sample_reused 1040) = Inr s' \<and> client s' [(1040, 16)] \<and>
     bytes s' 1042 = bytes (sample_heap 1096 sample_reused 1040) 1042"
proof -
  obtain s' where "mm_free 1072 (sample_heap 1096 sample_reused 1040) = Inr s'" "client s' [(1040, 16)]"
    and k: "\<forall>i < 16. \<not> (last_node (sample_heap 1096 sample_reused 1040) + 8 \<le> 1040 + i \<and>
      1040 + i < last_node (sample_heap 1096 sample_reused 1040) + 16) \<longrightarrow>
      bytes s' (1040 + i) = bytes (sample_heap 1096 sample_reused 1040) (1040 + i)"
    using free_keeps_others [OF sample_client, of 1072 16] by auto
  moreover have "bytes s' 1042 = bytes (sample_heap 1096 sample_reused 1040) 1042"
    using k [rule_format, of 2] by (simp add: sample_heap_def)
  ultimately show ?thesis by blast
qed

theorem realloc_copies_witness:
  "\<exists>p' s'. mm_realloc 1072 100 (sample_heap 1096 sample_reused 1040) = Inr (p', s') \<and>
     (p' \<noteq> 0 \<longrightarrow> client s' [(p', 100), (1040, 16)])"
  using realloc_copies [OF sample_client, of 1072 16 100] by auto

theorem calloc_zeroes_witness:
  "\<exists>p s'. mm_calloc 5 20 (sample_heap 1096 sample_reused 1040) = Inr (p, s') \<and>
     (p \<noteq> 0 \<longrightarrow> client s' [(p, 100), (1040, 16), (1072, 16)])"
  using calloc_zeroes [OF sample_client, of 5 20] by auto

theorem free_overwrites_live_payload_witness:
  "\<exists>s'. mm_free 1072 (sample_heap 1096 sample_reused 1040) = Inr s' \<and> load64 (bytes s') 1048 = last_node s'"
  using free_overwrites_live_payload [OF sample_client, of 16 1072 16] by (auto simp: sample_heap_def)

theorem zero_request_corrupts_witness:
  "\<exists>s1 s2 s3. mm_malloc 0 (sample_heap 1032 (\<lambda>_. 0) 0) = Inr (1040, s1) \<and> mm_malloc 1 s1 = Inr (1056, s2) \<and> mm_free 1040 s2 = Inr s3 \<and>
     mm_checkheap s3 = Inl Assertion_failed \<and> mm_malloc 1 s3 = Inl Endless_search"
  using zero_request_corrupts [OF sample_start, of 1] by (force simp: sample_heap_def rounded_request_def)

theorem huge_request_wraps_witness:
  "\<exists>s'. mm_malloc (2 ^ 64 - 20) (sample_heap 1032 (\<lambda>_. 0) 0) = Inr (1040, s') \<and> mem_brk s' = 1032"
  using huge_request_wraps [of "2 ^ 64 - 20", OF _ _ sample_start]
  by (auto simp: sample_heap_def first_block_def mem_heap_lo_def ALIGNMENT_def header_bytes_def)

end
