(* ===== verification/Allocator.thy ===== *)
theory Allocator
  imports C_Prelude
begin

text \<open>
  What the users of an allocator rely on. The repository has two: \<open>project04-kweng/mm.c\<close>, whose handles are
  the payload addresses, and the reference table of Subpython (\<open>project05-kweng/refs.c\<close>), whose handles are references
  and which may be served from a free list of its own. Both provide the interface of this theory.
\<close>

section \<open>Sessions of requests\<close>

text \<open>Release names one of the handles held by its position in the list.\<close>

datatype request = Allocate nat | Release nat

fun serve :: "(nat \<Rightarrow> 's \<Rightarrow> ('h option \<times> 's) option) \<Rightarrow> ('h \<Rightarrow> 's \<Rightarrow> 's option) \<Rightarrow> request list \<Rightarrow> 's \<Rightarrow> ('h \<times> nat) list \<Rightarrow>
    ('s \<times> ('h \<times> nat) list) option" where
  "serve alloc release [] s live = Some (s, live)"
| "serve alloc release (Allocate n # rs) s live =
     (case alloc n s of
        None \<Rightarrow> None
      | Some (None, s') \<Rightarrow> serve alloc release rs s' live
      | Some (Some h, s') \<Rightarrow> serve alloc release rs s' ((h, n) # live))"
| "serve alloc release (Release i # rs) s live =
     (if i < length live then
        case release (fst (live ! i)) s of
          None \<Rightarrow> None
        | Some s' \<Rightarrow> serve alloc release rs s' (remove1 (live ! i) live)
      else serve alloc release rs s live)"

primrec allocation :: "request \<Rightarrow> bool" where
  "allocation (Allocate n) = True"
| "allocation (Release i) = False"

primrec acceptable :: "(nat \<Rightarrow> bool) \<Rightarrow> request \<Rightarrow> bool" where
  "acceptable P (Allocate n) = P n"
| "acceptable P (Release i) = True"

section \<open>The interface\<close>

locale allocator =
  fixes holds :: "'s \<Rightarrow> ('h \<times> nat) list \<Rightarrow> bool"
    and place :: "'s \<Rightarrow> 'h \<Rightarrow> nat"
    and extent_of :: "nat \<Rightarrow> nat"
    and fine :: "nat \<Rightarrow> bool"
    and alloc :: "nat \<Rightarrow> 's \<Rightarrow> ('h option \<times> 's) option"
    and release :: "'h \<Rightarrow> 's \<Rightarrow> 's option"
  assumes handles_distinct: "holds s live \<Longrightarrow> distinct (map fst live)"
    and places_apart: "holds s live \<Longrightarrow> (p, m) \<in> set live \<Longrightarrow> (q, n) \<in> set live \<Longrightarrow> p \<noteq> q \<Longrightarrow>
      place s p + extent_of m \<le> place s q \<or> place s q + extent_of n \<le> place s p"
    and alloc_law: "holds s live \<Longrightarrow> fine n \<Longrightarrow> \<exists>h s'. alloc n s = Some (h, s') \<and>
      holds s' (case h of None \<Rightarrow> live | Some p \<Rightarrow> (p, n) # live) \<and> (\<forall>(q, m) \<in> set live. place s' q = place s q)"
    and release_law: "holds s live \<Longrightarrow> (p, n) \<in> set live \<Longrightarrow> \<exists>s'. release p s = Some s' \<and>
      holds s' (remove1 (p, n) live) \<and> (\<forall>(q, m) \<in> set (remove1 (p, n) live). place s' q = place s q)"
begin

text \<open>Every session is served to its end, and what is held then is held in separate places.\<close>

lemma session_served:
  "holds s live \<Longrightarrow> list_all (acceptable fine) rs \<Longrightarrow> \<exists>s' live'. serve alloc release rs s live = Some (s', live') \<and> holds s' live'"
proof (induction rs arbitrary: s live)
  case (Cons r rs)
  show ?case
  proof (cases r)
    case (Allocate n)
    then obtain h s' where "alloc n s = Some (h, s')" "holds s' (case h of None \<Rightarrow> live | Some p \<Rightarrow> (p, n) # live)"
      using alloc_law [OF Cons.prems(1), of n] Cons.prems(2) by auto
    then show ?thesis using Cons.IH [of s'] Cons.prems(2) Allocate by (cases h) auto
  next
    case (Release i)
    show ?thesis
    proof (cases "i < length live")
      case True
      then have "(fst (live ! i), snd (live ! i)) \<in> set live" by simp
      then obtain s' where "release (fst (live ! i)) s = Some s'" "holds s' (remove1 (live ! i) live)"
        using release_law [OF Cons.prems(1)] by (metis prod.collapse)
      then show ?thesis using Cons.IH [of s'] Cons.prems(2) Release True by simp
    qed (use Cons Release in simp)
  qed
qed simp

lemma session_apart:
  assumes "holds s live" "list_all (acceptable fine) rs"
  obtains s' live' where "serve alloc release rs s live = Some (s', live')" "holds s' live'" "distinct (map fst live')"
    "\<And>p m q n. (p, m) \<in> set live' \<Longrightarrow> (q, n) \<in> set live' \<Longrightarrow> p \<noteq> q \<Longrightarrow>
       place s' p + extent_of m \<le> place s' q \<or> place s' q + extent_of n \<le> place s' p"
  using session_served [OF assms] handles_distinct places_apart by metis

text \<open>A session that releases nothing leaves everything where it is.\<close>

lemma session_stays:
  "holds s live \<Longrightarrow> list_all (acceptable fine) rs \<Longrightarrow> list_all allocation rs \<Longrightarrow> serve alloc release rs s live = Some (s', live') \<Longrightarrow>
   (q, m) \<in> set live \<Longrightarrow> (q, m) \<in> set live' \<and> place s' q = place s q"
proof (induction rs arbitrary: s live)
  case (Cons r rs)
  then obtain n where n: "r = Allocate n" by (cases r) auto
  then obtain h t where t: "alloc n s = Some (h, t)" "holds t (case h of None \<Rightarrow> live | Some p \<Rightarrow> (p, n) # live)"
    "place t q = place s q"
    using alloc_law [OF Cons.prems(1), of n] Cons.prems(2,5) by auto
  then have "(q, m) \<in> set live' \<and> place s' q = place t q" using Cons.IH [OF t(2)] Cons.prems(2-5) n by (cases h) auto
  then show ?case using t(3) by simp
qed simp

end

end
