(* ===== verification/Malloc_Sessions.thy ===== *)
theory Malloc_Sessions
  imports Malloc_Client Allocator
begin

text \<open>
  The allocator of \<open>project04-kweng/mm.c\<close> behind the interface of \<open>Allocator\<close>: handles are payload addresses, and requests of 1 to
  \<open>2 ^ 64 - 32\<close> bytes are served by \<open>malloc\<close> and \<open>free\<close>.
\<close>

definition malloc_request :: "nat \<Rightarrow> heap_state \<Rightarrow> (nat option \<times> heap_state) option" where
  "malloc_request n s = (case mm_malloc n s of Inl _ \<Rightarrow> None | Inr (p, s') \<Rightarrow> Some (if p = 0 then None else Some p, s'))"

definition free_request :: "nat \<Rightarrow> heap_state \<Rightarrow> heap_state option" where
  "free_request p s = (case mm_free p s of Inl _ \<Rightarrow> None | Inr s' \<Rightarrow> Some s')"

definition malloc_fine :: "nat \<Rightarrow> bool" where
  "malloc_fine n \<longleftrightarrow> 0 < n \<and> n + 31 < 2 ^ 64"

interpretation mal: allocator client "\<lambda>s p. p" "\<lambda>n. n" malloc_fine malloc_request free_request
proof
  fix s live
  assume c: "client s live"
  obtain bs where bs: "heap_rep s bs" "live_ok s bs live"
    using client_invariant [OF c] by (auto simp: client_inv_def heap_inv_def)
  show "distinct (map fst live)" using bs(2) by (simp add: live_ok_def)
  show "p + m \<le> q \<or> q + n \<le> p" if "(p, m) \<in> set live" "(q, n) \<in> set live" "p \<noteq> q" for p m q n
    using live_apart [OF bs that] by auto
  show "\<exists>h s'. malloc_request n s = Some (h, s') \<and> client s' (case h of None \<Rightarrow> live | Some p \<Rightarrow> (p, n) # live) \<and> (\<forall>(q, m) \<in> set live. q = q)"
    if "malloc_fine n" for n
  proof -
    have n: "0 < n" "n + 31 < 2 ^ 64" using that by (simp_all add: malloc_fine_def)
    obtain p s' where m: "mm_malloc n s = Inr (p, s')" using malloc_serves [OF c n] by metis
    then show ?thesis using client.malloc [OF c n m] by (simp add: malloc_request_def split: if_splits)
  qed
  show "\<exists>s'. free_request p s = Some s' \<and> client s' (remove1 (p, n) live) \<and> (\<forall>(q, m) \<in> set (remove1 (p, n) live). q = q)"
    if "(p, n) \<in> set live" for p n
    by (rule free_keeps [OF c that]) (auto simp: free_request_def)
qed

text \<open>C8. From a fresh heap, every sequence of requests is served to its end: \<open>malloc\<close> of any size from 1 to \<open>2 ^ 64 - 32\<close> and
  \<open>free\<close> of any payload held return (no assertion fails, the search stays inside the heap), and the payloads held at the
  end are distinct and pairwise apart.\<close>

theorem sessions_served:
  assumes "client s []" "list_all (acceptable malloc_fine) rs"
  shows "\<exists>s' live. serve malloc_request free_request rs s [] = Some (s', live) \<and> client s' live \<and> distinct (map fst live) \<and>
    (\<forall>(p, m) \<in> set live. \<forall>(q, n) \<in> set live. p \<noteq> q \<longrightarrow> p + m \<le> q \<or> q + n \<le> p)"
proof -
  obtain s' live where "serve malloc_request free_request rs s [] = Some (s', live)" "client s' live" "distinct (map fst live)"
    "\<And>p m q n. (p, m) \<in> set live \<Longrightarrow> (q, n) \<in> set live \<Longrightarrow> p \<noteq> q \<Longrightarrow> p + m \<le> q \<or> q + n \<le> p"
    by (rule mal.session_apart [OF assms]) (rule that)
  then show ?thesis by blast
qed

theorem sessions_served_witness:
  "\<exists>s' live. serve malloc_request free_request [Allocate 16, Allocate 100, Release 1, Allocate 8, Release 0] (sample_heap 1032 (\<lambda>_. 0) 0) [] = Some (s', live) \<and>
    client s' live \<and> distinct (map fst live) \<and> (\<forall>(p, m) \<in> set live. \<forall>(q, n) \<in> set live. p \<noteq> q \<longrightarrow> p + m \<le> q \<or> q + n \<le> p)"
proof (rule sessions_served)
  show "client (sample_heap 1032 (\<lambda>_. 0) 0) []" by (rule client.start [OF _ _ _ _ _ sample_start]) (simp_all add: sample_heap_def)
qed (simp add: malloc_fine_def)

end
