(* ===== verification/Mdriver.thy ===== *)
theory Mdriver
  imports Malloc_Heap
begin

text \<open>
  The driver of the malloc project (\<open>project04-kweng/mdriver.c\<close>): trace files and how they are read, the list of ranges with which
  the driver looks for overlaps, the random data it writes into payloads, and the evaluation of the allocator on a trace. The numbers
  \<open>random\<close> returns are a parameter.
\<close>

section \<open>Data\<close>

datatype driver_stop = Heap_stop merr | Assertion_stop | Out_of_array | Uninitialised | Application_error | System_error | Endless_loop | Exited int

datatype debug = DBG_NONE | DBG_CHEAP | DBG_EXPENSIVE

record range_t =
  lo :: nat
  hi :: nat
  range_index :: int

datatype op_type = ALLOC | FREE | REALLOC

record traceop_t =
  op_type :: op_type
  op_index :: int
  op_size :: nat

record trace_t =
  ignore_ranges :: int
  num_ids :: int
  num_ops :: int
  weight :: int
  ops :: "traceop_t list"
  blocks :: "nat list"
  block_sizes :: "nat list"
  block_rand_base :: "nat list"

record driver =
  mem_sys :: heap_state
  ranges :: "range_t list"
  errors :: nat
  random_data :: "nat \<Rightarrow> 8 word"
  random_count :: nat

definition RANDOM_DATA_LEN :: nat where "RANDOM_DATA_LEN = 2 ^ 16"

definition malloc_error :: "driver \<Rightarrow> driver" where
  "malloc_error d = d\<lparr>errors := errors d + 1\<rparr>"

text \<open>Access to the arrays of a trace, which have \<open>num_ids\<close> elements.\<close>

definition in_array :: "int \<Rightarrow> 'a list \<Rightarrow> bool" where
  "in_array i xs \<longleftrightarrow> 0 \<le> i \<and> nat i < length xs"

definition element :: "'a list \<Rightarrow> int \<Rightarrow> (driver_stop, 'a) res" where
  "element xs i = bindE (assertE (in_array i xs) Out_of_array) (\<lambda>_. Inr (xs ! nat i))"

definition set_element :: "'a list \<Rightarrow> int \<Rightarrow> 'a \<Rightarrow> (driver_stop, 'a list) res" where
  "set_element xs i v = bindE (assertE (in_array i xs) Out_of_array) (\<lambda>_. Inr (xs[nat i := v]))"

definition heap_run :: "(merr, 'a) res \<Rightarrow> (driver_stop, 'a) res" where
  "heap_run r = (case r of Inl e \<Rightarrow> Inl (Heap_stop e) | Inr x \<Rightarrow> Inr x)"

section \<open>Ranges\<close>

definition IS_ALIGNED :: "nat \<Rightarrow> bool" where
  "IS_ALIGNED p \<longleftrightarrow> p mod ALIGNMENT = 0"

definition outside_heap :: "nat \<Rightarrow> nat \<Rightarrow> heap_state \<Rightarrow> bool" where
  "outside_heap l h s \<longleftrightarrow> l < mem_heap_lo s \<or> mem_heap_hi s < l \<or> h < mem_heap_lo s \<or> mem_heap_hi s < h"

definition overlaps_range :: "nat \<Rightarrow> nat \<Rightarrow> range_t \<Rightarrow> bool" where
  "overlaps_range l h r \<longleftrightarrow> lo r \<le> l \<and> l \<le> hi r \<or> lo r \<le> h \<and> h \<le> hi r"

text \<open>The size is an \<open>int\<close>: what a caller passes is cut down to 32 bits.\<close>

definition int_of_size :: "nat \<Rightarrow> int" where
  "int_of_size n = sint (word_of_nat n :: 32 word)"

definition add_range :: "debug \<Rightarrow> trace_t \<Rightarrow> nat \<Rightarrow> nat \<Rightarrow> int \<Rightarrow> driver \<Rightarrow> (driver_stop, bool \<times> driver) res" where
  "add_range debug_mode tr l req index d =
     (let sz = int_of_size req; h = nat (int l + sz - 1) in
      bindE (assertE (0 < sz) Assertion_stop) (\<lambda>_.
      if \<not> IS_ALIGNED l then Inr (False, malloc_error d)
      else if outside_heap l h (mem_sys d) then Inr (False, malloc_error d)
      else if ignore_ranges tr \<noteq> 0 \<or> debug_mode = DBG_NONE then Inr (True, d)
      else if (\<exists>r \<in> set (ranges d). overlaps_range l h r) then Inr (False, malloc_error d)
      else Inr (True, d\<lparr>ranges := \<lparr>lo = l, hi = h, range_index = index\<rparr> # ranges d\<rparr>)))"

fun remove_first :: "nat \<Rightarrow> range_t list \<Rightarrow> range_t list" where
  "remove_first l [] = []"
| "remove_first l (r # rs) = (if lo r = l then rs else r # remove_first l rs)"

definition remove_range :: "nat \<Rightarrow> driver \<Rightarrow> driver" where
  "remove_range l d = d\<lparr>ranges := remove_first l (ranges d)\<rparr>"

definition clear_ranges :: "driver \<Rightarrow> driver" where
  "clear_ranges d = d\<lparr>ranges := []\<rparr>"

section \<open>Random data\<close>

definition init_random_data :: "(nat \<Rightarrow> nat) \<Rightarrow> debug \<Rightarrow> driver \<Rightarrow> driver" where
  "init_random_data random debug_mode d =
     (if debug_mode = DBG_NONE then d
      else d\<lparr>random_data := (\<lambda>i. if i < RANDOM_DATA_LEN then word_of_nat (random (random_count d + i)) else random_data d i),
             random_count := random_count d + RANDOM_DATA_LEN\<rparr>)"

definition random_byte :: "driver \<Rightarrow> nat \<Rightarrow> nat \<Rightarrow> 8 word" where
  "random_byte d base i = random_data d ((base + i) mod RANDOM_DATA_LEN)"

text \<open>\<open>random\<close> returns 31 bits, so that the base is not negative.\<close>

definition randomize_block :: "(nat \<Rightarrow> nat) \<Rightarrow> debug \<Rightarrow> trace_t \<Rightarrow> int \<Rightarrow> driver \<Rightarrow> (driver_stop, trace_t \<times> driver) res" where
  "randomize_block random debug_mode tr index d =
     (if debug_mode = DBG_NONE then Inr (tr, d)
      else let b = random (random_count d) mod 2 ^ 31 in
        bindE (set_element (block_rand_base tr) index b) (\<lambda>bases.
        bindE (element (blocks tr) index) (\<lambda>block.
        bindE (element (block_sizes tr) index) (\<lambda>sz.
        let s = mem_sys d;
            m = (\<lambda>a. if block \<le> a \<and> a < block + sz then random_byte d b (a - block) else bytes s a) in
        Inr (tr\<lparr>block_rand_base := bases\<rparr>, d\<lparr>mem_sys := s\<lparr>bytes := m\<rparr>, random_count := random_count d + 1\<rparr>)))))"

text \<open>A block that no longer holds its data is reported, and the evaluation goes on.\<close>

definition garbled :: "driver \<Rightarrow> nat \<Rightarrow> nat \<Rightarrow> nat \<Rightarrow> bool" where
  "garbled d block base sz \<longleftrightarrow> (\<exists>i < sz. bytes (mem_sys d) (block + i) \<noteq> random_byte d base i)"

definition check_index :: "debug \<Rightarrow> trace_t \<Rightarrow> int \<Rightarrow> driver \<Rightarrow> (driver_stop, driver) res" where
  "check_index debug_mode tr index d =
     (if index < 0 \<or> debug_mode = DBG_NONE then Inr d
      else bindE (element (blocks tr) index) (\<lambda>block.
        bindE (element (block_sizes tr) index) (\<lambda>sz.
        bindE (element (block_rand_base tr) index) (\<lambda>base.
        Inr (if garbled d block base sz then malloc_error d else d)))))"

fun check_ranges :: "debug \<Rightarrow> trace_t \<Rightarrow> range_t list \<Rightarrow> driver \<Rightarrow> (driver_stop, driver) res" where
  "check_ranges debug_mode tr [] d = Inr d"
| "check_ranges debug_mode tr (r # rs) d = bindE (check_index debug_mode tr (range_index r) d) (check_ranges debug_mode tr rs)"

section \<open>Evaluating the allocator on a trace\<close>

definition reinit_trace :: "trace_t \<Rightarrow> trace_t" where
  "reinit_trace tr = tr\<lparr>blocks := replicate (length (blocks tr)) 0, block_sizes := replicate (length (block_sizes tr)) 0\<rparr>"

definition check_all :: "debug \<Rightarrow> trace_t \<Rightarrow> driver \<Rightarrow> (driver_stop, driver) res" where
  "check_all debug_mode tr d =
     (if debug_mode = DBG_EXPENSIVE
      then bindE (heap_run (mm_checkheap (mem_sys d))) (\<lambda>_. check_ranges debug_mode tr (ranges d) d)
      else Inr d)"

text \<open>Each request ends with a verdict: whether the evaluation goes on.\<close>

definition valid_alloc :: "(nat \<Rightarrow> nat) \<Rightarrow> debug \<Rightarrow> int \<Rightarrow> nat \<Rightarrow> trace_t \<Rightarrow> driver \<Rightarrow> (driver_stop, bool \<times> trace_t \<times> driver) res" where
  "valid_alloc random debug_mode index sz tr d =
     bindE (heap_run (mm_malloc sz (mem_sys d))) (\<lambda>(p, s).
     let d1 = d\<lparr>mem_sys := s\<rparr> in
     if p = 0 then Inr (False, tr, malloc_error d1)
     else bindE (add_range debug_mode tr p sz index d1) (\<lambda>(ok, d2).
       if \<not> ok then Inr (False, tr, d2)
       else bindE (set_element (blocks tr) index p) (\<lambda>bs.
         bindE (set_element (block_sizes tr) index sz) (\<lambda>szs.
         bindE (randomize_block random debug_mode (tr\<lparr>blocks := bs, block_sizes := szs\<rparr>) index d2) (\<lambda>(tr', d3).
         Inr (True, tr', d3))))))"

definition valid_realloc :: "(nat \<Rightarrow> nat) \<Rightarrow> debug \<Rightarrow> int \<Rightarrow> nat \<Rightarrow> trace_t \<Rightarrow> driver \<Rightarrow> (driver_stop, bool \<times> trace_t \<times> driver) res" where
  "valid_realloc random debug_mode index sz tr d0 =
     bindE (check_index debug_mode tr index d0) (\<lambda>d.
     bindE (element (blocks tr) index) (\<lambda>oldp.
     bindE (heap_run (mm_realloc oldp sz (mem_sys d))) (\<lambda>(newp, s).
     let d1 = d\<lparr>mem_sys := s\<rparr> in
     if newp = 0 \<and> sz \<noteq> 0 then Inr (False, tr, malloc_error d1)
     else if newp \<noteq> 0 \<and> sz = 0 then Inr (False, tr, malloc_error d1)
     else let d2 = remove_range oldp d1 in
       bindE (if 0 < sz then add_range debug_mode tr newp sz index d2 else Inr (True, d2)) (\<lambda>(ok, d3).
       if \<not> ok then Inr (False, tr, d3)
       else bindE (set_element (blocks tr) index newp) (\<lambda>bs.
         bindE (element (block_sizes tr) index) (\<lambda>oldsize.
         bindE (set_element (block_sizes tr) index (if sz < oldsize then sz else oldsize)) (\<lambda>szs.
         bindE (check_index debug_mode (tr\<lparr>blocks := bs, block_sizes := szs\<rparr>) index d3) (\<lambda>d4.
         bindE (set_element szs index sz) (\<lambda>szs'.
         bindE (randomize_block random debug_mode (tr\<lparr>blocks := bs, block_sizes := szs'\<rparr>) index d4) (\<lambda>(tr', d5).
         Inr (True, tr', d5)))))))))))"

definition valid_free :: "debug \<Rightarrow> int \<Rightarrow> trace_t \<Rightarrow> driver \<Rightarrow> (driver_stop, bool \<times> trace_t \<times> driver) res" where
  "valid_free debug_mode index tr d0 =
     bindE (check_index debug_mode tr index d0) (\<lambda>d.
     bindE (if index = -1 then Inr (0, d) else bindE (element (blocks tr) index) (\<lambda>p. Inr (p, remove_range p d))) (\<lambda>(p, d1).
     bindE (heap_run (mm_free p (mem_sys d1))) (\<lambda>s. Inr (True, tr, d1\<lparr>mem_sys := s\<rparr>))))"

definition valid_op :: "(nat \<Rightarrow> nat) \<Rightarrow> debug \<Rightarrow> traceop_t \<Rightarrow> trace_t \<Rightarrow> driver \<Rightarrow> (driver_stop, bool \<times> trace_t \<times> driver) res" where
  "valid_op random debug_mode rq tr d0 =
     bindE (check_all debug_mode tr d0) (\<lambda>d.
     case op_type rq of
       ALLOC \<Rightarrow> valid_alloc random debug_mode (op_index rq) (op_size rq) tr d
     | REALLOC \<Rightarrow> valid_realloc random debug_mode (op_index rq) (op_size rq) tr d
     | FREE \<Rightarrow> valid_free debug_mode (op_index rq) tr d)"

fun valid_ops :: "(nat \<Rightarrow> nat) \<Rightarrow> debug \<Rightarrow> traceop_t list \<Rightarrow> trace_t \<Rightarrow> driver \<Rightarrow> (driver_stop, bool \<times> trace_t \<times> driver) res" where
  "valid_ops random debug_mode [] tr d = Inr (True, tr, d)"
| "valid_ops random debug_mode (rq # rqs) tr d =
     bindE (valid_op random debug_mode rq tr d) (\<lambda>(ok, tr', d').
     if ok then valid_ops random debug_mode rqs tr' d' else Inr (False, tr', d'))"

definition eval_mm_valid :: "(nat \<Rightarrow> nat) \<Rightarrow> debug \<Rightarrow> trace_t \<Rightarrow> driver \<Rightarrow> (driver_stop, bool \<times> trace_t \<times> driver) res" where
  "eval_mm_valid random debug_mode tr0 d0 =
     (let d = clear_ranges (d0\<lparr>mem_sys := mem_reset_brk (mem_sys d0)\<rparr>); tr = reinit_trace tr0 in
      case mm_init (mem_sys d) of
        (r, s) \<Rightarrow>
          if r < 0 then Inr (False, tr, malloc_error (d\<lparr>mem_sys := s\<rparr>))
          else bindE (assertE (num_ops tr = int (length (ops tr))) Out_of_array) (\<lambda>_.
            valid_ops random debug_mode (ops tr) tr (d\<lparr>mem_sys := s\<rparr>)))"

section \<open>Space utilisation and speed\<close>

text \<open>Sums of sizes are \<open>int\<close>s; the evaluation fails with an application error where the allocator does.\<close>

definition as_int :: "int \<Rightarrow> int" where
  "as_int i = sint (word_of_int i :: 32 word)"

lemma as_int_small: "- (2 ^ 31) \<le> v \<Longrightarrow> v < 2 ^ 31 \<Longrightarrow> as_int v = v"
  by (simp add: as_int_def signed_of_int signed_take_bit_int_eq_self)

definition util_op :: "traceop_t \<Rightarrow> trace_t \<times> int \<times> heap_state \<Rightarrow> (driver_stop, trace_t \<times> int \<times> heap_state) res" where
  "util_op rq = (\<lambda>(tr, total_size, s).
     case op_type rq of
       ALLOC \<Rightarrow>
         let index = op_index rq; sz = int_of_size (op_size rq) in
         bindE (heap_run (mm_malloc (nat (sz mod 2 ^ 64)) s)) (\<lambda>(p, s').
         bindE (assertE (p \<noteq> 0) Application_error) (\<lambda>_.
         bindE (set_element (blocks tr) index p) (\<lambda>bs.
         bindE (set_element (block_sizes tr) index (nat (sz mod 2 ^ 64))) (\<lambda>szs.
         Inr (tr\<lparr>blocks := bs, block_sizes := szs\<rparr>, as_int (total_size + sz), s')))))
     | REALLOC \<Rightarrow>
         let index = op_index rq; newsize = int_of_size (op_size rq) in
         bindE (element (block_sizes tr) index) (\<lambda>old.
         let oldsize = int_of_size old in
         bindE (element (blocks tr) index) (\<lambda>oldp.
         bindE (heap_run (mm_realloc oldp (nat (newsize mod 2 ^ 64)) s)) (\<lambda>(newp, s').
         bindE (assertE (newp \<noteq> 0 \<or> newsize = 0) Application_error) (\<lambda>_.
         bindE (set_element (blocks tr) index newp) (\<lambda>bs.
         bindE (set_element (block_sizes tr) index (nat (newsize mod 2 ^ 64))) (\<lambda>szs.
         Inr (tr\<lparr>blocks := bs, block_sizes := szs\<rparr>, as_int (total_size + as_int (newsize - oldsize)), s')))))))
     | FREE \<Rightarrow>
         let index = op_index rq in
         bindE (if index < 0 then Inr (0, 0)
                else bindE (element (block_sizes tr) index) (\<lambda>sz. bindE (element (blocks tr) index) (\<lambda>p. Inr (int_of_size sz, p)))) (\<lambda>(sz, p).
         bindE (heap_run (mm_free p s)) (\<lambda>s'. Inr (tr, as_int (total_size - sz), s'))))"

fun util_ops :: "traceop_t list \<Rightarrow> trace_t \<times> int \<times> heap_state \<Rightarrow> int \<Rightarrow> (driver_stop, trace_t \<times> int \<times> heap_state) res" where
  "util_ops [] (tr, total_size, s) max_total_size = Inr (tr, max_total_size, s)"
| "util_ops (rq # rqs) st max_total_size =
     bindE (util_op rq st) (\<lambda>(tr, total_size, s).
     util_ops rqs (tr, total_size, s) (if max_total_size < total_size then total_size else max_total_size))"

text \<open>The utilisation is the quotient of the two numbers returned: the most bytes in use at a time, and the size of the heap.\<close>

definition eval_mm_util :: "trace_t \<Rightarrow> driver \<Rightarrow> (driver_stop, (int \<times> nat) \<times> trace_t \<times> driver) res" where
  "eval_mm_util tr0 d =
     (case mm_init (mem_reset_brk (mem_sys d)) of
        (r, s) \<Rightarrow>
          bindE (assertE (0 \<le> r) Application_error) (\<lambda>_.
          bindE (assertE (num_ops tr0 = int (length (ops tr0))) Out_of_array) (\<lambda>_.
          bindE (util_ops (ops tr0) (reinit_trace tr0, 0, s) 0) (\<lambda>(tr, max_total_size, s').
          Inr ((max_total_size, mem_heapsize s'), tr, d\<lparr>mem_sys := s'\<rparr>)))))"

definition speed_op :: "traceop_t \<Rightarrow> trace_t \<times> heap_state \<Rightarrow> (driver_stop, trace_t \<times> heap_state) res" where
  "speed_op rq = (\<lambda>(tr, s).
     let index = op_index rq; sz = int_of_size (op_size rq) in
     case op_type rq of
       ALLOC \<Rightarrow>
         bindE (heap_run (mm_malloc (nat (sz mod 2 ^ 64)) s)) (\<lambda>(p, s').
         bindE (assertE (p \<noteq> 0) Application_error) (\<lambda>_.
         bindE (set_element (blocks tr) index p) (\<lambda>bs. Inr (tr\<lparr>blocks := bs\<rparr>, s'))))
     | REALLOC \<Rightarrow>
         bindE (element (blocks tr) index) (\<lambda>oldp.
         bindE (heap_run (mm_realloc oldp (nat (sz mod 2 ^ 64)) s)) (\<lambda>(newp, s').
         bindE (assertE (newp \<noteq> 0 \<or> sz = 0) Application_error) (\<lambda>_.
         bindE (set_element (blocks tr) index newp) (\<lambda>bs. Inr (tr\<lparr>blocks := bs\<rparr>, s')))))
     | FREE \<Rightarrow>
         bindE (if index < 0 then Inr 0 else element (blocks tr) index) (\<lambda>p.
         bindE (heap_run (mm_free p s)) (\<lambda>s'. Inr (tr, s'))))"

fun speed_ops :: "traceop_t list \<Rightarrow> trace_t \<times> heap_state \<Rightarrow> (driver_stop, trace_t \<times> heap_state) res" where
  "speed_ops [] st = Inr st"
| "speed_ops (rq # rqs) st = bindE (speed_op rq st) (speed_ops rqs)"

definition eval_mm_speed :: "trace_t \<Rightarrow> driver \<Rightarrow> (driver_stop, trace_t \<times> driver) res" where
  "eval_mm_speed tr0 d =
     (case mm_init (mem_reset_brk (mem_sys d)) of
        (r, s) \<Rightarrow>
          bindE (assertE (0 \<le> r) Application_error) (\<lambda>_.
          bindE (assertE (num_ops tr0 = int (length (ops tr0))) Out_of_array) (\<lambda>_.
          bindE (speed_ops (ops tr0) (reinit_trace tr0, s)) (\<lambda>(tr, s'). Inr (tr, d\<lparr>mem_sys := s'\<rparr>)))))"

section \<open>The allocator of the C library\<close>

text \<open>It is a parameter, on a state of its own; an allocation that fails ends the driver. The validity run passes sizes as they are, the
  speed run as \<open>int\<close>s.\<close>

definition libc_op :: "(nat \<Rightarrow> 'h \<Rightarrow> nat \<times> 'h) \<Rightarrow> (nat \<Rightarrow> nat \<Rightarrow> 'h \<Rightarrow> nat \<times> 'h) \<Rightarrow> (nat \<Rightarrow> 'h \<Rightarrow> 'h) \<Rightarrow> (nat \<Rightarrow> nat) \<Rightarrow>
    traceop_t \<Rightarrow> trace_t \<times> 'h \<Rightarrow> (driver_stop, trace_t \<times> 'h) res" where
  "libc_op malloc realloc free passed rq = (\<lambda>(tr, h).
     let index = op_index rq; newsize = int_of_size (op_size rq) in
     case op_type rq of
       ALLOC \<Rightarrow>
         (case malloc (passed (op_size rq)) h of (p, h') \<Rightarrow>
            bindE (assertE (p \<noteq> 0) System_error) (\<lambda>_.
            bindE (set_element (blocks tr) index p) (\<lambda>bs. Inr (tr\<lparr>blocks := bs\<rparr>, h'))))
     | REALLOC \<Rightarrow>
         bindE (element (blocks tr) index) (\<lambda>oldp.
         case realloc oldp (nat (newsize mod 2 ^ 64)) h of (newp, h') \<Rightarrow>
           bindE (assertE (newp \<noteq> 0 \<or> newsize = 0) System_error) (\<lambda>_.
           bindE (set_element (blocks tr) index newp) (\<lambda>bs. Inr (tr\<lparr>blocks := bs\<rparr>, h'))))
     | FREE \<Rightarrow>
         bindE (if 0 \<le> index then element (blocks tr) index else Inr 0) (\<lambda>p. Inr (tr, free p h)))"

fun libc_ops :: "(traceop_t \<Rightarrow> trace_t \<times> 'h \<Rightarrow> (driver_stop, trace_t \<times> 'h) res) \<Rightarrow> traceop_t list \<Rightarrow> trace_t \<times> 'h \<Rightarrow>
    (driver_stop, trace_t \<times> 'h) res" where
  "libc_ops f [] st = Inr st"
| "libc_ops f (rq # rqs) st = bindE (f rq st) (libc_ops f rqs)"

definition eval_libc_valid where
  "eval_libc_valid malloc realloc free tr h =
     bindE (assertE (num_ops tr = int (length (ops tr))) Out_of_array) (\<lambda>_.
     bindE (libc_ops (libc_op malloc realloc free (\<lambda>n. n)) (ops tr) (reinit_trace tr, h)) (\<lambda>st. Inr (True, st)))"

definition eval_libc_speed where
  "eval_libc_speed malloc realloc free tr h =
     bindE (assertE (num_ops tr = int (length (ops tr))) Out_of_array) (\<lambda>_.
     libc_ops (libc_op malloc realloc free (\<lambda>n. nat (int_of_size n mod 2 ^ 64))) (ops tr) (reinit_trace tr, h))"

end
