(* ===== verification/Mdriver_Valid.thy ===== *)
theory Mdriver_Valid
  imports Mdriver Malloc_Client
begin

text \<open>
  The driver and the allocator together: on a trace that uses its block numbers in a balanced way and asks for no more than the heap can
  hold, the driver finds the allocator valid, in every debugging mode. The state of the evaluation refines a client of the allocator: the live
  block numbers stand for the payloads held, and the ranges are exactly their extents.
\<close>

section \<open>What the allocator does to the end of the heap\<close>

lemma heap_fields_merge [simp]:
  "heap (merge b n s) = heap s" "mem_brk (merge b n s) = mem_brk s" "mem_max_addr (merge b n s) = mem_max_addr s"
  by (simp_all add: merge_def set_footer_def set_header_def)

lemma heap_fields_coalesce:
  "coalesce b s = (b', s') \<Longrightarrow> heap s' = heap s \<and> mem_brk s' = mem_brk s \<and> mem_max_addr s' = mem_max_addr s"
  by (auto simp: coalesce_def Let_def split: option.splits if_splits)

definition same_bounds :: "heap_state \<Rightarrow> heap_state \<Rightarrow> bool" where
  "same_bounds s s' \<longleftrightarrow> heap s' = heap s \<and> mem_max_addr s' = mem_max_addr s"

lemma same_bounds_trans: "same_bounds s s' \<Longrightarrow> same_bounds s' s'' \<Longrightarrow> same_bounds s s''"
  by (simp add: same_bounds_def)

lemma free_bounds: "mm_free p s = Inr s' \<Longrightarrow> same_bounds s s' \<and> mem_brk s' = mem_brk s"
  by (auto simp: mm_free_def csplit same_bounds_def split: if_splits prod.splits dest: heap_fields_coalesce)

lemma malloc_bounds: "mm_malloc req s = Inr (p, s') \<Longrightarrow> same_bounds s s' \<and> mem_brk s' \<le> mem_brk s + block_size req"
  by (auto simp: mm_malloc_def Let_def mem_sbrk_def csplit set_header_def set_footer_def split_block_def same_bounds_def
    split: option.splits if_splits)

lemma realloc_bounds:
  assumes "mm_realloc p sz s = Inr (p', s')" "p \<noteq> 0" "sz \<noteq> 0"
  shows "same_bounds s s' \<and> mem_brk s' \<le> mem_brk s + block_size sz"
proof -
  obtain q s1 where m: "mm_malloc sz s = Inr (q, s1)" using assms by (auto simp: mm_realloc_def csplit)
  show ?thesis
  proof (cases "q = 0")
    case True
    then show ?thesis using assms m malloc_bounds [OF m] by (simp add: mm_realloc_def)
  next
    case False
    define s2 where "s2 = s1\<lparr>bytes := memcpy (bytes s1) q p (if sz < get_size (p - header_bytes) s1 then sz else get_size (p - header_bytes) s1)\<rparr>"
    have "mm_free p s2 = Inr s'" using assms m False by (auto simp: mm_realloc_def csplit Let_def s2_def)
    then show ?thesis using malloc_bounds [OF m] free_bounds by (fastforce simp: same_bounds_def s2_def)
  qed
qed

text \<open>A request is refused only when the heap has no room for it at its end.\<close>

lemma malloc_room:
  assumes "client s live" "0 < req" "req + 31 < 2 ^ 64" "mem_brk s + block_size req \<le> mem_max_addr s"
  obtains p s' where "mm_malloc req s = Inr (p, s')" "p \<noteq> 0"
  using malloc_serves [OF assms(1-3)] assms(4) by fastforce

lemma realloc_room:
  assumes "client s live" "(p, r) \<in> set live" "0 < sz" "sz + 31 < 2 ^ 64" "mem_brk s + block_size sz \<le> mem_max_addr s"
  obtains p' s' where "mm_realloc p sz s = Inr (p', s')" "p' \<noteq> 0" "client s' ((p', sz) # remove1 (p, r) live)"
proof -
  obtain q s1 where m: "mm_malloc sz s = Inr (q, s1)" "q \<noteq> 0" by (rule malloc_room [OF assms(1,3-5)]) (rule that)
  obtain p' s' where r: "mm_realloc p sz s = Inr (p', s')" "p' \<noteq> 0 \<longrightarrow> client s' ((p', sz) # remove1 (p, r) live)"
    using realloc_run [OF assms(1-4)] by blast
  have "p \<noteq> 0" using client_positive [OF assms(1,2)] by simp
  then have "p' = q" using r(1) m assms(3) by (auto simp: mm_realloc_def csplit Let_def)
  then show thesis using r m(2) that by blast
qed

section \<open>Balanced traces\<close>

text \<open>Requests for \<open>n\<close> block numbers of which those in the list are live: blocks are asked for under numbers that are not, and resized
  and freed under numbers that are; sizes are positive \<open>int\<close>s.\<close>

fun balanced :: "nat \<Rightarrow> int list \<Rightarrow> traceop_t list \<Rightarrow> bool" where
  "balanced n L [] = True"
| "balanced n L (rq # rqs) =
     (case op_type rq of
        ALLOC \<Rightarrow> 0 \<le> op_index rq \<and> nat (op_index rq) < n \<and> op_index rq \<notin> set L \<and> 0 < op_size rq \<and> op_size rq < 2 ^ 31 \<and>
          balanced n (op_index rq # L) rqs
      | REALLOC \<Rightarrow> op_index rq \<in> set L \<and> 0 < op_size rq \<and> op_size rq < 2 ^ 31 \<and> balanced n (op_index rq # remove1 (op_index rq) L) rqs
      | FREE \<Rightarrow> if op_index rq = -1 then balanced n L rqs else op_index rq \<in> set L \<and> balanced n (remove1 (op_index rq) L) rqs)"

definition demand :: "traceop_t list \<Rightarrow> nat" where
  "demand rqs = sum_list (map (\<lambda>rq. if op_type rq = FREE then 0 else block_size (op_size rq)) rqs)"

lemma demand_simps [simp]: "demand [] = 0" "demand (rq # rqs) = (if op_type rq = FREE then 0 else block_size (op_size rq)) + demand rqs"
  by (simp_all add: demand_def)

section \<open>The state of an evaluation\<close>

definition held_blocks :: "trace_t \<Rightarrow> int list \<Rightarrow> (nat \<times> nat) list" where
  "held_blocks tr L = map (\<lambda>i. (blocks tr ! nat i, block_sizes tr ! nat i)) L"

definition range_of :: "trace_t \<Rightarrow> int \<Rightarrow> range_t" where
  "range_of tr i = \<lparr>lo = blocks tr ! nat i, hi = blocks tr ! nat i + block_sizes tr ! nat i - 1, range_index = i\<rparr>"

definition tracks :: "debug \<Rightarrow> trace_t \<Rightarrow> bool" where
  "tracks debug tr \<longleftrightarrow> ignore_ranges tr = 0 \<and> debug \<noteq> DBG_NONE"

definition arrays_ok :: "nat \<Rightarrow> trace_t \<Rightarrow> bool" where
  "arrays_ok n tr \<longleftrightarrow> length (blocks tr) = n \<and> length (block_sizes tr) = n \<and> length (block_rand_base tr) = n"

definition evaluating :: "debug \<Rightarrow> nat \<Rightarrow> trace_t \<Rightarrow> driver \<Rightarrow> int list \<Rightarrow> bool" where
  "evaluating debug n tr d L \<longleftrightarrow>
     arrays_ok n tr \<and> distinct L \<and> (\<forall>i \<in> set L. 0 \<le> i \<and> nat i < n \<and> 0 < block_sizes tr ! nat i) \<and>
     client (mem_sys d) (held_blocks tr L) \<and> ranges d = (if tracks debug tr then map (range_of tr) L else [])"

text \<open>What checking the data may change: the count of errors, and not even that without debugging.\<close>

definition only_errors :: "debug \<Rightarrow> driver \<Rightarrow> driver \<Rightarrow> bool" where
  "only_errors debug d d' \<longleftrightarrow> mem_sys d' = mem_sys d \<and> ranges d' = ranges d \<and> errors d \<le> errors d' \<and>
     (debug = DBG_NONE \<longrightarrow> errors d' = errors d)"

lemma only_errors_refl [simp]: "only_errors debug d d"
  by (simp add: only_errors_def)

lemma only_errors_trans: "only_errors debug d d' \<Longrightarrow> only_errors debug d' d'' \<Longrightarrow> only_errors debug d d''"
  by (auto simp: only_errors_def)

lemma evaluating_errors: "only_errors debug d d' \<Longrightarrow> evaluating debug n tr d' L = evaluating debug n tr d L"
  by (auto simp: only_errors_def evaluating_def)

lemma array_access [simp]:
  assumes "0 \<le> i" "nat i < length xs"
  shows "element xs i = Inr (xs ! nat i)" "set_element xs i v = Inr (xs[nat i := v])"
  using assms by (simp_all add: element_def set_element_def in_array_def)

lemma check_index_runs:
  assumes "arrays_ok n tr" "i < 0 \<or> nat i < n"
  obtains d' where "check_index debug tr i d = Inr d'" "only_errors debug d d'"
proof -
  have "\<exists>d'. check_index debug tr i d = Inr d' \<and> only_errors debug d d'"
    using assms by (auto simp: check_index_def arrays_ok_def malloc_error_def only_errors_def)
  then show thesis using that by blast
qed

lemma check_ranges_runs:
  assumes "arrays_ok n tr" "\<forall>r \<in> set rs. range_index r < 0 \<or> nat (range_index r) < n"
  shows "\<exists>d'. check_ranges debug tr rs d = Inr d' \<and> only_errors debug d d'"
  using assms(2)
proof (induction rs arbitrary: d)
  case (Cons r rs)
  have "range_index r < 0 \<or> nat (range_index r) < n" using Cons.prems by simp
  then obtain d1 where d1: "check_index debug tr (range_index r) d = Inr d1" "only_errors debug d d1"
    by (rule check_index_runs [OF assms(1)]) (rule that)
  obtain d2 where "check_ranges debug tr rs d1 = Inr d2" "only_errors debug d1 d2" using Cons by auto
  then show ?case using d1 by (auto intro: only_errors_trans)
qed simp

lemma check_all_runs:
  assumes "evaluating debug n tr d L"
  obtains d' where "check_all debug tr d = Inr d'" "only_errors debug d d'"
proof -
  have "arrays_ok n tr" "\<forall>r \<in> set (ranges d). range_index r < 0 \<or> nat (range_index r) < n"
    using assms by (auto simp: evaluating_def range_of_def)
  then obtain d' where "check_ranges debug tr (ranges d) d = Inr d'" "only_errors debug d d'" using check_ranges_runs by blast
  moreover have "mm_checkheap (mem_sys d) = Inr ()"
    using client_invariant checkheap_blocks assms by (auto simp: evaluating_def client_inv_def heap_inv_def)
  ultimately show thesis using that by (cases "debug = DBG_EXPENSIVE") (auto simp: check_all_def heap_run_def)
qed

section \<open>The requests\<close>

lemma int_of_size_small: "n < 2 ^ 31 \<Longrightarrow> int_of_size n = int n"
  by (simp add: int_of_size_def signed_of_nat signed_take_bit_int_eq_self)

text \<open>A new payload of a client passes the checks of \<open>add_range\<close>.\<close>

lemma add_range_runs:
  assumes "client (mem_sys d) ((p, sz) # held_blocks tr L)" "0 < sz" "sz < 2 ^ 31"
    "ranges d = (if tracks debug tr then map (range_of tr) L else [])" "\<forall>i \<in> set L. 0 < block_sizes tr ! nat i"
  shows "add_range debug tr p sz index d =
    Inr (True, d\<lparr>ranges := (if tracks debug tr then \<lparr>lo = p, hi = p + sz - 1, range_index = index\<rparr> # ranges d else [])\<rparr>)"
proof -
  obtain bs where bs: "heap_rep (mem_sys d) bs" "live_ok (mem_sys d) bs ((p, sz) # held_blocks tr L)"
    using client_invariant [OF assms(1)] by (auto simp: client_inv_def heap_inv_def)
  have pl: "16 dvd p" "heap (mem_sys d) + 16 \<le> p" "p + sz + 8 \<le> mem_brk (mem_sys d)" using live_place [OF bs, of p sz] by simp_all
  have "IS_ALIGNED p" "\<not> outside_heap p (p + sz - 1) (mem_sys d)"
    using pl assms(2) by (auto simp: IS_ALIGNED_def ALIGNMENT_def outside_heap_def mem_heap_lo_def mem_heap_hi_def)
  moreover have "\<not> overlaps_range p (p + sz - 1) (range_of tr i)" if i: "i \<in> set L" for i
  proof -
    have l: "(blocks tr ! nat i, block_sizes tr ! nat i) \<in> set ((p, sz) # held_blocks tr L)" using i by (auto simp: held_blocks_def)
    have "blocks tr ! nat i \<noteq> p" using bs(2) i by (force simp: live_ok_def held_blocks_def)
    then have "p + sz + 16 \<le> blocks tr ! nat i \<or> blocks tr ! nat i + block_sizes tr ! nat i + 16 \<le> p"
      using live_apart [OF bs, of p sz] l by auto
    moreover have "0 < block_sizes tr ! nat i" using assms(5) i by blast
    ultimately show ?thesis using assms(2) by (auto simp: overlaps_range_def range_of_def)
  qed
  moreover have "nat (int p + int sz - 1) = p + sz - 1" using assms(2) by simp
  ultimately show ?thesis
    using assms(2-4) by (auto simp: add_range_def Let_def int_of_size_small tracks_def)
qed

text \<open>The random data goes into the payload of a live block.\<close>

lemma randomize_runs:
  assumes "evaluating debug n tr d L" "i \<in> set L"
  obtains tr' d' where "randomize_block random debug tr i d = Inr (tr', d')" "evaluating debug n tr' d' L"
    "same_bounds (mem_sys d) (mem_sys d')" "mem_brk (mem_sys d') = mem_brk (mem_sys d)" "errors d' = errors d"
proof (cases "debug = DBG_NONE")
  case True
  then show thesis using assms that [of tr d] by (simp add: randomize_block_def same_bounds_def)
next
  case False
  let ?p = "blocks tr ! nat i" and ?n = "block_sizes tr ! nat i" 
  define b where "b = random (random_count d) mod 2 ^ 31"
  let ?m = "\<lambda>a. if ?p \<le> a \<and> a < ?p + ?n then random_byte d b (a - ?p) else bytes (mem_sys d) a"
  let ?tr = "tr\<lparr>block_rand_base := (block_rand_base tr)[nat i := b]\<rparr>"
  let ?d = "d\<lparr>mem_sys := (mem_sys d)\<lparr>bytes := ?m\<rparr>, random_count := random_count d + 1\<rparr>"
  have i: "0 \<le> i" "nat i < n" using assms by (auto simp: evaluating_def)
  have run: "randomize_block random debug tr i d = Inr (?tr, ?d)"
    using False assms(1) i unfolding randomize_block_def b_def [symmetric] by (simp add: evaluating_def arrays_ok_def Let_def)
  have "(?p, ?n) \<in> set (held_blocks tr L)" using assms(2) by (auto simp: held_blocks_def)
  then have "client ((mem_sys d)\<lparr>bytes := ?m\<rparr>) (held_blocks tr L)"
    using assms(1) by (intro client.store) (auto simp: evaluating_def split: if_splits)
  moreover have "held_blocks ?tr L = held_blocks tr L" "map (range_of ?tr) L = map (range_of tr) L" "tracks debug ?tr = tracks debug tr"
    by (simp_all add: held_blocks_def range_of_def tracks_def)
  ultimately have "evaluating debug n ?tr ?d L" using assms(1) by (simp add: evaluating_def arrays_ok_def)
  then show thesis using run that [of ?tr ?d] by (simp add: same_bounds_def)
qed

text \<open>Recording a block under its number.\<close>

definition record_block :: "trace_t \<Rightarrow> int \<Rightarrow> nat \<Rightarrow> nat \<Rightarrow> trace_t" where
  "record_block tr i p sz = tr\<lparr>blocks := (blocks tr)[nat i := p], block_sizes := (block_sizes tr)[nat i := sz]\<rparr>"

lemma record_other:
  assumes "0 \<le> i" "\<forall>j \<in> set L. 0 \<le> j \<and> j \<noteq> i"
  shows "held_blocks (record_block tr i p sz) L = held_blocks tr L" "map (range_of (record_block tr i p sz)) L = map (range_of tr) L"
  using assms by (auto simp: held_blocks_def range_of_def record_block_def nth_list_update eq_nat_nat_iff)

lemma record_evaluating:
  assumes "arrays_ok n tr" "distinct L" "\<forall>j \<in> set L. 0 \<le> j \<and> nat j < n \<and> 0 < block_sizes tr ! nat j" "i \<notin> set L" "0 \<le> i" "nat i < n" "0 < sz"
    "client (mem_sys d) ((p, sz) # held_blocks tr L)"
    "ranges d = (if tracks debug tr then \<lparr>lo = p, hi = p + sz - 1, range_index = i\<rparr> # map (range_of tr) L else [])"
  shows "evaluating debug n (record_block tr i p sz) d (i # L)"
proof -
  have o: "\<forall>j \<in> set L. 0 \<le> j \<and> j \<noteq> i" using assms(3,4) by auto
  have h: "held_blocks (record_block tr i p sz) (i # L) = (p, sz) # held_blocks tr L"
    using record_other(1) [OF assms(5) o, of tr p sz] assms(1,6) by (simp add: held_blocks_def record_block_def arrays_ok_def)
  have r: "map (range_of (record_block tr i p sz)) (i # L) = \<lparr>lo = p, hi = p + sz - 1, range_index = i\<rparr> # map (range_of tr) L"
    unfolding list.map record_other(2) [OF assms(5) o] using assms(1,6) by (simp add: range_of_def record_block_def arrays_ok_def)
  have "\<forall>j \<in> set (i # L). 0 \<le> j \<and> nat j < n \<and> 0 < block_sizes (record_block tr i p sz) ! nat j"
    using assms(1,3,5-7) by (auto simp: record_block_def arrays_ok_def nth_list_update)
  moreover have "arrays_ok n (record_block tr i p sz)" "tracks debug (record_block tr i p sz) = tracks debug tr"
    using assms(1) by (simp_all add: arrays_ok_def record_block_def tracks_def)
  ultimately show ?thesis unfolding evaluating_def h r using assms(2,4,8,9) by simp
qed

text \<open>A request that goes well: what the driver knows afterwards, and how far the heap may have grown.\<close>

definition goes_on :: "debug \<Rightarrow> nat \<Rightarrow> driver \<Rightarrow> (driver_stop, bool \<times> trace_t \<times> driver) res \<Rightarrow> int list \<Rightarrow> nat \<Rightarrow> bool" where
  "goes_on debug n d r L' k \<longleftrightarrow> (\<exists>tr' d'. r = Inr (True, tr', d') \<and> evaluating debug n tr' d' L' \<and> same_bounds (mem_sys d) (mem_sys d') \<and>
     mem_brk (mem_sys d') \<le> mem_brk (mem_sys d) + k \<and> errors d \<le> errors d' \<and> (debug = DBG_NONE \<longrightarrow> errors d' = errors d))"

lemma valid_alloc_runs:
  assumes e: "evaluating debug n tr d L" and i: "0 \<le> i" "nat i < n" "i \<notin> set L" and sz: "0 < sz" "sz < 2 ^ 31"
    and room: "mem_brk (mem_sys d) + block_size sz \<le> mem_max_addr (mem_sys d)"
  shows "goes_on debug n d (valid_alloc random debug i sz tr d) (i # L) (block_size sz)"
proof -
  have c: "client (mem_sys d) (held_blocks tr L)" and ar: "arrays_ok n tr" "distinct L" "\<forall>j \<in> set L. 0 \<le> j \<and> nat j < n \<and> 0 < block_sizes tr ! nat j"
    and rg: "ranges d = (if tracks debug tr then map (range_of tr) L else [])"
    using e by (simp_all add: evaluating_def)
  have big: "sz + 31 < 2 ^ 64" using sz(2) by simp
  obtain p s where m: "mm_malloc sz (mem_sys d) = Inr (p, s)" "p \<noteq> 0" by (rule malloc_room [OF c sz(1) big room]) (rule that)
  let ?d1 = "d\<lparr>mem_sys := s\<rparr>"
  let ?d2 = "?d1\<lparr>ranges := (if tracks debug tr then \<lparr>lo = p, hi = p + sz - 1, range_index = i\<rparr> # ranges ?d1 else [])\<rparr>"
  have c1: "client (mem_sys ?d1) ((p, sz) # held_blocks tr L)" using client.malloc [OF c sz(1) big m(1)] m(2) by simp
  have a: "add_range debug tr p sz i ?d1 = Inr (True, ?d2)" using rg ar(3) by (intro add_range_runs [OF c1 sz]) auto
  have ev: "evaluating debug n (record_block tr i p sz) ?d2 (i # L)"
    by (rule record_evaluating [OF ar i(3,1,2) sz(1)]) (use c1 rg in simp_all)
  have "i \<in> set (i # L)" by simp
  then obtain tr' d' where r: "randomize_block random debug (record_block tr i p sz) i ?d2 = Inr (tr', d')" "evaluating debug n tr' d' (i # L)"
    "same_bounds (mem_sys ?d2) (mem_sys d')" "mem_brk (mem_sys d') = mem_brk (mem_sys ?d2)" "errors d' = errors ?d2"
    by (rule randomize_runs [OF ev]) (rule that)
  have "valid_alloc random debug i sz tr d = Inr (True, tr', d')"
    using m a r(1) i(1,2) ar(1) by (simp add: valid_alloc_def heap_run_def arrays_ok_def record_block_def)
  then show ?thesis using r(2-5) malloc_bounds [OF m(1)] same_bounds_trans by (fastforce simp: goes_on_def)
qed

lemma remove_first_map: "distinct (map f L) \<Longrightarrow> i \<in> set L \<Longrightarrow> (\<And>j. lo (g j) = f j) \<Longrightarrow> remove_first (f i) (map g L) = map g (remove1 i L)"
  by (induction L) auto

lemma remove1_map_fst: "distinct (map (\<lambda>j. fst (h j)) L) \<Longrightarrow> i \<in> set L \<Longrightarrow> remove1 (h i) (map h L) = map h (remove1 i L)"
proof (induction L)
  case (Cons a L)
  have "h i \<noteq> h a" if "i \<noteq> a" using Cons.prems that by (metis (mono_tags, lifting) distinct.simps(2) image_eqI list.simps(9) set_ConsD set_map)
  then show ?case using Cons by auto
qed simp

lemma evaluating_remove:
  assumes "evaluating debug n tr d L" "i \<in> set L"
  shows "remove1 (blocks tr ! nat i, block_sizes tr ! nat i) (held_blocks tr L) = held_blocks tr (remove1 i L)"
    "ranges (remove_range (blocks tr ! nat i) d) = (if tracks debug tr then map (range_of tr) (remove1 i L) else [])"
proof -
  have "client (mem_sys d) (held_blocks tr L)" using assms(1) by (simp add: evaluating_def)
  from client_invariant [OF this] obtain bs where "live_ok (mem_sys d) bs (held_blocks tr L)" by (auto simp: client_inv_def)
  then have dis: "distinct (map (\<lambda>j. blocks tr ! nat j) L)" by (simp add: live_ok_def held_blocks_def comp_def)
  show "remove1 (blocks tr ! nat i, block_sizes tr ! nat i) (held_blocks tr L) = held_blocks tr (remove1 i L)"
    using remove1_map_fst [of "\<lambda>j. (blocks tr ! nat j, block_sizes tr ! nat j)" L i] dis assms(2) by (simp add: held_blocks_def)
  have "remove_first (blocks tr ! nat i) (map (range_of tr) L) = map (range_of tr) (remove1 i L)"
    by (rule remove_first_map [OF dis assms(2)]) (simp add: range_of_def)
  then show "ranges (remove_range (blocks tr ! nat i) d) = (if tracks debug tr then map (range_of tr) (remove1 i L) else [])"
    using assms(1) by (simp add: remove_range_def evaluating_def)
qed

lemma valid_free_runs:
  assumes e: "evaluating debug n tr d L" and i: "i = -1 \<or> i \<in> set L"
  shows "goes_on debug n d (valid_free debug i tr d) (if i = -1 then L else remove1 i L) 0"
proof -
  have ar: "arrays_ok n tr" "distinct L" "\<forall>j \<in> set L. 0 \<le> j \<and> nat j < n \<and> 0 < block_sizes tr ! nat j" using e by (simp_all add: evaluating_def)
  have "i < 0 \<or> nat i < n" using i ar(3) by auto
  then obtain d1 where d1: "check_index debug tr i d = Inr d1" "only_errors debug d d1" by (rule check_index_runs [OF ar(1)]) (rule that)
  have e1: "evaluating debug n tr d1 L" using e evaluating_errors [OF d1(2)] by simp
  show ?thesis
  proof (cases "i = -1")
    case True
    then have "valid_free debug i tr d = Inr (True, tr, d1)" using d1(1) by (simp add: valid_free_def mm_free_def heap_run_def)
    then show ?thesis using e1 d1(2) True by (simp add: goes_on_def only_errors_def same_bounds_def)
  next
    case False
    then have il: "i \<in> set L" "0 \<le> i" "nat i < n" using i ar(3) by auto
    let ?p = "blocks tr ! nat i" and ?sz = "block_sizes tr ! nat i"
    have c: "client (mem_sys d1) (held_blocks tr L)" "(?p, ?sz) \<in> set (held_blocks tr L)" using il(1) e1 by (auto simp: held_blocks_def evaluating_def)
    obtain s where s: "mm_free ?p (mem_sys d1) = Inr s" "client s (remove1 (?p, ?sz) (held_blocks tr L))" by (rule free_keeps [OF c]) (rule that)
    let ?d2 = "(remove_range ?p d1)\<lparr>mem_sys := s\<rparr>"
    have "valid_free debug i tr d = Inr (True, tr, ?d2)"
      using d1(1) s(1) False il(2,3) ar(1) by (simp add: valid_free_def heap_run_def arrays_ok_def remove_range_def)
    moreover have "evaluating debug n tr ?d2 (remove1 i L)"
      using e1 s(2) evaluating_remove [OF e1 il(1)] ar(2,3) by (auto simp: evaluating_def remove_range_def dest: notin_set_remove1)
    ultimately show ?thesis
      using d1(2) free_bounds [OF s(1)] False by (simp add: goes_on_def only_errors_def remove_range_def)
  qed
qed

lemma valid_realloc_runs:
  assumes e: "evaluating debug n tr d L" and i: "i \<in> set L" and sz: "0 < sz" "sz < 2 ^ 31"
    and room: "mem_brk (mem_sys d) + block_size sz \<le> mem_max_addr (mem_sys d)"
  shows "goes_on debug n d (valid_realloc random debug i sz tr d) (i # remove1 i L) (block_size sz)"
proof -
  have ar: "arrays_ok n tr" "distinct L" "\<forall>j \<in> set L. 0 \<le> j \<and> nat j < n \<and> 0 < block_sizes tr ! nat j" using e by (simp_all add: evaluating_def)
  let ?L = "remove1 i L"
  have il: "0 \<le> i" "nat i < n" "i \<notin> set ?L" "distinct ?L" "\<forall>j \<in> set ?L. 0 \<le> j \<and> nat j < n \<and> 0 < block_sizes tr ! nat j"
    using i ar(2,3) by (auto dest: notin_set_remove1)
  then have in_range: "i < 0 \<or> nat i < n" by simp
  then obtain d1 where d1: "check_index debug tr i d = Inr d1" "only_errors debug d d1" by (rule check_index_runs [OF ar(1)]) (rule that)
  have e1: "evaluating debug n tr d1 L" using e evaluating_errors [OF d1(2)] by simp
  let ?p = "blocks tr ! nat i" and ?old = "block_sizes tr ! nat i"
  have c: "client (mem_sys d1) (held_blocks tr L)" "(?p, ?old) \<in> set (held_blocks tr L)" using i e1 by (auto simp: held_blocks_def evaluating_def)
  have big: "sz + 31 < 2 ^ 64" and room1: "mem_brk (mem_sys d1) + block_size sz \<le> mem_max_addr (mem_sys d1)"
    using sz(2) room d1(2) by (simp_all add: only_errors_def)
  obtain q s where m: "mm_realloc ?p sz (mem_sys d1) = Inr (q, s)" "q \<noteq> 0" "client s ((q, sz) # remove1 (?p, ?old) (held_blocks tr L))"
    by (rule realloc_room [OF c sz(1) big room1]) (rule that)
  let ?d2 = "remove_range ?p (d1\<lparr>mem_sys := s\<rparr>)"
  let ?d3 = "?d2\<lparr>ranges := (if tracks debug tr then \<lparr>lo = q, hi = q + sz - 1, range_index = i\<rparr> # ranges ?d2 else [])\<rparr>"
  have r2: "ranges ?d2 = (if tracks debug tr then map (range_of tr) ?L else [])" "mem_sys ?d2 = s" "errors ?d2 = errors d1"
    using evaluating_remove(2) [OF e1 i] by (simp_all add: remove_range_def)
  have c2: "client (mem_sys ?d2) ((q, sz) # held_blocks tr ?L)" using m(3) evaluating_remove(1) [OF e1 i] r2(2) by simp
  have a: "add_range debug tr q sz i ?d2 = Inr (True, ?d3)" using r2(1) il(5) by (intro add_range_runs [OF c2 sz]) auto
  have ev: "evaluating debug n (record_block tr i q sz) ?d3 (i # ?L)"
    by (rule record_evaluating [OF ar(1) il(4,5,3,1,2) sz(1)]) (use c2 r2(1) in simp_all)
  let ?szs = "(block_sizes tr)[nat i := if sz < ?old then sz else ?old]"
  have "arrays_ok n (tr\<lparr>blocks := (blocks tr)[nat i := q], block_sizes := ?szs\<rparr>)" using ar(1) by (simp add: arrays_ok_def)
  then obtain d4 where d4: "check_index debug (tr\<lparr>blocks := (blocks tr)[nat i := q], block_sizes := ?szs\<rparr>) i ?d3 = Inr d4" "only_errors debug ?d3 d4"
    using in_range by (rule check_index_runs) (rule that)
  have e4: "evaluating debug n (record_block tr i q sz) d4 (i # ?L)" using ev evaluating_errors [OF d4(2)] by simp
  have "i \<in> set (i # ?L)" by simp
  then obtain tr' d' where r: "randomize_block random debug (record_block tr i q sz) i d4 = Inr (tr', d')" "evaluating debug n tr' d' (i # ?L)"
    "same_bounds (mem_sys d4) (mem_sys d')" "mem_brk (mem_sys d') = mem_brk (mem_sys d4)" "errors d' = errors d4"
    by (rule randomize_runs [OF e4]) (rule that)
  have run: "valid_realloc random debug i sz tr d = Inr (True, tr', d')"
    using d1(1) m(1,2) a d4(1) r(1) il(1,2) ar(1) sz(1) by (simp add: valid_realloc_def heap_run_def arrays_ok_def record_block_def Let_def)
  have "?p \<noteq> 0" using client_positive [OF c] by simp
  then have "same_bounds (mem_sys d1) s" "mem_brk s \<le> mem_brk (mem_sys d1) + block_size sz" using realloc_bounds [OF m(1)] sz(1) by auto
  then show ?thesis using run r(2-5) d1(2) d4(2) r2(2,3) by (auto simp: goes_on_def only_errors_def same_bounds_def)
qed

section \<open>Whole traces\<close>

definition room_for :: "traceop_t list \<Rightarrow> heap_state \<Rightarrow> bool" where
  "room_for rqs s \<longleftrightarrow> mem_brk s + demand rqs \<le> mem_max_addr s"

lemma goes_on_errors: "only_errors debug d d1 \<Longrightarrow> goes_on debug n d1 r L k \<Longrightarrow> goes_on debug n d r L k"
  by (auto simp: goes_on_def only_errors_def)

text \<open>Which block numbers are live after a request.\<close>

definition live_after :: "traceop_t \<Rightarrow> int list \<Rightarrow> int list" where
  "live_after rq L =
     (case op_type rq of
        ALLOC \<Rightarrow> op_index rq # L
      | REALLOC \<Rightarrow> op_index rq # remove1 (op_index rq) L
      | FREE \<Rightarrow> if op_index rq = -1 then L else remove1 (op_index rq) L)"

lemma balanced_after: "balanced n L (rq # rqs) \<Longrightarrow> balanced n (live_after rq L) rqs"
  by (cases "op_type rq") (auto simp: live_after_def split: if_splits)

lemma valid_op_runs:
  assumes e: "evaluating debug n tr d L" and b: "balanced n L (rq # rqs)" and room: "room_for (rq # rqs) (mem_sys d)"
  shows "goes_on debug n d (valid_op random debug rq tr d) (live_after rq L) (demand [rq])"
proof -
  obtain d1 where d1: "check_all debug tr d = Inr d1" "only_errors debug d d1" by (rule check_all_runs [OF e]) (rule that)
  have e1: "evaluating debug n tr d1 L" using e evaluating_errors [OF d1(2)] by simp
  have fit: "mem_brk (mem_sys d1) + demand [rq] \<le> mem_max_addr (mem_sys d1)" using room d1(2) by (simp add: room_for_def only_errors_def)
  have "goes_on debug n d1 (valid_op random debug rq tr d) (live_after rq L) (demand [rq])"
  proof (cases "op_type rq")
    case ALLOC
    then show ?thesis
      using valid_alloc_runs [OF e1, of "op_index rq" "op_size rq" random] b fit d1(1) by (simp add: valid_op_def live_after_def)
  next
    case FREE
    then have "op_index rq = -1 \<or> op_index rq \<in> set L" using b by (auto split: if_splits)
    from valid_free_runs [OF e1 this] show ?thesis using FREE d1(1) by (simp add: valid_op_def live_after_def)
  next
    case REALLOC
    then show ?thesis
      using valid_realloc_runs [OF e1, of "op_index rq" "op_size rq" random] b fit d1(1) by (simp add: valid_op_def live_after_def)
  qed
  then show ?thesis by (rule goes_on_errors [OF d1(2)])
qed

lemma valid_ops_runs:
  assumes "evaluating debug n tr d L" "balanced n L rqs" "room_for rqs (mem_sys d)"
  shows "\<exists>tr' d' L'. valid_ops random debug rqs tr d = Inr (True, tr', d') \<and> evaluating debug n tr' d' L' \<and>
    (debug = DBG_NONE \<longrightarrow> errors d' = errors d)"
  using assms
proof (induction rqs arbitrary: tr d L)
  case (Cons rq rqs)
  obtain tr1 d1 where r: "valid_op random debug rq tr d = Inr (True, tr1, d1)" "evaluating debug n tr1 d1 (live_after rq L)"
    "same_bounds (mem_sys d) (mem_sys d1)" "mem_brk (mem_sys d1) \<le> mem_brk (mem_sys d) + demand [rq]" "debug = DBG_NONE \<longrightarrow> errors d1 = errors d"
    using valid_op_runs [OF Cons.prems, of random] by (auto simp: goes_on_def)
  have "room_for rqs (mem_sys d1)" using Cons.prems(3) r(3,4) by (auto simp: room_for_def same_bounds_def)
  from Cons.IH [OF r(2) balanced_after [OF Cons.prems(2)] this] show ?case using r(1,5) by auto
qed auto

text \<open>How a run starts.\<close>

definition region :: "nat \<Rightarrow> heap_state \<Rightarrow> bool" where
  "region addr s \<longleftrightarrow> heap s = addr \<and> mem_max_addr s = addr + MAX_HEAP \<and> 16 dvd addr \<and> MAX_HEAP \<le> addr \<and> addr + MAX_HEAP < 2 ^ 63"

definition node_fresh :: "heap_state \<Rightarrow> bool" where
  "node_fresh s \<longleftrightarrow> last_node s = 0 \<or> last_node s = heap s + 16"

lemma run_starts:
  assumes "arrays_ok n tr" "region addr (mem_sys d)" "node_fresh (mem_sys d)" "8 + demand rqs \<le> MAX_HEAP"
  obtains s0 where "mm_init (mem_reset_brk (mem_sys d)) = (0, s0)"
    "evaluating debug n (reinit_trace tr) ((clear_ranges d)\<lparr>mem_sys := s0\<rparr>) []" "room_for rqs s0"
    "heap s0 = addr" "mem_max_addr s0 = addr + MAX_HEAP"
proof -
  let ?start = "mem_reset_brk (mem_sys d)"
  let ?s = "?start\<lparr>mem_brk := addr + 8\<rparr>"
  have M: "addr + 16 \<le> addr + MAX_HEAP" by (simp add: MAX_HEAP_def)
  have init: "mm_init ?start = (0, ?s)"
    using M assms(2) by (simp add: mm_init_def mem_sbrk_def mem_reset_brk_def ALIGNMENT_def header_bytes_def region_def)
  have "client ?s []"
    by (rule client.start [OF _ _ _ _ _ init])
       (use assms(2,3) M in \<open>simp_all add: mem_reset_brk_def region_def node_fresh_def\<close>)
  then have "evaluating debug n (reinit_trace tr) ((clear_ranges d)\<lparr>mem_sys := ?s\<rparr>) []"
    using assms(1) by (simp add: evaluating_def arrays_ok_def reinit_trace_def held_blocks_def clear_ranges_def)
  moreover have "room_for rqs ?s" using assms(2,4) by (simp add: room_for_def mem_reset_brk_def region_def)
  ultimately show thesis using init assms(2) by (intro that [of ?s]) (simp_all add: mem_reset_brk_def region_def)
qed

lemma mem_init_region:
  "16 dvd addr \<Longrightarrow> MAX_HEAP \<le> addr \<Longrightarrow> addr + MAX_HEAP < 2 ^ 63 \<Longrightarrow> region addr (mem_init addr s)"
  "last_node s = 0 \<Longrightarrow> node_fresh (mem_init addr s)"
  by (simp_all add: region_def node_fresh_def mem_init_def)

lemma eval_mm_valid_runs:
  assumes "arrays_ok n tr" "num_ops tr = int (length (ops tr))" "balanced n [] (ops tr)"
    "mem_sys d = mem_init addr s" "16 dvd addr" "MAX_HEAP \<le> addr" "addr + MAX_HEAP < 2 ^ 63" "last_node s = 0"
    "8 + demand (ops tr) \<le> MAX_HEAP"
  shows "\<exists>tr' d' L. eval_mm_valid random debug tr d = Inr (True, tr', d') \<and> distinct L \<and> client (mem_sys d') (held_blocks tr' L) \<and>
    ranges d' = (if tracks debug tr' then map (range_of tr') L else []) \<and> (debug = DBG_NONE \<longrightarrow> errors d' = errors d)"
proof -
  obtain s0 where s0: "mm_init (mem_reset_brk (mem_sys d)) = (0, s0)" "room_for (ops tr) s0"
    and e: "evaluating debug n (reinit_trace tr) ((clear_ranges d)\<lparr>mem_sys := s0\<rparr>) []"
    by (rule run_starts [OF assms(1) _ _ assms(9), of addr d debug]) (use assms(4-8) in \<open>simp_all add: mem_init_region\<close>)
  obtain tr' d' L where "valid_ops random debug (ops tr) (reinit_trace tr) ((clear_ranges d)\<lparr>mem_sys := s0\<rparr>) = Inr (True, tr', d')"
    "evaluating debug n tr' d' L" "debug = DBG_NONE \<longrightarrow> errors d' = errors ((clear_ranges d)\<lparr>mem_sys := s0\<rparr>)"
    using valid_ops_runs [OF e assms(3), of random] s0(2) by auto
  moreover have "eval_mm_valid random debug tr d = valid_ops random debug (ops tr) (reinit_trace tr) ((clear_ranges d)\<lparr>mem_sys := s0\<rparr>)"
    using assms(2) s0(1) by (simp add: eval_mm_valid_def Let_def clear_ranges_def reinit_trace_def)
  ultimately show ?thesis by (auto simp: evaluating_def clear_ranges_def)
qed

text \<open>The driver finds the allocator valid on every balanced trace whose blocks the heap can hold one after the other, in every debugging
  mode: no request is refused, every payload is aligned, in the heap and apart from those still in use, and no check of the driver stops it. At the
  end the ranges are the extents of the payloads in use; without debugging no error has been counted.\<close>

theorem driver_finds_valid:
  assumes "arrays_ok n tr" "num_ops tr = int (length (ops tr))" "balanced n [] (ops tr)"
    "mem_sys d = mem_init addr s" "16 dvd addr" "MAX_HEAP \<le> addr" "addr + MAX_HEAP < 2 ^ 63" "last_node s = 0"
    "8 + demand (ops tr) \<le> MAX_HEAP"
  shows "\<exists>tr' d' L. eval_mm_valid random debug tr d = Inr (True, tr', d') \<and> distinct L \<and> client (mem_sys d') (held_blocks tr' L) \<and>
    ranges d' = (if tracks debug tr' then map (range_of tr') L else []) \<and> (debug = DBG_NONE \<longrightarrow> errors d' = errors d)"
  using assms by (rule eval_mm_valid_runs)

text \<open>C40. What \<open>add_range\<close> accepts, exactly: an aligned payload in the heap of which every recorded range is apart or strictly inside. A
  payload that encloses another one is not found to overlap it.\<close>

theorem add_range_verdict:
  assumes "0 < req" "req < 2 ^ 31" "tracks debug tr" "\<forall>r \<in> set (ranges d). lo r \<le> hi r"
  shows "\<exists>ok d'. add_range debug tr l req i d = Inr (ok, d') \<and>
    (ok \<longleftrightarrow> l mod ALIGNMENT = 0 \<and> mem_heap_lo (mem_sys d) \<le> l \<and> l + req - 1 \<le> mem_heap_hi (mem_sys d) \<and>
       (\<forall>r \<in> set (ranges d). l + req \<le> lo r \<or> hi r < l \<or> l < lo r \<and> hi r < l + req - 1)) \<and>
    (if ok then ranges d' = \<lparr>lo = l, hi = l + req - 1, range_index = i\<rparr> # ranges d else ranges d' = ranges d \<and> errors d' = errors d + 1)"
proof -
  have h: "nat (int l + int req - 1) = l + req - 1" using assms(1) by simp
  have apart: "overlaps_range l (l + req - 1) r \<longleftrightarrow> \<not> (l + req \<le> lo r \<or> hi r < l \<or> l < lo r \<and> hi r < l + req - 1)" if "r \<in> set (ranges d)" for r
    using assms(1,4) that by (auto simp: overlaps_range_def)
  have out: "outside_heap l (l + req - 1) (mem_sys d) \<longleftrightarrow> \<not> (mem_heap_lo (mem_sys d) \<le> l \<and> l + req - 1 \<le> mem_heap_hi (mem_sys d))"
    using assms(1) by (auto simp: outside_heap_def)
  have over: "(\<exists>r \<in> set (ranges d). overlaps_range l (l + req - 1) r) \<longleftrightarrow>
    \<not> (\<forall>r \<in> set (ranges d). l + req \<le> lo r \<or> hi r < l \<or> l < lo r \<and> hi r < l + req - 1)" using apart by blast
  have run: "add_range debug tr l req i d =
    (if \<not> l mod ALIGNMENT = 0 then Inr (False, malloc_error d)
     else if \<not> (mem_heap_lo (mem_sys d) \<le> l \<and> l + req - 1 \<le> mem_heap_hi (mem_sys d)) then Inr (False, malloc_error d)
     else if \<not> (\<forall>r \<in> set (ranges d). l + req \<le> lo r \<or> hi r < l \<or> l < lo r \<and> hi r < l + req - 1) then Inr (False, malloc_error d)
     else Inr (True, d\<lparr>ranges := \<lparr>lo = l, hi = l + req - 1, range_index = i\<rparr> # ranges d\<rparr>))"
    using assms(1-3) unfolding add_range_def Let_def int_of_size_small [OF assms(2)] h out over IS_ALIGNED_def by (simp add: tracks_def)
  show ?thesis unfolding run by (simp add: malloc_error_def split: if_split) blast
qed

section \<open>An example\<close>

definition sample_trace :: trace_t where
  "sample_trace =
     \<lparr>ignore_ranges = 0, num_ids = 2, num_ops = 5, weight = 1,
      ops = [\<lparr>op_type = ALLOC, op_index = 0, op_size = 16\<rparr>, \<lparr>op_type = ALLOC, op_index = 1, op_size = 512\<rparr>,
             \<lparr>op_type = REALLOC, op_index = 0, op_size = 100\<rparr>, \<lparr>op_type = FREE, op_index = -1, op_size = 0\<rparr>, \<lparr>op_type = FREE, op_index = 1, op_size = 0\<rparr>],
      blocks = [0, 0], block_sizes = [0, 0], block_rand_base = [0, 0]\<rparr>"

definition sample_driver :: driver where
  "sample_driver = \<lparr>mem_sys = mem_init (2 ^ 32) \<lparr>heap = 0, mem_brk = 0, mem_max_addr = 0, bytes = (\<lambda>_. 0), last_node = 0\<rparr>,
     ranges = [], errors = 0, random_data = (\<lambda>_. 7), random_count = 0\<rparr>"

theorem driver_finds_valid_witness:
  "\<exists>tr' d' L. eval_mm_valid (\<lambda>i. i) DBG_EXPENSIVE sample_trace sample_driver = Inr (True, tr', d') \<and> distinct L \<and> client (mem_sys d') (held_blocks tr' L) \<and>
    ranges d' = (if tracks DBG_EXPENSIVE tr' then map (range_of tr') L else []) \<and> (DBG_EXPENSIVE = DBG_NONE \<longrightarrow> errors d' = errors sample_driver)"
  by (rule driver_finds_valid [where n = 2 and addr = "2 ^ 32" and s = "\<lparr>heap = 0, mem_brk = 0, mem_max_addr = 0, bytes = (\<lambda>_. 0), last_node = 0\<rparr>"])
     (simp_all add: arrays_ok_def sample_trace_def sample_driver_def MAX_HEAP_def block_size_def round_up_def header_bytes_def ALIGNMENT_def)

theorem add_range_verdict_witness:
  "\<exists>ok d'. add_range DBG_CHEAP sample_trace (2 ^ 32) 64 1
       (sample_driver\<lparr>mem_sys := (mem_sys sample_driver)\<lparr>mem_brk := 2 ^ 32 + 4096\<rparr>, ranges := [\<lparr>lo = 2 ^ 32 + 16, hi = 2 ^ 32 + 31, range_index = 0\<rparr>]\<rparr>) =
     Inr (ok, d') \<and> ok"
  using add_range_verdict [of 64 DBG_CHEAP sample_trace
      "sample_driver\<lparr>mem_sys := (mem_sys sample_driver)\<lparr>mem_brk := 2 ^ 32 + 4096\<rparr>, ranges := [\<lparr>lo = 2 ^ 32 + 16, hi = 2 ^ 32 + 31, range_index = 0\<rparr>]\<rparr>" "2 ^ 32" 1]
  by (auto simp: tracks_def sample_trace_def sample_driver_def mem_init_def mem_heap_lo_def mem_heap_hi_def ALIGNMENT_def)

end
