(* ===== verification/Mdriver_Runs.thy ===== *)
theory Mdriver_Runs
  imports Mdriver_Valid
begin

text \<open>
  The three runs of the driver over a trace do the same to the heap: the run that measures the use of space and the run that is timed make the
  requests that the run for validity makes without debugging. What the former measures is the most bytes that are in use at a time, which are never
  more than the heap is long.
\<close>

section \<open>The same requests\<close>



lemma check_index_none [simp]: "check_index DBG_NONE tr i d = Inr d"
  by (simp add: check_index_def)

lemma check_all_none [simp]: "check_all DBG_NONE tr d = Inr d"
  by (simp add: check_all_def)

lemma randomize_none [simp]: "randomize_block random DBG_NONE tr i d = Inr (tr, d)"
  by (simp add: randomize_block_def)


lemma remove_range_heap [simp]: "mem_sys (remove_range p d) = mem_sys d"
  by (simp add: remove_range_def)

lemma heap_run_Inr [csplit]: "heap_run r = Inr x \<longleftrightarrow> r = Inr x"
  by (cases r) (simp_all add: heap_run_def)


lemma element_Inr [csplit]: "element xs i = Inr x \<longleftrightarrow> in_array i xs \<and> x = xs ! nat i"
  by (auto simp: element_def csplit)

lemma set_element_Inr [csplit]: "set_element xs i v = Inr ys \<longleftrightarrow> in_array i xs \<and> ys = xs[nat i := v]"
  by (auto simp: set_element_def csplit)

lemma in_array_update [simp]: "in_array i (xs[j := v]) = in_array i xs"
  by (simp add: in_array_def)




section \<open>Bytes in use\<close>














section \<open>The measured use of space\<close>





















end
