(* ===== verification/Mdriver_Trace.thy ===== *)
theory Mdriver_Trace
  imports Mdriver
begin

text \<open>
  Reading a trace file (\<open>read_trace\<close> of \<open>project04-kweng/mdriver.c\<close>), with the conversions of \<open>fscanf\<close> it uses, and that
  a trace that has been written out is read back.
\<close>

section \<open>Conversions\<close>

text \<open>The outcomes of one conversion: the end of the input, no match (the variable keeps its value), or a value.\<close>

datatype 'a scanned = At_end | No_match | Scanned 'a

definition is_digit :: "char \<Rightarrow> bool" where
  "is_digit c = is_digit_of 10 c"

definition scan_number :: "string \<Rightarrow> int scanned \<times> string" where
  "scan_number s =
     (let s1 = dropWhile isspace s in
      if s1 = [] then (At_end, [])
      else let (neg, s2) = strtol_sign s1; ds = takeWhile is_digit s2; n = int (read_digits 10 0 ds); rest = dropWhile is_digit s2 in
        if ds = [] then (No_match, s2) else (Scanned (if neg then - n else n), rest))"

text \<open>A number out of the range of \<open>long\<close> becomes the nearer end of the range, and is then cut down to an \<open>int\<close>; for an unsigned
  conversion the sign is applied in 64 bits.\<close>

definition to_int :: "int \<Rightarrow> int" where
  "to_int v = as_int (max (- (2 ^ 63)) (min (2 ^ 63 - 1) v))"

definition to_unsigned :: "int \<Rightarrow> int" where
  "to_unsigned v = as_int (if \<bar>v\<bar> < 2 ^ 64 then v else 2 ^ 64 - 1)"

definition scan_word :: "string \<Rightarrow> string scanned \<times> string" where
  "scan_word s =
     (let s1 = dropWhile isspace s in
      if s1 = [] then (At_end, []) else (Scanned (takeWhile (\<lambda>c. \<not> isspace c) s1), dropWhile (\<lambda>c. \<not> isspace c) s1))"

text \<open>A header field has no value to keep when its conversion does not match.\<close>

definition read_header :: "string \<Rightarrow> (driver_stop, int \<times> string) res" where
  "read_header s =
     (case scan_number s of
        (At_end, _) \<Rightarrow> Inl Assertion_stop
      | (No_match, _) \<Rightarrow> Inl Uninitialised
      | (Scanned v, r) \<Rightarrow> Inr (to_int v, r))"

text \<open>\<open>"%u %u"\<close> into \<open>index\<close> and \<open>size\<close>, which keep their values where a conversion fails; the size has none at first.\<close>

definition scan_index_size :: "int \<Rightarrow> int option \<Rightarrow> string \<Rightarrow> (driver_stop, int \<times> int option \<times> string) res" where
  "scan_index_size index sz s =
     (case scan_number s of
        (At_end, _) \<Rightarrow> Inl Assertion_stop
      | (No_match, r) \<Rightarrow> Inr (index, sz, r)
      | (Scanned v, r) \<Rightarrow>
          (case scan_number r of
             (Scanned w, r') \<Rightarrow> Inr (to_unsigned v, Some (to_unsigned w), r')
           | (_, r') \<Rightarrow> Inr (to_unsigned v, sz, r')))"

text \<open>\<open>"%ud"\<close>: a number, and the letter if it follows.\<close>

definition scan_index :: "int \<Rightarrow> string \<Rightarrow> (driver_stop, int \<times> string) res" where
  "scan_index index s =
     (case scan_number s of
        (At_end, _) \<Rightarrow> Inl Assertion_stop
      | (No_match, r) \<Rightarrow> Inr (index, r)
      | (Scanned v, r) \<Rightarrow> Inr (to_unsigned v, if r \<noteq> [] \<and> List.hd r = CHR ''d'' then tl r else r))"

section \<open>The requests of a trace\<close>

definition MAXLINE :: nat where "MAXLINE = 1024"

definition request_of :: "op_type \<Rightarrow> int \<Rightarrow> int option \<Rightarrow> (driver_stop, traceop_t) res" where
  "request_of t index sz =
     (case sz of None \<Rightarrow> Inl Uninitialised | Some n \<Rightarrow> Inr \<lparr>op_type = t, op_index = index, op_size = nat (n mod 2 ^ 64)\<rparr>)"

text \<open>One line: the request, what the variables hold afterwards, and the rest of the input. The size of a release is never written; it is
  0 here and never read.\<close>

definition read_op :: "char \<Rightarrow> int \<Rightarrow> int option \<Rightarrow> string \<Rightarrow> (driver_stop, traceop_t \<times> int \<times> int option \<times> string) res" where
  "read_op c index sz s =
     (if c = CHR ''a'' then
        bindE (scan_index_size index sz s) (\<lambda>(i, n, r). bindE (request_of ALLOC i n) (\<lambda>rq. Inr (rq, i, n, r)))
      else if c = CHR ''r'' then
        bindE (scan_index_size index sz s) (\<lambda>(i, n, r). bindE (request_of REALLOC i n) (\<lambda>rq. Inr (rq, i, n, r)))
      else if c = CHR ''f'' then
        bindE (scan_index index s) (\<lambda>(i, r). Inr (\<lparr>op_type = FREE, op_index = i, op_size = 0\<rparr>, i, sz, r))
      else Inl Application_error)"

definition new_max :: "traceop_t \<Rightarrow> int \<Rightarrow> int" where
  "new_max rq max_index = (if op_type rq \<noteq> FREE \<and> max_index < op_index rq then op_index rq else max_index)"

text \<open>The loop: \<open>left\<close> places of the array are free. It ends when none is left after a request, or at the end of the input.\<close>

fun read_ops :: "nat \<Rightarrow> int \<Rightarrow> int option \<Rightarrow> int \<Rightarrow> string \<Rightarrow> (driver_stop, traceop_t list \<times> int) res" where
  "read_ops left index sz max_index s =
     (case scan_word s of
        (Scanned (c # cs), r) \<Rightarrow>
          bindE (assertE (length (c # cs) < MAXLINE) Out_of_array) (\<lambda>_.
          bindE (read_op c index sz r) (\<lambda>(rq, i, n, r').
          case left of
            0 \<Rightarrow> Inl Out_of_array
          | Suc 0 \<Rightarrow> Inr ([rq], new_max rq max_index)
          | Suc k \<Rightarrow> bindE (read_ops k i n (new_max rq max_index) r') (\<lambda>(rqs, m). Inr (rq # rqs, m))))
      | _ \<Rightarrow> Inr ([], max_index))"

declare read_ops.simps [simp del]

definition zeroes :: "int \<Rightarrow> nat list" where
  "zeroes n = replicate (nat n) 0"

definition allocated :: "(nat \<Rightarrow> bool) \<Rightarrow> int \<Rightarrow> nat \<Rightarrow> (driver_stop, unit) res" where
  "allocated grants n sz = assertE (0 \<le> n \<and> grants (nat n * sz)) System_error"

text \<open>\<open>None\<close> is a file that cannot be opened. The sizes are those of the record of a trace and of the elements of its arrays.\<close>

definition read_trace :: "(nat \<Rightarrow> bool) \<Rightarrow> string option \<Rightarrow> (driver_stop, trace_t) res" where
  "read_trace grants tracefile =
     bindE (assertE (grants 1072) System_error) (\<lambda>_.
     case tracefile of
       None \<Rightarrow> Inl System_error
     | Some s0 \<Rightarrow>
         bindE (read_header s0) (\<lambda>(w, s1).
         bindE (read_header s1) (\<lambda>(ids, s2).
         bindE (read_header s2) (\<lambda>(n, s3).
         bindE (read_header s3) (\<lambda>(ign, s4).
         bindE (assertE (w = 0 \<or> w = 1) Application_error) (\<lambda>_.
         bindE (assertE (ign = 0 \<or> ign = 1) Application_error) (\<lambda>_.
         bindE (allocated grants n 24) (\<lambda>_.
         bindE (allocated grants ids 8) (\<lambda>_.
         bindE (allocated grants ids 8) (\<lambda>_.
         bindE (allocated grants ids 4) (\<lambda>_.
         bindE (read_ops (nat n) 0 None 0 s4) (\<lambda>(rqs, max_index).
         bindE (assertE (max_index = ids - 1) Assertion_stop) (\<lambda>_.
         bindE (assertE (n = int (length rqs)) Assertion_stop) (\<lambda>_.
         Inr \<lparr>ignore_ranges = ign, num_ids = ids, num_ops = n, weight = w, ops = rqs,
              blocks = zeroes ids, block_sizes = zeroes ids, block_rand_base = zeroes ids\<rparr>))))))))))))))"

section \<open>Writing a trace\<close>

definition show_op :: "traceop_t \<Rightarrow> string" where
  "show_op rq =
     (case op_type rq of
        ALLOC \<Rightarrow> ''a '' @ show_int (op_index rq) @ '' '' @ show_nat (op_size rq)
      | REALLOC \<Rightarrow> ''r '' @ show_int (op_index rq) @ '' '' @ show_nat (op_size rq)
      | FREE \<Rightarrow> ''f '' @ show_int (op_index rq)) @ [CHR 0x0A]"

definition show_trace :: "trace_t \<Rightarrow> string" where
  "show_trace tr =
     show_int (weight tr) @ [CHR 0x0A] @ show_int (num_ids tr) @ [CHR 0x0A] @ show_int (num_ops tr) @ [CHR 0x0A] @
     show_int (ignore_ranges tr) @ [CHR 0x0A] @ concat (map show_op (ops tr))"

text \<open>Numbers are read back.\<close>

lemma digits_of_nat: "\<forall>c \<in> set (show_nat n). is_digit c"
  using show_base_digits [of 10 n] by (simp add: show_nat_def is_digit_def)

lemma read_digits_show: "read_digits 10 0 (show_nat n) = n"
  using read_show_base [of 10 n] by (simp add: show_nat_def)

lemma show_nat_ne: "show_nat n \<noteq> []"
  by (subst show_nat_def, subst show_base.simps) simp

lemma digit_not_special: "is_digit c \<Longrightarrow> \<not> isspace c \<and> c \<noteq> CHR ''-'' \<and> c \<noteq> CHR ''+''"
  by (auto simp: is_digit_def is_digit_of_def digit_value_def isspace_def Let_def split: option.splits if_splits)

lemma separator: "\<not> is_digit (CHR '' '')" "\<not> is_digit (CHR 0x0A)" "isspace (CHR '' '')" "isspace (CHR 0x0A)" "\<not> is_digit (CHR ''d'')"
  by (simp_all add: is_digit_def is_digit_of_def digit_value_def isspace_def)

lemma scan_digits:
  assumes "\<not> is_digit c"
  shows "takeWhile is_digit (show_nat n @ c # r) = show_nat n" "dropWhile is_digit (show_nat n @ c # r) = c # r"
  using digits_of_nat assms by (simp_all add: takeWhile_append dropWhile_append)

lemma scan_show_int:
  assumes "\<not> is_digit c"
  shows "scan_number (show_int v @ c # r) = (Scanned v, c # r)"
proof (cases "v < 0")
  case True
  then have s: "show_int v @ c # r = CHR ''-'' # (show_nat (nat (- v)) @ c # r)" by (simp add: show_int_def)
  have "dropWhile isspace (show_int v @ c # r) = show_int v @ c # r" unfolding s by (simp add: isspace_def)
  moreover have "strtol_sign (show_int v @ c # r) = (True, show_nat (nat (- v)) @ c # r)" unfolding s by (simp add: strtol_sign_def)
  ultimately show ?thesis using True scan_digits [OF assms] show_nat_ne
    by (simp add: scan_number_def Let_def read_digits_show)
next
  case False
  obtain d ds where d: "show_nat (nat v) = d # ds" "is_digit d" using show_nat_ne digits_of_nat [of "nat v"] by (cases "show_nat (nat v)") auto
  have s: "show_int v @ c # r = show_nat (nat v) @ c # r" using False by (simp add: show_int_def)
  have "dropWhile isspace (show_nat (nat v) @ c # r) = show_nat (nat v) @ c # r" using d digit_not_special by simp
  moreover have "strtol_sign (show_nat (nat v) @ c # r) = (False, show_nat (nat v) @ c # r)"
    using d digit_not_special [OF d(2)] by (simp add: strtol_sign_def)
  ultimately show ?thesis using False scan_digits [OF assms] show_nat_ne
    unfolding s by (simp add: scan_number_def Let_def read_digits_show)
qed

lemma scan_number_space: "isspace c \<Longrightarrow> scan_number (c # s) = scan_number s"
  by (simp add: scan_number_def)

lemma to_int_small: "- (2 ^ 31) \<le> v \<Longrightarrow> v < 2 ^ 31 \<Longrightarrow> to_int v = v \<and> to_unsigned v = v"
proof -
  assume v: "- (2 ^ 31) \<le> v" "v < 2 ^ 31"
  then have "\<bar>v\<bar> < 2 ^ 64" by simp
  then show ?thesis using as_int_small [OF v] v by (simp add: to_int_def to_unsigned_def)
qed

text \<open>A trace that can be written: its numbers are \<open>int\<close>s, the counts are right, and its arrays are fresh.\<close>

definition op_ok :: "traceop_t \<Rightarrow> bool" where
  "op_ok rq \<longleftrightarrow> -1 \<le> op_index rq \<and> op_index rq < 2 ^ 31 \<and> op_size rq < 2 ^ 31 \<and> (op_type rq = FREE \<longrightarrow> op_size rq = 0)"

definition trace_ok :: "trace_t \<Rightarrow> bool" where
  "trace_ok tr \<longleftrightarrow>
     (weight tr = 0 \<or> weight tr = 1) \<and> (ignore_ranges tr = 0 \<or> ignore_ranges tr = 1) \<and> ops tr \<noteq> [] \<and>
     num_ops tr = int (length (ops tr)) \<and> num_ops tr < 2 ^ 31 \<and> 0 \<le> num_ids tr \<and> num_ids tr < 2 ^ 31 \<and> list_all op_ok (ops tr) \<and>
     fold new_max (ops tr) 0 = num_ids tr - 1 \<and>
     blocks tr = zeroes (num_ids tr) \<and> block_sizes tr = zeroes (num_ids tr) \<and> block_rand_base tr = zeroes (num_ids tr)"

lemma scan_word_letter: "\<not> isspace c \<Longrightarrow> scan_word (CHR 0x0A # c # CHR '' '' # r) = (Scanned [c], CHR '' '' # r)"
  by (simp add: scan_word_def separator)

lemma scan_pair:
  assumes "-1 \<le> i" "i < 2 ^ 31" "n < 2 ^ 31"
  shows "scan_index_size j m (CHR '' '' # show_int i @ CHR '' '' # show_nat n @ CHR 0x0A # r) = Inr (i, Some (int n), CHR 0x0A # r)"
proof -
  have n: "show_nat n = show_int (int n)" by (simp add: show_int_def)
  show ?thesis
    unfolding scan_index_size_def n using assms to_int_small [of i] to_int_small [of "int n"]
    by (simp add: scan_number_space scan_show_int separator)
qed

lemma read_op_back:
  assumes "op_ok rq"
  obtains c j m where "show_op rq @ r = c # CHR '' '' # (drop 2 (show_op rq)) @ r" "\<not> isspace c"
    "read_op c i n (CHR '' '' # drop 2 (show_op rq) @ r) = Inr (rq, j, m, CHR 0x0A # r)"
proof (cases "op_type rq")
  case FREE
  have u: "to_unsigned (op_index rq) = op_index rq" using to_int_small [of "op_index rq"] assms by (simp add: op_ok_def)
  have "scan_index i (CHR '' '' # show_int (op_index rq) @ CHR 0x0A # r) = Inr (op_index rq, CHR 0x0A # r)"
    using u by (simp add: scan_index_def scan_number_space scan_show_int separator)
  moreover have "rq = \<lparr>op_type = FREE, op_index = op_index rq, op_size = 0\<rparr>" using FREE assms by (simp add: op_ok_def)
  ultimately show thesis using FREE
    by (intro that [of "CHR ''f''" "op_index rq" n]) (simp_all add: show_op_def read_op_def isspace_def)
next
  case ALLOC
  have s: "scan_index_size i n (CHR '' '' # show_int (op_index rq) @ CHR '' '' # show_nat (op_size rq) @ CHR 0x0A # r) =
    Inr (op_index rq, Some (int (op_size rq)), CHR 0x0A # r)" using assms by (intro scan_pair) (simp_all add: op_ok_def)
  have "nat (int (op_size rq) mod 2 ^ 64) = op_size rq" "rq = \<lparr>op_type = ALLOC, op_index = op_index rq, op_size = op_size rq\<rparr>"
    using ALLOC assms by (simp_all add: op_ok_def)
  then show thesis using ALLOC s
    by (intro that [of "CHR ''a''" "op_index rq" "Some (int (op_size rq))"]) (simp_all add: show_op_def read_op_def isspace_def request_of_def)
next
  case REALLOC
  have s: "scan_index_size i n (CHR '' '' # show_int (op_index rq) @ CHR '' '' # show_nat (op_size rq) @ CHR 0x0A # r) =
    Inr (op_index rq, Some (int (op_size rq)), CHR 0x0A # r)" using assms by (intro scan_pair) (simp_all add: op_ok_def)
  have "nat (int (op_size rq) mod 2 ^ 64) = op_size rq" "rq = \<lparr>op_type = REALLOC, op_index = op_index rq, op_size = op_size rq\<rparr>"
    using REALLOC assms by (simp_all add: op_ok_def)
  then show thesis using REALLOC s
    by (intro that [of "CHR ''r''" "op_index rq" "Some (int (op_size rq))"]) (simp_all add: show_op_def read_op_def isspace_def request_of_def)
qed

lemma read_ops_back:
  assumes "list_all op_ok (rq # rqs)"
  shows "read_ops (length (rq # rqs)) i n m (CHR 0x0A # concat (map show_op (rq # rqs))) = Inr (rq # rqs, fold new_max (rq # rqs) m)"
  using assms
proof (induction rqs arbitrary: rq i n m)
  case Nil
  have "op_ok rq" using Nil by simp
  then obtain c j k where c: "show_op rq @ [] = c # CHR '' '' # (drop 2 (show_op rq)) @ []" "\<not> isspace c"
    "read_op c i n (CHR '' '' # drop 2 (show_op rq) @ []) = Inr (rq, j, k, CHR 0x0A # [])" by (rule read_op_back) (rule that)
  have s: "concat (map show_op [rq]) = c # CHR '' '' # drop 2 (show_op rq)" using c(1) by simp
  show ?case unfolding s using c(2,3) by (subst read_ops.simps) (simp add: scan_word_letter MAXLINE_def)
next
  case (Cons rq' rqs)
  have ok: "op_ok rq" "list_all op_ok (rq' # rqs)" using Cons.prems by simp_all
  let ?r = "concat (map show_op (rq' # rqs))"
  obtain c j k where c: "show_op rq @ ?r = c # CHR '' '' # (drop 2 (show_op rq)) @ ?r" "\<not> isspace c"
    "read_op c i n (CHR '' '' # drop 2 (show_op rq) @ ?r) = Inr (rq, j, k, CHR 0x0A # ?r)" by (rule read_op_back [OF ok(1)]) (rule that)
  have s: "concat (map show_op (rq # rq' # rqs)) = c # CHR '' '' # drop 2 (show_op rq) @ ?r" using c(1) by simp
  have IH: "read_ops (Suc (length rqs)) j k (new_max rq m) (CHR 0x0A # ?r) = Inr (rq' # rqs, fold new_max (rq' # rqs) (new_max rq m))"
    using Cons.IH [OF ok(2), of j k "new_max rq m"] by simp
  show ?case unfolding s using c(2,3) IH
    by (subst read_ops.simps) (simp only: scan_word_letter [OF c(2)] prod.case scanned.case list.case, simp add: MAXLINE_def)
qed

lemma read_trace_back:
  assumes "trace_ok tr" "\<forall>n. grants n"
  shows "read_trace grants (Some (show_trace tr)) = Inr tr"
proof -
  have hd: "read_header (CHR 0x0A # show_int v @ CHR 0x0A # r) = Inr (v, CHR 0x0A # r)" "read_header (show_int v @ CHR 0x0A # r) = Inr (v, CHR 0x0A # r)"
    if "- (2 ^ 31) \<le> v" "v < 2 ^ 31" for v r
    using to_int_small [OF that] by (simp_all add: read_header_def scan_number_space scan_show_int separator)
  have b: "- (2 ^ 31) \<le> weight tr" "weight tr < 2 ^ 31" "- (2 ^ 31) \<le> ignore_ranges tr" "ignore_ranges tr < 2 ^ 31"
    "- (2 ^ 31) \<le> num_ids tr" "num_ids tr < 2 ^ 31" "- (2 ^ 31) \<le> num_ops tr" "num_ops tr < 2 ^ 31"
    using assms(1) by (auto simp: trace_ok_def)
  obtain rq rqs where o: "ops tr = rq # rqs" using assms(1) by (cases "ops tr") (auto simp: trace_ok_def)
  have n: "nat (num_ops tr) = length (rq # rqs)" "list_all op_ok (rq # rqs)" "fold new_max (rq # rqs) 0 = num_ids tr - 1"
    using assms(1) o by (auto simp: trace_ok_def)
  have rd: "read_ops (nat (num_ops tr)) 0 None 0 (CHR 0x0A # concat (map show_op (ops tr))) = Inr (ops tr, num_ids tr - 1)"
    unfolding n(1) o read_ops_back [OF n(2)] n(3) ..
  have al: "allocated grants (num_ops tr) 24 = Inr ()" "allocated grants (num_ids tr) k = Inr ()" for k
    using assms by (simp_all add: allocated_def trace_ok_def)
  have sh: "show_trace tr = show_int (weight tr) @ CHR 0x0A # show_int (num_ids tr) @ CHR 0x0A # show_int (num_ops tr) @
    CHR 0x0A # show_int (ignore_ranges tr) @ CHR 0x0A # concat (map show_op (ops tr))" by (simp add: show_trace_def)
  have ok: "assertE (weight tr = 0 \<or> weight tr = 1) e = Inr ()" "assertE (ignore_ranges tr = 0 \<or> ignore_ranges tr = 1) e = Inr ()"
    "assertE (num_ids tr - 1 = num_ids tr - 1) e = Inr ()" "assertE (num_ops tr = int (length (ops tr))) e = Inr ()" "assertE (grants k) e = Inr ()"
    for e :: driver_stop and k
    using assms by (simp_all add: trace_ok_def)
  have "read_trace grants (Some (show_trace tr)) =
    Inr \<lparr>ignore_ranges = ignore_ranges tr, num_ids = num_ids tr, num_ops = num_ops tr, weight = weight tr, ops = ops tr,
         blocks = zeroes (num_ids tr), block_sizes = zeroes (num_ids tr), block_rand_base = zeroes (num_ids tr)\<rparr>"
    unfolding read_trace_def sh
    by (simp only: ok hd(2) [OF b(1,2)] hd(1) [OF b(3,4)] hd(1) [OF b(5,6)] hd(1) [OF b(7,8)] option.case bindE_Inr prod.case al rd)
  then show ?thesis using assms(1) by (cases tr) (simp add: trace_ok_def)
qed

section \<open>What a trace that has been read is like\<close>

text \<open>An \<open>int\<close> of the machine.\<close>

definition is_int :: "int \<Rightarrow> bool" where
  "is_int v \<longleftrightarrow> - (2 ^ 31) \<le> v \<and> v < 2 ^ 31"

lemma is_int_as_int: "is_int (as_int v)"
  using sint_ge [of "word_of_int v :: 32 word"] sint_lt [of "word_of_int v :: 32 word"] by (simp add: is_int_def as_int_def)

definition op_typed :: "traceop_t \<Rightarrow> bool" where
  "op_typed rq \<longleftrightarrow> is_int (op_index rq) \<and> op_size rq < 2 ^ 64"

lemma read_op_typed:
  assumes "read_op c i n s = Inr (rq, j, m, r)" "is_int i"
  shows "op_typed rq \<and> is_int j"
proof -
  have p: "scan_index_size i n s = Inr (j, m, r) \<Longrightarrow> is_int j" "scan_index i s = Inr (j, r) \<Longrightarrow> is_int j" for j m r
    using assms(2) is_int_as_int
    by (auto simp: scan_index_size_def scan_index_def to_unsigned_def split: prod.splits scanned.splits)
  show ?thesis
    using assms(1) p by (auto simp: read_op_def csplit request_of_def op_typed_def nat_less_iff split: if_splits option.splits)
qed

lemma read_ops_typed:
  "read_ops left i n m s = Inr (rqs, m') \<Longrightarrow> is_int i \<Longrightarrow> m' = fold new_max rqs m \<and> (\<forall>rq \<in> set rqs. op_typed rq)"
proof (induction left arbitrary: i n m s rqs m' rule: less_induct)
  case (less left)
  show ?case
  proof (cases "\<exists>c cs r. scan_word s = (Scanned (c # cs), r)")
    case False
    then have "read_ops left i n m s = Inr ([], m)"
      by (subst read_ops.simps) (auto split: prod.splits scanned.splits list.splits)
    then show ?thesis using less.prems(1) by simp
  next
    case True
    then obtain c cs r where w: "scan_word s = (Scanned (c # cs), r)" by blast
    obtain rq j k r' where o: "read_op c i n r = Inr (rq, j, k, r')"
      and rest: "(case left of 0 \<Rightarrow> Inl Out_of_array | Suc 0 \<Rightarrow> Inr ([rq], new_max rq m)
        | Suc l \<Rightarrow> bindE (read_ops l j k (new_max rq m) r') (\<lambda>(rqs, m). Inr (rq # rqs, m))) = Inr (rqs, m')"
      using less.prems(1) by (subst (asm) read_ops.simps) (auto simp: w csplit)
    have t: "op_typed rq" "is_int j" using read_op_typed [OF o less.prems(2)] by simp_all
    show ?thesis
    proof (cases "left = 1")
      case True
      then show ?thesis using rest t by auto
    next
      case False
      then obtain l where l: "left = Suc l" "0 < l" using rest by (cases left) auto
      then obtain rqs2 where "read_ops l j k (new_max rq m) r' = Inr (rqs2, m')" "rqs = rq # rqs2"
        using rest by (cases l) (auto simp: csplit)
      then show ?thesis using less.IH [of l] l t by auto
    qed
  qed
qed

text \<open>C33. A trace that \<open>read_trace\<close> accepts is well-formed: it has as many requests as its header says, arrays for as many blocks, an \<open>int\<close> as
  the index and a \<open>size_t\<close> as the size of every request; and the greatest index of its allocations, or 0, is the last of the arrays. The
  indices may be negative, and those of releases may be too large.\<close>

theorem read_trace_typed:
  assumes "read_trace grants f = Inr tr"
  shows "num_ops tr = int (length (ops tr)) \<and> length (blocks tr) = nat (num_ids tr) \<and> length (block_sizes tr) = nat (num_ids tr) \<and>
    length (block_rand_base tr) = nat (num_ids tr) \<and> weight tr \<in> {0, 1} \<and> ignore_ranges tr \<in> {0, 1} \<and> (\<forall>rq \<in> set (ops tr). op_typed rq) \<and>
    num_ids tr - 1 = Max (insert 0 (op_index ` {rq \<in> set (ops tr). op_type rq \<noteq> FREE}))"
proof -
  have mx: "fold new_max rqs m = Max (insert m (op_index ` {rq \<in> set rqs. op_type rq \<noteq> FREE}))" for rqs m
  proof (induction rqs arbitrary: m)
    case (Cons rq rqs)
    let ?S = "op_index ` {rq \<in> set rqs. op_type rq \<noteq> FREE}"
    have "op_index ` {x \<in> set (rq # rqs). op_type x \<noteq> FREE} = (if op_type rq \<noteq> FREE then insert (op_index rq) ?S else ?S)" by auto
    moreover have "Max (insert (max m b) ?S) = Max (insert m (insert b ?S))" for b
      using Max_insert_max [of ?S m b] by simp
    moreover have "new_max rq m = (if op_type rq \<noteq> FREE then max m (op_index rq) else m)" by (simp add: new_max_def max_def)
    ultimately show ?case using Cons.IH [of "new_max rq m"] by simp
  qed simp
  obtain s4 max_index where "read_ops (nat (num_ops tr)) 0 None 0 s4 = Inr (ops tr, max_index)" "max_index = num_ids tr - 1"
    and f: "num_ops tr = int (length (ops tr))" "blocks tr = zeroes (num_ids tr)" "block_sizes tr = zeroes (num_ids tr)"
      "block_rand_base tr = zeroes (num_ids tr)" "weight tr = 0 \<or> weight tr = 1" "ignore_ranges tr = 0 \<or> ignore_ranges tr = 1"
    using assms by (auto simp: read_trace_def csplit split: option.splits)
  then have "num_ids tr - 1 = fold new_max (ops tr) 0 \<and> (\<forall>rq \<in> set (ops tr). op_typed rq)"
    using read_ops_typed [of "nat (num_ops tr)" 0 None 0 s4 "ops tr" max_index] by (simp add: is_int_def)
  then show ?thesis using f by (simp add: mx zeroes_def)
qed

text \<open>C11. A trace that is written out is read back as it was.\<close>

theorem read_show_trace:
  assumes "trace_ok tr" "\<forall>n. grants n"
  shows "read_trace grants (Some (show_trace tr)) = Inr tr"
  using assms by (rule read_trace_back)

definition sample_file :: trace_t where
  "sample_file =
     \<lparr>ignore_ranges = 0, num_ids = 2, num_ops = 4, weight = 1,
      ops = [\<lparr>op_type = ALLOC, op_index = 0, op_size = 16\<rparr>, \<lparr>op_type = ALLOC, op_index = 1, op_size = 512\<rparr>,
             \<lparr>op_type = REALLOC, op_index = 0, op_size = 100\<rparr>, \<lparr>op_type = FREE, op_index = -1, op_size = 0\<rparr>],
      blocks = [0, 0], block_sizes = [0, 0], block_rand_base = [0, 0]\<rparr>"

lemma zeroes_2: "zeroes 2 = [0, 0]"
  by (simp add: zeroes_def numeral_2_eq_2)

theorem read_show_trace_witness: "read_trace (\<lambda>_. True) (Some (show_trace sample_file)) = Inr sample_file"
  by (rule read_show_trace) (simp_all add: trace_ok_def sample_file_def op_ok_def new_max_def zeroes_2)

theorem read_trace_typed_witness:
  "num_ids sample_file - 1 = Max (insert 0 (op_index ` {rq \<in> set (ops sample_file). op_type rq \<noteq> FREE}))"
  using read_trace_typed [OF read_trace_back [of sample_file "\<lambda>_. True"]]
  by (simp add: trace_ok_def sample_file_def op_ok_def new_max_def zeroes_2)

end
