(* ===== verification/Fcyc.thy ===== *)
theory Fcyc
  imports Mdriver Complex_Main
begin

text \<open>
  The measurement of running times (\<open>project04-kweng/fcyc.c\<close>, \<open>clock.c\<close>, \<open>fsecs.c\<close>): the cycle counter, the
  compensation for timer interrupts, and the search for the \<open>k\<close> shortest of several measurements. What the processor counts and the kernel
  charges are parameters. A \<open>double\<close> is an element of an ordered field, so that the arithmetic does not round.
\<close>

section \<open>State\<close>

text \<open>The readings of the cycle counter and of the user time (in ticks), by their number; which blocks \<open>malloc\<close> grants, and what they
  hold.\<close>

record surroundings =
  rdtsc :: "nat \<Rightarrow> 64 word"
  utime :: "nat \<Rightarrow> int"
  granted :: "nat \<Rightarrow> bool"
  buffer_words :: "nat \<Rightarrow> 32 word"

record 'a meter =
  kbest :: int
  maxsamples :: int
  epsilon :: 'a
  compensate :: int
  clear_cache :: int
  cache_bytes :: int
  cache_block :: int
  cache_buf :: bool
  "values" :: "'a list"
  samplecount :: int
  sink :: "32 word"
  cyc_hi :: "32 word"
  cyc_lo :: "32 word"
  cyc_per_tick :: 'a
  start_tick :: int
  counter_reads :: nat
  times_reads :: nat

section \<open>The cycle counter\<close>

definition access_counter :: "surroundings \<Rightarrow> 'a meter \<Rightarrow> (32 word \<times> 32 word) \<times> 'a meter" where
  "access_counter env m =
     (let t = rdtsc env (counter_reads m) in
      ((ucast (drop_bit 32 t), ucast t), m\<lparr>counter_reads := counter_reads m + 1\<rparr>))"

definition start_counter :: "surroundings \<Rightarrow> 'a meter \<Rightarrow> 'a meter" where
  "start_counter env m = (let ((h, l), m') = access_counter env m in m'\<lparr>cyc_hi := h, cyc_lo := l\<rparr>)"

text \<open>The value is not negative, so that the message about negative values is never printed.\<close>

definition get_counter :: "surroundings \<Rightarrow> 'a::linordered_field meter \<Rightarrow> 'a \<times> 'a meter" where
  "get_counter env m =
     (let ((ncyc_hi, ncyc_lo), m') = access_counter env m;
          l = ncyc_lo - cyc_lo m';
          borrow = (if ncyc_lo < l then 1 else 0);
          h = ncyc_hi - cyc_hi m' - borrow
      in (of_nat (unat h) * 2 ^ 30 * 4 + of_nat (unat l), m'))"

definition times_call :: "surroundings \<Rightarrow> 'a meter \<Rightarrow> int \<times> 'a meter" where
  "times_call env m = (utime env (times_reads m), m\<lparr>times_reads := times_reads m + 1\<rparr>)"

definition NEVENT :: nat where "NEVENT = 100"
definition THRESHOLD :: nat where "THRESHOLD = 1000"
definition RECORDTHRESH :: nat where "RECORDTHRESH = 3000"

definition record_tick :: "'a::linordered_field \<Rightarrow> 'a meter \<Rightarrow> 'a meter" where
  "record_tick cpt m =
     (if (cyc_per_tick m = 0 \<or> cpt < cyc_per_tick m) \<and> of_nat RECORDTHRESH < cpt then m\<lparr>cyc_per_tick := cpt\<rparr> else m)"

text \<open>The calibration waits for 100 events; it need not end.\<close>

partial_function (option) callibrate_loop ::
    "surroundings \<Rightarrow> nat \<Rightarrow> int \<Rightarrow> 'a::linordered_field \<Rightarrow> 'a meter \<Rightarrow> 'a meter option" where
  "callibrate_loop env e oldc oldt m =
     (if e < NEVENT then
        (let (newt, m1) = get_counter env m in
         if of_nat THRESHOLD \<le> newt - oldt then
           (let (newc, m2) = times_call env m1 in
            if oldc < newc
            then callibrate_loop env (e + 1) newc newt (record_tick ((newt - oldt) / of_int (newc - oldc)) m2)
            else callibrate_loop env e oldc newt m2)
         else callibrate_loop env e oldc oldt m1)
      else Some m)"

definition callibrate :: "surroundings \<Rightarrow> 'a::linordered_field meter \<Rightarrow> 'a meter option" where
  "callibrate env m =
     (let (oldc, m1) = times_call env m; (oldt, m2) = get_counter env (start_counter env m1)
      in callibrate_loop env 0 oldc oldt m2)"

definition ending :: "'a option \<Rightarrow> (driver_stop, 'a) res" where
  "ending r = (case r of None \<Rightarrow> Inl Endless_loop | Some x \<Rightarrow> Inr x)"

definition start_comp_counter :: "surroundings \<Rightarrow> 'a::linordered_field meter \<Rightarrow> (driver_stop, 'a meter) res" where
  "start_comp_counter env m =
     bindE (if cyc_per_tick m = 0 then ending (callibrate env m) else Inr m) (\<lambda>m1.
     let (t, m2) = times_call env m1 in Inr (start_counter env (m2\<lparr>start_tick := t\<rparr>)))"

definition get_comp_counter :: "surroundings \<Rightarrow> 'a::linordered_field meter \<Rightarrow> 'a \<times> 'a meter" where
  "get_comp_counter env m =
     (let (time, m1) = get_counter env m; (t, m2) = times_call env m1; ticks = t - start_tick m2
      in (time - of_int ticks * cyc_per_tick m2, m2))"

section \<open>Samples\<close>

definition UNSET :: int where "UNSET = -1"

text \<open>What \<open>calloc\<close> returns is not tested; an array of no or a negative number of elements has no element.\<close>

definition init_sampler :: "'a::zero meter \<Rightarrow> 'a meter" where
  "init_sampler m = m\<lparr>values := replicate (nat (kbest m)) 0, samplecount := 0\<rparr>"

fun swap_down :: "nat \<Rightarrow> 'a::linorder list \<Rightarrow> 'a list" where
  "swap_down 0 vs = vs"
| "swap_down (Suc p) vs =
     (if vs ! Suc p < vs ! p then swap_down p (vs[p := vs ! Suc p, Suc p := vs ! p]) else vs)"

definition add_sample :: "'a::linorder \<Rightarrow> 'a meter \<Rightarrow> (driver_stop, 'a meter) res" where
  "add_sample v m =
     bindE
       (if samplecount m < kbest m then
          bindE (set_element (values m) (samplecount m) v) (\<lambda>vs. Inr (nat (samplecount m), vs))
        else
          bindE (element (values m) (kbest m - 1)) (\<lambda>last.
          if v < last
          then bindE (set_element (values m) (kbest m - 1) v) (\<lambda>vs. Inr (nat (kbest m - 1), vs))
          else Inr (0, values m)))
       (\<lambda>(pos, vs). Inr (m\<lparr>values := swap_down pos vs, samplecount := samplecount m + 1\<rparr>))"

definition has_converged :: "'a::linordered_field meter \<Rightarrow> (driver_stop, bool) res" where
  "has_converged m =
     (if kbest m \<le> samplecount m then
        bindE (element (values m) 0) (\<lambda>first.
        bindE (element (values m) (kbest m - 1)) (\<lambda>last. Inr (last \<le> (1 + epsilon m) * first)))
      else Inr False)"

section \<open>Clearing the cache\<close>

definition size_of_int :: "int \<Rightarrow> nat" where
  "size_of_int i = nat (i mod 2 ^ 64)"

text \<open>The loop over the buffer does not end when the distance of two reads is 0.\<close>

partial_function (option) clear_loop ::
    "surroundings \<Rightarrow> int \<Rightarrow> int \<Rightarrow> int \<Rightarrow> 32 word \<Rightarrow> (driver_stop, 32 word) res option" where
  "clear_loop env cend incr cptr x =
     (if cptr < cend then
        (if 0 \<le> cptr then clear_loop env cend incr (cptr + incr) (x + buffer_words env (nat cptr)) else Some (Inl Out_of_array))
      else Some (Inr x))"

definition clear :: "surroundings \<Rightarrow> 'a meter \<Rightarrow> (driver_stop, 'a meter) res" where
  "clear env m =
     bindE (assertE (cache_buf m \<or> granted env (size_of_int (cache_bytes m))) Application_error) (\<lambda>_.
     bindE (ending (clear_loop env (int (size_of_int (cache_bytes m) div 4)) (as_int (int (size_of_int (cache_block m) div 4))) 0 (sink m))) (\<lambda>r.
     bindE r (\<lambda>x. Inr (m\<lparr>cache_buf := True, sink := x\<rparr>))))"

section \<open>The K-best scheme\<close>

text \<open>The function under measurement changes a state of its own, and may stop the program.\<close>

definition measure_once :: "surroundings \<Rightarrow> ('s \<Rightarrow> (driver_stop, 's) res) \<Rightarrow> 'a::linordered_field meter \<times> 's \<Rightarrow>
    (driver_stop, 'a meter \<times> 's) res" where
  "measure_once env f = (\<lambda>(m, s).
     bindE (if clear_cache m \<noteq> 0 then clear env m else Inr m) (\<lambda>m1.
     bindE (if compensate m \<noteq> 0 then start_comp_counter env m1 else Inr (start_counter env m1)) (\<lambda>m2.
     bindE (f s) (\<lambda>s'.
     let (cyc, m3) = (if compensate m \<noteq> 0 then get_comp_counter env m2 else get_counter env m2) in
     bindE (add_sample cyc m3) (\<lambda>m4. Inr (m4, s'))))))"

text \<open>What the clock leaves alone: everything but its own variables.\<close>

definition sampler_of where
  "sampler_of m = (kbest m, maxsamples m, epsilon m, compensate m, clear_cache m, cache_bytes m, cache_block m, values m, samplecount m)"

lemma sampler_of_eq: "sampler_of m' = sampler_of m \<longleftrightarrow>
    kbest m' = kbest m \<and> maxsamples m' = maxsamples m \<and> epsilon m' = epsilon m \<and> compensate m' = compensate m \<and>
    clear_cache m' = clear_cache m \<and> cache_bytes m' = cache_bytes m \<and> cache_block m' = cache_block m \<and> values m' = values m \<and>
    samplecount m' = samplecount m"
  by (auto simp: sampler_of_def)

lemma sampler_of_clock [simp]:
  "sampler_of (start_counter env m) = sampler_of m" "sampler_of (snd (get_counter env m)) = sampler_of m"
  "sampler_of (snd (times_call env m)) = sampler_of m" "sampler_of (record_tick cpt m) = sampler_of m"
  "sampler_of (m\<lparr>start_tick := t\<rparr>) = sampler_of m"
  by (simp_all add: sampler_of_def start_counter_def get_counter_def access_counter_def times_call_def record_tick_def Let_def)

lemma sampler_of_clock_pair:
  "get_counter env m = (v, m') \<Longrightarrow> sampler_of m' = sampler_of m" "times_call env m = (t, m') \<Longrightarrow> sampler_of m' = sampler_of m"
  using sampler_of_clock(2) [of env m] sampler_of_clock(3) [of env m] by simp_all

lemma sampler_of_callibrate_loop: "callibrate_loop env e oldc oldt m = Some m' \<Longrightarrow> sampler_of m' = sampler_of m"
proof (induction rule: callibrate_loop.raw_induct [rotated, consumes 1])
  case (1 loop env e oldc oldt m m')
  show ?case
    using 1(2) by (auto split: if_splits prod.splits dest!: 1(1) sampler_of_clock_pair)
qed

lemma sampler_of_comp_counter:
  "start_comp_counter env m = Inr m' \<Longrightarrow> sampler_of m' = sampler_of m" "sampler_of (snd (get_comp_counter env m)) = sampler_of m"
  by (auto simp: start_comp_counter_def csplit ending_def callibrate_def get_comp_counter_def
    split: if_splits option.splits prod.splits dest!: sampler_of_callibrate_loop sampler_of_clock_pair)

lemma sampler_of_comp_pair: "get_comp_counter env m = (v, m') \<Longrightarrow> sampler_of m' = sampler_of m"
  using sampler_of_comp_counter(2) [of env m] by simp

lemma sampler_of_clear: "clear env m = Inr m' \<Longrightarrow> sampler_of m' = sampler_of m"
  by (auto simp: clear_def csplit sampler_of_def)

text \<open>Every measurement adds one to the count of samples, so that the loop ends.\<close>

lemma add_sample_counts: "add_sample v m = Inr m' \<Longrightarrow> samplecount m' = samplecount m + 1 \<and> maxsamples m' = maxsamples m"
  by (auto simp: add_sample_def csplit split: if_splits)

lemma measure_once_counts:
  assumes "measure_once env f (m, s) = Inr (m', s')"
  shows "samplecount m' = samplecount m + 1 \<and> maxsamples m' = maxsamples m"
proof -
  obtain m1 where m1: "(if clear_cache m \<noteq> 0 then clear env m else Inr m) = Inr m1"
    "bindE (if compensate m \<noteq> 0 then start_comp_counter env m1 else Inr (start_counter env m1)) (\<lambda>m2.
     bindE (f s) (\<lambda>s'.
     let (cyc, m3) = (if compensate m \<noteq> 0 then get_comp_counter env m2 else get_counter env m2) in
     bindE (add_sample cyc m3) (\<lambda>m4. Inr (m4, s')))) = Inr (m', s')"
    using assms by (auto simp: measure_once_def bindE_eq_Inr)
  obtain m2 s2 where m2: "(if compensate m \<noteq> 0 then start_comp_counter env m1 else Inr (start_counter env m1)) = Inr m2"
    "(let (cyc, m3) = (if compensate m \<noteq> 0 then get_comp_counter env m2 else get_counter env m2) in
     bindE (add_sample cyc m3) (\<lambda>m4. Inr (m4, s2))) = Inr (m', s')"
    using m1(2) by (auto simp only: bindE_eq_Inr)
  obtain cyc m3 where m3: "(if compensate m \<noteq> 0 then get_comp_counter env m2 else get_counter env m2) = (cyc, m3)" "add_sample cyc m3 = Inr m'"
    using m2(2) by (auto simp: csplit split: prod.splits if_splits)
  have "sampler_of m1 = sampler_of m" using m1(1) by (auto split: if_splits dest: sampler_of_clear)
  moreover have "sampler_of m2 = sampler_of m1" using m2(1) by (auto split: if_splits dest: sampler_of_comp_counter(1))
  moreover have "sampler_of m3 = sampler_of m2" using m3(1) by (auto split: if_splits dest: sampler_of_clock_pair sampler_of_comp_pair)
  ultimately show ?thesis using add_sample_counts [OF m3(2)] by (simp add: sampler_of_eq)
qed

function fcyc_loop :: "surroundings \<Rightarrow> ('s \<Rightarrow> (driver_stop, 's) res) \<Rightarrow> 'a::linordered_field meter \<times> 's \<Rightarrow>
    (driver_stop, 'a meter \<times> 's) res" where
  "fcyc_loop env f st =
     bindE (measure_once env f st) (\<lambda>st'.
     bindE (has_converged (fst st')) (\<lambda>c.
     if \<not> c \<and> samplecount (fst st') < maxsamples (fst st') then fcyc_loop env f st' else Inr st'))"
  by pat_completeness auto

termination
proof (relation "measure (\<lambda>(env, f, st). nat (maxsamples (fst st) - samplecount (fst st)))", goal_cases)
  case (2 env f st st' c)
  then show ?case by (cases st, cases st') (auto dest: measure_once_counts)
qed simp

declare fcyc_loop.simps [simp del]

definition fcyc :: "surroundings \<Rightarrow> ('s \<Rightarrow> (driver_stop, 's) res) \<Rightarrow> 'a::linordered_field meter \<times> 's \<Rightarrow>
    (driver_stop, 'a \<times> 'a meter \<times> 's) res" where
  "fcyc env f = (\<lambda>(m, s).
     bindE (assertE (\<not> (kbest m = UNSET \<or> maxsamples m = UNSET \<or> epsilon m = of_int UNSET \<or> compensate m = UNSET \<or> clear_cache m = UNSET \<or>
       clear_cache m \<noteq> 0 \<and> (cache_bytes m = UNSET \<or> cache_block m = UNSET))) Application_error) (\<lambda>_.
     bindE (fcyc_loop env f (init_sampler m, s)) (\<lambda>(m', s').
     bindE (element (values m') 0) (\<lambda>result. Inr (result, m'\<lparr>values := []\<rparr>, s')))))"

section \<open>Parameters, and times in seconds\<close>

definition set_fcyc_clear_cache :: "int \<Rightarrow> 'a meter \<Rightarrow> 'a meter" where
  "set_fcyc_clear_cache c m = m\<lparr>clear_cache := c\<rparr>"

definition set_fcyc_cache_size :: "int \<Rightarrow> 'a meter \<Rightarrow> 'a meter" where
  "set_fcyc_cache_size n m = (if n \<noteq> cache_bytes m then m\<lparr>cache_bytes := n, cache_buf := False\<rparr> else m)"

definition set_fcyc_cache_block :: "int \<Rightarrow> 'a meter \<Rightarrow> 'a meter" where
  "set_fcyc_cache_block n m = m\<lparr>cache_block := n\<rparr>"

definition set_fcyc_compensate :: "int \<Rightarrow> 'a meter \<Rightarrow> 'a meter" where
  "set_fcyc_compensate c m = m\<lparr>compensate := c\<rparr>"

definition set_fcyc_k :: "int \<Rightarrow> 'a meter \<Rightarrow> 'a meter" where
  "set_fcyc_k k m = m\<lparr>kbest := k\<rparr>"

definition set_fcyc_maxsamples :: "int \<Rightarrow> 'a meter \<Rightarrow> 'a meter" where
  "set_fcyc_maxsamples n m = m\<lparr>maxsamples := n\<rparr>"

definition set_fcyc_epsilon :: "'a \<Rightarrow> 'a meter \<Rightarrow> 'a meter" where
  "set_fcyc_epsilon e m = m\<lparr>epsilon := e\<rparr>"

text \<open>The settings with which the driver measures; the clock rate, read from a file of the system, is a parameter.\<close>

definition init_fsecs :: "'a::linordered_field meter \<Rightarrow> 'a meter" where
  "init_fsecs m =
     set_fcyc_cache_block 64 (set_fcyc_cache_size (2 ^ 19) (set_fcyc_clear_cache 1 (set_fcyc_compensate 0
       (set_fcyc_epsilon (1 / 100) (set_fcyc_maxsamples 100 (set_fcyc_k 10 m))))))"

definition fsecs :: "surroundings \<Rightarrow> 'a::linordered_field \<Rightarrow> ('s \<Rightarrow> (driver_stop, 's) res) \<Rightarrow> 'a meter \<times> 's \<Rightarrow>
    (driver_stop, 'a \<times> 'a meter \<times> 's) res" where
  "fsecs env Mhz f st = bindE (fcyc env f st) (\<lambda>(cycles, st'). Inr (cycles / (Mhz * 10 ^ 6), st'))"

section \<open>The clock rate\<close>

text \<open>The pieces that \<open>fgets\<close> returns of the file that describes the processor (\<open>None\<close>: it cannot be opened, which is not tested);
  what \<open>sscanf\<close> finds in one is a parameter.\<close>

definition mentions :: "string \<Rightarrow> string \<Rightarrow> bool" where
  "mentions word line \<longleftrightarrow> (\<exists>k \<le> length line. take (length word) (drop k line) = word)"

definition mhz_full :: "(string \<Rightarrow> 'a option) \<Rightarrow> string list option \<Rightarrow> (driver_stop, 'a::linordered_field) res" where
  "mhz_full scan_rate cpuinfo =
     (case cpuinfo of
        None \<Rightarrow> Inl Uninitialised
      | Some pieces \<Rightarrow>
          (case filter (mentions ''cpu MHz'') pieces of
             [] \<Rightarrow> Inr 0
           | line # _ \<Rightarrow> Inr (case scan_rate line of None \<Rightarrow> 0 | Some r \<Rightarrow> r)))"

definition mhz :: "(string \<Rightarrow> 'a option) \<Rightarrow> string list option \<Rightarrow> (driver_stop, 'a::linordered_field) res" where
  "mhz scan_rate cpuinfo = mhz_full scan_rate cpuinfo"

section \<open>The other timers\<close>

text \<open>\<open>ftimer.c\<close>, for which the driver can be configured instead: the average over some runs, by the interval timer or by the time of day. Both
  are read as seconds and microseconds.\<close>

definition MAX_ETIME :: int where "MAX_ETIME = 86400"

definition first_r :: "int \<times> int" where "first_r = (MAX_ETIME, 0)"

definition get_etime :: "int \<times> int \<Rightarrow> 'a::linordered_field" where
  "get_etime r_curr = of_int (fst first_r - fst r_curr) + of_int (snd first_r - snd r_curr) / 10 ^ 6"

fun run_times :: "nat \<Rightarrow> ('s \<Rightarrow> (driver_stop, 's) res) \<Rightarrow> 's \<Rightarrow> (driver_stop, 's) res" where
  "run_times 0 f s = Inr s"
| "run_times (Suc n) f s = bindE (f s) (run_times n f)"

definition ftimer_itimer :: "(nat \<Rightarrow> int \<times> int) \<Rightarrow> ('s \<Rightarrow> (driver_stop, 's) res) \<Rightarrow> int \<Rightarrow> 's \<Rightarrow>
    (driver_stop, 'a::linordered_field \<times> 's) res" where
  "ftimer_itimer reading f n s =
     bindE (run_times (nat n) f s) (\<lambda>s'. Inr ((get_etime (reading 1) - get_etime (reading 0)) / of_int n, s'))"

definition ftimer_gettod :: "(nat \<Rightarrow> int \<times> int) \<Rightarrow> ('s \<Rightarrow> (driver_stop, 's) res) \<Rightarrow> int \<Rightarrow> 's \<Rightarrow>
    (driver_stop, 'a::linordered_field \<times> 's) res" where
  "ftimer_gettod reading f n s =
     (let (stv_sec, stv_usec) = reading 0; (etv_sec, etv_usec) = reading 1;
          diff = 10 ^ 3 * of_int (etv_sec - stv_sec) + of_int (etv_usec - stv_usec) / 10 ^ 3
      in bindE (run_times (nat n) f s) (\<lambda>s'. Inr (diff / of_int n / 10 ^ 3, s')))"

end
