(* ===== verification/Mdriver_Main.thy ===== *)
theory Mdriver_Main
  imports Mdriver_Trace Fcyc
begin

text \<open>
  The driver as a program (\<open>main\<close> and \<open>run_tests\<close> of \<open>project04-kweng/mdriver.c\<close>): its options, the runs over the trace
  files with the C library and with \<open>mm.c\<close>, and the score. What \<open>getopt\<close> returns, the files, the address of the simulated heap, and the
  allocator of the C library are parameters; a \<open>double\<close> is an element of an ordered field. Of what is printed, the verdict and the
  score are modelled.
\<close>

section \<open>Options\<close>

record config =
  tracedir :: string
  tracefiles :: "string list option"
  onetime_flag :: bool
  run_libc :: bool
  debug_mode :: int

definition initial_config :: config where
  "initial_config = \<lparr>tracedir = ''./traces/'', tracefiles = None, onetime_flag = False, run_libc = False, debug_mode = 1\<rparr>"

definition default_tracefiles :: "string list" where
  "default_tracefiles =
     [''corners.rep'', ''short2.rep'', ''malloc.rep'', ''coalescing-bal.rep'', ''fs.rep'', ''hostname.rep'', ''login.rep'', ''ls.rep'',
      ''perl.rep'', ''random-bal.rep'', ''rm.rep'', ''xterm.rep'']"

definition atoi :: "string \<Rightarrow> int" where
  "atoi s =
     (let (neg, r) = strtol_sign (dropWhile isspace s); n = int (read_digits 10 0 (takeWhile is_digit r))
      in to_int (if neg then - n else n))"

text \<open>Modes other than the three of the enumeration are compared with two of them only, and so act as the third.\<close>

definition debug_of :: "int \<Rightarrow> debug" where
  "debug_of i = (if i = 0 then DBG_NONE else if i = 2 then DBG_EXPENSIVE else DBG_CHEAP)"

text \<open>An option letter with its argument; the letter of an unknown option is a question mark. One trace file is named by \<open>-f\<close> or
  \<open>-c\<close>, after which \<open>-t\<close> is ignored.\<close>

definition one_file :: "string \<Rightarrow> config \<Rightarrow> config" where
  "one_file file cfg = cfg\<lparr>tracefiles := Some [file], tracedir := ''./''\<rparr>"

definition trace_directory :: "string \<Rightarrow> config \<Rightarrow> (driver_stop, config) res" where
  "trace_directory dir cfg =
     bindE (assertE (length dir < MAXLINE) Out_of_array) (\<lambda>_.
     bindE (assertE (dir \<noteq> []) Out_of_array) (\<lambda>_.
     if last dir \<noteq> CHR ''/''
     then bindE (assertE (length dir + 1 < MAXLINE) Out_of_array) (\<lambda>_. Inr (cfg\<lparr>tracedir := dir @ ''/''\<rparr>))
     else Inr (cfg\<lparr>tracedir := dir\<rparr>)))"

definition option_step :: "char \<times> string \<Rightarrow> config \<Rightarrow> (driver_stop, config) res" where
  "option_step opt cfg =
     (case opt of (c, optarg) \<Rightarrow>
        if c = CHR ''f'' then Inr (one_file optarg cfg)
        else if c = CHR ''c'' then Inr (one_file optarg (cfg\<lparr>onetime_flag := True\<rparr>))
        else if c = CHR ''t'' then if tracefiles cfg \<noteq> None then Inr cfg else trace_directory optarg cfg
        else if c = CHR ''l'' then Inr (cfg\<lparr>run_libc := True\<rparr>)
        else if c = CHR ''d'' then Inr (cfg\<lparr>debug_mode := atoi optarg\<rparr>)
        else if c = CHR ''D'' then Inr (cfg\<lparr>debug_mode := 2\<rparr>)
        else if c = CHR ''h'' then Inl (Exited 0)
        else Inl (Exited 1))"

fun parse_options :: "(char \<times> string) list \<Rightarrow> config \<Rightarrow> (driver_stop, config) res" where
  "parse_options [] cfg = Inr cfg"
| "parse_options (opt # opts) cfg = bindE (option_step opt cfg) (parse_options opts)"

section \<open>Results\<close>

text \<open>The count of requests, a \<open>double\<close> in the code, is an exact integer.\<close>

record 'a stats_t =
  stat_filename :: string
  stat_weight :: int
  stat_ops :: int
  valid :: bool
  secs :: 'a
  util :: 'a

definition no_stats :: "'a::zero stats_t" where
  "no_stats = \<lparr>stat_filename = '''', stat_weight = 0, stat_ops = 0, valid = False, secs = 0, util = 0\<rparr>"

definition new_stats :: "string \<Rightarrow> trace_t \<Rightarrow> bool \<Rightarrow> 'a::zero stats_t" where
  "new_stats name tr ok = \<lparr>stat_filename = name, stat_weight = weight tr, stat_ops = num_ops tr, valid = ok, secs = 0, util = 0\<rparr>"

section \<open>Runs over the trace files\<close>

record ('a, 'h) world =
  files :: "string \<Rightarrow> string option"
  grants :: "nat \<Rightarrow> bool"
  random_numbers :: "nat \<Rightarrow> nat"
  heap_address :: nat
  timing :: surroundings
  Mhz :: 'a
  libc_malloc :: "nat \<Rightarrow> 'h \<Rightarrow> nat \<times> 'h"
  libc_realloc :: "nat \<Rightarrow> nat \<Rightarrow> 'h \<Rightarrow> nat \<times> 'h"
  libc_free :: "nat \<Rightarrow> 'h \<Rightarrow> 'h"

definition open_trace :: "('a, 'h) world \<Rightarrow> config \<Rightarrow> string \<Rightarrow> (driver_stop, string \<times> trace_t) res" where
  "open_trace W cfg file =
     bindE (assertE (length (tracedir cfg @ file) < MAXLINE) Out_of_array) (\<lambda>_.
     bindE (read_trace (grants W) (files W (tracedir cfg @ file))) (\<lambda>tr. Inr (tracedir cfg @ file, tr)))"

definition utilisation :: "int \<times> nat \<Rightarrow> 'a::linordered_field" where
  "utilisation u = of_int (fst u) / of_nat (snd u)"

fun run_tests :: "('a::linordered_field, 'h) world \<Rightarrow> config \<Rightarrow> string list \<Rightarrow> 'a meter \<times> driver \<Rightarrow>
    (driver_stop, 'a stats_t list \<times> 'a meter \<times> driver) res" where
  "run_tests W cfg [] st = Inr ([], st)"
| "run_tests W cfg (file # rest) (m, d) =
     bindE (open_trace W cfg file) (\<lambda>(name, tr).
     bindE (eval_mm_valid (random_numbers W) (debug_of (debug_mode cfg)) tr d) (\<lambda>(ok, tr1, d1).
     if onetime_flag cfg then Inr (new_stats name tr ok # replicate (length rest) no_stats, m, d1)
     else if ok then
       bindE (eval_mm_util tr1 d1) (\<lambda>(u, tr2, d2).
       bindE (fsecs (timing W) (Mhz W) (\<lambda>(t, e). eval_mm_speed t e) (m, tr2, d2)) (\<lambda>(t, m', _, d3).
       bindE (run_tests W cfg rest (m', d3)) (\<lambda>(sts, st).
       Inr ((new_stats name tr ok)\<lparr>util := utilisation u, secs := t\<rparr> # sts, st))))
     else bindE (run_tests W cfg rest (m, d1)) (\<lambda>(sts, st). Inr (new_stats name tr ok # sts, st))))"

fun run_libc_tests :: "('a::linordered_field, 'h) world \<Rightarrow> config \<Rightarrow> string list \<Rightarrow> 'a meter \<times> 'h \<Rightarrow>
    (driver_stop, 'a stats_t list \<times> 'a meter \<times> 'h) res" where
  "run_libc_tests W cfg [] st = Inr ([], st)"
| "run_libc_tests W cfg (file # rest) (m, h) =
     bindE (open_trace W cfg file) (\<lambda>(name, tr).
     bindE (eval_libc_valid (libc_malloc W) (libc_realloc W) (libc_free W) tr h) (\<lambda>(ok, tr1, h1).
     if ok then
       bindE (fsecs (timing W) (Mhz W) (\<lambda>(t, e). eval_libc_speed (libc_malloc W) (libc_realloc W) (libc_free W) t e) (m, tr1, h1)) (\<lambda>(t, m', _, h2).
       bindE (run_libc_tests W cfg rest (m', h2)) (\<lambda>(sts, st). Inr ((new_stats name tr ok)\<lparr>secs := t\<rparr> # sts, st)))
     else bindE (run_libc_tests W cfg rest (m, h1)) (\<lambda>(sts, st). Inr (new_stats name tr ok # sts, st))))"

section \<open>The score\<close>

definition UTIL_WEIGHT :: "'a::linordered_field" where "UTIL_WEIGHT = 6 / 10"
definition MIN_SPACE :: "'a::linordered_field" where "MIN_SPACE = 61 / 100"
definition MAX_SPACE :: "'a::linordered_field" where "MAX_SPACE = 85 / 100"
definition MIN_SPEED :: "'a::linordered_field" where "MIN_SPEED = 0"
definition MAX_SPEED :: "'a::linordered_field" where "MAX_SPEED = 40000 * 10 ^ 3"

definition share :: "'a::linordered_field \<Rightarrow> 'a \<Rightarrow> 'a \<Rightarrow> 'a \<Rightarrow> 'a" where
  "share low high points x = (if x < low then 0 else if high < x then points else (x - low) / (high - low) * points)"

text \<open>The averages; \<open>weighted f\<close> is the sum of a field over the traces that count.\<close>

definition weighted :: "('a stats_t \<Rightarrow> 'a::linordered_field) \<Rightarrow> 'a stats_t list \<Rightarrow> 'a" where
  "weighted f sts = sum_list (map (\<lambda>st. f st * of_int (stat_weight st)) sts)"

definition total_weight :: "'a::linordered_field stats_t list \<Rightarrow> 'a" where
  "total_weight sts = sum_list (map (\<lambda>st. of_int (stat_weight st)) sts)"

definition avg_mm_util :: "'a::linordered_field stats_t list \<Rightarrow> 'a" where
  "avg_mm_util sts = (if total_weight sts = 0 then 0 else weighted util sts / total_weight sts)"

definition avg_mm_throughput :: "'a::linordered_field stats_t list \<Rightarrow> 'a" where
  "avg_mm_throughput sts =
     (if total_weight sts = 0 then 0
      else if weighted secs sts = 0 then 0 else weighted (\<lambda>st. of_int (stat_ops st)) sts / weighted secs sts)"

text \<open>The index of 100 and the score of 70; with errors there is no index, and the score is 0.\<close>

definition perfindex :: "'a::linordered_field stats_t list \<Rightarrow> 'a" where
  "perfindex sts =
     (share MIN_SPACE MAX_SPACE UTIL_WEIGHT (avg_mm_util sts) + share MIN_SPEED MAX_SPEED (1 - UTIL_WEIGHT) (avg_mm_throughput sts)) * 100"

definition score :: "nat \<Rightarrow> 'a::linordered_field stats_t list \<Rightarrow> 'a" where
  "score errs sts =
     (if errs = 0 then 70 * max 0 (perfindex sts - 40 + 1) / (100 - 40) else 0)"

section \<open>The program\<close>

text \<open>The results: those of the C library and of \<open>mm.c\<close>, the verdict printed with \<open>-c\<close>, and the score.\<close>

definition mdriver :: "('a::linordered_field, 'h) world \<Rightarrow> (char \<times> string) list \<Rightarrow> 'a meter \<times> driver \<times> 'h \<Rightarrow>
    (driver_stop, 'a stats_t list \<times> 'a stats_t list \<times> bool option \<times> 'a \<times> driver) res" where
  "mdriver W opts = (\<lambda>(m0, d0, h0).
     bindE (parse_options opts initial_config) (\<lambda>cfg.
     let names = (case tracefiles cfg of None \<Rightarrow> default_tracefiles | Some fs \<Rightarrow> fs);
         d1 = init_random_data (random_numbers W) (debug_of (debug_mode cfg)) d0;
         m1 = init_fsecs m0 in
     bindE (if run_libc cfg
            then bindE (assertE (grants W (length names * 1064)) System_error) (\<lambda>_. run_libc_tests W cfg names (m1, h0))
            else Inr ([], m1, h0)) (\<lambda>(libc_stats, m2, _).
     bindE (assertE (grants W (length names * 1064)) System_error) (\<lambda>_.
     let d2 = d1\<lparr>mem_sys := mem_init (heap_address W) (mem_sys d1)\<rparr> in
     bindE (run_tests W cfg names (m2, d2)) (\<lambda>(mm_stats, _, d3).
     Inr (libc_stats, mm_stats, if onetime_flag cfg then Some (valid (last mm_stats)) else None, score (errors d3) mm_stats, d3))))))"

end
