(* ===== verification/Fcyc_Best.thy ===== *)
theory Fcyc_Best
  imports Fcyc "HOL-Library.Multiset"
begin

text \<open>
  What a measurement means: the cycle counter gives the true difference of two readings, and the K-best scheme the shortest of the times it
  has taken. The array of the scheme always holds the least samples in order; the loop ends when they agree within the tolerance, or with the
  greatest number of samples.
\<close>

section \<open>The cycle counter\<close>

lemma counter_words:
  fixes t u :: "64 word"
  defines "l \<equiv> (ucast t :: 32 word) - ucast u"
  shows "unat ((ucast (drop_bit 32 t) :: 32 word) - ucast (drop_bit 32 u) - (if (ucast t :: 32 word) < l then 1 else 0)) * 2 ^ 32 + unat l = unat (t - u)"
proof -
  define th tl uh ul where "th = unat t div 2 ^ 32" and "tl = unat t mod 2 ^ 32" and "uh = unat u div 2 ^ 32" and "ul = unat u mod 2 ^ 32"
  have b: "unat t < 2 ^ 64" "unat u < 2 ^ 64" by (rule order_less_le_trans [OF unsigned_less], simp)+
  have t: "unat t = th * 2 ^ 32 + tl" "th < 2 ^ 32" "tl < 2 ^ 32" using b by (simp_all add: th_def tl_def less_mult_imp_div_less)
  have u: "unat u = uh * 2 ^ 32 + ul" "uh < 2 ^ 32" "ul < 2 ^ 32" using b by (simp_all add: uh_def ul_def less_mult_imp_div_less)
  have w: "unat (ucast t :: 32 word) = tl" "unat (ucast u :: 32 word) = ul" "unat (ucast (drop_bit 32 t) :: 32 word) = th" "unat (ucast (drop_bit 32 u) :: 32 word) = uh"
    using t(2) u(2) by (simp_all add: unsigned_ucast_eq take_bit_eq_mod drop_bit_eq_div unat_div_distrib tl_def ul_def th_def uh_def)
  have l: "unat l = (if ul \<le> tl then tl - ul else 2 ^ 32 + tl - ul)"
    using w u(3) by (auto simp: l_def unat_sub_if' )
  have b: "(ucast t :: 32 word) < l \<longleftrightarrow> tl < ul" using l w t(3) u(3) by (auto simp: word_less_nat_alt)
  have h: "unat ((ucast (drop_bit 32 t) :: 32 word) - ucast (drop_bit 32 u) - (if tl < ul then 1 else 0)) =
    (if tl < ul then if uh < th then th - uh - 1 else 2 ^ 32 + th - uh - 1 else if uh \<le> th then th - uh else 2 ^ 32 + th - uh)"
    using w t(2) u(2) by (auto simp: unat_sub_if')
  show ?thesis unfolding b h l using t u  by (auto simp: unat_sub_if')
qed

lemma counter_difference:
  fixes m :: "'a::linordered_field meter"
  assumes "access_counter env m0 = ((cyc_hi m, cyc_lo m), m1)"
  shows "get_counter env m = (of_nat (unat (rdtsc env (counter_reads m) - rdtsc env (counter_reads m0))), m\<lparr>counter_reads := counter_reads m + 1\<rparr>)"
proof -
  let ?t = "rdtsc env (counter_reads m)" and ?u = "rdtsc env (counter_reads m0)"
  let ?l = "(ucast ?t :: 32 word) - ucast ?u"
  let ?h = "(ucast (drop_bit 32 ?t) :: 32 word) - ucast (drop_bit 32 ?u) - (if (ucast ?t :: 32 word) < ?l then 1 else 0)"
  have "of_nat (unat ?h) * 2 ^ 30 * 4 + of_nat (unat ?l) = (of_nat (unat ?h * 2 ^ 32 + unat ?l) :: 'a)" by simp
  moreover have "cyc_hi m = ucast (drop_bit 32 ?u)" "cyc_lo m = ucast ?u" using assms by (auto simp: access_counter_def Let_def)
  ultimately show ?thesis unfolding counter_words by (simp add: get_counter_def access_counter_def Let_def)
qed

text \<open>What \<open>get_counter\<close> returns is the number of cycles since \<open>start_counter\<close>, although both are read as two words of 32 bits and
  subtracted word by word, with a borrow; also when the counter of 64 bits has wrapped around once in between.\<close>

theorem counter_subtracts:
  fixes m :: "'a::linordered_field meter"
  shows "get_counter env (start_counter env m) =
    (of_nat (unat (rdtsc env (counter_reads m + 1) - rdtsc env (counter_reads m))),
     (start_counter env m)\<lparr>counter_reads := counter_reads m + 2\<rparr>)"
  using counter_difference [of env m "start_counter env m" "m\<lparr>counter_reads := counter_reads m + 1\<rparr>"]
  by (simp add: start_counter_def access_counter_def Let_def)

definition cycles :: "surroundings \<Rightarrow> nat \<Rightarrow> nat \<Rightarrow> 'a::linordered_field" where
  "cycles env n i = of_nat (unat (rdtsc env (n + 2 * i + 1) - rdtsc env (n + 2 * i)))"

section \<open>The least samples\<close>

definition best :: "nat \<Rightarrow> 'a::linordered_field list \<Rightarrow> 'a list" where
  "best k xs = take k (sort xs) @ replicate (k - length xs) 0"

lemma sorted_same: "sorted xs \<Longrightarrow> sorted ys \<Longrightarrow> mset xs = mset ys \<Longrightarrow> xs = ys"
  by (metis properties_for_sort)

lemma insort_around:
  assumes "sorted (us @ w # ws)"
  shows "v < w \<Longrightarrow> insort v (us @ w # ws) = insort v us @ w # ws" "w \<le> v \<Longrightarrow> insort v (us @ w # ws) = us @ w # insort v ws"
  by (rule sorted_same; use assms in \<open>fastforce simp: sorted_append sorted_insort set_insort_key\<close>)+

lemma swap_down_sorted: "sorted us \<Longrightarrow> swap_down (length us) (us @ v # rest) = insort v us @ rest"
proof (induction us arbitrary: rest rule: rev_induct)
  case (snoc u us)
  have "sorted us" using snoc.prems by (simp add: sorted_append)
  then have "swap_down (length us) (us @ v # u # rest) = insort v us @ u # rest" by (rule snoc.IH)
  moreover have "(us @ u # v # rest)[length us := v, Suc (length us) := u] = us @ v # u # rest" by (simp add: list_update_append)
  ultimately show ?case using insort_around [OF snoc.prems, of v] by (simp add: nth_append)
qed simp

lemma take_insort:
  assumes "sorted ys" "n < length ys"
  shows "take (Suc n) (insort v ys) = (if v < ys ! n then insort v (take n ys) else take (Suc n) ys)"
proof -
  have ys: "ys = take n ys @ ys ! n # drop (Suc n) ys" using assms(2) by (rule id_take_nth_drop)
  have "insort v ys = (if v < ys ! n then insort v (take n ys) @ ys ! n # drop (Suc n) ys else take n ys @ ys ! n # insort v (drop (Suc n) ys))"
    using insort_around [of "take n ys" "ys ! n" "drop (Suc n) ys" v] assms(1) ys by (simp add: not_less)
  then show ?thesis using assms(2) by (simp add: take_Suc_conv_app_nth [of n ys])
qed

lemma sort_snoc: "sort (xs @ [v]) = insort v (sort xs)"
  by (rule properties_for_sort) (simp_all add: sorted_insort)

lemma add_sample_best:
  fixes m :: "'a::linordered_field meter"
  assumes "0 < kbest m" "values m = best (nat (kbest m)) xs" "samplecount m = int (length xs)"
  shows "add_sample v m = Inr (m\<lparr>values := best (nat (kbest m)) (xs @ [v]), samplecount := samplecount m + 1\<rparr>)"
proof (cases "length xs < nat (kbest m)")
  case True
  define k where "k = nat (kbest m)"
  have "replicate (k - length xs) 0 = (0::'a) # replicate (k - length xs - 1) 0" using True by (cases "k - length xs") (simp_all add: k_def)
  then have vs: "values m = sort xs @ 0 # replicate (k - length xs - 1) 0" and len: "length (values m) = k"
    using True assms(2) by (simp_all add: best_def k_def)
  have "(values m)[length xs := v] = sort xs @ v # replicate (k - length xs - 1) 0" by (simp add: vs list_update_append)
  then have "swap_down (length xs) ((values m)[length xs := v]) = best k (xs @ [v])"
    using swap_down_sorted [of "sort xs" v] True by (simp add: best_def sort_snoc k_def)
  moreover have "samplecount m < kbest m" "in_array (samplecount m) (values m)" "nat (samplecount m) = length xs"
    using True len assms(3) by (auto simp: in_array_def k_def)
  ultimately show ?thesis by (simp add: add_sample_def set_element_def k_def [symmetric])
next
  case False
  obtain n where n: "nat (kbest m) = Suc n" "kbest m = int n + 1" using assms(1) by (metis Suc_nat_eq_nat_zadd1 add.commute gr0_implies_Suc int_nat_eq of_nat_Suc order_less_imp_le zero_less_nat_eq)
  have len: "n < length xs" using False n by simp
  have vs: "values m = take n (sort xs) @ [sort xs ! n]" using len assms(2) n by (simp add: best_def take_Suc_conv_app_nth)
  have last: "in_array (kbest m - 1) (values m)" "nat (kbest m - 1) = n" "values m ! n = sort xs ! n"
    using len n by (simp_all add: vs in_array_def nth_append)
  have up: "(values m)[n := v] = take n (sort xs) @ v # []" using len by (simp add: vs list_update_append)
  have "swap_down n ((values m)[n := v]) = insort v (take n (sort xs))"
    using swap_down_sorted [of "take n (sort xs)" v "[]"] len up by (simp add: sorted_wrt_take)
  moreover have "best (Suc n) (xs @ [v]) = (if v < sort xs ! n then insort v (take n (sort xs)) else values m)"
    using take_insort [of "sort xs" n v] len by (simp add: best_def sort_snoc vs take_Suc_conv_app_nth)
  moreover have "\<not> samplecount m < kbest m" using False assms(3) by simp
  ultimately show ?thesis using last by (simp add: add_sample_def set_element_def element_def n(1))
qed

lemma sort_first: "xs \<noteq> [] \<Longrightarrow> sort xs ! 0 = Min (set xs)"
proof (cases "sort xs")
  case (Cons y ys)
  then have "sorted (y # ys)" by (metis sorted_sort)
  then have "Min (set (y # ys)) = y" by (intro Min_eqI) auto
  then show ?thesis by (metis Cons nth_Cons_0 set_sort)
qed (metis length_0_conv length_sort)

lemma best_ends:
  assumes "0 < k" "xs \<noteq> []"
  shows "best k xs ! 0 = Min (set xs)" "k \<le> length xs \<Longrightarrow> best k xs ! (k - 1) = sort xs ! (k - 1)" "length (best k xs) = k"
  using assms sort_first [of xs] by (auto simp: best_def nth_append)

text \<open>Samples agree when the \<open>k\<close>-th least is not far above the least.\<close>

definition agree :: "nat \<Rightarrow> 'a::linordered_field \<Rightarrow> 'a list \<Rightarrow> bool" where
  "agree k e xs \<longleftrightarrow> k \<le> length xs \<and> sort xs ! (k - 1) \<le> (1 + e) * Min (set xs)"

lemma has_converged_best:
  fixes m :: "'a::linordered_field meter"
  assumes "0 < kbest m" "values m = best (nat (kbest m)) xs" "samplecount m = int (length xs)" "xs \<noteq> []"
  shows "has_converged m = Inr (agree (nat (kbest m)) (epsilon m) xs)"
proof -
  define k where "k = nat (kbest m)"
  have k: "0 < k" "kbest m = int k" using assms(1) by (simp_all add: k_def)
  have "nat (int k - 1) = k - 1" using k by simp
  then show ?thesis
    using best_ends [OF k(1) assms(4)] assms(2,3) k
    by (simp add: has_converged_def element_def in_array_def agree_def k_def [symmetric])
qed

section \<open>A run of measurements\<close>

definition can_clear :: "surroundings \<Rightarrow> 'a meter \<Rightarrow> bool" where
  "can_clear env m \<longleftrightarrow> clear_cache m \<noteq> 0 \<longrightarrow> 4 \<le> cache_block m \<and> cache_block m < 2 ^ 31 \<and>
     (cache_buf m \<or> granted env (size_of_int (cache_bytes m)))"

lemma clear_loop_ends:
  assumes "0 < incr" "0 \<le> cptr"
  shows "\<exists>x'. clear_loop env cend incr cptr x = Some (Inr x')"
  using assms(2)
proof (induction "nat (cend - cptr)" arbitrary: cptr x rule: less_induct)
  case less
  then show ?case using assms(1) less.hyps [of "cptr + incr"] by (subst clear_loop.simps) auto
qed

lemma block_step: "4 \<le> b \<Longrightarrow> b < 2 ^ 31 \<Longrightarrow> 0 < as_int (int (size_of_int b div 4))"
proof -
  assume b: "4 \<le> b" "b < 2 ^ 31"
  then have "int (size_of_int b div 4) = b div 4" by (simp add: size_of_int_def zdiv_int)
  moreover have "as_int (b div 4) = b div 4" using b by (simp add: as_int_def signed_of_int signed_take_bit_int_eq_self)
  ultimately show ?thesis using b by simp
qed

lemma clear_runs:
  assumes "can_clear env m"
  obtains x b where "(if clear_cache m \<noteq> 0 then clear env m else Inr m) = Inr (m\<lparr>cache_buf := b, sink := x\<rparr>)" "can_clear env (m\<lparr>cache_buf := b, sink := x\<rparr>)"
proof (cases "clear_cache m = 0")
  case True
  then show thesis using that [of "sink m" "cache_buf m"] assms by simp
next
  case False
  let ?n = "as_int (int (size_of_int (cache_block m) div 4))"
  have "0 < ?n" using assms False by (intro block_step) (simp_all add: can_clear_def)
  then obtain x where "clear_loop env (int (size_of_int (cache_bytes m) div 4)) ?n 0 (sink m) = Some (Inr x)"
    using clear_loop_ends [of ?n 0] by fastforce
  then have "clear env m = Inr (m\<lparr>cache_buf := True, sink := x\<rparr>)" using assms False by (simp add: clear_def ending_def can_clear_def)
  then show thesis using that [of x True] assms False by (simp add: can_clear_def)
qed

definition sampling :: "surroundings \<Rightarrow> nat \<Rightarrow> 'a::linordered_field meter \<Rightarrow> nat \<Rightarrow> bool" where
  "sampling env n m j \<longleftrightarrow> 0 < kbest m \<and> compensate m = 0 \<and> can_clear env m \<and> counter_reads m = n + 2 * j \<and>
     samplecount m = int j \<and> values m = best (nat (kbest m)) (map (cycles env n) [0..<j])"

definition settings :: "'a meter \<Rightarrow> int \<times> int \<times> 'a" where
  "settings m = (kbest m, maxsamples m, epsilon m)"

lemma measure_once_sampling:
  assumes "sampling env n m j" "f s = Inr s'"
  obtains m' where "measure_once env f (m, s) = Inr (m', s')" "sampling env n m' (Suc j)" "settings m' = settings m"
proof -
  obtain x b where c: "(if clear_cache m \<noteq> 0 then clear env m else Inr m) = Inr (m\<lparr>cache_buf := b, sink := x\<rparr>)"
    and cc: "can_clear env (m\<lparr>cache_buf := b, sink := x\<rparr>)"
    using assms(1) by (auto simp: sampling_def elim: clear_runs)
  let ?m1 = "m\<lparr>cache_buf := b, sink := x\<rparr>"
  let ?m2 = "start_counter env ?m1"
  have k: "0 < kbest m" "compensate m = 0" using assms(1) by (simp_all add: sampling_def)
  have m2: "access_counter env ?m1 = ((cyc_hi ?m2, cyc_lo ?m2), ?m1\<lparr>counter_reads := counter_reads m + 1\<rparr>)"
    by (simp add: start_counter_def access_counter_def Let_def)
  have r: "counter_reads ?m2 = n + 2 * j + 1" "counter_reads ?m1 = n + 2 * j"
    using assms(1) by (simp_all add: start_counter_def access_counter_def sampling_def Let_def)
  have g: "get_counter env ?m2 = (cycles env n j, ?m2\<lparr>counter_reads := n + 2 * j + 2\<rparr>)"
    using counter_difference [OF m2] by (simp add: r cycles_def)
  let ?m3 = "?m2\<lparr>counter_reads := n + 2 * j + 2\<rparr>"
  have s: "kbest ?m3 = kbest m" "samplecount ?m3 = int j" "values ?m3 = best (nat (kbest m)) (map (cycles env n) [0..<j])"
    using assms(1) by (simp_all add: start_counter_def access_counter_def sampling_def Let_def)
  let ?m4 = "?m3\<lparr>values := best (nat (kbest m)) (map (cycles env n) [0..<Suc j]), samplecount := int j + 1\<rparr>"
  have a: "add_sample (cycles env n j) ?m3 = Inr ?m4"
    using add_sample_best [of ?m3 "map (cycles env n) [0..<j]" "cycles env n j"] k(1) s by simp
  have "measure_once env f (m, s) = Inr (?m4, s')"
    using assms(2) c a by (simp add: measure_once_def k(2) g)
  moreover have "sampling env n ?m4 (Suc j)"
    using k cc by (simp add: sampling_def start_counter_def access_counter_def can_clear_def Let_def)
  moreover have "settings ?m4 = settings m" by (simp add: settings_def start_counter_def access_counter_def Let_def)
  ultimately show thesis by (rule that)
qed

text \<open>The loop stops after the first number of measurements with which they agree, or after the greatest number allowed.\<close>

definition stops_after :: "surroundings \<Rightarrow> nat \<Rightarrow> 'a::linordered_field meter \<Rightarrow> nat \<Rightarrow> bool" where
  "stops_after env n m j \<longleftrightarrow> agree (nat (kbest m)) (epsilon m) (map (cycles env n) [0..<j]) \<or> maxsamples m \<le> int j"

lemma stops_after_settings: "settings m' = settings m \<Longrightarrow> stops_after env n m' = stops_after env n m"
  by (auto simp: settings_def stops_after_def fun_eq_iff)

lemma fcyc_loop_sampling:
  assumes "\<And>s. I s \<Longrightarrow> \<exists>s'. f s = Inr s' \<and> I s'"
  shows "sampling env n m j \<Longrightarrow> I s \<Longrightarrow> \<exists>m' s' l. fcyc_loop env f (m, s) = Inr (m', s') \<and> I s' \<and> j < l \<and> sampling env n m' l \<and>
    settings m' = settings m \<and> stops_after env n m l \<and> (\<forall>i. j < i \<and> i < l \<longrightarrow> \<not> stops_after env n m i)"
proof (induction "nat (maxsamples m - int j)" arbitrary: m s j rule: less_induct)
  case less
  obtain s1 where s1: "f s = Inr s1" "I s1" using assms less.prems(2) by blast
  obtain m1 where m1: "measure_once env f (m, s) = Inr (m1, s1)" "sampling env n m1 (Suc j)" "settings m1 = settings m"
    using measure_once_sampling [of env n m j f s s1] less.prems(1) s1(1) by blast
  have st: "stops_after env n m1 = stops_after env n m" using m1(3) by (rule stops_after_settings)
  let ?c = "agree (nat (kbest m1)) (epsilon m1) (map (cycles env n) [0..<Suc j])"
  have c: "has_converged m1 = Inr ?c"
    using m1(2) by (intro has_converged_best) (simp_all add: sampling_def)
  have stop: "stops_after env n m (Suc j) \<longleftrightarrow> ?c \<or> \<not> samplecount m1 < maxsamples m1"
    using m1(2) by (auto simp: stops_after_def sampling_def simp flip: st)
  have run: "fcyc_loop env f (m, s) = (if stops_after env n m (Suc j) then Inr (m1, s1) else fcyc_loop env f (m1, s1))"
    by (subst fcyc_loop.simps) (use m1(1) c stop in auto)
  show ?case
  proof (cases "stops_after env n m (Suc j)")
    case True
    then show ?thesis using run s1(2) m1(2,3) by (intro exI [of _ m1] exI [of _ s1] exI [of _ "Suc j"]) auto
  next
    case False
    have "maxsamples m1 = maxsamples m" using m1(3) by (simp add: settings_def)
    then have "nat (maxsamples m1 - int (Suc j)) < nat (maxsamples m - int j)" using False by (auto simp: stops_after_def)
    from less.hyps [OF this m1(2) s1(2)] obtain m' s' l where l: "fcyc_loop env f (m1, s1) = Inr (m', s')" "I s'" "Suc j < l" "sampling env n m' l"
      "settings m' = settings m1" "stops_after env n m1 l" "\<forall>i. Suc j < i \<and> i < l \<longrightarrow> \<not> stops_after env n m1 i" by blast
    have "\<not> stops_after env n m i" if "j < i \<and> i < l" for i using that False l(7) st by (cases "i = Suc j") auto
    then show ?thesis using run False l(1-6) m1(3) st by (intro exI [of _ m'] exI [of _ s'] exI [of _ l]) auto
  qed
qed

text \<open>C24. The K-best scheme, when the function under measurement always returns: it takes \<open>j\<close> measurements, where \<open>j\<close> is the first number
  with which the \<open>k\<close>-th least is within the tolerance of the least, or else the greatest number allowed; and it returns the least of the
  \<open>j\<close> true differences of the cycle counter.\<close>

theorem fcyc_takes_least:
  fixes m :: "'a::linordered_field meter"
  assumes "0 < kbest m" "0 < maxsamples m" "epsilon m \<noteq> - 1" "compensate m = 0" "clear_cache m \<noteq> -1" "cache_bytes m \<noteq> -1" "can_clear env m"
    and "\<And>s. I s \<Longrightarrow> \<exists>s'. f s = Inr s' \<and> I s'" "I s"
  shows "\<exists>j m' s'. fcyc env f (m, s) = Inr (Min (cycles env (counter_reads m) ` {..<j}), m', s') \<and> I s' \<and> 0 < j \<and> int j \<le> maxsamples m \<and>
    counter_reads m' = counter_reads m + 2 * j \<and> stops_after env (counter_reads m) m j \<and>
    (\<forall>i. 0 < i \<and> i < j \<longrightarrow> \<not> stops_after env (counter_reads m) m i)"
proof -
  let ?n = "counter_reads m" and ?m = "init_sampler m"
  have k: "0 < nat (kbest m)" using assms(1) by simp
  have "sampling env ?n ?m 0" using assms(1,4,7) by (simp add: sampling_def init_sampler_def can_clear_def best_def)
  from fcyc_loop_sampling [where I = I and f = f, OF assms(8) this assms(9)]
  obtain m' s' l where l: "fcyc_loop env f (?m, s) = Inr (m', s')" "I s'" "0 < l" "sampling env ?n m' l"
    "settings m' = settings ?m" "stops_after env ?n ?m l" "\<forall>i. 0 < i \<and> i < l \<longrightarrow> \<not> stops_after env ?n ?m i" by blast
  have st: "stops_after env ?n ?m = stops_after env ?n m" by (rule stops_after_settings) (simp add: settings_def init_sampler_def)
  have vs: "values m' = best (nat (kbest m)) (map (cycles env ?n) [0..<l])" using l(4,5) by (simp add: sampling_def settings_def init_sampler_def)
  have "values m' ! 0 = Min (cycles env ?n ` {..<l})" "length (values m') = nat (kbest m)"
    using best_ends [OF k, of "map (cycles env ?n) [0..<l]"] l(3) by (simp_all add: vs lessThan_atLeast0)
  then have "fcyc env f (m, s) = Inr (Min (cycles env ?n ` {..<l}), m'\<lparr>values := []\<rparr>, s')"
    using assms(1-7) k l(1) by (auto simp: fcyc_def UNSET_def element_def in_array_def can_clear_def assertE_def)
  moreover have "int l \<le> maxsamples m"
  proof (rule ccontr)
    assume "\<not> int l \<le> maxsamples m"
    then have "stops_after env ?n ?m (l - 1)" "l - 1 < l" "0 < l - 1" using assms(2) l(3) by (auto simp: stops_after_def init_sampler_def)
    then show False using l(7) by blast
  qed
  ultimately show ?thesis using l st
    by (intro exI [of _ l] exI [of _ "m'\<lparr>values := []\<rparr>"] exI [of _ s']) (auto simp: sampling_def)
qed

section \<open>Examples\<close>

definition sample_meter :: "rat meter" where
  "sample_meter = init_fsecs \<lparr>kbest = UNSET, maxsamples = UNSET, epsilon = -1, compensate = UNSET, clear_cache = UNSET, cache_bytes = UNSET,
     cache_block = UNSET, cache_buf = False, values = [], samplecount = 0, sink = 0, cyc_hi = 0, cyc_lo = 0, cyc_per_tick = 0, start_tick = 0,
     counter_reads = 0, times_reads = 0\<rparr>"

definition sample_surroundings :: surroundings where
  "sample_surroundings = \<lparr>rdtsc = (\<lambda>i. of_nat (2 ^ 32 * i)), utime = (\<lambda>_. 0), granted = (\<lambda>_. True), buffer_words = (\<lambda>_. 1)\<rparr>"

theorem fcyc_takes_least_witness:
  "\<exists>j m' s'. fcyc sample_surroundings (\<lambda>n. Inr (Suc n)) (sample_meter, 0) =
     Inr (Min (cycles sample_surroundings 0 ` {..<j}), m', s') \<and> 0 < j \<and> j \<le> 100 \<and> counter_reads m' = 2 * j"
proof -
  have m: "kbest sample_meter = 10" "maxsamples sample_meter = 100" "epsilon sample_meter = 1 / 100" "compensate sample_meter = 0"
    "clear_cache sample_meter = 1" "cache_bytes sample_meter = 2 ^ 19" "cache_block sample_meter = 64" "counter_reads sample_meter = 0"
    by (simp_all add: sample_meter_def init_fsecs_def set_fcyc_clear_cache_def set_fcyc_cache_size_def set_fcyc_cache_block_def
      set_fcyc_compensate_def set_fcyc_k_def set_fcyc_maxsamples_def set_fcyc_epsilon_def UNSET_def)
  have "can_clear sample_surroundings sample_meter" by (simp add: can_clear_def m sample_surroundings_def)
  then show ?thesis
    using fcyc_takes_least [of sample_meter sample_surroundings "\<lambda>_. True" "\<lambda>n. Inr (Suc n)" "0 :: nat"] m by fastforce
qed

end
