(* ===== verification/Mdriver_Whole.thy ===== *)
theory Mdriver_Whole
  imports Mdriver_Main Mdriver_Runs Fcyc_Best
begin

text \<open>
  The driver as a whole: with \<open>-c\<close> it reads a trace file, checks the allocator once and finds it correct. With \<open>-f\<close> it goes on to a
  second run, and there \<open>mm_init\<close> has left the pointer to the node freed last as it was, so that the first release of the second run writes into
  the heap at a place of the first run: on the trace given here the driver does not come to an end.
\<close>

section \<open>One run\<close>

text \<open>The results of one trace without measurements give no points.\<close>

lemma score_unmeasured: "score errs [new_stats name tr ok] = (0 :: 'a::linordered_field)"
  by (simp add: score_def perfindex_def avg_mm_util_def avg_mm_throughput_def weighted_def new_stats_def share_def MIN_SPACE_def MIN_SPEED_def MAX_SPEED_def)

lemma open_shown:
  assumes "trace_ok tr" "\<forall>n. grants W n" "files W (tracedir cfg @ file) = Some (show_trace tr)" "length (tracedir cfg @ file) < MAXLINE"
  shows "open_trace W cfg file = Inr (tracedir cfg @ file, tr)"
  using read_trace_back [OF assms(1,2)] assms(3,4) by (simp add: open_trace_def)

definition one_run :: "string \<Rightarrow> bool \<Rightarrow> string \<Rightarrow> (char \<times> string) list" where
  "one_run mode once file = [(CHR ''d'', mode), (if once then CHR ''c'' else CHR ''f'', file)]"

lemma parse_one_run: "parse_options (one_run mode once file) initial_config =
    Inr \<lparr>tracedir = ''./'', tracefiles = Some [file], onetime_flag = once, run_libc = False, debug_mode = atoi mode\<rparr>"
  by (simp add: one_run_def option_step_def one_file_def initial_config_def)

lemma init_random_data_fields: "mem_sys (init_random_data random debug d) = mem_sys d" "errors (init_random_data random debug d) = errors d"
  by (simp_all add: init_random_data_def)

text \<open>C9. Run with \<open>-c\<close> on the file of a balanced trace whose blocks the heap can hold one after the other, in any debugging mode, the driver
  reads the trace, runs the allocator over it, and prints that it is correct; the score it prints as well is 0, since nothing has been measured.\<close>

theorem checked_once:
  fixes W :: "('a::linordered_field, 'h) world"
  assumes "trace_ok tr" "balanced (nat (num_ids tr)) [] (ops tr)" "8 + demand (ops tr) \<le> MAX_HEAP"
    and "\<forall>n. grants W n" "files W (''./'' @ file) = Some (show_trace tr)" "length file < 1022"
    and "16 dvd heap_address W" "MAX_HEAP \<le> heap_address W" "heap_address W + MAX_HEAP < 2 ^ 63" "last_node (mem_sys d) = 0"
  shows "\<exists>d'. mdriver W (one_run mode True file) (m, d, h) = Inr ([], [new_stats (''./'' @ file) tr True], Some True, 0, d')"
proof -
  let ?dbg = "debug_of (atoi mode)"
  let ?cfg = "\<lparr>tracedir = ''./'', tracefiles = Some [file], onetime_flag = True, run_libc = False, debug_mode = atoi mode\<rparr>"
  let ?d1 = "init_random_data (random_numbers W) ?dbg d"
  let ?d2 = "?d1\<lparr>mem_sys := mem_init (heap_address W) (mem_sys ?d1)\<rparr>"
  have ar: "arrays_ok (nat (num_ids tr)) tr" "num_ops tr = int (length (ops tr))"
    using assms(1) by (simp_all add: trace_ok_def arrays_ok_def zeroes_def)
  have sys: "mem_sys ?d2 = mem_init (heap_address W) (mem_sys d)" by (simp add: init_random_data_fields)
  obtain tr' d' where e: "eval_mm_valid (random_numbers W) ?dbg tr ?d2 = Inr (True, tr', d')"
    using eval_mm_valid_runs [OF ar assms(2) sys assms(7-10,3)] by blast
  have o: "open_trace W ?cfg file = Inr (''./'' @ file, tr)"
    using open_shown [OF assms(1,4), of ?cfg "file"] assms(5,6) by (simp add: MAXLINE_def)
  have "mdriver W (one_run mode True file) (m, d, h) = Inr ([], [new_stats (''./'' @ file) tr True], Some True, 0, d')"
    using o e assms(4) by (simp add: mdriver_def parse_one_run Let_def score_unmeasured) (simp add: new_stats_def)
  then show ?thesis ..
qed

section \<open>Memory by its quad-words\<close>

text \<open>A memory given by the values of its aligned quad-words, in which loads and stores are look-ups and updates.\<close>

definition quads :: "(nat \<Rightarrow> nat) \<Rightarrow> mem" where
  "quads f = (\<lambda>a. word_of_nat (f (a div 8 * 8) div 256 ^ (a mod 8)))"

lemma store_bytes_inside: "i < n \<Longrightarrow> store_bytes n m a v (a + i) = word_of_nat (v div 256 ^ i)"
proof (induction n arbitrary: m a v i)
  case (Suc n)
  show ?case
  proof (cases i)
    case 0
    then show ?thesis by (simp add: store_bytes_other)
  next
    case (Suc j)
    then have "store_bytes n (m(a := word_of_nat v)) (a + 1) (v div 256) (a + 1 + j) = word_of_nat (v div 256 div 256 ^ j)"
      using Suc.prems by (intro Suc.IH) simp
    then show ?thesis using Suc by (simp add: div_mult2_eq)
  qed
qed simp

lemma store_quads: "8 dvd a \<Longrightarrow> store64 (quads f) a v = quads (f(a := v))"
proof
  fix b
  assume a: "8 dvd a"
  show "store64 (quads f) a v b = quads (f(a := v)) b"
  proof (cases "a \<le> b \<and> b < a + 8")
    case True
    define i where "i = b - a"
    have i: "b = a + i" "i < 8" using True by (auto simp: i_def)
    then have "b div 8 * 8 = a" "b mod 8 = i" using a by (auto elim!: dvdE)
    then show ?thesis using i by (simp add: store64_def store_bytes_inside quads_def)
  next
    case False
    then have "b div 8 * 8 \<noteq> a" by (metis div_mod_decomp le_add1 add_left_mono mod_less_divisor nat_add_left_cancel_less zero_less_numeral)
    then show ?thesis using False by (auto simp: quad.store_elsewhere quads_def)
  qed
qed

lemma load_quads: "8 dvd a \<Longrightarrow> f a < 256 ^ 8 \<Longrightarrow> load64 (quads f) a = f a"
  using quad.load_same [of "f a" "quads f" a] store_quads [of a f "f a"] by simp

lemma quads_zero: "quads (\<lambda>_. 0) = (\<lambda>_. 0)"
  by (simp add: quads_def fun_eq_iff)

section \<open>A trace\<close>

definition alloc_op :: "int \<Rightarrow> nat \<Rightarrow> traceop_t" where
  "alloc_op i n = \<lparr>op_type = ALLOC, op_index = i, op_size = n\<rparr>"

definition free_op :: "int \<Rightarrow> traceop_t" where
  "free_op i = \<lparr>op_type = FREE, op_index = i, op_size = 0\<rparr>"

definition stale_ops :: "traceop_t list" where
  "stale_ops = [alloc_op 0 48, alloc_op 1 32, free_op 0, alloc_op 2 48, free_op 2, alloc_op 3 64, free_op 1, alloc_op 4 32, free_op 3]"

definition stale_trace :: trace_t where
  "stale_trace = \<lparr>ignore_ranges = 0, num_ids = 5, num_ops = 9, weight = 1, ops = stale_ops,
     blocks = [0, 0, 0, 0, 0], block_sizes = [0, 0, 0, 0, 0], block_rand_base = [0, 0, 0, 0, 0]\<rparr>"


definition heap_at :: "nat \<Rightarrow> (nat \<Rightarrow> nat) \<Rightarrow> nat \<Rightarrow> heap_state" where
  "heap_at brk f node = \<lparr>heap = 2 ^ 32, mem_brk = brk, mem_max_addr = 2 ^ 32 + MAX_HEAP, bytes = quads f, last_node = node\<rparr>"

lemma find_fit_step:
  "p < mem_heap_hi s \<Longrightarrow> 0 < get_size p s \<Longrightarrow> find_fit_from (numeral k) p sz s =
     (if sz \<le> get_size p s \<and> \<not> check_allocated p s then Inr (Some p) else find_fit_from (pred_numeral k) (p + get_size p s) sz s)"
  "\<not> p < mem_heap_hi s \<Longrightarrow> find_fit_from (numeral k) p sz s = Inr None"
  by (simp_all add: numeral_eq_Suc)

lemmas stale_eval = mm_malloc_def find_fit_def find_fit_step block_size_def round_up_def
  header_bytes_def ALIGNMENT_def first_block_def mem_heap_lo_def mem_heap_hi_def mem_sbrk_def set_header_def
  set_footer_def get_size_def check_allocated_def with_bit_def split_block_def sub64_le store_quads load_quads mm_free_def coalesce_def
  next_block_def prev_block_def merge_def link_node_def set_prev_def set_next_def Let_def MAX_HEAP_def heap_at_def


lemmas stale_driver_eval = eval_mm_valid_def valid_op_def valid_alloc_def valid_free_def check_all_def check_index_def add_range_def
  int_of_size_def randomize_block_def remove_range_def clear_ranges_def reinit_trace_def heap_run_def set_element_def element_def in_array_def
  IS_ALIGNED_def outside_heap_def mm_init_def mem_reset_brk_def alloc_op_def free_op_def stale_ops_def stale_trace_def
  eval_mm_util_def util_op_def find_fit_stuck

lemma stale_start:
  assumes "bytes s = (\<lambda>_. 0)" "last_node s = 0"
  shows "mem_init (2 ^ 32) s = heap_at (2 ^ 32) (\<lambda>_. 0) 0"
  using assms by (cases s) (auto simp: mem_init_def heap_at_def quads_zero)

lemma bindE_weak: "m = m' \<Longrightarrow> bindE m k = bindE m' k"
  by simp

definition stale_quads :: "nat \<Rightarrow> nat" where
  "stale_quads = (\<lambda>_. 0)(4294967416 := 81, 4294967312 := 4294967312, 4294967304 := 49, 4294967344 := 49, 4294967408 := 64,
     4294967352 := 144, 4294967488 := 144, 4294967368 := 0, 4294967320 := 4294967360, 4294967360 := 4294967312)"

text \<open>The first run over the trace goes well, the second does not come to an end.\<close>

lemma first_run:
  assumes "mem_sys d = heap_at (2 ^ 32) (\<lambda>_. 0) 0"
  shows "eval_mm_valid random DBG_NONE stale_trace d =
    Inr (True, stale_trace\<lparr>blocks := [4294967312, 4294967376, 4294967312, 4294967424, 4294967312], block_sizes := [48, 32, 48, 64, 32]\<rparr>,
      d\<lparr>mem_sys := heap_at 4294967496 stale_quads 4294967360, ranges := []\<rparr>)"
  by (simp add: stale_driver_eval stale_eval assms stale_quads_def cong: bindE_weak let_weak_cong)

lemma second_run:
  assumes "mem_sys d = heap_at 4294967496 stale_quads 4294967360"
  shows "eval_mm_util (stale_trace\<lparr>blocks := [4294967312, 4294967376, 4294967312, 4294967424, 4294967312], block_sizes := [48, 32, 48, 64, 32]\<rparr>) d =
    Inl (Heap_stop Endless_search)"
  by (simp add: stale_driver_eval stale_eval assms stale_quads_def cong: bindE_weak let_weak_cong)

lemma stale_balanced: "balanced 5 [] stale_ops"
  by (simp add: stale_ops_def alloc_op_def free_op_def)

lemma zeroes_5: "zeroes 5 = [0, 0, 0, 0, 0]"
  by (simp add: zeroes_def numeral_eq_Suc)

lemma stale_trace_ok: "trace_ok stale_trace"
  by (simp add: trace_ok_def stale_trace_def stale_ops_def alloc_op_def free_op_def op_ok_def new_max_def zeroes_5)

text \<open>C10. Run with \<open>-f\<close> on the file of a certain trace of nine requests, the driver does not come to an end, although the trace is balanced and
  the same driver with \<open>-c\<close> finds the allocator correct on it: in the second run over the trace a release overwrites the header of a live
  block, and the search for a fit arrives at a block of size 0.\<close>

theorem second_run_hangs:
  fixes W :: "('a::linordered_field, 'h) world"
  assumes "\<forall>n. grants W n" "files W ''./stale.rep'' = Some (show_trace stale_trace)" "heap_address W = 2 ^ 32"
    and "bytes (mem_sys d) = (\<lambda>_. 0)" "last_node (mem_sys d) = 0"
  shows "balanced (nat (num_ids stale_trace)) [] (ops stale_trace) \<and>
    mdriver W (one_run ''0'' False ''stale.rep'') (m, d, h) = Inl (Heap_stop Endless_search) \<and>
    (\<exists>sts d'. mdriver W (one_run ''0'' True ''stale.rep'') (m, d, h) = Inr ([], sts, Some True, 0, d') \<and> errors d' = errors d)"
proof -
  let ?cfg = "\<lambda>once. \<lparr>tracedir = ''./'', tracefiles = Some [''stale.rep''], onetime_flag = once, run_libc = False, debug_mode = 0\<rparr>"
  have mode: "atoi ''0'' = 0" "debug_of 0 = DBG_NONE" "init_random_data r DBG_NONE d = d" for r
    by (simp_all add: atoi_def debug_of_def init_random_data_def isspace_def strtol_sign_def is_digit_def is_digit_of_def digit_value_def to_int_def as_int_def)
  have o: "open_trace W (?cfg once) ''stale.rep'' = Inr (''./stale.rep'', stale_trace)" for once
    using open_shown [OF stale_trace_ok assms(1), of "?cfg once" "''stale.rep''"] assms(2) by (simp add: MAXLINE_def)
  let ?d = "d\<lparr>mem_sys := mem_init (heap_address W) (mem_sys d)\<rparr>"
  have s: "mem_sys ?d = heap_at (2 ^ 32) (\<lambda>_. 0) 0" using stale_start [OF assms(4,5)] assms(3) by simp
  note e1 = first_run [OF s, of "random_numbers W"]
  have "mdriver W (one_run ''0'' False ''stale.rep'') (m, d, h) = Inl (Heap_stop Endless_search)"
    using o assms(1) e1 second_run by (simp add: mdriver_def parse_one_run mode Let_def)
  moreover have "\<exists>sts d'. mdriver W (one_run ''0'' True ''stale.rep'') (m, d, h) = Inr ([], sts, Some True, 0, d') \<and> errors d' = errors d"
    using o assms(1) e1 by (simp add: mdriver_def parse_one_run mode Let_def score_unmeasured) (simp add: new_stats_def)
  moreover have "balanced (nat (num_ids stale_trace)) [] (ops stale_trace)" using stale_balanced by (simp add: stale_trace_def)
  ultimately show ?thesis by blast
qed

section \<open>A trace that leaves the heap fit for the next run\<close>






section \<open>Examples\<close>

definition sample_world :: "(rat, unit) world" where
  "sample_world = \<lparr>files = (\<lambda>_. Some (show_trace stale_trace)), grants = (\<lambda>_. True), random_numbers = (\<lambda>i. i), heap_address = 2 ^ 32,
     timing = sample_surroundings, Mhz = 1000, libc_malloc = (\<lambda>n h. (0, h)), libc_realloc = (\<lambda>p n h. (0, h)), libc_free = (\<lambda>p h. h)\<rparr>"

definition new_driver :: driver where
  "new_driver = \<lparr>mem_sys = \<lparr>heap = 0, mem_brk = 0, mem_max_addr = 0, bytes = (\<lambda>_. 0), last_node = 0\<rparr>,
     ranges = [], errors = 0, random_data = (\<lambda>_. 0), random_count = 0\<rparr>"

theorem checked_once_witness:
  "\<exists>d'. mdriver sample_world (one_run ''2'' True ''stale.rep'') (sample_meter, new_driver, ()) =
    Inr ([], [new_stats ''./stale.rep'' stale_trace True], Some True, 0, d')"
proof -
  have "8 + demand (ops stale_trace) \<le> MAX_HEAP"
    by (simp add: stale_trace_def stale_ops_def alloc_op_def free_op_def block_size_def round_up_def header_bytes_def ALIGNMENT_def MAX_HEAP_def)
  moreover have "balanced (nat (num_ids stale_trace)) [] (ops stale_trace)" using stale_balanced by (simp add: stale_trace_def)
  ultimately show ?thesis
    using checked_once [of stale_trace sample_world "''stale.rep''" new_driver "''2''" sample_meter "()"] stale_trace_ok
    by (simp add: sample_world_def new_driver_def MAX_HEAP_def)
qed



theorem second_run_hangs_witness:
  "mdriver sample_world (one_run ''0'' False ''stale.rep'') (sample_meter, new_driver, ()) = Inl (Heap_stop Endless_search)"
  using second_run_hangs [of sample_world new_driver sample_meter "()"] by (simp add: sample_world_def new_driver_def)

end
