(* ===== verification/Py_State.thy ===== *)
theory Py_State
  imports C_Prelude
begin

text \<open>
  The Subpython interpreter (\<open>project05-kweng\<close>): its values (\<open>types.h\<close>), its global state, and its
  exceptions (\<open>exception.c\<close>).  A function of the interpreter is a state transformer that either
  returns a value or stops the process; in both cases the state, with what has been printed so far,
  is kept.  The memory pool is a map from addresses to the structs that start there.
\<close>

section \<open>Values (\<open>types.h\<close>)\<close>

type_synonym reference_t = int

definition NULL_REF :: reference_t where
  "NULL_REF = - 1"

definition TOMBSTONE_REF :: reference_t where
  "TOMBSTONE_REF = - 2"

datatype value_type_t =
  VAL_NONE | VAL_BOOL | VAL_INTEGER | VAL_STRING | VAL_LIST | VAL_DICT | VAL_REF_ARRAY | VAL_FREE

text \<open>
  What follows the common header of a value: nothing, or bytes without a meaning
  (\<open>Raw\<close>), or the members of the struct of its type.
\<close>

datatype payload =
    Raw
  | Integer_value "64 word"
  | String_value string
  | List_value int reference_t
  | Dict_value int int reference_t reference_t
  | Ref_array_value "reference_t list"

text \<open>The bytes of the struct with these members: the header of 24 bytes, and for a string its characters and the zero that ends it.\<close>

fun payload_bytes :: "payload \<Rightarrow> nat" where
  "payload_bytes Raw = 24"
| "payload_bytes (Integer_value i) = 32"
| "payload_bytes (String_value t) = 24 + (length t + 1)"
| "payload_bytes (List_value n r) = 40"
| "payload_bytes (Dict_value n o' k v) = 48"
| "payload_bytes (Ref_array_value rs) = 32 + 4 * length rs"

text \<open>
  In a free block the word of \<open>ref_count\<close> holds the address of the next free block
  (\<open>free_value_t\<close>); 0 is the null pointer.
\<close>

record value_t =
  vtype :: value_type_t
  ref_count :: nat
  value_size :: nat
  data :: payload

definition sizeof_value_t :: nat where
  "sizeof_value_t = 24"

section \<open>Exceptions\<close>

datatype exception_t =
    EXC_NONE | EXC_SYNTAX_ERROR | EXC_NAME_ERROR | EXC_TYPE_ERROR | EXC_VALUE_ERROR
  | EXC_INDEX_ERROR | EXC_KEY_ERROR | EXC_MEMORY_ERROR | EXC_INTERNAL

section \<open>The state of the process\<close>

record py_state =
  memory_size :: nat
  memory_pool :: nat
  free_list :: nat
  store :: "nat \<Rightarrow> value_t option"
  pool :: nat
  second_half :: bool
  halfway_point :: nat
  actual_size :: nat
  ref_table :: "nat list"
  max_refs :: nat
  exc_type :: exception_t
  exc_error :: "string option"
  none_ref :: reference_t
  true_ref :: reference_t
  false_ref :: reference_t
  global_vars :: "(string \<times> reference_t) list"
  max_vars :: nat
  interactive :: bool
  stdout :: string
  stderr :: string

text \<open>
  The ways in which the process stops: a failed assertion, a call of \<open>exit\<close> or \<open>abort\<close>, an
  access outside the object it should be in, a division that traps, recursion that never ends and so
  overflows the stack, and recursion or iteration beyond the bound given.
\<close>

datatype stop = Assertion | Exited int | Aborted | Bad_access | Div_trap | Stack_overflow | No_fuel

type_synonym 'a py = "py_state \<Rightarrow> (stop, 'a) res \<times> py_state"

definition ret :: "'a \<Rightarrow> 'a py" where
  "ret x = (\<lambda>s. (Inr x, s))"

definition bnd :: "'a py \<Rightarrow> ('a \<Rightarrow> 'b py) \<Rightarrow> 'b py" where
  "bnd m k = (\<lambda>s. case m s of (Inl e, s') \<Rightarrow> (Inl e, s') | (Inr x, s') \<Rightarrow> k x s')"

definition seq :: "unit py \<Rightarrow> 'b py \<Rightarrow> 'b py" where
  "seq m k = bnd m (\<lambda>_. k)"

definition halt :: "stop \<Rightarrow> 'a py" where
  "halt e = (\<lambda>s. (Inl e, s))"

definition gets :: "(py_state \<Rightarrow> 'a) \<Rightarrow> 'a py" where
  "gets f = (\<lambda>s. (Inr (f s), s))"

definition modify :: "(py_state \<Rightarrow> py_state) \<Rightarrow> unit py" where
  "modify f = (\<lambda>s. (Inr (), f s))"

definition ensure :: "bool \<Rightarrow> unit py" where
  "ensure b = (if b then ret () else halt Assertion)"

definition whenP :: "bool \<Rightarrow> unit py \<Rightarrow> unit py" where
  "whenP b m = (if b then m else ret ())"

primrec each :: "('a \<Rightarrow> unit py) \<Rightarrow> 'a list \<Rightarrow> unit py" where
  "each g [] = ret ()"
| "each g (x # xs) = seq (g x) (each g xs)"

definition print_out :: "string \<Rightarrow> unit py" where
  "print_out t = modify (\<lambda>s. s\<lparr>stdout := stdout s @ t\<rparr>)"

definition print_err :: "string \<Rightarrow> unit py" where
  "print_err t = modify (\<lambda>s. s\<lparr>stderr := stderr s @ t\<rparr>)"

text \<open>Reading and writing the struct at an address.\<close>

definition load_value :: "nat \<Rightarrow> value_t py" where
  "load_value a = (\<lambda>s. case store s a of None \<Rightarrow> (Inl Bad_access, s) | Some v \<Rightarrow> (Inr v, s))"

definition store_value :: "nat \<Rightarrow> value_t \<Rightarrow> unit py" where
  "store_value a v = modify (\<lambda>s. s\<lparr>store := (store s)(a \<mapsto> v)\<rparr>)"

text \<open>Writing the members of a struct: what does not fit in the block is an access outside of it.\<close>

definition write_data :: "nat \<Rightarrow> payload \<Rightarrow> unit py" where
  "write_data a d = bnd (load_value a) (\<lambda>v.
     if payload_bytes d \<le> value_size v then store_value a (v\<lparr>data := d\<rparr>) else halt Bad_access)"

definition update_value :: "nat \<Rightarrow> (value_t \<Rightarrow> value_t) \<Rightarrow> unit py" where
  "update_value a g = bnd (load_value a) (\<lambda>v. store_value a (g v))"

section \<open>Raising exceptions (\<open>exception.c\<close>)\<close>

definition INITIAL_FORMAT_BUFSIZE :: nat where
  "INITIAL_FORMAT_BUFSIZE = 256"

definition exception_set :: "exception_t \<Rightarrow> string \<Rightarrow> unit py" where
  "exception_set t msg = modify (\<lambda>s. s\<lparr>exc_type := t, exc_error := Some msg\<rparr>)"

text \<open>
  The message is formatted into a buffer of 256 bytes first, which holds 255 characters and the
  terminating zero, and the buffer is used for lengths up to and including 256.
\<close>

definition exception_set_format :: "exception_t \<Rightarrow> string \<Rightarrow> unit py" where
  "exception_set_format t msg = modify (\<lambda>s. s\<lparr>exc_type := t, exc_error :=
     Some (if length msg \<le> INITIAL_FORMAT_BUFSIZE then take (INITIAL_FORMAT_BUFSIZE - 1) msg else msg)\<rparr>)"

definition exception_clear :: "unit py" where
  "exception_clear = modify (\<lambda>s. s\<lparr>exc_type := EXC_NONE, exc_error := None\<rparr>)"

fun exception_type_to_str :: "exception_t \<Rightarrow> string" where
  "exception_type_to_str EXC_NONE = ''<none>''"
| "exception_type_to_str EXC_SYNTAX_ERROR = ''SyntaxError''"
| "exception_type_to_str EXC_NAME_ERROR = ''NameError''"
| "exception_type_to_str EXC_TYPE_ERROR = ''TypeError''"
| "exception_type_to_str EXC_VALUE_ERROR = ''ValueError''"
| "exception_type_to_str EXC_INDEX_ERROR = ''IndexError''"
| "exception_type_to_str EXC_KEY_ERROR = ''KeyError''"
| "exception_type_to_str EXC_MEMORY_ERROR = ''MemoryError''"
| "exception_type_to_str EXC_INTERNAL = ''<internal>''"

definition exception_print :: "(string \<Rightarrow> unit py) \<Rightarrow> unit py" where
  "exception_print stream =
     bnd (gets exc_type) (\<lambda>t. bnd (gets exc_error) (\<lambda>e.
     whenP (t \<noteq> EXC_NONE)
       (case e of
          Some m \<Rightarrow> stream (exception_type_to_str t @ '': '' @ m @ [CHR 0x0A])
        | None \<Rightarrow> stream (exception_type_to_str t))))"

definition exception_occurred :: "bool py" where
  "exception_occurred = gets (\<lambda>s. exc_type s \<noteq> EXC_NONE)"

section \<open>Running\<close>

lemma bnd_ret [simp, crun]: "bnd (ret x) k = k x"
  by (simp add: bnd_def ret_def)

lemma seq_ret [simp, crun]: "seq (ret x) k = k"
  by (simp add: seq_def)

lemma ret_apply [simp]: "ret x s = (Inr x, s)"
  by (simp add: ret_def)

lemma halt_apply [simp]: "halt e s = (Inl e, s)"
  by (simp add: halt_def)

lemma gets_apply [simp]: "gets f s = (Inr (f s), s)"
  by (simp add: gets_def)

lemma modify_apply [simp]: "modify f s = (Inr (), f s)"
  by (simp add: modify_def)

lemma bnd_halt [simp, crun]: "bnd (halt e) k = halt e"
  by (simp add: bnd_def halt_def)

lemma seq_halt [simp, crun]: "seq (halt e) k = halt e"
  by (simp add: seq_def)

lemma bnd_Inr: "m s = (Inr x, s') \<Longrightarrow> bnd m k s = k x s'"
  by (simp add: bnd_def)

lemma bnd_Inl: "m s = (Inl e, s') \<Longrightarrow> bnd m k s = (Inl e, s')"
  by (simp add: bnd_def)

lemma seq_Inr: "m s = (Inr x, s') \<Longrightarrow> seq m k s = k s'"
  by (simp add: seq_def bnd_def)

lemma seq_Inl: "m s = (Inl e, s') \<Longrightarrow> seq m k s = (Inl e, s')"
  by (simp add: seq_def bnd_def)

lemma bnd_eq_Inr [csplit]: "bnd m k s = (Inr y, t) \<longleftrightarrow> (\<exists>x u. m s = (Inr x, u) \<and> k x u = (Inr y, t))"
  by (auto simp: bnd_def split: prod.splits sum.splits)

lemma seq_eq_Inr [csplit]: "seq m k s = (Inr y, t) \<longleftrightarrow> (\<exists>u. m s = (Inr (), u) \<and> k u = (Inr y, t))"
  by (simp add: seq_def csplit)

lemma ensure_apply [simp]: "ensure b s = (if b then (Inr (), s) else (Inl Assertion, s))"
  by (simp add: ensure_def)

lemma ensure_True [simp, crun]: "ensure True = ret ()"
  by (simp add: ensure_def)

lemma whenP_simps [simp, crun]: "whenP True m = m" "whenP False m = ret ()"
  by (simp_all add: whenP_def)

lemma load_value_Some [crun]: "store s a = Some v \<Longrightarrow> load_value a s = (Inr v, s)"
  by (simp add: load_value_def)

lemma store_value_apply [simp]: "store_value a v s = (Inr (), s\<lparr>store := (store s)(a \<mapsto> v)\<rparr>)"
  by (simp add: store_value_def)

lemma update_value_Some [crun]:
  "store s a = Some v \<Longrightarrow> update_value a g s = (Inr (), s\<lparr>store := (store s)(a \<mapsto> g v)\<rparr>)"
  by (simp add: update_value_def bnd_Inr load_value_Some)

lemma write_data_Some [crun]:
  "store s a = Some v \<Longrightarrow> payload_bytes d \<le> value_size v \<Longrightarrow>
   write_data a d s = (Inr (), s\<lparr>store := (store s)(a \<mapsto> v\<lparr>data := d\<rparr>)\<rparr>)"
  by (simp add: write_data_def bnd_Inr load_value_Some)

lemma exception_occurred_apply [simp]: "exception_occurred s = (Inr (exc_type s \<noteq> EXC_NONE), s)"
  by (simp add: exception_occurred_def)

text \<open>The state in which an exception has been raised.\<close>

definition raised :: "exception_t \<Rightarrow> string \<Rightarrow> py_state \<Rightarrow> py_state" where
  "raised t msg s = s\<lparr>exc_type := t, exc_error := Some msg\<rparr>"

definition clipped :: "string \<Rightarrow> string" where
  "clipped msg = (if length msg \<le> INITIAL_FORMAT_BUFSIZE then take (INITIAL_FORMAT_BUFSIZE - 1) msg else msg)"

lemma exception_set_apply [simp]: "exception_set t msg s = (Inr (), raised t msg s)"
  by (simp add: exception_set_def raised_def)

lemma exception_set_format_apply [simp]: "exception_set_format t msg s = (Inr (), raised t (clipped msg) s)"
  by (simp add: exception_set_format_def raised_def clipped_def)

lemma raised_fields [simp]:
  "store (raised t msg s) = store s" "ref_table (raised t msg s) = ref_table s" "exc_type (raised t msg s) = t"
  "free_list (raised t msg s) = free_list s" "memory_pool (raised t msg s) = memory_pool s"
  "memory_size (raised t msg s) = memory_size s" "global_vars (raised t msg s) = global_vars s"
  "none_ref (raised t msg s) = none_ref s" "true_ref (raised t msg s) = true_ref s"
  "false_ref (raised t msg s) = false_ref s"
  by (simp_all add: raised_def)

lemmas bnd_run [crun] = bnd_Inr bnd_Inl seq_Inr seq_Inl

end
