(* ===== verification/Py_Mm.thy ===== *)
theory Py_Mm
  imports Py_State
begin

text \<open>
  The allocator of the Subpython memory pool (\<open>project05-kweng/mm.c\<close>): a singly linked list of free
  blocks, best fit with splitting, no coalescing.
\<close>

definition free_block :: "nat \<Rightarrow> nat \<Rightarrow> value_t" where
  "free_block nxt sz = \<lparr>vtype = VAL_FREE, ref_count = nxt, value_size = sz, data = Raw\<rparr>"

definition mm_init_pool :: "nat \<Rightarrow> nat \<Rightarrow> unit py" where
  "mm_init_pool sz p =
     seq (modify (\<lambda>s. s\<lparr>memory_size := sz, memory_pool := p, free_list := p\<rparr>))
         (store_value p (free_block 0 sz))"

definition is_pool_address :: "py_state \<Rightarrow> nat \<Rightarrow> bool" where
  "is_pool_address s addr \<longleftrightarrow> memory_pool s \<le> addr \<and> addr < memory_pool s + memory_size s"

text \<open>The sizes along the free list are subtracted from the size of the pool.\<close>

fun sum_free :: "nat \<Rightarrow> nat \<Rightarrow> nat py" where
  "sum_free 0 p = halt No_fuel"
| "sum_free (Suc n) p =
     (if p = 0 then ret 0
      else bnd (load_value p) (\<lambda>v. bnd (sum_free n (ref_count v)) (\<lambda>k. ret (value_size v + k))))"

definition mem_used :: "nat py" where
  "mem_used = bnd (gets memory_size) (\<lambda>sz. bnd (gets free_list) (\<lambda>p. bnd (sum_free (sz + 1) p) (\<lambda>k. ret (sz - k))))"

text \<open>
  The search keeps the link that leads to the best block so far: \<open>Some None\<close> is the head of the
  list, \<open>Some (Some a)\<close> the link in the block at \<open>a\<close>.
\<close>

type_synonym link = "nat option"

fun best_fit :: "nat \<Rightarrow> nat \<Rightarrow> link \<Rightarrow> nat \<Rightarrow> link option \<Rightarrow> nat \<Rightarrow> (link option \<times> nat) py" where
  "best_fit 0 sz lnk p best smallest = halt No_fuel"
| "best_fit (Suc n) sz lnk p best smallest =
     (if p = 0 then ret (best, smallest)
      else bnd (load_value p) (\<lambda>v.
        let free_size = value_size v in
        if sz \<le> free_size \<and> free_size < smallest
        then best_fit n sz (Some p) (ref_count v) (Some lnk) free_size
        else best_fit n sz (Some p) (ref_count v) best smallest))"

definition read_link :: "link \<Rightarrow> nat py" where
  "read_link l = (case l of None \<Rightarrow> gets free_list | Some a \<Rightarrow> bnd (load_value a) (\<lambda>v. ret (ref_count v)))"

definition write_link :: "link \<Rightarrow> nat \<Rightarrow> unit py" where
  "write_link l p = (case l of
     None \<Rightarrow> modify (\<lambda>s. s\<lparr>free_list := p\<rparr>)
   | Some a \<Rightarrow> update_value a (\<lambda>v. v\<lparr>ref_count := p\<rparr>))"

text \<open>\<open>mm_malloc\<close>; a result of 0 is the null pointer.\<close>

definition mm_malloc_pool :: "nat \<Rightarrow> nat py" where
  "mm_malloc_pool sz =
     bnd (gets memory_size) (\<lambda>total. bnd (gets free_list) (\<lambda>hd.
     bnd (best_fit (total + 1) sz None hd None (2 ^ 64 - 1)) (\<lambda>(best, smallest).
     case best of
       None \<Rightarrow>
         bnd mem_used (\<lambda>used.
         seq (exception_set_format EXC_MEMORY_ERROR
               (''cannot service request of size '' @ show_nat sz @ '' with '' @ show_nat used @ '' bytes allocated''))
             (ret 0))
     | Some l \<Rightarrow>
         bnd (read_link l) (\<lambda>p.
         bnd (load_value p) (\<lambda>v.
         let remaining_size = smallest - sz in
         if sizeof_value_t < remaining_size
         then seq (store_value p (v\<lparr>value_size := sz\<rparr>))
              (seq (store_value (p + sz) (free_block (ref_count v) remaining_size))
              (seq (write_link l (p + sz)) (ret p)))
         else seq (write_link l (ref_count v)) (ret p))))))"

declare sum_free.simps [simp del] best_fit.simps [simp del]

definition mm_free_pool :: "nat \<Rightarrow> unit py" where
  "mm_free_pool p =
     bnd (gets free_list) (\<lambda>hd.
     seq (update_value p (\<lambda>v. v\<lparr>vtype := VAL_FREE, ref_count := hd, data := Raw\<rparr>))
         (modify (\<lambda>s. s\<lparr>free_list := p\<rparr>)))"

end
