(* ===== verification/Py_Refs.thy ===== *)
theory Py_Refs
  imports Py_Mm
begin

text \<open>
  References to values of the pool (\<open>project05-kweng/refs.c\<close>): the reference table, reference counts,
  the copying collector; and the constructors of values (\<open>eval_refs.c\<close>).
\<close>

section \<open>The reference table\<close>

definition ALIGNMENT_py :: nat where
  "ALIGNMENT_py = 8"

definition INITIAL_SIZE :: nat where
  "INITIAL_SIZE = 8"

definition init_refs :: "nat \<Rightarrow> nat \<Rightarrow> unit py" where
  "init_refs msize mpool =
     seq (modify (\<lambda>s. s\<lparr>actual_size := msize div ALIGNMENT_py * ALIGNMENT_py\<rparr>))
     (seq (bnd (gets actual_size) (\<lambda>sz. mm_init_pool sz mpool))
     (modify (\<lambda>s. s\<lparr>pool := mpool, halfway_point := mpool + actual_size s div 2, second_half := False,
        ref_table := [], max_refs := 0\<rparr>)))"

fun free_slot :: "nat list \<Rightarrow> nat option" where
  "free_slot [] = None"
| "free_slot (a # as) = (if a = 0 then Some 0 else map_option Suc (free_slot as))"

definition assign_reference :: "nat \<Rightarrow> reference_t py" where
  "assign_reference v = (\<lambda>s.
     case free_slot (ref_table s) of
       Some i \<Rightarrow> (Inr (int i), s\<lparr>ref_table := (ref_table s)[i := v]\<rparr>)
     | None \<Rightarrow>
         (Inr (int (length (ref_table s))),
          s\<lparr>max_refs := (if length (ref_table s) = max_refs s
                           then if max_refs s = 0 then INITIAL_SIZE else max_refs s * 2 else max_refs s),
            ref_table := ref_table s @ [v]\<rparr>))"

text \<open>Sizes are computed in \<open>size_t\<close>. The bytes behind the header are filled with a pattern; in a block smaller than a header their number
  would wrap around, and the pattern would be written far beyond the block.\<close>

definition make_ref :: "value_type_t \<Rightarrow> nat \<Rightarrow> reference_t py" where
  "make_ref t sz =
     bnd (mm_malloc_pool ((sz + ALIGNMENT_py - 1) mod 2 ^ 64 div ALIGNMENT_py * ALIGNMENT_py)) (\<lambda>v.
     if v = 0 then ret NULL_REF
     else bnd (load_value v) (\<lambda>obj.
       seq (ensure (vtype obj = VAL_FREE))
       (if value_size obj < sizeof_value_t then halt Bad_access
        else seq (store_value v (obj\<lparr>vtype := t, ref_count := 1, data := Raw\<rparr>))
          (assign_reference v))))"

definition deref :: "reference_t \<Rightarrow> nat py" where
  "deref r = (\<lambda>s.
     if r < 0 \<or> int (length (ref_table s)) \<le> r then (Inl Assertion, s)
     else if \<not> is_pool_address s (ref_table s ! nat r) then (Inl Assertion, s)
     else (Inr (ref_table s ! nat r), s))"

fun find_ref :: "nat \<Rightarrow> nat list \<Rightarrow> nat option" where
  "find_ref v [] = None"
| "find_ref v (a # as) = (if a = v then Some 0 else map_option Suc (find_ref v as))"

definition get_ref :: "nat \<Rightarrow> reference_t py" where
  "get_ref v = (\<lambda>s. case find_ref v (ref_table s) of None \<Rightarrow> (Inl Assertion, s) | Some i \<Rightarrow> (Inr (int i), s))"

definition refs_used :: "nat py" where
  "refs_used = gets (\<lambda>s. length (filter (\<lambda>a. a \<noteq> 0) (ref_table s)))"

section \<open>Reference counts\<close>

text \<open>
  The references a value holds, in the order in which \<open>recurse\<close> visits them.  A value whose type
  does not go with its members is an access outside of it.
\<close>

definition held_refs :: "value_t \<Rightarrow> reference_t list py" where
  "held_refs v =
     (case vtype v of
        VAL_LIST \<Rightarrow> (case data v of List_value n r \<Rightarrow> ret [r] | _ \<Rightarrow> halt Bad_access)
      | VAL_DICT \<Rightarrow> (case data v of Dict_value n o' k vs \<Rightarrow> ret [k, vs] | _ \<Rightarrow> halt Bad_access)
      | VAL_REF_ARRAY \<Rightarrow> (case data v of Ref_array_value rs \<Rightarrow> ret rs | _ \<Rightarrow> halt Bad_access)
      | _ \<Rightarrow> ret [])"

definition recurse :: "nat \<Rightarrow> (reference_t \<Rightarrow> unit py) \<Rightarrow> unit py" where
  "recurse a g = bnd (load_value a) (\<lambda>v. bnd (held_refs v) (each g))"

definition incref :: "reference_t \<Rightarrow> unit py" where
  "incref r = bnd (deref r) (\<lambda>a. update_value a (\<lambda>v. v\<lparr>ref_count := ref_count v + 1\<rparr>))"

definition clear_slot :: "reference_t \<Rightarrow> unit py" where
  "clear_slot r = modify (\<lambda>s. s\<lparr>ref_table := (ref_table s)[nat r := 0]\<rparr>)"

fun decref_at :: "nat \<Rightarrow> reference_t \<Rightarrow> unit py" where
  "decref_at 0 r = halt No_fuel"
| "decref_at (Suc n) r =
     (if r = NULL_REF \<or> r = TOMBSTONE_REF then ret ()
      else bnd (deref r) (\<lambda>a.
        bnd (load_value a) (\<lambda>v.
        seq (whenP (0 < ref_count v) (store_value a (v\<lparr>ref_count := ref_count v - 1\<rparr>)))
        (bnd (load_value a) (\<lambda>v'.
         whenP (ref_count v' = 0)
           (seq (recurse a (decref_at n)) (seq (clear_slot r) (mm_free_pool a))))))))"

text \<open>
  The recursion goes from a value whose count has become 0 to the values it holds: it is at most as
  deep as there are references.
\<close>

definition decref :: "reference_t \<Rightarrow> unit py" where
  "decref r = bnd (gets (\<lambda>s. length (ref_table s) + 2)) (\<lambda>n. decref_at n r)"

section \<open>Garbage collection\<close>

fun operate_global_at :: "nat \<Rightarrow> reference_t \<Rightarrow> unit py" where
  "operate_global_at 0 r = halt No_fuel"
| "operate_global_at (Suc n) r =
     (if r = NULL_REF \<or> r = TOMBSTONE_REF then ret ()
      else bnd (gets ref_table) (\<lambda>rt.
        if r < 0 \<or> int (length rt) \<le> r then halt Bad_access
        else bnd (gets is_pool_address) (\<lambda>inside.
          let a = rt ! nat r in
          if inside a then update_value a (\<lambda>v. v\<lparr>ref_count := ref_count v + 1\<rparr>)
          else bnd (load_value a) (\<lambda>v.
            bnd (mm_malloc_pool (value_size v)) (\<lambda>a'.
            if a' = 0 then halt Bad_access
            else seq (store_value a' (v\<lparr>ref_count := 1\<rparr>))
                 (seq (modify (\<lambda>s. s\<lparr>ref_table := (ref_table s)[nat r := a']\<rparr>))
                 (recurse a' (operate_global_at n))))))))"

definition operate_global :: "reference_t \<Rightarrow> unit py" where
  "operate_global r = bnd (gets (\<lambda>s. length (ref_table s) + 2)) (\<lambda>n. operate_global_at n r)"

definition wrapper :: "string \<Rightarrow> reference_t \<Rightarrow> unit py" where
  "wrapper name r = operate_global r"

definition foreach_global :: "(string \<Rightarrow> reference_t \<Rightarrow> unit py) \<Rightarrow> nat py" where
  "foreach_global g = bnd (gets global_vars) (\<lambda>gv. seq (each (\<lambda>(n, r). g n r) gv) (ret (length gv)))"

definition collect_garbage :: "unit py" where
  "collect_garbage =
     bnd (gets interactive) (\<lambda>talk.
     seq (whenP talk (print_err (''Collecting garbage.'' @ [CHR 0x0A])))
     (bnd mem_used (\<lambda>old_use.
     seq (modify (\<lambda>s. s\<lparr>second_half := \<not> second_half s\<rparr>))
     (seq (bnd (gets id) (\<lambda>s. mm_init_pool (actual_size s div 2) (if second_half s then halfway_point s else pool s)))
     (bnd (foreach_global wrapper) (\<lambda>_.
     seq (modify (\<lambda>s. s\<lparr>ref_table := map (\<lambda>a. if is_pool_address s a then a else 0) (ref_table s)\<rparr>))
     (whenP talk (bnd mem_used (\<lambda>now.
        print_err (''Reclaimed '' @ show_nat (nat ((int old_use - int now) mod 2 ^ 64)) @ '' bytes of garbage.'' @ [CHR 0x0A])))))))))) "

section \<open>New values (\<open>eval_refs.c\<close>)\<close>

definition set_data :: "reference_t \<Rightarrow> payload \<Rightarrow> unit py" where
  "set_data r d = bnd (deref r) (\<lambda>a. write_data a d)"

definition init_ref :: "reference_t \<Rightarrow> payload \<Rightarrow> reference_t py" where
  "init_ref r d = seq (whenP (r \<noteq> NULL_REF) (set_data r d)) (ret r)"

definition make_reference_none :: "reference_t py" where
  "make_reference_none = make_ref VAL_NONE sizeof_value_t"

definition make_reference_bool :: "reference_t py" where
  "make_reference_bool = make_ref VAL_BOOL sizeof_value_t"

definition make_reference_int :: "64 word \<Rightarrow> reference_t py" where
  "make_reference_int i = bnd (make_ref VAL_INTEGER 32) (\<lambda>r. init_ref r (Integer_value i))"

definition make_reference_string_length :: "nat \<Rightarrow> reference_t py" where
  "make_reference_string_length len = make_ref VAL_STRING ((sizeof_value_t + (len + 1)) mod 2 ^ 64)"

definition make_reference_string :: "string \<Rightarrow> reference_t py" where
  "make_reference_string t = bnd (make_reference_string_length (length t)) (\<lambda>r. init_ref r (String_value t))"

definition make_reference_string_concat :: "string \<Rightarrow> string \<Rightarrow> reference_t py" where
  "make_reference_string_concat v1 v2 =
     bnd (make_reference_string_length (length v1 + length v2)) (\<lambda>r. init_ref r (String_value (v1 @ v2)))"

definition make_reference_list :: "reference_t py" where
  "make_reference_list = bnd (make_ref VAL_LIST 40) (\<lambda>r. init_ref r (List_value 0 NULL_REF))"

definition make_reference_dict :: "reference_t py" where
  "make_reference_dict = bnd (make_ref VAL_DICT 48) (\<lambda>r. init_ref r (Dict_value 0 0 NULL_REF NULL_REF))"

definition make_reference_refarray :: "nat \<Rightarrow> reference_t py" where
  "make_reference_refarray capacity =
     bnd (make_ref VAL_REF_ARRAY ((32 + 4 * capacity) mod 2 ^ 64)) (\<lambda>r. init_ref r (Ref_array_value (replicate capacity NULL_REF)))"

end
