(* ===== verification/Py_Pool.thy ===== *)
theory Py_Pool
  imports Py_Refs
begin

text \<open>
  The pool of Subpython is tiled by blocks, and the free list links exactly the free ones
  (\<open>project05-kweng/mm.c\<close>).  Allocation takes the smallest free block that is large enough and splits it
  when more than a header is left; release puts a block in front of the list.
\<close>

type_synonym blocks = "nat \<Rightarrow> value_t option"

section \<open>Tilings\<close>

fun tiled :: "blocks \<Rightarrow> nat \<Rightarrow> nat list \<Rightarrow> nat \<Rightarrow> bool" where
  "tiled st p [] q \<longleftrightarrow> p = q"
| "tiled st p (a # as) q \<longleftrightarrow> p = a \<and>
     (case st a of None \<Rightarrow> False | Some v \<Rightarrow> 24 \<le> value_size v \<and> tiled st (p + value_size v) as q)"

definition size_at :: "blocks \<Rightarrow> nat \<Rightarrow> nat" where
  "size_at st a = (case st a of None \<Rightarrow> 0 | Some v \<Rightarrow> value_size v)"

definition free_at :: "blocks \<Rightarrow> nat \<Rightarrow> bool" where
  "free_at st a \<longleftrightarrow> (case st a of None \<Rightarrow> False | Some v \<Rightarrow> vtype v = VAL_FREE)"

lemma size_at_Some [simp]: "st a = Some v \<Longrightarrow> size_at st a = value_size v"
  by (simp add: size_at_def)

lemma free_at_Some [simp]: "st a = Some v \<Longrightarrow> free_at st a = (vtype v = VAL_FREE)"
  by (simp add: free_at_def)

lemma tiled_le: "tiled st p as q \<Longrightarrow> p \<le> q"
  by (induction st p as q rule: tiled.induct) (auto split: option.splits)

lemma tiled_block:
  "tiled st p as q \<Longrightarrow> a \<in> set as \<Longrightarrow> \<exists>v. st a = Some v \<and> 24 \<le> value_size v \<and> p \<le> a \<and> a + value_size v \<le> q"
proof (induction st p as q rule: tiled.induct)
  case (2 st p b as q)
  then show ?case using tiled_le by (fastforce split: option.splits)
qed simp

lemma tiled_append:
  "tiled st p (as @ bs) q \<longleftrightarrow> (\<exists>m. tiled st p as m \<and> tiled st m bs q)"
  by (induction st p as q rule: tiled.induct) (auto split: option.splits)

lemma tiled_distinct: "tiled st p as q \<Longrightarrow> distinct as"
proof (induction st p as q rule: tiled.induct)
  case (2 st p a as q)
  then obtain v where v: "st a = Some v" "24 \<le> value_size v" "tiled st (p + value_size v) as q" "p = a"
    by (auto split: option.splits)
  with 2 have "distinct as" by simp
  moreover have "a \<notin> set as" using tiled_block [OF v(3)] v(2,4) by fastforce
  ultimately show ?case by simp
qed simp

lemma tiled_apart:
  assumes "tiled st p as q" "a \<in> set as" "b \<in> set as" "a < b"
  shows "a + size_at st a \<le> b"
proof -
  obtain xs ys where as: "as = xs @ a # ys" using assms(2) by (meson split_list)
  then obtain m where m: "tiled st p xs m" "tiled st m (a # ys) q" using assms(1) by (auto simp: tiled_append)
  then obtain v where v: "st a = Some v" "m = a" "tiled st (a + value_size v) ys q"
    by (auto split: option.splits)
  have "b \<notin> set xs" using tiled_block [OF m(1)] v(2) assms(4) by fastforce
  with as assms(3,4) have "b \<in> set ys" by auto
  with tiled_block [OF v(3)] v(1) show ?thesis by auto
qed

lemma tiled_sum: "tiled st p as q \<Longrightarrow> q = p + sum_list (map (size_at st) as)"
  by (induction st p as q rule: tiled.induct) (auto split: option.splits)

lemma tiled_cong:
  "(\<And>a. a \<in> set as \<Longrightarrow> st' a \<noteq> None \<and> size_at st' a = size_at st a) \<Longrightarrow> tiled st p as q \<Longrightarrow> tiled st' p as q"
proof (induction st p as q rule: tiled.induct)
  case (2 st p a as q)
  then obtain v where v: "st a = Some v" "24 \<le> value_size v" "tiled st (p + value_size v) as q" "p = a"
    by (auto split: option.splits)
  obtain v' where v': "st' a = Some v'" "value_size v' = value_size v" using "2.prems"(1) [of a] v(1) by auto
  have "tiled st' (p + value_size v) as q" using v "2.prems"(1) by (intro "2.IH") auto
  with v v' show ?case by simp
qed simp

lemma tiled_upd_other: "a \<notin> set as \<Longrightarrow> tiled st p as q \<Longrightarrow> tiled (st(a := w)) p as q"
  by (rule tiled_cong [of as _ st]) (use tiled_block in \<open>fastforce simp: size_at_def\<close>)+

lemma tiled_upd_same:
  "tiled st p as q \<Longrightarrow> st a = Some v \<Longrightarrow> value_size v' = value_size v \<Longrightarrow> tiled (st(a \<mapsto> v')) p as q"
  by (rule tiled_cong [of as _ st]) (use tiled_block in \<open>fastforce simp: size_at_def\<close>)+

lemma tiled_split:
  assumes "tiled st p (xs @ a # ys) q" "st a = Some v" "24 \<le> n" "24 \<le> value_size v - n"
    "value_size v1 = n" "value_size v2 = value_size v - n"
  shows "tiled (st(a \<mapsto> v1, a + n \<mapsto> v2)) p (xs @ a # (a + n) # ys) q"
    "a + n \<notin> set (xs @ a # ys)"
proof -
  obtain m where m: "tiled st p xs m" "m = a" "tiled st (a + value_size v) ys q"
    using assms(1,2) by (auto simp: tiled_append)
  have ys: "a + n \<notin> set ys" "a \<notin> set ys" using tiled_block [OF m(3)] assms(3,4) by fastforce+
  have xs: "a + n \<notin> set xs" "a \<notin> set xs" using tiled_block [OF m(1)] m(2) by fastforce+
  show "a + n \<notin> set (xs @ a # ys)" using xs ys assms(3) by auto
  have "tiled (st(a \<mapsto> v1, a + n \<mapsto> v2)) p xs a" "tiled (st(a \<mapsto> v1, a + n \<mapsto> v2)) (a + value_size v) ys q"
    using m xs ys by (auto intro!: tiled_upd_other)
  then show "tiled (st(a \<mapsto> v1, a + n \<mapsto> v2)) p (xs @ a # (a + n) # ys) q"
    using assms(3-6) by (auto simp: tiled_append)
qed

section \<open>The free list\<close>

fun chain :: "blocks \<Rightarrow> nat \<Rightarrow> nat list \<Rightarrow> bool" where
  "chain st p [] \<longleftrightarrow> p = 0"
| "chain st p (a # as) \<longleftrightarrow> p = a \<and> a \<noteq> 0 \<and>
     (case st a of None \<Rightarrow> False | Some v \<Rightarrow> vtype v = VAL_FREE \<and> chain st (ref_count v) as)"

lemma chain_upd_other: "a \<notin> set as \<Longrightarrow> chain (st(a := w)) p as \<longleftrightarrow> chain st p as"
  by (induction st p as rule: chain.induct) (auto split: option.splits)

lemma chain_free: "chain st p as \<Longrightarrow> a \<in> set as \<Longrightarrow> free_at st a"
  by (induction st p as rule: chain.induct) (auto split: option.splits)

lemma chain_cong:
  "(\<And>a. a \<in> set as \<Longrightarrow> st' a = st a) \<Longrightarrow> chain st' p as = chain st p as"
  by (induction st p as rule: chain.induct) (auto split: option.splits)

lemma chain_tail: "chain st q (xs @ p # ys) \<Longrightarrow> st p = Some v \<Longrightarrow> chain st (ref_count v) ys"
  by (induction xs arbitrary: q) (auto split: option.splits)

lemma chain_retag:
  "chain st q as \<Longrightarrow> st p = Some v \<Longrightarrow> vtype v' = vtype v \<Longrightarrow> ref_count v' = ref_count v \<Longrightarrow>
   chain (st(p \<mapsto> v')) q as"
  by (induction as arbitrary: q) (auto split: option.splits)

text \<open>The link that leads to the block behind a prefix of the list.\<close>

definition link_to :: "nat list \<Rightarrow> link" where
  "link_to xs = (if xs = [] then None else Some (last xs))"

definition relinked :: "link \<Rightarrow> nat \<Rightarrow> blocks \<Rightarrow> blocks" where
  "relinked l p st = (case l of None \<Rightarrow> st | Some a \<Rightarrow> st(a := map_option (\<lambda>v. v\<lparr>ref_count := p\<rparr>) (st a)))"

lemma chain_relink:
  assumes "chain st p (xs @ b # ys)" "distinct (xs @ b # ys)" "chain st r zs" "set xs \<inter> set zs = {}"
  shows "chain (relinked (link_to xs) r st) (if xs = [] then r else p) (xs @ zs)"
  using assms
proof (induction xs arbitrary: p)
  case (Cons a xs)
  then obtain v where v: "st a = Some v" "vtype v = VAL_FREE" "chain st (ref_count v) (xs @ b # ys)" "p = a" "a \<noteq> 0"
    by (auto split: option.splits)
  show ?case
  proof (cases "xs = []")
    case True
    have "chain (relinked (Some a) r st) r zs"
      using Cons.prems(3,4) by (auto simp: relinked_def chain_upd_other)
    with True v show ?thesis by (simp add: link_to_def) (simp add: relinked_def)
  next
    case False
    have "chain (relinked (link_to xs) r st) (ref_count v) (xs @ zs)"
      using Cons.IH [OF v(3)] Cons.prems False by auto
    moreover have "a \<noteq> last xs" using Cons.prems(2) False by auto
    then have "relinked (link_to xs) r st a = st a" using False by (simp add: relinked_def link_to_def)
    moreover have "link_to (a # xs) = link_to xs" using False by (simp add: link_to_def)
    ultimately show ?thesis using v False by simp
  qed
qed (simp add: relinked_def link_to_def)

section \<open>Pools\<close>

definition pool_ok :: "py_state \<Rightarrow> nat list \<Rightarrow> nat list \<Rightarrow> bool" where
  "pool_ok s as fs \<longleftrightarrow>
     tiled (store s) (memory_pool s) as (memory_pool s + memory_size s) \<and>
     chain (store s) (free_list s) fs \<and> distinct fs \<and> set fs = {a \<in> set as. free_at (store s) a} \<and>
     0 < memory_pool s \<and> memory_size s < 2 ^ 63"

lemma length_tiles: "tiled st p as q \<Longrightarrow> length as + p \<le> q"
proof (induction st p as q rule: tiled.induct)
  case (2 st p a as q)
  then show ?case by (fastforce split: option.splits)
qed simp

lemma pool_free_length: "pool_ok s as fs \<Longrightarrow> length fs \<le> memory_size s"
proof -
  assume h: "pool_ok s as fs"
  then have "card (set fs) \<le> card (set as)" by (auto simp: pool_ok_def intro!: card_mono)
  moreover have "distinct fs" "distinct as" using h by (auto simp: pool_ok_def dest: tiled_distinct)
  ultimately have "length fs \<le> length as" by (metis distinct_card)
  with h show ?thesis by (auto simp: pool_ok_def dest!: length_tiles)
qed

section \<open>The search\<close>

text \<open>The first of the smallest sizes that are large enough, as a position in the list of sizes.\<close>

fun best_index :: "nat \<Rightarrow> nat list \<Rightarrow> nat option" where
  "best_index sz [] = None"
| "best_index sz (k # ks) =
     (case best_index sz ks of
        None \<Rightarrow> if sz \<le> k then Some 0 else None
      | Some i \<Rightarrow> if sz \<le> k \<and> k \<le> ks ! i then Some 0 else Some (Suc i))"

lemma best_index_None: "best_index sz ks = None \<longleftrightarrow> (\<forall>k \<in> set ks. k < sz)"
  by (induction sz ks rule: best_index.induct) (auto split: option.splits)

lemma best_index_Some:
  "best_index sz ks = Some i \<Longrightarrow> i < length ks \<and> sz \<le> ks ! i \<and> (\<forall>k \<in> set ks. sz \<le> k \<longrightarrow> ks ! i \<le> k)"
proof (induction sz ks arbitrary: i rule: best_index.induct)
  case (2 sz k ks)
  show ?case
  proof (cases "best_index sz ks")
    case None
    with best_index_None [of sz ks] 2 show ?thesis by (auto split: if_splits)
  next
    case (Some j)
    with "2.IH" [of j] "2.prems" show ?thesis by (auto split: if_splits)
  qed
qed simp

lemma best_fit_run:
  assumes "chain (store s) p fs" "length fs < n" "\<forall>a \<in> set fs. size_at (store s) a < 2 ^ 64 - 1"
    "lnk = link_to xs" "smallest \<le> 2 ^ 64 - 1"
  shows "best_fit n sz lnk p best smallest s =
    (Inr (case best_index sz (map (size_at (store s)) fs) of
        None \<Rightarrow> (best, smallest)
      | Some i \<Rightarrow> if size_at (store s) (fs ! i) < smallest
          then (Some (link_to (xs @ take i fs)), size_at (store s) (fs ! i)) else (best, smallest)), s)"
  using assms
proof (induction fs arbitrary: n p lnk xs best smallest)
  case Nil
  then show ?case by (cases n) (auto simp: best_fit.simps)
next
  case (Cons a fs)
  obtain v where v: "store s a = Some v" "chain (store s) (ref_count v) fs" "p = a" "a \<noteq> 0"
    using Cons.prems(1) by (auto split: option.splits)
  obtain m where m: "n = Suc m" "length fs < m" using Cons.prems(2) by (cases n) auto
  have lt: "Some a = link_to (xs @ [a])" by (simp add: link_to_def)
  have k: "value_size v < 2 ^ 64 - 1" using Cons.prems(3) v(1) by auto
  have rest: "\<forall>b \<in> set fs. size_at (store s) b < 2 ^ 64 - 1" using Cons.prems(3) by simp
  note IH = Cons.IH [OF v(2) m(2) rest lt]
  have take: "take (Suc i) (a # fs) = a # take i fs" for i by simp
  note simps = best_fit.simps v m bnd_Inr load_value_Some Let_def Cons.prems(4)
  show ?case
  proof (cases "best_index sz (map (size_at (store s)) fs)")
    case None
    then show ?thesis
      using k Cons.prems(5) by (simp add: simps IH)
  next
    case (Some i)
    with best_index_Some [OF Some] show ?thesis
      using k Cons.prems(5) by (auto simp: simps IH link_to_def)
  qed
qed

lemma sum_free_run:
  "chain (store s) p fs \<Longrightarrow> length fs < n \<Longrightarrow> sum_free n p s = (Inr (sum_list (map (size_at (store s)) fs)), s)"
proof (induction fs arbitrary: n p)
  case Nil
  then show ?case by (cases n) (auto simp: sum_free.simps)
next
  case (Cons a fs)
  then obtain m where "n = Suc m" "length fs < m" by (cases n) auto
  with Cons show ?case by (auto simp: sum_free.simps bnd_Inr load_value_Some split: option.splits)
qed

lemma mem_used_run:
  assumes "pool_ok s as fs"
  shows "mem_used s = (Inr (memory_size s - sum_list (map (size_at (store s)) fs)), s)"
proof -
  have "sum_free (memory_size s + 1) (free_list s) s = (Inr (sum_list (map (size_at (store s)) fs)), s)"
    using assms pool_free_length [OF assms] by (intro sum_free_run) (auto simp: pool_ok_def)
  then show ?thesis by (simp add: mem_used_def bnd_Inr)
qed

lemma pool_free_size:
  assumes "pool_ok s as fs" "a \<in> set fs"
  shows "size_at (store s) a < 2 ^ 64 - 1"
proof -
  have "a \<in> set as" using assms by (auto simp: pool_ok_def)
  moreover have "memory_size s < 2 ^ 63" using assms(1) by (simp add: pool_ok_def)
  ultimately show ?thesis
    using assms(1) tiled_block [of "store s" "memory_pool s" as "memory_pool s + memory_size s" a]
    by (auto simp: pool_ok_def)
qed

lemma pool_best_fit:
  assumes "pool_ok s as fs"
  shows "best_fit (memory_size s + 1) sz None (free_list s) None (2 ^ 64 - 1) s =
    (Inr (case best_index sz (map (size_at (store s)) fs) of
        None \<Rightarrow> (None, 2 ^ 64 - 1)
      | Some i \<Rightarrow> (Some (link_to (take i fs)), size_at (store s) (fs ! i))), s)"
proof -
  have "chain (store s) (free_list s) fs" using assms by (simp add: pool_ok_def)
  moreover have "length fs < memory_size s + 1" using pool_free_length [OF assms] by simp
  moreover have "\<forall>a \<in> set fs. size_at (store s) a < 2 ^ 64 - 1" using pool_free_size [OF assms] by simp
  moreover have "size_at (store s) (fs ! i) < 2 ^ 64 - 1"
    if "best_index sz (map (size_at (store s)) fs) = Some i" for i
    using best_index_Some [OF that] pool_free_size [OF assms, of "fs ! i"] by simp
  ultimately show ?thesis
    by (subst best_fit_run [where xs = "[]"]) (auto simp: link_to_def split: option.splits)
qed

section \<open>Allocation\<close>

definition memory_message :: "nat \<Rightarrow> nat \<Rightarrow> string" where
  "memory_message sz used =
     ''cannot service request of size '' @ show_nat sz @ '' with '' @ show_nat used @ '' bytes allocated''"

lemmas mm_malloc_unfold = mm_malloc_pool_def [folded memory_message_def]

lemma malloc_none:
  assumes "pool_ok s as fs" "\<forall>a \<in> set fs. size_at (store s) a < sz"
  shows "mm_malloc_pool sz s =
    (Inr 0, raised EXC_MEMORY_ERROR (clipped (memory_message sz
      (memory_size s - sum_list (map (size_at (store s)) fs)))) s)"
proof -
  have "best_index sz (map (size_at (store s)) fs) = None" using assms(2) by (simp add: best_index_None)
  then show ?thesis
    using pool_best_fit [OF assms(1), of sz] mem_used_run [OF assms(1)]
    by (simp add: mm_malloc_unfold bnd_Inr seq_Inr)
qed

lemma read_link_run:
  assumes "chain (store s) p (xs @ b # ys)" "p = free_list s"
  shows "read_link (link_to xs) s = (Inr b, s)"
proof (cases xs rule: rev_cases)
  case Nil
  then show ?thesis using assms by (auto simp: read_link_def link_to_def)
next
  case (snoc zs a)
  have "\<exists>v. store s a = Some v \<and> ref_count v = b"
    using assms(1) unfolding snoc by (induction zs arbitrary: p) (auto split: option.splits)
  then show ?thesis using snoc by (auto simp: read_link_def link_to_def bnd_Inr load_value_Some)
qed

lemma write_link_run:
  assumes "\<And>a. a \<in> set xs \<Longrightarrow> store s a \<noteq> None"
  shows "write_link (link_to xs) q s =
    (Inr (), s\<lparr>store := relinked (link_to xs) q (store s), free_list := (if xs = [] then q else free_list s)\<rparr>)"
proof (cases xs rule: rev_cases)
  case Nil
  then show ?thesis by (simp add: write_link_def link_to_def relinked_def)
next
  case (snoc zs a)
  then obtain v where "store s a = Some v" using assms by auto
  with snoc show ?thesis by (simp add: write_link_def link_to_def relinked_def update_value_Some)
qed

text \<open>What is stored, and where the list starts, after the block behind \<open>xs\<close> has been taken.\<close>

definition taken :: "nat \<Rightarrow> nat list \<Rightarrow> nat \<Rightarrow> py_state \<Rightarrow> py_state" where
  "taken sz xs p s =
     (let v = the (store s p) in
      if sizeof_value_t < value_size v - sz
      then s\<lparr>store := relinked (link_to xs) (p + sz)
               ((store s)(p \<mapsto> v\<lparr>value_size := sz\<rparr>, p + sz \<mapsto> free_block (ref_count v) (value_size v - sz))),
             free_list := (if xs = [] then p + sz else free_list s)\<rparr>
      else s\<lparr>store := relinked (link_to xs) (ref_count v) (store s),
             free_list := (if xs = [] then ref_count v else free_list s)\<rparr>)"

lemma malloc_some:
  assumes "pool_ok s as fs" "best_index sz (map (size_at (store s)) fs) = Some i"
  shows "mm_malloc_pool sz s = (Inr (fs ! i), taken sz (take i fs) (fs ! i) s)"
proof -
  have i: "i < length fs" using best_index_Some [OF assms(2)] by simp
  define p where "p = fs ! i"
  have ch: "chain (store s) (free_list s) (take i fs @ p # drop (Suc i) fs)"
    using assms(1) i by (simp add: pool_ok_def p_def Cons_nth_drop_Suc)
  have st: "store s a \<noteq> None" if "a \<in> set fs" for a
    using assms(1) that by (auto simp: pool_ok_def free_at_def split: option.splits)
  then obtain v where v: "store s p = Some v" using i unfolding p_def by (metis nth_mem not_None_eq)
  have st': "store s a \<noteq> None" if "a \<in> set (take i fs)" for a using st in_set_takeD [OF that] by auto
  note rl = read_link_run [OF ch refl]
  show ?thesis
    using v st' rl pool_best_fit [OF assms(1), of sz] assms(2)
    by (simp add: mm_malloc_unfold bnd_Inr seq_Inr load_value_Some p_def Let_def taken_def write_link_run)
qed

section \<open>What the users of the pool rely on\<close>

text \<open>The addresses of the blocks in use.\<close>

definition pool_inv :: "py_state \<Rightarrow> nat set \<Rightarrow> bool" where
  "pool_inv s L \<longleftrightarrow> (\<exists>as fs. pool_ok s as fs \<and> L = {a \<in> set as. \<not> free_at (store s) a})"

lemma pool_inv_finite: "pool_inv s L \<Longrightarrow> finite L"
  by (auto simp: pool_inv_def)

lemma pool_inv_live:
  assumes "pool_inv s L" "a \<in> L"
  obtains v where "store s a = Some v" "vtype v \<noteq> VAL_FREE" "24 \<le> value_size v" "is_pool_address s a" "a \<noteq> 0"
proof -
  obtain as fs where "pool_ok s as fs" "a \<in> set as" "\<not> free_at (store s) a"
    using assms by (auto simp: pool_inv_def)
  then obtain v where "store s a = Some v" "24 \<le> value_size v" "memory_pool s \<le> a"
    "a + value_size v \<le> memory_pool s + memory_size s" "\<not> free_at (store s) a" "0 < memory_pool s"
    using tiled_block [of "store s" "memory_pool s" as "memory_pool s + memory_size s" a] by (auto simp: pool_ok_def)
  then show thesis by (intro that [of v]) (auto simp: is_pool_address_def)
qed

lemma pool_inv_cong:
  "store s' = store s \<Longrightarrow> free_list s' = free_list s \<Longrightarrow> memory_pool s' = memory_pool s \<Longrightarrow>
   memory_size s' = memory_size s \<Longrightarrow> pool_inv s' L = pool_inv s L"
  by (simp add: pool_inv_def pool_ok_def)

lemma pool_inv_update:
  assumes "pool_inv s L" "a \<in> L" "store s a = Some v" "value_size v' = value_size v" "vtype v' \<noteq> VAL_FREE"
  shows "pool_inv (s\<lparr>store := (store s)(a \<mapsto> v')\<rparr>) L"
proof -
  obtain as fs where ok: "pool_ok s as fs" and L: "L = {a \<in> set as. \<not> free_at (store s) a}"
    using assms(1) by (auto simp: pool_inv_def)
  have fa: "free_at ((store s)(a \<mapsto> v')) b = free_at (store s) b" for b
    using assms(2,3,5) L by (auto simp: free_at_def)
  have "a \<notin> set fs" using ok assms(2) L by (auto simp: pool_ok_def)
  then have "pool_ok (s\<lparr>store := (store s)(a \<mapsto> v')\<rparr>) as fs"
    using ok assms(3,4) by (auto simp: pool_ok_def fa chain_upd_other intro: tiled_upd_same)
  then show ?thesis using L fa unfolding pool_inv_def by force
qed

definition freed :: "nat \<Rightarrow> py_state \<Rightarrow> py_state" where
  "freed a s = s\<lparr>store := (store s)(a := map_option (\<lambda>v. v\<lparr>vtype := VAL_FREE, ref_count := free_list s, data := Raw\<rparr>) (store s a)),
     free_list := a\<rparr>"

lemma pool_inv_free:
  assumes "pool_inv s L" "a \<in> L"
  shows "mm_free_pool a s = (Inr (), freed a s)" "pool_inv (freed a s) (L - {a})"
proof -
  let ?s = "freed a s"
  obtain v where v: "store s a = Some v" "a \<noteq> 0" using pool_inv_live [OF assms] by metis
  show "mm_free_pool a s = (Inr (), ?s)"
    using v by (simp add: mm_free_pool_def seq_Inr bnd_Inr update_value_Some freed_def)
  obtain as fs where ok: "pool_ok s as fs" and L: "L = {a \<in> set as. \<not> free_at (store s) a}"
    using assms(1) by (auto simp: pool_inv_def)
  have fa: "free_at (store ?s) b = (b = a \<or> free_at (store s) b)" for b
    using v(1) by (auto simp: free_at_def freed_def)
  have "a \<notin> set fs" using ok assms(2) L by (auto simp: pool_ok_def)
  moreover have "tiled (store ?s) (memory_pool s) as (memory_pool s + memory_size s)"
    using ok v(1) by (auto simp: pool_ok_def freed_def intro: tiled_upd_same)
  ultimately have "pool_ok ?s as (a # fs)"
    using ok assms(2) L v by (auto simp: pool_ok_def fa) (auto simp: freed_def chain_upd_other)
  then show "pool_inv ?s (L - {a})" using L fa unfolding pool_inv_def by (intro exI [of _ as] exI [of _ "a # fs"]) auto
qed

lemma relinked_other: "a \<notin> set xs \<Longrightarrow> relinked (link_to xs) q st a = st a"
  by (auto simp: relinked_def link_to_def)

lemma relinked_shape:
  "size_at (relinked l q st) a = size_at st a" "free_at (relinked l q st) a = free_at st a"
  "relinked l q st a = None \<longleftrightarrow> st a = None"
  by (auto simp: relinked_def size_at_def free_at_def split: option.splits)

lemma tiled_relinked: "tiled st p as q \<Longrightarrow> tiled (relinked l r st) p as q"
proof (rule tiled_cong [of as _ st])
  show "relinked l r st a \<noteq> None \<and> size_at (relinked l r st) a = size_at st a" if "tiled st p as q" "a \<in> set as" for a
    using tiled_block [OF that] by (auto simp: relinked_shape)
qed

text \<open>The pool after a block has been taken and its header been written.\<close>

lemma pool_ok_header:
  assumes ok: "pool_ok s as fs"
    and st: "tiled st (memory_pool s) as' (memory_pool s + memory_size s)" "p \<in> set as'"
    "chain st h fs'" "distinct fs'" "set fs' = {a \<in> set as'. free_at st a} - {p}"
    "st p = Some v1" "value_size v' = value_size v1" "vtype v' \<noteq> VAL_FREE"
  shows "pool_inv (s\<lparr>free_list := h, store := st(p \<mapsto> v')\<rparr>) (insert p {a \<in> set as'. \<not> free_at st a})"
proof -
  have fa: "free_at (st(p \<mapsto> v')) a = (a \<noteq> p \<and> free_at st a)" for a
    using st(8) by (auto simp: free_at_def)
  have "pool_ok (s\<lparr>free_list := h, store := st(p \<mapsto> v')\<rparr>) as' fs'"
    unfolding pool_ok_def
  proof (intro conjI)
    show "tiled (store (s\<lparr>free_list := h, store := st(p \<mapsto> v')\<rparr>)) (memory_pool (s\<lparr>free_list := h, store := st(p \<mapsto> v')\<rparr>)) as'
      (memory_pool (s\<lparr>free_list := h, store := st(p \<mapsto> v')\<rparr>) + memory_size (s\<lparr>free_list := h, store := st(p \<mapsto> v')\<rparr>))"
      using tiled_upd_same [OF st(1,6,7)] by simp
    have "p \<notin> set fs'" using st(5) by blast
    then show "chain (store (s\<lparr>free_list := h, store := st(p \<mapsto> v')\<rparr>)) (free_list (s\<lparr>free_list := h, store := st(p \<mapsto> v')\<rparr>)) fs'"
      using st(3) by (simp add: chain_upd_other)
    show "set fs' = {a \<in> set as'. free_at (store (s\<lparr>free_list := h, store := st(p \<mapsto> v')\<rparr>)) a}"
      using st(5) by (auto simp: fa)
  qed (use ok st(4) in \<open>simp_all add: pool_ok_def\<close>)
  moreover have "insert p {a \<in> set as'. \<not> free_at st a} = {a \<in> set as'. \<not> free_at (st(p \<mapsto> v')) a}"
    using st(2) by (auto simp: fa)
  ultimately show ?thesis unfolding pool_inv_def by (intro exI conjI) simp_all
qed

text \<open>A block that is taken as a whole, and one of which the rest becomes a free block.\<close>

lemma taken_whole:
  assumes ok: "pool_ok s as (xs @ p # ys)" and sz: "24 \<le> sz" "sz \<le> size_at (store s) p"
    and v: "store s p = Some v" "vtype v = VAL_FREE" and False: "\<not> sizeof_value_t < value_size v - sz"
  obtains v1 where "store (taken sz xs p s) p = Some v1" "vtype v1 = VAL_FREE" "sz \<le> value_size v1"
    "\<And>v'. value_size v' = value_size v1 \<Longrightarrow> vtype v' \<noteq> VAL_FREE \<Longrightarrow>
       pool_inv ((taken sz xs p s)\<lparr>store := (store (taken sz xs p s))(p \<mapsto> v')\<rparr>)
         (insert p {a \<in> set as. \<not> free_at (store s) a})"
    "\<And>a. a \<in> set as \<Longrightarrow> \<not> free_at (store s) a \<Longrightarrow> store (taken sz xs p s) a = store s a"
proof -
  let ?fs = "xs @ p # ys"
  have fs: "chain (store s) (free_list s) ?fs" "distinct ?fs" "set ?fs = {a \<in> set as. free_at (store s) a}"
    "tiled (store s) (memory_pool s) as (memory_pool s + memory_size s)"
    using ok by (simp_all add: pool_ok_def)
  have p: "p \<in> set as" "free_at (store s) p" using fs(3) by auto
  have cys: "chain (store s) (ref_count v) ys"
    using chain_tail [OF fs(1) v(1)] .
  let ?st = "relinked (link_to xs) (ref_count v) (store s)"
  define h where "h = (if xs = [] then ref_count v else free_list s)"
  have t: "taken sz xs p s = s\<lparr>free_list := h, store := ?st\<rparr>"
    using False v by (simp add: taken_def h_def)
  have "chain ?st h (xs @ ys)"
    unfolding h_def using fs(1,2) cys by (intro chain_relink) auto
  moreover have "?st p = Some v" using fs(2) v by (subst relinked_other) auto
  ultimately have "pool_inv (s\<lparr>free_list := h, store := ?st(p \<mapsto> v')\<rparr>)
      (insert p {a \<in> set as. \<not> free_at ?st a})" if "value_size v' = value_size v" "vtype v' \<noteq> VAL_FREE" for v'
    using ok fs p that by (intro pool_ok_header [OF ok]) (auto simp: tiled_relinked relinked_shape)
  moreover have "?st a = store s a" if "\<not> free_at (store s) a" for a
    using that fs(3) by (intro relinked_other) auto
  ultimately show thesis
    using t v sz \<open>?st p = Some v\<close> by (intro that [of v]) (simp_all add: relinked_shape)
qed

lemma taken_split:
  assumes ok: "pool_ok s as (xs @ p # ys)" and sz: "24 \<le> sz" "sz \<le> size_at (store s) p"
    and v: "store s p = Some v" "vtype v = VAL_FREE" and True: "sizeof_value_t < value_size v - sz"
  obtains v1 where "store (taken sz xs p s) p = Some v1" "vtype v1 = VAL_FREE" "sz \<le> value_size v1"
    "\<And>v'. value_size v' = value_size v1 \<Longrightarrow> vtype v' \<noteq> VAL_FREE \<Longrightarrow>
       pool_inv ((taken sz xs p s)\<lparr>store := (store (taken sz xs p s))(p \<mapsto> v')\<rparr>)
         (insert p {a \<in> set as. \<not> free_at (store s) a})"
    "\<And>a. a \<in> set as \<Longrightarrow> \<not> free_at (store s) a \<Longrightarrow> store (taken sz xs p s) a = store s a"
proof -
  let ?fs = "xs @ p # ys"
  have fs: "chain (store s) (free_list s) ?fs" "distinct ?fs" "set ?fs = {a \<in> set as. free_at (store s) a}"
    "tiled (store s) (memory_pool s) as (memory_pool s + memory_size s)"
    using ok by (simp_all add: pool_ok_def)
  have p: "p \<in> set as" "free_at (store s) p" using fs(3) by auto
  have cys: "chain (store s) (ref_count v) ys"
    using chain_tail [OF fs(1) v(1)] .
  let ?v1 = "v\<lparr>value_size := sz\<rparr>" and ?q = "p + sz" and ?fb = "free_block (ref_count v) (value_size v - sz)"
  let ?st2 = "(store s)(p \<mapsto> ?v1, ?q \<mapsto> ?fb)"
  let ?st = "relinked (link_to xs) ?q ?st2"
  define h where "h = (if xs = [] then ?q else free_list s)"
  have t: "taken sz xs p s = s\<lparr>free_list := h, store := ?st\<rparr>"
    using True v by (simp add: taken_def h_def)
  obtain as1 as2 where as: "as = as1 @ p # as2" using p(1) by (meson split_list)
  note split = tiled_split [OF fs(4) [unfolded as] v(1) sz(1), of ?v1 ?fb]
  have q: "?q \<notin> set as" "tiled ?st2 (memory_pool s) (as1 @ p # ?q # as2) (memory_pool s + memory_size s)"
    using split True as by (auto simp: free_block_def sizeof_value_t_def)
  have qf: "?q \<notin> set ?fs" "?q \<noteq> 0" using q(1) fs(3) sz(1) by auto
  have "chain ?st2 (free_list s) ?fs"
  proof -
    have "chain ((store s)(p \<mapsto> ?v1)) (free_list s) ?fs"
      by (rule chain_retag [OF fs(1) v(1)]) simp_all
    then show ?thesis using qf by (simp add: chain_upd_other)
  qed
  moreover have "chain ?st2 ?q (?q # ys)"
    using cys qf fs(2) by (simp add: chain_upd_other free_block_def)
  ultimately have ch: "chain ?st h (xs @ ?q # ys)"
    unfolding h_def using fs(2) qf by (intro chain_relink) auto
  have stp: "?st p = Some ?v1" using fs(2) sz(1) by (subst relinked_other) auto
  have fa: "free_at ?st a = (a = ?q \<or> free_at (store s) a)" for a
    unfolding relinked_shape using v by (auto simp: free_at_def free_block_def)
  have live: "{a \<in> set (as1 @ p # ?q # as2). \<not> free_at ?st a} = {a \<in> set as. \<not> free_at (store s) a}"
    using q(1) by (auto simp: fa as)
  have "pool_inv (s\<lparr>free_list := h, store := ?st(p \<mapsto> v')\<rparr>)
      (insert p {a \<in> set as. \<not> free_at (store s) a})" if "value_size v' = sz" "vtype v' \<noteq> VAL_FREE" for v'
    unfolding live [symmetric]
  proof (rule pool_ok_header [OF ok tiled_relinked [OF q(2)] _ ch _ _ stp])
    show "distinct (xs @ ?q # ys)" using fs(2) qf(1) by simp
    have "p \<noteq> ?q" "p \<notin> set xs" "p \<notin> set ys" using fs(2) sz(1) by simp_all
    then have "set (xs @ ?q # ys) = insert ?q (set ?fs) - {p}" by auto
    also have "\<dots> = insert ?q {a \<in> set as. free_at (store s) a} - {p}" by (simp only: fs(3))
    also have "\<dots> = {a \<in> set (as1 @ p # ?q # as2). free_at ?st a} - {p}" unfolding fa as by auto
    finally show "set (xs @ ?q # ys) = {a \<in> set (as1 @ p # ?q # as2). free_at ?st a} - {p}" .
  qed (use that in simp_all)
  moreover have "?st a = store s a" if "a \<in> set as" "\<not> free_at (store s) a" for a
  proof -
    have "a \<noteq> p" "a \<noteq> ?q" "a \<notin> set xs" using that p(2) q(1) fs(3) by auto
    then show ?thesis by (simp add: relinked_other)
  qed
  ultimately show thesis
    using t v sz stp by (intro that [of ?v1]) simp_all
qed

lemma taken_inv:
  assumes ok: "pool_ok s as (xs @ p # ys)" and sz: "24 \<le> sz" "sz \<le> size_at (store s) p"
  obtains v1 where "store (taken sz xs p s) p = Some v1" "vtype v1 = VAL_FREE" "sz \<le> value_size v1"
    "\<And>v'. value_size v' = value_size v1 \<Longrightarrow> vtype v' \<noteq> VAL_FREE \<Longrightarrow>
       pool_inv ((taken sz xs p s)\<lparr>store := (store (taken sz xs p s))(p \<mapsto> v')\<rparr>)
         (insert p {a \<in> set as. \<not> free_at (store s) a})"
    "\<And>a. a \<in> set as \<Longrightarrow> \<not> free_at (store s) a \<Longrightarrow> store (taken sz xs p s) a = store s a"
proof -
  have "free_at (store s) p" using ok by (auto simp: pool_ok_def)
  then obtain v where v: "store s p = Some v" "vtype v = VAL_FREE" by (auto simp: free_at_def split: option.splits)
  show thesis
  proof (cases "sizeof_value_t < value_size v - sz")
    case True
    show thesis by (rule taken_split [OF ok sz v True]) (rule that)
  next
    case False
    show thesis by (rule taken_whole [OF ok sz v False]) (rule that)
  qed
qed

lemma pool_inv_cases:
  assumes "pool_inv s L" "24 \<le> sz"
  obtains (full) m where "mm_malloc_pool sz s = (Inr 0, raised EXC_MEMORY_ERROR m s)"
  | (fits) p s1 v1 where "mm_malloc_pool sz s = (Inr p, s1)" "p \<notin> L" "p \<noteq> 0" "is_pool_address s p"
      "store s1 p = Some v1" "vtype v1 = VAL_FREE" "sz \<le> value_size v1"
      "s1 = s\<lparr>store := store s1, free_list := free_list s1\<rparr>"
      "\<And>v'. value_size v' = value_size v1 \<Longrightarrow> vtype v' \<noteq> VAL_FREE \<Longrightarrow>
         pool_inv (s1\<lparr>store := (store s1)(p \<mapsto> v')\<rparr>) (insert p L)"
      "\<And>a. a \<in> L \<Longrightarrow> store s1 a = store s a"
proof -
  obtain as fs where ok: "pool_ok s as fs" and L: "L = {a \<in> set as. \<not> free_at (store s) a}"
    using assms(1) by (auto simp: pool_inv_def)
  show thesis
  proof (cases "best_index sz (map (size_at (store s)) fs)")
    case None
    then have "\<forall>a \<in> set fs. size_at (store s) a < sz" by (simp add: best_index_None)
    from malloc_none [OF ok this] show thesis by (rule full)
  next
    case (Some i)
    have i: "i < length fs" "sz \<le> size_at (store s) (fs ! i)" using best_index_Some [OF Some] by auto
    define p where "p = fs ! i"
    define s1 where "s1 = taken sz (take i fs) p s"
    have fs: "fs = take i fs @ p # drop (Suc i) fs" using i(1) by (simp add: p_def id_take_nth_drop)
    have "p \<in> set fs" using i(1) by (simp add: p_def)
    moreover have "set fs = {a \<in> set as. free_at (store s) a}" using ok by (simp add: pool_ok_def)
    ultimately have p: "p \<in> set as" "free_at (store s) p" by simp_all
    have a: "p \<noteq> 0" "is_pool_address s p"
      using ok tiled_block [of "store s" "memory_pool s" as "memory_pool s + memory_size s" p] p(1)
      by (auto simp: pool_ok_def is_pool_address_def)
    have run: "mm_malloc_pool sz s = (Inr p, s1)" using malloc_some [OF ok Some] by (simp add: p_def s1_def)
    have sz: "sz \<le> size_at (store s) p" using i(2) by (simp add: p_def)
    have ok': "pool_ok s as (take i fs @ p # drop (Suc i) fs)" using ok fs by metis
    show thesis
    proof (rule taken_inv [OF ok' assms(2) sz, folded s1_def L])
      fix v1
      assume v1: "store s1 p = Some v1" "vtype v1 = VAL_FREE" "sz \<le> value_size v1"
        and inv: "\<And>v'. value_size v' = value_size v1 \<Longrightarrow> vtype v' \<noteq> VAL_FREE \<Longrightarrow>
           pool_inv (s1\<lparr>store := (store s1)(p \<mapsto> v')\<rparr>) (insert p L)"
        and keep: "\<And>a. a \<in> set as \<Longrightarrow> \<not> free_at (store s) a \<Longrightarrow> store s1 a = store s a"
      have "s1 = s\<lparr>store := store s1, free_list := free_list s1\<rparr>"
        by (simp add: s1_def taken_def Let_def)
      moreover have "p \<notin> L" using p L by simp
      ultimately show thesis using fits [OF run _ a v1 _ inv] keep L by simp
    qed
  qed
qed

end
