(* ===== verification/Py_Types.thy ===== *)
theory Py_Types
  imports Py_Refs
begin

text \<open>
  The operations on values of Subpython: lists (\<open>eval_list.c\<close>), singletons, integers and strings (\<open>eval_types.c\<close>).
  Functions that the C code calls through each other take the recursive call as an argument; the
  knot is tied with a bound on the depth.  \<open>ref_eq\<close> and \<open>compare\<close> descend through pairs of
  references: a descent longer than the number of pairs has come to a pair again: it never ends, and the
  stack overflows.
\<close>

section \<open>Members\<close>

definition type_at :: "nat \<Rightarrow> value_type_t py" where
  "type_at a = bnd (load_value a) (\<lambda>v. ret (vtype v))"

definition coerce :: "value_type_t \<Rightarrow> nat \<Rightarrow> nat py" where
  "coerce t a = bnd (type_at a) (\<lambda>t'. seq (ensure (t' = t)) (ret a))"

definition integer_value :: "nat \<Rightarrow> 64 word py" where
  "integer_value a = bnd (load_value a) (\<lambda>v. case data v of Integer_value i \<Rightarrow> ret i | _ \<Rightarrow> halt Bad_access)"

definition string_value :: "nat \<Rightarrow> string py" where
  "string_value a = bnd (load_value a) (\<lambda>v. case data v of String_value t \<Rightarrow> ret t | _ \<Rightarrow> halt Bad_access)"

definition list_fields :: "nat \<Rightarrow> (int \<times> reference_t) py" where
  "list_fields a = bnd (load_value a) (\<lambda>v. case data v of List_value n r \<Rightarrow> ret (n, r) | _ \<Rightarrow> halt Bad_access)"

definition dict_fields :: "nat \<Rightarrow> (int \<times> int \<times> reference_t \<times> reference_t) py" where
  "dict_fields a = bnd (load_value a) (\<lambda>v. case data v of Dict_value n o' k r \<Rightarrow> ret (n, o', k, r) | _ \<Rightarrow> halt Bad_access)"

definition array_values :: "nat \<Rightarrow> reference_t list py" where
  "array_values a = bnd (load_value a) (\<lambda>v. case data v of Ref_array_value rs \<Rightarrow> ret rs | _ \<Rightarrow> halt Bad_access)"

text \<open>\<open>array->values[i]\<close>; an index outside the array is an access outside the object.\<close>

definition array_get :: "nat \<Rightarrow> int \<Rightarrow> reference_t py" where
  "array_get a i = bnd (array_values a) (\<lambda>rs.
     if 0 \<le> i \<and> i < int (length rs) then ret (rs ! nat i) else halt Bad_access)"

definition array_set :: "nat \<Rightarrow> int \<Rightarrow> reference_t \<Rightarrow> unit py" where
  "array_set a i r = bnd (array_values a) (\<lambda>rs.
     if 0 \<le> i \<and> i < int (length rs) then update_value a (\<lambda>v. v\<lparr>data := Ref_array_value (rs[nat i := r])\<rparr>)
     else halt Bad_access)"

definition set_data_at :: "nat \<Rightarrow> payload \<Rightarrow> unit py" where
  "set_data_at a d = write_data a d"

section \<open>Names\<close>

fun type_to_str :: "value_type_t \<Rightarrow> string" where
  "type_to_str VAL_NONE = ''NoneType''"
| "type_to_str VAL_BOOL = ''bool''"
| "type_to_str VAL_INTEGER = ''int''"
| "type_to_str VAL_STRING = ''str''"
| "type_to_str VAL_LIST = ''list''"
| "type_to_str VAL_DICT = ''dict''"
| "type_to_str _ = ''<unknown>''"

definition quote1 :: "string \<Rightarrow> string" where
  "quote1 t = CHR 0x27 # t @ [CHR 0x27]"

section \<open>Singletons\<close>

datatype SingletonType = S_NONE | S_TRUE | S_FALSE

definition singleton_to_ref_borrow :: "SingletonType \<Rightarrow> reference_t py" where
  "singleton_to_ref_borrow t = (case t of
     S_NONE \<Rightarrow> gets none_ref | S_TRUE \<Rightarrow> gets true_ref | S_FALSE \<Rightarrow> gets false_ref)"

definition singleton_to_ref :: "SingletonType \<Rightarrow> reference_t py" where
  "singleton_to_ref t = bnd (singleton_to_ref_borrow t) (\<lambda>r. seq (incref r) (ret r))"

definition is_singleton :: "value_type_t \<Rightarrow> bool" where
  "is_singleton t \<longleftrightarrow> t = VAL_NONE \<or> t = VAL_BOOL"

definition singleton_bool :: "nat \<Rightarrow> bool py" where
  "singleton_bool obj = bnd (type_at obj) (\<lambda>t. seq (ensure (is_singleton t))
     (bnd (gets true_ref) (\<lambda>r. bnd (deref r) (\<lambda>a. ret (obj = a)))))"

definition bool_ref :: "bool \<Rightarrow> reference_t py" where
  "bool_ref b = bnd (gets (if b then true_ref else false_ref)) (\<lambda>r. seq (incref r) (ret r))"

definition singleton_hash :: "nat \<Rightarrow> 64 word py" where
  "singleton_hash obj = bnd (type_at obj) (\<lambda>t.
     if t = VAL_NONE then bnd (gets none_ref) (\<lambda>r. ret (word_of_int r))
     else bnd (singleton_bool obj) (\<lambda>b. bnd (bool_ref b) (\<lambda>r. ret (word_of_int r))))"

definition singleton_cmp :: "nat \<Rightarrow> nat \<Rightarrow> int py" where
  "singleton_cmp l r = bnd (type_at l) (\<lambda>tl. bnd (type_at r) (\<lambda>tr.
     seq (ensure (is_singleton tl \<and> tl = tr))
     (bnd (singleton_bool l) (\<lambda>bl. bnd (singleton_bool r) (\<lambda>br. ret (of_bool bl - of_bool br))))))"

definition singleton_eq :: "nat \<Rightarrow> nat \<Rightarrow> bool py" where
  "singleton_eq l r = bnd (type_at l) (\<lambda>tl. bnd (type_at r) (\<lambda>tr.
     seq (ensure (is_singleton tl)) (seq (ensure (is_singleton tr)) (ret (l = r)))))"

definition singleton_print :: "nat \<Rightarrow> (string \<Rightarrow> unit py) \<Rightarrow> nat \<Rightarrow> unit py" where
  "singleton_print obj stream depth = bnd (type_at obj) (\<lambda>t.
     seq (ensure (is_singleton t))
     (if depth = 0 then stream ''...''
      else bnd (bnd (gets none_ref) deref) (\<lambda>n.
        if obj = n then stream ''None''
        else bnd (bnd (gets true_ref) deref) (\<lambda>tr.
          if obj = tr then stream ''True''
          else bnd (bnd (gets false_ref) deref) (\<lambda>fl.
            if obj = fl then stream ''False'' else halt (Exited (- 1)))))))"

section \<open>Integers\<close>

definition integer_coerce :: "nat \<Rightarrow> 64 word py" where
  "integer_coerce obj = bnd (coerce VAL_INTEGER obj) integer_value"

definition integer_bool :: "nat \<Rightarrow> bool py" where
  "integer_bool obj = bnd (integer_coerce obj) (\<lambda>i. ret (i \<noteq> 0))"

definition integer_hash :: "nat \<Rightarrow> 64 word py" where
  "integer_hash obj = integer_coerce obj"

definition integer_unaryop_negate :: "nat \<Rightarrow> nat \<Rightarrow> reference_t py" where
  "integer_unaryop_negate l r = bnd (integer_coerce l) (\<lambda>i. make_reference_int (- i))"

definition integer_unaryop_identity :: "nat \<Rightarrow> nat \<Rightarrow> reference_t py" where
  "integer_unaryop_identity l r = bnd (integer_coerce l) make_reference_int"

definition integer_cmp :: "nat \<Rightarrow> nat \<Rightarrow> int py" where
  "integer_cmp l r = bnd (integer_coerce l) (\<lambda>x. bnd (integer_coerce r) (\<lambda>y.
     ret (of_bool (sint y < sint x) - of_bool (sint x < sint y))))"

definition integer_eq :: "nat \<Rightarrow> nat \<Rightarrow> bool py" where
  "integer_eq l r = bnd (integer_cmp l r) (\<lambda>c. ret (c = 0))"

definition integer_binop :: "(64 word \<Rightarrow> 64 word \<Rightarrow> 64 word) \<Rightarrow> nat \<Rightarrow> nat \<Rightarrow> reference_t py" where
  "integer_binop f l r = bnd (integer_coerce l) (\<lambda>x. bnd (integer_coerce r) (\<lambda>y. make_reference_int (f x y)))"

definition integer_binop_add :: "nat \<Rightarrow> nat \<Rightarrow> reference_t py" where
  "integer_binop_add = integer_binop (+)"

definition integer_binop_subtract :: "nat \<Rightarrow> nat \<Rightarrow> reference_t py" where
  "integer_binop_subtract = integer_binop (-)"

definition integer_binop_multiply :: "nat \<Rightarrow> nat \<Rightarrow> reference_t py" where
  "integer_binop_multiply = integer_binop (*)"

text \<open>Division traps for a zero divisor and for the quotient \<open>2 ^ 63\<close>.\<close>

definition div_traps :: "64 word \<Rightarrow> 64 word \<Rightarrow> bool" where
  "div_traps x y \<longleftrightarrow> y = 0 \<or> (sint x = - (2 ^ 63) \<and> sint y = - 1)"

definition integer_binop_divide :: "nat \<Rightarrow> nat \<Rightarrow> reference_t py" where
  "integer_binop_divide l r = bnd (integer_coerce l) (\<lambda>x. bnd (integer_coerce r) (\<lambda>y.
     if div_traps x y then halt Div_trap else make_reference_int (word_of_int (sint x sdiv sint y))))"

definition integer_binop_modulo :: "nat \<Rightarrow> nat \<Rightarrow> reference_t py" where
  "integer_binop_modulo l r = bnd (integer_coerce l) (\<lambda>x. bnd (integer_coerce r) (\<lambda>y.
     if div_traps x y then halt Div_trap else make_reference_int (word_of_int (sint x smod sint y))))"

definition integer_print :: "nat \<Rightarrow> (string \<Rightarrow> unit py) \<Rightarrow> nat \<Rightarrow> unit py" where
  "integer_print obj stream depth =
     (if depth = 0 then stream ''...'' else bnd (integer_coerce obj) (\<lambda>i. stream (show_int (sint i))))"

section \<open>Strings\<close>

definition string_coerce :: "nat \<Rightarrow> string py" where
  "string_coerce obj = bnd (coerce VAL_STRING obj) string_value"

definition string_bool :: "nat \<Rightarrow> bool py" where
  "string_bool obj = bnd (string_coerce obj) (\<lambda>t. ret (t \<noteq> []))"

definition hash_string :: "string \<Rightarrow> 64 word" where
  "hash_string t = foldl (\<lambda>h c. 31 * h + word_of_int (schar c)) 1125899906842597 t"

definition string_hash :: "nat \<Rightarrow> 64 word py" where
  "string_hash obj = bnd (string_coerce obj) (\<lambda>t. ret (hash_string t))"

definition string_len :: "nat \<Rightarrow> int py" where
  "string_len obj = bnd (string_coerce obj) (\<lambda>t. ret (int (length t)))"

text \<open>\<open>strcmp\<close> compares as unsigned characters; only the sign of its result is used.\<close>

fun strcmp :: "string \<Rightarrow> string \<Rightarrow> int" where
  "strcmp [] [] = 0"
| "strcmp [] (d # ds) = - int (of_char d)"
| "strcmp (c # cs) [] = int (of_char c)"
| "strcmp (c # cs) (d # ds) = (if c = d then strcmp cs ds else int (of_char c) - int (of_char d))"

definition string_cmp :: "nat \<Rightarrow> nat \<Rightarrow> int py" where
  "string_cmp l r = bnd (string_coerce l) (\<lambda>x. bnd (string_coerce r) (\<lambda>y. ret (strcmp x y)))"

definition string_eq :: "nat \<Rightarrow> nat \<Rightarrow> bool py" where
  "string_eq l r = bnd (string_cmp l r) (\<lambda>c. ret (c = 0))"

definition string_binop_add :: "nat \<Rightarrow> nat \<Rightarrow> reference_t py" where
  "string_binop_add l r =
     bnd (string_coerce l) (\<lambda>x. bnd (string_coerce r) (\<lambda>y. make_reference_string_concat x y))"

definition string_print_gen :: "(string \<Rightarrow> string) \<Rightarrow> nat \<Rightarrow> (string \<Rightarrow> unit py) \<Rightarrow> nat \<Rightarrow> unit py" where
  "string_print_gen fmt obj stream depth =
     (if depth = 0 then stream ''...'' else bnd (string_coerce obj) (\<lambda>t. stream (fmt t)))"

definition string_print_repr :: "nat \<Rightarrow> (string \<Rightarrow> unit py) \<Rightarrow> nat \<Rightarrow> unit py" where
  "string_print_repr = string_print_gen (\<lambda>t. CHR 0x22 # t @ [CHR 0x22])"

definition string_print :: "nat \<Rightarrow> (string \<Rightarrow> unit py) \<Rightarrow> nat \<Rightarrow> unit py" where
  "string_print = string_print_gen (\<lambda>t. t)"

section \<open>Lists (\<open>eval_list.c\<close>)\<close>

definition list_coerce :: "nat \<Rightarrow> nat py" where
  "list_coerce obj = coerce VAL_LIST obj"

definition list_size :: "nat \<Rightarrow> int py" where
  "list_size l = bnd (list_fields l) (\<lambda>(n, _). ret n)"

definition list_coerce_subscript :: "nat \<Rightarrow> nat \<Rightarrow> int py" where
  "list_coerce_subscript l obj = bnd (type_at obj) (\<lambda>t.
     if t \<noteq> VAL_INTEGER then seq (exception_set EXC_TYPE_ERROR ''list indices must be integers'') (ret 0)
     else bnd (integer_value obj) (\<lambda>w. bnd (list_size l) (\<lambda>n.
       let idx = (if sint w < 0 then sint w + n else sint w) in
       if idx < 0 \<or> n \<le> idx then seq (exception_set EXC_INDEX_ERROR ''list index out of bounds'') (ret 0)
       else ret idx)))"

definition list_refarray :: "nat \<Rightarrow> nat py" where
  "list_refarray l = bnd (list_fields l) (\<lambda>(_, r). bnd (deref r) (coerce VAL_REF_ARRAY))"

definition list_len :: "nat \<Rightarrow> int py" where
  "list_len obj = bnd (list_coerce obj) list_size"

definition list_bool :: "nat \<Rightarrow> bool py" where
  "list_bool obj = bnd (list_len obj) (\<lambda>n. ret (0 < n))"

fun list_cmp_from :: "(reference_t \<Rightarrow> reference_t \<Rightarrow> int py) \<Rightarrow> nat \<Rightarrow> nat \<Rightarrow> int list \<Rightarrow> int \<Rightarrow> int py" where
  "list_cmp_from cmp la ra [] k = ret k"
| "list_cmp_from cmp la ra (i # is) k =
     bnd (array_get la i) (\<lambda>x. bnd (array_get ra i) (\<lambda>y. bnd (cmp x y) (\<lambda>c.
     bnd exception_occurred (\<lambda>e.
     if e then ret 0 else if c \<noteq> 0 then ret c else list_cmp_from cmp la ra is k))))"

definition list_cmp :: "(reference_t \<Rightarrow> reference_t \<Rightarrow> int py) \<Rightarrow> nat \<Rightarrow> nat \<Rightarrow> int py" where
  "list_cmp cmp lobj robj =
     bnd (list_coerce lobj) (\<lambda>l. bnd (list_coerce robj) (\<lambda>r.
     bnd (list_refarray l) (\<lambda>la. bnd (list_refarray r) (\<lambda>ra.
     bnd (list_size l) (\<lambda>lsize. bnd (list_size r) (\<lambda>rsize.
     list_cmp_from cmp la ra [0..min lsize rsize - 1] (of_bool (rsize < lsize) - of_bool (lsize < rsize))))))))"

fun list_eq_from :: "(reference_t \<Rightarrow> reference_t \<Rightarrow> bool py) \<Rightarrow> nat \<Rightarrow> nat \<Rightarrow> int list \<Rightarrow> bool py" where
  "list_eq_from req la ra [] = ret True"
| "list_eq_from req la ra (i # is) =
     bnd (array_get la i) (\<lambda>x. bnd (array_get ra i) (\<lambda>y. bnd (req x y) (\<lambda>b.
     bnd exception_occurred (\<lambda>e.
     if \<not> b \<or> e then ret False else list_eq_from req la ra is))))"

definition list_eq :: "(reference_t \<Rightarrow> reference_t \<Rightarrow> bool py) \<Rightarrow> nat \<Rightarrow> nat \<Rightarrow> bool py" where
  "list_eq req lobj robj =
     bnd (list_coerce lobj) (\<lambda>l. bnd (list_coerce robj) (\<lambda>r.
     bnd (list_size l) (\<lambda>lsize. bnd (list_size r) (\<lambda>rsize.
     if lsize \<noteq> rsize then ret False
     else bnd (list_refarray l) (\<lambda>la. bnd (list_refarray r) (\<lambda>ra.
       list_eq_from req la ra [0..lsize - 1]))))))"

definition list_subscr_get :: "nat \<Rightarrow> reference_t \<Rightarrow> reference_t py" where
  "list_subscr_get obj subscr =
     bnd (list_coerce obj) (\<lambda>l. bnd (deref subscr) (\<lambda>sa. bnd (list_coerce_subscript l sa) (\<lambda>idx.
     bnd exception_occurred (\<lambda>e. if e then ret NULL_REF
     else bnd (list_refarray l) (\<lambda>array. bnd (array_get array idx) (\<lambda>r. seq (incref r) (array_get array idx)))))))"

definition list_subscr_set :: "nat \<Rightarrow> reference_t \<Rightarrow> reference_t \<Rightarrow> unit py" where
  "list_subscr_set obj subscr v =
     bnd (list_coerce obj) (\<lambda>l. bnd (deref subscr) (\<lambda>sa. bnd (list_coerce_subscript l sa) (\<lambda>idx.
     bnd exception_occurred (\<lambda>e. if e then ret ()
     else bnd (list_refarray l) (\<lambda>array. bnd (array_get array idx) (\<lambda>r.
       seq (decref r) (seq (incref v) (array_set array idx v))))))))"

definition shift_slot :: "nat \<Rightarrow> int \<Rightarrow> unit py" where
  "shift_slot array i = bnd (array_get array (i + 1)) (array_set array i)"

definition list_subscr_del :: "nat \<Rightarrow> reference_t \<Rightarrow> unit py" where
  "list_subscr_del obj subscr =
     bnd (list_coerce obj) (\<lambda>l. bnd (deref subscr) (\<lambda>sa. bnd (list_coerce_subscript l sa) (\<lambda>idx.
     bnd exception_occurred (\<lambda>e. if e then ret ()
     else bnd (list_refarray l) (\<lambda>array.
       bnd (list_fields l) (\<lambda>(n, r).
       seq (set_data_at l (List_value (n - 1) r))
       (bnd (array_get array idx) (\<lambda>old. seq (decref old)
       (seq (each (shift_slot array) [idx..n - 2])
       (array_set array (n - 1) NULL_REF))))))))))"

definition print_item :: "(reference_t \<Rightarrow> unit py) \<Rightarrow> (string \<Rightarrow> unit py) \<Rightarrow> nat \<Rightarrow> int \<Rightarrow> unit py" where
  "print_item prr stream array i = seq (stream '', '') (bnd (array_get array i) prr)"

definition list_print :: "(reference_t \<Rightarrow> unit py) \<Rightarrow> nat \<Rightarrow> (string \<Rightarrow> unit py) \<Rightarrow> nat \<Rightarrow> unit py" where
  "list_print prr obj stream depth =
     (if depth = 0 then stream ''...''
      else bnd (list_coerce obj) (\<lambda>l. bnd (list_refarray l) (\<lambda>array.
        seq (stream ''['')
        (bnd (list_size l) (\<lambda>n.
        seq (whenP (1 \<le> n) (seq (bnd (array_get array 0) prr) (each (print_item prr stream array) [1..n - 1])))
        (stream '']''))))))"

end
