(* ===== verification/Py_Dict.thy ===== *)
theory Py_Dict
  imports Py_Types
begin

text \<open>
  Dictionaries of Subpython (\<open>eval_dict.c\<close>): hash tables with linear probing, whose keys and values are
  arrays of references; a deleted key leaves a tombstone.  The functions take the equality test
  \<open>ref_eq\<close> as an argument, which \<open>Py_Dispatch\<close> provides.
\<close>

section \<open>Hashes (\<open>eval_types.c\<close>)\<close>

text \<open>
  The table of functions has an entry per type up to \<open>NUM_TYPES\<close>; an array of references or a free
  block has none, and looking it up leaves the table.
\<close>

definition in_table :: "value_type_t \<Rightarrow> bool" where
  "in_table t \<longleftrightarrow> t \<noteq> VAL_REF_ARRAY \<and> t \<noteq> VAL_FREE"

definition type_in_table :: "nat \<Rightarrow> value_type_t py" where
  "type_in_table obj = bnd (type_at obj) (\<lambda>t. if in_table t then ret t else halt Bad_access)"

fun f_hash :: "value_type_t \<Rightarrow> (nat \<Rightarrow> 64 word py) option" where
  "f_hash VAL_NONE = Some singleton_hash"
| "f_hash VAL_BOOL = Some singleton_hash"
| "f_hash VAL_INTEGER = Some integer_hash"
| "f_hash VAL_STRING = Some string_hash"
| "f_hash _ = None"

definition ref_hash :: "reference_t \<Rightarrow> 64 word py" where
  "ref_hash r = bnd (deref r) (\<lambda>obj. bnd (type_in_table obj) (\<lambda>t.
     case f_hash t of
       None \<Rightarrow> seq (exception_set_format EXC_TYPE_ERROR (''unhashable type: '' @ quote1 (type_to_str t))) (ret (word_of_int NULL_REF))
     | Some h \<Rightarrow> h obj))"

section \<open>Finding a key\<close>

type_synonym eq_fun = "reference_t \<Rightarrow> reference_t \<Rightarrow> bool py"

definition dict_coerce :: "nat \<Rightarrow> nat py" where
  "dict_coerce obj = coerce VAL_DICT obj"

definition dict_keyarray :: "nat \<Rightarrow> nat py" where
  "dict_keyarray d = bnd (dict_fields d) (\<lambda>(_, _, k, _). bnd (deref k) (coerce VAL_REF_ARRAY))"

definition dict_valuearray :: "nat \<Rightarrow> nat py" where
  "dict_valuearray d = bnd (dict_fields d) (\<lambda>(_, _, _, r). bnd (deref r) (coerce VAL_REF_ARRAY))"

definition array_capacity :: "nat \<Rightarrow> int py" where
  "array_capacity a = bnd (array_values a) (\<lambda>rs. ret (int (length rs)))"

text \<open>The slot that the probe with number \<open>idx\<close> looks at.\<close>

definition probe_slot :: "int \<Rightarrow> int \<Rightarrow> int \<Rightarrow> int" where
  "probe_slot capacity bucket idx =
     (let current = bucket + idx in if current > capacity then current - capacity else current)"

fun keys_find_from :: "eq_fun \<Rightarrow> nat \<Rightarrow> int \<Rightarrow> int \<Rightarrow> reference_t \<Rightarrow> bool \<Rightarrow> int list \<Rightarrow> int py" where
  "keys_find_from req keys capacity bucket subscr skip [] = ret (- 1)"
| "keys_find_from req keys capacity bucket subscr skip (idx # idxs) =
     (let current = probe_slot capacity bucket idx in
      bnd (array_get keys current) (\<lambda>key.
      if skip \<and> key = TOMBSTONE_REF then keys_find_from req keys capacity bucket subscr skip idxs
      else if key = NULL_REF \<or> key = TOMBSTONE_REF then ret current
      else bnd (req subscr key) (\<lambda>b.
        if b then ret current else keys_find_from req keys capacity bucket subscr skip idxs)))"

definition keys_find :: "eq_fun \<Rightarrow> nat \<Rightarrow> 64 word \<Rightarrow> reference_t \<Rightarrow> bool \<Rightarrow> int py" where
  "keys_find req keys hash subscr skip_tombstones =
     bnd (array_capacity keys) (\<lambda>capacity.
     if capacity = 0 then halt Div_trap
     else keys_find_from req keys capacity (int (unat hash) mod capacity) subscr skip_tombstones [0..capacity - 1])"

section \<open>Operations\<close>

definition rehash_slot :: "eq_fun \<Rightarrow> nat \<Rightarrow> nat \<Rightarrow> nat \<Rightarrow> nat \<Rightarrow> reference_t \<Rightarrow> reference_t \<Rightarrow> int \<Rightarrow> bool py" where
  "rehash_slot req keys vals new_keys new_values ref_keys ref_values i =
     bnd (array_get keys i) (\<lambda>key.
     if key \<noteq> TOMBSTONE_REF \<and> key \<noteq> NULL_REF then
       bnd (array_get vals i) (\<lambda>v.
       bnd (ref_hash key) (\<lambda>hash.
       bnd exception_occurred (\<lambda>e.
       if e then seq (decref ref_keys) (seq (decref ref_values) (ret False))
       else bnd (keys_find req new_keys hash key False) (\<lambda>idx.
         seq (incref key) (seq (incref v)
         (seq (array_set new_keys idx key) (seq (array_set new_values idx v) (ret True))))))))
     else ret True)"

fun rehash_from :: "(int \<Rightarrow> bool py) \<Rightarrow> int list \<Rightarrow> bool py" where
  "rehash_from g [] = ret True"
| "rehash_from g (i # is) = bnd (g i) (\<lambda>ok. if ok then rehash_from g is else ret False)"

definition dict_upsize :: "eq_fun \<Rightarrow> nat \<Rightarrow> unit py" where
  "dict_upsize req d =
     bnd (dict_keyarray d) (\<lambda>keys. bnd (dict_valuearray d) (\<lambda>vals. bnd (array_capacity keys) (\<lambda>capacity.
     bnd (make_reference_refarray (nat (capacity * 2))) (\<lambda>ref_keys.
     bnd exception_occurred (\<lambda>e. if e then ret ()
     else bnd (make_reference_refarray (nat (capacity * 2))) (\<lambda>ref_values.
     bnd exception_occurred (\<lambda>e'. if e' then decref ref_keys
     else bnd (deref ref_keys) (\<lambda>new_keys. bnd (deref ref_values) (\<lambda>new_values.
       bnd (rehash_from (rehash_slot req keys vals new_keys new_values ref_keys ref_values) [0..capacity - 1]) (\<lambda>ok.
       whenP ok
         (bnd (dict_fields d) (\<lambda>(_, _, k, _). seq (decref k)
         (bnd (dict_fields d) (\<lambda>(_, _, _, r). seq (decref r)
         (bnd (dict_fields d) (\<lambda>(n, _, _, _). set_data_at d (Dict_value n n ref_keys ref_values)))))))))))))))))"

definition dict_maybe_upsize :: "eq_fun \<Rightarrow> nat \<Rightarrow> unit py" where
  "dict_maybe_upsize req d =
     bnd (dict_keyarray d) (\<lambda>keys. bnd (array_capacity keys) (\<lambda>capacity.
     bnd (dict_fields d) (\<lambda>(_, occ, _, _). whenP (capacity \<le> occ * 2) (dict_upsize req d))))"

definition dict_len :: "nat \<Rightarrow> int py" where
  "dict_len obj = bnd (dict_coerce obj) (\<lambda>d. bnd (dict_fields d) (\<lambda>(n, _). ret n))"

definition dict_bool :: "nat \<Rightarrow> bool py" where
  "dict_bool obj = bnd (dict_len obj) (\<lambda>n. ret (0 < n))"

text \<open>Whether a search found the key: \<open>idx >= 0 && keys->values[idx] != NULL_REF\<close>.\<close>

definition key_found :: "nat \<Rightarrow> int \<Rightarrow> bool py" where
  "key_found keys idx = (if 0 \<le> idx then bnd (array_get keys idx) (\<lambda>k. ret (k \<noteq> NULL_REF)) else ret False)"

definition dict_subscr_get :: "eq_fun \<Rightarrow> nat \<Rightarrow> reference_t \<Rightarrow> reference_t py" where
  "dict_subscr_get req obj subscr =
     bnd (dict_coerce obj) (\<lambda>d. bnd (dict_keyarray d) (\<lambda>keys. bnd (dict_valuearray d) (\<lambda>vals.
     bnd (ref_hash subscr) (\<lambda>hash.
     bnd exception_occurred (\<lambda>e. if e then ret NULL_REF
     else bnd (keys_find req keys hash subscr True) (\<lambda>idx.
     bnd (key_found keys idx) (\<lambda>found.
     if found then bnd (array_get vals idx) (\<lambda>r. seq (incref r) (array_get vals idx))
     else seq (exception_set EXC_KEY_ERROR ''no value found for key in dictionary'') (ret NULL_REF))))))))"

definition dict_insert :: "nat \<Rightarrow> nat \<Rightarrow> nat \<Rightarrow> int \<Rightarrow> reference_t \<Rightarrow> reference_t \<Rightarrow> unit py" where
  "dict_insert d keys vals idx subscr v =
     bnd (array_get keys idx) (\<lambda>k.
     seq (ensure (k = NULL_REF \<or> k = TOMBSTONE_REF))
     (bnd (dict_fields d) (\<lambda>(n, occ, rk, rv).
     seq (set_data_at d (Dict_value (n + 1) (if k = NULL_REF then occ + 1 else occ) rk rv))
     (seq (decref k)
     (bnd (array_get vals idx) (\<lambda>old. seq (decref old)
     (seq (incref subscr) (seq (incref v)
     (seq (array_set keys idx subscr) (array_set vals idx v))))))))))"

text \<open>
  The last branch, a full table, enlarges the dictionary and starts again; it is taken at most once,
  and the bound on the depth of the recursion is 3.
\<close>

fun dict_subscr_set_at :: "nat \<Rightarrow> eq_fun \<Rightarrow> nat \<Rightarrow> reference_t \<Rightarrow> reference_t \<Rightarrow> unit py" where
  "dict_subscr_set_at 0 req obj subscr v = halt No_fuel"
| "dict_subscr_set_at (Suc m) req obj subscr v =
     bnd (dict_coerce obj) (\<lambda>d. bnd (dict_keyarray d) (\<lambda>keys. bnd (dict_valuearray d) (\<lambda>vals.
     bnd (ref_hash subscr) (\<lambda>hash.
     bnd exception_occurred (\<lambda>e. if e then ret ()
     else bnd (keys_find req keys hash subscr True) (\<lambda>idx.
     bnd (key_found keys idx) (\<lambda>found.
     if found then
       bnd (array_get vals idx) (\<lambda>old. seq (decref old) (seq (incref v) (array_set vals idx v)))
     else
       bnd (keys_find req keys hash subscr False) (\<lambda>idx'.
       if 0 \<le> idx' then seq (dict_insert d keys vals idx' subscr v) (dict_maybe_upsize req d)
       else seq (dict_upsize req d) (dict_subscr_set_at m req obj subscr v)))))))))"

definition dict_subscr_set :: "eq_fun \<Rightarrow> nat \<Rightarrow> reference_t \<Rightarrow> reference_t \<Rightarrow> unit py" where
  "dict_subscr_set req obj subscr v = dict_subscr_set_at 3 req obj subscr v"

definition dict_subscr_del :: "eq_fun \<Rightarrow> nat \<Rightarrow> reference_t \<Rightarrow> unit py" where
  "dict_subscr_del req obj subscr =
     bnd (dict_coerce obj) (\<lambda>d. bnd (dict_keyarray d) (\<lambda>keys. bnd (dict_valuearray d) (\<lambda>vals.
     bnd (ref_hash subscr) (\<lambda>hash.
     bnd exception_occurred (\<lambda>e. if e then ret ()
     else bnd (keys_find req keys hash subscr True) (\<lambda>idx.
     bnd (key_found keys idx) (\<lambda>found.
     if found then
       bnd (dict_fields d) (\<lambda>(n, occ, rk, rv).
       seq (set_data_at d (Dict_value (n - 1) occ rk rv))
       (bnd (array_get keys idx) (\<lambda>k. seq (decref k)
       (bnd (array_get vals idx) (\<lambda>old. seq (decref old)
       (seq (array_set keys idx TOMBSTONE_REF) (array_set vals idx NULL_REF)))))))
     else exception_set EXC_KEY_ERROR (''can'' @ [CHR 0x27] @ ''t delete nonexistant key in dictionary''))))))))"

fun dict_eq_from :: "eq_fun \<Rightarrow> nat \<Rightarrow> nat \<Rightarrow> nat \<Rightarrow> nat \<Rightarrow> int list \<Rightarrow> bool py" where
  "dict_eq_from req lkeys lvalues rkeys rvalues [] = ret True"
| "dict_eq_from req lkeys lvalues rkeys rvalues (i # is) =
     bnd (array_get lkeys i) (\<lambda>key.
     if key = NULL_REF \<or> key = TOMBSTONE_REF then dict_eq_from req lkeys lvalues rkeys rvalues is
     else bnd (ref_hash key) (\<lambda>hash. bnd (keys_find req rkeys hash key True) (\<lambda>ridx.
       bnd (key_found rkeys ridx) (\<lambda>found.
       bnd (if found then bnd (array_get lvalues i) (\<lambda>x. bnd (array_get rvalues ridx) (req x)) else ret False) (\<lambda>equals.
       bnd exception_occurred (\<lambda>e.
       if e \<or> \<not> equals then ret False else dict_eq_from req lkeys lvalues rkeys rvalues is))))))"

definition dict_eq :: "eq_fun \<Rightarrow> nat \<Rightarrow> nat \<Rightarrow> bool py" where
  "dict_eq req l r =
     bnd (dict_coerce l) (\<lambda>ld. bnd (dict_coerce r) (\<lambda>rd.
     bnd (dict_fields ld) (\<lambda>(ln, _). bnd (dict_fields rd) (\<lambda>(rn, _).
     if ln \<noteq> rn then ret False
     else bnd (dict_keyarray ld) (\<lambda>lkeys. bnd (dict_valuearray ld) (\<lambda>lvalues.
       bnd (dict_keyarray rd) (\<lambda>rkeys. bnd (dict_valuearray rd) (\<lambda>rvalues.
       bnd (array_capacity lkeys) (\<lambda>capacity.
       dict_eq_from req lkeys lvalues rkeys rvalues [0..capacity - 1])))))))))"

fun dict_print_from :: "(reference_t \<Rightarrow> unit py) \<Rightarrow> (string \<Rightarrow> unit py) \<Rightarrow> nat \<Rightarrow> nat \<Rightarrow> bool \<Rightarrow> int list \<Rightarrow> unit py" where
  "dict_print_from prr stream keys vals comma [] = ret ()"
| "dict_print_from prr stream keys vals comma (i # is) =
     bnd (array_get keys i) (\<lambda>key.
     if key = NULL_REF \<or> key = TOMBSTONE_REF then dict_print_from prr stream keys vals comma is
     else seq (whenP comma (stream '', ''))
          (seq (prr key) (seq (stream '': '')
          (bnd (array_get vals i) (\<lambda>v. seq (prr v) (dict_print_from prr stream keys vals True is))))))"

definition dict_print :: "(reference_t \<Rightarrow> unit py) \<Rightarrow> nat \<Rightarrow> (string \<Rightarrow> unit py) \<Rightarrow> nat \<Rightarrow> unit py" where
  "dict_print prr obj stream depth =
     (if depth = 0 then stream ''...''
      else bnd (dict_coerce obj) (\<lambda>d. bnd (dict_keyarray d) (\<lambda>keys. bnd (dict_valuearray d) (\<lambda>vals.
        seq (stream ''{'')
        (bnd (array_capacity keys) (\<lambda>capacity.
        seq (dict_print_from prr stream keys vals False [0..capacity - 1])
        (stream ''}'')))))))"

end
