(* ===== verification/Py_Dispatch.thy ===== *)
theory Py_Dispatch
  imports Py_Dict
begin

text \<open>
  The generic operations of Subpython (\<open>eval_types.c\<close>): each looks up the function of the operand's
  type in the table that \<open>eval_types_init\<close> fills, and raises a type error where there is none.
\<close>

section \<open>The table\<close>

fun f_bool :: "value_type_t \<Rightarrow> (nat \<Rightarrow> bool py) option" where
  "f_bool VAL_NONE = Some singleton_bool"
| "f_bool VAL_BOOL = Some singleton_bool"
| "f_bool VAL_INTEGER = Some integer_bool"
| "f_bool VAL_STRING = Some string_bool"
| "f_bool VAL_LIST = Some list_bool"
| "f_bool VAL_DICT = Some dict_bool"
| "f_bool _ = None"

fun f_len :: "value_type_t \<Rightarrow> (nat \<Rightarrow> int py) option" where
  "f_len VAL_STRING = Some string_len"
| "f_len VAL_LIST = Some list_len"
| "f_len VAL_DICT = Some dict_len"
| "f_len _ = None"

fun f_cmp :: "(reference_t \<Rightarrow> reference_t \<Rightarrow> int py) \<Rightarrow> value_type_t \<Rightarrow> (nat \<Rightarrow> nat \<Rightarrow> int py) option" where
  "f_cmp cmp VAL_NONE = Some singleton_cmp"
| "f_cmp cmp VAL_BOOL = Some singleton_cmp"
| "f_cmp cmp VAL_INTEGER = Some integer_cmp"
| "f_cmp cmp VAL_STRING = Some string_cmp"
| "f_cmp cmp VAL_LIST = Some (list_cmp cmp)"
| "f_cmp cmp _ = None"

fun f_eq :: "eq_fun \<Rightarrow> value_type_t \<Rightarrow> (nat \<Rightarrow> nat \<Rightarrow> bool py) option" where
  "f_eq req VAL_NONE = Some singleton_eq"
| "f_eq req VAL_BOOL = Some singleton_eq"
| "f_eq req VAL_INTEGER = Some integer_eq"
| "f_eq req VAL_STRING = Some string_eq"
| "f_eq req VAL_LIST = Some (list_eq req)"
| "f_eq req VAL_DICT = Some (dict_eq req)"
| "f_eq req _ = None"

datatype NodeExprBuiltinType =
    UOP_NEGATE | UOP_IDENTITY
  | OP_ADD | OP_SUBTRACT | OP_MULTIPLY | OP_DIVIDE | OP_MODULO
  | COMP_EQUALS | COMP_LT | COMP_GT | COMP_LE | COMP_GE

definition is_unary_builtin :: "NodeExprBuiltinType \<Rightarrow> bool" where
  "is_unary_builtin t \<longleftrightarrow> t = UOP_NEGATE \<or> t = UOP_IDENTITY"

fun f_builtins :: "value_type_t \<Rightarrow> NodeExprBuiltinType \<Rightarrow> (nat \<Rightarrow> nat \<Rightarrow> reference_t py) option" where
  "f_builtins VAL_INTEGER UOP_NEGATE = Some integer_unaryop_negate"
| "f_builtins VAL_INTEGER UOP_IDENTITY = Some integer_unaryop_identity"
| "f_builtins VAL_INTEGER OP_ADD = Some integer_binop_add"
| "f_builtins VAL_INTEGER OP_SUBTRACT = Some integer_binop_subtract"
| "f_builtins VAL_INTEGER OP_MULTIPLY = Some integer_binop_multiply"
| "f_builtins VAL_INTEGER OP_DIVIDE = Some integer_binop_divide"
| "f_builtins VAL_INTEGER OP_MODULO = Some integer_binop_modulo"
| "f_builtins VAL_STRING OP_ADD = Some string_binop_add"
| "f_builtins _ _ = None"

fun f_subscr_get :: "eq_fun \<Rightarrow> value_type_t \<Rightarrow> (nat \<Rightarrow> reference_t \<Rightarrow> reference_t py) option" where
  "f_subscr_get req VAL_LIST = Some list_subscr_get"
| "f_subscr_get req VAL_DICT = Some (dict_subscr_get req)"
| "f_subscr_get req _ = None"

fun f_subscr_set :: "eq_fun \<Rightarrow> value_type_t \<Rightarrow> (nat \<Rightarrow> reference_t \<Rightarrow> reference_t \<Rightarrow> unit py) option" where
  "f_subscr_set req VAL_LIST = Some list_subscr_set"
| "f_subscr_set req VAL_DICT = Some (dict_subscr_set req)"
| "f_subscr_set req _ = None"

fun f_subscr_del :: "eq_fun \<Rightarrow> value_type_t \<Rightarrow> (nat \<Rightarrow> reference_t \<Rightarrow> unit py) option" where
  "f_subscr_del req VAL_LIST = Some list_subscr_del"
| "f_subscr_del req VAL_DICT = Some (dict_subscr_del req)"
| "f_subscr_del req _ = None"

type_synonym print_fun = "nat \<Rightarrow> (string \<Rightarrow> unit py) \<Rightarrow> nat \<Rightarrow> unit py"

fun f_print_repr :: "(reference_t \<Rightarrow> unit py) \<Rightarrow> value_type_t \<Rightarrow> print_fun option" where
  "f_print_repr prr VAL_NONE = Some singleton_print"
| "f_print_repr prr VAL_BOOL = Some singleton_print"
| "f_print_repr prr VAL_INTEGER = Some integer_print"
| "f_print_repr prr VAL_STRING = Some string_print_repr"
| "f_print_repr prr VAL_LIST = Some (list_print prr)"
| "f_print_repr prr VAL_DICT = Some (dict_print prr)"
| "f_print_repr prr _ = None"

fun f_print :: "(reference_t \<Rightarrow> unit py) \<Rightarrow> value_type_t \<Rightarrow> print_fun option" where
  "f_print prr VAL_STRING = Some string_print"
| "f_print prr t = f_print_repr prr t"

section \<open>Dispatch\<close>

definition ref_is_none :: "reference_t \<Rightarrow> bool py" where
  "ref_is_none r = gets (\<lambda>s. r = none_ref s)"

definition ref_is_true :: "reference_t \<Rightarrow> bool py" where
  "ref_is_true r = gets (\<lambda>s. r = true_ref s)"

definition ref_is_false :: "reference_t \<Rightarrow> bool py" where
  "ref_is_false r = gets (\<lambda>s. r = false_ref s)"

definition ref_type :: "reference_t \<Rightarrow> value_type_t py" where
  "ref_type r = bnd (deref r) type_at"

definition type_error :: "string \<Rightarrow> unit py" where
  "type_error msg = exception_set_format EXC_TYPE_ERROR msg"

definition ref_bool :: "reference_t \<Rightarrow> bool py" where
  "ref_bool r = bnd (deref r) (\<lambda>obj. bnd (type_in_table obj) (\<lambda>t.
     case f_bool t of
       None \<Rightarrow> seq (type_error (''object of type '' @ quote1 (type_to_str t) @ '' has no bool()'')) (ret (NULL_REF \<noteq> 0))
     | Some g \<Rightarrow> g obj))"

definition ref_len :: "reference_t \<Rightarrow> int py" where
  "ref_len r = bnd (deref r) (\<lambda>obj. bnd (type_in_table obj) (\<lambda>t.
     case f_len t of
       None \<Rightarrow> seq (type_error (''object of type '' @ quote1 (type_to_str t) @ '' has no len()'')) (ret NULL_REF)
     | Some g \<Rightarrow> g obj))"

fun builtin_to_str :: "NodeExprBuiltinType \<Rightarrow> string" where
  "builtin_to_str UOP_NEGATE = ''-''"
| "builtin_to_str UOP_IDENTITY = ''+''"
| "builtin_to_str COMP_EQUALS = ''==''"
| "builtin_to_str COMP_LT = ''<''"
| "builtin_to_str COMP_GT = ''>''"
| "builtin_to_str COMP_LE = ''<=''"
| "builtin_to_str COMP_GE = ''>=''"
| "builtin_to_str OP_ADD = ''+''"
| "builtin_to_str OP_SUBTRACT = ''-''"
| "builtin_to_str OP_MULTIPLY = ''*''"
| "builtin_to_str OP_DIVIDE = ''/''"
| "builtin_to_str OP_MODULO = ''%''"

definition ref_builtin :: "NodeExprBuiltinType \<Rightarrow> reference_t \<Rightarrow> reference_t \<Rightarrow> reference_t py" where
  "ref_builtin t l r =
     bnd (deref l) (\<lambda>lobj. bnd (deref r) (\<lambda>robj.
     bnd (type_at lobj) (\<lambda>lt. bnd (type_at robj) (\<lambda>rt.
     bnd (if lt \<noteq> rt then ret None else bnd (type_in_table lobj) (\<lambda>tt. ret (f_builtins tt t))) (\<lambda>g.
     case g of
       None \<Rightarrow>
         seq (if is_unary_builtin t
              then type_error (''bad operand type for unary '' @ builtin_to_str t @ '': '' @ quote1 (type_to_str lt))
              else type_error (''unsupported operand type(s) for '' @ builtin_to_str t @ '': '' @ quote1 (type_to_str lt) @
                '' and '' @ quote1 (type_to_str rt)))
             (ret NULL_REF)
     | Some f \<Rightarrow> f lobj robj)))))"

definition compare_step :: "(reference_t \<Rightarrow> reference_t \<Rightarrow> int py) \<Rightarrow> reference_t \<Rightarrow> reference_t \<Rightarrow> int py" where
  "compare_step cmp l r =
     bnd (deref l) (\<lambda>lobj. bnd (deref r) (\<lambda>robj.
     bnd (type_in_table lobj) (\<lambda>lt. bnd (type_at robj) (\<lambda>rt.
     case f_cmp cmp lt of
       Some g \<Rightarrow> if lt = rt then g lobj robj
         else seq (type_error (''type(s) are not comparable: '' @ quote1 (type_to_str lt) @ '' and '' @ quote1 (type_to_str rt))) (ret 0)
     | None \<Rightarrow>
         seq (type_error (''type(s) are not comparable: '' @ quote1 (type_to_str lt) @ '' and '' @ quote1 (type_to_str rt))) (ret 0)))))"

fun compare_at :: "nat \<Rightarrow> reference_t \<Rightarrow> reference_t \<Rightarrow> int py" where
  "compare_at 0 l r = halt Stack_overflow"
| "compare_at (Suc n) l r = compare_step (compare_at n) l r"

definition pair_depth :: "py_state \<Rightarrow> nat" where
  "pair_depth s = (length (ref_table s) + 2) * (length (ref_table s) + 2)"

definition compare_refs :: "reference_t \<Rightarrow> reference_t \<Rightarrow> int py" where
  "compare_refs l r = bnd (gets pair_depth) (\<lambda>n. compare_at n l r)"

definition ref_compare :: "NodeExprBuiltinType \<Rightarrow> reference_t \<Rightarrow> reference_t \<Rightarrow> reference_t py" where
  "ref_compare t l r =
     bnd (compare_refs l r) (\<lambda>c. bnd exception_occurred (\<lambda>e. if e then ret NULL_REF
     else case t of
         COMP_EQUALS \<Rightarrow> bool_ref (c = 0)
       | COMP_LT \<Rightarrow> bool_ref (c < 0)
       | COMP_GT \<Rightarrow> bool_ref (c > 0)
       | COMP_LE \<Rightarrow> bool_ref (c \<le> 0)
       | COMP_GE \<Rightarrow> bool_ref (c \<ge> 0)
       | _ \<Rightarrow> halt (Exited (- 1))))"

definition ref_eq_step :: "eq_fun \<Rightarrow> eq_fun" where
  "ref_eq_step req l r =
     bnd (deref l) (\<lambda>lobj. bnd (deref r) (\<lambda>robj.
     bnd (type_at lobj) (\<lambda>lt. bnd (type_at robj) (\<lambda>rt.
     if lt \<noteq> rt then ret False
     else bnd (type_in_table lobj) (\<lambda>tt.
       case f_eq req tt of
         None \<Rightarrow> seq (type_error (''unsupported operand types for '' @ quote1 ''=='' @ '': '' @ quote1 (type_to_str lt) @ '' and '' @
                   quote1 (type_to_str rt))) (ret False)
       | Some g \<Rightarrow> g lobj robj)))))"

fun ref_eq_at :: "nat \<Rightarrow> eq_fun" where
  "ref_eq_at 0 l r = halt Stack_overflow"
| "ref_eq_at (Suc n) l r = ref_eq_step (ref_eq_at n) l r"

definition ref_eq :: "eq_fun" where
  "ref_eq l r = bnd (gets pair_depth) (\<lambda>n. ref_eq_at n l r)"

definition ref_subscr_get :: "reference_t \<Rightarrow> reference_t \<Rightarrow> reference_t py" where
  "ref_subscr_get r subscr = bnd (deref r) (\<lambda>obj. bnd (type_in_table obj) (\<lambda>t.
     case f_subscr_get ref_eq t of
       None \<Rightarrow> seq (type_error (quote1 (type_to_str t) @ '' object is not subscriptable'')) (ret NULL_REF)
     | Some g \<Rightarrow> g obj subscr))"

definition ref_subscr_set :: "reference_t \<Rightarrow> reference_t \<Rightarrow> reference_t \<Rightarrow> unit py" where
  "ref_subscr_set r subscr v = bnd (deref r) (\<lambda>obj. bnd (type_in_table obj) (\<lambda>t.
     case f_subscr_set ref_eq t of
       None \<Rightarrow> type_error (quote1 (type_to_str t) @ '' object does not support item assignment'')
     | Some g \<Rightarrow> g obj subscr v))"

definition ref_subscr_del :: "reference_t \<Rightarrow> reference_t \<Rightarrow> unit py" where
  "ref_subscr_del r subscr = bnd (deref r) (\<lambda>obj. bnd (type_in_table obj) (\<lambda>t.
     case f_subscr_del ref_eq t of
       None \<Rightarrow> type_error (quote1 (type_to_str t) @ '' object does not support item deletion'')
     | Some g \<Rightarrow> g obj subscr))"

section \<open>Printing\<close>

definition MAX_DEPTH :: nat where
  "MAX_DEPTH = 4"

definition print_dispatch :: "(value_type_t \<Rightarrow> print_fun option) \<Rightarrow> reference_t \<Rightarrow> (string \<Rightarrow> unit py) \<Rightarrow> nat \<Rightarrow> unit py" where
  "print_dispatch tab r stream depth = bnd (deref r) (\<lambda>obj. bnd (type_in_table obj) (\<lambda>t.
     case tab t of
       None \<Rightarrow> type_error (''cannot print value of type '' @ quote1 (type_to_str t))
     | Some g \<Rightarrow> g obj stream depth))"

text \<open>Printing descends with the depth: at depth 0 nothing is printed through the recursive call.\<close>

fun ref_print_repr :: "reference_t \<Rightarrow> (string \<Rightarrow> unit py) \<Rightarrow> nat \<Rightarrow> unit py" where
  "ref_print_repr r stream 0 = print_dispatch (f_print_repr (\<lambda>_. halt No_fuel)) r stream 0"
| "ref_print_repr r stream (Suc d) = print_dispatch (f_print_repr (\<lambda>r'. ref_print_repr r' stream d)) r stream (Suc d)"

definition ref_print :: "reference_t \<Rightarrow> (string \<Rightarrow> unit py) \<Rightarrow> nat \<Rightarrow> unit py" where
  "ref_print r stream depth = print_dispatch (f_print (\<lambda>r'. ref_print_repr r' stream (depth - 1))) r stream depth"

definition ref_println_repr :: "reference_t \<Rightarrow> (string \<Rightarrow> unit py) \<Rightarrow> nat \<Rightarrow> unit py" where
  "ref_println_repr r stream depth = seq (ref_print_repr r stream depth) (stream [CHR 0x0A])"

definition ref_println :: "reference_t \<Rightarrow> (string \<Rightarrow> unit py) \<Rightarrow> nat \<Rightarrow> unit py" where
  "ref_println r stream depth = seq (ref_print r stream depth) (stream [CHR 0x0A])"

end
