(* ===== verification/Py_Heap.thy ===== *)
theory Py_Heap
  imports Py_Pool Py_Dispatch
begin

text \<open>
  The reference table over the pool (\<open>project05-kweng/refs.c\<close>) as a map from references to values, and
  what the operations on references do to this map.
\<close>

section \<open>The values by reference\<close>

definition address :: "py_state \<Rightarrow> reference_t \<Rightarrow> nat" where
  "address s r = (if 0 \<le> r \<and> nat r < length (ref_table s) then ref_table s ! nat r else 0)"

definition objs :: "py_state \<Rightarrow> reference_t \<Rightarrow> value_t option" where
  "objs s r = (if address s r = 0 then None else store s (address s r))"

definition table_inv :: "py_state \<Rightarrow> bool" where
  "table_inv s \<longleftrightarrow> pool_inv s (set (ref_table s) - {0}) \<and>
     (\<forall>r q. address s r = address s q \<longrightarrow> address s r \<noteq> 0 \<longrightarrow> r = q) \<and>
     (\<forall>r v. objs s r = Some v \<longrightarrow> payload_bytes (data v) \<le> value_size v)"

lemma table_inv_fits: "table_inv s \<Longrightarrow> objs s r = Some v \<Longrightarrow> payload_bytes (data v) \<le> value_size v"
  by (simp add: table_inv_def)

lemma objs_size:
  assumes "table_inv s" "objs s r = Some v"
  shows "value_size v < 2 ^ 63"
proof -
  have "address s r \<in> set (ref_table s) - {0}" and v: "store s (address s r) = Some v"
    using assms(2) by (auto simp: objs_def address_def split: if_splits)
  then obtain as fs where p: "pool_ok s as fs" "address s r \<in> set as" using assms(1)
    unfolding table_inv_def pool_inv_def by blast
  then have "tiled (store s) (memory_pool s) as (memory_pool s + memory_size s)" "memory_size s < 2 ^ 63" by (simp_all add: pool_ok_def)
  then show ?thesis using tiled_block [of "store s" "memory_pool s" as "memory_pool s + memory_size s" "address s r"] p(2) v by auto
qed

text \<open>The length of a string that is in the pool.\<close>

lemma string_length: "table_inv s \<Longrightarrow> objs s r = Some v \<Longrightarrow> data v = String_value t \<Longrightarrow> length t + 25 < 2 ^ 63"
  using table_inv_fits [of s r v] objs_size [of s r v] by simp

text \<open>What the operations on references leave alone.\<close>

definition ctx :: "py_state \<Rightarrow> (string \<times> reference_t) list \<times> reference_t \<times> reference_t \<times> reference_t" where
  "ctx s = (global_vars s, none_ref s, true_ref s, false_ref s)"

lemma address_in: "address s r \<noteq> 0 \<Longrightarrow> address s r \<in> set (ref_table s) - {0}"
  by (auto simp: address_def split: if_splits)

lemma objsE:
  assumes "table_inv s" "objs s r = Some v"
  obtains a where "address s r = a" "a \<noteq> 0" "store s a = Some v" "vtype v \<noteq> VAL_FREE" "is_pool_address s a"
    "0 \<le> r" "nat r < length (ref_table s)" "deref r s = (Inr a, s)" "24 \<le> value_size v"
proof -
  let ?a = "address s r"
  have a: "?a \<noteq> 0" "store s ?a = Some v" using assms(2) by (auto simp: objs_def split: if_splits)
  have "pool_inv s (set (ref_table s) - {0})" using assms(1) by (simp add: table_inv_def)
  then obtain v' where "store s ?a = Some v'" "vtype v' \<noteq> VAL_FREE" "is_pool_address s ?a" "24 \<le> value_size v'"
    using pool_inv_live address_in [OF a(1)] by metis
  moreover have "0 \<le> r" "nat r < length (ref_table s)" using a(1) by (auto simp: address_def split: if_splits)
  ultimately show thesis using a by (intro that [of ?a]) (auto simp: deref_def address_def)
qed

lemma objs_live: "table_inv s \<Longrightarrow> address s r \<noteq> 0 \<Longrightarrow> \<exists>v. objs s r = Some v"
  using pool_inv_live [of s "set (ref_table s) - {0}" "address s r"] address_in
  by (metis (full_types) objs_def table_inv_def)

lemma objs_nonneg: "objs s r = Some v \<Longrightarrow> 0 \<le> r"
  by (auto simp: objs_def address_def split: if_splits)

lemma objs_dom: "dom (objs s) \<subseteq> int ` {..<length (ref_table s)}"
proof
  fix r assume "r \<in> dom (objs s)"
  then have "address s r \<noteq> 0" by (simp add: objs_def domIff split: if_splits)
  then have "0 \<le> r" "nat r < length (ref_table s)" by (simp_all add: address_def split: if_splits)
  then show "r \<in> int ` {..<length (ref_table s)}" by (intro image_eqI [of _ _ "nat r"]) simp_all
qed

lemma objs_finite: "finite (dom (objs s))"
  using objs_dom by (rule finite_subset) simp

lemma objs_card: "card (dom (objs s)) \<le> length (ref_table s)"
proof -
  have "card (dom (objs s)) \<le> card (int ` {..<length (ref_table s)})" using objs_dom by (intro card_mono) simp_all
  also have "\<dots> = length (ref_table s)" by (simp add: card_image)
  finally show ?thesis .
qed

lemma table_inv_cong:
  "store s' = store s \<Longrightarrow> free_list s' = free_list s \<Longrightarrow> memory_pool s' = memory_pool s \<Longrightarrow>
   memory_size s' = memory_size s \<Longrightarrow> ref_table s' = ref_table s \<Longrightarrow> table_inv s' = table_inv s"
  by (simp add: table_inv_def address_def objs_def pool_inv_cong [of s' s])

lemma objs_cong: "store s' = store s \<Longrightarrow> ref_table s' = ref_table s \<Longrightarrow> objs s' = objs s"
  by (rule ext) (simp add: objs_def address_def)

lemma vars_address [simp]: "address (s\<lparr>global_vars := g\<rparr>) q = address s q" "address (s\<lparr>max_vars := m\<rparr>) q = address s q"
  by (simp_all add: address_def)

lemma vars_fields [simp]:
  "objs (s\<lparr>global_vars := g\<rparr>) = objs s" "objs (s\<lparr>max_vars := m\<rparr>) = objs s"
  "table_inv (s\<lparr>global_vars := g\<rparr>) = table_inv s" "table_inv (s\<lparr>max_vars := m\<rparr>) = table_inv s"
  by (rule objs_cong table_inv_cong; simp)+

section \<open>Changing a value\<close>

definition with_value :: "reference_t \<Rightarrow> value_t \<Rightarrow> py_state \<Rightarrow> py_state" where
  "with_value r v s = s\<lparr>store := (store s)(address s r \<mapsto> v)\<rparr>"

lemma with_value_fields [simp]:
  "ref_table (with_value r v s) = ref_table s" "address (with_value r v s) q = address s q"
  "ctx (with_value r v s) = ctx s" "exc_type (with_value r v s) = exc_type s"
  "memory_pool (with_value r v s) = memory_pool s" "memory_size (with_value r v s) = memory_size s"
  "global_vars (with_value r v s) = global_vars s"
  by (simp_all add: with_value_def address_def ctx_def)

lemma with_value_twice [simp]: "with_value r w (with_value r v s) = with_value r w s"
proof -
  have "address (s\<lparr>store := st\<rparr>) r = address s r" for st by (simp add: address_def)
  then show ?thesis by (simp add: with_value_def)
qed

lemma with_value_ok:
  assumes "table_inv s" "objs s r = Some v" "value_size v' = value_size v" "vtype v' \<noteq> VAL_FREE"
    "payload_bytes (data v') \<le> value_size v \<or> data v' = data v"
  shows "table_inv (with_value r v' s)" "objs (with_value r v' s) = (objs s)(r \<mapsto> v')"
proof -
  obtain a where a: "address s r = a" "a \<noteq> 0" "store s a = Some v" using objsE [OF assms(1,2)] by metis
  have "a \<in> set (ref_table s) - {0}" using address_in a(1,2) by metis
  then have inv: "pool_inv (with_value r v' s) (set (ref_table s) - {0})"
    using assms(1,3,4) a pool_inv_update [of s "set (ref_table s) - {0}" a v v'] by (simp add: table_inv_def with_value_def)
  show o: "objs (with_value r v' s) = (objs s)(r \<mapsto> v')"
  proof
    fix q
    have "address s q \<noteq> a" if "q \<noteq> r" using that assms(1) a unfolding table_inv_def by metis
    then show "objs (with_value r v' s) q = ((objs s)(r \<mapsto> v')) q"
      using a by (auto simp: objs_def) (auto simp: with_value_def)
  qed
  have "payload_bytes (data v') \<le> value_size v'" using assms(3,5) table_inv_fits [OF assms(1,2)] by auto
  then show "table_inv (with_value r v' s)" using inv assms(1) unfolding table_inv_def o by simp
qed

lemma incref_run:
  assumes "table_inv s" "objs s r = Some v"
  shows "incref r s = (Inr (), with_value r (v\<lparr>ref_count := ref_count v + 1\<rparr>) s)"
proof -
  obtain a where "deref r s = (Inr a, s)" "store s a = Some v" "address s r = a" using objsE [OF assms] by metis
  then show ?thesis by (simp add: incref_def bnd_Inr update_value_Some with_value_def)
qed

lemma set_data_run:
  assumes "table_inv s" "objs s r = Some v" "payload_bytes d \<le> value_size v"
  shows "set_data r d s = (Inr (), with_value r (v\<lparr>data := d\<rparr>) s)"
proof -
  obtain a where "deref r s = (Inr a, s)" "store s a = Some v" "address s r = a" using objsE [OF assms(1,2)] by metis
  then show ?thesis using assms(3) by (simp add: set_data_def bnd_Inr write_data_Some with_value_def)
qed

section \<open>Releasing a value\<close>

definition without :: "reference_t \<Rightarrow> py_state \<Rightarrow> py_state" where
  "without r s = freed (address s r) (s\<lparr>ref_table := (ref_table s)[nat r := 0]\<rparr>)"

lemma without_fields [simp]:
  "ctx (without r s) = ctx s" "exc_type (without r s) = exc_type s" "global_vars (without r s) = global_vars s"
  "length (ref_table (without r s)) = length (ref_table s)"
  by (simp_all add: without_def freed_def ctx_def)

lemma without_run:
  assumes "table_inv s" "objs s r = Some v"
  shows "seq (clear_slot r) (mm_free_pool (address s r)) s = (Inr (), without r s)"
    "table_inv (without r s)" "objs (without r s) = (objs s)(r := None)"
proof -
  obtain a where a: "address s r = a" "a \<noteq> 0" "store s a = Some v" "0 \<le> r" "nat r < length (ref_table s)"
    using objsE [OF assms] by metis
  let ?s = "s\<lparr>ref_table := (ref_table s)[nat r := 0]\<rparr>"
  have adr: "address ?s q = (if q = r then 0 else address s q)" for q
    using a by (auto simp: address_def nth_list_update)
  have inj: "\<And>q. address s q = a \<Longrightarrow> q = r" using assms(1) a unfolding table_inv_def by metis
  have inv: "pool_inv ?s (set (ref_table s) - {0})"
    using assms(1) pool_inv_cong [of ?s s] by (simp add: table_inv_def)
  have mem: "a \<in> set (ref_table s) - {0}" using address_in a(1,2) by metis
  note f = pool_inv_free [OF inv mem]
  show "seq (clear_slot r) (mm_free_pool (address s r)) s = (Inr (), without r s)"
    using f(1) a(1) by (simp add: seq_Inr clear_slot_def without_def)
  have "set ((ref_table s)[nat r := 0]) - {0} = set (ref_table s) - {0} - {a}"
  proof -
    have "x \<noteq> a" if "i < length (ref_table s)" "i \<noteq> nat r" "ref_table s ! i = x" for i x
      using inj [of "int i"] that a by (auto simp: address_def)
    then show ?thesis
      using a by (auto simp: set_conv_nth nth_list_update address_def split: if_splits) metis+
  qed
  moreover have rt: "ref_table (freed a ?s) = (ref_table s)[nat r := 0]" by (simp add: freed_def)
  moreover have ad: "address (freed a ?s) q = address ?s q" for q by (simp add: address_def freed_def)
  ultimately have inv': "pool_inv (without r s) (set (ref_table (without r s)) - {0})" and
    adr': "\<And>q. address (without r s) q = (if q = r then 0 else address s q)"
    using f(2) a(1) unfolding without_def by (simp_all add: adr)
  show o: "objs (without r s) = (objs s)(r := None)"
  proof
    fix q
    have "address s q \<noteq> a" if "q \<noteq> r" using that inj by blast
    then show "objs (without r s) q = ((objs s)(r := None)) q"
      unfolding without_def a(1) objs_def ad adr by (auto simp: freed_def)
  qed
  show "table_inv (without r s)" using inv' assms(1) unfolding table_inv_def adr' o by simp
qed

section \<open>New values\<close>

lemma free_slot_Some: "free_slot xs = Some i \<Longrightarrow> i < length xs \<and> xs ! i = 0"
  by (induction xs arbitrary: i) (auto split: if_splits)

lemma free_slot_None: "free_slot xs = None \<Longrightarrow> 0 \<notin> set xs"
  by (induction xs) (auto split: if_splits)

lemma set_update_zero: "i < length xs \<Longrightarrow> xs ! i = 0 \<Longrightarrow> p \<noteq> 0 \<Longrightarrow> set (xs[i := p]) - {0} = insert p (set xs - {0 :: nat})"
proof -
  assume i: "i < length xs" "xs ! i = 0" "p \<noteq> 0"
  then have "xs = take i xs @ 0 # drop (Suc i) xs" by (metis id_take_nth_drop)
  then have "set xs - {0} = set (take i xs) \<union> set (drop (Suc i) xs) - {0}" by (metis (no_types, lifting) Diff_insert_absorb Un_insert_right insert_Diff_if list.set(2) set_append singletonI sup_bot.right_neutral)
  moreover have "set (xs[i := p]) = insert p (set (take i xs) \<union> set (drop (Suc i) xs))"
    using i(1) by (simp add: upd_conv_take_nth_drop)
  ultimately show ?thesis using i(3) by (simp add: insert_Diff_if)
qed

lemma assign_reference_run:
  assumes "p \<noteq> 0"
  obtains r s' where "assign_reference p s = (Inr r, s')" "0 \<le> r" "address s r = 0"
    "\<And>q. address s' q = (if q = r then p else address s q)"
    "set (ref_table s') - {0} = insert p (set (ref_table s) - {0})"
    "s' = s\<lparr>ref_table := ref_table s', max_refs := max_refs s'\<rparr>"
proof (cases "free_slot (ref_table s)")
  case None
  let ?s = "snd (assign_reference p s)" and ?r = "int (length (ref_table s))"
  show thesis
  proof (rule that [of ?r ?s])
    show "address ?s q = (if q = ?r then p else address s q)" for q
      using None by (auto simp: assign_reference_def address_def nth_append)
    show "set (ref_table ?s) - {0} = insert p (set (ref_table s) - {0})"
      using None free_slot_None [OF None] assms by (auto simp: assign_reference_def)
  qed (use None in \<open>simp_all add: assign_reference_def address_def\<close>)
next
  case (Some i)
  let ?s = "snd (assign_reference p s)" and ?r = "int i"
  note i = free_slot_Some [OF Some]
  show thesis
  proof (rule that [of ?r ?s])
    show "address ?s q = (if q = ?r then p else address s q)" for q
      using Some i by (auto simp: assign_reference_def address_def nth_list_update)
    show "set (ref_table ?s) - {0} = insert p (set (ref_table s) - {0})"
      using Some i assms by (simp add: assign_reference_def set_update_zero)
  qed (use Some i in \<open>simp_all add: assign_reference_def address_def\<close>)
qed

text \<open>Sizes for which rounding up does not wrap around.\<close>

definition size_fine :: "nat \<Rightarrow> bool" where
  "size_fine sz \<longleftrightarrow> 24 \<le> sz \<and> sz + 7 < 2 ^ 64"

lemma rounded_size: "size_fine sz \<Longrightarrow> sz \<le> (sz + ALIGNMENT_py - 1) mod 2 ^ 64 div ALIGNMENT_py * ALIGNMENT_py"
  by (simp add: ALIGNMENT_py_def size_fine_def)

lemma make_ref_cases:
  assumes "table_inv s" "size_fine sz" "t \<noteq> VAL_FREE"
  obtains (full) m where "make_ref t sz s = (Inr NULL_REF, raised EXC_MEMORY_ERROR m s)"
  | (fits) r s' v where "make_ref t sz s = (Inr r, s')" "table_inv s'" "objs s r = None" "objs s' = (objs s)(r \<mapsto> v)"
      "vtype v = t" "ref_count v = 1" "ctx s' = ctx s" "exc_type s' = exc_type s" "0 \<le> r"
      "\<And>q. q \<noteq> r \<Longrightarrow> address s' q = address s q" "sz \<le> value_size v"
proof -
  let ?L = "set (ref_table s) - {0}" and ?sz = "(sz + ALIGNMENT_py - 1) mod 2 ^ 64 div ALIGNMENT_py * ALIGNMENT_py"
  have inv: "pool_inv s ?L" using assms(1) by (simp add: table_inv_def)
  have size: "24 \<le> ?sz" using assms(2) rounded_size [OF assms(2)] unfolding size_fine_def by linarith
  from inv size show thesis
  proof (cases rule: pool_inv_cases)
    case (full m)
    then show thesis by (intro that(1)) (simp add: make_ref_def bnd_Inr)
  next
    case (fits p s1 v1)
    let ?v = "v1\<lparr>vtype := t, ref_count := 1, data := Raw\<rparr>"
    let ?s = "s1\<lparr>store := (store s1)(p \<mapsto> ?v)\<rparr>"
    have rt: "ref_table s1 = ref_table s" "max_refs s1 = max_refs s" "memory_pool s1 = memory_pool s" "memory_size s1 = memory_size s" "ctx s1 = ctx s"
      "exc_type s1 = exc_type s"
      by (subst fits(8), simp add: ctx_def)+
    have adr: "address ?s q = address s q" for q by (simp add: address_def rt)
    obtain r s' where r: "assign_reference p ?s = (Inr r, s')" "0 \<le> r" "address ?s r = 0"
      "\<And>q. address s' q = (if q = r then p else address ?s q)"
      "set (ref_table s') - {0} = insert p (set (ref_table ?s) - {0})"
      "s' = ?s\<lparr>ref_table := ref_table s', max_refs := max_refs s'\<rparr>"
      by (rule assign_reference_run [OF fits(3), of ?s]) (rule that)
    have st: "store s' = (store s1)(p \<mapsto> ?v)" "free_list s' = free_list ?s" "memory_pool s' = memory_pool ?s" "memory_size s' = memory_size ?s"
      "ctx s' = ctx s1" "exc_type s' = exc_type s1"
      by (subst r(6), simp add: ctx_def)+
    have big: "24 \<le> value_size v1" using fits(7) size by linarith
    have run: "make_ref t sz s = (Inr r, s')"
      using fits(1,3,5,6) r(1) big by (simp add: make_ref_def bnd_Inr seq_Inr load_value_Some sizeof_value_t_def)
    have notin: "address s q \<noteq> p" for q
      using fits(2,3) address_in [of s q] by auto
    have "pool_inv s' (insert p ?L)"
      using fits(9) [of ?v] assms(3) st rt pool_inv_cong [of s' ?s] by simp
    moreover have adr': "address s' q = (if q = r then p else address s q)" for q using r(4) [of q] adr by simp
    have "set (ref_table s') - {0} = insert p ?L" using r(5) rt(1) by simp
    moreover have "q = q'" if "address s' q = address s' q'" "address s' q \<noteq> 0" for q q'
      using that notin [of q] notin [of q'] assms(1) unfolding adr' table_inv_def by (simp split: if_splits)
    moreover have o: "objs s' = (objs s)(r \<mapsto> ?v)"
    proof
      fix q
      have "store s1 (address s q) = store s (address s q)" if "address s q \<noteq> 0"
        using fits(10) address_in [OF that] by simp
      then show "objs s' q = ((objs s)(r \<mapsto> ?v)) q"
        using notin fits(3) unfolding objs_def r(4) adr st(1) by simp
    qed
    moreover have "payload_bytes (data v) \<le> value_size v" if v: "objs s' q = Some v" for q v
    proof (cases "q = r")
      case True
      then have "v = ?v" using v by (simp add: o)
      then show ?thesis using big by simp
    next
      case False
      then have "objs s q = Some v" using v by (simp add: o)
      then show ?thesis by (rule table_inv_fits [OF assms(1)])
    qed
    ultimately have "table_inv s'" unfolding table_inv_def by metis
    moreover have "objs s r = None" using r(3) adr by (simp add: objs_def)
    moreover have "sz \<le> value_size ?v" using fits(7) rounded_size [OF assms(2)] by simp
    ultimately show thesis using that(2) [OF run, of ?v] st rt r(2) adr' o by simp
  qed
qed

end
