(* ===== verification/Py_Count.thy ===== *)
theory Py_Count
  imports Py_Heap "HOL-Library.Multiset"
begin

text \<open>
  Reference counts (\<open>project05-kweng/refs.c\<close>): the count of a value is at least the number of references
  to it, from the roots and from the values in use.  Values that are being built or torn down are
  set apart (\<open>D\<close>): what they hold is counted with the roots.
\<close>

section \<open>What a value holds\<close>

definition held :: "value_t \<Rightarrow> reference_t list" where
  "held v = filter (\<lambda>r. 0 \<le> r)
     (case vtype v of
        VAL_LIST \<Rightarrow> (case data v of List_value n r \<Rightarrow> [r] | _ \<Rightarrow> [])
      | VAL_DICT \<Rightarrow> (case data v of Dict_value n o' k vs \<Rightarrow> [k, vs] | _ \<Rightarrow> [])
      | VAL_REF_ARRAY \<Rightarrow> (case data v of Ref_array_value rs \<Rightarrow> rs | _ \<Rightarrow> [])
      | _ \<Rightarrow> [])"

type_synonym heap = "reference_t \<Rightarrow> value_t option"

definition rc :: "heap \<Rightarrow> reference_t \<Rightarrow> nat" where
  "rc H r = (case H r of None \<Rightarrow> 0 | Some v \<Rightarrow> ref_count v)"

definition user_types :: "value_type_t set" where
  "user_types = {VAL_NONE, VAL_BOOL, VAL_INTEGER, VAL_STRING, VAL_LIST}"

definition user :: "heap \<Rightarrow> reference_t \<Rightarrow> bool" where
  "user H r \<longleftrightarrow> (\<exists>v. H r = Some v \<and> vtype v \<in> user_types)"

definition elements_of :: "heap \<Rightarrow> reference_t \<Rightarrow> reference_t list option" where
  "elements_of H a = (case H a of None \<Rightarrow> None
     | Some v \<Rightarrow> if vtype v = VAL_REF_ARRAY then (case data v of Ref_array_value rs \<Rightarrow> Some rs | _ \<Rightarrow> None) else None)"

fun wf_payload :: "heap \<Rightarrow> value_type_t \<Rightarrow> payload \<Rightarrow> bool" where
  "wf_payload H VAL_NONE d = True"
| "wf_payload H VAL_BOOL d = True"
| "wf_payload H VAL_INTEGER (Integer_value i) = True"
| "wf_payload H VAL_STRING (String_value t) = True"
| "wf_payload H VAL_LIST (List_value n a) = (0 \<le> n \<and> 0 \<le> a \<and> rc H a = 1 \<and>
     (case elements_of H a of None \<Rightarrow> False | Some rs \<Rightarrow> n \<le> int (length rs) \<and> (\<forall>i < nat n. 0 \<le> rs ! i)))"
| "wf_payload H VAL_REF_ARRAY (Ref_array_value rs) = (\<forall>r \<in> set rs. r = NULL_REF \<or> 0 \<le> r \<and> user H r)"
| "wf_payload H _ _ = False"

definition wf_value :: "heap \<Rightarrow> value_t \<Rightarrow> bool" where
  "wf_value H v \<longleftrightarrow> wf_payload H (vtype v) (data v)"

definition pointed :: "heap \<Rightarrow> reference_t set \<Rightarrow> reference_t multiset" where
  "pointed H D = (\<Sum>q \<in> dom H - D. mset (held (the (H q))))"

definition hinv :: "heap \<Rightarrow> reference_t set \<Rightarrow> reference_t multiset \<Rightarrow> bool" where
  "hinv H D R \<longleftrightarrow> finite (dom H) \<and> D \<subseteq> dom H \<and>
     (\<forall>r. count (R + pointed H D) r \<le> rc H r) \<and>
     (\<forall>q v. H q = Some v \<longrightarrow> q \<notin> D \<longrightarrow> wf_value H v)"

lemma held_ref_count [simp]: "held (v\<lparr>ref_count := n\<rparr>) = held v"
  by (cases "vtype v") (simp_all add: held_def)

lemma rc_upd [simp]: "rc (H(q \<mapsto> v)) r = (if r = q then ref_count v else rc H r)"
  by (simp add: rc_def)

lemma rc_del [simp]: "rc (H(q := None)) r = (if r = q then 0 else rc H r)"
  by (simp add: rc_def)

lemma rc_Some: "H r = Some v \<Longrightarrow> rc H r = ref_count v"
  by (simp add: rc_def)

lemma rc_pos: "0 < rc H r \<Longrightarrow> \<exists>v. H r = Some v"
  by (simp add: rc_def split: option.splits)

lemma pointed_open:
  assumes "finite (dom H)" "H q = Some v" "q \<notin> D"
  shows "pointed H D = pointed H (insert q D) + mset (held v)"
proof -
  define M where "M = dom H - insert q D"
  have "dom H - D = insert q M" using assms(2,3) by (auto simp: M_def)
  moreover have "finite M" "q \<notin> M" using assms(1) by (simp_all add: M_def)
  ultimately show ?thesis
    using assms(2) by (simp add: pointed_def M_def [symmetric] add.commute)
qed

lemma pointed_upd_in: "q \<in> D \<Longrightarrow> pointed (H(q := x)) D = pointed H D"
  unfolding pointed_def by (rule sum.cong) (auto simp: domIff)

lemma pointed_gone: "H q = None \<Longrightarrow> pointed H (insert q D) = pointed H D"
  unfolding pointed_def by (rule sum.cong) (auto simp: domIff)

lemma pointed_same:
  "H q = Some v \<Longrightarrow> held v' = held v \<Longrightarrow> pointed (H(q \<mapsto> v')) D = pointed H D"
  unfolding pointed_def by (rule sum.cong) (auto simp: domIff)

lemma pointed_held:
  assumes "finite (dom H)" "H q = Some v" "q \<notin> D" "r \<in> set (held v)"
  shows "0 < count (pointed H D) r"
proof -
  have "0 < count (mset (held v)) r" using assms(4) by simp
  then show ?thesis by (simp only: pointed_open [OF assms(1-3)] count_union)
qed

lemma elements_of_upd: "elements_of (H(q := x)) a = (if a = q then elements_of (\<lambda>_. x) q else elements_of H a)"
  by (simp add: elements_of_def)

lemma wf_listE:
  assumes "wf_value H v" "vtype v = VAL_LIST"
  obtains n a rs where "data v = List_value (int n) a" "held v = [a]" "0 \<le> a" "rc H a = 1" "elements_of H a = Some rs"
    "n \<le> length rs" "\<And>i. i < n \<Longrightarrow> 0 \<le> rs ! i"
proof -
  obtain m a rs where m: "data v = List_value m a" "0 \<le> m" "0 \<le> a" "rc H a = 1" "elements_of H a = Some rs" "m \<le> int (length rs)"
    "\<forall>i < nat m. 0 \<le> rs ! i"
    using assms by (cases "data v") (auto simp: wf_value_def split: option.splits)
  show thesis
  proof (rule that [of "nat m" a rs])
    show "data v = List_value (int (nat m)) a" "nat m \<le> length rs" "\<And>i. i < nat m \<Longrightarrow> 0 \<le> rs ! i"
      using m by auto
    show "held v = [a]" using m assms(2) by (simp add: held_def)
  qed (use m in simp_all)
qed

lemma wf_arrayE:
  assumes "wf_value H v" "vtype v = VAL_REF_ARRAY"
  obtains rs where "data v = Ref_array_value rs" "held v = filter (\<lambda>r. 0 \<le> r) rs"
    "\<And>r. r \<in> set rs \<Longrightarrow> r = NULL_REF \<or> 0 \<le> r \<and> user H r"
  using assms by (cases "data v") (auto simp: wf_value_def held_def)

lemma held_user: "wf_value H v \<Longrightarrow> vtype v = VAL_REF_ARRAY \<Longrightarrow> r \<in> set (held v) \<Longrightarrow> user H r"
  by (erule wf_arrayE, assumption) (fastforce simp: NULL_REF_def)

lemma wf_value_ref_count [simp]: "wf_value H (v\<lparr>ref_count := n\<rparr>) = wf_value H v"
  by (simp add: wf_value_def)

lemma wf_value_types: "wf_value H v \<Longrightarrow> vtype v \<noteq> VAL_DICT \<and> vtype v \<noteq> VAL_FREE"
  by (auto simp: wf_value_def)

text \<open>A value stays well-formed when another one changes, unless it is a list and the other its array.\<close>

lemma user_upd: "user H r \<Longrightarrow> (r = q \<Longrightarrow> \<exists>w'. x = Some w' \<and> vtype w' \<in> user_types) \<Longrightarrow> user (H(q := x)) r"
  by (auto simp: user_def)

lemma wf_value_upd:
  assumes "wf_value H v" "vtype v = VAL_LIST \<Longrightarrow> q \<notin> set (held v)"
    "vtype v = VAL_REF_ARRAY \<Longrightarrow> q \<in> set (held v) \<Longrightarrow> \<exists>w'. x = Some w' \<and> vtype w' \<in> user_types"
  shows "wf_value (H(q := x)) v"
proof (cases "vtype v")
  case VAL_LIST
  obtain n a rs where "data v = List_value (int n) a" "held v = [a]" "0 \<le> a" "rc H a = 1" "elements_of H a = Some rs"
    "n \<le> length rs" "\<And>i. i < n \<Longrightarrow> 0 \<le> rs ! i" using wf_listE [OF assms(1) VAL_LIST] by blast
  moreover have "a \<noteq> q" using assms(2) VAL_LIST calculation(2) by auto
  moreover have "rc (H(q := x)) a = rc H a" using calculation by (simp add: rc_def)
  ultimately show ?thesis using VAL_LIST by (simp add: wf_value_def elements_of_upd)
next
  case VAL_REF_ARRAY
  obtain rs where rs: "data v = Ref_array_value rs" "held v = filter (\<lambda>r. 0 \<le> r) rs"
    "\<And>r. r \<in> set rs \<Longrightarrow> r = NULL_REF \<or> 0 \<le> r \<and> user H r" using wf_arrayE [OF assms(1) VAL_REF_ARRAY] by blast
  have "r = NULL_REF \<or> 0 \<le> r \<and> user (H(q := x)) r" if "r \<in> set rs" for r
    using rs(3) [OF that] assms(3) [OF VAL_REF_ARRAY] rs(2) that by (auto intro!: user_upd)
  then show ?thesis using VAL_REF_ARRAY rs(1) by (simp add: wf_value_def)
qed (use assms(1) in \<open>auto simp: wf_value_def elim: wf_payload.elims\<close>)

section \<open>Steps that keep the counts\<close>

lemma hinv_count: "hinv H D R \<Longrightarrow> count R r + count (pointed H D) r \<le> rc H r"
  by (simp add: hinv_def)

lemma hinv_mono: "hinv H D R \<Longrightarrow> R' \<subseteq># R \<Longrightarrow> hinv H D R'"
  unfolding hinv_def by (metis count_union add_le_mono1 mset_subset_eq_count order_trans)

lemma hinv_root: "hinv H D R \<Longrightarrow> r \<in># R \<Longrightarrow> \<exists>v. H r = Some v \<and> 0 < ref_count v"
  using hinv_count [of H D R r] rc_pos [of H r] by (auto simp: rc_Some) (metis add_is_0 count_greater_zero_iff gr0I le_zero_eq neq0_conv rc_Some)

lemma hinv_wf: "hinv H D R \<Longrightarrow> H q = Some v \<Longrightarrow> q \<notin> D \<Longrightarrow> wf_value H v"
  by (simp add: hinv_def)

lemma hinv_finite: "hinv H D R \<Longrightarrow> finite (dom H)"
  by (simp add: hinv_def)

text \<open>The array of a list has no other reference to it.\<close>

lemma hinv_array_private:
  assumes "hinv H D R" "H q = Some v" "q \<notin> D" "vtype v = VAL_LIST" "a \<in> set (held v)"
  shows "a \<notin># R" "rc H a = 1"
proof -
  obtain n b rs where "held v = [b]" "rc H b = 1" using wf_listE [OF hinv_wf [OF assms(1-3)] assms(4)] by metis
  then show "rc H a = 1" using assms(5) by simp
  moreover have "0 < count (pointed H D) a" using pointed_held assms hinv_finite by metis
  ultimately have "count R a = 0" using hinv_count [OF assms(1), of a] by linarith
  then show "a \<notin># R" by (simp add: count_eq_zero_iff)
qed

lemma hinv_keep_wf:
  assumes "hinv H D R" "H q = Some v" "q \<notin> D" "r \<in># R \<or> rc H r \<noteq> 1"
    "vtype v = VAL_REF_ARRAY \<Longrightarrow> r \<in> set (held v) \<Longrightarrow> \<exists>w'. x = Some w' \<and> vtype w' \<in> user_types"
  shows "wf_value (H(r := x)) v"
  using hinv_wf [OF assms(1-3)]
proof (rule wf_value_upd)
  show "r \<notin> set (held v)" if "vtype v = VAL_LIST"
    using hinv_array_private [OF assms(1-3) that, of r] assms(4) by blast
qed (rule assms(5))

lemma hinv_type_kept:
  assumes "hinv H D R" "H q = Some v" "q \<notin> D" "r \<in># R \<or> rc H r \<noteq> 1" "H r = Some w" "vtype w' = vtype w"
  shows "wf_value (H(r \<mapsto> w')) v"
proof (rule hinv_keep_wf [OF assms(1-4)])
  assume "vtype v = VAL_REF_ARRAY" "r \<in> set (held v)"
  then show "\<exists>u. Some w' = Some u \<and> vtype u \<in> user_types"
    using held_user [OF hinv_wf [OF assms(1-3)], of r] assms(5,6) by (simp add: user_def)
qed

lemma recountE:
  assumes "(H(r \<mapsto> v\<lparr>ref_count := k\<rparr>)) q = Some w" "H r = Some v"
  obtains w0 n where "H q = Some w0" "w = w0\<lparr>ref_count := n\<rparr>"
proof (cases "q = r")
  case True
  then show thesis using assms by (intro that [of v k]) auto
next
  case False
  then show thesis using assms by (intro that [of w "ref_count w"]) auto
qed

lemma hinvI:
  assumes "finite (dom H)" "D \<subseteq> dom H" "\<And>r. count R r + count (pointed H D) r \<le> rc H r"
    "\<And>q v. H q = Some v \<Longrightarrow> q \<notin> D \<Longrightarrow> wf_value H v"
  shows "hinv H D R"
  using assms by (simp add: hinv_def)

lemma hinv_incref:
  assumes "hinv H D R" "H r = Some v" "user H r"
  shows "hinv (H(r \<mapsto> v\<lparr>ref_count := ref_count v + 1\<rparr>)) D (add_mset r R)"
proof (rule hinvI)
  let ?v = "v\<lparr>ref_count := ref_count v + 1\<rparr>"
  have p: "pointed (H(r \<mapsto> ?v)) D = pointed H D" using assms(2) by (rule pointed_same) simp
  show "wf_value (H(r \<mapsto> ?v)) w" if w: "(H(r \<mapsto> ?v)) q = Some w" "q \<notin> D" for q w
  proof -
    obtain w0 n where w0: "H q = Some w0" "w = w0\<lparr>ref_count := n\<rparr>" using recountE [OF w(1) assms(2)] .
    have "wf_value (H(r \<mapsto> ?v)) w0"
    proof (rule wf_value_upd [OF hinv_wf [OF assms(1) w0(1) that(2)]])
      show "r \<notin> set (held w0)" if l: "vtype w0 = VAL_LIST"
      proof
        assume "r \<in> set (held w0)"
        moreover obtain n a rs where "held w0 = [a]" "elements_of H a = Some rs"
          using wf_listE [OF hinv_wf [OF assms(1) w0(1) \<open>q \<notin> D\<close>] l] by metis
        ultimately show False using assms(3) by (auto simp: elements_of_def user_def user_types_def split: if_splits)
      qed
      show "\<exists>w'. Some ?v = Some w' \<and> vtype w' \<in> user_types" if "vtype w0 = VAL_REF_ARRAY" "r \<in> set (held w0)"
        using assms(2,3) by (auto simp: user_def)
    qed
    then show ?thesis using w0 by simp
  qed
  show "count (add_mset r R) q + count (pointed (H(r \<mapsto> ?v)) D) q \<le> rc (H(r \<mapsto> ?v)) q" for q
    using hinv_count [OF assms(1), of q] assms(2) by (cases "q = r") (simp_all add: p rc_def del: add_Suc_right One_nat_def)
qed (use assms in \<open>auto simp: hinv_def\<close>)

lemma hinv_decref:
  assumes "hinv H D (add_mset r R)" "H r = Some v" "2 \<le> ref_count v"
  shows "hinv (H(r \<mapsto> v\<lparr>ref_count := ref_count v - 1\<rparr>)) D R"
proof (rule hinvI)
  let ?v = "v\<lparr>ref_count := ref_count v - 1\<rparr>"
  let ?H = "H(r \<mapsto> ?v)"
  have p: "pointed ?H D = pointed H D" using assms(2) by (rule pointed_same) simp
  show "count R q + count (pointed ?H D) q \<le> rc ?H q" for q
    using hinv_count [OF assms(1), of q] assms(2) by (cases "q = r") (simp_all add: p rc_def del: One_nat_def)
  show "wf_value ?H w" if w: "?H q = Some w" "q \<notin> D" for q w
  proof -
    obtain w0 n where w0: "H q = Some w0" "w = w0\<lparr>ref_count := n\<rparr>" using recountE [OF w(1) assms(2)] .
    have "wf_value ?H w0"
      using assms(2,3) by (intro hinv_type_kept [OF assms(1) w0(1) that(2)]) (simp_all add: rc_def)
    then show ?thesis using w0(2) by simp
  qed
qed (use assms in \<open>auto simp: hinv_def\<close>)

text \<open>The last reference is dropped: the value is set apart, and what it holds is released next.\<close>

lemma hinv_die:
  assumes "hinv H D (add_mset r R)" "H r = Some v" "ref_count v = 1" "r \<notin> D"
  shows "hinv (H(r \<mapsto> v\<lparr>ref_count := 0\<rparr>)) (insert r D) (R + mset (held v))"
proof (rule hinvI)
  let ?H = "H(r \<mapsto> v\<lparr>ref_count := 0\<rparr>)"
  have fin: "finite (dom H)" using assms(1) by (rule hinv_finite)
  have p: "pointed ?H (insert r D) + mset (held v) = pointed H D"
    using pointed_open [OF fin assms(2,4)] by (simp add: pointed_upd_in)
  show "count (R + mset (held v)) q + count (pointed ?H (insert r D)) q \<le> rc ?H q" for q
  proof -
    have "count (R + mset (held v)) q + count (pointed ?H (insert r D)) q = count R q + count (pointed H D) q"
      by (simp add: p [symmetric])
    then show ?thesis using hinv_count [OF assms(1), of q] assms(2,3) by (cases "q = r") (simp_all add: rc_def)
  qed
  show "wf_value ?H w" if "?H q = Some w" "q \<notin> insert r D" for q w
  proof -
    have q: "H q = Some w" "q \<notin> D" using that by auto
    show ?thesis
      using assms(2) by (intro hinv_type_kept [OF assms(1) q]) simp_all
  qed
qed (use assms in \<open>auto simp: hinv_def\<close>)

lemma hinv_free:
  assumes "hinv H (insert r D) R" "rc H r = 0" "r \<notin> D"
  shows "hinv (H(r := None)) D R"
proof (rule hinvI)
  let ?H = "H(r := None)"
  have "r \<in> dom H" and fin: "finite (dom H)" using assms(1) by (auto simp: hinv_def)
  then obtain v where v: "H r = Some v" by auto
  have p: "pointed ?H D = pointed H (insert r D)"
    using pointed_gone [of ?H r D] by (simp add: pointed_upd_in)
  show "count R q + count (pointed ?H D) q \<le> rc ?H q" for q
    using hinv_count [OF assms(1), of q] assms(2) by (cases "q = r") (simp_all add: p)
  show "wf_value ?H w" if "?H q = Some w" "q \<notin> D" for q w
  proof -
    have q: "H q = Some w" "q \<notin> insert r D" using that by (auto split: if_splits)
    have "count (pointed H (insert r D)) r = 0" using hinv_count [OF assms(1), of r] assms(2) by simp
    then have "r \<notin> set (held w)" using pointed_held [OF fin q] by (metis less_irrefl)
    then show ?thesis using assms(2) by (intro hinv_keep_wf [OF assms(1) q]) simp_all
  qed
qed (use assms in \<open>auto simp: hinv_def\<close>)

lemma hinv_new:
  assumes "hinv H D R" "H r = None" "ref_count v = 1"
  shows "hinv (H(r \<mapsto> v)) (insert r D) (add_mset r R)"
proof (rule hinvI)
  let ?H = "H(r \<mapsto> v)"
  have p: "pointed ?H (insert r D) = pointed H D"
    using assms(2) by (simp add: pointed_upd_in pointed_gone)
  show "count (add_mset r R) q + count (pointed ?H (insert r D)) q \<le> rc ?H q" for q
    using hinv_count [OF assms(1), of q] assms(2,3) by (cases "q = r") (simp_all add: p rc_def)
  show "wf_value ?H w" if "?H q = Some w" "q \<notin> insert r D" for q w
  proof -
    have q: "H q = Some w" "q \<notin> D" using that by (auto split: if_splits)
    have "rc H r = 0" using assms(2) by (simp add: rc_def)
    then have "count (pointed H D) r = 0" using hinv_count [OF assms(1), of r] by simp
    then have "r \<notin> set (held w)" using pointed_held [OF hinv_finite [OF assms(1)] q] by (metis less_irrefl)
    then show ?thesis using \<open>rc H r = 0\<close> by (intro hinv_keep_wf [OF assms(1) q]) simp_all
  qed
qed (use assms in \<open>auto simp: hinv_def\<close>)

lemma hinv_upd:
  assumes "hinv H D R" "q \<in> D" "H q = Some v" "ref_count v' = ref_count v" "vtype v' = vtype v" "q \<in># R"
  shows "hinv (H(q \<mapsto> v')) D R"
proof (rule hinvI)
  let ?H = "H(q \<mapsto> v')"
  have p: "pointed ?H D = pointed H D" using assms(2) by (rule pointed_upd_in)
  show "count R r + count (pointed ?H D) r \<le> rc ?H r" for r
    using hinv_count [OF assms(1), of r] assms(3,4) by (cases "r = q") (simp_all add: p rc_def)
  show "wf_value ?H w" if "?H r = Some w" "r \<notin> D" for r w
  proof -
    have r: "H r = Some w" using that assms(2) by (auto split: if_splits)
    show ?thesis
      using assms(3,5,6) by (intro hinv_type_kept [OF assms(1) r that(2)]) simp_all
  qed
qed (use assms in \<open>auto simp: hinv_def\<close>)

lemma hinv_open:
  assumes "hinv H D R" "H q = Some v" "q \<notin> D"
  shows "hinv H (insert q D) (R + mset (held v))"
proof (rule hinvI)
  show "count (R + mset (held v)) r + count (pointed H (insert q D)) r \<le> rc H r" for r
    using hinv_count [OF assms(1), of r] pointed_open [OF hinv_finite [OF assms(1)] assms(2,3)] by simp
qed (use assms in \<open>auto simp: hinv_def\<close>)

lemma hinv_close:
  assumes "hinv H (insert q D) (R + mset (held v))" "H q = Some v" "q \<notin> D" "wf_value H v"
  shows "hinv H D R"
proof (rule hinvI)
  show "count R r + count (pointed H D) r \<le> rc H r" for r
    using hinv_count [OF assms(1), of r] pointed_open [OF hinv_finite [OF assms(1)] assms(2,3)] by simp
  show "wf_value H w" if "H r = Some w" "r \<notin> D" for r w
    using that assms(2,4) hinv_wf [OF assms(1) that(1)] by (cases "r = q") simp_all
qed (use assms in \<open>auto simp: hinv_def\<close>)

end
