(* ===== verification/Py_Decref.thy ===== *)
theory Py_Decref
  imports Py_Count
begin

text \<open>
  Releasing references (\<open>decref\<close> of \<open>project05-kweng/refs.c\<close>): the cascade of releases ends within the bound, finds
  every reference it follows in the table, and leaves the counts right.
\<close>

section \<open>What releasing may change\<close>

definition shrunk :: "py_state \<Rightarrow> py_state \<Rightarrow> bool" where
  "shrunk s s' \<longleftrightarrow> ctx s' = ctx s \<and> exc_type s' = exc_type s \<and>
     (\<forall>q v'. objs s' q = Some v' \<longrightarrow> (\<exists>v. objs s q = Some v \<and> vtype v' = vtype v \<and> data v' = data v \<and> value_size v' = value_size v \<and>
        ref_count v' \<le> ref_count v)) \<and>
     (\<forall>q. address s' q = address s q \<or> address s' q = 0)"

definition pinned :: "heap \<Rightarrow> reference_t set \<Rightarrow> reference_t multiset \<Rightarrow> bool" where
  "pinned H D R \<longleftrightarrow> (\<forall>d \<in> D. rc H d = 0 \<or> d \<in># R)"

definition released :: "reference_t set \<Rightarrow> reference_t multiset \<Rightarrow> py_state \<Rightarrow> py_state \<Rightarrow> bool" where
  "released D R s s' \<longleftrightarrow> table_inv s' \<and> hinv (objs s') D R \<and> shrunk s s'"

lemma shrunk_refl [simp]: "shrunk s s"
  by (simp add: shrunk_def)

lemma shrunk_objs:
  assumes "shrunk s s'" "objs s' q = Some v'"
  obtains v where "objs s q = Some v" "vtype v' = vtype v" "data v' = data v" "value_size v' = value_size v" "ref_count v' \<le> ref_count v"
  using assms unfolding shrunk_def by blast

lemma shrunk_trans: "shrunk s t \<Longrightarrow> shrunk t u \<Longrightarrow> shrunk s u"
proof -
  assume st: "shrunk s t" "shrunk t u"
  have "\<exists>v. objs s q = Some v \<and> vtype w = vtype v \<and> data w = data v \<and> value_size w = value_size v \<and> ref_count w \<le> ref_count v"
    if w: "objs u q = Some w" for q w
  proof -
    obtain v where v: "objs t q = Some v" "vtype w = vtype v" "data w = data v" "value_size w = value_size v" "ref_count w \<le> ref_count v"
      using shrunk_objs [OF st(2) w] .
    with shrunk_objs [OF st(1) v(1)] show ?thesis by (metis order_trans)
  qed
  moreover have "address u q = address s q \<or> address u q = 0" for q using st unfolding shrunk_def by metis
  ultimately show ?thesis using st by (simp add: shrunk_def)
qed

lemma shrunk_rc: "shrunk s s' \<Longrightarrow> rc (objs s') q \<le> rc (objs s) q"
  by (cases "objs s' q") (auto simp: rc_def elim!: shrunk_objs)

lemma shrunk_dom: "shrunk s s' \<Longrightarrow> dom (objs s') \<subseteq> dom (objs s)"
  by (auto elim!: shrunk_objs)

lemma shrunk_card: "shrunk s s' \<Longrightarrow> card (dom (objs s') - D) \<le> card (dom (objs s) - D)"
  using shrunk_dom [of s s'] objs_finite [of s] by (intro card_mono) auto

lemma shrunk_pinned: "shrunk s s' \<Longrightarrow> pinned (objs s) D R \<Longrightarrow> pinned (objs s') D R"
  using shrunk_rc unfolding pinned_def by (metis le_zero_eq)

lemma shrunk_with_value:
  assumes "table_inv s" "objs s r = Some v" "n \<le> ref_count v"
  shows "shrunk s (with_value r (v\<lparr>ref_count := n\<rparr>) s)" "table_inv (with_value r (v\<lparr>ref_count := n\<rparr>) s)"
    "objs (with_value r (v\<lparr>ref_count := n\<rparr>) s) = (objs s)(r \<mapsto> v\<lparr>ref_count := n\<rparr>)"
proof -
  let ?v = "v\<lparr>ref_count := n\<rparr>"
  have "vtype v \<noteq> VAL_FREE" using objsE [OF assms(1,2)] by metis
  then show o: "objs (with_value r ?v s) = (objs s)(r \<mapsto> ?v)" and "table_inv (with_value r ?v s)"
    using with_value_ok [OF assms(1,2), of ?v] by simp_all
  show "shrunk s (with_value r ?v s)"
    unfolding shrunk_def o using assms(2,3) by auto
qed

lemma shrunk_without:
  assumes "table_inv s" "objs s r = Some v"
  shows "shrunk s (without r s)"
proof -
  have a: "0 \<le> r" "nat r < length (ref_table s)" using objsE [OF assms] by metis+
  have "address (without r s) q = address s q \<or> address (without r s) q = 0" for q
    using a by (auto simp: address_def without_def freed_def nth_list_update)
  then show ?thesis unfolding shrunk_def without_run(3) [OF assms] by auto
qed

section \<open>One step\<close>

lemma decref_at_null: "0 < n \<Longrightarrow> decref_at n NULL_REF s = (Inr (), s)"
  by (cases n) simp_all

lemma objs_not_null: "objs s r = Some v \<Longrightarrow> r \<noteq> NULL_REF \<and> r \<noteq> TOMBSTONE_REF"
  using objs_nonneg [of s r v] by (auto simp: NULL_REF_def TOMBSTONE_REF_def)

lemma decref_at_start:
  assumes "table_inv s" "objs s r = Some v" "0 < ref_count v"
  shows "decref_at (Suc n) r s = whenP (ref_count v = 1)
      (seq (recurse (address s r) (decref_at n)) (seq (clear_slot r) (mm_free_pool (address s r))))
      (with_value r (v\<lparr>ref_count := ref_count v - 1\<rparr>) s)"
proof -
  let ?v = "v\<lparr>ref_count := ref_count v - 1\<rparr>"
  obtain a where a: "address s r = a" "store s a = Some v" "deref r s = (Inr a, s)" using objsE [OF assms(1,2)] by metis
  have "store (with_value r ?v s) a = Some ?v" using a by (simp add: with_value_def)
  then have l: "load_value a (with_value r ?v s) = (Inr ?v, with_value r ?v s)" by (rule load_value_Some)
  have w: "store_value a ?v s = (Inr (), with_value r ?v s)" using a by (simp add: with_value_def)
  have z: "ref_count ?v = 0 \<longleftrightarrow> ref_count v = 1" using assms(3) by simp linarith
  show ?thesis
    using objs_not_null [OF assms(2)] assms(3) a l w z load_value_Some [OF a(2)]
    by (simp add: bnd_Inr seq_Inr del: store_value_apply One_nat_def)
qed

lemma decref_at_keep:
  assumes "table_inv s" "objs s r = Some v" "2 \<le> ref_count v"
  shows "decref_at (Suc n) r s = (Inr (), with_value r (v\<lparr>ref_count := ref_count v - 1\<rparr>) s)"
  using decref_at_start [OF assms(1,2), of n] assms(3) by (simp add: whenP_def)

lemma decref_at_last:
  assumes "table_inv s" "objs s r = Some v" "ref_count v = 1" "held_refs v = ret rs"
    and each: "each (decref_at n) rs (with_value r (v\<lparr>ref_count := 0\<rparr>) s) = (Inr (), s2)"
    and s2: "table_inv s2" "objs s2 r = Some v2" "address s2 r = address s r"
  shows "decref_at (Suc n) r s = (Inr (), without r s2)"
proof -
  let ?v = "v\<lparr>ref_count := 0\<rparr>"
  have v: "v\<lparr>ref_count := ref_count v - 1\<rparr> = ?v" using assms(3) by simp
  have "held_refs ?v = ret rs" using assms(4) by (cases "vtype v") (simp_all add: held_refs_def)
  moreover have "load_value (address s r) (with_value r ?v s) = (Inr ?v, with_value r ?v s)"
    by (rule load_value_Some) (simp add: with_value_def)
  ultimately have "recurse (address s r) (decref_at n) (with_value r ?v s) = (Inr (), s2)"
    using each by (simp add: recurse_def bnd_Inr)
  then show ?thesis
    using decref_at_start [OF assms(1,2), of n] assms(3) without_run(1) [OF s2(1,2)] s2(3)
    unfolding v by (simp add: seq_Inr)
qed

section \<open>The cascade\<close>

lemma wf_held_refs:
  assumes "wf_value H v"
  obtains rs where "held_refs v = ret rs" "held v = filter (\<lambda>r. 0 \<le> r) rs" "\<And>r. r \<in> set rs \<Longrightarrow> r = NULL_REF \<or> 0 \<le> r"
proof (cases "vtype v")
  case VAL_LIST
  obtain n a where "data v = List_value (int n) a" "held v = [a]" "0 \<le> a" using wf_listE [OF assms VAL_LIST] by metis
  then show thesis using VAL_LIST by (intro that [of "[a]"]) (auto simp: held_refs_def)
next
  case VAL_REF_ARRAY
  obtain rs where "data v = Ref_array_value rs" "held v = filter (\<lambda>r. 0 \<le> r) rs"
    "\<And>r. r \<in> set rs \<Longrightarrow> r = NULL_REF \<or> 0 \<le> r \<and> user H r" by (rule wf_arrayE [OF assms VAL_REF_ARRAY]) (rule that)
  then show thesis using VAL_REF_ARRAY by (intro that [of rs]) (auto simp: held_refs_def)
qed (use assms that [of "[]"] in \<open>auto simp: held_refs_def held_def wf_value_def\<close>)

text \<open>\<open>decref_at n\<close> is right while fewer than \<open>n\<close> values are left to release.\<close>

definition decref_good :: "nat \<Rightarrow> bool" where
  "decref_good n \<longleftrightarrow> (\<forall>s D R r. table_inv s \<longrightarrow> hinv (objs s) D (add_mset r R) \<longrightarrow> pinned (objs s) D R \<longrightarrow>
     card (dom (objs s) - D) < n \<longrightarrow> (\<exists>s'. decref_at n r s = (Inr (), s') \<and> released D R s s'))"

lemma decref_goodE:
  assumes "decref_good n" "table_inv s" "hinv (objs s) D (add_mset r R)" "pinned (objs s) D R" "card (dom (objs s) - D) < n"
  obtains s' where "decref_at n r s = (Inr (), s')" "released D R s s'"
  using assms unfolding decref_good_def by blast

lemma each_decref:
  assumes "decref_good n"
  shows "table_inv s \<Longrightarrow> hinv (objs s) D (R + mset (filter (\<lambda>r. 0 \<le> r) rs)) \<Longrightarrow> pinned (objs s) D R \<Longrightarrow>
    card (dom (objs s) - D) < n \<Longrightarrow> (\<And>r. r \<in> set rs \<Longrightarrow> r = NULL_REF \<or> 0 \<le> r) \<Longrightarrow>
    \<exists>s'. each (decref_at n) rs s = (Inr (), s') \<and> released D R s s'"
proof (induction rs arbitrary: s)
  case Nil
  then show ?case by (simp add: released_def)
next
  case (Cons r rs)
  show ?case
  proof (cases "0 \<le> r")
    case False
    then have "r = NULL_REF" using Cons.prems(5) [of r] by simp
    then have "decref_at n r s = (Inr (), s)" using Cons.prems(4) by (simp add: decref_at_null)
    moreover have "\<exists>s'. each (decref_at n) rs s = (Inr (), s') \<and> released D R s s'"
      using Cons.prems False by (intro Cons.IH) auto
    ultimately show ?thesis by (simp add: seq_Inr)
  next
    case True
    let ?R = "R + mset (filter (\<lambda>r. 0 \<le> r) rs)"
    have "hinv (objs s) D (add_mset r ?R)" using Cons.prems(2) True by simp
    moreover have "pinned (objs s) D ?R" using Cons.prems(3) by (auto simp: pinned_def)
    ultimately obtain s1 where s1: "decref_at n r s = (Inr (), s1)" "released D ?R s s1"
      using decref_goodE [OF assms Cons.prems(1) _ _ Cons.prems(4)] by metis
    then have sh: "shrunk s s1" "table_inv s1" "hinv (objs s1) D ?R" by (simp_all add: released_def)
    obtain s2 where "each (decref_at n) rs s1 = (Inr (), s2)" "released D R s1 s2"
      using Cons.IH [OF sh(2,3) shrunk_pinned [OF sh(1) Cons.prems(3)]] shrunk_card [OF sh(1), of D] Cons.prems(4,5) by auto
    then show ?thesis using s1 sh(1) by (auto simp: seq_Inr released_def intro: shrunk_trans)
  qed
qed

lemma dying_card:
  assumes "objs s r = Some v" "r \<notin> D" "card (dom (objs s) - D) < Suc n"
  shows "card (dom ((objs s)(r \<mapsto> w)) - insert r D) < n"
proof -
  have "dom ((objs s)(r \<mapsto> w)) - insert r D = dom (objs s) - D - {r}" using assms(1) by auto
  moreover have "r \<in> dom (objs s) - D" using assms(1,2) by auto
  ultimately show ?thesis
    using assms(3) card_Diff1_less [of "dom (objs s) - D" r] objs_finite [of s] by (simp del: card_Diff_insert)
qed

text \<open>The release of the last reference to a value whose members may be in any state.\<close>

lemma decref_dying:
  assumes good: "decref_good n" and s: "table_inv s" "objs s r = Some v" "ref_count v = 1" "r \<notin> D"
    and H: "hinv ((objs s)(r \<mapsto> v\<lparr>ref_count := 0\<rparr>)) (insert r D) (R + mset (held v))"
    and held: "held_refs v = ret rs" "held v = filter (\<lambda>r. 0 \<le> r) rs" "\<And>r. r \<in> set rs \<Longrightarrow> r = NULL_REF \<or> 0 \<le> r"
    and D: "pinned (objs s) D R" "card (dom (objs s) - D) < Suc n"
  shows "\<exists>s'. decref_at (Suc n) r s = (Inr (), s') \<and> released D R s s'"
proof -
  let ?v = "v\<lparr>ref_count := 0\<rparr>"
  let ?s = "with_value r ?v s"
  note w = shrunk_with_value [OF s(1,2), of 0, simplified]
  have p1: "pinned (objs ?s) (insert r D) R" using D(1) s(4) unfolding w(3) by (auto simp: pinned_def)
  have c1: "card (dom (objs ?s) - insert r D) < n" unfolding w(3) using s(2,4) D(2) by (rule dying_card)
  obtain s2 where s2: "each (decref_at n) rs ?s = (Inr (), s2)" "released (insert r D) R ?s s2"
    using each_decref [OF good w(2) _ p1 c1 held(3)] H held(2) w(3) by metis
  then have t2: "table_inv s2" "hinv (objs s2) (insert r D) R" "shrunk ?s s2" by (simp_all add: released_def)
  then obtain v2 where v2: "objs s2 r = Some v2" by (auto simp: hinv_def)
  obtain a where "address s2 r = a" "a \<noteq> 0" using objsE [OF t2(1) v2] by metis
  then have "address s2 r = address s r" using t2(3) by (auto simp: shrunk_def)
  then have run: "decref_at (Suc n) r s = (Inr (), without r s2)"
    by (rule decref_at_last [OF s(1-3) held(1) s2(1) t2(1) v2])
  have "rc (objs s2) r = 0" using shrunk_rc [OF t2(3), of r] w(3) by simp
  then have "hinv (objs (without r s2)) D R"
    using hinv_free [OF t2(2) _ s(4)] without_run(3) [OF t2(1) v2] by simp
  then have "released D R s (without r s2)"
    using without_run(2) [OF t2(1) v2] shrunk_trans [OF shrunk_trans [OF w(1) t2(3)] shrunk_without [OF t2(1) v2]]
    by (simp add: released_def)
  with run show ?thesis by blast
qed

lemma decref_good_all: "decref_good n"
proof (induction n)
  case 0
  then show ?case by (simp add: decref_good_def)
next
  case (Suc n)
  show ?case
    unfolding decref_good_def
  proof (intro allI impI)
    fix s D R r
    assume s: "table_inv s" and H: "hinv (objs s) D (add_mset r R)" and D: "pinned (objs s) D R"
      "card (dom (objs s) - D) < Suc n"
    obtain v where v: "objs s r = Some v" "0 < ref_count v" using hinv_root [OF H, of r] by auto
    show "\<exists>s'. decref_at (Suc n) r s = (Inr (), s') \<and> released D R s s'"
    proof (cases "ref_count v = 1")
      case False
      then have "2 \<le> ref_count v" using v(2) by linarith
      then show ?thesis
        using decref_at_keep [OF s v(1)] hinv_decref [OF H v(1)] shrunk_with_value [OF s v(1), of "ref_count v - 1"]
        by (simp add: released_def)
    next
      case True
      have "r \<notin> D"
      proof
        assume "r \<in> D"
        then have "r \<in># R" using D(1) v True by (auto simp: pinned_def rc_def)
        then show False using hinv_count [OF H, of r] v(1) True by (simp add: rc_def count_eq_zero_iff)
      qed
      moreover obtain rs where "held_refs v = ret rs" "held v = filter (\<lambda>r. 0 \<le> r) rs"
        "\<And>r. r \<in> set rs \<Longrightarrow> r = NULL_REF \<or> 0 \<le> r"
        using wf_held_refs [OF hinv_wf [OF H v(1) calculation]] by metis
      ultimately show ?thesis
        using decref_dying [OF Suc.IH s v(1) True _ hinv_die [OF H v(1) True] _ _ _ D] by metis
    qed
  qed
qed

lemma decref_run:
  assumes "table_inv s" "hinv (objs s) D (add_mset r R)" "pinned (objs s) D R"
  obtains s' where "decref r s = (Inr (), s')" "released D R s s'"
proof -
  have "card (dom (objs s) - D) \<le> card (dom (objs s))" using objs_finite by (intro card_mono) auto
  also have "\<dots> < length (ref_table s) + 2" using objs_card [of s] by simp
  finally obtain s' where "decref_at (length (ref_table s) + 2) r s = (Inr (), s')" "released D R s s'"
    using decref_goodE [OF decref_good_all assms] by metis
  then show thesis by (intro that) (simp_all add: decref_def bnd_Inr)
qed

end
