(* ===== verification/Py_Ast.thy ===== *)
theory Py_Ast
  imports Py_Dispatch
begin

text \<open>
  Syntax trees of Subpython (\<open>ast.h\<close>, \<open>ast.c\<close>), the arena their nodes are allocated in (\<open>arena.c\<close>), and
  the indentation stack and input buffer of the parser (\<open>parser.c\<close>); the scanner and the parser
  proper are generated.
\<close>

section \<open>Arenas (\<open>arena.c\<close>)\<close>

definition DEFAULT_BLOCK_SIZE :: nat where
  "DEFAULT_BLOCK_SIZE = 8192"

definition ARENA_ALIGNMENT :: nat where
  "ARENA_ALIGNMENT = 8"

record arena_block_t =
  block_bytes :: nat
  allocated :: nat

text \<open>An arena is the chain of its blocks, the current one first.\<close>

type_synonym arena_t = "arena_block_t list"

definition block_new :: "nat \<Rightarrow> arena_t \<Rightarrow> arena_t" where
  "block_new sz prev = \<lparr>block_bytes = sz, allocated = 0\<rparr> # prev"

definition arena_new :: arena_t where
  "arena_new = block_new DEFAULT_BLOCK_SIZE []"

text \<open>The blocks that \<open>arena_free\<close> releases, in order, by their number from the oldest.\<close>

fun arena_free :: "arena_t \<Rightarrow> nat list" where
  "arena_free [] = []"
| "arena_free (b # bs) = length bs # arena_free bs"

text \<open>The place of an allocation: the number of its block, counted from the oldest, and the offset in it. Rounding up and the sum with what is
  allocated are computed in \<open>size_t\<close>.\<close>

definition arena_malloc :: "arena_t \<Rightarrow> nat \<Rightarrow> (nat \<times> nat) \<times> arena_t" where
  "arena_malloc arena req =
     (let sz = (req + ARENA_ALIGNMENT - 1) mod 2 ^ 64 div ARENA_ALIGNMENT * ARENA_ALIGNMENT;
          arena' = (if (allocated (hd arena) + sz) mod 2 ^ 64 > block_bytes (hd arena)
                    then block_new (if sz > DEFAULT_BLOCK_SIZE then sz else DEFAULT_BLOCK_SIZE) arena else arena)
      in ((length arena' - 1, allocated (hd arena')),
          (hd arena')\<lparr>allocated := (allocated (hd arena') + sz) mod 2 ^ 64\<rparr> # tl arena'))"

definition arena_strdup :: "arena_t \<Rightarrow> string \<Rightarrow> string \<times> arena_t" where
  "arena_strdup arena str = (str, snd (arena_malloc arena (length str + 1)))"

section \<open>Nodes\<close>

text \<open>Lists of nodes may be absent (a null pointer).\<close>

datatype Node =
    StmtSequence "Node list"
  | StmtAssign Node Node
  | StmtDel Node
  | StmtIf Node Node "Node option"
  | StmtWhile Node Node
  | ExprLiteralString string
  | ExprLiteralInteger "64 word"
  | ExprLiteralFloat
  | ExprLiteralList "Node list option"
  | ExprLiteralDict "Node list option" "Node list option"
  | ExprLiteralSingleton SingletonType
  | ExprIdentifier string
  | ExprNotTest Node
  | ExprAndTest Node Node
  | ExprOrTest Node Node
  | ExprBuiltin NodeExprBuiltinType Node "Node option"
  | ExprCall Node "Node list option"
  | ExprSubscript Node Node

datatype NodeType =
    STMT_SEQUENCE | STMT_ASSIGN | STMT_DEL | STMT_IF | STMT_WHILE | STMT_SENTRY_LAST
  | EXPR_LITERAL_STRING | EXPR_LITERAL_INTEGER | EXPR_LITERAL_FLOAT | EXPR_LITERAL_LIST
  | EXPR_LITERAL_DICT | EXPR_LITERAL_SINGLETON | EXPR_IDENTIFIER | EXPR_NOT_TEST
  | EXPR_AND_TEST | EXPR_OR_TEST | EXPR_BUILTIN | EXPR_CALL | EXPR_SUBSCRIPT

definition node_types :: "NodeType list" where
  "node_types =
     [STMT_SEQUENCE, STMT_ASSIGN, STMT_DEL, STMT_IF, STMT_WHILE, STMT_SENTRY_LAST,
      EXPR_LITERAL_STRING, EXPR_LITERAL_INTEGER, EXPR_LITERAL_FLOAT, EXPR_LITERAL_LIST,
      EXPR_LITERAL_DICT, EXPR_LITERAL_SINGLETON, EXPR_IDENTIFIER, EXPR_NOT_TEST,
      EXPR_AND_TEST, EXPR_OR_TEST, EXPR_BUILTIN, EXPR_CALL, EXPR_SUBSCRIPT]"

text \<open>The number of an enumeration constant.\<close>

definition node_type_number :: "NodeType \<Rightarrow> nat" where
  "node_type_number t = length (takeWhile (\<lambda>t'. t' \<noteq> t) node_types)"

definition is_statement :: "NodeType \<Rightarrow> bool" where
  "is_statement t \<longleftrightarrow> node_type_number t \<le> node_type_number STMT_SENTRY_LAST"

fun node_type :: "Node \<Rightarrow> NodeType" where
  "node_type (StmtSequence _) = STMT_SEQUENCE"
| "node_type (StmtAssign _ _) = STMT_ASSIGN"
| "node_type (StmtDel _) = STMT_DEL"
| "node_type (StmtIf _ _ _) = STMT_IF"
| "node_type (StmtWhile _ _) = STMT_WHILE"
| "node_type (ExprLiteralString _) = EXPR_LITERAL_STRING"
| "node_type (ExprLiteralInteger _) = EXPR_LITERAL_INTEGER"
| "node_type ExprLiteralFloat = EXPR_LITERAL_FLOAT"
| "node_type (ExprLiteralList _) = EXPR_LITERAL_LIST"
| "node_type (ExprLiteralDict _ _) = EXPR_LITERAL_DICT"
| "node_type (ExprLiteralSingleton _) = EXPR_LITERAL_SINGLETON"
| "node_type (ExprIdentifier _) = EXPR_IDENTIFIER"
| "node_type (ExprNotTest _) = EXPR_NOT_TEST"
| "node_type (ExprAndTest _ _) = EXPR_AND_TEST"
| "node_type (ExprOrTest _ _) = EXPR_OR_TEST"
| "node_type (ExprBuiltin _ _ _) = EXPR_BUILTIN"
| "node_type (ExprCall _ _) = EXPR_CALL"
| "node_type (ExprSubscript _ _) = EXPR_SUBSCRIPT"

section \<open>Building trees (\<open>ast.c\<close>)\<close>

definition ast_init :: arena_t where
  "ast_init = arena_new"

definition ast_destroy :: "arena_t \<Rightarrow> nat list" where
  "ast_destroy ast = arena_free ast"

definition ast_alloc_nodelist :: "arena_t \<Rightarrow> Node list \<times> arena_t" where
  "ast_alloc_nodelist ast = ([], snd (arena_malloc ast 24))"

definition ast_alloc_nodelistentry :: "arena_t \<Rightarrow> Node \<Rightarrow> Node \<times> arena_t" where
  "ast_alloc_nodelistentry ast node = (node, snd (arena_malloc ast 16))"

definition ast_nodelist_append :: "arena_t \<Rightarrow> Node list \<Rightarrow> Node \<Rightarrow> Node list \<times> arena_t" where
  "ast_nodelist_append ast xs node = (let (entry, ast') = ast_alloc_nodelistentry ast node in (xs @ [entry], ast'))"

definition ast_nodelist_length :: "Node list \<Rightarrow> nat" where
  "ast_nodelist_length xs = length xs"

definition ast_alloc_node :: "arena_t \<Rightarrow> nat \<Rightarrow> Node \<Rightarrow> Node \<times> arena_t" where
  "ast_alloc_node ast sz node = (node, snd (arena_malloc ast sz))"

definition ast_alloc_sequence :: "arena_t \<Rightarrow> Node list \<Rightarrow> Node \<times> arena_t" where
  "ast_alloc_sequence ast statements = ast_alloc_node ast 16 (StmtSequence statements)"

definition ast_alloc_assign :: "arena_t \<Rightarrow> Node \<Rightarrow> Node \<Rightarrow> Node \<times> arena_t" where
  "ast_alloc_assign ast left right = ast_alloc_node ast 24 (StmtAssign left right)"

definition ast_alloc_del :: "arena_t \<Rightarrow> Node \<Rightarrow> Node \<times> arena_t" where
  "ast_alloc_del ast arg = ast_alloc_node ast 16 (StmtDel arg)"

definition ast_alloc_if :: "arena_t \<Rightarrow> Node \<Rightarrow> Node \<Rightarrow> Node option \<Rightarrow> Node \<times> arena_t" where
  "ast_alloc_if ast cond left right = ast_alloc_node ast 32 (StmtIf cond left right)"

definition ast_alloc_while :: "arena_t \<Rightarrow> Node \<Rightarrow> Node \<Rightarrow> Node \<times> arena_t" where
  "ast_alloc_while ast cond body = ast_alloc_node ast 24 (StmtWhile cond body)"

definition ast_alloc_literal_string :: "arena_t \<Rightarrow> string \<Rightarrow> Node \<times> arena_t" where
  "ast_alloc_literal_string ast t =
     (let a = snd (arena_malloc ast 16); (dup, a') = arena_strdup a t in (ExprLiteralString dup, a'))"

definition ast_alloc_literal_integer :: "arena_t \<Rightarrow> 64 word \<Rightarrow> Node \<times> arena_t" where
  "ast_alloc_literal_integer ast i = ast_alloc_node ast 16 (ExprLiteralInteger i)"

definition ast_alloc_literal_list :: "arena_t \<Rightarrow> Node list option \<Rightarrow> Node \<times> arena_t" where
  "ast_alloc_literal_list ast vals = ast_alloc_node ast 16 (ExprLiteralList vals)"

definition ast_alloc_literal_dict :: "arena_t \<Rightarrow> Node list option \<Rightarrow> Node list option \<Rightarrow> Node \<times> arena_t" where
  "ast_alloc_literal_dict ast keys vals = ast_alloc_node ast 24 (ExprLiteralDict keys vals)"

definition ast_alloc_literal_singleton :: "arena_t \<Rightarrow> SingletonType \<Rightarrow> Node \<times> arena_t" where
  "ast_alloc_literal_singleton ast t = ast_alloc_node ast 8 (ExprLiteralSingleton t)"

definition ast_alloc_identifier :: "arena_t \<Rightarrow> string \<Rightarrow> Node \<times> arena_t" where
  "ast_alloc_identifier ast name =
     (let a = snd (arena_malloc ast 16); (dup, a') = arena_strdup a name in (ExprIdentifier dup, a'))"

definition ast_alloc_not_test :: "arena_t \<Rightarrow> Node \<Rightarrow> Node \<times> arena_t" where
  "ast_alloc_not_test ast operand = ast_alloc_node ast 16 (ExprNotTest operand)"

definition ast_alloc_and_test :: "arena_t \<Rightarrow> Node \<Rightarrow> Node \<Rightarrow> Node \<times> arena_t" where
  "ast_alloc_and_test ast left right = ast_alloc_node ast 24 (ExprAndTest left right)"

definition ast_alloc_or_test :: "arena_t \<Rightarrow> Node \<Rightarrow> Node \<Rightarrow> Node \<times> arena_t" where
  "ast_alloc_or_test ast left right = ast_alloc_node ast 24 (ExprOrTest left right)"

definition ast_alloc_builtin :: "arena_t \<Rightarrow> NodeExprBuiltinType \<Rightarrow> Node \<Rightarrow> Node option \<Rightarrow> Node \<times> arena_t" where
  "ast_alloc_builtin ast t left right = ast_alloc_node ast 24 (ExprBuiltin t left right)"

definition ast_alloc_call :: "arena_t \<Rightarrow> Node \<Rightarrow> Node list option \<Rightarrow> Node \<times> arena_t" where
  "ast_alloc_call ast func args = ast_alloc_node ast 24 (ExprCall func args)"

definition ast_alloc_subscript :: "arena_t \<Rightarrow> Node \<Rightarrow> Node \<Rightarrow> Node \<times> arena_t" where
  "ast_alloc_subscript ast obj index = ast_alloc_node ast 24 (ExprSubscript obj index)"

section \<open>Indentation and input of the parser (\<open>parser.c\<close>)\<close>

definition MAX_INDENT_LEVELS :: nat where
  "MAX_INDENT_LEVELS = 100"

record indent_t =
  stack :: "nat list"
  pos :: nat

definition parser_indent_cur :: "indent_t \<Rightarrow> nat" where
  "parser_indent_cur d = stack d ! pos d"

definition parser_indent_push :: "indent_t \<Rightarrow> nat \<Rightarrow> (stop, indent_t) res" where
  "parser_indent_push d level =
     bindE (assertE (pos d + 1 < MAX_INDENT_LEVELS) Assertion) (\<lambda>_.
     Inr (d\<lparr>pos := pos d + 1, stack := (stack d)[pos d + 1 := level]\<rparr>))"

definition parser_indent_pop :: "indent_t \<Rightarrow> (stop, indent_t) res" where
  "parser_indent_pop d = bindE (assertE (0 < pos d) Assertion) (\<lambda>_. Inr (d\<lparr>pos := pos d - 1\<rparr>))"

record parser_input_t =
  input_interactive :: bool
  buffer :: string
  position :: nat

text \<open>
  \<open>parser_input_read\<close> for interactive input: the bytes copied, the status and the new state.
\<close>

definition parser_input_read :: "parser_input_t \<Rightarrow> nat \<Rightarrow> string \<times> nat \<times> parser_input_t" where
  "parser_input_read inp len =
     (if position inp < length (buffer inp) then
        let avail = length (buffer inp) - position inp;
            to_copy = (if avail > len then len else avail)
        in (take to_copy (drop (position inp) (buffer inp)), 0, inp\<lparr>position := position inp + to_copy\<rparr>)
      else ([], 1, inp))"

end
