(* ===== verification/Py_Eval.thy ===== *)
theory Py_Eval
  imports Py_Ast
begin

text \<open>
  The evaluator of Subpython (\<open>eval.c\<close>) and the driver around it (\<open>repl.c\<close>).  Each function of the C
  code takes the evaluation of subtrees, \<open>eval_expr\<close> and \<open>eval_stmt\<close>, as an argument; the knot is
  tied with a bound that limits both the depth of the recursion and the iterations of a loop.
\<close>

type_synonym ev = "Node \<Rightarrow> reference_t py"

section \<open>Global variables\<close>

fun find_global :: "string \<Rightarrow> (string \<times> reference_t) list \<Rightarrow> nat option" where
  "find_global name [] = None"
| "find_global name ((n, r) # gv) = (if name = n then Some 0 else map_option Suc (find_global name gv))"

definition name_error :: "string \<Rightarrow> unit py" where
  "name_error name = exception_set_format EXC_NAME_ERROR (''name '' @ quote1 name @ '' is not defined'')"

definition globals_get :: "string \<Rightarrow> reference_t py" where
  "globals_get name = bnd (gets global_vars) (\<lambda>gv.
     case find_global name gv of
       Some i \<Rightarrow> seq (incref (snd (gv ! i))) (ret (snd (gv ! i)))
     | None \<Rightarrow> seq (name_error name) (ret NULL_REF))"

definition globals_set :: "string \<Rightarrow> reference_t \<Rightarrow> unit py" where
  "globals_set name v = bnd (gets global_vars) (\<lambda>gv.
     case find_global name gv of
       Some i \<Rightarrow> seq (decref (snd (gv ! i))) (seq (incref v)
         (modify (\<lambda>s. s\<lparr>global_vars := (global_vars s)[i := (fst (global_vars s ! i), v)]\<rparr>)))
     | None \<Rightarrow>
         seq (modify (\<lambda>s. s\<lparr>max_vars := (if length (global_vars s) = max_vars s
                then if max_vars s = 0 then INITIAL_SIZE else max_vars s * 2 else max_vars s)\<rparr>))
         (seq (incref v) (modify (\<lambda>s. s\<lparr>global_vars := global_vars s @ [(name, v)]\<rparr>))))"

definition globals_delete :: "string \<Rightarrow> unit py" where
  "globals_delete name = bnd (gets global_vars) (\<lambda>gv.
     case find_global name gv of
       Some i \<Rightarrow> seq (decref (snd (gv ! i)))
         (modify (\<lambda>s. s\<lparr>global_vars := take i (global_vars s) @ drop (Suc i) (global_vars s)\<rparr>))
     | None \<Rightarrow> name_error name)"

section \<open>Expressions\<close>

definition eval_identifier :: "string \<Rightarrow> reference_t py" where
  "eval_identifier name = globals_get name"

definition eval_not_test :: "ev \<Rightarrow> Node \<Rightarrow> reference_t py" where
  "eval_not_test eval_e operand =
     bnd (eval_e operand) (\<lambda>r. bnd exception_occurred (\<lambda>e. if e then ret NULL_REF
     else bnd (ref_bool r) (\<lambda>b. bnd (bool_ref (\<not> b)) (\<lambda>result. seq (decref r) (ret result)))))"

definition eval_and_test :: "ev \<Rightarrow> Node \<Rightarrow> Node \<Rightarrow> reference_t py" where
  "eval_and_test eval_e left right =
     bnd (eval_e left) (\<lambda>l. bnd exception_occurred (\<lambda>e. if e then ret NULL_REF
     else bnd (ref_bool l) (\<lambda>b. if \<not> b then ret l else seq (decref l) (eval_e right))))"

definition eval_or_test :: "ev \<Rightarrow> Node \<Rightarrow> Node \<Rightarrow> reference_t py" where
  "eval_or_test eval_e left right =
     bnd (eval_e left) (\<lambda>l. bnd exception_occurred (\<lambda>e. if e then ret NULL_REF
     else bnd (ref_bool l) (\<lambda>b. if b then ret l else seq (decref l) (eval_e right))))"

text \<open>The operation itself, on evaluated operands: \<open>==\<close>, the other comparisons, or a builtin.\<close>

definition apply_builtin :: "NodeExprBuiltinType \<Rightarrow> reference_t \<Rightarrow> reference_t \<Rightarrow> reference_t py" where
  "apply_builtin t l r =
     (if t = COMP_EQUALS then bnd (ref_eq l r) bool_ref
      else if t \<in> {COMP_LT, COMP_GT, COMP_LE, COMP_GE} then ref_compare t l r
      else ref_builtin t l r)"

definition eval_builtin :: "ev \<Rightarrow> NodeExprBuiltinType \<Rightarrow> Node \<Rightarrow> Node option \<Rightarrow> reference_t py" where
  "eval_builtin eval_e t left right =
     bnd (eval_e left) (\<lambda>l. bnd exception_occurred (\<lambda>e. if e then ret NULL_REF
     else bnd (case right of
          Some rn \<Rightarrow> bnd (eval_e rn) (\<lambda>r. bnd exception_occurred (\<lambda>e'.
            if e' then seq (decref l) (ret None) else ret (Some r)))
        | None \<Rightarrow> seq (incref l) (ret (Some l))) (\<lambda>ro.
       case ro of
         None \<Rightarrow> ret NULL_REF
       | Some r \<Rightarrow> bnd (apply_builtin t l r) (\<lambda>result. seq (decref l) (seq (decref r) (ret result))))))"

definition eval_subscript :: "ev \<Rightarrow> Node \<Rightarrow> Node \<Rightarrow> reference_t py" where
  "eval_subscript eval_e obj index =
     bnd (eval_e obj) (\<lambda>target. bnd exception_occurred (\<lambda>e. if e then ret NULL_REF
     else bnd (eval_e index) (\<lambda>ix. bnd exception_occurred (\<lambda>e'.
       if e' then seq (decref target) (ret NULL_REF)
       else bnd (ref_subscr_get target ix) (\<lambda>result. seq (decref target) (seq (decref ix) (ret result)))))))"

fun store_elements :: "ev \<Rightarrow> reference_t \<Rightarrow> nat \<Rightarrow> int \<Rightarrow> Node list \<Rightarrow> reference_t py" where
  "store_elements eval_e ref_list val_array idx [] = ret ref_list"
| "store_elements eval_e ref_list val_array idx (n # ns) =
     bnd (eval_e n) (\<lambda>r. seq (array_set val_array idx r)
     (bnd exception_occurred (\<lambda>e.
     if e then seq (decref ref_list) (ret NULL_REF)
     else store_elements eval_e ref_list val_array (idx + 1) ns)))"

definition list_length :: "Node list option \<Rightarrow> nat" where
  "list_length xs = (case xs of None \<Rightarrow> 0 | Some ns \<Rightarrow> ast_nodelist_length ns)"

definition eval_literal_list :: "ev \<Rightarrow> Node list option \<Rightarrow> reference_t py" where
  "eval_literal_list eval_e vals =
     bnd (make_reference_refarray (list_length vals)) (\<lambda>ref_array.
     bnd exception_occurred (\<lambda>e. if e then ret NULL_REF
     else bnd (deref ref_array) (\<lambda>val_array.
       bnd make_reference_list (\<lambda>ref_list.
       bnd exception_occurred (\<lambda>e'. if e' then seq (decref ref_array) (ret NULL_REF)
       else bnd (deref ref_list) (\<lambda>val_list.
         seq (set_data_at val_list (List_value (int (list_length vals)) ref_array))
         (case vals of
            None \<Rightarrow> ret ref_list
          | Some ns \<Rightarrow> store_elements eval_e ref_list val_array 0 ns)))))))"

fun store_entries :: "ev \<Rightarrow> reference_t \<Rightarrow> nat \<Rightarrow> Node list \<Rightarrow> Node list \<Rightarrow> reference_t py" where
  "store_entries eval_e ref_dict val_dict (k # ks) (v # vs) =
     bnd (eval_e k) (\<lambda>key. bnd exception_occurred (\<lambda>e.
     seq (whenP (\<not> e)
       (bnd (eval_e v) (\<lambda>val. bnd exception_occurred (\<lambda>e'.
        seq (whenP (\<not> e') (seq (dict_subscr_set ref_eq val_dict key val) (decref val)))
        (decref key)))))
     (bnd exception_occurred (\<lambda>e''.
     if e'' then seq (decref ref_dict) (ret NULL_REF)
     else store_entries eval_e ref_dict val_dict ks vs))))"
| "store_entries eval_e ref_dict val_dict _ _ = ret ref_dict"

definition eval_literal_dict :: "ev \<Rightarrow> Node list option \<Rightarrow> Node list option \<Rightarrow> reference_t py" where
  "eval_literal_dict eval_e keys vals =
     (let capacity = max 16 (list_length keys * 2) in
      bnd (make_reference_refarray capacity) (\<lambda>ref_keys.
      bnd exception_occurred (\<lambda>e. if e then ret NULL_REF
      else bnd (make_reference_refarray capacity) (\<lambda>ref_values.
        bnd exception_occurred (\<lambda>e'. if e' then seq (decref ref_keys) (ret NULL_REF)
        else bnd make_reference_dict (\<lambda>ref_dict.
          bnd exception_occurred (\<lambda>e''. if e'' then seq (decref ref_values) (seq (decref ref_keys) (ret NULL_REF))
          else bnd (deref ref_dict) (\<lambda>val_dict.
            seq (set_data_at val_dict (Dict_value 0 0 ref_keys ref_values))
            (case keys of
               None \<Rightarrow> ret ref_dict
             | Some ks \<Rightarrow> (case vals of
                 None \<Rightarrow> halt Bad_access
               | Some vs \<Rightarrow> store_entries eval_e ref_dict val_dict ks vs)))))))))) "

section \<open>Calls\<close>

definition none_result :: "reference_t py" where
  "none_result = bnd (gets none_ref) (\<lambda>r. seq (incref r) (ret r))"

definition eval_call_exit :: "reference_t list \<Rightarrow> reference_t py" where
  "eval_call_exit args =
     (if length args > 1 then
        seq (type_error (''exit() takes from 0 to 1 positional arguments but '' @ show_nat (length args) @ '' were given''))
            (ret NULL_REF)
      else case args of
          [] \<Rightarrow> halt (Exited 0)
        | r # _ \<Rightarrow> bnd (deref r) (\<lambda>a. bnd (type_at a) (\<lambda>t.
            if t = VAL_INTEGER then bnd (integer_value a) (\<lambda>i. halt (Exited (sint (ucast i :: 32 word))))
            else seq (ref_println r print_err MAX_DEPTH) (halt (Exited 1)))))"

definition eval_call_mem :: "reference_t list \<Rightarrow> reference_t py" where
  "eval_call_mem args =
     (if length args > 0 then
        seq (type_error (''mem() takes 0 positional arguments but '' @ show_nat (length args) @ '' were given'')) (ret NULL_REF)
      else bnd mem_used (\<lambda>m. bnd refs_used (\<lambda>n.
        seq (print_out (show_nat m @ '' bytes in use; '' @ show_nat n @ '' refs in use'' @ [CHR 0x0A])) none_result)))"

definition eval_call_gc :: "reference_t list \<Rightarrow> reference_t py" where
  "eval_call_gc args =
     (if length args > 0 then
        seq (type_error (''gc() takes 0 positional arguments but '' @ show_nat (length args) @ '' were given'')) (ret NULL_REF)
      else seq collect_garbage none_result)"

definition eval_call_print :: "reference_t list \<Rightarrow> reference_t py" where
  "eval_call_print args =
     seq (case args of
            [] \<Rightarrow> ret ()
          | r # rs \<Rightarrow> seq (ref_print r print_out MAX_DEPTH)
              (each (\<lambda>r'. seq (print_out '' '') (ref_print r' print_out MAX_DEPTH)) rs))
     (seq (print_out [CHR 0x0A]) none_result)"

definition eval_call_len :: "reference_t list \<Rightarrow> reference_t py" where
  "eval_call_len args =
     (case args of
        [r] \<Rightarrow> bnd (ref_len r) (\<lambda>n. make_reference_int (word_of_int n))
      | _ \<Rightarrow> seq (type_error (''len() takes 1 positional argument but '' @ show_nat (length args) @ '' were given'')) (ret NULL_REF))"

definition eval_call_bool :: "reference_t list \<Rightarrow> reference_t py" where
  "eval_call_bool args =
     (case args of
        [r] \<Rightarrow> bnd (ref_bool r) bool_ref
      | _ \<Rightarrow> seq (type_error (''bool() takes 1 positional argument but '' @ show_nat (length args) @ '' were given'')) (ret NULL_REF))"

text \<open>
  The arguments are evaluated in order up to the first exception; the argument that raised it is
  not among the results.
\<close>

fun eval_args :: "ev \<Rightarrow> Node list \<Rightarrow> reference_t list py" where
  "eval_args eval_e [] = ret []"
| "eval_args eval_e (n # ns) =
     bnd (eval_e n) (\<lambda>r. bnd exception_occurred (\<lambda>e.
     if e then ret [] else bnd (eval_args eval_e ns) (\<lambda>rs. ret (r # rs))))"

definition call_function :: "string \<Rightarrow> reference_t list \<Rightarrow> reference_t py" where
  "call_function name args =
     (if name = ''exit'' \<or> name = ''quit'' then eval_call_exit args
      else if name = ''mem'' then eval_call_mem args
      else if name = ''gc'' then eval_call_gc args
      else if name = ''print'' then eval_call_print args
      else if name = ''len'' then eval_call_len args
      else if name = ''bool'' then eval_call_bool args
      else seq (exception_set_format EXC_NAME_ERROR (''no such function '' @ quote1 name)) (ret NULL_REF))"

definition eval_call :: "ev \<Rightarrow> Node \<Rightarrow> Node list option \<Rightarrow> reference_t py" where
  "eval_call eval_e func args =
     seq (case func of
            ExprIdentifier _ \<Rightarrow> ret ()
          | _ \<Rightarrow> exception_set EXC_SYNTAX_ERROR ''calling non-identifiers not supported'')
     (bnd (case args of None \<Rightarrow> ret [] | Some ns \<Rightarrow> eval_args eval_e ns) (\<lambda>rs.
     bnd exception_occurred (\<lambda>e.
     bnd (if e then ret NULL_REF
          else case func of ExprIdentifier name \<Rightarrow> call_function name rs | _ \<Rightarrow> halt Bad_access) (\<lambda>result.
     seq (each decref (rev rs)) (ret result)))))"

definition eval_expr_step :: "ev \<Rightarrow> Node \<Rightarrow> reference_t py" where
  "eval_expr_step eval_e node =
     (case node of
        ExprLiteralString t \<Rightarrow> make_reference_string t
      | ExprLiteralInteger i \<Rightarrow> make_reference_int i
      | ExprLiteralList vals \<Rightarrow> eval_literal_list eval_e vals
      | ExprLiteralDict keys vals \<Rightarrow> eval_literal_dict eval_e keys vals
      | ExprLiteralSingleton t \<Rightarrow> singleton_to_ref t
      | ExprIdentifier name \<Rightarrow> eval_identifier name
      | ExprNotTest operand \<Rightarrow> eval_not_test eval_e operand
      | ExprAndTest left right \<Rightarrow> eval_and_test eval_e left right
      | ExprOrTest left right \<Rightarrow> eval_or_test eval_e left right
      | ExprBuiltin t left right \<Rightarrow> eval_builtin eval_e t left right
      | ExprCall func args \<Rightarrow> eval_call eval_e func args
      | ExprSubscript obj index \<Rightarrow> eval_subscript eval_e obj index
      | _ \<Rightarrow> seq (exception_set_format EXC_INTERNAL
               (''ast node type '' @ quote1 (show_nat (node_type_number (node_type node))) @ '' not implemented''))
             (ret NULL_REF))"

fun eval_expr :: "nat \<Rightarrow> Node \<Rightarrow> reference_t py" where
  "eval_expr 0 node = halt No_fuel"
| "eval_expr (Suc n) node = eval_expr_step (eval_expr n) node"

section \<open>Statements\<close>

fun sequence_from :: "ev \<Rightarrow> reference_t \<Rightarrow> Node list \<Rightarrow> reference_t py" where
  "sequence_from eval_s result [] = ret result"
| "sequence_from eval_s result (n # ns) =
     seq (whenP (result \<noteq> NULL_REF) (decref result))
     (bnd (eval_s n) (\<lambda>r. bnd exception_occurred (\<lambda>e. if e then ret NULL_REF else sequence_from eval_s r ns)))"

definition eval_stmt_sequence :: "ev \<Rightarrow> Node list \<Rightarrow> reference_t py" where
  "eval_stmt_sequence eval_s statements = sequence_from eval_s NULL_REF statements"

definition eval_stmt_assign :: "ev \<Rightarrow> Node \<Rightarrow> Node \<Rightarrow> unit py" where
  "eval_stmt_assign eval_e left right =
     (case left of
        ExprIdentifier name \<Rightarrow>
          bnd (eval_e right) (\<lambda>r. bnd exception_occurred (\<lambda>e.
          whenP (\<not> e) (seq (globals_set name r) (decref r))))
      | ExprSubscript obj index \<Rightarrow>
          bnd (eval_e right) (\<lambda>r. bnd exception_occurred (\<lambda>e.
          whenP (\<not> e) (seq
            (bnd (eval_e obj) (\<lambda>target. bnd exception_occurred (\<lambda>e'.
             whenP (\<not> e') (seq
               (bnd (eval_e index) (\<lambda>ix. bnd exception_occurred (\<lambda>e''.
                whenP (\<not> e'') (seq (ref_subscr_set target ix r) (decref ix)))))
               (decref target)))))
            (decref r))))
      | _ \<Rightarrow>
          if node_type left \<in> {EXPR_LITERAL_STRING, EXPR_LITERAL_INTEGER, EXPR_LITERAL_FLOAT, EXPR_LITERAL_SINGLETON}
          then exception_set EXC_SYNTAX_ERROR (''can'' @ [CHR 0x27] @ ''t assign to literal'')
          else if node_type left \<in> {EXPR_LITERAL_DICT, EXPR_LITERAL_LIST}
          then exception_set EXC_SYNTAX_ERROR ''assignment destructuring not implemented''
          else if node_type left \<in> {EXPR_NOT_TEST, EXPR_AND_TEST, EXPR_OR_TEST, EXPR_BUILTIN}
          then exception_set EXC_SYNTAX_ERROR (''can'' @ [CHR 0x27] @ ''t assign to operator'')
          else if node_type left = EXPR_CALL
          then exception_set EXC_SYNTAX_ERROR (''can'' @ [CHR 0x27] @ ''t assign to function call'')
          else exception_set_format EXC_INTERNAL (''assignment target node type '' @
                 quote1 (show_nat (node_type_number (node_type left))) @ '' not implemented''))"

definition eval_stmt_del :: "ev \<Rightarrow> Node \<Rightarrow> unit py" where
  "eval_stmt_del eval_e arg =
     (case arg of
        ExprIdentifier name \<Rightarrow> globals_delete name
      | ExprSubscript obj index \<Rightarrow>
          bnd (eval_e obj) (\<lambda>target. bnd exception_occurred (\<lambda>e.
          whenP (\<not> e) (seq
            (bnd (eval_e index) (\<lambda>ix. bnd exception_occurred (\<lambda>e'.
             whenP (\<not> e') (seq (ref_subscr_del target ix) (decref ix)))))
            (decref target))))
      | _ \<Rightarrow>
          if node_type arg \<in> {EXPR_LITERAL_STRING, EXPR_LITERAL_INTEGER, EXPR_LITERAL_FLOAT, EXPR_LITERAL_SINGLETON}
          then exception_set EXC_SYNTAX_ERROR (''can'' @ [CHR 0x27] @ ''t delete literal'')
          else if node_type arg \<in> {EXPR_LITERAL_DICT, EXPR_LITERAL_LIST}
          then exception_set EXC_SYNTAX_ERROR ''deletion destructuring not implemented''
          else if node_type arg \<in> {EXPR_NOT_TEST, EXPR_AND_TEST, EXPR_OR_TEST, EXPR_BUILTIN}
          then exception_set EXC_SYNTAX_ERROR (''can'' @ [CHR 0x27] @ ''t delete operator'')
          else if node_type arg = EXPR_CALL
          then exception_set EXC_SYNTAX_ERROR (''can'' @ [CHR 0x27] @ ''t delete function call'')
          else exception_set_format EXC_INTERNAL (''deletion target node type '' @
                 quote1 (show_nat (node_type_number (node_type arg))) @ '' not implemented''))"

definition ignore_result :: "reference_t py \<Rightarrow> unit py" where
  "ignore_result m = bnd m (\<lambda>_. ret ())"

definition eval_stmt_if :: "ev \<Rightarrow> ev \<Rightarrow> Node \<Rightarrow> Node \<Rightarrow> Node option \<Rightarrow> unit py" where
  "eval_stmt_if eval_e eval_s cond left right =
     bnd (eval_e cond) (\<lambda>c. bnd exception_occurred (\<lambda>e. if e then ret ()
     else bnd (ref_bool c) (\<lambda>b. seq (decref c)
       (if b then ignore_result (eval_s left)
        else case right of None \<Rightarrow> ret () | Some r \<Rightarrow> ignore_result (eval_s r)))))"

fun eval_stmt_while :: "nat \<Rightarrow> ev \<Rightarrow> ev \<Rightarrow> Node \<Rightarrow> Node \<Rightarrow> unit py" where
  "eval_stmt_while 0 eval_e eval_s cond body = halt No_fuel"
| "eval_stmt_while (Suc m) eval_e eval_s cond body =
     bnd (eval_e cond) (\<lambda>c. bnd exception_occurred (\<lambda>e. if e then ret ()
     else bnd (ref_bool c) (\<lambda>b. seq (decref c)
       (if \<not> b then ret () else seq (ignore_result (eval_s body)) (eval_stmt_while m eval_e eval_s cond body)))))"

definition null_result :: "unit py \<Rightarrow> reference_t py" where
  "null_result m = seq m (ret NULL_REF)"

fun eval_stmt :: "nat \<Rightarrow> Node \<Rightarrow> reference_t py" where
  "eval_stmt 0 node = halt No_fuel"
| "eval_stmt (Suc n) node =
     (case node of
        StmtSequence statements \<Rightarrow> eval_stmt_sequence (eval_stmt n) statements
      | StmtAssign left right \<Rightarrow> null_result (eval_stmt_assign (eval_expr n) left right)
      | StmtDel arg \<Rightarrow> null_result (eval_stmt_del (eval_expr n) arg)
      | StmtIf cond left right \<Rightarrow> null_result (eval_stmt_if (eval_expr n) (eval_stmt n) cond left right)
      | StmtWhile cond body \<Rightarrow> null_result (eval_stmt_while n (eval_expr n) (eval_stmt n) cond body)
      | _ \<Rightarrow> eval_expr n node)"

section \<open>Initialisation and entry\<close>

definition eval_init :: "unit py" where
  "eval_init =
     bnd make_reference_none (\<lambda>n. seq (modify (\<lambda>s. s\<lparr>none_ref := n\<rparr>))
     (bnd make_reference_bool (\<lambda>t. seq (modify (\<lambda>s. s\<lparr>true_ref := t\<rparr>))
     (bnd make_reference_bool (\<lambda>f. seq (modify (\<lambda>s. s\<lparr>false_ref := f\<rparr>))
     (bnd exception_occurred (\<lambda>e.
     if e then seq (print_err (''Failed to initialize evaluator'' @ [CHR 0x0A])) (halt Aborted)
     else seq (globals_set ''None'' n) (seq (decref n)
          (seq (globals_set ''True'' t) (seq (decref t)
          (seq (globals_set ''False'' f) (decref f)))))))))))) "

definition eval_root :: "nat \<Rightarrow> Node \<Rightarrow> reference_t py" where
  "eval_root n root = bnd (eval_stmt n root) (\<lambda>result. if result = NULL_REF then none_result else ret result)"

section \<open>The driver (\<open>repl.c\<close>)\<close>

definition print_global_helper :: "string \<Rightarrow> reference_t \<Rightarrow> unit py" where
  "print_global_helper name r =
     seq (print_out (name @ '' = ref '' @ show_int r @ ''; value '')) (ref_println r print_out MAX_DEPTH)"

definition print_globals :: "unit py" where
  "print_globals = bnd (gets (\<lambda>s. length (global_vars s))) (\<lambda>n.
     seq (print_out ((if n = 1 then ''1 Global:'' else show_nat n @ '' Globals:'') @ [CHR 0x0A]))
     (bnd (foreach_global print_global_helper) (\<lambda>_. ret ())))"

definition pad8 :: "string \<Rightarrow> string" where
  "pad8 t = replicate (8 - length t) CHR ''0'' @ t"

fun intersperse_refs :: "reference_t list \<Rightarrow> string" where
  "intersperse_refs [] = []"
| "intersperse_refs [r] = show_int r"
| "intersperse_refs (r # rs) = show_int r @ '', '' @ intersperse_refs rs"

definition dump_value :: "nat \<Rightarrow> reference_t \<Rightarrow> unit py" where
  "dump_value a r = bnd (load_value a) (\<lambda>v.
     case vtype v of
       VAL_NONE \<Rightarrow> print_out (''type = VAL_NONE; value = None'' @ [CHR 0x0A])
     | VAL_BOOL \<Rightarrow> bnd (ref_is_true r) (\<lambda>b. print_out (''type = VAL_BOOL; value = '' @ (if b then ''True'' else ''False'') @ [CHR 0x0A]))
     | VAL_INTEGER \<Rightarrow> bnd (integer_value a) (\<lambda>i. print_out (''type = VAL_INTEGER: value = '' @ show_int (sint i) @ [CHR 0x0A]))
     | VAL_STRING \<Rightarrow> bnd (string_value a) (\<lambda>t. print_out (''type = VAL_STRING; value = '' @ [CHR 0x22] @ t @ [CHR 0x22, CHR 0x0A]))
     | VAL_LIST \<Rightarrow> bnd (list_fields a) (\<lambda>(_, r). print_out (''type = VAL_LIST; values = '' @ show_int r @ [CHR 0x0A]))
     | VAL_DICT \<Rightarrow> bnd (dict_fields a) (\<lambda>(_, _, k, r).
         print_out (''type = VAL_DICT; keys = '' @ show_int k @ ''; values = '' @ show_int r @ [CHR 0x0A]))
     | VAL_REF_ARRAY \<Rightarrow> bnd (array_values a) (\<lambda>rs.
         print_out (''type = VAL_REF_ARRAY; values = ['' @ intersperse_refs rs @ '']'' @ [CHR 0x0A]))
     | VAL_FREE \<Rightarrow> print_out (''type = UNKNOWN; the memory pool is probably corrupt'' @ [CHR 0x0A]))"

fun mem_dump_from :: "nat \<Rightarrow> nat \<Rightarrow> unit py" where
  "mem_dump_from 0 offset = halt No_fuel"
| "mem_dump_from (Suc n) offset = bnd (gets memory_size) (\<lambda>total. bnd (gets memory_pool) (\<lambda>base.
     if offset < total then
       bnd (load_value (base + offset)) (\<lambda>v.
       seq (if vtype v = VAL_FREE
            then print_out (''Free  0x'' @ pad8 (show_hex offset) @ ''; size '' @ show_nat (value_size v) @ [CHR 0x0A])
            else bnd (get_ref (base + offset)) (\<lambda>r.
              seq (print_out (''Value 0x'' @ pad8 (show_hex offset) @ ''; size '' @ show_nat (value_size v) @ ''; ref '' @ show_int r @
                    ''; refcnt: '' @ show_nat (ref_count v) @ ''; ''))
                  (dump_value (base + offset) r)))
           (mem_dump_from n (offset + value_size v)))
     else ret ()))"

definition mem_dump :: "unit py" where
  "mem_dump = bnd (gets memory_size) (\<lambda>total. mem_dump_from (total + 1) 0)"

definition eval_node :: "bool \<Rightarrow> nat \<Rightarrow> Node option \<Rightarrow> bool py" where
  "eval_node debug n root =
     (case root of
        None \<Rightarrow> ret True
      | Some node \<Rightarrow>
          bnd (eval_root n node) (\<lambda>result.
          bnd exception_occurred (\<lambda>e.
          seq (if e then seq (exception_print print_err) exception_clear
               else bnd (ref_is_none result) (\<lambda>b. whenP (\<not> b) (ref_println_repr result print_out MAX_DEPTH)))
          (seq (decref result)
          (seq (whenP debug
             (seq (print_out [CHR 0x0A]) (seq print_globals
             (seq (print_out ([CHR 0x0A] @ ''Memory Contents:'' @ [CHR 0x0A])) (seq mem_dump (print_out [CHR 0x0A]))))))
          (ret (\<not> e)))))))"

datatype parse_result_type_t = RESULT_SUCCESS | RESULT_FAILED | RESULT_OOM | RESULT_EXIT

datatype repl_action_t = REPL_ACTION_CONTINUE | REPL_ACTION_ERROR | REPL_ACTION_EXIT

text \<open>\<open>try_parse\<close> on what the generated parser returned: the kind of result and the tree.\<close>

definition try_parse :: "bool \<Rightarrow> nat \<Rightarrow> parse_result_type_t \<times> Node option \<Rightarrow> repl_action_t py" where
  "try_parse debug n result =
     bnd (if fst result = RESULT_SUCCESS then eval_node debug n (snd result) else ret False) (\<lambda>complete.
     ret (if fst result = RESULT_SUCCESS \<and> complete then REPL_ACTION_CONTINUE
          else if fst result = RESULT_EXIT then REPL_ACTION_EXIT else REPL_ACTION_ERROR))"

text \<open>The loop over the results of successive parses, until one asks to exit or the input ends.\<close>

fun read_eval_print_loop :: "bool \<Rightarrow> nat \<Rightarrow> (parse_result_type_t \<times> Node option) list \<Rightarrow> unit py" where
  "read_eval_print_loop debug n [] = print_err ([CHR 0x0A] @ ''Quitting, goodbye.'' @ [CHR 0x0A])"
| "read_eval_print_loop debug n (p # ps) =
     bnd (try_parse debug n p) (\<lambda>act.
     if act = REPL_ACTION_EXIT then print_err ([CHR 0x0A] @ ''Quitting, goodbye.'' @ [CHR 0x0A])
     else read_eval_print_loop debug n ps)"

text \<open>
  The part of \<open>main\<close> after the arguments, on the results of successive parses: a terminal is read until
  the end, a script is run once and gives the exit status.
\<close>

definition subpython_main :: "bool \<Rightarrow> nat \<Rightarrow> nat \<Rightarrow> nat \<Rightarrow> (parse_result_type_t \<times> Node option) list \<Rightarrow> nat py" where
  "subpython_main debug n msize mpool results =
     seq (init_refs msize mpool) (seq eval_init
     (bnd (gets interactive) (\<lambda>tty.
      if tty then seq (read_eval_print_loop debug n results) (ret 0)
      else bnd (try_parse debug n (case results of [] \<Rightarrow> (RESULT_EXIT, None) | r # _ \<Rightarrow> r)) (\<lambda>act.
        ret (if act \<noteq> REPL_ACTION_CONTINUE then 1 else 0)))))"

definition initial_state :: "bool \<Rightarrow> py_state" where
  "initial_state tty =
     \<lparr>memory_size = 0, memory_pool = 0, free_list = 0, store = (\<lambda>_. None), pool = 0, second_half = False,
      halfway_point = 0, actual_size = 0, ref_table = [], max_refs = 0, exc_type = EXC_NONE, exc_error = None,
      none_ref = 0, true_ref = 0, false_ref = 0, global_vars = [], max_vars = 0, interactive = tty,
      stdout = [], stderr = []\<rparr>"

end
