(* ===== verification/Py_Access.thy ===== *)
theory Py_Access
  imports Py_Decref Py_Eval
begin

text \<open>
  The invariant of the Subpython evaluator between two of its steps, and the operations that only read
  values: they find every reference they follow in the table and every member where its type says.
\<close>

section \<open>Runs that do not go astray\<close>

text \<open>
  A run may end the process on request, trap on a division, overflow the stack in an endless comparison, or
  exceed the bound; it may not fail an assertion or access memory outside a value.
\<close>

definition orderly :: "stop \<Rightarrow> bool" where
  "orderly e \<longleftrightarrow> e \<in> range Exited \<union> {Div_trap, Stack_overflow, No_fuel}"

definition runs :: "'a py \<Rightarrow> py_state \<Rightarrow> ('a \<Rightarrow> py_state \<Rightarrow> bool) \<Rightarrow> bool" where
  "runs m s Q \<longleftrightarrow> (case m s of (Inl e, s') \<Rightarrow> orderly e | (Inr x, s') \<Rightarrow> Q x s')"

lemma runs_ret [simp]: "runs (ret x) s Q \<longleftrightarrow> Q x s"
  by (simp add: runs_def)

lemma runs_bnd [simp]: "runs (bnd m k) s Q \<longleftrightarrow> runs m s (\<lambda>x s'. runs (k x) s' Q)"
  by (auto simp: runs_def bnd_def split: prod.splits sum.splits)

lemma runs_seq [simp]: "runs (seq m k) s Q \<longleftrightarrow> runs m s (\<lambda>_ s'. runs k s' Q)"
  by (simp add: seq_def)

lemma runs_halt [simp]: "runs (halt e) s Q \<longleftrightarrow> orderly e"
  by (simp add: runs_def)

lemma runs_gets [simp]: "runs (gets f) s Q \<longleftrightarrow> Q (f s) s"
  by (simp add: runs_def)

lemma runs_modify [simp]: "runs (modify f) s Q \<longleftrightarrow> Q () (f s)"
  by (simp add: runs_def)

lemma runs_occurred [simp]: "runs exception_occurred s Q \<longleftrightarrow> Q (exc_type s \<noteq> EXC_NONE) s"
  by (simp add: runs_def)

lemma runs_exception_set [simp]: "runs (exception_set t m) s Q \<longleftrightarrow> Q () (raised t m s)"
  by (simp add: runs_def)

lemma runs_exception_set_format [simp]: "runs (exception_set_format t m) s Q \<longleftrightarrow> Q () (raised t (clipped m) s)"
  by (simp add: runs_def)

lemma runs_type_error [simp]: "runs (type_error m) s Q \<longleftrightarrow> Q () (raised EXC_TYPE_ERROR (clipped m) s)"
  by (simp add: type_error_def)

lemma runs_ensure [simp]: "runs (ensure b) s Q \<longleftrightarrow> b \<and> Q () s"
  by (simp add: runs_def orderly_def image_iff)

lemma runs_whenP: "runs (whenP b m) s Q \<longleftrightarrow> (if b then runs m s Q else Q () s)"
  by (simp add: whenP_def)

lemma runs_Inr: "m s = (Inr x, s') \<Longrightarrow> runs m s Q \<longleftrightarrow> Q x s'"
  by (simp add: runs_def)

lemma runs_mono: "runs m s P \<Longrightarrow> (\<And>x s'. P x s' \<Longrightarrow> Q x s') \<Longrightarrow> runs m s Q"
  by (auto simp: runs_def split: prod.splits sum.splits)

lemma runs_orderly: "runs m s Q \<Longrightarrow> m s = (Inl e, s') \<Longrightarrow> orderly e"
  by (simp add: runs_def)

lemma orderly_simps [simp]: "orderly (Exited n)" "orderly Div_trap" "orderly Stack_overflow" "orderly No_fuel" "\<not> orderly Assertion" "\<not> orderly Bad_access"
  by (auto simp: orderly_def)

section \<open>The invariant\<close>

definition roots :: "py_state \<Rightarrow> reference_t multiset" where
  "roots s = mset (map snd (global_vars s))"

definition singles :: "py_state \<Rightarrow> bool" where
  "singles s \<longleftrightarrow> (''None'', none_ref s) \<in> set (global_vars s) \<and> (''True'', true_ref s) \<in> set (global_vars s) \<and>
     (''False'', false_ref s) \<in> set (global_vars s)"

text \<open>
  \<open>R\<close> are the references the evaluator holds in its local variables, \<open>D\<close> the lists it is building,
  with their arrays: nothing else refers to them.
\<close>

definition ok :: "py_state \<Rightarrow> reference_t set \<Rightarrow> reference_t multiset \<Rightarrow> bool" where
  "ok s D R \<longleftrightarrow> table_inv s \<and> hinv (objs s) D (R + roots s) \<and>
     (\<forall>r \<in># R + roots s. r \<in> D \<or> user (objs s) r) \<and> (\<forall>d \<in> D. d \<in># R \<and> rc (objs s) d = 1) \<and> singles s"

text \<open>The references a program can get at.\<close>

definition val :: "py_state \<Rightarrow> reference_t set \<Rightarrow> reference_t \<Rightarrow> bool" where
  "val s D r \<longleftrightarrow> r \<notin> D \<and> user (objs s) r"

text \<open>States that differ in the exception and in what has been printed.\<close>

definition same_heap :: "py_state \<Rightarrow> py_state \<Rightarrow> bool" where
  "same_heap s s' \<longleftrightarrow> store s' = store s \<and> free_list s' = free_list s \<and> memory_pool s' = memory_pool s \<and>
     memory_size s' = memory_size s \<and> ref_table s' = ref_table s \<and> ctx s' = ctx s"

lemma same_heap_refl [simp]: "same_heap s s"
  by (simp add: same_heap_def)

lemma same_heap_trans: "same_heap s t \<Longrightarrow> same_heap t u \<Longrightarrow> same_heap s u"
  by (simp add: same_heap_def)

lemma same_heap_raised [simp]: "same_heap s (raised t m s)"
  by (simp add: same_heap_def ctx_def)

lemma same_heap_objs: "same_heap s s' \<Longrightarrow> objs s' = objs s"
  by (rule objs_cong) (simp_all add: same_heap_def)

lemma same_heap_address: "same_heap s s' \<Longrightarrow> address s' = address s"
  by (rule ext) (simp add: same_heap_def address_def)

lemma ctx_singles: "ctx s' = ctx s \<Longrightarrow> singles s' = singles s"
  by (simp add: singles_def ctx_def)

lemma ctx_roots: "ctx s' = ctx s \<Longrightarrow> roots s' = roots s"
  by (simp add: roots_def ctx_def)

lemma same_heap_ok: "same_heap s s' \<Longrightarrow> ok s' D R = ok s D R"
  using same_heap_objs [of s s'] ctx_singles [of s' s] ctx_roots [of s' s] table_inv_cong [of s' s]
  by (simp add: same_heap_def ok_def)

lemma same_heap_val: "same_heap s s' \<Longrightarrow> val s' D r = val s D r"
  by (simp add: val_def same_heap_objs)

lemma ok_table: "ok s D R \<Longrightarrow> table_inv s"
  and ok_hinv: "ok s D R \<Longrightarrow> hinv (objs s) D (R + roots s)"
  and ok_singles: "ok s D R \<Longrightarrow> singles s"
  by (simp_all add: ok_def)

lemma ok_once:
  assumes "ok s D R" "d \<in> D"
  shows "count (R + roots s) d = 1" "count (pointed (objs s) D) d = 0"
proof -
  have "d \<in># R" "rc (objs s) d = 1" using assms by (auto simp: ok_def)
  then have "0 < count R d" "rc (objs s) d = 1" by simp_all
  then show "count (R + roots s) d = 1" "count (pointed (objs s) D) d = 0"
    using hinv_count [OF ok_hinv [OF assms(1)], of d] unfolding count_union by linarith+
qed

lemma ok_pointed: "ok s D R \<Longrightarrow> 0 < count (pointed (objs s) D) r \<Longrightarrow> r \<notin> D"
  using ok_once by fastforce

lemma ok_global:
  assumes "ok s D R" "r \<in># roots s"
  shows "val s D r"
proof -
  have "r \<notin> D"
  proof
    assume "r \<in> D"
    then have "r \<in># R" using assms(1) by (auto simp: ok_def)
    then have "0 < count R r" "0 < count (roots s) r" using assms(2) by simp_all
    then show False using ok_once(1) [OF assms(1) \<open>r \<in> D\<close>] unfolding count_union by linarith
  qed
  then show ?thesis using assms unfolding ok_def val_def by auto
qed

lemma ok_single: "ok s D R \<Longrightarrow> val s D (none_ref s) \<and> val s D (true_ref s) \<and> val s D (false_ref s)"
  using ok_global [of s D R] ok_singles [of s D R] by (force simp: singles_def roots_def)

lemma ok_weaken: "ok s D R \<Longrightarrow> R' \<subseteq># R \<Longrightarrow> (\<forall>d \<in> D. d \<in># R') \<Longrightarrow> ok s D R'"
  unfolding ok_def by (auto elim!: hinv_mono dest: mset_subset_eqD)

lemma ok_drop: "ok s D (add_mset r R) \<Longrightarrow> (\<forall>d \<in> D. d \<in># R) \<Longrightarrow> ok s D R"
  by (rule ok_weaken [of s D "add_mset r R"], assumption, metis add_mset_add_single mset_subset_eq_add_left)

lemma ok_temp:
  assumes "ok s D (add_mset r R)" "\<forall>d \<in> D. d \<in># R"
  shows "val s D r"
proof -
  have "r \<notin> D"
  proof
    assume "r \<in> D"
    then have "0 < count R r" using assms(2) by simp
    then show False using ok_once(1) [OF assms(1) \<open>r \<in> D\<close>] by (simp add: count_eq_zero_iff)
  qed
  then show ?thesis using assms(1) by (auto simp: ok_def val_def)
qed

section \<open>Reading\<close>

text \<open>The runs from states with the heap of \<open>s0\<close>: those that give a value, and those that leave the heap alone.\<close>

definition gives :: "py_state \<Rightarrow> 'a py \<Rightarrow> 'a \<Rightarrow> bool" where
  "gives s0 m x \<longleftrightarrow> (\<forall>s. same_heap s0 s \<longrightarrow> m s = (Inr x, s))"

text \<open>An exception stays once it has been raised.\<close>

definition later :: "py_state \<Rightarrow> py_state \<Rightarrow> bool" where
  "later s s' \<longleftrightarrow> (exc_type s \<noteq> EXC_NONE \<longrightarrow> exc_type s' \<noteq> EXC_NONE)"

definition reads :: "py_state \<Rightarrow> 'a py \<Rightarrow> bool" where
  "reads s0 m \<longleftrightarrow> (\<forall>s. same_heap s0 s \<longrightarrow> runs m s (\<lambda>_ s'. same_heap s0 s' \<and> later s s'))"

lemma later_refl [simp]: "later s s"
  by (simp add: later_def)

lemma later_trans: "later s t \<Longrightarrow> later t u \<Longrightarrow> later s u"
  by (simp add: later_def)

lemma later_raised [simp]: "t \<noteq> EXC_NONE \<Longrightarrow> later s (raised t m s)"
  by (simp add: later_def)

named_theorems gives_intros
named_theorems reads_intros

lemma gives_run: "gives s m x \<Longrightarrow> m s = (Inr x, s)"
  by (simp add: gives_def)

lemma gives_bnd: "gives s m x \<Longrightarrow> gives s (k x) y \<Longrightarrow> gives s (bnd m k) y"
  by (simp add: gives_def bnd_Inr)

lemma gives_ret [gives_intros]: "gives s (ret x) x"
  by (simp add: gives_def)

lemma gives_ensure [gives_intros]: "gives s k x \<Longrightarrow> gives s (seq (ensure True) k) x"
  by simp

lemma gives_load: "store s a = Some v \<Longrightarrow> gives s (load_value a) v"
  by (simp add: gives_def same_heap_def load_value_Some)

lemma gives_deref: "deref r s = (Inr a, s) \<Longrightarrow> gives s (deref r) a"
  by (auto simp: gives_def same_heap_def deref_def is_pool_address_def split: if_splits)

lemma gives_gets: "(\<And>s'. same_heap s s' \<Longrightarrow> f s' = x) \<Longrightarrow> gives s (gets f) x"
  by (simp add: gives_def)

lemma gives_ctx:
  "gives s (gets none_ref) (none_ref s)" "gives s (gets true_ref) (true_ref s)" "gives s (gets false_ref) (false_ref s)"
  "gives s (gets global_vars) (global_vars s)"
  by (rule gives_gets, simp add: same_heap_def ctx_def)+

lemma gives_type_at: "store s a = Some v \<Longrightarrow> gives s (type_at a) (vtype v)"
  unfolding type_at_def by (rule gives_bnd [OF gives_load]) (auto intro: gives_intros)

lemma gives_coerce: "store s a = Some v \<Longrightarrow> vtype v = t \<Longrightarrow> gives s (coerce t a) a"
  unfolding coerce_def by (rule gives_bnd [OF gives_type_at]) (auto intro: gives_intros)

lemma gives_type_in_table: "store s a = Some v \<Longrightarrow> in_table (vtype v) \<Longrightarrow> gives s (type_in_table a) (vtype v)"
  unfolding type_in_table_def by (rule gives_bnd [OF gives_type_at]) (auto intro: gives_intros)

lemma gives_integer_value: "store s a = Some v \<Longrightarrow> data v = Integer_value i \<Longrightarrow> gives s (integer_value a) i"
  unfolding integer_value_def by (rule gives_bnd [OF gives_load]) (auto intro: gives_intros)

lemma gives_string_value: "store s a = Some v \<Longrightarrow> data v = String_value t \<Longrightarrow> gives s (string_value a) t"
  unfolding string_value_def by (rule gives_bnd [OF gives_load]) (auto intro: gives_intros)

lemma gives_list_fields: "store s a = Some v \<Longrightarrow> data v = List_value n r \<Longrightarrow> gives s (list_fields a) (n, r)"
  unfolding list_fields_def by (rule gives_bnd [OF gives_load]) (auto intro: gives_intros)

lemma gives_array_values: "store s a = Some v \<Longrightarrow> data v = Ref_array_value rs \<Longrightarrow> gives s (array_values a) rs"
  unfolding array_values_def by (rule gives_bnd [OF gives_load]) (auto intro: gives_intros)

lemma gives_array_get:
  "store s a = Some v \<Longrightarrow> data v = Ref_array_value rs \<Longrightarrow> 0 \<le> i \<Longrightarrow> i < int (length rs) \<Longrightarrow> gives s (array_get a i) (rs ! nat i)"
  unfolding array_get_def by (rule gives_bnd [OF gives_array_values]) (auto intro: gives_intros)

lemma reads_bnd: "reads s m \<Longrightarrow> (\<And>x. reads s (k x)) \<Longrightarrow> reads s (bnd m k)"
proof (unfold reads_def runs_bnd, intro allI impI)
  fix s'
  assume k: "\<And>x. \<forall>u. same_heap s u \<longrightarrow> runs (k x) u (\<lambda>_ u'. same_heap s u' \<and> later u u')"
  assume "\<forall>u. same_heap s u \<longrightarrow> runs m u (\<lambda>_ u'. same_heap s u' \<and> later u u')" "same_heap s s'"
  then have "runs m s' (\<lambda>_ u'. same_heap s u' \<and> later s' u')" by blast
  then show "runs m s' (\<lambda>x t. runs (k x) t (\<lambda>_ u'. same_heap s u' \<and> later s' u'))"
  proof (rule runs_mono)
    fix x t assume t: "same_heap s t \<and> later s' t"
    then have "runs (k x) t (\<lambda>_ u'. same_heap s u' \<and> later t u')" using k by blast
    then show "runs (k x) t (\<lambda>_ u'. same_heap s u' \<and> later s' u')" by (rule runs_mono) (use t later_trans in blast)
  qed
qed

lemma reads_seq: "reads s m \<Longrightarrow> reads s k \<Longrightarrow> reads s (seq m k)"
  unfolding seq_def by (rule reads_bnd)

lemma reads_bnd_gives: "gives s m x \<Longrightarrow> reads s (k x) \<Longrightarrow> reads s (bnd m k)"
  by (auto simp: reads_def gives_def runs_def bnd_Inr)

lemma reads_gives: "gives s m x \<Longrightarrow> reads s m"
  by (simp add: reads_def gives_def runs_def)

lemma reads_ret [reads_intros]: "reads s (ret x)"
  by (simp add: reads_def)

lemma reads_halt: "orderly e \<Longrightarrow> reads s (halt e)"
  by (simp add: reads_def)

lemma reads_occurred [reads_intros]: "reads s exception_occurred"
  by (simp add: reads_def)

lemma reads_raise:
  "t \<noteq> EXC_NONE \<Longrightarrow> reads s (exception_set t m)" "t \<noteq> EXC_NONE \<Longrightarrow> reads s (exception_set_format t m)"
  by (simp_all add: reads_def same_heap_trans [of s _ "raised t _ _"])

lemma reads_errors [reads_intros]: "reads s (type_error m)" "reads s (exception_set EXC_TYPE_ERROR m)" "reads s (exception_set EXC_INDEX_ERROR m)"
  by (simp_all add: type_error_def reads_raise)

lemma reads_each: "(\<And>x. x \<in> set xs \<Longrightarrow> reads s (g x)) \<Longrightarrow> reads s (each g xs)"
  by (induction xs) (auto intro: reads_seq reads_intros)

lemma reads_print [reads_intros]: "reads s (print_out t)" "reads s (print_err t)"
  by (simp_all add: reads_def print_out_def print_err_def same_heap_def ctx_def later_def)

end
