(* ===== verification/Py_Reads.thy ===== *)
theory Py_Reads
  imports Py_Access
begin

text \<open>
  The generic operations of Subpython that read values (\<open>eval_types.c\<close>, \<open>eval_list.c\<close>): truth value, length, order,
  equality and printing stay inside the values they are given.
\<close>

section \<open>Values that a program can get at\<close>

lemma valE:
  assumes "ok s D R" "val s D r"
  obtains a v where "objs s r = Some v" "vtype v \<in> user_types" "r \<notin> D" "address s r = a" "store s a = Some v"
    "gives s (deref r) a" "wf_value (objs s) v" "in_table (vtype v)"
proof -
  obtain v where v: "objs s r = Some v" "vtype v \<in> user_types" "r \<notin> D" using assms(2) by (auto simp: val_def user_def)
  obtain a where "address s r = a" "store s a = Some v" "deref r s = (Inr a, s)" using objsE [OF ok_table [OF assms(1)] v(1)] by metis
  then show thesis
    using v hinv_wf [OF ok_hinv [OF assms(1)] v(1,3)] gives_deref [of r s a]
    by (intro that [of v a]) (auto simp: user_types_def in_table_def)
qed

lemma list_view:
  assumes "ok s D R" "val s D r" "objs s r = Some v" "vtype v = VAL_LIST"
  obtains n a b va rs where "data v = List_value (int n) a" "held v = [a]" "a \<notin> D" "gives s (deref a) b" "address s a = b"
    "store s b = Some va" "objs s a = Some va" "vtype va = VAL_REF_ARRAY" "data va = Ref_array_value rs" "ref_count va = 1" "n \<le> length rs"
    "\<And>i. i < n \<Longrightarrow> val s D (rs ! i)"
proof -
  note h = ok_hinv [OF assms(1)]
  have r: "r \<notin> D" using assms(2) by (simp add: val_def)
  obtain n a rs where n: "data v = List_value (int n) a" "held v = [a]" "rc (objs s) a = 1" "elements_of (objs s) a = Some rs"
    "n \<le> length rs" "\<And>i. i < n \<Longrightarrow> 0 \<le> rs ! i"
    using wf_listE [OF hinv_wf [OF h assms(3) r] assms(4)] by metis
  obtain va where va: "objs s a = Some va" "vtype va = VAL_REF_ARRAY" "data va = Ref_array_value rs"
    using n(4) by (auto simp: elements_of_def split: option.splits if_splits payload.splits)
  obtain b where b: "address s a = b" "store s b = Some va" "deref a s = (Inr b, s)" using objsE [OF ok_table [OF assms(1)] va(1)] by metis
  have "0 < count (pointed (objs s) D) a" using pointed_held [OF objs_finite assms(3) r] n(2) by simp
  then have a: "a \<notin> D" by (rule ok_pointed [OF assms(1)])
  have wa: "wf_value (objs s) va" using hinv_wf [OF h va(1) a] .
  have "val s D (rs ! i)" if "i < n" for i
  proof -
    have "rs ! i \<in> set (held va)" using n(5,6) that va(2,3) by (simp add: held_def)
    then have "user (objs s) (rs ! i)" "0 < count (pointed (objs s) D) (rs ! i)"
      using held_user [OF wa va(2)] pointed_held [OF objs_finite va(1) a] by simp_all
    then show ?thesis using ok_pointed [OF assms(1)] by (simp add: val_def)
  qed
  then show thesis using that [OF n(1,2) a gives_deref [OF b(3)] b(1,2) va _ n(5)] n(3) va(1) by (simp add: rc_def)
qed

lemma ok_list_ops:
  assumes "store s A = Some v" "vtype v = VAL_LIST" "data v = List_value (int n) a" "gives s (deref a) b" "store s b = Some va"
    "vtype va = VAL_REF_ARRAY"
  shows "gives s (list_coerce A) A" "gives s (list_size A) (int n)" "gives s (list_refarray A) b" "gives s (list_len A) (int n)"
proof -
  show c: "gives s (list_coerce A) A" unfolding list_coerce_def by (rule gives_coerce [OF assms(1,2)])
  show z: "gives s (list_size A) (int n)"
    unfolding list_size_def by (rule gives_bnd [OF gives_list_fields [OF assms(1,3)]]) (simp add: gives_ret)
  show "gives s (list_refarray A) b"
    unfolding list_refarray_def
    by (rule gives_bnd [OF gives_list_fields [OF assms(1,3)]], simp, rule gives_bnd [OF assms(4)], rule gives_coerce [OF assms(5,6)])
  show "gives s (list_len A) (int n)" unfolding list_len_def by (rule gives_bnd [OF c], rule z)
qed

section \<open>Truth value and length\<close>

lemma gives_true:
  assumes "ok s D R"
  obtains a where "gives s (bnd (gets true_ref) deref) a"
proof -
  have "val s D (true_ref s)" using ok_single [OF assms] by simp
  then obtain a where "gives s (deref (true_ref s)) a" using valE [OF assms] by metis
  then show thesis using that [of a] gives_bnd [OF gives_ctx(2)] by metis
qed

lemma integer_coerce_gives:
  assumes "wf_value H v" "store s a = Some v" "vtype v = VAL_INTEGER"
  obtains i where "data v = Integer_value i" "gives s (integer_coerce a) i"
proof -
  obtain i where i: "data v = Integer_value i" using assms(1,3) by (cases "data v") (auto simp: wf_value_def)
  then have "gives s (integer_coerce a) i"
    unfolding integer_coerce_def by (intro gives_bnd [OF gives_coerce [OF assms(2,3)]] gives_integer_value [OF assms(2)])
  with i show thesis by (rule that)
qed

lemma string_coerce_gives:
  assumes "wf_value H v" "store s a = Some v" "vtype v = VAL_STRING"
  obtains t where "data v = String_value t" "gives s (string_coerce a) t"
proof -
  obtain t where t: "data v = String_value t" using assms(1,3) by (cases "data v") (auto simp: wf_value_def)
  then have "gives s (string_coerce a) t"
    unfolding string_coerce_def by (intro gives_bnd [OF gives_coerce [OF assms(2,3)]] gives_string_value [OF assms(2)])
  with t show thesis by (rule that)
qed

lemma singleton_bool_gives:
  assumes "ok s D R" "store s a = Some v" "is_singleton (vtype v)"
  obtains b where "gives s (singleton_bool a) b"
proof -
  obtain t where t: "gives s (bnd (gets true_ref) deref) t" by (rule gives_true [OF assms(1)]) (rule that)
  have "gives s (deref (true_ref s)) t" using t by (simp add: gives_def same_heap_def ctx_def bnd_def)
  then have "gives s (singleton_bool a) (a = t)"
    unfolding singleton_bool_def using assms(3)
    by (intro gives_bnd [OF gives_type_at [OF assms(2)]]) (auto intro!: gives_bnd [OF gives_ctx(2)] gives_bnd gives_ret)
  then show thesis by (rule that)
qed

lemma list_bool_gives: "gives s (list_len A) n \<Longrightarrow> gives s (list_bool A) (0 < n)"
  unfolding list_bool_def by (rule gives_bnd) (auto intro: gives_ret)

text \<open>Every value has a truth value, without an exception.\<close>

lemma ref_bool_gives:
  assumes "ok s D R" "val s D r"
  obtains b where "gives s (ref_bool r) b"
proof -
  obtain a v where v: "objs s r = Some v" "vtype v \<in> user_types" "store s a = Some v" "gives s (deref r) a"
    "wf_value (objs s) v" "in_table (vtype v)" using valE [OF assms] by metis
  have "\<exists>g b. f_bool (vtype v) = Some g \<and> gives s (g a) b"
  proof (cases "vtype v")
    case VAL_INTEGER
    obtain i where "gives s (integer_coerce a) i" using integer_coerce_gives [OF v(5,3) VAL_INTEGER] by metis
    then show ?thesis using VAL_INTEGER by (auto simp: integer_bool_def intro!: exI gives_bnd gives_ret)
  next
    case VAL_STRING
    obtain i where "gives s (string_coerce a) i" using string_coerce_gives [OF v(5,3) VAL_STRING] by metis
    then show ?thesis using VAL_STRING by (auto simp: string_bool_def intro!: exI gives_bnd gives_ret)
  next
    case VAL_LIST
    obtain n x b va where "data v = List_value (int n) x" "gives s (deref x) b" "store s b = Some va" "vtype va = VAL_REF_ARRAY"
      using list_view [OF assms v(1) VAL_LIST] by metis
    then show ?thesis using VAL_LIST ok_list_ops(4) [OF v(3) VAL_LIST] list_bool_gives by fastforce
  qed (use v(2) singleton_bool_gives [OF assms(1) v(3)] in \<open>auto simp: user_types_def is_singleton_def\<close>)
  then obtain g b where "f_bool (vtype v) = Some g" "gives s (g a) b" by blast
  then have "gives s (ref_bool r) b"
    unfolding ref_bool_def by (intro gives_bnd [OF v(4)] gives_bnd [OF gives_type_in_table [OF v(3,6)]]) simp
  then show thesis by (rule that)
qed

lemma reads_ref_len:
  assumes "ok s D R" "val s D r"
  shows "reads s (ref_len r)"
proof -
  obtain a v where v: "objs s r = Some v" "vtype v \<in> user_types" "store s a = Some v" "gives s (deref r) a"
    "wf_value (objs s) v" "in_table (vtype v)" using valE [OF assms] by metis
  have "reads s (g a)" if g: "f_len (vtype v) = Some g" for g
  proof (cases "vtype v")
    case VAL_STRING
    obtain i where "gives s (string_coerce a) i" using string_coerce_gives [OF v(5,3) VAL_STRING] by metis
    then show ?thesis using VAL_STRING g by (auto simp: string_len_def intro!: reads_bnd_gives reads_ret)
  next
    case VAL_LIST
    obtain n x b va where "data v = List_value (int n) x" "gives s (deref x) b" "store s b = Some va" "vtype va = VAL_REF_ARRAY"
      using list_view [OF assms v(1) VAL_LIST] by metis
    then show ?thesis using VAL_LIST g ok_list_ops(4) [OF v(3) VAL_LIST] reads_gives by fastforce
  qed (use v(2) g in \<open>auto simp: user_types_def\<close>)
  then show ?thesis
    unfolding ref_len_def
    by (intro reads_bnd_gives [OF v(4)] reads_bnd_gives [OF gives_type_in_table [OF v(3,6)]])
      (auto split: option.splits intro!: reads_seq reads_intros)
qed

section \<open>Order and equality\<close>

text \<open>The members of a value, whatever its type.\<close>

lemma reads_list_cmp_from:
  assumes arrays: "store s la = Some va" "data va = Ref_array_value rs" "store s ra = Some vb" "data vb = Ref_array_value qs"
    and rec: "\<And>x y. val s D x \<Longrightarrow> val s D y \<Longrightarrow> reads s (cmp x y)"
  shows "(\<And>i. i \<in> set is \<Longrightarrow> 0 \<le> i \<and> i < int (length rs) \<and> i < int (length qs) \<and> val s D (rs ! nat i) \<and> val s D (qs ! nat i)) \<Longrightarrow>
    reads s (list_cmp_from cmp la ra is k)"
proof (induction "is")
  case (Cons i "is")
  have i: "0 \<le> i" "i < int (length rs)" "i < int (length qs)" "val s D (rs ! nat i)" "val s D (qs ! nat i)" using Cons.prems [of i] by auto
  show ?case
    unfolding list_cmp_from.simps
    by (intro reads_bnd_gives [OF gives_array_get [OF arrays(1,2) i(1,2)]] reads_bnd_gives [OF gives_array_get [OF arrays(3,4) i(1,3)]]
        reads_bnd [OF rec [OF i(4,5)]] reads_bnd [OF reads_occurred]) (auto intro!: reads_intros Cons.IH Cons.prems)
qed (simp add: reads_ret)

lemma reads_list_eq_from:
  assumes arrays: "store s la = Some va" "data va = Ref_array_value rs" "store s ra = Some vb" "data vb = Ref_array_value qs"
    and rec: "\<And>x y. val s D x \<Longrightarrow> val s D y \<Longrightarrow> reads s (req x y)"
  shows "(\<And>i. i \<in> set is \<Longrightarrow> 0 \<le> i \<and> i < int (length rs) \<and> i < int (length qs) \<and> val s D (rs ! nat i) \<and> val s D (qs ! nat i)) \<Longrightarrow>
    reads s (list_eq_from req la ra is)"
proof (induction "is")
  case (Cons i "is")
  have i: "0 \<le> i" "i < int (length rs)" "i < int (length qs)" "val s D (rs ! nat i)" "val s D (qs ! nat i)" using Cons.prems [of i] by auto
  show ?case
    unfolding list_eq_from.simps
    by (intro reads_bnd_gives [OF gives_array_get [OF arrays(1,2) i(1,2)]] reads_bnd_gives [OF gives_array_get [OF arrays(3,4) i(1,3)]]
        reads_bnd [OF rec [OF i(4,5)]] reads_bnd [OF reads_occurred]) (auto intro!: reads_intros Cons.IH Cons.prems)
qed (simp add: reads_ret)

text \<open>Two lists whose elements can be compared.\<close>

lemma reads_list_pair:
  assumes "ok s D R" "val s D l" "val s D r" "objs s l = Some v" "objs s r = Some w" "vtype v = VAL_LIST" "vtype w = VAL_LIST"
    "address s l = A" "store s A = Some v" "address s r = B" "store s B = Some w"
  shows "(\<And>x y. val s D x \<Longrightarrow> val s D y \<Longrightarrow> reads s (cmp x y)) \<Longrightarrow> reads s (list_cmp cmp A B)"
    "(\<And>x y. val s D x \<Longrightarrow> val s D y \<Longrightarrow> reads s (req x y)) \<Longrightarrow> reads s (list_eq req A B)"
proof -
  obtain n x b va rs where x: "data v = List_value (int n) x" "gives s (deref x) b" "store s b = Some va" "vtype va = VAL_REF_ARRAY"
    "data va = Ref_array_value rs" "n \<le> length rs" "\<And>i. i < n \<Longrightarrow> val s D (rs ! i)" using list_view [OF assms(1,2,4,6)] by metis
  obtain m y c vb qs where y: "data w = List_value (int m) y" "gives s (deref y) c" "store s c = Some vb" "vtype vb = VAL_REF_ARRAY"
    "data vb = Ref_array_value qs" "m \<le> length qs" "\<And>i. i < m \<Longrightarrow> val s D (qs ! i)" using list_view [OF assms(1,3,5,7)] by metis
  note l = ok_list_ops [OF assms(9,6) x(1-4)] and r = ok_list_ops [OF assms(11,7) y(1-4)]
  have range: "0 \<le> i \<and> i < int (length rs) \<and> i < int (length qs) \<and> val s D (rs ! nat i) \<and> val s D (qs ! nat i)"
    if "0 \<le> i" "i < int n" "i < int m" for i
    using that x(6,7) y(6,7) by auto
  show "reads s (list_cmp cmp A B)" if "\<And>x y. val s D x \<Longrightarrow> val s D y \<Longrightarrow> reads s (cmp x y)"
    unfolding list_cmp_def
    using range by (intro reads_bnd_gives [OF l(1)] reads_bnd_gives [OF r(1)] reads_bnd_gives [OF l(3)] reads_bnd_gives [OF r(3)]
      reads_bnd_gives [OF l(2)] reads_bnd_gives [OF r(2)] reads_list_cmp_from [OF x(3,5) y(3,5) that]) auto
  show "reads s (list_eq req A B)" if rec: "\<And>x y. val s D x \<Longrightarrow> val s D y \<Longrightarrow> reads s (req x y)"
  proof (cases "n = m")
    case True
    then have "reads s (list_eq_from req b c [0..int n - 1])"
      using range by (intro reads_list_eq_from [OF x(3,5) y(3,5) rec]) auto
    then show ?thesis
      unfolding list_eq_def using True
      by (intro reads_bnd_gives [OF l(1)] reads_bnd_gives [OF r(1)] reads_bnd_gives [OF l(2)] reads_bnd_gives [OF r(2)])
        (auto intro!: reads_bnd_gives [OF l(3)] reads_bnd_gives [OF r(3)])
  next
    case False
    then show ?thesis
      unfolding list_eq_def
      by (intro reads_bnd_gives [OF l(1)] reads_bnd_gives [OF r(1)] reads_bnd_gives [OF l(2)] reads_bnd_gives [OF r(2)])
        (auto intro!: reads_ret)
  qed
qed

lemma reads_scalar_cmp:
  assumes "ok s D R" "store s a = Some v" "store s b = Some w" "wf_value H v" "wf_value H w" "vtype v = vtype w"
  shows "is_singleton (vtype v) \<Longrightarrow> reads s (singleton_cmp a b) \<and> reads s (singleton_eq a b)"
    "vtype v = VAL_INTEGER \<Longrightarrow> reads s (integer_cmp a b) \<and> reads s (integer_eq a b)"
    "vtype v = VAL_STRING \<Longrightarrow> reads s (string_cmp a b) \<and> reads s (string_eq a b)"
proof -
  note ta = gives_type_at [OF assms(2)] and tb = gives_type_at [OF assms(3)]
  show "reads s (singleton_cmp a b) \<and> reads s (singleton_eq a b)" if t: "is_singleton (vtype v)"
  proof -
    obtain x y where "gives s (singleton_bool a) x" "gives s (singleton_bool b) y"
      using singleton_bool_gives [OF assms(1,2)] singleton_bool_gives [OF assms(1,3)] t assms(6) by metis
    then show ?thesis
      unfolding singleton_cmp_def singleton_eq_def using t assms(6)
      by (intro conjI reads_bnd_gives [OF ta] reads_bnd_gives [OF tb]) (auto intro!: reads_bnd_gives reads_ret)
  qed
  show "reads s (integer_cmp a b) \<and> reads s (integer_eq a b)" if t: "vtype v = VAL_INTEGER"
  proof -
    obtain x y where "gives s (integer_coerce a) x" "gives s (integer_coerce b) y"
      using integer_coerce_gives [OF assms(4,2)] integer_coerce_gives [OF assms(5,3)] t assms(6) by metis
    then have "reads s (integer_cmp a b)" unfolding integer_cmp_def by (intro reads_bnd_gives) (auto intro: reads_ret)
    then show ?thesis unfolding integer_eq_def by (auto intro!: reads_bnd reads_ret)
  qed
  show "reads s (string_cmp a b) \<and> reads s (string_eq a b)" if t: "vtype v = VAL_STRING"
  proof -
    obtain x y where "gives s (string_coerce a) x" "gives s (string_coerce b) y"
      using string_coerce_gives [OF assms(4,2)] string_coerce_gives [OF assms(5,3)] t assms(6) by metis
    then have "reads s (string_cmp a b)" unfolding string_cmp_def by (intro reads_bnd_gives) (auto intro: reads_ret)
    then show ?thesis unfolding string_eq_def by (auto intro!: reads_bnd reads_ret)
  qed
qed

lemma reads_f_cmp:
  assumes "ok s D R" "val s D l" "val s D r" "objs s l = Some v" "objs s r = Some w" "vtype v = vtype w"
    "address s l = A" "store s A = Some v" "address s r = B" "store s B = Some w" "wf_value (objs s) v" "wf_value (objs s) w"
    "vtype v \<in> user_types"
  shows "(\<And>x y. val s D x \<Longrightarrow> val s D y \<Longrightarrow> reads s (cmp x y)) \<Longrightarrow> f_cmp cmp (vtype v) = Some g \<Longrightarrow> reads s (g A B)"
    "(\<And>x y. val s D x \<Longrightarrow> val s D y \<Longrightarrow> reads s (req x y)) \<Longrightarrow> f_eq req (vtype v) = Some h \<Longrightarrow> reads s (h A B)"
proof -
  note sc = reads_scalar_cmp [OF assms(1,8,10,11,12,6)]
  note ls = reads_list_pair [OF assms(1-5) _ _ assms(7-10)]
  show "reads s (g A B)" if "\<And>x y. val s D x \<Longrightarrow> val s D y \<Longrightarrow> reads s (cmp x y)" "f_cmp cmp (vtype v) = Some g"
    using that(2) sc ls(1) [OF _ _ that(1)] assms(6,13) by (cases "vtype v") (auto simp: user_types_def is_singleton_def)
  show "reads s (h A B)" if "\<And>x y. val s D x \<Longrightarrow> val s D y \<Longrightarrow> reads s (req x y)" "f_eq req (vtype v) = Some h"
    using that(2) sc ls(2) [OF _ _ that(1)] assms(6,13) by (cases "vtype v") (auto simp: user_types_def is_singleton_def)
qed

lemma reads_compare_at:
  assumes "ok s D R"
  shows "val s D l \<Longrightarrow> val s D r \<Longrightarrow> reads s (compare_at n l r)"
proof (induction n arbitrary: l r)
  case (Suc n)
  obtain a v where v: "objs s l = Some v" "vtype v \<in> user_types" "address s l = a" "store s a = Some v" "gives s (deref l) a"
    "wf_value (objs s) v" "in_table (vtype v)" using valE [OF assms Suc.prems(1)] by metis
  obtain b w where w: "objs s r = Some w" "address s r = b" "store s b = Some w" "gives s (deref r) b"
    "wf_value (objs s) w" using valE [OF assms Suc.prems(2)] by metis
  have "reads s (g a b)" if "f_cmp (compare_at n) (vtype v) = Some g" "vtype v = vtype w" for g
    using reads_f_cmp(1) [OF assms Suc.prems v(1) w(1) that(2) v(3,4) w(2,3) v(6) w(5) v(2) Suc.IH that(1)] .
  then show ?case
    unfolding compare_at.simps compare_step_def
    by (intro reads_bnd_gives [OF v(5)] reads_bnd_gives [OF w(4)] reads_bnd_gives [OF gives_type_in_table [OF v(4,7)]]
        reads_bnd_gives [OF gives_type_at [OF w(3)]]) (auto split: option.splits intro!: reads_seq reads_intros)
qed (simp add: reads_halt)

lemma reads_ref_eq_at:
  assumes "ok s D R"
  shows "val s D l \<Longrightarrow> val s D r \<Longrightarrow> reads s (ref_eq_at n l r)"
proof (induction n arbitrary: l r)
  case (Suc n)
  obtain a v where v: "objs s l = Some v" "vtype v \<in> user_types" "address s l = a" "store s a = Some v" "gives s (deref l) a"
    "wf_value (objs s) v" "in_table (vtype v)" using valE [OF assms Suc.prems(1)] by metis
  obtain b w where w: "objs s r = Some w" "address s r = b" "store s b = Some w" "gives s (deref r) b"
    "wf_value (objs s) w" using valE [OF assms Suc.prems(2)] by metis
  have "reads s (g a b)" if "f_eq (ref_eq_at n) (vtype v) = Some g" "vtype v = vtype w" for g
    using reads_f_cmp(2) [OF assms Suc.prems v(1) w(1) that(2) v(3,4) w(2,3) v(6) w(5) v(2) Suc.IH that(1)] .
  then show ?case
    unfolding ref_eq_at.simps ref_eq_step_def
    by (intro reads_bnd_gives [OF v(5)] reads_bnd_gives [OF w(4)] reads_bnd_gives [OF gives_type_at [OF v(4)]]
        reads_bnd_gives [OF gives_type_at [OF w(3)]])
      (auto split: option.splits intro!: reads_seq reads_intros reads_bnd_gives [OF gives_type_in_table [OF v(4,7)]])
qed (simp add: reads_halt)

lemma gives_pair_depth: "gives s (gets pair_depth) (pair_depth s)"
  by (rule gives_gets) (simp add: same_heap_def pair_depth_def)

lemma reads_compare_refs: "ok s D R \<Longrightarrow> val s D l \<Longrightarrow> val s D r \<Longrightarrow> reads s (compare_refs l r)"
  unfolding compare_refs_def by (intro reads_bnd_gives [OF gives_pair_depth] reads_compare_at)

lemma reads_ref_eq: "ok s D R \<Longrightarrow> val s D l \<Longrightarrow> val s D r \<Longrightarrow> reads s (ref_eq l r)"
  unfolding ref_eq_def by (intro reads_bnd_gives [OF gives_pair_depth] reads_ref_eq_at)

section \<open>Printing\<close>

lemma gives_single:
  assumes "ok s D R"
  obtains a b c where "gives s (bnd (gets none_ref) deref) a" "gives s (bnd (gets true_ref) deref) b" "gives s (bnd (gets false_ref) deref) c"
proof -
  have "val s D (none_ref s)" "val s D (true_ref s)" "val s D (false_ref s)" using ok_single [OF assms] by simp_all
  then obtain a b c where "gives s (deref (none_ref s)) a" "gives s (deref (true_ref s)) b" "gives s (deref (false_ref s)) c"
    using valE [OF assms] by metis
  then show thesis by (intro that [of a b c]) (rule gives_bnd, rule gives_ctx, assumption)+
qed

lemma reads_list_print:
  assumes "ok s D R" "val s D r" "objs s r = Some v" "vtype v = VAL_LIST" "address s r = A" "store s A = Some v"
    and stream: "\<And>t. reads s (stream t)" and prr: "\<And>x. val s D x \<Longrightarrow> reads s (prr x)"
  shows "reads s (list_print prr A stream d)"
proof -
  obtain n x b va rs where x: "data v = List_value (int n) x" "gives s (deref x) b" "store s b = Some va" "vtype va = VAL_REF_ARRAY"
    "data va = Ref_array_value rs" "n \<le> length rs" "\<And>i. i < n \<Longrightarrow> val s D (rs ! i)" using list_view [OF assms(1-4)] by metis
  note l = ok_list_ops [OF assms(6,4) x(1-4)]
  have item: "reads s (bnd (array_get b i) prr)" if "0 \<le> i" "i < int n" for i
    using that x(6) by (intro reads_bnd_gives [OF gives_array_get [OF x(3,5)]] prr x(7)) auto
  have "reads s (whenP (1 \<le> int n) (seq (bnd (array_get b 0) prr) (each (print_item prr stream b) [1..int n - 1])))"
    by (auto simp: whenP_def print_item_def intro!: reads_intros reads_seq item reads_each stream)
  then show ?thesis
    unfolding list_print_def
    by (auto intro!: stream reads_bnd_gives [OF l(1)] reads_bnd_gives [OF l(3)] reads_seq reads_bnd_gives [OF l(2)])
qed

lemma reads_print_table:
  assumes "ok s D R" "val s D r" "objs s r = Some v" "vtype v \<in> user_types" "address s r = A" "store s A = Some v" "wf_value (objs s) v"
    and stream: "\<And>t. reads s (stream t)" and prr: "\<And>x. val s D x \<Longrightarrow> reads s (prr x)"
  shows "\<exists>g. f_print_repr prr (vtype v) = Some g \<and> reads s (g A stream d)" "\<exists>g. f_print prr (vtype v) = Some g \<and> reads s (g A stream d)"
proof -
  have str: "reads s (string_print_gen fmt A stream d)" if t: "vtype v = VAL_STRING" for fmt
  proof -
    obtain i where "gives s (string_coerce A) i" using string_coerce_gives [OF assms(7,6) t] by metis
    then show ?thesis unfolding string_print_gen_def by (auto intro!: stream reads_bnd_gives)
  qed
  have int: "reads s (integer_print A stream d)" if t: "vtype v = VAL_INTEGER"
  proof -
    obtain i where "gives s (integer_coerce A) i" using integer_coerce_gives [OF assms(7,6) t] by metis
    then show ?thesis unfolding integer_print_def by (auto intro!: stream reads_bnd_gives)
  qed
  have single: "reads s (singleton_print A stream d)" if t: "is_singleton (vtype v)"
  proof -
    obtain a b c where "gives s (bnd (gets none_ref) deref) a" "gives s (bnd (gets true_ref) deref) b" "gives s (bnd (gets false_ref) deref) c"
      by (rule gives_single [OF assms(1)]) (rule that)
    then show ?thesis
      unfolding singleton_print_def using t
      by (intro reads_bnd_gives [OF gives_type_at [OF assms(6)]]) (auto intro!: stream reads_bnd_gives reads_halt)
  qed
  note lst = reads_list_print [OF assms(1-3) _ assms(5,6) stream prr]
  show repr: "\<exists>g. f_print_repr prr (vtype v) = Some g \<and> reads s (g A stream d)"
    using assms(4) str int single lst by (cases "vtype v") (auto simp: user_types_def is_singleton_def string_print_repr_def)
  show "\<exists>g. f_print prr (vtype v) = Some g \<and> reads s (g A stream d)"
    using repr str by (cases "vtype v") (auto simp: string_print_def)
qed

lemma reads_print_dispatch:
  assumes "ok s D R" "val s D r" "\<And>t. reads s (stream t)" "\<And>x. val s D x \<Longrightarrow> reads s (prr x)"
  shows "reads s (print_dispatch (f_print_repr prr) r stream d)" "reads s (print_dispatch (f_print prr) r stream d)"
proof -
  obtain a v where v: "objs s r = Some v" "vtype v \<in> user_types" "address s r = a" "store s a = Some v" "gives s (deref r) a"
    "wf_value (objs s) v" "in_table (vtype v)" using valE [OF assms(1,2)] by metis
  have dispatch: "reads s (print_dispatch tab r stream d)" if "\<exists>g. tab (vtype v) = Some g \<and> reads s (g a stream d)" for tab
    unfolding print_dispatch_def using that
    by (intro reads_bnd_gives [OF v(5)] reads_bnd_gives [OF gives_type_in_table [OF v(4,7)]]) auto
  show "reads s (print_dispatch (f_print_repr prr) r stream d)" "reads s (print_dispatch (f_print prr) r stream d)"
    using assms(3,4) by (auto intro!: dispatch reads_print_table [OF assms(1,2) v(1-4,6)])
qed

lemma reads_print_repr:
  assumes "ok s D R" "\<And>t. reads s (stream t)"
  shows "val s D r \<Longrightarrow> reads s (ref_print_repr r stream d)"
  by (induction d arbitrary: r) (auto intro!: reads_print_dispatch [OF assms(1) _ assms(2)] reads_halt)

lemma reads_ref_print: "ok s D R \<Longrightarrow> (\<And>t. reads s (stream t)) \<Longrightarrow> val s D r \<Longrightarrow> reads s (ref_print r stream d)"
  unfolding ref_print_def by (intro reads_print_dispatch reads_print_repr)

lemma reads_println:
  assumes "ok s D R" "\<And>t. reads s (stream t)" "val s D r"
  shows "reads s (ref_println r stream d)" "reads s (ref_println_repr r stream d)"
  unfolding ref_println_def ref_println_repr_def
  using assms by (auto intro!: reads_seq reads_ref_print reads_print_repr)

end
