(* ===== verification/Py_Steps.thy ===== *)
theory Py_Steps
  imports Py_Reads
begin

text \<open>
  The operations of Subpython that change the heap keep the invariant of the evaluator: taking and
  dropping references, new values, global variables (\<open>refs.c\<close>, \<open>eval_refs.c\<close>, \<open>eval.c\<close>).
\<close>

section \<open>What a step leaves\<close>

text \<open>The lists under construction stay as they are, where they are.\<close>

definition keeps :: "reference_t set \<Rightarrow> py_state \<Rightarrow> py_state \<Rightarrow> bool" where
  "keeps D s s' \<longleftrightarrow> (\<forall>d \<in> D. objs s' d = objs s d \<and> address s' d = address s d)"

lemma keepsI: "(\<And>d. d \<in> D \<Longrightarrow> objs s' d = objs s d) \<Longrightarrow> (\<And>d. d \<in> D \<Longrightarrow> address s' d = address s d) \<Longrightarrow> keeps D s s'"
  by (simp add: keeps_def)

lemma keepsD: "keeps D s s' \<Longrightarrow> d \<in> D \<Longrightarrow> objs s' d = objs s d" "keeps D s s' \<Longrightarrow> d \<in> D \<Longrightarrow> address s' d = address s d"
  by (simp_all add: keeps_def)

text \<open>A step without a result, and one that returns a reference, a null reference only with an exception.\<close>

definition does :: "reference_t set \<Rightarrow> reference_t multiset \<Rightarrow> py_state \<Rightarrow> py_state \<Rightarrow> bool" where
  "does D R s s' \<longleftrightarrow> keeps D s s' \<and> later s s' \<and> ok s' D R"

definition yields :: "reference_t set \<Rightarrow> reference_t multiset \<Rightarrow> py_state \<Rightarrow> reference_t \<Rightarrow> py_state \<Rightarrow> bool" where
  "yields D R s r s' \<longleftrightarrow> does D (if r = NULL_REF then R else add_mset r R) s s' \<and> (exc_type s' = EXC_NONE \<longrightarrow> r \<noteq> NULL_REF)"

lemma keeps_refl [simp]: "keeps D s s"
  by (simp add: keeps_def)

lemma does_refl: "does D R s s \<longleftrightarrow> ok s D R"
  by (simp add: does_def)

lemma does_trans: "does D R s t \<Longrightarrow> does D R' t u \<Longrightarrow> does D R' s u"
  by (auto simp: does_def keeps_def later_def)

lemma does_yields: "does D R s t \<Longrightarrow> yields D R' t r u \<Longrightarrow> yields D R' s r u"
  unfolding yields_def using does_trans by blast

lemma does_ok: "does D R s s' \<Longrightarrow> ok s' D R"
  by (simp add: does_def)

lemma does_reads: "ok s D R \<Longrightarrow> same_heap s s' \<Longrightarrow> later s s' \<Longrightarrow> does D R s s'"
  by (simp add: does_def same_heap_ok keeps_def same_heap_objs same_heap_address)

lemma ok_within: "ok s D R \<Longrightarrow> \<forall>d \<in> D. d \<in># R"
  by (simp add: ok_def)

lemma does_drop: "does D (add_mset r R) s s' \<Longrightarrow> (\<forall>d \<in> D. d \<in># R) \<Longrightarrow> does D R s s'"
  unfolding does_def using ok_drop by blast

lemma ok_not_null: "ok s D (add_mset r R) \<Longrightarrow> r \<noteq> NULL_REF"
  using hinv_root [of "objs s" D "add_mset r R + roots s" r] objs_not_null [of s r] by (auto simp: ok_def)

lemma yieldsI: "does D (add_mset r R) s s' \<Longrightarrow> yields D R s r s'"
  using ok_not_null [of s' D r R] by (simp add: yields_def does_def)

lemma yields_exc: "exc_type s' \<noteq> EXC_NONE \<Longrightarrow> yields D R s NULL_REF s' \<longleftrightarrow> does D R s s'"
  by (simp add: yields_def)

lemma yieldsE:
  assumes "yields D R s r s'"
  obtains "r = NULL_REF" "exc_type s' \<noteq> EXC_NONE" "does D R s s'" | "r \<noteq> NULL_REF" "does D (add_mset r R) s s'"
  using assms by (auto simp: yields_def split: if_splits)

text \<open>Running an operation that returns a reference, and going on from there.\<close>

lemma runs_reads:
  assumes "reads s m" "ok s D R" "\<And>x s'. same_heap s s' \<Longrightarrow> later s s' \<Longrightarrow> does D R s s' \<Longrightarrow> Q x s'"
  shows "runs m s Q"
proof -
  have "runs m s (\<lambda>_ s'. same_heap s s' \<and> later s s')" using assms(1) by (simp add: reads_def)
  then show ?thesis by (rule runs_mono) (use assms(2,3) does_reads in blast)
qed

lemma runs_gives: "gives s m x \<Longrightarrow> runs m s Q \<longleftrightarrow> Q x s"
  by (simp add: runs_Inr gives_run)

section \<open>Counting references\<close>

lemma incref_step:
  assumes "ok s D R" "val s D r"
  obtains s' where "incref r s = (Inr (), s')" "does D (add_mset r R) s s'" "exc_type s' = exc_type s"
    "\<And>q. val s' D q = val s D q" "ctx s' = ctx s" "\<And>q. address s' q = address s q"
    "objs s' = (objs s)(r := map_option (\<lambda>v. v\<lparr>ref_count := ref_count v + 1\<rparr>) (objs s r))"
proof -
  obtain v where v: "objs s r = Some v" "vtype v \<in> user_types" "r \<notin> D" using assms(2) by (auto simp: val_def user_def)
  let ?v = "v\<lparr>ref_count := ref_count v + 1\<rparr>"
  let ?s = "with_value r ?v s"
  have nf: "vtype v \<noteq> VAL_FREE" using v(2) by (auto simp: user_types_def)
  note w = with_value_ok [OF ok_table [OF assms(1)] v(1), of ?v, simplified]
  have t: "table_inv ?s" and o: "objs ?s = (objs s)(r \<mapsto> ?v)" using w nf by simp_all
  have u: "user (objs ?s) q \<longleftrightarrow> user (objs s) q" for q unfolding o user_def using v(1,2) by auto
  have c: "roots ?s = roots s" "singles ?s = singles s" by (rule ctx_roots ctx_singles; simp)+
  have "hinv (objs ?s) D (add_mset r R + roots s)"
    unfolding o using hinv_incref [OF ok_hinv [OF assms(1)] v(1)] assms(2) by (simp add: val_def)
  then have "ok ?s D (add_mset r R)"
    unfolding ok_def c u
  proof (intro conjI ballI)
    show "q \<in> D \<or> user (objs s) q" if "q \<in># add_mset r R + roots s" for q
      using that assms unfolding ok_def val_def by auto
    show "d \<in># add_mset r R" "rc (objs ?s) d = 1" if "d \<in> D" for d
      using that assms(1) v(3) unfolding ok_def o by auto
  qed (use t ok_singles [OF assms(1)] in simp_all)
  then have "does D (add_mset r R) s ?s"
    unfolding does_def keeps_def later_def o using v(3) by auto
  moreover have "objs ?s = (objs s)(r := map_option (\<lambda>v. v\<lparr>ref_count := ref_count v + 1\<rparr>) (objs s r))"
    unfolding o using v(1) by simp
  ultimately show thesis using incref_run [OF ok_table [OF assms(1)] v(1)] u by (intro that [of ?s]) (simp_all add: val_def)
qed

lemma shrunk_fixed:
  assumes "shrunk s s'" "hinv (objs s') D R" "d \<in># R" "rc (objs s) d = 1"
  shows "objs s' d = objs s d" "address s' d = address s d"
proof -
  obtain v' where v': "objs s' d = Some v'" "0 < ref_count v'" using hinv_root [OF assms(2,3)] by blast
  obtain v where "objs s d = Some v" "vtype v' = vtype v" "data v' = data v" "value_size v' = value_size v" "ref_count v' \<le> ref_count v"
    by (rule shrunk_objs [OF assms(1) v'(1)]) (rule that)
  then show "objs s' d = objs s d" using v' assms(4) by (auto simp: rc_def)
  have "address s' d \<noteq> 0" using v'(1) by (auto simp: objs_def split: if_splits)
  then show "address s' d = address s d" using assms(1) unfolding shrunk_def by metis
qed

text \<open>The invariant carries over to a state in which values keep their type and the lists under construction stay.\<close>

lemma ok_rebuild:
  assumes "ok s D R'" "table_inv s'" "hinv (objs s') D (R + roots s)" "ctx s' = ctx s" "\<forall>d \<in> D. d \<in># R"
    and types: "\<And>q v v'. objs s q = Some v \<Longrightarrow> objs s' q = Some v' \<Longrightarrow> vtype v' = vtype v"
    and fixed: "\<And>d. d \<in> D \<Longrightarrow> objs s' d = objs s d" and R: "\<And>r. r \<in># R \<Longrightarrow> r \<in> D \<or> user (objs s) r"
  shows "ok s' D R"
proof -
  have us: "user (objs s') q" if q: "q \<in># R + roots s" "user (objs s) q" for q
  proof -
    obtain v' where "objs s' q = Some v'" using hinv_root [OF assms(3) q(1)] by auto
    then show ?thesis using q(2) types [of q _ v'] unfolding user_def by auto
  qed
  show ?thesis
    unfolding ok_def ctx_roots [OF assms(4)] ctx_singles [OF assms(4)]
  proof (intro conjI ballI)
    show "q \<in> D \<or> user (objs s') q" if q: "q \<in># R + roots s" for q
    proof -
      have "q \<in> D \<or> user (objs s) q" using q R ok_global [OF assms(1), of q] by (auto simp: val_def)
      then show ?thesis using us [OF q] by blast
    qed
    show "rc (objs s') d = 1" if "d \<in> D" for d using fixed [OF that] assms(1) that by (simp add: ok_def rc_def)
  qed (use assms(2,3,5) ok_singles [OF assms(1)] in simp_all)
qed

lemma ok_rc: "ok s D R \<Longrightarrow> d \<in> D \<Longrightarrow> rc (objs s) d = 1"
  by (simp add: ok_def)

lemma ok_typed: "ok s D R \<Longrightarrow> r \<in># R \<Longrightarrow> r \<in> D \<or> user (objs s) r"
  unfolding ok_def by auto

text \<open>The reference that is dropped need not be one to a value that a program can get at.\<close>

lemma decref_hidden:
  assumes "ok s D R" "hinv (objs s) D (add_mset r (R + roots s))"
  obtains s' where "decref r s = (Inr (), s')" "does D R s s'" "exc_type s' = exc_type s" "ctx s' = ctx s"
proof -
  have "pinned (objs s) D (R + roots s)" using ok_within [OF assms(1)] by (auto simp: pinned_def)
  with assms(2) obtain s' where s': "decref r s = (Inr (), s')" "released D (R + roots s) s s'"
    using decref_run [OF ok_table [OF assms(1)]] by metis
  then have rel: "table_inv s'" "hinv (objs s') D (R + roots s)" "shrunk s s'" by (simp_all add: released_def)
  then have ctx: "ctx s' = ctx s" "exc_type s' = exc_type s" by (simp_all add: shrunk_def)
  have keep: "keeps D s s'"
    using assms(1) by (intro keepsI shrunk_fixed [OF rel(3,2)]) (auto simp: ok_def)
  have T: "vtype v' = vtype v" if "objs s q = Some v" "objs s' q = Some v'" for q v v'
    by (rule shrunk_objs [OF rel(3) that(2)]) (use that(1) in simp)
  have "ok s' D R"
    by (rule ok_rebuild [OF assms(1) rel(1,2) ctx(1) ok_within [OF assms(1)] T keepsD(1) [OF keep]]) (use ok_typed [OF assms(1)] in auto)
  then have "does D R s s'" using keep ctx(2) by (simp add: does_def later_def)
  with s'(1) ctx show thesis by (intro that)
qed

lemma decref_step:
  assumes "ok s D (add_mset r R)" "\<forall>d \<in> D. d \<in># R"
  obtains s' where "decref r s = (Inr (), s')" "does D R s s'" "exc_type s' = exc_type s" "ctx s' = ctx s"
  using decref_hidden [OF ok_drop [OF assms], of r] ok_hinv [OF assms(1)] that by auto

lemma runs_incref:
  assumes "ok s D R" "val s D r" "\<And>s'. does D (add_mset r R) s s' \<Longrightarrow> exc_type s' = exc_type s \<Longrightarrow> Q () s'"
  shows "runs (incref r) s Q"
proof (rule incref_step [OF assms(1,2)])
  fix s'
  assume "incref r s = (Inr (), s')" "does D (add_mset r R) s s'" "exc_type s' = exc_type s"
  then show ?thesis using assms(3) by (simp add: runs_Inr)
qed

lemma runs_decref:
  assumes "ok s D (add_mset r R)" "\<forall>d \<in> D. d \<in># R"
    "\<And>s'. does D R s s' \<Longrightarrow> exc_type s' = exc_type s \<Longrightarrow> ctx s' = ctx s \<Longrightarrow> Q () s'"
  shows "runs (decref r) s Q"
proof (rule decref_step [OF assms(1,2)])
  fix s'
  assume "decref r s = (Inr (), s')" "does D R s s'" "exc_type s' = exc_type s" "ctx s' = ctx s"
  then show ?thesis using assms(3) by (simp add: runs_Inr)
qed

section \<open>New values\<close>

text \<open>A value that has just been made: nothing but the result refers to it.\<close>

definition fresh :: "reference_t set \<Rightarrow> reference_t multiset \<Rightarrow> py_state \<Rightarrow> value_type_t \<Rightarrow> payload \<Rightarrow> reference_t \<Rightarrow> py_state \<Rightarrow> bool" where
  "fresh D R s t d r s' \<longleftrightarrow> ok s' (insert r D) (add_mset r R) \<and> keeps D s s' \<and> exc_type s' = exc_type s \<and> r \<notin> D \<and> 0 \<le> r \<and>
     (\<exists>v. objs s' r = Some v \<and> vtype v = t \<and> ref_count v = 1 \<and> data v = d)"

lemma fresh_ok:
  assumes "ok s D R" "objs s r = None" "table_inv s'" "objs s' = (objs s)(r \<mapsto> v)" "vtype v \<noteq> VAL_FREE" "ref_count v = 1" "ctx s' = ctx s"
    "exc_type s' = exc_type s" "0 \<le> r" "\<And>q. q \<noteq> r \<Longrightarrow> address s' q = address s q"
  shows "fresh D R s (vtype v) (data v) r s'"
proof -
  have c: "roots s' = roots s" "singles s' = singles s" using ctx_roots [OF assms(7)] ctx_singles [OF assms(7)] by simp_all
  have "r \<in> dom (objs s)" if "r \<in> D" using that assms(1) by (auto simp: ok_def hinv_def)
  then have r: "r \<notin> D" using assms(2) by auto
  have "ok s' (insert r D) (add_mset r R)"
    unfolding ok_def c
  proof (intro conjI ballI)
    show "hinv (objs s') (insert r D) (add_mset r R + roots s)"
      using hinv_new [OF ok_hinv [OF assms(1)] assms(2,6)] assms(4) by simp
    show "q \<in> insert r D \<or> user (objs s') q" if "q \<in># add_mset r R + roots s" for q
      using that assms(1) unfolding ok_def assms(4) user_def by auto
    show "d \<in># add_mset r R" "rc (objs s') d = 1" if "d \<in> insert r D" for d
      using that assms(1,6) r unfolding ok_def assms(4) by auto
  qed (use assms(3) ok_singles [OF assms(1)] in simp_all)
  moreover have "keeps D s s'" using assms(4) r by (intro keepsI assms(10)) auto
  ultimately show ?thesis using assms(4-9) r by (auto simp: fresh_def)
qed

lemma make_ref_step:
  assumes "ok s D R" "size_fine sz" "t \<noteq> VAL_FREE"
  obtains (full) m where "make_ref t sz s = (Inr NULL_REF, raised EXC_MEMORY_ERROR m s)"
  | (fits) r s' d v where "make_ref t sz s = (Inr r, s')" "fresh D R s t d r s'" "objs s' r = Some v" "sz \<le> value_size v"
  using ok_table [OF assms(1)] assms(2,3)
proof (cases rule: make_ref_cases)
  case (fits r s' v)
  then show thesis using that(2) [of r s' "data v" v] fresh_ok [OF assms(1), of r s' v] assms(3) by simp
qed (rule that(1))

lemma fresh_init:
  assumes "fresh D R s t d0 r s'" "t \<noteq> VAL_FREE" "objs s' r = Some v0" "payload_bytes d \<le> value_size v0"
  obtains s'' where "init_ref r d s' = (Inr r, s'')" "fresh D R s t d r s''"
proof -
  obtain v where v: "objs s' r = Some v" "vtype v = t" "ref_count v = 1" and f: "ok s' (insert r D) (add_mset r R)" "keeps D s s'"
    "exc_type s' = exc_type s" "r \<notin> D" "0 \<le> r" using assms(1) by (auto simp: fresh_def)
  have size: "payload_bytes d \<le> value_size v" using assms(3,4) v(1) by simp
  let ?v = "v\<lparr>data := d\<rparr>"
  let ?s = "with_value r ?v s'"
  note w = with_value_ok [OF ok_table [OF f(1)] v(1), of ?v, simplified]
  have o: "objs ?s = (objs s')(r \<mapsto> ?v)" and t: "table_inv ?s" using w assms(2) v(2) size by simp_all
  have c: "roots ?s = roots s'" "singles ?s = singles s'" by (rule ctx_roots ctx_singles; simp)+
  have "ok ?s (insert r D) (add_mset r R)"
    unfolding ok_def c
  proof (intro conjI ballI)
    show "hinv (objs ?s) (insert r D) (add_mset r R + roots s')"
      unfolding o by (rule hinv_upd [OF ok_hinv [OF f(1)] _ v(1)]) simp_all
    show "q \<in> insert r D \<or> user (objs ?s) q" if "q \<in># add_mset r R + roots s'" for q
      using that f(1) unfolding ok_def o user_def by auto
    show "q \<in># add_mset r R" "rc (objs ?s) q = 1" if "q \<in> insert r D" for q
      using that f(1) v(3) unfolding ok_def o by auto
  qed (use t ok_singles [OF f(1)] in simp_all)
  moreover have "keeps D s ?s" using f(2,4) unfolding keeps_def o by auto
  ultimately have "fresh D R s t d r ?s" using v f unfolding fresh_def o by simp
  moreover have "r \<noteq> NULL_REF" using f(5) by (simp add: NULL_REF_def)
  then have "init_ref r d s' = (Inr r, ?s)"
    using set_data_run [OF ok_table [OF f(1)] v(1) size] by (simp add: init_ref_def seq_Inr)
  ultimately show thesis by (rule that [rotated])
qed

text \<open>The constructors of \<open>eval_refs.c\<close>: no memory, or a new value with the members asked for.\<close>

lemma runs_make:
  assumes "ok s D R" "size_fine sz" "t \<noteq> VAL_FREE" "payload_bytes d \<le> sz"
    and full: "\<And>m. Q NULL_REF (raised EXC_MEMORY_ERROR m s)" and fits: "\<And>r s'. fresh D R s t d r s' \<Longrightarrow> Q r s'"
  shows "runs (bnd (make_ref t sz) (\<lambda>r. init_ref r d)) s Q"
  using assms(1-3)
proof (cases rule: make_ref_step)
  case (full m)
  then show ?thesis using assms(5) by (simp add: runs_Inr init_ref_def)
next
  case (fits r s1 d0 v)
  have "payload_bytes d \<le> value_size v" using assms(4) fits(4) by simp
  then show ?thesis
  proof (rule fresh_init [OF fits(2) assms(3) fits(3)])
    fix s'
    assume "init_ref r d s1 = (Inr r, s')" "fresh D R s t d r s'"
    then show ?thesis using fits(1) assms(6) by (simp add: runs_Inr)
  qed
qed

text \<open>A scalar needs no further building.\<close>

lemma fresh_scalar:
  assumes "fresh D R s t d r s'" "t = VAL_INTEGER \<and> d = Integer_value i \<or> t = VAL_STRING \<and> d = String_value x" "\<forall>d \<in> D. d \<in># R"
  shows "does D (add_mset r R) s s'"
proof -
  obtain v where v: "objs s' r = Some v" "vtype v = t" "ref_count v = 1" "data v = d" and f: "ok s' (insert r D) (add_mset r R)"
    "keeps D s s'" "exc_type s' = exc_type s" "r \<notin> D" using assms(1) by (auto simp: fresh_def)
  have h: "held v = []" "wf_value (objs s') v" "vtype v \<in> user_types" using assms(2) v by (auto simp: held_def wf_value_def user_types_def)
  have "ok s' D (add_mset r R)"
    unfolding ok_def
  proof (intro conjI ballI)
    show "hinv (objs s') D (add_mset r R + roots s')"
      using ok_hinv [OF f(1)] h v(1) f(4) by (intro hinv_close [of "objs s'" r D _ v]) simp_all
    show "q \<in> D \<or> user (objs s') q" if "q \<in># add_mset r R + roots s'" for q
      using that f(1) v(1) h(3) unfolding ok_def user_def by auto
    show "q \<in># add_mset r R" "rc (objs s') q = 1" if "q \<in> D" for q using that f(1) by (auto simp: ok_def)
  qed (use ok_table [OF f(1)] ok_singles [OF f(1)] in simp_all)
  then show ?thesis using f by (simp add: does_def later_def)
qed

lemma does_raised: "ok s D R \<Longrightarrow> t \<noteq> EXC_NONE \<Longrightarrow> does D R s (raised t m s)"
  by (intro does_reads) simp_all

lemma runs_make_int:
  assumes "ok s D R"
  shows "runs (make_reference_int i) s (yields D R s)"
  unfolding make_reference_int_def
proof (rule runs_make [OF assms])
  show "yields D R s NULL_REF (raised EXC_MEMORY_ERROR m s)" for m using does_raised [OF assms] by (simp add: yields_def)
  show "yields D R s r s'" if "fresh D R s VAL_INTEGER (Integer_value i) r s'" for r s'
    using fresh_scalar [OF that _ ok_within [OF assms]] by (intro yieldsI) simp_all
qed (simp_all add: size_fine_def)

text \<open>Lengths of strings for which no size wraps around.\<close>

lemma string_size: "n < 2 ^ 64 - 32 \<Longrightarrow> (sizeof_value_t + (n + 1)) mod 2 ^ 64 = n + 25 \<and> size_fine (n + 25)"
  by (simp add: sizeof_value_t_def size_fine_def)

lemma runs_make_string_value:
  assumes "ok s D R" "length t < 2 ^ 64 - 32"
  shows "runs (bnd (make_reference_string_length (length t)) (\<lambda>r. init_ref r (String_value t))) s (yields D R s)"
  unfolding make_reference_string_length_def string_size [OF assms(2), THEN conjunct1]
proof (rule runs_make [OF assms(1)])
  show "yields D R s NULL_REF (raised EXC_MEMORY_ERROR m s)" for m using does_raised [OF assms(1)] by (simp add: yields_def)
  show "yields D R s r s'" if "fresh D R s VAL_STRING (String_value t) r s'" for r s'
    using fresh_scalar [OF that _ ok_within [OF assms(1)]] by (intro yieldsI) simp_all
qed (use string_size [OF assms(2)] in simp_all)

end
