(* ===== verification/Py_Lists.thy ===== *)
theory Py_Lists
  imports Py_Steps
begin

text \<open>
  Lists of Subpython (\<open>eval_list.c\<close>): building a list from its elements, and reading, assigning and deleting
  an element keep the invariant of the evaluator.
\<close>

section \<open>Arrays\<close>

lemma array_set_run:
  assumes "table_inv s" "objs s a = Some va" "data va = Ref_array_value rs" "0 \<le> i" "i < int (length rs)"
  shows "array_set (address s a) i r s = (Inr (), with_value a (va\<lparr>data := Ref_array_value (rs[nat i := r])\<rparr>) s)"
proof -
  obtain b where b: "address s a = b" "store s b = Some va" using objsE [OF assms(1,2)] by metis
  then show ?thesis
    using assms(3-5) gives_run [OF gives_array_values [OF b(2) assms(3)]]
    by (simp add: array_set_def bnd_Inr update_value_Some with_value_def)
qed

lemma array_get_run:
  assumes "table_inv s" "objs s a = Some va" "data va = Ref_array_value rs" "0 \<le> i" "i < int (length rs)"
  shows "array_get (address s a) i s = (Inr (rs ! nat i), s)"
proof -
  obtain b where b: "address s a = b" "store s b = Some va" using objsE [OF assms(1,2)] by metis
  then show ?thesis using gives_run [OF gives_array_get [OF b(2) assms(3-5)]] by simp
qed

lemma set_data_at_run:
  assumes "table_inv s" "objs s l = Some v" "payload_bytes d \<le> value_size v"
  shows "set_data_at (address s l) d s = (Inr (), with_value l (v\<lparr>data := d\<rparr>) s)"
proof -
  obtain b where "address s l = b" "store s b = Some v" using objsE [OF assms(1,2)] by metis
  then show ?thesis using assms(3) by (simp add: set_data_at_def write_data_Some with_value_def)
qed

text \<open>A step that changes the members of a value set apart.\<close>

lemma hinv_with_value:
  assumes "table_inv s" "hinv (objs s) D R" "objs s q = Some v" "q \<in> D" "q \<in># R" "payload_bytes d \<le> value_size v"
  shows "table_inv (with_value q (v\<lparr>data := d\<rparr>) s)" "hinv (objs (with_value q (v\<lparr>data := d\<rparr>) s)) D R"
    "objs (with_value q (v\<lparr>data := d\<rparr>) s) = (objs s)(q \<mapsto> v\<lparr>data := d\<rparr>)"
proof -
  have "vtype v \<noteq> VAL_FREE" using objsE [OF assms(1,3)] by metis
  then show o: "objs (with_value q (v\<lparr>data := d\<rparr>) s) = (objs s)(q \<mapsto> v\<lparr>data := d\<rparr>)"
    and "table_inv (with_value q (v\<lparr>data := d\<rparr>) s)"
    using with_value_ok [OF assms(1,3), of "v\<lparr>data := d\<rparr>"] assms(6) by simp_all
  show "hinv (objs (with_value q (v\<lparr>data := d\<rparr>) s)) D R"
    unfolding o using assms(4,5) by (intro hinv_upd [OF assms(2) _ assms(3)]) simp_all
qed

text \<open>Moving the elements behind a deleted one down by one place.\<close>

definition shifted :: "reference_t list \<Rightarrow> int list \<Rightarrow> reference_t list" where
  "shifted rs is = foldl (\<lambda>rs i. rs[nat i := rs ! nat (i + 1)]) rs is"

lemma shifted_form:
  "shifted (xs @ e # ys @ zs) [int (length xs)..int (length xs + length ys) - 1] = xs @ ys @ last (e # ys) # zs"
proof (induction ys arbitrary: xs e)
  case (Cons y ys)
  have "[int (length xs)..int (length xs + length (y # ys)) - 1] =
      int (length xs) # [int (length (xs @ [y]))..int (length (xs @ [y]) + length ys) - 1]"
    by (subst upto_rec1) (simp_all add: algebra_simps)
  moreover have "(xs @ e # (y # ys) @ zs)[length xs := (xs @ e # (y # ys) @ zs) ! nat (int (length xs) + 1)] = (xs @ [y]) @ y # ys @ zs"
    by (simp add: nat_add_distrib list_update_append nth_append)
  ultimately show ?case using Cons.IH [of "xs @ [y]" y] by (simp add: shifted_def)
qed (simp add: shifted_def)

lemma shift_run:
  assumes "table_inv s" "objs s a = Some va" "data va = Ref_array_value rs" "vtype va = VAL_REF_ARRAY"
  shows "(\<And>i. i \<in> set is \<Longrightarrow> 0 \<le> i \<and> i + 1 < int (length rs)) \<Longrightarrow>
    each (shift_slot (address s a)) is s = (Inr (), with_value a (va\<lparr>data := Ref_array_value (shifted rs is)\<rparr>) s)"
  using assms
proof (induction "is" arbitrary: s va rs)
  case Nil
  obtain b where "address s a = b" "store s b = Some va" using objsE [OF Nil.prems(2,3)] by metis
  moreover have "va\<lparr>data := Ref_array_value rs\<rparr> = va" using Nil.prems(4) by simp
  ultimately show ?case by (simp add: shifted_def with_value_def fun_upd_idem)
next
  case (Cons i "is")
  have i: "0 \<le> i" "i + 1 < int (length rs)" using Cons.prems(1) [of i] by auto
  let ?v = "va\<lparr>data := Ref_array_value (rs[nat i := rs ! nat (i + 1)])\<rparr>"
  let ?s = "with_value a ?v s"
  have s1: "shift_slot (address s a) i s = (Inr (), ?s)"
    using array_get_run [OF Cons.prems(2-4), of "i + 1"] array_set_run [OF Cons.prems(2-4), of i] i
    by (simp add: shift_slot_def bnd_Inr)
  have o: "objs ?s = (objs s)(a \<mapsto> ?v)" "table_inv ?s"
    using with_value_ok [OF Cons.prems(2,3), of ?v] table_inv_fits [OF Cons.prems(2,3)] Cons.prems(4,5) by simp_all
  have "each (shift_slot (address ?s a)) is ?s =
      (Inr (), with_value a (?v\<lparr>data := Ref_array_value (shifted (rs[nat i := rs ! nat (i + 1)]) is)\<rparr>) ?s)"
    using Cons.prems(1,5) o by (intro Cons.IH) auto
  then show ?case using s1 by (simp add: seq_Inr shifted_def)
qed

section \<open>Putting a list together\<close>

text \<open>What an array under construction holds is a value elsewhere.\<close>

lemma built_entries:
  assumes "ok s (insert l (insert a D)) (add_mset a (R + M))" "\<forall>d \<in> D. d \<in># R" "l \<in># R" "r \<in># M"
  shows "user (objs s) r"
proof -
  let ?D = "insert l (insert a D)" and ?R = "add_mset a (R + M)"
  have "r \<notin> ?D"
  proof
    assume d: "r \<in> ?D"
    have "0 < count M r" using assms(4) by simp
    moreover have "0 < of_bool (r = a) + count R r" using d assms(2,3) by auto
    moreover have "count (?R + roots s) r = (of_bool (r = a) + count R r) + count M r + count (roots s) r" by simp
    ultimately show False using ok_once(1) [OF assms(1) d] by linarith
  qed
  then show ?thesis using ok_typed [OF assms(1), of r] assms(4) by auto
qed

text \<open>A root other than the list and its array is not one of them.\<close>

lemma built_roots:
  assumes "ok s (insert l (insert a D)) (add_mset a (add_mset l R + M))" "r \<in># R + roots s"
  shows "r \<in> D \<or> user (objs s) r"
proof -
  let ?D = "insert l (insert a D)" and ?R = "add_mset a (add_mset l R + M)"
  have "r \<notin> {l, a}"
  proof
    assume "r \<in> {l, a}"
    moreover have "0 < count (R + roots s) r" using assms(2) by simp
    moreover have "count (?R + roots s) r = of_bool (r = a) + of_bool (r = l) + count (R + roots s) r + count M r" by simp
    ultimately show False using ok_once(1) [OF assms(1), of r] by (auto simp: count_eq_zero_iff)
  qed
  moreover have "r \<in># ?R + roots s" using assms(2) by auto
  ultimately show ?thesis using assms(1) unfolding ok_def by blast
qed

lemma ok_close_list:
  assumes "ok s (insert l (insert a D)) (add_mset a (R + mset (held va)))" "l \<notin> D" "a \<notin> D" "l \<noteq> a"
    "objs s l = Some v" "vtype v = VAL_LIST" "data v = List_value (int n) a" "0 \<le> a"
    "objs s a = Some va" "vtype va = VAL_REF_ARRAY" "data va = Ref_array_value rs" "n \<le> length rs"
    "\<And>i. i < n \<Longrightarrow> 0 \<le> rs ! i" "\<And>r. r \<in> set rs \<Longrightarrow> r = NULL_REF \<or> 0 \<le> r" "\<forall>d \<in> D. d \<in># R" "l \<in># R"
  shows "ok s D R"
proof -
  let ?D = "insert l (insert a D)" and ?R = "add_mset a (R + mset (held va))"
  note rc1 = ok_rc [OF assms(1)]
  have entry: "user (objs s) r" if "r \<in> set (held va)" for r
    using that by (intro built_entries [OF assms(1,15,16)]) simp
  have hl: "held v = [a]" "held va = filter (\<lambda>r. 0 \<le> r) rs" using assms(6-8,10,11) by (simp_all add: held_def)
  have el: "elements_of (objs s) a = Some rs" using assms(9-11) by (simp add: elements_of_def)
  have wl: "wf_value (objs s) v" using assms(6-8,12,13) rc1 [of a] el by (simp add: wf_value_def)
  have wa: "wf_value (objs s) va" using assms(10,11,14) entry hl(2) by (auto simp: wf_value_def)
  have "hinv (objs s) (insert a D) (R + roots s + mset (held va))"
    using ok_hinv [OF assms(1)] assms(2,4,5) hl(1) wl by (intro hinv_close [of "objs s" l "insert a D" _ v]) (simp_all add: ac_simps)
  then have H: "hinv (objs s) D (R + roots s)" using assms(3,9) wa by (intro hinv_close [of "objs s" a D _ va])
  show ?thesis
    unfolding ok_def
  proof (intro conjI ballI)
    show "r \<in> D \<or> user (objs s) r" if "r \<in># R + roots s" for r
    proof (cases "r \<in> {l, a}")
      case False
      then show ?thesis using that assms(1) unfolding ok_def by auto
    next
      case True
      have "r \<noteq> a"
      proof
        assume "r = a"
        then have "0 < count (R + roots s) a" using that by simp
        then show False using ok_once(1) [OF assms(1), of a] by (simp add: count_eq_zero_iff)
      qed
      then show ?thesis using True assms(5,6) by (auto simp: user_def user_types_def)
    qed
    show "d \<in># R" "rc (objs s) d = 1" if "d \<in> D" for d using that assms(15) rc1 by auto
  qed (use H ok_table [OF assms(1)] ok_singles [OF assms(1)] in simp_all)
qed

section \<open>Subscripts\<close>

text \<open>A list that is in use, with its array.\<close>

definition list_at :: "py_state \<Rightarrow> reference_t set \<Rightarrow> reference_t \<Rightarrow> value_t \<Rightarrow> nat \<Rightarrow> reference_t \<Rightarrow> value_t \<Rightarrow> reference_t list \<Rightarrow> bool" where
  "list_at s D l v n a va rs \<longleftrightarrow> val s D l \<and> objs s l = Some v \<and> vtype v = VAL_LIST \<and> data v = List_value (int n) a \<and> held v = [a] \<and>
     a \<notin> D \<and> 0 \<le> a \<and> objs s a = Some va \<and> vtype va = VAL_REF_ARRAY \<and> data va = Ref_array_value rs \<and> ref_count va = 1 \<and>
     n \<le> length rs \<and> (\<forall>i < n. val s D (rs ! i))"

lemma list_at_ex:
  assumes "ok s D R" "val s D l" "objs s l = Some v" "vtype v = VAL_LIST"
  obtains n a va rs where "list_at s D l v n a va rs"
proof (rule list_view [OF assms])
  fix n a b va rs
  assume "data v = List_value (int n) a" "held v = [a]" "a \<notin> D" "gives s (deref a) b" "address s a = b"
    "store s b = Some va" "objs s a = Some va" "vtype va = VAL_REF_ARRAY" "data va = Ref_array_value rs" "ref_count va = 1" "n \<le> length rs"
    "\<And>i. i < n \<Longrightarrow> val s D (rs ! i)"
  then show thesis using assms objs_nonneg [of s a va] by (intro that [of n a va rs]) (simp add: list_at_def)
qed

lemma list_places:
  assumes "ok s D R" "list_at s D l v n a va rs"
  shows "store s (address s l) = Some v" "gives s (deref l) (address s l)" "store s (address s a) = Some va" "gives s (deref a) (address s a)"
proof -
  have o: "objs s l = Some v" "objs s a = Some va" using assms(2) by (simp_all add: list_at_def)
  obtain b where "address s l = b" "store s b = Some v" "deref l s = (Inr b, s)" using objsE [OF ok_table [OF assms(1)] o(1)] by metis
  then show "store s (address s l) = Some v" "gives s (deref l) (address s l)" by (auto intro: gives_deref)
  obtain c where "address s a = c" "store s c = Some va" "deref a s = (Inr c, s)" using objsE [OF ok_table [OF assms(1)] o(2)] by metis
  then show "store s (address s a) = Some va" "gives s (deref a) (address s a)" by (auto intro: gives_deref)
qed

lemma list_at_fields:
  assumes "ok s D R" "list_at s D l v n a va rs"
  shows "gives s (list_coerce (address s l)) (address s l)" "gives s (list_size (address s l)) (int n)"
    "gives s (list_refarray (address s l)) (address s a)" "gives s (list_fields (address s l)) (int n, a)"
    "0 \<le> i \<Longrightarrow> i < int n \<Longrightarrow> gives s (array_get (address s a) i) (rs ! nat i)"
  using ok_list_ops [OF list_places(1) [OF assms] _ _ list_places(4,3) [OF assms]] assms(2)
    gives_list_fields [OF list_places(1) [OF assms]] gives_array_get [OF list_places(3) [OF assms]]
  by (auto simp: list_at_def)

text \<open>
  The subscript is an integer, negative ones count from the end; anything else, and an index outside
  the list, raises an exception.
\<close>

lemma runs_subscript:
  assumes "ok s D R" "list_at s D l v n a va rs" "val s D x"
  shows "runs (bnd (deref x) (list_coerce_subscript (address s l))) s
    (\<lambda>i s'. same_heap s s' \<and> later s s' \<and> (exc_type s' = EXC_NONE \<longrightarrow> 0 \<le> i \<and> i < int n))"
proof -
  obtain b w where w: "store s b = Some w" "gives s (deref x) b" "wf_value (objs s) w" using valE [OF assms(1,3)] by metis
  note t = gives_type_at [OF w(1)]
  show ?thesis
  proof (cases "vtype w = VAL_INTEGER")
    case True
    then obtain i where "data w = Integer_value i" using w(3) by (cases "data w") (auto simp: wf_value_def)
    then have "gives s (integer_value b) i" by (rule gives_integer_value [OF w(1)])
    then show ?thesis
      using True t list_at_fields(2) [OF assms(1,2)]
      by (auto simp: list_coerce_subscript_def runs_gives [OF w(2)] runs_gives Let_def)
  next
    case False
    then show ?thesis using t by (simp add: list_coerce_subscript_def runs_gives [OF w(2)] runs_gives)
  qed
qed

lemma list_at_same: "same_heap s s' \<Longrightarrow> list_at s' D l v n a va rs = list_at s D l v n a va rs"
  by (simp add: list_at_def same_heap_objs same_heap_val)

lemma list_at_apart: "list_at s D l v n a va rs \<Longrightarrow> l \<notin> D \<and> l \<noteq> a \<and> user (objs s) l \<and> \<not> user (objs s) a"
  by (auto simp: list_at_def val_def user_def user_types_def)

lemma runs_gives_same: "gives s m x \<Longrightarrow> same_heap s s' \<Longrightarrow> runs m s' Q \<longleftrightarrow> Q x s'"
  by (simp add: runs_Inr gives_def)

text \<open>The common start of the operations on an element: an exception, or the index and the array.\<close>

lemma runs_list_start:
  assumes "ok s D R" "list_at s D l v n a va rs" "val s D x"
    and exc: "\<And>s'. does D R s s' \<Longrightarrow> exc_type s' \<noteq> EXC_NONE \<Longrightarrow> runs stopped s' Q"
    and cont: "\<And>i s'. same_heap s s' \<Longrightarrow> does D R s s' \<Longrightarrow> exc_type s' = EXC_NONE \<Longrightarrow> 0 \<le> i \<Longrightarrow> i < int n \<Longrightarrow> runs (k (address s l) i (address s a)) s' Q"
  shows "runs (bnd (list_coerce (address s l)) (\<lambda>l. bnd (deref x) (\<lambda>sa. bnd (list_coerce_subscript l sa) (\<lambda>i.
     bnd exception_occurred (\<lambda>e. if e then stopped else bnd (list_refarray l) (\<lambda>array. k l i array)))))) s Q"
proof -
  let ?k = "\<lambda>i. bnd exception_occurred (\<lambda>e. if e then stopped else bnd (list_refarray (address s l)) (k (address s l) i))"
  have "runs (bnd (deref x) (list_coerce_subscript (address s l))) s (\<lambda>i s'. runs (?k i) s' Q)"
  proof (rule runs_mono [OF runs_subscript [OF assms(1-3)]])
    fix i s'
    assume h: "same_heap s s' \<and> later s s' \<and> (exc_type s' = EXC_NONE \<longrightarrow> 0 \<le> i \<and> i < int n)"
    then have d: "does D R s s'" using does_reads [OF assms(1)] by blast
    show "runs (?k i) s' Q"
      using exc [OF d] cont [OF _ d, of i] h runs_gives_same [OF list_at_fields(3) [OF assms(1,2)]] by simp
  qed
  then show ?thesis by (simp add: runs_gives [OF list_at_fields(1) [OF assms(1,2)]])
qed

lemma runs_list_get:
  assumes "ok s D R" "list_at s D l v n a va rs" "val s D x"
  shows "runs (list_subscr_get (address s l) x) s (yields D R s)"
  unfolding list_subscr_get_def
proof (rule runs_list_start [OF assms])
  show "runs (ret NULL_REF) s' (yields D R s)" if "does D R s s'" "exc_type s' \<noteq> EXC_NONE" for s'
    using that by (simp add: yields_exc)
  fix i s'
  assume i: "0 \<le> i" "i < int n" and s': "same_heap s s'" "does D R s s'"
  let ?e = "rs ! nat i"
  have okay: "ok s' D R" using s'(2) by (rule does_ok)
  have l: "list_at s' D l v n a va rs" using assms(2) s'(1) by (simp add: list_at_same)
  then have e: "val s' D ?e" "nat i < n" "n \<le> length rs" using i by (auto simp: list_at_def)
  have a: "address s' a = address s a" using same_heap_address [OF s'(1)] by simp
  show "runs (bnd (array_get (address s a) i) (\<lambda>r. seq (incref r) (array_get (address s a) i))) s' (yields D R s)"
  proof (rule incref_step [OF okay e(1)])
    fix s2
    assume s2: "incref ?e s' = (Inr (), s2)" "does D (add_mset ?e R) s' s2" "\<And>q. address s2 q = address s' q"
      "objs s2 = (objs s')(?e := map_option (\<lambda>v. v\<lparr>ref_count := ref_count v + 1\<rparr>) (objs s' ?e))"
    have "?e \<noteq> a" using e(1) list_at_apart [OF l] by (auto simp: val_def)
    then have "objs s2 a = Some va" "data va = Ref_array_value rs" using l by (simp_all add: s2(4) list_at_def)
    then have "array_get (address s a) i s2 = (Inr ?e, s2)"
      using array_get_run [OF ok_table [OF does_ok [OF s2(2)]], of a va rs i] i e a s2(3) by simp
    moreover have "yields D R s ?e s2"
      using does_yields [OF s'(2) yieldsI [OF s2(2)]] .
    ultimately show ?thesis
      using s2(1) list_at_fields(5) [OF okay l i] by (simp add: runs_gives runs_Inr a)
  qed
qed

section \<open>Changing a list\<close>

text \<open>
  While an element is exchanged, the list and its array are set apart: what they hold is counted with
  the roots.
\<close>

lemma list_opened:
  assumes "ok s D R" "list_at s D l v n a va rs"
  shows "hinv (objs s) (insert l (insert a D)) (add_mset a (R + roots s + mset (held va)))"
proof -
  have l: "objs s l = Some v" "held v = [a]" "a \<notin> D" "objs s a = Some va" using assms(2) by (simp_all add: list_at_def)
  have "hinv (objs s) (insert a D) (R + roots s + mset (held va))" by (rule hinv_open [OF ok_hinv [OF assms(1)] l(4,3)])
  from hinv_open [OF this l(1)] show ?thesis using list_at_apart [OF assms(2)] l(2) by simp
qed

definition part :: "py_state \<Rightarrow> reference_t \<Rightarrow> value_type_t \<Rightarrow> payload \<Rightarrow> bool" where
  "part t q ty d \<longleftrightarrow> (\<exists>w. objs t q = Some w \<and> vtype w = ty \<and> data w = d)"

definition types_kept :: "py_state \<Rightarrow> py_state \<Rightarrow> bool" where
  "types_kept s t \<longleftrightarrow> (\<forall>q v v'. objs s q = Some v \<longrightarrow> objs t q = Some v' \<longrightarrow> vtype v' = vtype v)"

lemma types_keptI: "(\<And>q v v'. objs s q = Some v \<Longrightarrow> objs t q = Some v' \<Longrightarrow> vtype v' = vtype v) \<Longrightarrow> types_kept s t"
  unfolding types_kept_def by blast

lemma types_keptD: "types_kept s t \<Longrightarrow> objs s q = Some v \<Longrightarrow> objs t q = Some v' \<Longrightarrow> vtype v' = vtype v"
  unfolding types_kept_def by blast

lemma types_kept_user: "types_kept s t \<Longrightarrow> user (objs s) q \<Longrightarrow> objs t q = Some w \<Longrightarrow> user (objs t) q"
proof -
  assume h: "types_kept s t" "user (objs s) q" "objs t q = Some w"
  then obtain v where "objs s q = Some v" "vtype v \<in> user_types" by (auto simp: user_def)
  moreover have "vtype w = vtype v" by (rule types_keptD [OF h(1) calculation(1) h(3)])
  ultimately show ?thesis using h(3) by (simp add: user_def)
qed

lemma types_kept_upd:
  assumes "types_kept s t" "objs t x = Some w" "objs t' = (objs t)(x \<mapsto> w')" "vtype w' = vtype w"
  shows "types_kept s t'"
proof (rule types_keptI)
  fix q v v'
  assume q: "objs s q = Some v" "objs t' q = Some v'"
  show "vtype v' = vtype v"
  proof (cases "q = x")
    case True
    then have "vtype w = vtype v" using types_keptD [OF assms(1) q(1)] assms(2) by blast
    then show ?thesis using True q(2) assms(3,4) by simp
  next
    case False
    then have "objs t q = Some v'" using q(2) assms(3) by simp
    then show ?thesis by (rule types_keptD [OF assms(1) q(1)])
  qed
qed

definition apart :: "py_state \<Rightarrow> reference_t set \<Rightarrow> reference_t multiset \<Rightarrow> reference_t \<Rightarrow> reference_t \<Rightarrow> reference_t multiset \<Rightarrow> py_state \<Rightarrow> bool" where
  "apart s D R l a M t \<longleftrightarrow> table_inv t \<and> ctx t = ctx s \<and> exc_type t = exc_type s \<and>
     hinv (objs t) (insert l (insert a D)) (add_mset a (R + roots s + M)) \<and>
     types_kept s t \<and> keeps D s t \<and> rc (objs t) a = 1 \<and> address t l = address s l \<and> address t a = address s a"

lemma apart_open:
  assumes "ok s D R" "list_at s D l v n a va rs"
  shows "apart s D R l a (mset (held va)) s" "part s l VAL_LIST (List_value (int n) a)" "part s a VAL_REF_ARRAY (Ref_array_value rs)"
  using list_opened [OF assms] ok_table [OF assms(1)] assms(2)
  by (auto simp: apart_def part_def list_at_def rc_def intro: types_keptI)

lemma apart_decref:
  assumes "ok s D R" "l \<in># R" "apart s D R l a (add_mset e M) t"
  obtains t' where "decref e t = (Inr (), t')" "apart s D R l a M t'" "\<And>q ty d. q \<in> {l, a} \<Longrightarrow> part t q ty d \<Longrightarrow> part t' q ty d"
proof -
  let ?D = "insert l (insert a D)" and ?R = "add_mset a (R + roots s + M)"
  have t: "table_inv t" "ctx t = ctx s" "exc_type t = exc_type s" "hinv (objs t) ?D (add_mset e ?R)" "rc (objs t) a = 1"
    "address t l = address s l" "address t a = address s a" "keeps D s t"
    "types_kept s t"
    using assms(3) by (simp_all add: apart_def add_mset_commute)
  have pin: "d \<in># ?R" if "d \<in> ?D" for d using that assms(2) ok_within [OF assms(1)] by auto
  then have "pinned (objs t) ?D ?R" by (auto simp: pinned_def)
  then obtain t' where t': "decref e t = (Inr (), t')" "released ?D ?R t t'" using decref_run [OF t(1,4)] by metis
  then have rel: "table_inv t'" "hinv (objs t') ?D ?R" "shrunk t t'" by (simp_all add: released_def)
  have alive: "\<exists>w. objs t' d = Some w" if "d \<in> ?D" for d using hinv_root [OF rel(2) pin [OF that]] by blast
  have adr: "address t' d = address t d" if "d \<in> ?D" for d
    using alive [OF that] rel(3) unfolding shrunk_def by (auto simp: objs_def split: if_splits)
  have fixed: "keeps D s t'"
  proof -
    have r: "rc (objs t) d = 1" if "d \<in> D" for d using keepsD(1) [OF t(8) that] ok_rc [OF assms(1) that] by (simp add: rc_def)
    have "objs t' d = objs t d" "address t' d = address t d" if "d \<in> D" for d
      using that r pin by (auto intro!: shrunk_fixed [OF rel(3,2)])
    then show ?thesis using keepsD [OF t(8)] by (intro keepsI) auto
  qed
  have types: "types_kept s t'"
  proof (rule types_keptI)
    fix q w w'
    assume w: "objs s q = Some w" "objs t' q = Some w'"
    show "vtype w' = vtype w"
    proof (rule shrunk_objs [OF rel(3) w(2)])
      fix w0 assume w0: "objs t q = Some w0" "vtype w' = vtype w0"
      have "vtype w0 = vtype w" by (rule types_keptD [OF t(9) w(1) w0(1)])
      with w0(2) show ?thesis by simp
    qed
  qed
  have "objs t' a = objs t a" using t(5) pin by (intro shrunk_fixed [OF rel(3,2)]) auto
  then have "rc (objs t') a = 1" using t(5) by (simp add: rc_def)
  moreover have "ctx t' = ctx s" "exc_type t' = exc_type s" using rel(3) t(2,3) by (simp_all add: shrunk_def)
  ultimately have "apart s D R l a M t'"
    unfolding apart_def using rel(1,2) types fixed adr [of l] adr [of a] t(6,7) by simp
  moreover have "part t' q ty d" if q: "q \<in> {l, a}" "part t q ty d" for q ty d
  proof -
    obtain w where w: "objs t' q = Some w" using alive q(1) by auto
    show ?thesis by (rule shrunk_objs [OF rel(3) w]) (use q(2) w in \<open>simp add: part_def\<close>)
  qed
  ultimately show thesis using that t'(1) by blast
qed

lemma apart_incref:
  assumes "ok s D R" "x \<in># R" "val s D x" "apart s D R l a M t" "\<not> user (objs s) a"
  obtains t' where "incref x t = (Inr (), t')" "apart s D R l a (add_mset x M) t'" "\<And>q ty d. part t q ty d \<Longrightarrow> part t' q ty d"
proof -
  let ?D = "insert l (insert a D)" and ?R = "add_mset a (R + roots s + M)"
  have t: "table_inv t" "hinv (objs t) ?D ?R" "types_kept s t"
    using assms(4) by (simp_all add: apart_def)
  obtain w where w: "objs t x = Some w" using hinv_root [OF t(2), of x] assms(2) by auto
  have u: "user (objs t) x" using types_kept_user [OF t(3) _ w] assms(3) by (simp add: val_def)
  then have nf: "vtype w \<noteq> VAL_FREE" using w by (auto simp: user_def user_types_def)
  let ?w = "w\<lparr>ref_count := ref_count w + 1\<rparr>"
  let ?t = "with_value x ?w t"
  have o: "objs ?t = (objs t)(x \<mapsto> ?w)" "table_inv ?t" using with_value_ok [OF t(1) w, of ?w] nf by simp_all
  have x: "x \<notin> D" "x \<noteq> a" using assms(3,5) by (auto simp: val_def)
  have types: "types_kept s ?t"
    by (rule types_kept_upd [OF t(3) w o(1)]) simp
  have "hinv (objs ?t) ?D (add_mset a (R + roots s + add_mset x M))"
    unfolding o using hinv_incref [OF t(2) w u] by (simp add: add_mset_commute)
  moreover have "keeps D s ?t" using assms(4) x(1) unfolding apart_def keeps_def o by auto
  moreover have "rc (objs ?t) a = 1" using assms(4) x(2) unfolding o by (simp add: apart_def)
  ultimately have "apart s D R l a (add_mset x M) ?t"
    using o(2) types assms(4) unfolding apart_def by simp
  moreover have "part ?t q ty d" if "part t q ty d" for q ty d using that w unfolding part_def o by auto
  ultimately show thesis using that incref_run [OF t(1) w] by blast
qed

lemma apart_with_value:
  assumes "l \<in># R" "l \<noteq> a" "apart s D R l a M t" "objs t q = Some w" "q \<in> {l, a}" "q \<notin> D" "payload_bytes d \<le> value_size w"
  shows "apart s D R l a M (with_value q (w\<lparr>data := d\<rparr>) t)" "part (with_value q (w\<lparr>data := d\<rparr>) t) q (vtype w) d"
    "\<And>q' ty d'. q' \<noteq> q \<Longrightarrow> part t q' ty d' \<Longrightarrow> part (with_value q (w\<lparr>data := d\<rparr>) t) q' ty d'"
proof -
  let ?D = "insert l (insert a D)" and ?R = "add_mset a (R + roots s + M)" and ?t = "with_value q (w\<lparr>data := d\<rparr>) t"
  have t: "table_inv t" "hinv (objs t) ?D ?R" "types_kept s t"
    using assms(3) by (simp_all add: apart_def)
  have "q \<in> ?D" "q \<in># ?R" using assms(1,5) by auto
  note w = hinv_with_value [OF t(1,2) assms(4) this assms(7)]
  have "types_kept s ?t"
    by (rule types_kept_upd [OF t(3) assms(4) w(3)]) simp
  moreover have "keeps D s ?t" using assms(3,6) unfolding apart_def keeps_def w(3) by auto
  moreover have "rc (objs ?t) a = 1" using assms(3,4) unfolding w(3) by (auto simp: apart_def rc_Some)
  ultimately show "apart s D R l a M ?t" using w(1,2) assms(3) unfolding apart_def by simp
  show "part ?t q (vtype w) d" "\<And>q' ty d'. q' \<noteq> q \<Longrightarrow> part t q' ty d' \<Longrightarrow> part ?t q' ty d'" unfolding part_def w(3) by auto
qed

lemma apart_close:
  assumes "ok s D R" "apart s D R l a (mset (filter (\<lambda>r. 0 \<le> r) rs)) t" "l \<notin> D" "a \<notin> D" "l \<noteq> a" "0 \<le> a"
    "part t l VAL_LIST (List_value (int n) a)" "part t a VAL_REF_ARRAY (Ref_array_value rs)"
    "n \<le> length rs" "\<And>i. i < n \<Longrightarrow> 0 \<le> rs ! i" "\<And>r. r \<in> set rs \<Longrightarrow> r = NULL_REF \<or> 0 \<le> r \<and> user (objs s) r"
  shows "does D R s t"
proof -
  have t: "table_inv t" "ctx t = ctx s" "exc_type t = exc_type s" "rc (objs t) a = 1" "keeps D s t"
    "hinv (objs t) (insert l (insert a D)) (add_mset a (R + roots s + mset (filter (\<lambda>r. 0 \<le> r) rs)))"
    "types_kept s t"
    using assms(2) by (simp_all add: apart_def)
  obtain v where l: "objs t l = Some v" "vtype v = VAL_LIST" "data v = List_value (int n) a" using assms(7) by (auto simp: part_def)
  obtain va where a: "objs t a = Some va" "vtype va = VAL_REF_ARRAY" "data va = Ref_array_value rs" using assms(8) by (auto simp: part_def)
  have hl: "held v = [a]" "held va = filter (\<lambda>r. 0 \<le> r) rs" using l a assms(6) by (simp_all add: held_def)
  have "user (objs t) r" if r: "r \<in> set rs" "0 \<le> r" "user (objs s) r" for r
  proof -
    obtain w where "objs t r = Some w" using hinv_root [OF t(6), of r] r(1,2) by auto
    then show ?thesis by (rule types_kept_user [OF t(7) r(3)])
  qed
  then have wa: "wf_value (objs t) va" using a assms(11) by (auto simp: wf_value_def)
  have "elements_of (objs t) a = Some rs" using a by (simp add: elements_of_def)
  then have wl: "wf_value (objs t) v" using l t(4) assms(6,9,10) by (simp add: wf_value_def)
  have "hinv (objs t) (insert a D) (R + roots s + mset (held va))"
    using t(6) assms(3,5) l(1) hl wl by (intro hinv_close [of "objs t" l "insert a D" _ v]) simp_all
  then have h: "hinv (objs t) D (R + roots s)" using assms(4) a(1) wa by (intro hinv_close [of "objs t" a D _ va])
  have "ok t D R"
    by (rule ok_rebuild [OF assms(1) t(1) h t(2) ok_within [OF assms(1)]]) (erule (1) types_keptD [OF t(7)], erule keepsD(1) [OF t(5)], erule ok_typed [OF assms(1)])
  then show ?thesis using t(3,5) by (simp add: does_def later_def)
qed

lemma array_entries:
  assumes "ok s D R" "list_at s D l v n a va rs" "r \<in> set rs"
  shows "r = NULL_REF \<or> 0 \<le> r \<and> user (objs s) r"
proof -
  have a: "a \<notin> D" "objs s a = Some va" "vtype va = VAL_REF_ARRAY" "data va = Ref_array_value rs" using assms(2) by (simp_all add: list_at_def)
  then have "wf_value (objs s) va" using hinv_wf [OF ok_hinv [OF assms(1)]] by blast
  then show ?thesis using a(3,4) assms(3) by (auto simp: wf_value_def)
qed

lemma list_nonneg: "list_at s D l v n a va rs \<Longrightarrow> i < n \<Longrightarrow> 0 \<le> rs ! i"
  by (auto simp: list_at_def val_def user_def dest: objs_nonneg)

lemma list_held: "list_at s D l v n a va rs \<Longrightarrow> held va = filter (\<lambda>r. 0 \<le> r) rs"
  by (simp add: list_at_def held_def)

lemma split_at:
  assumes "i < length rs"
  obtains xs ys where "rs = xs @ (rs ! i) # ys" "i = length xs"
  using assms by (intro that [of "take i rs" "drop (Suc i) rs"]) (simp_all add: id_take_nth_drop)

lemma part_obj: "part t q ty d \<Longrightarrow> \<exists>w. objs t q = Some w \<and> vtype w = ty \<and> data w = d"
  by (simp add: part_def)

text \<open>The elements of a list, as far as its length goes.\<close>

definition elements :: "py_state \<Rightarrow> reference_t \<Rightarrow> reference_t list option" where
  "elements s l = (case objs s l of None \<Rightarrow> None
     | Some v \<Rightarrow> (case data v of List_value n a \<Rightarrow> map_option (take (nat n)) (elements_of (objs s) a) | _ \<Rightarrow> None))"

lemma part_elements:
  "part t l VAL_LIST (List_value (int n) a) \<Longrightarrow> part t a VAL_REF_ARRAY (Ref_array_value rs) \<Longrightarrow> elements t l = Some (take n rs)"
  by (auto simp: part_def elements_def elements_of_def)

lemma list_at_elements: "list_at s D l v n a va rs \<Longrightarrow> elements s l = Some (take n rs)"
  by (simp add: list_at_def elements_def elements_of_def)

text \<open>The parts of an array around the element that is deleted: before, behind, and beyond the length of the list.\<close>

lemma deleted_split:
  assumes "i < n" "n \<le> length rs"
  obtains xs ys zs where "rs = xs @ rs ! i # ys @ zs" "i = length xs" "n = length xs + length ys + 1"
proof (rule that [of "take i rs" "take (n - i - 1) (drop (Suc i) rs)" "drop n rs"])
  have "drop (Suc i) rs = take (n - i - 1) (drop (Suc i) rs) @ drop n rs"
    using assms append_take_drop_id [of "n - i - 1" "drop (Suc i) rs"] by simp
  then show "rs = take i rs @ rs ! i # take (n - i - 1) (drop (Suc i) rs) @ drop n rs"
    using assms id_take_nth_drop [of i rs] by simp
qed (use assms in simp_all)

lemma list_set_step:
  assumes "ok s D R" "list_at s D l v n a va rs" "l \<in># R" "x \<in># R" "val s D x" "i < n"
  obtains s' where "seq (decref (rs ! i)) (seq (incref x) (array_set (address s a) (int i) x)) s = (Inr (), s')" "does D R s s'"
    "exc_type s' = exc_type s" "elements s' l = Some ((take n rs)[i := x])"
proof -
  have n: "a \<notin> D" "0 \<le> a" "n \<le> length rs" using assms(2) by (simp_all add: list_at_def)
  have ap: "l \<notin> D" "l \<noteq> a" "\<not> user (objs s) a" using list_at_apart [OF assms(2)] by simp_all
  obtain xs ys where rs: "rs = xs @ (rs ! i) # ys" "i = length xs" using assms(6) n(3) split_at [of i rs] by auto
  define e where "e = rs ! i"
  define M where "M = mset (filter (\<lambda>r. 0 \<le> r) xs) + mset (filter (\<lambda>r. 0 \<le> r) ys)"
  have e: "0 \<le> e" "rs = xs @ e # ys" using list_nonneg [OF assms(2,6)] rs(1) by (simp_all add: e_def)
  have x: "0 \<le> x" "user (objs s) x" using assms(5) objs_nonneg by (auto simp: val_def user_def)
  have rs': "rs[i := x] = xs @ x # ys" using e(2) rs(2) by simp
  note o = apart_open [OF assms(1,2)]
  have "apart s D R l a (add_mset e M) s" using o(1) list_held [OF assms(2)] e by (simp add: M_def)
  then obtain t1 where t1: "decref e s = (Inr (), t1)" "apart s D R l a M t1" "\<And>q ty d. q \<in> {l, a} \<Longrightarrow> part s q ty d \<Longrightarrow> part t1 q ty d"
    using apart_decref [OF assms(1,3)] by metis
  obtain t2 where t2: "incref x t1 = (Inr (), t2)" "apart s D R l a (add_mset x M) t2" "\<And>q ty d. part t1 q ty d \<Longrightarrow> part t2 q ty d"
    using apart_incref [OF assms(1,4,5) t1(2) ap(3)] by metis
  have "part t2 a VAL_REF_ARRAY (Ref_array_value rs)" "part t2 l VAL_LIST (List_value (int n) a)" using t1(3) t2(3) o(2,3) by auto
  then obtain wa where wa: "objs t2 a = Some wa" "vtype wa = VAL_REF_ARRAY" "data wa = Ref_array_value rs"
    and pl: "part t2 l VAL_LIST (List_value (int n) a)" using part_obj by metis
  let ?t = "with_value a (wa\<lparr>data := Ref_array_value (rs[i := x])\<rparr>) t2"
  have tt: "table_inv t2" "address t2 a = address s a" "exc_type t2 = exc_type s" using t2(2) by (simp_all add: apart_def)
  have "payload_bytes (Ref_array_value (rs[i := x])) \<le> value_size wa" using table_inv_fits [OF tt(1) wa(1)] wa(3) by simp
  note w = apart_with_value [OF assms(3) ap(2) t2(2) wa(1) _ n(1) this]
  have c1: "apart s D R l a (mset (filter (\<lambda>r. 0 \<le> r) (rs[i := x]))) ?t" using w(1) x(1) by (simp add: rs' M_def)
  have c3: "part ?t a VAL_REF_ARRAY (Ref_array_value (rs[i := x]))" using w(2) wa(2) by simp
  have c2: "part ?t l VAL_LIST (List_value (int n) a)" using w(3) [OF _ ap(2) pl] by simp
  have c4: "n \<le> length (rs[i := x])" using n(3) by simp
  have c5: "0 \<le> rs[i := x] ! j" if "j < n" for j using list_nonneg [OF assms(2) that] x(1) n(3) that by (cases "i = j") simp_all
  have c6: "r = NULL_REF \<or> 0 \<le> r \<and> user (objs s) r" if "r \<in> set (rs[i := x])" for r
    using that set_update_subset_insert [of rs i x] array_entries [OF assms(1,2), of r] x by auto
  have "does D R s ?t" by (rule apart_close [OF assms(1) c1 ap(1) n(1) ap(2) n(2) c2 c3 c4 c5 c6])
  moreover have "seq (decref e) (seq (incref x) (array_set (address s a) (int i) x)) s = (Inr (), ?t)"
    using t1(1) t2(1) array_set_run [OF tt(1) wa(1,3), of "int i" x] assms(6) n(3) tt(2) by (simp add: seq_Inr)
  ultimately show thesis using that tt(3) part_elements [OF c2 c3] by (simp add: e_def take_update_swap)
qed

text \<open>The list is whole again once the gap is closed and the last slot cleared.\<close>

lemma deleted_does:
  fixes xs ys zs :: "reference_t list"
  assumes "ok s D R" "list_at s D l v n a va rs" "l \<in># R" and rs: "rs = xs @ e # ys @ zs" "n = length xs + length ys + 1"
    and t: "apart s D R l a (mset (filter (\<lambda>r. 0 \<le> r) (xs @ ys @ zs))) t" "part t l VAL_LIST (List_value (int n - 1) a)"
      "objs t a = Some wa" "vtype wa = VAL_REF_ARRAY" "data wa = Ref_array_value rs"
  defines "u \<equiv> with_value a (wa\<lparr>data := Ref_array_value (xs @ ys @ NULL_REF # zs)\<rparr>) t"
  shows "does D R s u" "elements u l = Some (xs @ ys)"
proof -
  let ?final = "xs @ ys @ NULL_REF # zs"
  have n: "a \<notin> D" "0 \<le> a" "n \<le> length rs" using assms(2) by (simp_all add: list_at_def)
  have ap: "l \<notin> D" "l \<noteq> a" using list_at_apart [OF assms(2)] by simp_all
  have "payload_bytes (Ref_array_value ?final) \<le> value_size wa"
    using table_inv_fits [OF _ t(3)] t(1,5) rs(1) by (simp add: apart_def)
  note w = apart_with_value [OF assms(3) ap(2) t(1,3) _ n(1) this, folded u_def]
  have c1: "apart s D R l a (mset (filter (\<lambda>r. 0 \<le> r) ?final)) u" using w(1) t(4) by (simp add: NULL_REF_def)
  have c2: "part u l VAL_LIST (List_value (int (n - 1)) a)" using w(3) [OF _ ap(2) t(2)] t(4) rs(2) by simp
  have c3: "part u a VAL_REF_ARRAY (Ref_array_value ?final)" using w(2) t(4) by simp
  have c4: "n - 1 \<le> length ?final" using rs(2) by simp
  have c5: "0 \<le> ?final ! j" if "j < n - 1" for j
  proof -
    have "take n rs = xs @ e # ys" using rs by simp
    then have nn: "0 \<le> r" if "r \<in> set (xs @ e # ys)" for r
      using that list_nonneg [OF assms(2)] n(3) by (metis in_set_conv_nth length_take min.absorb2 nth_take)
    have "j < length (xs @ ys)" using that rs(2) by simp
    moreover have "?final ! j = (xs @ ys) ! j" using calculation by (auto simp: nth_append)
    ultimately have "?final ! j \<in> set (xs @ ys)" by (metis nth_mem)
    then show ?thesis using nn by auto
  qed
  have c6: "r = NULL_REF \<or> 0 \<le> r \<and> user (objs s) r" if "r \<in> set ?final" for r
    using that array_entries [OF assms(1,2), of r] rs(1) by auto
  show "does D R s u" by (rule apart_close [OF assms(1) c1 ap(1) n(1) ap(2) n(2) c2 c3 c4 c5 c6])
  show "elements u l = Some (xs @ ys)" using part_elements [OF c2 c3] rs(2) by simp
qed

lemma list_del_step:
  assumes "ok s D R" "list_at s D l v n a va rs" "l \<in># R" "i < n"
  obtains s' where "seq (set_data_at (address s l) (List_value (int n - 1) a)) (bnd (array_get (address s a) (int i)) (\<lambda>old. seq (decref old)
      (seq (each (shift_slot (address s a)) [int i..int n - 2]) (array_set (address s a) (int n - 1) NULL_REF)))) s = (Inr (), s')"
    "does D R s s'" "exc_type s' = exc_type s" "elements s' l = Some (take i (take n rs) @ drop (Suc i) (take n rs))"
proof -
  have n: "a \<notin> D" "0 \<le> a" "n \<le> length rs" "objs s l = Some v" "objs s a = Some va" "data va = Ref_array_value rs"
    "vtype v = VAL_LIST" using assms(2) by (simp_all add: list_at_def)
  have ap: "l \<notin> D" "l \<noteq> a" using list_at_apart [OF assms(2)] by simp_all
  obtain xs ys zs where sp: "rs = xs @ rs ! i # ys @ zs" "i = length xs" "n = length xs + length ys + 1"
    by (rule deleted_split [OF assms(4) n(3)]) (rule that)
  define e where "e = rs ! i"
  have rs: "rs = xs @ e # ys @ zs" "i = length xs" "n = length xs + length ys + 1" using sp unfolding e_def by simp_all
  define M where "M = mset (filter (\<lambda>r. 0 \<le> r) (xs @ ys @ zs))"
  let ?final = "xs @ ys @ NULL_REF # zs"
  have e: "0 \<le> e" using list_nonneg [OF assms(2,4)] by (simp add: e_def)
  note o = apart_open [OF assms(1,2)]
  have lfit: "payload_bytes (List_value (int n - 1) a) \<le> value_size v"
    using table_inv_fits [OF ok_table [OF assms(1)] n(4)] assms(2) by (simp add: list_at_def)
  note w1 = apart_with_value [OF assms(3) ap(2) o(1) n(4) _ ap(1) lfit, simplified]
  let ?t1 = "with_value l (v\<lparr>data := List_value (int n - 1) a\<rparr>) s"
  have "apart s D R l a (add_mset e M) ?t1" using w1(1) list_held [OF assms(2)] e rs(1) by (simp add: M_def)
  then obtain t2 where t2: "decref e ?t1 = (Inr (), t2)" "apart s D R l a M t2" "\<And>q ty d. q \<in> {l, a} \<Longrightarrow> part ?t1 q ty d \<Longrightarrow> part t2 q ty d"
    using apart_decref [OF assms(1,3)] by metis
  have "part t2 a VAL_REF_ARRAY (Ref_array_value rs)" using w1(3) [OF ap(2) [symmetric] o(3)] by (intro t2(3)) simp_all
  then obtain wa where wa: "objs t2 a = Some wa" "vtype wa = VAL_REF_ARRAY" "data wa = Ref_array_value rs" using part_obj by metis
  have pl: "part t2 l VAL_LIST (List_value (int n - 1) a)" using w1(2) n(7) by (intro t2(3)) simp_all
  let ?sh = "xs @ ys @ last (e # ys) # zs"
  have sh: "shifted rs [int i..int n - 2] = ?sh" using shifted_form [of xs e ys zs] rs by (simp add: algebra_simps)
  let ?t3 = "with_value a (wa\<lparr>data := Ref_array_value ?sh\<rparr>) t2"
  let ?t = "with_value a (wa\<lparr>data := Ref_array_value ?final\<rparr>) t2"
  have tt: "table_inv t2" "address t2 a = address s a" "exc_type t2 = exc_type s" using t2(2) by (simp_all add: apart_def)
  have t3: "table_inv ?t3" "objs ?t3 = (objs t2)(a \<mapsto> wa\<lparr>data := Ref_array_value ?sh\<rparr>)"
    using with_value_ok [OF tt(1) wa(1), of "wa\<lparr>data := Ref_array_value ?sh\<rparr>"] wa(2,3) table_inv_fits [OF tt(1) wa(1)] rs(1) by simp_all
  have s3: "each (shift_slot (address s a)) [int i..int n - 2] t2 = (Inr (), ?t3)"
    using shift_run [OF tt(1) wa(1,3,2), of "[int i..int n - 2]"] sh tt(2) n(3) by auto
  have "?sh[length (xs @ ys) := NULL_REF] = ?final" by (simp add: list_update_append)
  moreover have "nat (int n - 1) = length (xs @ ys)" using rs(3) by simp
  ultimately have s4: "array_set (address s a) (int n - 1) NULL_REF ?t3 = (Inr (), ?t)"
    using array_set_run [OF t3(1), of a "wa\<lparr>data := Ref_array_value ?sh\<rparr>" ?sh "int n - 1" NULL_REF] t3(2) rs tt(2) by simp
  have g: "array_get (address s a) (int i) ?t1 = (Inr e, ?t1)"
  proof -
    have "objs ?t1 a = Some va" "table_inv ?t1" using with_value_ok [OF ok_table [OF assms(1)] n(4), of "v\<lparr>data := List_value (int n - 1) a\<rparr>"] n(5,7) ap(2) lfit by simp_all
    then show ?thesis using array_get_run [of ?t1 a va rs "int i"] n(3,6) assms(4) by (simp add: e_def)
  qed
  note d = deleted_does [OF assms(1-3) rs(1,3) t2(2) [unfolded M_def] pl wa]
  have "seq (set_data_at (address s l) (List_value (int n - 1) a)) (bnd (array_get (address s a) (int i)) (\<lambda>old. seq (decref old)
      (seq (each (shift_slot (address s a)) [int i..int n - 2]) (array_set (address s a) (int n - 1) NULL_REF)))) s = (Inr (), ?t)"
    using set_data_at_run [OF ok_table [OF assms(1)] n(4) lfit] g t2(1) s3 s4 by (simp add: seq_Inr bnd_Inr)
  moreover have "elements ?t l = Some (take i (take n rs) @ drop (Suc i) (take n rs))" using d(2) rs by simp
  ultimately show thesis using that d(1) tt(3) by simp
qed

end
