(* ===== verification/Py_Safe_Ops.thy ===== *)
theory Py_Safe_Ops
  imports Py_Lists
begin

text \<open>
  The generic operations of Subpython (\<open>eval_types.c\<close>) and the built-in functions (\<open>eval.c\<close>), on operands a program can
  get at: each keeps the invariant of the evaluator, returns a reference it has counted or raises an
  exception, and never leaves the values it works on.
\<close>

section \<open>Subscripts\<close>

lemma runs_list_set:
  assumes "ok s D R" "list_at s D l v n a va rs" "l \<in># R" "y \<in># R" "val s D x" "val s D y"
  shows "runs (list_subscr_set (address s l) x y) s (\<lambda>_. does D R s)"
  unfolding list_subscr_set_def
proof (rule runs_list_start [OF assms(1,2,5)])
  fix i s'
  assume i: "0 \<le> i" "i < int n" and s': "same_heap s s'" "does D R s s'"
  have okay: "ok s' D R" using s'(2) by (rule does_ok)
  have l: "list_at s' D l v n a va rs" using assms(2) s'(1) by (simp add: list_at_same)
  have v: "val s' D y" using assms(6) s'(1) by (simp add: same_heap_val)
  have adr: "address s a = address s' a" using same_heap_address [OF s'(1)] by simp
  show "runs (bnd (array_get (address s a) i) (\<lambda>r. seq (decref r) (seq (incref y) (array_set (address s a) i y)))) s' (\<lambda>_. does D R s)"
  proof (rule list_set_step [OF okay l assms(3,4) v, of "nat i"])
    fix t
    assume "seq (decref (rs ! nat i)) (seq (incref y) (array_set (address s' a) (int (nat i)) y)) s' = (Inr (), t)" "does D R s' t"
    then have "runs (seq (decref (rs ! nat i)) (seq (incref y) (array_set (address s' a) i y))) s' (\<lambda>_. does D R s)"
      using i(1) does_trans [OF s'(2)] by (simp add: runs_Inr del: runs_seq)
    then show ?thesis unfolding adr by (simp add: runs_gives [OF list_at_fields(5) [OF okay l i]])
  qed (use i in simp)
qed simp

lemma runs_list_del:
  assumes "ok s D R" "list_at s D l v n a va rs" "l \<in># R" "val s D x"
  shows "runs (list_subscr_del (address s l) x) s (\<lambda>_. does D R s)"
  unfolding list_subscr_del_def
proof (rule runs_list_start [OF assms(1,2,4)])
  fix i s'
  assume i: "0 \<le> i" "i < int n" and s': "same_heap s s'" "does D R s s'"
  have okay: "ok s' D R" using s'(2) by (rule does_ok)
  have l: "list_at s' D l v n a va rs" using assms(2) s'(1) by (simp add: list_at_same)
  have adr: "address s a = address s' a" "address s l = address s' l" using same_heap_address [OF s'(1)] by simp_all
  let ?rest = "\<lambda>i. bnd (array_get (address s' a) i) (\<lambda>old. seq (decref old)
      (seq (each (shift_slot (address s' a)) [i..int n - 2]) (array_set (address s' a) (int n - 1) NULL_REF)))"
  show "runs (bnd (list_fields (address s l)) (\<lambda>(n, r). seq (set_data_at (address s l) (List_value (n - 1) r))
      (bnd (array_get (address s a) i) (\<lambda>old. seq (decref old)
      (seq (each (shift_slot (address s a)) [i..n - 2]) (array_set (address s a) (n - 1) NULL_REF)))))) s' (\<lambda>_. does D R s)"
  proof (rule list_del_step [OF okay l assms(3), of "nat i"])
    fix t
    assume "seq (set_data_at (address s' l) (List_value (int n - 1) a)) (?rest (int (nat i))) s' = (Inr (), t)" "does D R s' t"
    then have "runs (seq (set_data_at (address s' l) (List_value (int n - 1) a)) (?rest i)) s' (\<lambda>_. does D R s)"
      using i(1) does_trans [OF s'(2)] by (simp add: runs_Inr del: runs_seq)
    then show ?thesis unfolding adr by (simp add: runs_gives [OF list_at_fields(4) [OF okay l]])
  qed (use i in simp)
qed simp

lemma runs_subscr_get:
  assumes "ok s D R" "val s D r" "val s D x"
  shows "runs (ref_subscr_get r x) s (yields D R s)"
proof -
  obtain a v where v: "objs s r = Some v" "vtype v \<in> user_types" "address s r = a" "store s a = Some v" "gives s (deref r) a"
    "in_table (vtype v)" using valE [OF assms(1,2)] by metis
  note t = runs_gives [OF v(5)] runs_gives [OF gives_type_in_table [OF v(4,6)]]
  show ?thesis
  proof (cases "vtype v = VAL_LIST")
    case True
    then obtain n b va rs where l: "list_at s D r v n b va rs" using list_at_ex [OF assms(1,2) v(1)] by metis
    then show ?thesis using True runs_list_get [OF assms(1) l assms(3)] v(3) by (simp add: ref_subscr_get_def t)
  next
    case False
    then have "f_subscr_get ref_eq (vtype v) = None" using v(2) by (auto simp: user_types_def)
    then show ?thesis using does_raised [OF assms(1)] by (simp add: ref_subscr_get_def t yields_exc)
  qed
qed

lemma runs_subscr_set:
  assumes "ok s D R" "val s D r" "val s D x" "val s D y" "r \<in># R" "y \<in># R"
  shows "runs (ref_subscr_set r x y) s (\<lambda>_. does D R s)"
proof -
  obtain a v where v: "objs s r = Some v" "vtype v \<in> user_types" "address s r = a" "store s a = Some v" "gives s (deref r) a"
    "in_table (vtype v)" using valE [OF assms(1,2)] by metis
  note t = runs_gives [OF v(5)] runs_gives [OF gives_type_in_table [OF v(4,6)]]
  show ?thesis
  proof (cases "vtype v = VAL_LIST")
    case True
    then obtain n b va rs where l: "list_at s D r v n b va rs" using list_at_ex [OF assms(1,2) v(1)] by metis
    then show ?thesis using True runs_list_set [OF assms(1) l assms(5,6,3,4)] v(3) by (simp add: ref_subscr_set_def t)
  next
    case False
    then have "f_subscr_set ref_eq (vtype v) = None" using v(2) by (auto simp: user_types_def)
    then show ?thesis using does_raised [OF assms(1)] by (simp add: ref_subscr_set_def t)
  qed
qed

lemma runs_subscr_del:
  assumes "ok s D R" "val s D r" "val s D x" "r \<in># R"
  shows "runs (ref_subscr_del r x) s (\<lambda>_. does D R s)"
proof -
  obtain a v where v: "objs s r = Some v" "vtype v \<in> user_types" "address s r = a" "store s a = Some v" "gives s (deref r) a"
    "in_table (vtype v)" using valE [OF assms(1,2)] by metis
  note t = runs_gives [OF v(5)] runs_gives [OF gives_type_in_table [OF v(4,6)]]
  show ?thesis
  proof (cases "vtype v = VAL_LIST")
    case True
    then obtain n b va rs where l: "list_at s D r v n b va rs" using list_at_ex [OF assms(1,2) v(1)] by metis
    then show ?thesis using True runs_list_del [OF assms(1) l assms(4,3)] v(3) by (simp add: ref_subscr_del_def t)
  next
    case False
    then have "f_subscr_del ref_eq (vtype v) = None" using v(2) by (auto simp: user_types_def)
    then show ?thesis using does_raised [OF assms(1)] by (simp add: ref_subscr_del_def t)
  qed
qed

section \<open>Singletons, comparisons and operators\<close>

lemma runs_take:
  assumes "ok s D R" "val s D (f s)"
  shows "runs (bnd (gets f) (\<lambda>r. seq (incref r) (ret r))) s (yields D R s)"
  by (auto intro!: runs_incref [OF assms] yieldsI)

lemma runs_bool_ref: "ok s D R \<Longrightarrow> runs (bool_ref b) s (yields D R s)"
  unfolding bool_ref_def using runs_take [of s D R] ok_single [of s D R] by (cases b) auto

lemma runs_none_result: "ok s D R \<Longrightarrow> runs none_result s (yields D R s)"
  unfolding none_result_def using runs_take [of s D R] ok_single [of s D R] by auto

lemma runs_singleton: "ok s D R \<Longrightarrow> runs (singleton_to_ref t) s (yields D R s)"
  unfolding singleton_to_ref_def singleton_to_ref_borrow_def
  using runs_take [of s D R] ok_single [of s D R] by (cases t) auto

text \<open>After an operation that reads only, another that yields a reference.\<close>

lemma runs_after_reads:
  assumes "reads s m" "ok s D R" "\<And>x s'. ok s' D R \<Longrightarrow> same_heap s s' \<Longrightarrow> runs (k x) s' (yields D R s')"
  shows "runs (bnd m k) s (yields D R s)"
proof -
  have "runs m s (\<lambda>x s'. runs (k x) s' (yields D R s))"
  proof (rule runs_reads [OF assms(1,2)])
    fix x s'
    assume s': "same_heap s s'" "does D R s s'"
    have "runs (k x) s' (yields D R s')" using assms(3) [OF does_ok [OF s'(2)] s'(1)] .
    then show "runs (k x) s' (yields D R s)" by (rule runs_mono) (rule does_yields [OF s'(2)])
  qed
  then show ?thesis by simp
qed

lemma runs_ref_compare:
  assumes "ok s D R" "val s D l" "val s D r"
  shows "runs (ref_compare t l r) s (yields D R s)"
  unfolding ref_compare_def
proof (rule runs_after_reads [OF reads_compare_refs [OF assms] assms(1)])
  show "runs (bnd exception_occurred (\<lambda>e. if e then ret NULL_REF else case t of COMP_EQUALS \<Rightarrow> bool_ref (c = 0) | COMP_LT \<Rightarrow> bool_ref (c < 0)
     | COMP_GT \<Rightarrow> bool_ref (c > 0) | COMP_LE \<Rightarrow> bool_ref (c \<le> 0) | COMP_GE \<Rightarrow> bool_ref (c \<ge> 0) | _ \<Rightarrow> halt (Exited (- 1)))) s' (yields D R s')"
    if "ok s' D R" for c s'
    using that by (auto simp: yields_exc does_refl runs_bool_ref split: NodeExprBuiltinType.splits)
qed

lemma runs_ref_builtin:
  assumes "ok s D R" "val s D l" "val s D r"
  shows "runs (ref_builtin t l r) s (yields D R s)"
proof -
  obtain a v where v: "store s a = Some v" "vtype v \<in> user_types" "gives s (deref l) a" "wf_value (objs s) v" "in_table (vtype v)"
    "objs s l = Some v" using valE [OF assms(1,2)] by metis
  obtain b w where w: "store s b = Some w" "gives s (deref r) b" "wf_value (objs s) w" "objs s r = Some w" using valE [OF assms(1,3)] by metis
  note g = runs_gives [OF v(3)] runs_gives [OF w(2)] runs_gives [OF gives_type_at [OF v(1)]] runs_gives [OF gives_type_at [OF w(1)]]
    runs_gives [OF gives_type_in_table [OF v(1,5)]]
  have err: "yields D R s NULL_REF (raised EXC_TYPE_ERROR m s)" for m
    using does_raised [OF assms(1)] by (simp add: yields_exc)
  have "runs (f a b) s (yields D R s)" if f: "f_builtins (vtype v) t = Some f" "vtype v = vtype w" for f
  proof (cases "vtype v = VAL_INTEGER")
    case True
    obtain x y where xy: "gives s (integer_coerce a) x" "gives s (integer_coerce b) y"
      using integer_coerce_gives [OF v(4,1) True] integer_coerce_gives [OF w(3,1)] True f(2) by metis
    then show ?thesis
      using f(1) True runs_make_int [OF assms(1)]
      by (cases t) (auto simp: integer_unaryop_negate_def integer_unaryop_identity_def integer_binop_add_def integer_binop_subtract_def
          integer_binop_multiply_def integer_binop_def integer_binop_divide_def integer_binop_modulo_def runs_gives)
  next
    case False
    then have t: "vtype v = VAL_STRING" "f = string_binop_add" using f(1) by (auto elim: f_builtins.elims)
    obtain x y where xy: "gives s (string_coerce a) x" "gives s (string_coerce b) y" "length x + 25 < 2 ^ 63" "length y + 25 < 2 ^ 63"
      using string_coerce_gives [OF v(4,1) t(1)] string_coerce_gives [OF w(3,1)] t(1) f(2)
        string_length [OF ok_table [OF assms(1)] v(6)] string_length [OF ok_table [OF assms(1)] w(4)] by metis
    then have "length (x @ y) < 2 ^ 64 - 32" by simp
    then show ?thesis
      using xy(1,2) t(2) runs_make_string_value [OF assms(1), of "x @ y"] by (simp add: string_binop_add_def make_reference_string_concat_def runs_gives)
  qed
  then show ?thesis
    by (auto simp: ref_builtin_def g err split: option.splits)
qed

lemma runs_apply_builtin:
  assumes "ok s D R" "val s D l" "val s D r"
  shows "runs (apply_builtin t l r) s (yields D R s)"
  unfolding apply_builtin_def
  using runs_after_reads [OF reads_ref_eq [OF assms] assms(1) runs_bool_ref] runs_ref_compare [OF assms] runs_ref_builtin [OF assms] by simp

section \<open>Going on after a step\<close>

lemma runs_yields:
  assumes "runs m s (yields D R s)"
    and "\<And>s'. does D R s s' \<Longrightarrow> exc_type s' \<noteq> EXC_NONE \<Longrightarrow> Q NULL_REF s'"
    and "\<And>r s'. does D (add_mset r R) s s' \<Longrightarrow> r \<noteq> NULL_REF \<Longrightarrow> Q r s'"
  shows "runs m s Q"
  using assms(1) by (rule runs_mono) (use assms(2,3) in \<open>blast elim: yieldsE\<close>)

lemma runs_does:
  assumes "runs m s (\<lambda>_. does D R s)" "\<And>x s'. does D R s s' \<Longrightarrow> Q x s'"
  shows "runs m s Q"
  using assms(1) by (rule runs_mono) (rule assms(2))

lemma does_val: "does D (add_mset r R) s s' \<Longrightarrow> (\<forall>d \<in> D. d \<in># R) \<Longrightarrow> val s' D r"
  using ok_temp does_ok by blast

text \<open>A value that is held stays a value.\<close>

lemma ok_held:
  assumes "ok s D R" "r \<in># R" "r \<notin> D"
  shows "val s D r"
  using ok_typed [OF assms(1,2)] assms(3) by (simp add: val_def)

lemma runs_decref_ret:
  assumes "does D (if x = NULL_REF then add_mset r R else add_mset x (add_mset r R)) s s'" "exc_type s' = EXC_NONE \<longrightarrow> x \<noteq> NULL_REF" "\<forall>d \<in> D. d \<in># R"
  shows "runs (seq (decref r) (ret x)) s' (yields D R s)"
proof -
  let ?R = "if x = NULL_REF then R else add_mset x R"
  have "ok s' D (add_mset r ?R)" using does_ok [OF assms(1)] by (simp add: add_mset_commute split: if_splits)
  then have "runs (decref r) s' (\<lambda>_ t. does D ?R s' t \<and> exc_type t = exc_type s')"
    by (rule runs_decref) (use assms(3) in auto)
  then have "runs (decref r) s' (\<lambda>_. yields D R s x)"
    by (rule runs_mono) (use assms(1,2) does_trans in \<open>auto simp: yields_def\<close>)
  then show ?thesis by simp
qed

text \<open>An operation that yields a result, after which a reference is dropped.\<close>

lemma runs_then_decref:
  assumes "runs m s (yields D (add_mset r R) s0)" "\<forall>d \<in> D. d \<in># R"
  shows "runs (bnd m (\<lambda>x. seq (decref r) (ret x))) s (yields D R s0)"
proof -
  have "runs m s (\<lambda>x s'. runs (seq (decref r) (ret x)) s' (yields D R s0))"
    using assms(1) by (rule runs_mono) (use runs_decref_ret [OF _ _ assms(2)] in \<open>auto simp: yields_def split: if_splits\<close>)
  then show ?thesis by simp
qed

lemma runs_each_decref:
  assumes "ok s D (R + mset xs)" "\<forall>d \<in> D. d \<in># R"
  shows "runs (each decref xs) s (\<lambda>_ s'. does D R s s' \<and> exc_type s' = exc_type s)"
  using assms(1)
proof (induction xs arbitrary: s)
  case Nil
  then show ?case unfolding each.simps runs_ret by (simp add: does_refl)
next
  case (Cons x xs)
  have "runs (decref x) s (\<lambda>_ s'. does D (R + mset xs) s s' \<and> exc_type s' = exc_type s)"
    by (rule runs_decref [of s D x "R + mset xs"]) (use Cons.prems assms(2) in auto)
  then have "runs (decref x) s (\<lambda>_ s'. runs (each decref xs) s' (\<lambda>_ t. does D R s t \<and> exc_type t = exc_type s))"
  proof (rule runs_mono)
    fix u s'
    assume h: "does D (R + mset xs) s s' \<and> exc_type s' = exc_type s"
    have "runs (each decref xs) s' (\<lambda>_ t. does D R s' t \<and> exc_type t = exc_type s')" using h by (intro Cons.IH does_ok) auto
    then show "runs (each decref xs) s' (\<lambda>_ t. does D R s t \<and> exc_type t = exc_type s)"
      by (rule runs_mono) (use h does_trans in auto)
  qed
  then show ?case by simp
qed

end
