(* ===== verification/Py_Globals.thy ===== *)
theory Py_Globals
  imports Py_Safe_Ops
begin

text \<open>
  Global variables and the built-in functions of Subpython (\<open>eval.c\<close>): a variable counts as a reference to its
  value, and the three constants stay bound.
\<close>

section \<open>Global variables\<close>

definition reserved :: "string \<Rightarrow> bool" where
  "reserved name \<longleftrightarrow> name \<in> {''None'', ''True'', ''False''}"

lemma find_global_Some: "find_global name gv = Some i \<Longrightarrow> i < length gv \<and> fst (gv ! i) = name"
  by (induction name gv arbitrary: i rule: find_global.induct) (auto split: if_splits)

lemma find_global_None: "find_global name gv = None \<longleftrightarrow> name \<notin> fst ` set gv"
  by (induction name gv rule: find_global.induct) (auto split: if_splits)

definition without_entry :: "nat \<Rightarrow> (string \<times> reference_t) list \<Rightarrow> (string \<times> reference_t) list" where
  "without_entry i gv = take i gv @ drop (Suc i) gv"

lemma roots_split:
  assumes "i < length gv"
  shows "mset (map snd gv) = add_mset (snd (gv ! i)) (mset (map snd (without_entry i gv)))"
    "mset (map snd (gv[i := (name, r)])) = add_mset r (mset (map snd (without_entry i gv)))"
proof -
  have "gv = take i gv @ gv ! i # drop (Suc i) gv" using assms by (rule id_take_nth_drop)
  then have "mset (map snd gv) = mset (map snd (take i gv @ gv ! i # drop (Suc i) gv))" by (rule arg_cong)
  then show "mset (map snd gv) = add_mset (snd (gv ! i)) (mset (map snd (without_entry i gv)))" by (simp add: without_entry_def)
  show "mset (map snd (gv[i := (name, r)])) = add_mset r (mset (map snd (without_entry i gv)))"
    using assms by (simp add: without_entry_def upd_conv_take_nth_drop)
qed

lemma singles_kept:
  assumes "singles s" "none_ref t = none_ref s" "true_ref t = true_ref s" "false_ref t = false_ref s"
    "\<And>n r. (n, r) \<in> set (global_vars s) \<Longrightarrow> reserved n \<Longrightarrow> (n, r) \<in> set (global_vars t)"
  shows "singles t"
  using assms by (auto simp: singles_def reserved_def)

lemma without_entry_keeps:
  assumes "(n, r) \<in> set gv" "i < length gv" "fst (gv ! i) \<noteq> n"
  shows "(n, r) \<in> set (without_entry i gv)"
proof -
  have "gv = take i gv @ gv ! i # drop (Suc i) gv" using assms(2) by (rule id_take_nth_drop)
  then have "(n, r) \<in> set (take i gv @ gv ! i # drop (Suc i) gv)" using assms(1) by metis
  moreover have "gv ! i \<noteq> (n, r)" using assms(3) by auto
  ultimately show ?thesis by (auto simp: without_entry_def)
qed

lemma set_update_kept:
  assumes "(n, r) \<in> set (without_entry i gv)" "i < length gv"
  shows "(n, r) \<in> set (gv[i := x])"
  using assms by (auto simp: without_entry_def upd_conv_take_nth_drop)

text \<open>The invariant in a state with other variables.\<close>

lemma ok_globals:
  assumes "ok s D R" "table_inv t" "hinv (objs t) D (R + roots t)" "singles t" "types_kept s t"
    and fixed: "keeps D s t" and roots: "\<And>r. r \<in># roots t \<Longrightarrow> r \<in># roots s \<or> r \<in># R"
  shows "ok t D R"
  unfolding ok_def
proof (intro conjI ballI)
  show "q \<in> D \<or> user (objs t) q" if q: "q \<in># R + roots t" for q
  proof -
    obtain w where w: "objs t q = Some w" using hinv_root [OF assms(3) q] by blast
    have "q \<in># R + roots s" using q roots by auto
    then have "q \<in> D \<or> user (objs s) q" using assms(1) unfolding ok_def by blast
    then show ?thesis using types_kept_user [OF assms(5) _ w] by blast
  qed
  show "d \<in># R" "rc (objs t) d = 1" if "d \<in> D" for d
    using that ok_within [OF assms(1)] ok_rc [OF assms(1) that] keepsD(1) [OF fixed that] by (auto simp: rc_def)
qed (use assms in simp_all)

lemma shrunk_types: "shrunk s t \<Longrightarrow> types_kept s t"
  by (rule types_keptI) (metis option.inject shrunk_objs)

text \<open>Dropping the value of a variable, before the variable is changed.\<close>

lemma drop_global:
  assumes "ok s D R" "i < length (global_vars s)"
  obtains t where "decref (snd (global_vars s ! i)) s = (Inr (), t)" "table_inv t"
    "hinv (objs t) D (R + mset (map snd (without_entry i (global_vars s))))" "shrunk s t" "keeps D s t"
proof -
  let ?G = "mset (map snd (without_entry i (global_vars s)))" and ?r = "snd (global_vars s ! i)"
  have "hinv (objs s) D (add_mset ?r (R + ?G))" using ok_hinv [OF assms(1)] roots_split(1) [OF assms(2)] by (simp add: roots_def)
  moreover have "pinned (objs s) D (R + ?G)" using ok_within [OF assms(1)] by (auto simp: pinned_def)
  ultimately obtain t where t: "decref ?r s = (Inr (), t)" "released D (R + ?G) s t" using decref_run [OF ok_table [OF assms(1)]] by metis
  then have rel: "table_inv t" "hinv (objs t) D (R + ?G)" "shrunk s t" by (simp_all add: released_def)
  have "keeps D s t"
    using ok_rc [OF assms(1)] ok_within [OF assms(1)] by (intro keepsI shrunk_fixed [OF rel(3,2)]) auto
  then show thesis using that [OF t(1) rel] by blast
qed

lemma runs_globals_get:
  assumes "ok s D R"
  shows "runs (globals_get name) s (yields D R s)"
proof (cases "find_global name (global_vars s)")
  case None
  then show ?thesis using does_raised [OF assms] by (simp add: globals_get_def name_error_def yields_exc)
next
  case (Some i)
  then have "snd (global_vars s ! i) \<in># roots s" using find_global_Some [OF Some] by (simp add: roots_def)
  then have "val s D (snd (global_vars s ! i))" by (rule ok_global [OF assms])
  then have "runs (incref (snd (global_vars s ! i))) s (\<lambda>_. yields D R s (snd (global_vars s ! i)))"
    by (intro runs_incref [OF assms]) (auto intro: yieldsI)
  then show ?thesis using Some by (simp add: globals_get_def)
qed

lemma runs_globals_delete:
  assumes "ok s D R" "\<not> reserved name"
  shows "runs (globals_delete name) s (\<lambda>_. does D R s)"
proof (cases "find_global name (global_vars s)")
  case None
  then show ?thesis using does_raised [OF assms(1)] by (simp add: globals_delete_def name_error_def)
next
  case (Some i)
  note i = find_global_Some [OF Some]
  obtain t where t: "decref (snd (global_vars s ! i)) s = (Inr (), t)" "table_inv t"
    "hinv (objs t) D (R + mset (map snd (without_entry i (global_vars s))))" "shrunk s t" "keeps D s t"
    by (rule drop_global [OF assms(1) conjunct1 [OF i]]) (rule that)
  let ?t = "t\<lparr>global_vars := take i (global_vars t) @ drop (Suc i) (global_vars t)\<rparr>"
  have c: "global_vars t = global_vars s" "none_ref t = none_ref s" "true_ref t = true_ref s" "false_ref t = false_ref s" "exc_type t = exc_type s"
    using t(4) by (simp_all add: shrunk_def ctx_def)
  have o: "objs ?t = objs t" by (rule objs_cong) simp_all
  have r: "roots ?t = mset (map snd (without_entry i (global_vars s)))" by (simp add: roots_def without_entry_def c)
  have "ok ?t D R"
  proof (rule ok_globals [OF assms(1)])
    show "table_inv ?t" using t(2) by simp
    show "hinv (objs ?t) D (R + roots ?t)" using t(3) by (simp add: o r)
    show "singles ?t"
      using i assms(2) by (intro singles_kept [OF ok_singles [OF assms(1)]]) (auto simp: c without_entry_def [symmetric] intro!: without_entry_keeps)
    show "types_kept s ?t" using shrunk_types [OF t(4)] unfolding types_kept_def o .
    show "keeps D s ?t" using t(5) by (simp add: keeps_def)
    show "x \<in># roots s \<or> x \<in># R" if "x \<in># roots ?t" for x
      using that roots_split(1) [of i "global_vars s"] i unfolding r by (auto simp: roots_def)
  qed
  then have "does D R s ?t" using t(5) c by (simp add: does_def keeps_def later_def)
  then show ?thesis using t(1) Some by (simp add: globals_delete_def runs_Inr)
qed

text \<open>One more reference to a value that is held, from a state in which types are kept.\<close>

lemma held_incref:
  assumes "types_kept s t" "table_inv t" "hinv (objs t) D M" "x \<in># M" "user (objs s) x"
  obtains w where "incref x t = (Inr (), with_value x w t)" "table_inv (with_value x w t)" "objs (with_value x w t) = (objs t)(x \<mapsto> w)"
    "hinv (objs (with_value x w t)) D (add_mset x M)" "types_kept s (with_value x w t)"
proof -
  obtain w where w: "objs t x = Some w" using hinv_root [OF assms(3,4)] by blast
  have u: "user (objs t) x" by (rule types_kept_user [OF assms(1,5) w])
  then have nf: "vtype w \<noteq> VAL_FREE" using w by (auto simp: user_def user_types_def)
  let ?w = "w\<lparr>ref_count := ref_count w + 1\<rparr>"
  have o: "objs (with_value x ?w t) = (objs t)(x \<mapsto> ?w)" "table_inv (with_value x ?w t)"
    using with_value_ok [OF assms(2) w, of ?w] nf by simp_all
  have "hinv (objs (with_value x ?w t)) D (add_mset x M)" unfolding o by (rule hinv_incref [OF assms(3) w u])
  moreover have "types_kept s (with_value x ?w t)" by (rule types_kept_upd [OF assms(1) w o(1)]) simp
  ultimately show thesis using that incref_run [OF assms(2) w] o by blast
qed

lemma runs_globals_new:
  assumes "ok s D R" "x \<in># R" "val s D x"
  shows "runs (seq (incref x) (modify (\<lambda>s. s\<lparr>global_vars := global_vars s @ [(name, x)]\<rparr>))) (s\<lparr>max_vars := m\<rparr>) (\<lambda>_. does D R s)"
proof -
  let ?s = "s\<lparr>max_vars := m\<rparr>"
  have x: "x \<notin> D" "user (objs s) x" using assms(3) by (simp_all add: val_def)
  have o: "objs ?s = objs s" by (rule objs_cong) simp_all
  have "table_inv ?s" using ok_table [OF assms(1)] by simp
  moreover have "hinv (objs ?s) D (R + roots s)" using ok_hinv [OF assms(1)] by (simp only: o)
  moreover have "types_kept s ?s" by (rule types_keptI) (simp add: o)
  ultimately obtain w where w: "incref x ?s = (Inr (), with_value x w ?s)" "table_inv (with_value x w ?s)"
    "objs (with_value x w ?s) = (objs ?s)(x \<mapsto> w)" "hinv (objs (with_value x w ?s)) D (add_mset x (R + roots s))" "types_kept s (with_value x w ?s)"
    using held_incref [of s ?s D "R + roots s" x] x(2) assms(2) by (metis union_iff)
  let ?t = "(with_value x w ?s)\<lparr>global_vars := global_vars (with_value x w ?s) @ [(name, x)]\<rparr>"
  have c: "global_vars (with_value x w ?s) = global_vars s" "none_ref ?t = none_ref s" "true_ref ?t = true_ref s" "false_ref ?t = false_ref s"
    by (simp_all add: with_value_def)
  have o2: "objs ?t = (objs s)(x \<mapsto> w)" using w(3) by simp
  have r: "roots ?t = add_mset x (roots s)" by (simp add: roots_def c)
  have "ok ?t D R"
  proof (rule ok_globals [OF assms(1)])
    show "table_inv ?t" using w(2) by simp
    show "hinv (objs ?t) D (R + roots ?t)" using w(3,4) unfolding o2 r by (simp add: o)
    show "singles ?t" by (rule singles_kept [OF ok_singles [OF assms(1)] c(2-4)]) (simp add: c(1))
    show "types_kept s ?t" using w(5) unfolding types_kept_def o2 w(3) o .
    show "keeps D s ?t" using x(1) unfolding keeps_def o2 by auto
    show "y \<in># roots s \<or> y \<in># R" if "y \<in># roots ?t" for y using that assms(2) unfolding r by auto
  qed
  moreover have "keeps D s ?t" using x(1) unfolding keeps_def o2 by auto
  moreover have "later s ?t" by (simp add: later_def with_value_def)
  ultimately have "does D R s ?t" by (simp add: does_def)
  then show ?thesis using w(1) by (simp add: runs_Inr)
qed

lemma runs_globals_replace:
  assumes "ok s D R" "x \<in># R" "val s D x" "\<not> reserved name" "i < length (global_vars s) \<and> fst (global_vars s ! i) = name"
  shows "runs (seq (decref (snd (global_vars s ! i))) (seq (incref x)
      (modify (\<lambda>s. s\<lparr>global_vars := (global_vars s)[i := (fst (global_vars s ! i), x)]\<rparr>)))) s (\<lambda>_. does D R s)"
proof -
  note i = assms(5)
  let ?G = "mset (map snd (without_entry i (global_vars s)))"
  have x: "x \<notin> D" "user (objs s) x" using assms(3) by (simp_all add: val_def)
  obtain t where t: "decref (snd (global_vars s ! i)) s = (Inr (), t)" "table_inv t" "hinv (objs t) D (R + ?G)" "shrunk s t" "keeps D s t"
    by (rule drop_global [OF assms(1) conjunct1 [OF i]]) (rule that)
  obtain w where w: "incref x t = (Inr (), with_value x w t)" "table_inv (with_value x w t)"
    "objs (with_value x w t) = (objs t)(x \<mapsto> w)" "hinv (objs (with_value x w t)) D (add_mset x (R + ?G))" "types_kept s (with_value x w t)"
    using held_incref [OF shrunk_types [OF t(4)] t(2,3) _ x(2)] assms(2) by (metis union_iff)
  let ?t = "(with_value x w t)\<lparr>global_vars := (global_vars (with_value x w t))[i := (fst (global_vars (with_value x w t) ! i), x)]\<rparr>"
  have c0: "global_vars t = global_vars s" using t(4) by (simp add: shrunk_def ctx_def)
  have c: "global_vars (with_value x w t) = global_vars s" "none_ref ?t = none_ref s" "true_ref ?t = true_ref s" "false_ref ?t = false_ref s"
    "exc_type ?t = exc_type s"
    using t(4) by (simp_all add: with_value_def shrunk_def ctx_def)
  have o: "objs ?t = objs (with_value x w t)" by (rule objs_cong) simp_all
  have r: "roots ?t = add_mset x ?G" using i roots_split(2) [of i "global_vars s"] by (simp add: roots_def c0)
  have fixed: "keeps D s ?t" using t(5) x(1) unfolding keeps_def o w(3) by auto
  have "ok ?t D R"
  proof (rule ok_globals [OF assms(1)])
    show "table_inv ?t" using w(2) by simp
    show "hinv (objs ?t) D (R + roots ?t)" using w(4) unfolding o r by simp
    show "singles ?t"
      using i assms(4) by (intro singles_kept [OF ok_singles [OF assms(1)] c(2-4)])
        (auto simp: c0 intro!: set_update_kept without_entry_keeps)
    show "types_kept s ?t" using w(5) unfolding types_kept_def o .
    show "keeps D s ?t" using fixed .
    show "y \<in># roots s \<or> y \<in># R" if "y \<in># roots ?t" for y
      using that assms(2) roots_split(1) [of i "global_vars s"] i unfolding r by (auto simp: roots_def)
  qed
  then have "does D R s ?t" using fixed c(5) by (simp add: does_def later_def)
  then show ?thesis using t(1) w(1) by (simp add: runs_Inr)
qed

lemma runs_globals_set:
  assumes "ok s D R" "x \<in># R" "val s D x" "\<not> reserved name"
  shows "runs (globals_set name x) s (\<lambda>_. does D R s)"
proof (cases "find_global name (global_vars s)")
  case None
  then show ?thesis
    using runs_globals_new [OF assms(1-3)] by (simp add: globals_set_def del: runs_seq) (simp only: runs_seq runs_modify)
next
  case (Some i)
  then show ?thesis
    using runs_globals_replace [OF assms find_global_Some [OF Some]] by (simp add: globals_set_def)
qed

end
