(* ===== verification/Py_Calls.thy ===== *)
theory Py_Calls
  imports Py_Globals
begin

text \<open>
  The built-in functions of Subpython (\<open>eval.c\<close>) other than \<open>gc\<close>, on arguments that are held: they keep the invariant of
  the evaluator.
\<close>

lemma ok_args_val:
  assumes "ok s D (R + mset rs)" "\<forall>d \<in> D. d \<in># R" "r \<in> set rs"
  shows "val s D r"
proof -
  have "r \<notin> D"
  proof
    assume d: "r \<in> D"
    then have "0 < count R r" "0 < count (mset rs) r" using assms(2,3) by simp_all
    then show False using ok_once(1) [OF assms(1) d] unfolding count_union by linarith
  qed
  then show ?thesis using ok_held [OF assms(1), of r] assms(3) by simp
qed

lemma runs_error: "ok s D R \<Longrightarrow> t \<noteq> EXC_NONE \<Longrightarrow> runs (seq (exception_set_format t m) (ret NULL_REF)) s (yields D R s)"
  using does_raised by (simp add: yields_exc)

lemma runs_type_error_null: "ok s D R \<Longrightarrow> runs (seq (type_error m) (ret NULL_REF)) s (yields D R s)"
  unfolding type_error_def by (rule runs_error) simp_all

lemma runs_call_exit:
  assumes "ok s D R" "\<And>r. r \<in> set args \<Longrightarrow> val s D r"
  shows "runs (eval_call_exit args) s (yields D R s)"
proof (cases args)
  case Nil
  then show ?thesis by (simp add: eval_call_exit_def)
next
  case (Cons r rs)
  show ?thesis
  proof (cases rs)
    case Nil
    have r: "val s D r" using Cons assms(2) by simp
    obtain a v where v: "store s a = Some v" "gives s (deref r) a" "wf_value (objs s) v" using valE [OF assms(1) r] by metis
    note g = runs_gives [OF v(2)] runs_gives [OF gives_type_at [OF v(1)]]
    show ?thesis
    proof (cases "vtype v = VAL_INTEGER")
      case True
      then obtain i where "data v = Integer_value i" using v(3) by (cases "data v") (auto simp: wf_value_def)
      then show ?thesis
        using Nil Cons True by (simp add: eval_call_exit_def g runs_gives [OF gives_integer_value [OF v(1)]])
    next
      case False
      have "runs (ref_println r print_err MAX_DEPTH) s (\<lambda>_ _. True)"
        by (rule runs_reads [OF reads_println(1) [OF assms(1) reads_print(2) r] assms(1)]) simp
      then show ?thesis using Nil Cons False by (simp add: eval_call_exit_def g)
    qed
  next
    case (Cons q qs)
    then show ?thesis using \<open>args = r # rs\<close> runs_type_error_null [OF assms(1)] by (simp add: eval_call_exit_def)
  qed
qed

lemma runs_mem_used: "ok s D R \<Longrightarrow> runs mem_used s (\<lambda>_ s'. s' = s)"
  using ok_table [of s D R] mem_used_run [of s] by (auto simp: table_inv_def pool_inv_def runs_Inr)

lemma runs_call_mem:
  assumes "ok s D R"
  shows "runs (eval_call_mem args) s (yields D R s)"
proof (cases "length args > 0")
  case True
  then show ?thesis using runs_type_error_null [OF assms] by (simp add: eval_call_mem_def)
next
  case False
  let ?k = "\<lambda>m. bnd refs_used (\<lambda>n. seq (print_out (show_nat m @ '' bytes in use; '' @ show_nat n @ '' refs in use'' @ [CHR 0x0A])) none_result)"
  have p: "runs (seq (print_out t) none_result) s (yields D R s)" for t
    unfolding seq_def by (rule runs_after_reads [OF reads_print(1) assms runs_none_result])
  have "runs mem_used s (\<lambda>m s'. runs (?k m) s' (yields D R s))"
    using runs_mem_used [OF assms] by (rule runs_mono) (use p in \<open>auto simp: refs_used_def\<close>)
  then show ?thesis using False by (simp add: eval_call_mem_def)
qed

lemma runs_call_print:
  assumes "ok s D R" "\<And>r. r \<in> set args \<Longrightarrow> val s D r"
  shows "runs (eval_call_print args) s (yields D R s)"
proof -
  have p: "reads s (ref_print r print_out MAX_DEPTH)" if "r \<in> set args" for r
    using assms(2) [OF that] by (rule reads_ref_print [OF assms(1) reads_print(1)])
  have "reads s (case args of [] \<Rightarrow> ret () | r # rs \<Rightarrow> seq (ref_print r print_out MAX_DEPTH)
      (each (\<lambda>r'. seq (print_out '' '') (ref_print r' print_out MAX_DEPTH)) rs))"
    using p by (cases args) (auto intro!: reads_seq reads_each reads_intros)
  then have "reads s (seq (case args of [] \<Rightarrow> ret () | r # rs \<Rightarrow> seq (ref_print r print_out MAX_DEPTH)
      (each (\<lambda>r'. seq (print_out '' '') (ref_print r' print_out MAX_DEPTH)) rs)) (print_out [CHR 0x0A]))"
    by (rule reads_seq) (rule reads_intros)
  from runs_after_reads [OF this assms(1) runs_none_result]
  show ?thesis unfolding eval_call_print_def by (simp add: seq_def)
qed

lemma runs_call_len:
  assumes "ok s D R" "\<And>r. r \<in> set args \<Longrightarrow> val s D r"
  shows "runs (eval_call_len args) s (yields D R s)"
proof -
  have "runs (bnd (ref_len r) (\<lambda>n. make_reference_int (word_of_int n))) s (yields D R s)" if "args = [r]" for r
    using assms that by (intro runs_after_reads [OF reads_ref_len assms(1) runs_make_int]) auto
  then show ?thesis
    using runs_type_error_null [OF assms(1)] unfolding eval_call_len_def by (auto split: list.splits)
qed

lemma runs_call_bool:
  assumes "ok s D R" "\<And>r. r \<in> set args \<Longrightarrow> val s D r"
  shows "runs (eval_call_bool args) s (yields D R s)"
proof -
  have "runs (bnd (ref_bool r) bool_ref) s (yields D R s)" if r: "args = [r]" for r
  proof -
    obtain b where "gives s (ref_bool r) b" by (rule ref_bool_gives [OF assms(1), of r]) (use assms(2) r in auto)
    then show ?thesis using runs_bool_ref [OF assms(1)] by (simp add: runs_gives)
  qed
  then show ?thesis
    using runs_type_error_null [OF assms(1)] unfolding eval_call_bool_def by (auto split: list.splits)
qed

lemma runs_call_function:
  assumes "ok s D R" "\<And>r. r \<in> set args \<Longrightarrow> val s D r" "name \<noteq> ''gc''"
  shows "runs (call_function name args) s (yields D R s)"
  unfolding call_function_def
  using assms(3) runs_call_exit [OF assms(1,2)] runs_call_mem [OF assms(1)] runs_call_print [OF assms(1,2)] runs_call_len [OF assms(1,2)]
    runs_call_bool [OF assms(1,2)] runs_error [OF assms(1)] by simp

end
