(* ===== verification/Py_Build.thy ===== *)
theory Py_Build
  imports Py_Calls
begin

text \<open>
  List literals of Subpython (\<open>eval_literal_list\<close> of \<open>eval.c\<close>): the array and the list are made first and filled element by
  element; an exception on the way drops the unfinished list again.
\<close>

section \<open>Unfinished lists\<close>

lemma hinv_die_in:
  assumes "hinv H D (add_mset r R)" "H r = Some v" "ref_count v = 1" "r \<in> D"
  shows "hinv (H(r \<mapsto> v\<lparr>ref_count := 0\<rparr>)) D R"
proof (rule hinvI)
  let ?H = "H(r \<mapsto> v\<lparr>ref_count := 0\<rparr>)"
  have p: "pointed ?H D = pointed H D" using assms(4) by (rule pointed_upd_in)
  show "count R q + count (pointed ?H D) q \<le> rc ?H q" for q
    using hinv_count [OF assms(1), of q] assms(2,3) by (cases "q = r") (simp_all add: p rc_def)
  show "wf_value ?H w" if "?H q = Some w" "q \<notin> D" for q w
  proof -
    have q: "H q = Some w" using that assms(4) by (auto split: if_splits)
    show ?thesis using assms(2) by (intro hinv_type_kept [OF assms(1) q that(2)]) simp_all
  qed
qed (use assms in \<open>auto simp: hinv_def\<close>)

definition building :: "reference_t set \<Rightarrow> reference_t multiset \<Rightarrow> reference_t \<Rightarrow> reference_t \<Rightarrow> reference_t list \<Rightarrow> py_state \<Rightarrow> bool" where
  "building D R l a rs t \<longleftrightarrow> ok t (insert l (insert a D)) (add_mset a (add_mset l R + mset (filter (\<lambda>r. 0 \<le> r) rs))) \<and>
     (\<forall>d \<in> D. d \<in># R) \<and> l \<notin> D \<and> a \<notin> D \<and> l \<noteq> a \<and> 0 \<le> a \<and> part t l VAL_LIST (List_value (int (length rs)) a) \<and>
     part t a VAL_REF_ARRAY (Ref_array_value rs) \<and> (\<forall>r \<in> set rs. r = NULL_REF \<or> 0 \<le> r)"

lemma building_done:
  assumes "building D R l a rs t" "\<forall>r \<in> set rs. 0 \<le> r"
  shows "ok t D (add_mset l R)"
proof -
  have b: "ok t (insert l (insert a D)) (add_mset a (add_mset l R + mset (filter (\<lambda>r. 0 \<le> r) rs)))" "\<forall>d \<in> D. d \<in># R" "l \<notin> D" "a \<notin> D" "l \<noteq> a" "0 \<le> a"
    using assms(1) by (simp_all add: building_def)
  obtain v va where v: "objs t l = Some v" "vtype v = VAL_LIST" "data v = List_value (int (length rs)) a"
    and va: "objs t a = Some va" "vtype va = VAL_REF_ARRAY" "data va = Ref_array_value rs"
    using assms(1) by (auto simp: building_def part_def)
  have "held va = filter (\<lambda>r. 0 \<le> r) rs" using va by (simp add: held_def)
  then show ?thesis
    using assms(2) b v va by (intro ok_close_list [of t l a D "add_mset l R" va v "length rs" rs]) auto
qed

lemma building_array_closed:
  assumes "building D R l a rs t"
  shows "hinv (objs t) (insert l D) (add_mset l (R + roots t + {#a#}))"
proof -
  let ?M = "mset (filter (\<lambda>r. 0 \<le> r) rs)"
  have b: "ok t (insert l (insert a D)) (add_mset a (add_mset l R + ?M))" "\<forall>d \<in> D. d \<in># R" "l \<notin> D" "a \<notin> D" "l \<noteq> a"
    "\<forall>r \<in> set rs. r = NULL_REF \<or> 0 \<le> r" using assms(1) by (simp_all add: building_def)
  obtain va where va: "objs t a = Some va" "vtype va = VAL_REF_ARRAY" "data va = Ref_array_value rs"
    using assms(1) by (auto simp: building_def part_def)
  have "user (objs t) r" if "r \<in># ?M" for r
    using that b(2) by (intro built_entries [OF b(1)]) auto
  then have "wf_value (objs t) va" using va b(6) by (auto simp: wf_value_def)
  moreover have "held va = filter (\<lambda>r. 0 \<le> r) rs" using va by (simp add: held_def)
  moreover have "hinv (objs t) (insert a (insert l D)) (add_mset l (R + roots t + {#a#}) + ?M)"
    using ok_hinv [OF b(1)] by (simp add: ac_simps insert_commute add_mset_commute)
  ultimately show ?thesis using va(1) b(4,5) by (intro hinv_close [of "objs t" a "insert l D" _ va]) simp_all
qed

text \<open>Dropping an unfinished list drops its array and the elements so far.\<close>

lemma building_abort:
  assumes "building D R l a rs t"
  obtains u where "decref l t = (Inr (), u)" "does D R t u" "exc_type u = exc_type t"
proof -
  have b: "ok t (insert l (insert a D)) (add_mset a (add_mset l R + mset (filter (\<lambda>r. 0 \<le> r) rs)))" "\<forall>d \<in> D. d \<in># R" "l \<notin> D" "0 \<le> a"
    using assms(1) by (simp_all add: building_def)
  obtain v where v: "objs t l = Some v" "vtype v = VAL_LIST" "data v = List_value (int (length rs)) a"
    using assms(1) by (auto simp: building_def part_def)
  have one: "ref_count v = 1" using ok_rc [OF b(1), of l] v(1) by (simp add: rc_def)
  have h: "held v = [a]" "held_refs v = ret [a]" using v b(4) by (simp_all add: held_def held_refs_def)
  have "hinv ((objs t)(l \<mapsto> v\<lparr>ref_count := 0\<rparr>)) (insert l D) (R + roots t + mset (held v))"
    using hinv_die_in [OF building_array_closed [OF assms] v(1) one] h(1) by simp
  moreover have "pinned (objs t) D (R + roots t)" using b(2) by (auto simp: pinned_def)
  moreover have "card (dom (objs t) - D) < Suc (length (ref_table t) + 1)"
  proof -
    have "card (dom (objs t) - D) \<le> card (dom (objs t))" using objs_finite by (intro card_mono) auto
    then show ?thesis using objs_card [of t] by linarith
  qed
  ultimately obtain u where u: "decref_at (Suc (length (ref_table t) + 1)) l t = (Inr (), u)" "released D (R + roots t) t u"
    using decref_dying [OF decref_good_all ok_table [OF b(1)] v(1) one b(3) _ h(2)] h(1) b(4) by auto
  then have rel: "table_inv u" "hinv (objs u) D (R + roots t)" "shrunk t u" by (simp_all add: released_def)
  have ctx: "ctx u = ctx t" "exc_type u = exc_type t" using rel(3) by (simp_all add: shrunk_def)
  have keep: "keeps D t u" using b(2) ok_rc [OF b(1)] by (intro keepsI shrunk_fixed [OF rel(3,2)]) auto
  have "ok u D R"
    unfolding ok_def ctx_roots [OF ctx(1)] ctx_singles [OF ctx(1)]
  proof (intro conjI ballI)
    show "q \<in> D \<or> user (objs u) q" if q: "q \<in># R + roots t" for q
    proof -
      obtain w where w: "objs u q = Some w" using hinv_root [OF rel(2) q] by blast
      show ?thesis using built_roots [OF b(1) q] types_kept_user [OF shrunk_types [OF rel(3)] _ w] by blast
    qed
    show "d \<in># R" "rc (objs u) d = 1" if "d \<in> D" for d
      using that b(2) ok_rc [OF b(1), of d] keepsD(1) [OF keep that] by (auto simp: rc_def)
  qed (use rel ok_singles [OF b(1)] in simp_all)
  then have "does D R t u" using keep ctx(2) by (simp add: does_def later_def)
  then show thesis using u(1) ctx(2) by (intro that [of u]) (simp_all add: decref_def bnd_Inr)
qed

section \<open>Filling the array\<close>

lemma ok_with_value:
  assumes "ok s D R" "q \<in> D" "objs s q = Some w" "payload_bytes d \<le> value_size w"
  shows "ok (with_value q (w\<lparr>data := d\<rparr>) s) D R" "objs (with_value q (w\<lparr>data := d\<rparr>) s) = (objs s)(q \<mapsto> w\<lparr>data := d\<rparr>)"
proof -
  let ?s = "with_value q (w\<lparr>data := d\<rparr>) s"
  have "q \<in># R + roots s" using ok_within [OF assms(1)] assms(2) by auto
  note w = hinv_with_value [OF ok_table [OF assms(1)] ok_hinv [OF assms(1)] assms(3,2) this assms(4)]
  have c: "roots ?s = roots s" "singles ?s = singles s" by (rule ctx_roots ctx_singles; simp)+
  show "objs ?s = (objs s)(q \<mapsto> w\<lparr>data := d\<rparr>)" by (rule w(3))
  show "ok ?s D R"
    unfolding ok_def c
  proof (intro conjI ballI)
    show "r \<in> D \<or> user (objs ?s) r" if "r \<in># R + roots s" for r
      using that assms unfolding ok_def w(3) user_def by auto
    show "r \<in># R" "rc (objs ?s) r = 1" if "r \<in> D" for r
      using that assms ok_within [OF assms(1)] ok_rc [OF assms(1) that] unfolding w(3) by (auto simp: rc_Some)
  qed (use w ok_singles [OF assms(1)] in simp_all)
qed

lemma building_step:
  assumes "building D R l a (xs @ NULL_REF # ys) t"
    and y: "yields (insert l (insert a D)) (add_mset a (add_mset l R + mset (filter (\<lambda>r. 0 \<le> r) (xs @ NULL_REF # ys)))) t r t'"
  obtains u where "array_set (address t a) (int (length xs)) r t' = (Inr (), u)" "building D R l a (xs @ r # ys) u"
    "address u a = address t a" "keeps D t u" "exc_type u = exc_type t'"
proof -
  let ?D = "insert l (insert a D)" and ?rs = "xs @ NULL_REF # ys"
  have b: "\<forall>d \<in> D. d \<in># R" "l \<notin> D" "a \<notin> D" "l \<noteq> a" "0 \<le> a" "part t l VAL_LIST (List_value (int (length ?rs)) a)"
    "part t a VAL_REF_ARRAY (Ref_array_value ?rs)" "\<forall>r \<in> set ?rs. r = NULL_REF \<or> 0 \<le> r"
    using assms(1) unfolding building_def by blast+
  have d: "keeps ?D t t'" "ok t' ?D (if r = NULL_REF then add_mset a (add_mset l R + mset (filter (\<lambda>r. 0 \<le> r) ?rs))
      else add_mset r (add_mset a (add_mset l R + mset (filter (\<lambda>r. 0 \<le> r) ?rs))))"
    using y by (simp_all add: yields_def does_def split: if_splits)
  have nn: "r = NULL_REF \<or> 0 \<le> r"
  proof (cases "r = NULL_REF")
    case False
    then obtain w where "objs t' r = Some w" using hinv_root [OF ok_hinv [OF d(2)], of r] by auto
    then show ?thesis using objs_nonneg by blast
  qed simp
  have ok': "ok t' ?D (add_mset a (add_mset l R + mset (filter (\<lambda>r. 0 \<le> r) (xs @ r # ys))))"
    using d(2) nn by (auto simp: NULL_REF_def add_mset_commute split: if_splits)
  obtain wa where wa: "objs t' a = Some wa" "vtype wa = VAL_REF_ARRAY" "data wa = Ref_array_value ?rs"
    using b(7) keepsD(1) [OF d(1), of a] by (auto simp: part_def)
  let ?u = "with_value a (wa\<lparr>data := Ref_array_value (xs @ r # ys)\<rparr>) t'"
  have "payload_bytes (Ref_array_value (xs @ r # ys)) \<le> value_size wa" using table_inv_fits [OF ok_table [OF ok'] wa(1)] wa(3) by simp
  note w = ok_with_value [OF ok' _ wa(1) this]
  have "?rs[length xs := r] = xs @ r # ys" by simp
  then have run: "array_set (address t a) (int (length xs)) r t' = (Inr (), ?u)"
    using array_set_run [OF ok_table [OF ok'] wa(1,3), of "int (length xs)" r] keepsD(2) [OF d(1), of a] by simp
  have pl: "part ?u l VAL_LIST (List_value (int (length (xs @ r # ys))) a)"
    using b(4,6) keepsD(1) [OF d(1), of l] w(2) by (simp add: part_def)
  have pa: "part ?u a VAL_REF_ARRAY (Ref_array_value (xs @ r # ys))" using w(2) wa(2) by (simp add: part_def)
  have "building D R l a (xs @ r # ys) ?u"
    unfolding building_def using w(1) b(1-5,8) pl pa nn by auto
  moreover have "keeps D t ?u" using d(1) b(3) w(2) by (auto simp: keeps_def)
  ultimately show thesis using that run keepsD(2) [OF d(1), of a] by simp
qed

end
