(* ===== verification/Py_Safe.thy ===== *)
theory Py_Safe
  imports Py_Build
begin

text \<open>
  The evaluator of Subpython (\<open>eval.c\<close>) keeps its invariant on programs that neither build dictionaries nor call
  \<open>gc\<close>: no assertion fails and no memory outside a value is accessed, whatever the program does.
\<close>

section \<open>The programs\<close>

definition plain_target :: "Node \<Rightarrow> bool" where
  "plain_target n \<longleftrightarrow> (case n of ExprIdentifier name \<Rightarrow> \<not> reserved name | _ \<Rightarrow> True)"

definition opt_all :: "('a \<Rightarrow> bool) \<Rightarrow> 'a option \<Rightarrow> bool" where
  "opt_all P x \<longleftrightarrow> (case x of None \<Rightarrow> True | Some y \<Rightarrow> P y)"

lemma opt_all_simps [simp]: "opt_all P None" "opt_all P (Some y) = P y"
  by (simp_all add: opt_all_def)

lemma opt_all_cong [fundef_cong]: "x = y \<Longrightarrow> (\<And>z. y = Some z \<Longrightarrow> P z = Q z) \<Longrightarrow> opt_all P x = opt_all Q y"
  by (simp add: opt_all_def split: option.splits)

text \<open>
  No dictionary literal, no call of \<open>gc\<close>, and no assignment to or deletion of the three constants, which
  the grammar does not take for identifiers; no string literal of \<open>2\<^sup>6\<^sup>2\<close> characters and no list literal of \<open>2\<^sup>6\<^sup>0\<close>
  elements, for which the sizes of \<open>eval_refs.c\<close> come near to wrapping around.
\<close>

fun plain :: "Node \<Rightarrow> bool" where
  "plain (StmtSequence ns) = list_all plain ns"
| "plain (StmtAssign l r) = (plain_target l \<and> plain l \<and> plain r)"
| "plain (StmtDel arg) = (plain_target arg \<and> plain arg)"
| "plain (StmtIf c l r) = (plain c \<and> plain l \<and> opt_all plain r)"
| "plain (StmtWhile c body) = (plain c \<and> plain body)"
| "plain (ExprLiteralString t) = (length t < 2 ^ 62)"
| "plain (ExprLiteralList vals) = (list_length vals < 2 ^ 60 \<and> opt_all (list_all plain) vals)"
| "plain (ExprLiteralDict ks vs) = False"
| "plain (ExprNotTest n) = plain n"
| "plain (ExprAndTest l r) = (plain l \<and> plain r)"
| "plain (ExprOrTest l r) = (plain l \<and> plain r)"
| "plain (ExprBuiltin t l r) = (plain l \<and> opt_all plain r)"
| "plain (ExprCall f args) = (f \<noteq> ExprIdentifier ''gc'' \<and> opt_all (list_all plain) args)"
| "plain (ExprSubscript n ix) = (plain n \<and> plain ix)"
| "plain _ = True"

definition sound :: "ev \<Rightarrow> bool" where
  "sound ev \<longleftrightarrow> (\<forall>node s D R. plain node \<longrightarrow> ok s D R \<longrightarrow> runs (ev node) s (yields D R s))"

lemma soundD: "sound ev \<Longrightarrow> plain node \<Longrightarrow> ok s D R \<Longrightarrow> runs (ev node) s (yields D R s)"
  by (simp add: sound_def)

text \<open>Evaluating a subtree: an exception, or a value that is held from then on.\<close>

lemma runs_sub:
  assumes "sound ev" "plain node" "ok s D R"
    and exc: "\<And>r s'. does D R s s' \<Longrightarrow> exc_type s' \<noteq> EXC_NONE \<Longrightarrow> Q r s'"
    and val: "\<And>r s'. does D (add_mset r R) s s' \<Longrightarrow> exc_type s' = EXC_NONE \<Longrightarrow> val s' D r \<Longrightarrow> Q r s'"
  shows "runs (ev node) s Q"
proof (rule runs_yields [OF soundD [OF assms(1-3)]])
  show "Q NULL_REF s'" if "does D R s s'" "exc_type s' \<noteq> EXC_NONE" for s' using exc that .
  show "Q r s'" if d: "does D (add_mset r R) s s'" for r s'
    using exc [OF does_drop [OF d ok_within [OF assms(3)]]] val [OF d _ does_val [OF d ok_within [OF assms(3)]]] by blast
qed

lemma runs_yields_after: "does D R s t \<Longrightarrow> runs m t (yields D R' t) \<Longrightarrow> runs m t (yields D R' s)"
  by (erule runs_mono) (rule does_yields)

lemma runs_does_after: "does D R s t \<Longrightarrow> runs m t (\<lambda>_. does D R' t) \<Longrightarrow> runs m t (\<lambda>_. does D R' s)"
  by (erule runs_mono) (rule does_trans)

section \<open>Expressions\<close>

lemma runs_not_test:
  assumes "sound ev" "plain n" "ok s D R"
  shows "runs (eval_not_test ev n) s (yields D R s)"
  unfolding eval_not_test_def runs_bnd
proof (rule runs_sub [OF assms])
  fix r s'
  assume d: "does D (add_mset r R) s s'" "exc_type s' = EXC_NONE" "val s' D r"
  obtain b where b: "gives s' (ref_bool r) b" by (rule ref_bool_gives [OF does_ok [OF d(1)] d(3)]) (rule that)
  have "runs (bnd (bool_ref (\<not> b)) (\<lambda>x. seq (decref r) (ret x))) s' (yields D R s)"
    by (intro runs_then_decref runs_yields_after [OF d(1)] runs_bool_ref does_ok [OF d(1)] ok_within [OF assms(3)])
  then show "runs exception_occurred s' (\<lambda>x t. runs (if x then ret NULL_REF
      else bnd (ref_bool r) (\<lambda>b. bnd (bool_ref (\<not> b)) (\<lambda>result. seq (decref r) (ret result)))) t (yields D R s))"
    using d(2) by (simp add: runs_gives [OF b])
qed (simp add: yields_exc)

lemma runs_test:
  assumes "sound ev" "plain l" "plain r" "ok s D R"
  shows "runs (bnd (ev l) (\<lambda>l. bnd exception_occurred (\<lambda>e. if e then ret NULL_REF
      else bnd (ref_bool l) (\<lambda>b. if P b then ret l else seq (decref l) (ev r))))) s (yields D R s)"
  unfolding runs_bnd
proof (rule runs_sub [OF assms(1,2,4)])
  fix x s'
  assume d: "does D (add_mset x R) s s'" "exc_type s' = EXC_NONE" "val s' D x"
  obtain b where b: "gives s' (ref_bool x) b" by (rule ref_bool_gives [OF does_ok [OF d(1)] d(3)]) (rule that)
  have "runs (decref x) s' (\<lambda>_ t. runs (ev r) t (yields D R s))"
  proof (rule runs_decref [OF does_ok [OF d(1)] ok_within [OF assms(4)]])
    fix t assume "does D R s' t"
    then have "does D R s t" using does_trans [OF d(1)] by blast
    then show "runs (ev r) t (yields D R s)" by (rule runs_yields_after) (rule soundD [OF assms(1,3) does_ok], fact)
  qed
  then show "runs exception_occurred s' (\<lambda>e t. runs (if e then ret NULL_REF
      else bnd (ref_bool x) (\<lambda>b. if P b then ret x else seq (decref x) (ev r))) t (yields D R s))"
    using d(2) yieldsI [OF d(1)] by (simp add: runs_gives [OF b])
qed (simp add: yields_exc)

lemma runs_and_test: "sound ev \<Longrightarrow> plain l \<Longrightarrow> plain r \<Longrightarrow> ok s D R \<Longrightarrow> runs (eval_and_test ev l r) s (yields D R s)"
  unfolding eval_and_test_def by (rule runs_test)

lemma runs_or_test: "sound ev \<Longrightarrow> plain l \<Longrightarrow> plain r \<Longrightarrow> ok s D R \<Longrightarrow> runs (eval_or_test ev l r) s (yields D R s)"
  unfolding eval_or_test_def by (rule runs_test)

text \<open>Two operands, an operation on them, and the operands dropped.\<close>

lemma runs_two_then_decref:
  assumes "runs m s (yields D (add_mset l (add_mset r R)) s0)" "\<forall>d \<in> D. d \<in># R"
  shows "runs (bnd m (\<lambda>x. seq (decref l) (seq (decref r) (ret x)))) s (yields D R s0)"
proof -
  have "runs (bnd m (\<lambda>x. seq (decref l) (ret x))) s (yields D (add_mset r R) s0)"
    using assms by (intro runs_then_decref) auto
  then have "runs (bnd (bnd m (\<lambda>x. seq (decref l) (ret x))) (\<lambda>x. seq (decref r) (ret x))) s (yields D R s0)"
    using assms(2) by (rule runs_then_decref)
  then show ?thesis by simp
qed

lemma runs_binary:
  assumes "sound ev" "plain rn" "does D (add_mset l R) s s'" "val s' D l" "\<forall>d \<in> D. d \<in># R"
    and f: "\<And>r t. does D (add_mset r (add_mset l R)) s t \<Longrightarrow> val t D l \<Longrightarrow> val t D r \<Longrightarrow> runs (op r) t (yields D (add_mset l (add_mset r R)) t)"
  shows "runs (ev rn) s' (\<lambda>r t. runs (if exc_type t \<noteq> EXC_NONE then seq (decref l) (ret NULL_REF)
    else bnd (op r) (\<lambda>x. seq (decref l) (seq (decref r) (ret x)))) t (yields D R s))"
proof (rule runs_sub [OF assms(1,2) does_ok [OF assms(3)]])
  fix r t
  assume d: "does D (add_mset l R) s' t" "exc_type t \<noteq> EXC_NONE"
  then have "does D (add_mset l R) s t" using does_trans [OF assms(3)] by blast
  then show "runs (if exc_type t \<noteq> EXC_NONE then seq (decref l) (ret NULL_REF)
    else bnd (op r) (\<lambda>x. seq (decref l) (seq (decref r) (ret x)))) t (yields D R s)"
    using d(2) runs_decref_ret [of D NULL_REF l R s t] assms(5) by simp
next
  fix r t
  assume d: "does D (add_mset r (add_mset l R)) s' t" "exc_type t = EXC_NONE" "val t D r"
  have d': "does D (add_mset r (add_mset l R)) s t" using does_trans [OF assms(3) d(1)] .
  have "l \<notin> D" using assms(4) by (simp add: val_def)
  then have "val t D l" using ok_held [OF does_ok [OF d'], of l] by simp
  then have "runs (op r) t (yields D (add_mset l (add_mset r R)) s)"
    using f [OF d'] d(3) by (intro runs_yields_after [OF d']) blast
  then show "runs (if exc_type t \<noteq> EXC_NONE then seq (decref l) (ret NULL_REF)
    else bnd (op r) (\<lambda>x. seq (decref l) (seq (decref r) (ret x)))) t (yields D R s)"
    using d(2) runs_two_then_decref [OF _ assms(5)] by simp
qed

lemma runs_builtin:
  assumes "sound ev" "plain l" "opt_all plain r" "ok s D R"
  shows "runs (eval_builtin ev t l r) s (yields D R s)"
  unfolding eval_builtin_def runs_bnd
proof (rule runs_sub [OF assms(1,2,4)])
  fix x s'
  assume d: "does D (add_mset x R) s s'" "exc_type s' = EXC_NONE" "val s' D x"
  have f: "runs (apply_builtin t x y) u (yields D (add_mset x (add_mset y R)) u)"
    if "does D (add_mset y (add_mset x R)) s u" "val u D x" "val u D y" for y u
    using runs_apply_builtin [OF does_ok [OF that(1)] that(2,3)] by (simp add: add_mset_commute)
  show "runs exception_occurred s' (\<lambda>e u. runs (if e then ret NULL_REF else bnd (case r of
      None \<Rightarrow> seq (incref x) (ret (Some x))
      | Some rn \<Rightarrow> bnd (ev rn) (\<lambda>r. bnd exception_occurred (\<lambda>e'. if e' then seq (decref x) (ret None) else ret (Some r))))
      (\<lambda>ro. case ro of None \<Rightarrow> ret NULL_REF
        | Some r \<Rightarrow> bnd (apply_builtin t x r) (\<lambda>result. seq (decref x) (seq (decref r) (ret result))))) u (yields D R s))"
  proof (cases r)
    case None
    have "runs (incref x) s' (\<lambda>_ u. runs (bnd (apply_builtin t x x) (\<lambda>result. seq (decref x) (seq (decref x) (ret result)))) u (yields D R s))"
    proof (rule runs_incref [OF does_ok [OF d(1)] d(3)])
      fix u assume "does D (add_mset x (add_mset x R)) s' u"
      then have u: "does D (add_mset x (add_mset x R)) s u" using does_trans [OF d(1)] by blast
      have v: "val u D x" using does_val [OF u] ok_within [OF assms(4)] by auto
      show "runs (bnd (apply_builtin t x x) (\<lambda>result. seq (decref x) (seq (decref x) (ret result)))) u (yields D R s)"
        by (rule runs_two_then_decref [OF runs_yields_after [OF u f [OF u v v]] ok_within [OF assms(4)]])
    qed
    then show ?thesis using None d(2) by simp
  next
    case (Some rn)
    have pr: "plain rn" using assms(3) Some by simp
    have "runs (ev rn) s' (\<lambda>r u. runs (if exc_type u \<noteq> EXC_NONE then seq (decref x) (ret NULL_REF)
      else bnd (apply_builtin t x r) (\<lambda>result. seq (decref x) (seq (decref r) (ret result)))) u (yields D R s))"
      using f by (rule runs_binary [OF assms(1) pr d(1,3) ok_within [OF assms(4)]])
    then show ?thesis using Some d(2) by (simp add: if_distrib [of "\<lambda>m. runs m _ _"] cong: if_cong)
  qed
qed (simp add: yields_exc)

lemma runs_subscript_expr:
  assumes "sound ev" "plain l" "plain r" "ok s D R"
  shows "runs (eval_subscript ev l r) s (yields D R s)"
  unfolding eval_subscript_def runs_bnd
proof (rule runs_sub [OF assms(1,2,4)])
  fix x s'
  assume d: "does D (add_mset x R) s s'" "exc_type s' = EXC_NONE" "val s' D x"
  have "runs (ref_subscr_get x y) u (yields D (add_mset x (add_mset y R)) u)"
    if "does D (add_mset y (add_mset x R)) s u" "val u D x" "val u D y" for y u
    using runs_subscr_get [OF does_ok [OF that(1)] that(2,3)] by (simp add: add_mset_commute)
  then have "runs (ev r) s' (\<lambda>r u. runs (if exc_type u \<noteq> EXC_NONE then seq (decref x) (ret NULL_REF)
      else bnd (ref_subscr_get x r) (\<lambda>result. seq (decref x) (seq (decref r) (ret result)))) u (yields D R s))"
    by (rule runs_binary [OF assms(1,3) d(1,3) ok_within [OF assms(4)]])
  then show "runs exception_occurred s' (\<lambda>e u. runs (if e then ret NULL_REF else bnd (ev r) (\<lambda>ix. bnd exception_occurred (\<lambda>e'.
       if e' then seq (decref x) (ret NULL_REF)
       else bnd (ref_subscr_get x ix) (\<lambda>result. seq (decref x) (seq (decref ix) (ret result)))))) u (yields D R s))"
    using d(2) by simp
qed (simp add: yields_exc)

section \<open>List literals\<close>

lemma runs_store_elements:
  assumes "sound ev"
  shows "list_all plain ns \<Longrightarrow> building D R l a (xs @ replicate (length ns) NULL_REF) t \<Longrightarrow> (\<forall>r \<in> set xs. 0 \<le> r) \<Longrightarrow>
    keeps D s t \<Longrightarrow> later s t \<Longrightarrow> runs (store_elements ev l (address t a) (int (length xs)) ns) t (yields D R s)"
proof (induction ns arbitrary: xs t)
  case Nil
  then have "ok t D (add_mset l R)" by (intro building_done) simp_all
  then show ?case using Nil.prems unfolding store_elements.simps runs_ret by (intro yieldsI) (simp add: does_def)
next
  case (Cons n ns)
  let ?D = "insert l (insert a D)" and ?ys = "replicate (length ns) NULL_REF"
  let ?R = "add_mset a (add_mset l R + mset (filter (\<lambda>r. 0 \<le> r) (xs @ NULL_REF # ?ys)))"
  have b: "building D R l a (xs @ NULL_REF # ?ys) t" using Cons.prems(2) by simp
  have "ok t ?D ?R" using b by (simp add: building_def)
  then have "runs (ev n) t (yields ?D ?R t)" using Cons.prems(1) by (intro soundD [OF assms]) simp_all
  then have "runs (ev n) t (\<lambda>r t'. runs (seq (array_set (address t a) (int (length xs)) r) (bnd exception_occurred (\<lambda>e.
      if e then seq (decref l) (ret NULL_REF) else store_elements ev l (address t a) (int (length xs) + 1) ns))) t' (yields D R s))"
  proof (rule runs_mono)
    fix r t'
    assume y: "yields ?D ?R t r t'"
    obtain u where u: "array_set (address t a) (int (length xs)) r t' = (Inr (), u)" "building D R l a (xs @ r # ?ys) u"
      "address u a = address t a" "keeps D t u" "exc_type u = exc_type t'"
      by (rule building_step [OF b y]) (rule that)
    have k: "keeps D s u" "later s u" using u(4,5) y Cons.prems(4,5) by (auto simp: keeps_def later_def yields_def does_def)
    have "runs (bnd exception_occurred (\<lambda>e. if e then seq (decref l) (ret NULL_REF)
        else store_elements ev l (address t a) (int (length xs) + 1) ns)) u (yields D R s)"
    proof (cases "exc_type u = EXC_NONE")
      case False
      obtain w where w: "decref l u = (Inr (), w)" "does D R u w" "exc_type w = exc_type u" by (rule building_abort [OF u(2)]) (rule that)
      then have "does D R s w" using k by (auto simp: does_def keeps_def later_def)
      then show ?thesis using False w(1,3) by (simp add: runs_Inr yields_exc)
    next
      case True
      then have "r \<noteq> NULL_REF" using y u(5) by (simp add: yields_def)
      then have "0 \<le> r" using u(2) by (auto simp: building_def)
      then have "runs (store_elements ev l (address u a) (int (length (xs @ [r]))) ns) u (yields D R s)"
        using u(2) Cons.prems(1,3) k by (intro Cons.IH) auto
      then show ?thesis using True u(3) by (simp add: add.commute)
    qed
    then show "runs (seq (array_set (address t a) (int (length xs)) r) (bnd exception_occurred (\<lambda>e.
      if e then seq (decref l) (ret NULL_REF) else store_elements ev l (address t a) (int (length xs) + 1) ns))) t' (yields D R s)"
      using u(1) by (simp add: runs_Inr)
  qed
  then show ?case unfolding store_elements.simps runs_bnd .
qed

text \<open>An array of null references that nothing needs any more.\<close>

lemma fresh_array:
  assumes "fresh D R s VAL_REF_ARRAY (Ref_array_value (replicate n NULL_REF)) a s'" "\<forall>d \<in> D. d \<in># R"
  shows "does D R s s'" "hinv (objs s') D (add_mset a (R + roots s'))"
proof -
  obtain v where v: "objs s' a = Some v" "vtype v = VAL_REF_ARRAY" "data v = Ref_array_value (replicate n NULL_REF)"
    and f: "ok s' (insert a D) (add_mset a R)" "keeps D s s'" "exc_type s' = exc_type s" "a \<notin> D" using assms(1) by (auto simp: fresh_def)
  have "held v = []" using v by (simp add: held_def NULL_REF_def)
  moreover have "wf_value (objs s') v" using v by (auto simp: wf_value_def)
  ultimately show h: "hinv (objs s') D (add_mset a (R + roots s'))"
    using ok_hinv [OF f(1)] v(1) f(4) by (intro hinv_close [of "objs s'" a D _ v]) simp_all
  have "ok s' D R"
    unfolding ok_def
  proof (intro conjI ballI)
    show "hinv (objs s') D (R + roots s')" by (rule hinv_mono [OF h]) (metis add_mset_add_single mset_subset_eq_add_left)
    show "q \<in> D \<or> user (objs s') q" if q: "q \<in># R + roots s'" for q
    proof -
      have "q \<noteq> a"
      proof
        assume "q = a"
        then have "0 < count (R + roots s') a" using q by simp
        then show False using ok_once(1) [OF f(1), of a] by (simp add: count_eq_zero_iff)
      qed
      moreover have "q \<in># add_mset a R + roots s'" using q by auto
      ultimately show ?thesis using f(1) unfolding ok_def by blast
    qed
    show "d \<in># R" "rc (objs s') d = 1" if "d \<in> D" for d using that assms(2) ok_rc [OF f(1)] by auto
  qed (use ok_table [OF f(1)] ok_singles [OF f(1)] in simp_all)
  then show "does D R s s'" using f(2,3) by (simp add: does_def later_def)
qed

lemma fresh_deref:
  assumes "fresh D R s t d r s'"
  shows "gives s' (deref r) (address s' r)"
proof -
  obtain v where "objs s' r = Some v" "table_inv s'" using assms by (auto simp: fresh_def ok_def)
  then obtain a where "address s' r = a" "deref r s' = (Inr a, s')" using objsE by metis
  then show ?thesis by (auto intro: gives_deref)
qed

text \<open>The list gets its array.\<close>

lemma building_start:
  assumes "fresh D R s VAL_REF_ARRAY (Ref_array_value (replicate n NULL_REF)) a s1"
    "fresh (insert a D) (add_mset a R) s1 VAL_LIST (List_value 0 NULL_REF) l s2" "\<forall>d \<in> D. d \<in># R"
  obtains s3 where "set_data_at (address s2 l) (List_value (int n) a) s2 = (Inr (), s3)" "building D R l a (replicate n NULL_REF) s3"
    "address s3 a = address s1 a" "keeps D s s3" "later s s3"
proof -
  have a: "part s1 a VAL_REF_ARRAY (Ref_array_value (replicate n NULL_REF))" "a \<notin> D" "0 \<le> a" "keeps D s s1" "exc_type s1 = exc_type s"
    using assms(1) by (auto simp: fresh_def part_def)
  have l: "ok s2 (insert l (insert a D)) (add_mset l (add_mset a R))" "keeps (insert a D) s1 s2" "exc_type s2 = exc_type s1" "l \<notin> insert a D"
    using assms(2) by (auto simp: fresh_def)
  obtain v where v: "objs s2 l = Some v" "vtype v = VAL_LIST" "data v = List_value 0 NULL_REF" using assms(2) by (auto simp: fresh_def)
  have fit: "payload_bytes (List_value (int n) a) \<le> value_size v" using table_inv_fits [OF ok_table [OF l(1)] v(1)] v(3) by simp
  let ?s = "with_value l (v\<lparr>data := List_value (int n) a\<rparr>) s2"
  have w: "ok ?s (insert l (insert a D)) (add_mset l (add_mset a R))" "objs ?s = (objs s2)(l \<mapsto> v\<lparr>data := List_value (int n) a\<rparr>)"
    using ok_with_value [OF l(1) _ v(1) fit] by simp_all
  have none: "filter (\<lambda>r. 0 \<le> r) (replicate n NULL_REF) = []" by (simp add: NULL_REF_def)
  have "part ?s a VAL_REF_ARRAY (Ref_array_value (replicate n NULL_REF))"
    using a(1) keepsD(1) [OF l(2), of a] l(4) w(2) by (auto simp: part_def)
  moreover have "part ?s l VAL_LIST (List_value (int (length (replicate n NULL_REF))) a)" using v(2) w(2) by (simp add: part_def)
  ultimately have "building D R l a (replicate n NULL_REF) ?s"
    unfolding building_def none using w(1) assms(3) a(2,3) l(4) by (auto simp: add_mset_commute)
  moreover have "address ?s a = address s1 a" using keepsD(2) [OF l(2), of a] by simp
  moreover have "keeps D s ?s" using a(4) l(2,4) w(2) by (auto simp: keeps_def)
  moreover have "later s ?s" using a(5) l(3) by (simp add: later_def)
  ultimately show thesis using that set_data_at_run [OF ok_table [OF l(1)] v(1) fit] by blast
qed

lemma runs_list_object:
  assumes "sound ev" "opt_all (list_all plain) vals" "ok s D R"
    and a: "fresh D R s VAL_REF_ARRAY (Ref_array_value (replicate (list_length vals) NULL_REF)) a s1" "exc_type s1 = EXC_NONE"
  shows "runs (bnd make_reference_list (\<lambda>l. bnd exception_occurred (\<lambda>e'. if e' then seq (decref a) (ret NULL_REF)
       else bnd (deref l) (\<lambda>val_list. seq (set_data_at val_list (List_value (int (list_length vals)) a))
         (case vals of None \<Rightarrow> ret l | Some ns \<Rightarrow> store_elements ev l (address s1 a) 0 ns))))) s1 (yields D R s)"
  unfolding make_reference_list_def
  unfolding runs_bnd [of "bnd (make_ref VAL_LIST 40) (\<lambda>r. init_ref r (List_value 0 NULL_REF))"]
proof (rule runs_make)
  show "ok s1 (insert a D) (add_mset a R)" using a(1) by (simp add: fresh_def)
next
  fix m
  let ?t = "raised EXC_MEMORY_ERROR m s1"
  note f = fresh_array [OF a(1) ok_within [OF assms(3)]]
  have "roots ?t = roots s1" "objs ?t = objs s1" by (simp_all add: roots_def same_heap_objs)
  then have "hinv (objs ?t) D (add_mset a (R + roots ?t))" using f(2) by simp
  moreover have d: "does D R s ?t" using does_trans [OF f(1) does_raised [OF does_ok [OF f(1)]]] by simp
  ultimately obtain u where "decref a ?t = (Inr (), u)" "does D R ?t u" "exc_type u = exc_type ?t"
    using decref_hidden [OF does_ok [OF d]] by metis
  then have "runs (seq (decref a) (ret NULL_REF)) ?t (yields D R s)"
    using does_trans [OF d] by (simp add: runs_Inr yields_exc)
  then show "runs (bnd exception_occurred (\<lambda>e'. if e' then seq (decref a) (ret NULL_REF)
       else bnd (deref NULL_REF) (\<lambda>val_list. seq (set_data_at val_list (List_value (int (list_length vals)) a))
         (case vals of None \<Rightarrow> ret NULL_REF | Some ns \<Rightarrow> store_elements ev NULL_REF (address s1 a) 0 ns)))) ?t (yields D R s)"
    by simp
next
  fix l s2
  assume l: "fresh (insert a D) (add_mset a R) s1 VAL_LIST (List_value 0 NULL_REF) l s2"
  obtain s3 where s3: "set_data_at (address s2 l) (List_value (int (list_length vals)) a) s2 = (Inr (), s3)"
    "building D R l a (replicate (list_length vals) NULL_REF) s3" "address s3 a = address s1 a" "keeps D s s3" "later s s3"
    by (rule building_start [OF a(1) l ok_within [OF assms(3)]]) (rule that)
  have "runs (case vals of None \<Rightarrow> ret l | Some ns \<Rightarrow> store_elements ev l (address s1 a) 0 ns) s3 (yields D R s)"
  proof (cases vals)
    case None
    then have "ok s3 D (add_mset l R)" using s3(2) building_done [of D R l a "[]" s3] by (simp add: list_length_def)
    then have "yields D R s l s3" using s3(4,5) by (intro yieldsI) (simp add: does_def)
    then show ?thesis using None by simp
  next
    case (Some ns)
    then show ?thesis
      using runs_store_elements [OF assms(1), of ns D R l a "[]" s3 s] assms(2) s3(2-5)
      by (simp add: list_length_def ast_nodelist_length_def)
  qed
  moreover have "exc_type s2 = EXC_NONE" using l a(2) by (simp add: fresh_def)
  ultimately show "runs (bnd exception_occurred (\<lambda>e'. if e' then seq (decref a) (ret NULL_REF)
       else bnd (deref l) (\<lambda>val_list. seq (set_data_at val_list (List_value (int (list_length vals)) a))
         (case vals of None \<Rightarrow> ret l | Some ns \<Rightarrow> store_elements ev l (address s1 a) 0 ns)))) s2 (yields D R s)"
    using s3(1) by (simp add: runs_gives [OF fresh_deref [OF l]] runs_Inr)
qed (simp_all add: size_fine_def)

lemma array_size: "n < 2 ^ 60 \<Longrightarrow> (32 + 4 * n) mod 2 ^ 64 = 32 + 4 * n \<and> size_fine (32 + 4 * n)"
  by (simp add: size_fine_def)

lemma runs_literal_list:
  assumes "sound ev" "list_length vals < 2 ^ 60" "opt_all (list_all plain) vals" "ok s D R"
  shows "runs (eval_literal_list ev vals) s (yields D R s)"
  unfolding eval_literal_list_def make_reference_refarray_def array_size [OF assms(2), THEN conjunct1]
  unfolding runs_bnd [of "bnd (make_ref VAL_REF_ARRAY (32 + 4 * list_length vals)) (\<lambda>r. init_ref r (Ref_array_value (replicate (list_length vals) NULL_REF)))"]
proof (rule runs_make [OF assms(4)])
  fix m
  have "does D R s (raised EXC_MEMORY_ERROR m s)" using does_raised [OF assms(4)] by simp
  then show "runs (bnd exception_occurred (\<lambda>e. if e then ret NULL_REF
     else bnd (deref NULL_REF) (\<lambda>val_array. bnd make_reference_list (\<lambda>ref_list. bnd exception_occurred (\<lambda>e'. if e' then seq (decref NULL_REF) (ret NULL_REF)
       else bnd (deref ref_list) (\<lambda>val_list. seq (set_data_at val_list (List_value (int (list_length vals)) NULL_REF))
         (case vals of None \<Rightarrow> ret ref_list | Some ns \<Rightarrow> store_elements ev ref_list val_array 0 ns)))))))
     (raised EXC_MEMORY_ERROR m s) (yields D R s)"
    by (simp add: yields_exc)
next
  fix a s1
  assume a: "fresh D R s VAL_REF_ARRAY (Ref_array_value (replicate (list_length vals) NULL_REF)) a s1"
  show "runs (bnd exception_occurred (\<lambda>e. if e then ret NULL_REF
     else bnd (deref a) (\<lambda>val_array. bnd make_reference_list (\<lambda>ref_list. bnd exception_occurred (\<lambda>e'. if e' then seq (decref a) (ret NULL_REF)
       else bnd (deref ref_list) (\<lambda>val_list. seq (set_data_at val_list (List_value (int (list_length vals)) a))
         (case vals of None \<Rightarrow> ret ref_list | Some ns \<Rightarrow> store_elements ev ref_list val_array 0 ns)))))))
     s1 (yields D R s)"
  proof (cases "exc_type s1 = EXC_NONE")
    case True
    then show ?thesis
      using runs_list_object [OF assms(1,3,4) a True] by (simp add: runs_gives [OF fresh_deref [OF a]])
  next
    case False
    then show ?thesis using fresh_array(1) [OF a ok_within [OF assms(4)]] by (simp add: yields_exc)
  qed
qed (use array_size [OF assms(2)] in simp_all)

section \<open>Calls and expressions\<close>

lemma runs_args:
  assumes "sound ev"
  shows "list_all plain ns \<Longrightarrow> ok s D R \<Longrightarrow> runs (eval_args ev ns) s (\<lambda>rs s'. does D (R + mset rs) s s')"
proof (induction ns arbitrary: s R)
  case Nil
  then show ?case unfolding eval_args.simps runs_ret by (simp add: does_refl)
next
  case (Cons n ns)
  have n: "plain n" "list_all plain ns" using Cons.prems(1) by simp_all
  show ?case
    unfolding eval_args.simps runs_bnd
  proof (rule runs_sub [OF assms n(1) Cons.prems(2)])
    fix r s'
    assume d: "does D (add_mset r R) s s'" "exc_type s' = EXC_NONE"
    have "runs (eval_args ev ns) s' (\<lambda>rs t. does D (R + mset (r # rs)) s t)"
      by (rule runs_mono [OF Cons.IH [OF n(2) does_ok [OF d(1)]]]) (use does_trans [OF d(1)] in simp)
    then show "runs exception_occurred s' (\<lambda>e t. runs (if e then ret [] else bnd (eval_args ev ns) (\<lambda>rs. ret (r # rs))) t
        (\<lambda>rs t. does D (R + mset rs) s t))"
      using d(2) by simp
  qed simp
qed

lemma runs_call_end:
  assumes "does D (if x = NULL_REF then R + mset rs else add_mset x (R + mset rs)) s t" "exc_type t = EXC_NONE \<longrightarrow> x \<noteq> NULL_REF" "\<forall>d \<in> D. d \<in># R"
  shows "runs (seq (each decref (rev rs)) (ret x)) t (yields D R s)"
proof -
  let ?R = "if x = NULL_REF then R else add_mset x R"
  have "ok t D (?R + mset (rev rs))" using does_ok [OF assms(1)] by (simp split: if_splits)
  then have "runs (each decref (rev rs)) t (\<lambda>_ u. does D ?R t u \<and> exc_type u = exc_type t)"
    by (rule runs_each_decref) (use assms(3) in auto)
  then have "runs (each decref (rev rs)) t (\<lambda>_ u. yields D R s x u)"
    by (rule runs_mono) (use assms(1,2) does_trans in \<open>auto simp: yields_def\<close>)
  then show ?thesis by simp
qed

lemma runs_call:
  assumes "sound ev" "f \<noteq> ExprIdentifier ''gc''" "opt_all (list_all plain) args" "ok s D R"
  shows "runs (eval_call ev f args) s (yields D R s)"
proof -
  define s1 where "s1 = (if \<exists>name. f = ExprIdentifier name then s else raised EXC_SYNTAX_ERROR ''calling non-identifiers not supported'' s)"
  have s1: "does D R s s1" using does_raised [OF assms(4)] by (simp add: s1_def does_refl assms(4))
  have start: "runs (case f of ExprIdentifier _ \<Rightarrow> ret () | _ \<Rightarrow> exception_set EXC_SYNTAX_ERROR ''calling non-identifiers not supported'') s Q \<longleftrightarrow> Q () s1" for Q
    by (cases f) (simp_all add: s1_def)
  have bad: "exc_type s1 \<noteq> EXC_NONE" if "\<nexists>name. f = ExprIdentifier name" using that by (simp add: s1_def)
  let ?call = "\<lambda>rs. bnd exception_occurred (\<lambda>e. bnd (if e then ret NULL_REF
      else case f of ExprIdentifier name \<Rightarrow> call_function name rs | _ \<Rightarrow> halt Bad_access) (\<lambda>result. seq (each decref (rev rs)) (ret result)))"
  have "runs (case args of None \<Rightarrow> ret [] | Some ns \<Rightarrow> eval_args ev ns) s1 (\<lambda>rs t. does D (R + mset rs) s1 t)"
    using assms(3) runs_args [OF assms(1) _ does_ok [OF s1]] does_ok [OF s1] by (cases args) (simp_all add: does_refl)
  then have "runs (case args of None \<Rightarrow> ret [] | Some ns \<Rightarrow> eval_args ev ns) s1 (\<lambda>rs t. runs (?call rs) t (yields D R s))"
  proof (rule runs_mono)
    fix rs t
    assume t: "does D (R + mset rs) s1 t"
    have d: "does D (R + mset rs) s t" by (rule does_trans [OF s1 t])
    show "runs (?call rs) t (yields D R s)"
    proof (cases "exc_type t = EXC_NONE")
      case False
      then show ?thesis using runs_call_end [of D NULL_REF R rs s t] d ok_within [OF assms(4)] by simp
    next
      case True
      then obtain name where f: "f = ExprIdentifier name" using bad t by (auto simp: does_def later_def)
      have "runs (call_function name rs) t (yields D (R + mset rs) t)"
        using assms(2) f ok_args_val [OF does_ok [OF d] ok_within [OF assms(4)]] by (intro runs_call_function does_ok [OF d]) auto
      then have "runs (call_function name rs) t (\<lambda>x u. runs (seq (each decref (rev rs)) (ret x)) u (yields D R s))"
        by (rule runs_mono) (rule runs_call_end, use does_trans [OF d] ok_within [OF assms(4)] in \<open>auto simp: yields_def\<close>)
      then show ?thesis using True f by simp
    qed
  qed
  then show ?thesis unfolding eval_call_def runs_seq start runs_bnd .
qed

lemma sound_step:
  assumes "sound ev"
  shows "sound (eval_expr_step ev)"
  unfolding sound_def
proof (intro allI impI)
  fix node s D R
  assume h: "plain node" "ok s D R"
  note err = runs_error [OF h(2), of EXC_INTERNAL]
  show "runs (eval_expr_step ev node) s (yields D R s)"
    unfolding eval_expr_step_def
    by (cases node; insert h(1) err runs_make_int [OF h(2)] runs_make_string_value [OF h(2)] runs_literal_list [OF assms _ _ h(2)]
        runs_singleton [OF h(2)] runs_globals_get [OF h(2)] runs_not_test [OF assms _ h(2)] runs_and_test [OF assms _ _ h(2)]
        runs_or_test [OF assms _ _ h(2)] runs_builtin [OF assms _ _ h(2)] runs_call [OF assms _ _ h(2)] runs_subscript_expr [OF assms _ _ h(2)];
        simp add: make_reference_string_def eval_identifier_def)
qed

lemma sound_eval_expr: "sound (eval_expr n)"
proof (induction n)
  case 0
  then show ?case unfolding sound_def eval_expr.simps runs_halt by simp
next
  case (Suc n)
  have "eval_expr (Suc n) = eval_expr_step (eval_expr n)" by (rule ext) simp
  then show ?case using sound_step [OF Suc] by simp
qed

section \<open>Statements\<close>

text \<open>A statement returns a reference that is counted, or the null reference.\<close>

definition leaves :: "reference_t set \<Rightarrow> reference_t multiset \<Rightarrow> py_state \<Rightarrow> reference_t \<Rightarrow> py_state \<Rightarrow> bool" where
  "leaves D R s r s' \<longleftrightarrow> does D (if r = NULL_REF then R else add_mset r R) s s'"

definition stmt_sound :: "ev \<Rightarrow> bool" where
  "stmt_sound ev \<longleftrightarrow> (\<forall>node s D R. plain node \<longrightarrow> ok s D R \<longrightarrow> runs (ev node) s (leaves D R s))"

lemma stmt_soundD: "stmt_sound ev \<Longrightarrow> plain node \<Longrightarrow> ok s D R \<Longrightarrow> runs (ev node) s (leaves D R s)"
  by (simp add: stmt_sound_def)

lemma leaves_does: "leaves D R s r s' \<Longrightarrow> (\<forall>d \<in> D. d \<in># R) \<Longrightarrow> does D R s s'"
  using does_drop by (auto simp: leaves_def split: if_splits)

lemma leaves_after: "does D R s t \<Longrightarrow> leaves D R' t r u \<Longrightarrow> leaves D R' s r u"
  unfolding leaves_def by (rule does_trans)

lemma runs_ignore:
  assumes "stmt_sound ev" "plain node" "ok s D R"
  shows "runs (ignore_result (ev node)) s (\<lambda>_. does D R s)"
proof -
  have "runs (ev node) s (\<lambda>_. does D R s)"
    by (rule runs_mono [OF stmt_soundD [OF assms]]) (erule leaves_does, rule ok_within [OF assms(3)])
  then show ?thesis by (simp add: ignore_result_def)
qed

lemma runs_null_result:
  assumes "runs m s (\<lambda>_. does D R s)"
  shows "runs (null_result m) s (leaves D R s)"
  using assms by (simp add: null_result_def leaves_def)

lemma runs_sequence:
  assumes "stmt_sound ev"
  shows "list_all plain ns \<Longrightarrow> leaves D R s0 x s \<Longrightarrow> (\<forall>d \<in> D. d \<in># R) \<Longrightarrow> runs (sequence_from ev x ns) s (leaves D R s0)"
proof (induction ns arbitrary: s x)
  case Nil
  then show ?case unfolding sequence_from.simps runs_ret by simp
next
  case (Cons n ns)
  let ?k = "bnd (ev n) (\<lambda>r. bnd exception_occurred (\<lambda>e. if e then ret NULL_REF else sequence_from ev r ns))"
  have k: "runs ?k t (leaves D R s0)" if t: "does D R s0 t" for t
  proof -
    have n: "plain n" using Cons.prems(1) by simp
    have "runs (ev n) t (\<lambda>r u. runs (bnd exception_occurred (\<lambda>e. if e then ret NULL_REF else sequence_from ev r ns)) u (leaves D R s0))"
    proof (rule runs_mono [OF stmt_soundD [OF assms n does_ok [OF t]]])
      fix r u assume "leaves D R t r u"
      then have l: "leaves D R s0 r u" by (rule leaves_after [OF t])
      then have "leaves D R s0 NULL_REF u" using leaves_does [OF l Cons.prems(3)] by (simp add: leaves_def)
      then show "runs (bnd exception_occurred (\<lambda>e. if e then ret NULL_REF else sequence_from ev r ns)) u (leaves D R s0)"
        using Cons.IH [OF _ l Cons.prems(3)] Cons.prems(1) by simp
    qed
    then show ?thesis by simp
  qed
  show ?case
  proof (cases "x = NULL_REF")
    case True
    then show ?thesis using k Cons.prems(2) unfolding sequence_from.simps runs_seq runs_whenP by (simp add: leaves_def)
  next
    case False
    then have d: "does D (add_mset x R) s0 s" using Cons.prems(2) by (simp add: leaves_def)
    have "runs (decref x) s (\<lambda>_ t. runs ?k t (leaves D R s0))"
      by (rule runs_decref [OF does_ok [OF d] Cons.prems(3)]) (rule k, rule does_trans [OF d])
    then show ?thesis using False unfolding sequence_from.simps runs_seq runs_whenP by simp
  qed
qed

text \<open>A condition: it is evaluated, turned into a truth value, and dropped.\<close>

lemma runs_condition:
  assumes "sound ev" "plain c" "ok s D R" "\<And>b t. does D R s t \<Longrightarrow> runs (k b) t (\<lambda>_. does D R s)"
  shows "runs (bnd (ev c) (\<lambda>c. bnd exception_occurred (\<lambda>e. if e then ret () else bnd (ref_bool c) (\<lambda>b. seq (decref c) (k b))))) s (\<lambda>_. does D R s)"
  unfolding runs_bnd
proof (rule runs_sub [OF assms(1-3)])
  fix r s'
  assume d: "does D (add_mset r R) s s'" "exc_type s' = EXC_NONE" "val s' D r"
  obtain b where b: "gives s' (ref_bool r) b" by (rule ref_bool_gives [OF does_ok [OF d(1)] d(3)]) (rule that)
  have "runs (decref r) s' (\<lambda>_ t. runs (k b) t (\<lambda>_. does D R s))"
    by (rule runs_decref [OF does_ok [OF d(1)] ok_within [OF assms(3)]]) (rule assms(4), rule does_trans [OF d(1)])
  then show "runs exception_occurred s' (\<lambda>e t. runs (if e then ret () else bnd (ref_bool r) (\<lambda>b. seq (decref r) (k b))) t (\<lambda>_. does D R s))"
    using d(2) by (simp add: runs_gives [OF b])
qed simp

lemma runs_if:
  assumes "sound ev" "stmt_sound sv" "plain c" "plain l" "opt_all plain r" "ok s D R"
  shows "runs (eval_stmt_if ev sv c l r) s (\<lambda>_. does D R s)"
  unfolding eval_stmt_if_def
proof (rule runs_condition [OF assms(1,3,6)])
  fix b t
  assume t: "does D R s t"
  show "runs (if b then ignore_result (sv l) else case r of None \<Rightarrow> ret () | Some r \<Rightarrow> ignore_result (sv r)) t (\<lambda>_. does D R s)"
    using runs_does_after [OF t runs_ignore [OF assms(2) _ does_ok [OF t]]] assms(4,5) t by (auto split: option.splits)
qed

lemma runs_while:
  assumes "sound ev" "stmt_sound sv" "plain c" "plain body"
  shows "ok s D R \<Longrightarrow> runs (eval_stmt_while m ev sv c body) s (\<lambda>_. does D R s)"
proof (induction m arbitrary: s)
  case 0
  then show ?case unfolding eval_stmt_while.simps runs_halt by simp
next
  case (Suc m)
  show ?case
    unfolding eval_stmt_while.simps
  proof (rule runs_condition [OF assms(1,3) Suc.prems])
    fix b t
    assume t: "does D R s t"
    have "runs (ignore_result (sv body)) t (\<lambda>_ u. runs (eval_stmt_while m ev sv c body) u (\<lambda>_. does D R s))"
    proof (rule runs_mono [OF runs_does_after [OF t runs_ignore [OF assms(2,4) does_ok [OF t]]]])
      fix x u assume u: "does D R s u"
      show "runs (eval_stmt_while m ev sv c body) u (\<lambda>_. does D R s)" by (rule runs_does_after [OF u Suc.IH [OF does_ok [OF u]]])
    qed
    then show "runs (if \<not> b then ret () else seq (ignore_result (sv body)) (eval_stmt_while m ev sv c body)) t (\<lambda>_. does D R s)"
      using t by simp
  qed
qed

text \<open>A value that is evaluated, used and dropped again.\<close>

lemma runs_hold:
  assumes "sound ev" "plain n" "ok s D R"
    and k: "\<And>r t. does D (add_mset r R) s t \<Longrightarrow> val t D r \<Longrightarrow> runs (k r) t (\<lambda>_. does D (add_mset r R) t)"
  shows "runs (bnd (ev n) (\<lambda>r. bnd exception_occurred (\<lambda>e. whenP (\<not> e) (seq (k r) (decref r))))) s (\<lambda>_. does D R s)"
  unfolding runs_bnd
proof (rule runs_sub [OF assms(1-3)])
  fix r s'
  assume d: "does D (add_mset r R) s s'" "exc_type s' = EXC_NONE" "val s' D r"
  have "runs (k r) s' (\<lambda>_ t. runs (decref r) t (\<lambda>_. does D R s))"
  proof (rule runs_mono [OF k [OF d(1,3)]])
    fix x t assume t: "does D (add_mset r R) s' t"
    have "does D (add_mset r R) s t" by (rule does_trans [OF d(1) t])
    then show "runs (decref r) t (\<lambda>_. does D R s)"
      by (intro runs_decref [OF does_ok [OF t] ok_within [OF assms(3)]]) (rule does_trans)
  qed
  then show "runs exception_occurred s' (\<lambda>e t. runs (whenP (\<not> e) (seq (k r) (decref r))) t (\<lambda>_. does D R s))"
    using d(2) by simp
qed simp

lemma runs_raise_syntax: "ok s D R \<Longrightarrow> t \<noteq> EXC_NONE \<Longrightarrow> runs (exception_set t m) s (\<lambda>_. does D R s) \<and> runs (exception_set_format t m) s (\<lambda>_. does D R s)"
  using does_raised by simp

lemma runs_assign_subscript:
  assumes "sound ev" "plain n" "plain ix" "plain r" "ok s D R"
  shows "runs (eval_stmt_assign ev (ExprSubscript n ix) r) s (\<lambda>_. does D R s)"
proof -
  have "runs (bnd (ev r) (\<lambda>r. bnd exception_occurred (\<lambda>e. whenP (\<not> e) (seq
      (bnd (ev n) (\<lambda>target. bnd exception_occurred (\<lambda>e'. whenP (\<not> e') (seq
        (bnd (ev ix) (\<lambda>ix. bnd exception_occurred (\<lambda>e''. whenP (\<not> e'') (seq (ref_subscr_set target ix r) (decref ix)))))
        (decref target))))) (decref r))))) s (\<lambda>_. does D R s)"
  proof (rule runs_hold [OF assms(1,4,5)])
    fix x t assume x: "does D (add_mset x R) s t" "val t D x"
    show "runs (bnd (ev n) (\<lambda>target. bnd exception_occurred (\<lambda>e'. whenP (\<not> e') (seq
        (bnd (ev ix) (\<lambda>ix. bnd exception_occurred (\<lambda>e''. whenP (\<not> e'') (seq (ref_subscr_set target ix x) (decref ix)))))
        (decref target))))) t (\<lambda>_. does D (add_mset x R) t)"
    proof (rule runs_hold [OF assms(1,2) does_ok [OF x(1)]])
      fix y u assume y: "does D (add_mset y (add_mset x R)) t u" "val u D y"
      show "runs (bnd (ev ix) (\<lambda>ix. bnd exception_occurred (\<lambda>e''. whenP (\<not> e'') (seq (ref_subscr_set y ix x) (decref ix))))) u
          (\<lambda>_. does D (add_mset y (add_mset x R)) u)"
      proof (rule runs_hold [OF assms(1,3) does_ok [OF y(1)]])
        fix z w assume z: "does D (add_mset z (add_mset y (add_mset x R))) u w" "val w D z"
        have "x \<notin> D" "y \<notin> D" using x(2) y(2) by (simp_all add: val_def)
        then have "val w D y" "val w D x" using ok_held [OF does_ok [OF z(1)]] by simp_all
        then show "runs (ref_subscr_set y z x) w (\<lambda>_. does D (add_mset z (add_mset y (add_mset x R))) w)"
          using z(2) by (intro runs_subscr_set does_ok [OF z(1)]) simp_all
      qed
    qed
  qed
  then show ?thesis by (simp add: eval_stmt_assign_def del: runs_bnd)
qed

lemma runs_assign_variable:
  assumes "sound ev" "\<not> reserved name" "plain r" "ok s D R"
  shows "runs (eval_stmt_assign ev (ExprIdentifier name) r) s (\<lambda>_. does D R s)"
proof -
  have "runs (bnd (ev r) (\<lambda>r. bnd exception_occurred (\<lambda>e. whenP (\<not> e) (seq (globals_set name r) (decref r))))) s (\<lambda>_. does D R s)"
  proof (rule runs_hold [OF assms(1,3,4)])
    fix x t assume x: "does D (add_mset x R) s t" "val t D x"
    show "runs (globals_set name x) t (\<lambda>_. does D (add_mset x R) t)"
      using x(2) assms(2) by (intro runs_globals_set does_ok [OF x(1)]) simp_all
  qed
  then show ?thesis by (simp add: eval_stmt_assign_def del: runs_bnd)
qed

lemma runs_assign:
  assumes "sound ev" "plain_target l" "plain l" "plain r" "ok s D R"
  shows "runs (eval_stmt_assign ev l r) s (\<lambda>_. does D R s)"
proof -
  note err = runs_raise_syntax [OF assms(5), of EXC_SYNTAX_ERROR] runs_raise_syntax [OF assms(5), of EXC_INTERNAL]
  show ?thesis
  proof (cases l)
    case (ExprIdentifier name)
    then show ?thesis using runs_assign_variable [OF assms(1) _ assms(4,5)] assms(2) by (simp add: plain_target_def)
  next
    case (ExprSubscript n ix)
    then show ?thesis using runs_assign_subscript [OF assms(1) _ _ assms(4,5)] assms(3) by simp
  qed (use err in \<open>simp_all add: eval_stmt_assign_def\<close>)
qed

lemma runs_del:
  assumes "sound ev" "plain_target arg" "plain arg" "ok s D R"
  shows "runs (eval_stmt_del ev arg) s (\<lambda>_. does D R s)"
proof -
  note err = runs_raise_syntax [OF assms(4), of EXC_SYNTAX_ERROR] runs_raise_syntax [OF assms(4), of EXC_INTERNAL]
  show ?thesis
  proof (cases arg)
    case (ExprIdentifier name)
    then show ?thesis using runs_globals_delete [OF assms(4)] assms(2) by (simp add: eval_stmt_del_def plain_target_def)
  next
    case (ExprSubscript n ix)
    then have p: "plain n" "plain ix" using assms(3) by simp_all
    have "runs (bnd (ev n) (\<lambda>target. bnd exception_occurred (\<lambda>e. whenP (\<not> e) (seq
      (bnd (ev ix) (\<lambda>ix. bnd exception_occurred (\<lambda>e'. whenP (\<not> e') (seq (ref_subscr_del target ix) (decref ix)))))
      (decref target))))) s (\<lambda>_. does D R s)"
    proof (rule runs_hold [OF assms(1) p(1) assms(4)])
      fix y u assume y: "does D (add_mset y R) s u" "val u D y"
      show "runs (bnd (ev ix) (\<lambda>ix. bnd exception_occurred (\<lambda>e'. whenP (\<not> e') (seq (ref_subscr_del y ix) (decref ix))))) u
          (\<lambda>_. does D (add_mset y R) u)"
      proof (rule runs_hold [OF assms(1) p(2) does_ok [OF y(1)]])
        fix z w assume z: "does D (add_mset z (add_mset y R)) u w" "val w D z"
        have "y \<notin> D" using y(2) by (simp add: val_def)
        then have "val w D y" using ok_held [OF does_ok [OF z(1)]] by simp
        then show "runs (ref_subscr_del y z) w (\<lambda>_. does D (add_mset z (add_mset y R)) w)"
          using z(2) by (intro runs_subscr_del does_ok [OF z(1)]) simp_all
      qed
    qed
    then show ?thesis using ExprSubscript by (simp add: eval_stmt_del_def del: runs_bnd)
  qed (use err in \<open>simp_all add: eval_stmt_del_def\<close>)
qed

lemma yields_leaves: "yields D R s r s' \<Longrightarrow> leaves D R s r s'"
  by (simp add: yields_def leaves_def)

lemma runs_eval_stmt:
  assumes "stmt_sound (eval_stmt n)" "plain node" "ok s D R"
  shows "runs (eval_stmt (Suc n) node) s (leaves D R s)"
proof -
  have expr: "runs (eval_expr n node) s (leaves D R s)"
    by (rule runs_mono [OF soundD [OF sound_eval_expr assms(2,3)]]) (rule yields_leaves)
  have start: "leaves D R s NULL_REF s" using assms(3) by (simp add: leaves_def does_refl)
  note nul = runs_null_result [where D = D and R = R and s = s]
  show ?thesis
  proof (cases node)
    case (StmtSequence ns)
    then show ?thesis
      using runs_sequence [OF assms(1) _ start ok_within [OF assms(3)]] assms(2) by (simp add: eval_stmt_sequence_def)
  next
    case (StmtAssign l r)
    then show ?thesis using nul [OF runs_assign [OF sound_eval_expr _ _ _ assms(3)]] assms(2) by simp
  next
    case (StmtDel a)
    then show ?thesis using nul [OF runs_del [OF sound_eval_expr _ _ assms(3)]] assms(2) by simp
  next
    case (StmtIf c l r)
    then show ?thesis using nul [OF runs_if [OF sound_eval_expr assms(1) _ _ _ assms(3)]] assms(2) by simp
  next
    case (StmtWhile c b)
    then show ?thesis using nul [OF runs_while [OF sound_eval_expr assms(1) _ _ assms(3)]] assms(2) by simp
  qed (use expr in simp_all)
qed

lemma stmt_sound_eval: "stmt_sound (eval_stmt n)"
proof (induction n)
  case 0
  then show ?case unfolding stmt_sound_def eval_stmt.simps runs_halt by simp
next
  case (Suc n)
  then show ?case unfolding stmt_sound_def [of "eval_stmt (Suc n)"] using runs_eval_stmt by blast
qed

end
