(* ===== verification/Py_Main.thy ===== *)
theory Py_Main
  imports Py_Safe
begin

text \<open>
  Whole sessions of Subpython (\<open>eval_init\<close> of \<open>eval.c\<close> and the driver \<open>repl.c\<close>): the start gives a heap in which
  every count is right, every tree the parser hands over keeps it so, and the session ends in order.
\<close>

section \<open>The start\<close>

lemma initial_pool:
  assumes "24 \<le> msize div 8 * 8" "0 < mpool" "msize < 2 ^ 63"
  obtains s where "init_refs msize mpool (initial_state tty) = (Inr (), s)" "table_inv s" "objs s = Map.empty" "exc_type s = EXC_NONE" "global_vars s = []"
proof -
  let ?s = "snd (init_refs msize mpool (initial_state tty))"
  have run: "init_refs msize mpool (initial_state tty) = (Inr (), ?s)" and f: "ref_table ?s = []" "exc_type ?s = EXC_NONE" "global_vars ?s = []"
    and m: "memory_pool ?s = mpool" "memory_size ?s = msize div 8 * 8" "free_list ?s = mpool" "store ?s = [mpool \<mapsto> free_block 0 (msize div 8 * 8)]"
    by (simp_all add: init_refs_def mm_init_pool_def initial_state_def seq_def bnd_def modify_def gets_def store_value_def ALIGNMENT_py_def)
  have "msize div 8 * 8 < 2 ^ 63" using assms(3) by (simp add: div_times_less_eq_dividend le_less_trans)
  then have "pool_ok ?s [mpool] [mpool]"
    using assms(1,2) by (simp add: pool_ok_def m free_at_def free_block_def)
  then have "pool_inv ?s {}" unfolding pool_inv_def by (intro exI conjI) (assumption, simp add: m free_at_def free_block_def)
  then have "table_inv ?s" by (simp add: table_inv_def f address_def objs_def)
  moreover have "objs ?s = Map.empty" by (rule ext) (simp add: objs_def address_def f)
  ultimately show thesis using that run f by blast
qed

text \<open>The heap before the three constants are bound, unless memory has run out.\<close>

definition boot :: "reference_t multiset \<Rightarrow> py_state \<Rightarrow> bool" where
  "boot M s \<longleftrightarrow> table_inv s \<and> (exc_type s = EXC_NONE \<longrightarrow> hinv (objs s) {} M \<and> (\<forall>r \<in># M. user (objs s) r))"

lemma boot_cong: "same_heap s t \<or> (store t = store s \<and> free_list t = free_list s \<and> memory_pool t = memory_pool s \<and>
    memory_size t = memory_size s \<and> ref_table t = ref_table s) \<Longrightarrow> exc_type t = exc_type s \<Longrightarrow> boot M t = boot M s"
  using table_inv_cong [of t s] objs_cong [of t s] by (auto simp: boot_def same_heap_def)

lemma boot_singles [simp]:
  "boot M (s\<lparr>none_ref := r\<rparr>) = boot M s" "boot M (s\<lparr>true_ref := r\<rparr>) = boot M s" "boot M (s\<lparr>false_ref := r\<rparr>) = boot M s"
  "boot M (s\<lparr>global_vars := g\<rparr>) = boot M s" "boot M (s\<lparr>max_vars := m\<rparr>) = boot M s"
  by (rule boot_cong; simp)+

lemma boot_make:
  assumes "boot M s" "t \<in> {VAL_NONE, VAL_BOOL}"
  obtains r s' where "make_ref t sizeof_value_t s = (Inr r, s')" "boot (add_mset r M) s'" "ctx s' = ctx s"
proof -
  have "table_inv s" "size_fine sizeof_value_t" "t \<noteq> VAL_FREE" using assms by (auto simp: boot_def sizeof_value_t_def size_fine_def)
  then show thesis
  proof (cases rule: make_ref_cases)
    case (full m)
    then show thesis using that assms(1) table_inv_cong [of "raised EXC_MEMORY_ERROR m s" s] by (simp add: boot_def ctx_def)
  next
    case (fits r s' v)
    have v: "held v = []" "wf_value (objs s') v" "vtype v \<in> user_types" using fits(5) assms(2) by (auto simp: held_def wf_value_def user_types_def)
    have "hinv (objs s') {} (add_mset r M) \<and> (\<forall>q \<in># add_mset r M. user (objs s') q)" if "exc_type s' = EXC_NONE"
    proof -
      have h: "hinv (objs s) {} M" "\<forall>q \<in># M. user (objs s) q" using assms(1) that fits(8) by (simp_all add: boot_def)
      have "hinv (objs s') {r} (add_mset r M)" using hinv_new [OF h(1) fits(3,6)] fits(4) by simp
      then have "hinv (objs s') {} (add_mset r M)" using v fits(4) by (intro hinv_close [of "objs s'" r "{}" _ v]) simp_all
      then show ?thesis using h(2) v(3) unfolding fits(4) user_def by auto
    qed
    then have "boot (add_mset r M) s'" using fits(2) by (simp add: boot_def)
    then show thesis using that fits(1,7) by blast
  qed
qed

lemma boot_none:
  assumes "boot M s"
  obtains r s' where "make_reference_none s = (Inr r, s')" "boot (add_mset r M) s'" "ctx s' = ctx s"
  unfolding make_reference_none_def using boot_make [OF assms, of VAL_NONE] by blast

lemma boot_bool:
  assumes "boot M s"
  obtains r s' where "make_reference_bool s = (Inr r, s')" "boot (add_mset r M) s'" "ctx s' = ctx s"
  unfolding make_reference_bool_def using boot_make [OF assms, of VAL_BOOL] by blast

text \<open>Binding a new name and dropping the temporary reference: the variable takes over.\<close>

lemma boot_bind:
  assumes "boot (add_mset r M) s" "exc_type s = EXC_NONE" "name \<notin> fst ` set (global_vars s)"
  obtains s' where "seq (globals_set name r) (decref r) s = (Inr (), s')" "boot (add_mset r M) s'" "exc_type s' = EXC_NONE"
    "global_vars s' = global_vars s @ [(name, r)]" "none_ref s' = none_ref s" "true_ref s' = true_ref s" "false_ref s' = false_ref s"
proof -
  have h: "hinv (objs s) {} (add_mset r M)" "\<forall>q \<in># add_mset r M. user (objs s) q" and tab: "table_inv s" using assms(1,2) by (simp_all add: boot_def)
  define s1 where "s1 = s\<lparr>max_vars := (if length (global_vars s) = max_vars s then if max_vars s = 0 then INITIAL_SIZE else max_vars s * 2 else max_vars s)\<rparr>"
  have o: "objs s1 = objs s" by (rule objs_cong) (simp_all add: s1_def)
  have tab': "table_inv s1" and c: "ctx s1 = ctx s" "exc_type s1 = exc_type s" "global_vars s1 = global_vars s"
    using tab by (simp_all add: s1_def ctx_def)
  obtain v where v: "objs s1 r = Some v" "vtype v \<in> user_types" using h(2) by (auto simp: user_def o)
  let ?v = "v\<lparr>ref_count := ref_count v + 1\<rparr>"
  let ?t = "with_value r ?v s1"
  let ?u = "?t\<lparr>global_vars := global_vars s @ [(name, r)]\<rparr>"
  have set: "globals_set name r s = (Inr (), ?u)"
    using assms(3) find_global_None [of name "global_vars s"] incref_run [OF tab' v(1)]
    by (simp add: globals_set_def bnd_def seq_def gets_def modify_def c s1_def [symmetric])
  have "vtype ?v \<noteq> VAL_FREE" using v(2) by (auto simp: user_types_def)
  then have w: "table_inv ?t" "objs ?t = (objs s)(r \<mapsto> ?v)" using with_value_ok [OF tab' v(1), of ?v] o by simp_all
  have ou: "objs ?u = (objs s)(r \<mapsto> ?v)" using w(2) objs_cong [of ?u ?t] by (simp add: with_value_def)
  have "hinv (objs ?u) {} (add_mset r (add_mset r M))" using hinv_incref [OF h(1), of r v] v h(2) unfolding ou o by simp
  moreover have tu: "table_inv ?u" using w(1) by simp
  ultimately obtain s' where s': "decref r ?u = (Inr (), s')" "released {} (add_mset r M) ?u s'"
    using decref_run [of ?u "{}" r "add_mset r M"] by (auto simp: pinned_def)
  then have d: "table_inv s'" "hinv (objs s') {} (add_mset r M)" "shrunk ?u s'" by (simp_all add: released_def)
  have "user (objs s') q" if q: "q \<in># add_mset r M" for q
  proof -
    obtain x where x: "objs s' q = Some x" using hinv_root [OF d(2) q] by blast
    obtain y where y: "objs ?u q = Some y" "vtype x = vtype y" using shrunk_objs [OF d(3) x] by metis
    have "user (objs s) q" using h(2) q by blast
    then have "vtype y \<in> user_types" using y(1) v(2) unfolding ou user_def by (auto split: if_splits)
    then show ?thesis using x y(2) by (simp add: user_def)
  qed
  then have "boot (add_mset r M) s'" using d(1,2) by (simp add: boot_def)
  moreover have "ctx s' = ctx ?u" "exc_type s' = exc_type ?u" using d(3) by (simp_all add: shrunk_def)
  ultimately show thesis using that [of s'] set s'(1) assms(2) c by (simp add: seq_Inr ctx_def with_value_def)
qed


lemma seq_assoc: "seq (seq a b) c = seq a (seq b c)"
  by (rule ext) (simp add: seq_def bnd_def split: prod.splits sum.splits)

text \<open>The evaluator starts with the three constants bound, or the pool is too small and the process is aborted.\<close>

lemma eval_init_run:
  assumes "boot {#} s" "exc_type s = EXC_NONE" "global_vars s = []"
  obtains (aborted) s' where "eval_init s = (Inl Aborted, s')"
  | (started) s' where "eval_init s = (Inr (), s')" "ok s' {} {#}" "exc_type s' = EXC_NONE"
proof -
  obtain n s1 where n: "make_reference_none s = (Inr n, s1)" "boot {#n#} s1" "ctx s1 = ctx s" using boot_none [OF assms(1)] by metis
  let ?s1 = "s1\<lparr>none_ref := n\<rparr>"
  have "boot {#n#} ?s1" using n(2) by simp
  then obtain t s2 where t: "make_reference_bool ?s1 = (Inr t, s2)" "boot {#t, n#} s2" "ctx s2 = ctx ?s1" using boot_bool by metis
  let ?s2 = "s2\<lparr>true_ref := t\<rparr>"
  have "boot {#t, n#} ?s2" using t(2) by simp
  then obtain f s3 where f: "make_reference_bool ?s2 = (Inr f, s3)" "boot {#f, t, n#} s3" "ctx s3 = ctx ?s2" using boot_bool by metis
  let ?s3 = "s3\<lparr>false_ref := f\<rparr>"
  let ?bind = "\<lambda>name r. seq (globals_set name r) (decref r)"
  have b3: "boot {#f, t, n#} ?s3" using f(2) by simp
  have c3: "global_vars ?s3 = []" "none_ref ?s3 = n" "true_ref ?s3 = t" "false_ref ?s3 = f" using n(3) t(3) f(3) assms(3) by (simp_all add: ctx_def)
  have start: "eval_init s = (if exc_type ?s3 \<noteq> EXC_NONE then seq (print_err (''Failed to initialize evaluator'' @ [CHR 0x0A])) (halt Aborted) ?s3
     else seq (?bind ''None'' n) (seq (?bind ''True'' t) (?bind ''False'' f)) ?s3)"
    using n(1) t(1) f(1) by (simp add: eval_init_def bnd_Inr seq_Inr seq_assoc exception_occurred_def)
  show thesis
  proof (cases "exc_type ?s3 = EXC_NONE")
    case False
    then show thesis using start by (intro aborted) (simp add: seq_def bnd_def print_err_def modify_def halt_def)
  next
    case True
    have b4: "boot (add_mset n {#f, t#}) ?s3" using b3 by (simp add: add_mset_commute)
    obtain s4 where s4: "?bind ''None'' n ?s3 = (Inr (), s4)" "boot (add_mset n {#f, t#}) s4" "exc_type s4 = EXC_NONE"
      "global_vars s4 = global_vars ?s3 @ [(''None'', n)]" "none_ref s4 = none_ref ?s3" "true_ref s4 = true_ref ?s3" "false_ref s4 = false_ref ?s3"
      by (rule boot_bind [OF b4, of "''None''"]) (use True c3 in simp, use True c3 in simp, rule that)
    have b5: "boot (add_mset t {#f, n#}) s4" using s4(2) by (simp add: add_mset_commute)
    obtain s5 where s5: "?bind ''True'' t s4 = (Inr (), s5)" "boot (add_mset t {#f, n#}) s5" "exc_type s5 = EXC_NONE"
      "global_vars s5 = global_vars s4 @ [(''True'', t)]" "none_ref s5 = none_ref s4" "true_ref s5 = true_ref s4" "false_ref s5 = false_ref s4"
      by (rule boot_bind [OF b5, of "''True''"]) (use s4(3,4) c3 in simp, use s4(3,4) c3 in simp, rule that)
    have b6: "boot (add_mset f {#t, n#}) s5" using s5(2) by (simp add: add_mset_commute)
    obtain s6 where s6: "?bind ''False'' f s5 = (Inr (), s6)" "boot (add_mset f {#t, n#}) s6" "exc_type s6 = EXC_NONE"
      "global_vars s6 = global_vars s5 @ [(''False'', f)]" "none_ref s6 = none_ref s5" "true_ref s6 = true_ref s5" "false_ref s6 = false_ref s5"
      by (rule boot_bind [OF b6, of "''False''"]) (use s5(3,4) s4(4) c3 in simp, use s5(3,4) s4(4) c3 in simp, rule that)
    have g: "global_vars s6 = [(''None'', n), (''True'', t), (''False'', f)]" "none_ref s6 = n" "true_ref s6 = t" "false_ref s6 = f"
      using s4(4-7) s5(4-7) s6(4-7) c3 by simp_all
    have "roots s6 = {#f, t, n#}" by (simp add: roots_def g(1) add_mset_commute)
    then have "ok s6 {} {#}" using s6(2,3) g by (simp add: ok_def boot_def singles_def)
    moreover have "eval_init s = (Inr (), s6)" using start True s4(1) s5(1) s6(1) by (simp add: seq_Inr)
    ultimately show thesis using s6(3) by (intro started)
  qed
qed


section \<open>The memory dump of the debugging mode\<close>

lemma find_ref_Some: "find_ref a xs = Some i \<Longrightarrow> i < length xs \<and> xs ! i = a"
  by (induction a xs arbitrary: i rule: find_ref.induct) (auto split: if_splits)

lemma find_ref_None: "find_ref a xs = None \<longleftrightarrow> a \<notin> set xs"
  by (induction a xs rule: find_ref.induct) (auto split: if_splits)

lemma gives_get_ref:
  assumes "a \<in> set (ref_table s)" "a \<noteq> 0"
  obtains r where "gives s (get_ref a) r" "address s r = a"
proof -
  obtain i where i: "find_ref a (ref_table s) = Some i" using assms(1) find_ref_None by (metis not_None_eq)
  then have "gives s (get_ref a) (int i)" by (simp add: gives_def get_ref_def same_heap_def)
  moreover have "address s (int i) = a" using find_ref_Some [OF i] by (simp add: address_def)
  ultimately show thesis by (rule that)
qed

lemma reads_dump_value:
  assumes "ok s {} R" "store s a = Some v" "address s r = a" "a \<noteq> 0"
  shows "reads s (dump_value a r)"
proof -
  have "objs s r = Some v" using assms by (simp add: objs_def)
  then have "wf_value (objs s) v" using hinv_wf [OF ok_hinv [OF assms(1)]] by simp
  then have wf: "wf_payload (objs s) (vtype v) (data v)" by (simp add: wf_value_def)
  have bool: "reads s (ref_is_true r)" by (simp add: ref_is_true_def reads_def)
  note bind = reads_bnd_gives [OF gives_load [OF assms(2)]] reads_bnd_gives [OF gives_integer_value [OF assms(2)]]
    reads_bnd_gives [OF gives_string_value [OF assms(2)]] reads_bnd_gives [OF gives_list_fields [OF assms(2)]]
    reads_bnd_gives [OF gives_array_values [OF assms(2)]] reads_bnd [OF bool] reads_print
  show ?thesis
    unfolding dump_value_def
    by (rule bind(1), use wf in \<open>cases "vtype v"; cases "data v"; simp\<close>) (auto intro!: bind)
qed

lemma reads_mem_dump_from:
  assumes "ok s {} R"
  shows "tiled (store s) (memory_pool s + offset) as (memory_pool s + memory_size s) \<Longrightarrow> length as < n \<Longrightarrow> 0 < memory_pool s \<Longrightarrow>
    (\<forall>a \<in> set as. free_at (store s) a \<or> a \<in> set (ref_table s)) \<Longrightarrow> reads s (mem_dump_from n offset)"
proof (induction as arbitrary: n offset)
  case Nil
  then obtain m where "n = Suc m" by (cases n) auto
  then show ?case using Nil
    by (auto intro!: reads_bnd_gives [OF gives_gets] reads_ret simp: same_heap_def)
next
  case (Cons a as)
  obtain m where m: "n = Suc m" using Cons.prems(2) by (cases n) auto
  have a: "a = memory_pool s + offset" using Cons.prems(1) by simp
  obtain v where "store s a = Some v" using tiled_block [OF Cons.prems(1), of a] by auto
  with a Cons.prems(1) have v: "store s a = Some v" "24 \<le> value_size v" "a = memory_pool s + offset"
    "tiled (store s) (memory_pool s + (offset + value_size v)) as (memory_pool s + memory_size s)"
    unfolding tiled.simps by (auto simp only: option.case add.assoc)
  have lt: "offset < memory_size s" using tiled_le [OF v(4)] v(2) by simp
  have rest: "reads s (mem_dump_from m (offset + value_size v))" using Cons.prems m by (intro Cons.IH [OF v(4)]) auto
  have one: "reads s (if vtype v = VAL_FREE
            then print_out (''Free  0x'' @ pad8 (show_hex offset) @ ''; size '' @ show_nat (value_size v) @ [CHR 0x0A])
            else bnd (get_ref a) (\<lambda>r.
              seq (print_out (''Value 0x'' @ pad8 (show_hex offset) @ ''; size '' @ show_nat (value_size v) @ ''; ref '' @ show_int r @
                    ''; refcnt: '' @ show_nat (ref_count v) @ ''; ''))
                  (dump_value a r)))"
  proof (cases "vtype v = VAL_FREE")
    case True
    then show ?thesis by (simp add: reads_print)
  next
    case False
    then have "a \<in> set (ref_table s)" "a \<noteq> 0" using Cons.prems(3,4) v by auto
    then obtain r where "gives s (get_ref a) r" "address s r = a" by (rule gives_get_ref)
    then show ?thesis using False reads_dump_value [OF assms v(1)] \<open>a \<noteq> 0\<close>
      by (simp, intro reads_bnd_gives reads_seq reads_print)
  qed
  have "gives s (gets memory_size) (memory_size s)" "gives s (gets memory_pool) (memory_pool s)"
    by (rule gives_gets, simp add: same_heap_def)+
  moreover have "reads s (bnd (load_value a) (\<lambda>v. seq (if vtype v = VAL_FREE
            then print_out (''Free  0x'' @ pad8 (show_hex offset) @ ''; size '' @ show_nat (value_size v) @ [CHR 0x0A])
            else bnd (get_ref a) (\<lambda>r.
              seq (print_out (''Value 0x'' @ pad8 (show_hex offset) @ ''; size '' @ show_nat (value_size v) @ ''; ref '' @ show_int r @
                    ''; refcnt: '' @ show_nat (ref_count v) @ ''; ''))
                  (dump_value a r)))
           (mem_dump_from m (offset + value_size v))))"
    by (rule reads_bnd_gives [OF gives_load [OF v(1)]]) (rule reads_seq [OF one rest])
  ultimately show ?case
    unfolding m mem_dump_from.simps a [symmetric] using lt by (elim reads_bnd_gives) (simp add: a cong: if_cong)
qed

lemma reads_mem_dump:
  assumes "ok s {} R"
  shows "reads s mem_dump"
proof -
  obtain as fs where p: "pool_ok s as fs" and L: "set (ref_table s) - {0} = {a \<in> set as. \<not> free_at (store s) a}"
    using ok_table [OF assms] by (auto simp: table_inv_def pool_inv_def)
  then have as: "tiled (store s) (memory_pool s + 0) as (memory_pool s + memory_size s)" "0 < memory_pool s" by (simp_all add: pool_ok_def)
  have "length as < memory_size s + 1" using length_tiles [OF as(1)] by simp
  then have "reads s (mem_dump_from (memory_size s + 1) 0)" using L as(2) by (intro reads_mem_dump_from [OF assms as(1)]) auto
  then show ?thesis unfolding mem_dump_def by (intro reads_bnd_gives [OF gives_gets]) (simp_all add: same_heap_def)
qed

lemma reads_print_globals:
  assumes "ok s {} R"
  shows "reads s print_globals"
proof -
  have g: "gives s (gets global_vars) (global_vars s)" "gives s (gets (\<lambda>s. length (global_vars s))) (length (global_vars s))"
    by (rule gives_gets; simp add: same_heap_def ctx_def)+
  have "reads s (print_global_helper n r)" if "(n, r) \<in> set (global_vars s)" for n r
  proof -
    have "r \<in># roots s" using that by (force simp: roots_def)
    then show ?thesis unfolding print_global_helper_def
      by (intro reads_seq reads_print reads_println(1) [OF assms] ok_global [OF assms])
  qed
  then have "reads s (foreach_global print_global_helper)"
    unfolding foreach_global_def by (intro reads_bnd_gives [OF g(1)] reads_seq reads_each reads_ret) auto
  then show ?thesis unfolding print_globals_def by (intro reads_bnd_gives [OF g(2)] reads_seq reads_print reads_bnd reads_ret)
qed


section \<open>One tree\<close>

abbreviation idle :: "py_state \<Rightarrow> bool" where
  "idle s \<equiv> ok s {} {#}"

lemma runs_eval_root:
  assumes "plain node" "idle s"
  shows "runs (eval_root n node) s (\<lambda>r s'. ok s' {} {#r#})"
  unfolding eval_root_def runs_bnd
proof (rule runs_mono [OF stmt_soundD [OF stmt_sound_eval assms]])
  fix r s'
  assume h: "leaves {} {#} s r s'"
  show "runs (if r = NULL_REF then none_result else ret r) s' (\<lambda>r s'. ok s' {} {#r#})"
  proof (cases "r = NULL_REF")
    case True
    then have "ok s' {} {#}" using h does_ok by (auto simp: leaves_def)
    then have "runs none_result s' (\<lambda>r s'. ok s' {} {#r#})"
      unfolding none_result_def runs_bnd runs_seq runs_gets runs_ret
      using ok_single by (intro runs_incref) (auto dest: does_ok)
    then show ?thesis using True by simp
  next
    case False
    then have "ok s' {} {#r#}" using h does_ok by (auto simp: leaves_def)
    then show ?thesis using False by simp
  qed
qed

lemma runs_same: "runs m s (\<lambda>_ s'. same_heap s s') \<Longrightarrow> ok s D R \<Longrightarrow> runs m s (\<lambda>_ s'. ok s' D R)"
  by (erule runs_mono) (simp add: same_heap_ok)

text \<open>Reporting: the exception is printed and forgotten, or the value is printed unless it is \<open>None\<close>.\<close>

lemma runs_report:
  assumes "ok s {} {#r#}"
  shows "runs (if e then seq (exception_print print_err) exception_clear
               else bnd (ref_is_none r) (\<lambda>b. whenP (\<not> b) (ref_println_repr r print_out MAX_DEPTH))) s (\<lambda>_ s'. ok s' {} {#r#})"
proof (cases e)
  case True
  have p: "reads s (exception_print print_err)"
    unfolding exception_print_def reads_def whenP_def
    by (auto simp: print_err_def same_heap_def ctx_def later_def split: option.splits)
  have c: "same_heap t (t\<lparr>exc_type := EXC_NONE, exc_error := None\<rparr>)" for t by (simp add: same_heap_def ctx_def)
  have "runs (seq (exception_print print_err) exception_clear) s (\<lambda>_ s'. same_heap s s')"
    unfolding runs_seq exception_clear_def runs_modify by (rule runs_reads [OF p assms]) (rule same_heap_trans [OF _ c])
  from runs_same [OF this assms] show ?thesis using True by simp
next
  case False
  have "val s {} r" using ok_temp [OF assms] by simp
  then have "reads s (ref_println_repr r print_out MAX_DEPTH)" by (intro reads_println(2) [OF assms] reads_print)
  then have "reads s (bnd (ref_is_none r) (\<lambda>b. whenP (\<not> b) (ref_println_repr r print_out MAX_DEPTH)))"
    unfolding ref_is_none_def by (intro reads_bnd) (auto simp: whenP_def reads_ret, simp add: reads_def)
  then have "runs (bnd (ref_is_none r) (\<lambda>b. whenP (\<not> b) (ref_println_repr r print_out MAX_DEPTH))) s (\<lambda>_ s'. same_heap s s')"
    by (rule runs_reads [OF _ assms])
  from runs_same [OF this assms] show ?thesis using False by simp
qed

lemma reads_debug:
  assumes "idle s"
  shows "reads s (whenP debug (seq (print_out [CHR 0x0A]) (seq print_globals
             (seq (print_out ([CHR 0x0A] @ ''Memory Contents:'' @ [CHR 0x0A])) (seq mem_dump (print_out [CHR 0x0A]))))))"
  unfolding whenP_def using assms by (auto intro!: reads_seq reads_print reads_print_globals reads_mem_dump reads_ret)

lemma runs_eval_node:
  assumes "opt_all plain root" "idle s"
  shows "runs (eval_node debug n root) s (\<lambda>_. idle)"
proof (cases root)
  case None
  then show ?thesis using assms(2) by (simp add: eval_node_def)
next
  case (Some node)
  have tidy: "runs (seq (decref r) (seq (whenP debug (seq (print_out [CHR 0x0A]) (seq print_globals
             (seq (print_out ([CHR 0x0A] @ ''Memory Contents:'' @ [CHR 0x0A])) (seq mem_dump (print_out [CHR 0x0A])))))) (ret b))) t (\<lambda>_. idle)"
    if "ok t {} {#r#}" for r b t
    unfolding runs_seq
  proof (rule runs_decref [OF that])
    fix u assume "does {} {#} t u"
    then have "idle u" by (rule does_ok)
    then show "runs (whenP debug (seq (print_out [CHR 0x0A]) (seq print_globals
             (seq (print_out ([CHR 0x0A] @ ''Memory Contents:'' @ [CHR 0x0A])) (seq mem_dump (print_out [CHR 0x0A])))))) u (\<lambda>_ s'. runs (ret b) s' (\<lambda>_. idle))"
      by (intro runs_reads [OF reads_debug]) (auto simp: same_heap_ok)
  qed simp
  show ?thesis
    unfolding eval_node_def Some option.case runs_bnd
  proof (rule runs_mono [OF runs_eval_root [OF _ assms(2)]])
    show "plain node" using assms(1) Some by simp
    fix r t assume "ok t {} {#r#}"
    then show "runs exception_occurred t (\<lambda>e t. runs (seq (if e then seq (exception_print print_err) exception_clear
               else bnd (ref_is_none r) (\<lambda>b. whenP (\<not> b) (ref_println_repr r print_out MAX_DEPTH)))
          (seq (decref r) (seq (whenP debug (seq (print_out [CHR 0x0A]) (seq print_globals
             (seq (print_out ([CHR 0x0A] @ ''Memory Contents:'' @ [CHR 0x0A])) (seq mem_dump (print_out [CHR 0x0A])))))) (ret (\<not> e))))) t (\<lambda>_. idle))"
      unfolding runs_occurred runs_seq [of "if _ then _ else _"] by (intro runs_mono [OF runs_report]) (assumption, rule tidy)
  qed
qed

section \<open>Sessions\<close>

lemma runs_try_parse: "opt_all plain (snd p) \<Longrightarrow> idle s \<Longrightarrow> runs (try_parse debug n p) s (\<lambda>_. idle)"
  using runs_eval_node [of "snd p" s debug n] by (auto simp: try_parse_def)

lemma runs_print_err: "idle s \<Longrightarrow> runs (print_err x) s (\<lambda>_. idle)"
  by (rule runs_reads [OF reads_print(2)]) (auto dest: does_ok)

lemma runs_loop: "list_all (\<lambda>p. opt_all plain (snd p)) ps \<Longrightarrow> idle s \<Longrightarrow> runs (read_eval_print_loop debug n ps) s (\<lambda>_. idle)"
proof (induction ps arbitrary: s)
  case Nil
  then show ?case unfolding read_eval_print_loop.simps by (intro runs_print_err)
next
  case (Cons p ps)
  have "runs (if act = REPL_ACTION_EXIT then print_err ([CHR 0x0A] @ ''Quitting, goodbye.'' @ [CHR 0x0A]) else read_eval_print_loop debug n ps) t (\<lambda>_. idle)"
    if "idle t" for act t
    using Cons.IH [OF _ that] Cons.prems(1) runs_print_err [OF that] by (cases "act = REPL_ACTION_EXIT") simp_all
  then show ?case
    unfolding read_eval_print_loop.simps runs_bnd using Cons.prems by (intro runs_mono [OF runs_try_parse]) auto
qed


lemma runs_session:
  assumes "list_all (\<lambda>p. opt_all plain (snd p)) results" "idle s"
  shows "runs (bnd (gets interactive) (\<lambda>tty.
      if tty then seq (read_eval_print_loop debug n results) (ret 0)
      else bnd (try_parse debug n (case results of [] \<Rightarrow> (RESULT_EXIT, None) | r # _ \<Rightarrow> r)) (\<lambda>act.
        ret (if act \<noteq> REPL_ACTION_CONTINUE then 1 else (0 :: nat))))) s (\<lambda>_. idle)"
proof -
  have "opt_all plain (snd (case results of [] \<Rightarrow> (RESULT_EXIT, None) | r # _ \<Rightarrow> r))" using assms(1) by (cases results) auto
  then show ?thesis using runs_try_parse [OF _ assms(2)] runs_loop [OF assms] by simp
qed

lemma session_orderly:
  assumes "list_all (\<lambda>p. opt_all plain (snd p)) results" "24 \<le> msize div 8 * 8" "msize < 2 ^ 63" "0 < mpool"
  shows "fst (subpython_main debug n msize mpool results (initial_state tty)) \<in> range Inr \<union> Inl ` (range Exited \<union> {Div_trap, Stack_overflow, No_fuel, Aborted})"
proof -
  obtain s where s: "init_refs msize mpool (initial_state tty) = (Inr (), s)" "table_inv s" "objs s = Map.empty" "exc_type s = EXC_NONE" "global_vars s = []"
    by (rule initial_pool [OF assms(2,4,3)]) (rule that)
  have "boot {#} s" using s(2,3) by (simp add: boot_def hinv_def pointed_def)
  then show ?thesis using s(4,5)
  proof (cases rule: eval_init_run)
    case (aborted s')
    then show ?thesis using s(1) by (simp add: subpython_main_def seq_Inr seq_def bnd_def)
  next
    case (started s')
    have "subpython_main debug n msize mpool results (initial_state tty) = (bnd (gets interactive) (\<lambda>tty.
      if tty then seq (read_eval_print_loop debug n results) (ret 0)
      else bnd (try_parse debug n (case results of [] \<Rightarrow> (RESULT_EXIT, None) | r # _ \<Rightarrow> r)) (\<lambda>act.
        ret (if act \<noteq> REPL_ACTION_CONTINUE then 1 else 0)))) s'"
      using s(1) started(1) by (simp add: subpython_main_def seq_Inr)
    then show ?thesis
      using runs_session [OF assms(1) started(2), of debug n] by (auto simp: runs_def orderly_def split: prod.splits sum.splits)
  qed
qed

text \<open>A whole Subpython session, interactive or not, with or without the debugging mode: whatever trees the parser hands
  over (dictionary literals, calls of \<open>gc\<close> and rebinding of the three constants aside), the interpreter ends in order: with a
  result, by a call of \<open>exit\<close>, by the abort of a pool too small for the constants, by the trap of a division, by a comparison of cyclic lists
  that overflows the stack, or by exceeding the bound on evaluation steps. No assertion of \<open>refs.c\<close> or the type tables fails, and no memory outside a live value is read or
  written: no stale reference is followed, no count is wrong, and no list is indexed outside its array.\<close>

theorem session_safe:
  assumes "list_all (\<lambda>p. opt_all plain (snd p)) results" "24 \<le> msize div 8 * 8" "msize < 2 ^ 63" "0 < mpool"
  shows "fst (subpython_main debug n msize mpool results (initial_state tty)) \<in> range Inr \<union> Inl ` (range Exited \<union> {Div_trap, Stack_overflow, No_fuel, Aborted})"
  using assms by (rule session_orderly)

text \<open>A session that builds a list, stores into it and drops it again.\<close>

theorem session_safe_witness:
  "fst (subpython_main True 100 4096 64
      [(RESULT_SUCCESS, Some (StmtSequence
         [StmtAssign (ExprIdentifier ''x'') (ExprLiteralList (Some [ExprLiteralInteger 1, ExprLiteralInteger 2])),
          StmtAssign (ExprSubscript (ExprIdentifier ''x'') (ExprLiteralInteger 0)) (ExprIdentifier ''x''),
          StmtDel (ExprIdentifier ''x'')])), (RESULT_FAILED, None)]
      (initial_state True)) \<in> range Inr \<union> Inl ` (range Exited \<union> {Div_trap, Stack_overflow, No_fuel, Aborted})"
  by (rule session_safe) (simp_all add: plain_target_def reserved_def list_length_def ast_nodelist_length_def)

end
