(* ===== verification/Py_Alloc.thy ===== *)
theory Py_Alloc
  imports Py_Main Allocator
begin

text \<open>
  The reference table of Subpython (\<open>project05-kweng/refs.c\<close>) over its pool behind the interface of \<open>Allocator\<close>: handles are
  references, requests make strings of the given length, and dropping the only reference to one releases it.
\<close>

section \<open>Blocks of live values\<close>

lemma pool_live_apart:
  assumes "pool_inv s L" "a \<in> L" "b \<in> L" "a \<noteq> b" "store s a = Some v" "store s b = Some w"
  shows "a + value_size v \<le> b \<or> b + value_size w \<le> a"
proof -
  obtain as fs where p: "pool_ok s as fs" "a \<in> set as" "b \<in> set as" using assms(1-3) by (auto simp: pool_inv_def)
  then have t: "tiled (store s) (memory_pool s) as (memory_pool s + memory_size s)" by (simp add: pool_ok_def)
  show ?thesis
    using tiled_apart [OF t p(2,3)] tiled_apart [OF t p(3,2)] assms(4-6) by (cases "a < b") auto
qed

lemma objs_apart:
  assumes "table_inv s" "objs s q = Some v" "objs s r = Some w" "q \<noteq> r"
  shows "address s q + value_size v \<le> address s r \<or> address s r + value_size w \<le> address s q"
proof -
  have a: "address s q \<noteq> 0" "address s r \<noteq> 0" and st: "store s (address s q) = Some v" "store s (address s r) = Some w"
    using assms(2,3) by (simp_all add: objs_def split: if_splits)
  moreover have "address s q \<noteq> address s r" using assms(1,4) a unfolding table_inv_def by metis
  ultimately show ?thesis
    using assms(1) address_in by (intro pool_live_apart [of s "set (ref_table s) - {0}"]) (auto simp: table_inv_def)
qed

section \<open>Requests\<close>

definition string_request :: "nat \<Rightarrow> py_state \<Rightarrow> (reference_t option \<times> py_state) option" where
  "string_request n s = (case make_reference_string_length n s of
     (Inl _, _) \<Rightarrow> None
   | (Inr r, s') \<Rightarrow> Some (if r = NULL_REF then None else Some r, s'))"

definition string_release :: "reference_t \<Rightarrow> py_state \<Rightarrow> py_state option" where
  "string_release r s = (case decref r s of (Inl _, _) \<Rightarrow> None | (Inr _, s') \<Rightarrow> Some s')"

definition string_block :: "nat \<Rightarrow> nat" where
  "string_block n = sizeof_value_t + (n + 1)"

definition string_held :: "py_state \<Rightarrow> reference_t \<Rightarrow> nat \<Rightarrow> bool" where
  "string_held s r n \<longleftrightarrow> (\<exists>v. objs s r = Some v \<and> vtype v = VAL_STRING \<and> ref_count v = 1 \<and> string_block n \<le> value_size v)"

definition strings_held :: "py_state \<Rightarrow> (reference_t \<times> nat) list \<Rightarrow> bool" where
  "strings_held s live \<longleftrightarrow> table_inv s \<and> distinct (map fst live) \<and> (\<forall>(r, n) \<in> set live. string_held s r n)"

lemma strings_heldE:
  assumes "strings_held s live" "(r, n) \<in> set live"
  obtains v where "objs s r = Some v" "vtype v = VAL_STRING" "ref_count v = 1" "string_block n \<le> value_size v"
  using assms unfolding strings_held_def string_held_def by blast

lemma strings_heldI:
  assumes "table_inv s" "distinct (map fst live)" "\<And>r n. (r, n) \<in> set live \<Longrightarrow> string_held s r n"
  shows "strings_held s live"
  using assms by (auto simp: strings_held_def)

lemma string_held_cong: "objs s' r = objs s r \<Longrightarrow> string_held s' r n = string_held s r n"
  by (simp add: string_held_def)

lemma set_remove1_key:
  "distinct (map fst xs) \<Longrightarrow> (r, n) \<in> set xs \<Longrightarrow> (q, k) \<in> set (remove1 (r, n) xs) \<longleftrightarrow> (q, k) \<in> set xs \<and> q \<noteq> r"
  by (induction xs) force+

lemma distinct_remove1_key: "distinct (map fst xs) \<Longrightarrow> distinct (map fst (remove1 x xs))"
  by (metis distinct_map distinct_remove1 inj_on_subset set_remove1_subset)

lemma string_request_run:
  assumes "strings_held s live" "n < 2 ^ 64 - 32"
  shows "\<exists>h s'. string_request n s = Some (h, s') \<and> strings_held s' (case h of None \<Rightarrow> live | Some p \<Rightarrow> (p, n) # live) \<and>
    (\<forall>(q, m) \<in> set live. address s' q = address s q)"
proof -
  have n: "string_block n = n + 25" by (simp add: string_block_def sizeof_value_t_def)
  have t: "table_inv s" "size_fine (string_block n)" "VAL_STRING \<noteq> VAL_FREE"
    using assms string_size [OF assms(2)] by (simp_all add: strings_held_def n)
  have m: "make_reference_string_length n = make_ref VAL_STRING (string_block n)"
    unfolding make_reference_string_length_def string_size [OF assms(2), THEN conjunct1] n ..
  from t show ?thesis
  proof (cases rule: make_ref_cases)
    case (full msg)
    let ?s = "raised EXC_MEMORY_ERROR msg s"
    have "table_inv ?s = table_inv s" "objs ?s = objs s" "address ?s = address s"
      by (rule table_inv_cong objs_cong ext; simp add: address_def)+
    then have "strings_held ?s live" using assms by (simp add: strings_held_def string_held_def)
    then show ?thesis using full m \<open>address ?s = address s\<close> by (auto simp: string_request_def)
  next
    case (fits r s' v)
    have other: "q \<noteq> r" if "(q, k) \<in> set live" for q k
      by (rule strings_heldE [OF assms(1) that]) (use fits(3) in auto)
    have "strings_held s' ((r, n) # live)"
    proof (rule strings_heldI)
      show "distinct (map fst ((r, n) # live))" using assms other by (fastforce simp: strings_held_def)
      show "string_held s' q k" if "(q, k) \<in> set ((r, n) # live)" for q k
      proof (cases "q = r")
        case True
        then have "k = n" using that other by auto
        then show ?thesis using fits(4-6,11) True by (simp add: string_held_def)
      next
        case False
        then have "string_held s q k" using that assms(1) by (auto simp: strings_held_def)
        then show ?thesis using False fits(4) by (simp add: string_held_def)
      qed
    qed (rule fits(2))
    moreover have "r \<noteq> NULL_REF" using fits(9) by (simp add: NULL_REF_def)
    ultimately show ?thesis using fits(1) m fits(10) other by (auto simp: string_request_def)
  qed
qed

lemma string_release_run:
  assumes "strings_held s live" "(r, n) \<in> set live"
  shows "\<exists>s'. string_release r s = Some s' \<and> strings_held s' (remove1 (r, n) live) \<and>
    (\<forall>(q, m) \<in> set (remove1 (r, n) live). address s' q = address s q)"
proof -
  have tab: "table_inv s" and dist: "distinct (map fst live)" using assms(1) by (simp_all add: strings_held_def)
  obtain v where v: "objs s r = Some v" "vtype v = VAL_STRING" "ref_count v = 1" using strings_heldE [OF assms] by metis
  let ?v = "v\<lparr>ref_count := 0\<rparr>"
  let ?t = "with_value r ?v s"
  have w: "table_inv ?t" "objs ?t = (objs s)(r \<mapsto> ?v)" using with_value_ok [OF tab v(1), of ?v] v(2) by simp_all
  have "decref_at (Suc (length (ref_table s) + 1)) r s = (Inr (), without r ?t)"
    by (rule decref_at_last [OF tab v(1,3), of "[]" _ ?t ?v]) (use v w in \<open>simp_all add: held_refs_def\<close>)
  then have run: "string_release r s = Some (without r ?t)" by (simp add: string_release_def decref_def bnd_Inr)
  have "objs ?t r = Some ?v" by (simp add: w(2))
  note wo = without_run(2,3) [OF w(1) this]
  note keep = set_remove1_key [OF dist assms(2)]
  have "strings_held (without r ?t) (remove1 (r, n) live)"
  proof (rule strings_heldI)
    show "distinct (map fst (remove1 (r, n) live))" using dist by (rule distinct_remove1_key)
    show "string_held (without r ?t) q k" if "(q, k) \<in> set (remove1 (r, n) live)" for q k
    proof -
      have "string_held s q k" "q \<noteq> r" using that assms(1) unfolding keep by (auto simp: strings_held_def)
      then show ?thesis by (simp add: string_held_def wo(2) w(2))
    qed
  qed (rule wo(1))
  moreover have "address (without r ?t) q = address s q" if "q \<noteq> r" for q
  proof -
    have "0 \<le> r" using objs_nonneg [OF v(1)] .
    then show ?thesis using that by (auto simp: address_def without_def freed_def with_value_def nth_list_update)
  qed
  ultimately show ?thesis using run keep by blast
qed

interpretation refs: allocator strings_held address string_block "\<lambda>n. n < 2 ^ 64 - 32" string_request string_release
proof
  fix s live p m q n
  assume h: "strings_held s live" "(p, m) \<in> set live" "(q, n) \<in> set live" "p \<noteq> q"
  obtain v where v: "objs s p = Some v" "string_block m \<le> value_size v" using strings_heldE [OF h(1,2)] by metis
  obtain w where w: "objs s q = Some w" "string_block n \<le> value_size w" using strings_heldE [OF h(1,3)] by metis
  show "address s p + string_block m \<le> address s q \<or> address s q + string_block n \<le> address s p"
    using objs_apart [of s p v q w] h(1,4) v w by (fastforce simp: strings_held_def)
qed (use string_request_run string_release_run in \<open>auto simp: strings_held_def\<close>)

text \<open>C12. Requests for strings and releases of them, in any order, are served to the end on every pool that holds at least one header (24 bytes once rounded down to
  the alignment, and less than \<open>2\<^sup>6\<^sup>3\<close>), for all lengths below \<open>2\<^sup>6\<^sup>4 - 32\<close>: creating a string
  either gives a reference or reports that memory is exhausted, dropping its only reference succeeds, and at every such end the
  strings still held have references of their own and occupy blocks of the pool that are apart and large enough.\<close>

theorem strings_served:
  assumes "24 \<le> msize div 8 * 8" "msize < 2 ^ 63" "0 < mpool" "list_all (acceptable (\<lambda>n. n < 2 ^ 64 - 32)) rs"
  shows "\<exists>s s' live. init_refs msize mpool (initial_state tty) = (Inr (), s) \<and>
    serve string_request string_release rs s [] = Some (s', live) \<and> distinct (map fst live) \<and>
    (\<forall>(p, m) \<in> set live. \<forall>(q, n) \<in> set live. p \<noteq> q \<longrightarrow>
       address s' p + string_block m \<le> address s' q \<or> address s' q + string_block n \<le> address s' p)"
proof -
  obtain s where s: "init_refs msize mpool (initial_state tty) = (Inr (), s)" "table_inv s"
    by (rule initial_pool [OF assms(1,3,2)]) (rule that)
  have "strings_held s []" using s(2) by (simp add: strings_held_def)
  then obtain s' live where "serve string_request string_release rs s [] = Some (s', live)" "distinct (map fst live)"
    "\<And>p m q n. (p, m) \<in> set live \<Longrightarrow> (q, n) \<in> set live \<Longrightarrow> p \<noteq> q \<Longrightarrow>
       address s' p + string_block m \<le> address s' q \<or> address s' q + string_block n \<le> address s' p"
    using assms(4) by (rule refs.session_apart) (rule that)
  then show ?thesis using s(1) by blast
qed

theorem strings_served_witness:
  "\<exists>s s' live. init_refs 4096 64 (initial_state False) = (Inr (), s) \<and>
    serve string_request string_release [Allocate 3, Allocate 5, Release 1, Allocate 10000] s [] = Some (s', live) \<and> distinct (map fst live) \<and>
    (\<forall>(p, m) \<in> set live. \<forall>(q, n) \<in> set live. p \<noteq> q \<longrightarrow>
       address s' p + string_block m \<le> address s' q \<or> address s' q + string_block n \<le> address s' p)"
  by (rule strings_served) simp_all

end
