(* ===== verification/Py_List_Spec.thy ===== *)
theory Py_List_Spec
  imports Py_Globals
begin

text \<open>
  The lists of Subpython (\<open>eval_list.c\<close>) against what they stand for: reading, writing and deleting with a subscript are the
  operations of Python on the sequence of elements, negative subscripts and errors included.
\<close>

section \<open>Subscripts\<close>

definition py_index :: "int \<Rightarrow> nat \<Rightarrow> nat option" where
  "py_index i n = (if 0 \<le> i \<and> i < int n then Some (nat i) else if - int n \<le> i \<and> i < 0 then Some (nat (int n + i)) else None)"

definition integer_at :: "py_state \<Rightarrow> reference_t \<Rightarrow> int \<Rightarrow> bool" where
  "integer_at s x i \<longleftrightarrow> (\<exists>w. part s x VAL_INTEGER (Integer_value w) \<and> sint w = i)"

definition is_list :: "py_state \<Rightarrow> reference_t \<Rightarrow> bool" where
  "is_list s l \<longleftrightarrow> (\<exists>v. objs s l = Some v \<and> vtype v = VAL_LIST)"

abbreviation out_of_bounds :: "py_state \<Rightarrow> py_state" where
  "out_of_bounds s \<equiv> raised EXC_INDEX_ERROR ''list index out of bounds'' s"

lemma py_index_cases:
  obtains (inside) j where "py_index i n = Some j" "j < n" "int j = (if i < 0 then i + int n else i)"
  | (outside) "py_index i n = None" "(if i < 0 then i + int n else i) < 0 \<or> int n \<le> (if i < 0 then i + int n else i)"
proof (cases "py_index i n")
  case None
  then show thesis using outside by (auto simp: py_index_def split: if_splits)
next
  case (Some j)
  then show thesis using inside by (auto simp: py_index_def split: if_splits)
qed

text \<open>The start that the three operations share.\<close>

lemma list_start:
  assumes "ok s D R" "list_at s D l v n a va rs" "integer_at s x i"
  shows "bnd (list_coerce (address s l)) (\<lambda>l. bnd (deref x) (\<lambda>sa. bnd (list_coerce_subscript l sa) (\<lambda>i.
     bnd exception_occurred (\<lambda>e. if e then stopped else bnd (list_refarray l) (\<lambda>array. k l i array))))) s =
    (case py_index i n of
       None \<Rightarrow> stopped (out_of_bounds s)
     | Some j \<Rightarrow> (if exc_type s = EXC_NONE then k (address s l) (int j) (address s a) s else stopped s))"
proof -
  obtain w vx where w: "sint w = i" "objs s x = Some vx" "vtype vx = VAL_INTEGER" "data vx = Integer_value w"
    using assms(3) by (auto simp: integer_at_def part_def)
  obtain b where b: "store s b = Some vx" "deref x s = (Inr b, s)" using objsE [OF ok_table [OF assms(1)] w(2)] by metis
  note f = gives_run [OF list_at_fields(1) [OF assms(1,2)]] gives_run [OF list_at_fields(2) [OF assms(1,2)]] gives_run [OF list_at_fields(3) [OF assms(1,2)]]
    gives_run [OF gives_type_at [OF b(1)]] gives_run [OF gives_integer_value [OF b(1) w(4)]]
  show ?thesis
  proof (cases rule: py_index_cases [of i n])
    case (inside j)
    have "list_coerce_subscript (address s l) b s = (Inr (int j), s)"
      using inside(2,3) w f by (cases "i < 0") (auto simp: bnd_Inr list_coerce_subscript_def Let_def)
    then show ?thesis using inside(1) w f b by (simp add: bnd_Inr exception_occurred_def)
  next
    case outside
    then have "list_coerce_subscript (address s l) b s = (Inr 0, out_of_bounds s)"
      using w f by (cases "i < 0") (auto simp: bnd_Inr seq_Inr list_coerce_subscript_def Let_def)
    then show ?thesis using outside w f b by (simp add: bnd_Inr exception_occurred_def)
  qed
qed

lemma list_at_elements_ex:
  assumes "ok s D R" "val s D l" "is_list s l" "elements s l = Some xs"
  obtains v n a va rs where "list_at s D l v n a va rs" "xs = take n rs" "length xs = n" "n \<le> length rs"
proof -
  obtain v where "objs s l = Some v" "vtype v = VAL_LIST" using assms(3) by (auto simp: is_list_def)
  then obtain n a va rs where l: "list_at s D l v n a va rs" using list_at_ex [OF assms(1,2)] by metis
  moreover have "n \<le> length rs" using l by (simp add: list_at_def)
  ultimately show thesis using that assms(4) by (simp add: list_at_elements)
qed

section \<open>The operations\<close>

text \<open>Reading \<open>l[i]\<close>: the element at Python's index, with one more reference to it and the list unchanged, or an \<open>IndexError\<close> with
  nothing else changed.\<close>

theorem list_get_spec:
  assumes "ok s D R" "exc_type s = EXC_NONE" "val s D l" "is_list s l" "elements s l = Some xs" "integer_at s x i"
  shows "case py_index i (length xs) of
      None \<Rightarrow> list_subscr_get (address s l) x s = (Inr NULL_REF, out_of_bounds s)
    | Some j \<Rightarrow> \<exists>s'. list_subscr_get (address s l) x s = (Inr (xs ! j), s') \<and> elements s' l = Some xs \<and>
        rc (objs s') (xs ! j) = rc (objs s) (xs ! j) + 1 \<and> (\<forall>q. q \<noteq> xs ! j \<longrightarrow> objs s' q = objs s q)"
proof -
  obtain v n a va rs where l: "list_at s D l v n a va rs" "xs = take n rs" "length xs = n" "n \<le> length rs"
    by (rule list_at_elements_ex [OF assms(1,3-5)]) (rule that)
  show ?thesis
  proof (cases rule: py_index_cases [of i n])
    case outside
    then show ?thesis unfolding list_subscr_get_def by (subst list_start [OF assms(1) l(1) assms(6)]) (simp add: l(3))
  next
    case (inside j)
    have e: "xs ! j = rs ! j" "val s D (rs ! j)" using l inside(2) by (simp_all add: list_at_def)
    show ?thesis
    proof (rule incref_step [OF assms(1) e(2)])
      fix s'
      assume s': "incref (rs ! j) s = (Inr (), s')" "does D (add_mset (rs ! j) R) s s'" "\<And>q. address s' q = address s q"
        "objs s' = (objs s)(rs ! j := map_option (\<lambda>v. v\<lparr>ref_count := ref_count v + 1\<rparr>) (objs s (rs ! j)))"
      have ne: "rs ! j \<noteq> a" using e(2) list_at_apart [OF l(1)] by (auto simp: val_def)
      have va: "objs s' a = Some va" "data va = Ref_array_value rs" "vtype va = VAL_REF_ARRAY" using l(1) ne by (simp_all add: s'(4) list_at_def)
      have "array_get (address s a) (int j) s' = (Inr (rs ! j), s')"
        using array_get_run [OF ok_table [OF does_ok [OF s'(2)]] va(1,2), of "int j"] inside(2) l(4) s'(3) by simp
      moreover have "array_get (address s a) (int j) s = (Inr (rs ! j), s)"
        using gives_run [OF list_at_fields(5) [OF assms(1) l(1), of "int j"]] inside(2) by simp
      ultimately have run: "list_subscr_get (address s l) x s = (Inr (rs ! j), s')"
        unfolding list_subscr_get_def by (subst list_start [OF assms(1) l(1) assms(6)]) (use inside(1) assms(2) s'(1) in \<open>simp add: bnd_Inr seq_Inr\<close>)
      have "part s' l VAL_LIST (List_value (int n) a)" using l(1) by (auto simp: s'(4) part_def list_at_def)
      moreover have "part s' a VAL_REF_ARRAY (Ref_array_value rs)" using va by (simp add: part_def)
      ultimately have "elements s' l = Some xs" using part_elements l(2) by simp
      moreover have "\<exists>w. objs s (rs ! j) = Some w" using e(2) by (auto simp: val_def user_def)
      ultimately show ?thesis using run inside(1) l(3) e(1) by (auto simp: s'(4) rc_def)
    qed
  qed
qed

text \<open>C17. Assigning \<open>l[i] = y\<close> replaces the element at Python's index, or raises an \<open>IndexError\<close> with nothing else changed; the counts of the
  heap stay right (the old element is dropped, the new one counted).\<close>

theorem list_set_spec:
  assumes "ok s D R" "exc_type s = EXC_NONE" "val s D l" "is_list s l" "elements s l = Some xs" "integer_at s x i" "l \<in># R" "y \<in># R" "val s D y"
  shows "case py_index i (length xs) of
      None \<Rightarrow> list_subscr_set (address s l) x y s = (Inr (), out_of_bounds s)
    | Some j \<Rightarrow> \<exists>s'. list_subscr_set (address s l) x y s = (Inr (), s') \<and> elements s' l = Some (xs[j := y]) \<and> ok s' D R \<and> exc_type s' = EXC_NONE"
proof -
  obtain v n a va rs where l: "list_at s D l v n a va rs" "xs = take n rs" "length xs = n" "n \<le> length rs"
    by (rule list_at_elements_ex [OF assms(1,3-5)]) (rule that)
  show ?thesis
  proof (cases rule: py_index_cases [of i n])
    case outside
    then show ?thesis unfolding list_subscr_set_def by (subst list_start [OF assms(1) l(1) assms(6)]) (simp add: l(3))
  next
    case (inside j)
    have "array_get (address s a) (int j) s = (Inr (rs ! j), s)"
      using gives_run [OF list_at_fields(5) [OF assms(1) l(1), of "int j"]] inside(2) by simp
    then have start: "list_subscr_set (address s l) x y s = seq (decref (rs ! j)) (seq (incref y) (array_set (address s a) (int j) y)) s"
      unfolding list_subscr_set_def by (subst list_start [OF assms(1) l(1) assms(6)]) (use inside(1) assms(2) in \<open>simp add: bnd_Inr\<close>)
    show ?thesis
      by (rule list_set_step [OF assms(1) l(1) assms(7-9) inside(2)]) (use start inside(1) l(2,3) assms(2) does_ok in auto)
  qed
qed

text \<open>C16. Deleting \<open>l[i]\<close> removes the element at Python's index and moves those behind it down by one, or raises an \<open>IndexError\<close> with nothing
  else changed; the counts of the heap stay right.\<close>

theorem list_del_spec:
  assumes "ok s D R" "exc_type s = EXC_NONE" "val s D l" "is_list s l" "elements s l = Some xs" "integer_at s x i" "l \<in># R"
  shows "case py_index i (length xs) of
      None \<Rightarrow> list_subscr_del (address s l) x s = (Inr (), out_of_bounds s)
    | Some j \<Rightarrow> \<exists>s'. list_subscr_del (address s l) x s = (Inr (), s') \<and> elements s' l = Some (take j xs @ drop (Suc j) xs) \<and> ok s' D R \<and> exc_type s' = EXC_NONE"
proof -
  obtain v n a va rs where l: "list_at s D l v n a va rs" "xs = take n rs" "length xs = n" "n \<le> length rs"
    by (rule list_at_elements_ex [OF assms(1,3-5)]) (rule that)
  show ?thesis
  proof (cases rule: py_index_cases [of i n])
    case outside
    then show ?thesis unfolding list_subscr_del_def by (subst list_start [OF assms(1) l(1) assms(6)]) (simp add: l(3))
  next
    case (inside j)
    have "list_fields (address s l) s = (Inr (int n, a), s)" using gives_run [OF list_at_fields(4) [OF assms(1) l(1)]] .
    then have start: "list_subscr_del (address s l) x s = seq (set_data_at (address s l) (List_value (int n - 1) a)) (bnd (array_get (address s a) (int j)) (\<lambda>old. seq (decref old)
      (seq (each (shift_slot (address s a)) [int j..int n - 2]) (array_set (address s a) (int n - 1) NULL_REF)))) s"
      unfolding list_subscr_del_def by (subst list_start [OF assms(1) l(1) assms(6)]) (use inside(1) assms(2) in \<open>simp add: bnd_Inr\<close>)
    show ?thesis
      by (rule list_del_step [OF assms(1) l(1) assms(7) inside(2)]) (use start inside(1) l(2,3) assms(2) does_ok in auto)
  qed
qed

section \<open>A heap with a list\<close>

text \<open>The constants, the list \<open>[7, -1]\<close> bound to \<open>x\<close> with its array, and a free block; references 3, 5 and 6 are also held.\<close>

definition sample_value :: "value_type_t \<Rightarrow> nat \<Rightarrow> nat \<Rightarrow> payload \<Rightarrow> value_t" where
  "sample_value t n sz d = \<lparr>vtype = t, ref_count = n, value_size = sz, data = d\<rparr>"

definition sample_list_state :: py_state where
  "sample_list_state =
     \<lparr>memory_size = 312, memory_pool = 64, free_list = 280,
      store = [64 \<mapsto> sample_value VAL_NONE 1 24 Raw, 88 \<mapsto> sample_value VAL_BOOL 1 24 Raw, 112 \<mapsto> sample_value VAL_BOOL 1 24 Raw,
        136 \<mapsto> sample_value VAL_LIST 2 40 (List_value 2 4), 176 \<mapsto> sample_value VAL_REF_ARRAY 1 40 (Ref_array_value [5, 6]),
        216 \<mapsto> sample_value VAL_INTEGER 2 32 (Integer_value 7), 248 \<mapsto> sample_value VAL_INTEGER 2 32 (Integer_value (- 1)),
        280 \<mapsto> free_block 0 96],
      pool = 64, second_half = False, halfway_point = 220, actual_size = 312, ref_table = [64, 88, 112, 136, 176, 216, 248], max_refs = 8,
      exc_type = EXC_NONE, exc_error = None, none_ref = 0, true_ref = 1, false_ref = 2,
      global_vars = [(''None'', 0), (''True'', 1), (''False'', 2), (''x'', 3)], max_vars = 8, interactive = False, stdout = [], stderr = []\<rparr>"

lemma sample_address:
  "address sample_list_state r = (if r = 0 then 64 else if r = 1 then 88 else if r = 2 then 112 else if r = 3 then 136 else if r = 4 then 176
     else if r = 5 then 216 else if r = 6 then 248 else 0)"
proof (cases "0 \<le> r \<and> r < 7")
  case True
  then have "r \<in> {0, 1, 2, 3, 4, 5, 6}" by auto
  then show ?thesis by (auto simp: address_def sample_list_state_def)
qed (auto simp: address_def sample_list_state_def)

lemma sample_objs:
  "objs sample_list_state = [0 \<mapsto> sample_value VAL_NONE 1 24 Raw, 1 \<mapsto> sample_value VAL_BOOL 1 24 Raw, 2 \<mapsto> sample_value VAL_BOOL 1 24 Raw,
        3 \<mapsto> sample_value VAL_LIST 2 40 (List_value 2 4), 4 \<mapsto> sample_value VAL_REF_ARRAY 1 40 (Ref_array_value [5, 6]),
        5 \<mapsto> sample_value VAL_INTEGER 2 32 (Integer_value 7), 6 \<mapsto> sample_value VAL_INTEGER 2 32 (Integer_value (- 1))]"
    (is "_ = ?rhs")
proof (rule ext)
  fix r :: reference_t
  consider "r = 0" | "r = 1" | "r = 2" | "r = 3" | "r = 4" | "r = 5" | "r = 6" | "r \<notin> {0, 1, 2, 3, 4, 5, 6}" by blast
  then show "objs sample_list_state r = ?rhs r"
    by cases (simp_all add: objs_def sample_address, simp_all add: sample_list_state_def)
qed

lemma address_inj: "distinct (ref_table s) \<Longrightarrow> address s r = address s q \<Longrightarrow> address s r \<noteq> 0 \<Longrightarrow> r = q"
  by (auto simp: address_def nth_eq_iff_index_eq split: if_splits)

lemma sample_distinct: "distinct (ref_table sample_list_state)"
  by (simp add: sample_list_state_def)

lemma sample_table: "table_inv sample_list_state"
proof -
  let ?L = "{64, 88, 112, 136, 176, 216, 248}"
  have "pool_ok sample_list_state [64, 88, 112, 136, 176, 216, 248, 280] [280]"
    by (auto simp: pool_ok_def sample_list_state_def sample_value_def free_block_def free_at_def)
  moreover have "?L = {a \<in> set [64, 88, 112, 136, 176, 216, 248, 280]. \<not> free_at (store sample_list_state) a}"
    by (auto simp: sample_list_state_def sample_value_def free_block_def free_at_def)
  ultimately have "pool_inv sample_list_state ?L" unfolding pool_inv_def by blast
  moreover have "set (ref_table sample_list_state) - {0} = ?L" by (auto simp: sample_list_state_def)
  moreover have "payload_bytes (data v) \<le> value_size v" if "objs sample_list_state r = Some v" for r v
    using that by (auto simp: sample_objs sample_value_def split: if_splits)
  ultimately show ?thesis unfolding table_inv_def using address_inj [OF sample_distinct] by simp
qed

lemma sample_ok: "ok sample_list_state {} {#3, 5, 6#}"
proof -
  have p: "pointed (objs sample_list_state) {} = {#4, 5, 6#}"
    by (simp add: pointed_def sample_objs held_def sample_value_def)
  have r: "roots sample_list_state = {#0, 1, 2, 3#}" by (simp add: roots_def sample_list_state_def)
  have "hinv (objs sample_list_state) {} ({#3, 5, 6#} + roots sample_list_state)"
    unfolding hinv_def p r
    by (auto simp: sample_objs rc_def wf_value_def elements_of_def user_def user_types_def sample_value_def less_Suc_eq numeral_2_eq_2 split: if_splits)
  then show ?thesis
    unfolding ok_def r using sample_table
    by (auto simp: singles_def user_def user_types_def sample_objs sample_value_def) (simp_all add: sample_list_state_def)
qed

lemma sample_facts:
  "exc_type sample_list_state = EXC_NONE" "val sample_list_state {} 3" "val sample_list_state {} 5" "is_list sample_list_state 3"
  "elements sample_list_state 3 = Some [5, 6]" "integer_at sample_list_state 6 (- 1)"
  by (simp_all add: val_def user_def user_types_def is_list_def elements_def elements_of_def integer_at_def part_def sample_objs sample_value_def)
    (simp_all add: sample_list_state_def)

theorem list_get_spec_witness:
  "\<exists>s'. list_subscr_get (address sample_list_state 3) 6 sample_list_state = (Inr 6, s') \<and> elements s' 3 = Some [5, 6]"
  using list_get_spec [OF sample_ok sample_facts(1,2,4,5,6)] by (auto simp: py_index_def)

theorem list_set_spec_witness:
  "\<exists>s'. list_subscr_set (address sample_list_state 3) 6 5 sample_list_state = (Inr (), s') \<and> elements s' 3 = Some [5, 5]"
  using list_set_spec [OF sample_ok sample_facts(1,2,4,5,6) _ _ sample_facts(3)] by (auto simp: py_index_def)

theorem list_del_spec_witness:
  "\<exists>s'. list_subscr_del (address sample_list_state 3) 6 sample_list_state = (Inr (), s') \<and> elements s' 3 = Some [5]"
  using list_del_spec [OF sample_ok sample_facts(1,2,4,5,6)] by (auto simp: py_index_def)

end
