(* ===== verification/Py_Facts.thy ===== *)
theory Py_Facts
  imports Py_List_Spec "HOL-Library.List_Lexorder" "HOL-Library.Char_ord"
begin

text \<open>
  Properties of single parts of Subpython: the pool (\<open>mm.c\<close>), messages of exceptions (\<open>exception.c\<close>), reference counts (\<open>refs.c\<close>),
  integers and strings (\<open>eval_types.c\<close>), the probing of dictionaries (\<open>eval_dict.c\<close>), arenas (\<open>arena.c\<close>) and the indentation
  stack of the parser (\<open>parser.c\<close>).
\<close>

section \<open>The pool\<close>

text \<open>C29. In a well-formed pool a request is served from the first of the smallest free blocks that are large enough; it fails, with a
  \<open>MemoryError\<close> and the pool unchanged, only when every free block is too small.\<close>

theorem pool_malloc_best_fit:
  assumes "pool_ok s as fs"
  shows "(\<exists>p s'. mm_malloc_pool sz s = (Inr p, s') \<and> p \<in> set fs \<and> sz \<le> size_at (store s) p \<and>
       (\<forall>q \<in> set fs. sz \<le> size_at (store s) q \<longrightarrow> size_at (store s) p \<le> size_at (store s) q)) \<or>
     (\<exists>m. mm_malloc_pool sz s = (Inr 0, raised EXC_MEMORY_ERROR m s) \<and> (\<forall>q \<in> set fs. size_at (store s) q < sz))"
proof (cases "best_index sz (map (size_at (store s)) fs)")
  case None
  then have "\<forall>q \<in> set fs. size_at (store s) q < sz" by (simp add: best_index_None)
  then show ?thesis using malloc_none [OF assms, of sz] by blast
next
  case (Some i)
  have "i < length fs" "sz \<le> size_at (store s) (fs ! i)" "\<forall>q \<in> set fs. sz \<le> size_at (store s) q \<longrightarrow> size_at (store s) (fs ! i) \<le> size_at (store s) q"
    using best_index_Some [OF Some] by auto
  then show ?thesis using malloc_some [OF assms Some] by (intro disjI1) auto
qed

lemma sample_pool: "pool_ok sample_list_state [64, 88, 112, 136, 176, 216, 248, 280] [280]"
  by (auto simp: pool_ok_def sample_list_state_def sample_value_def free_block_def free_at_def)

theorem pool_malloc_best_fit_witness:
  "\<exists>s'. mm_malloc_pool 40 sample_list_state = (Inr 280, s')"
  using pool_malloc_best_fit [OF sample_pool, of 40] by (auto simp: sample_list_state_def free_block_def)

text \<open>\<open>mem_used\<close> is the number of bytes in the blocks in use: the size of the pool less the free blocks, without wrap-around.\<close>

theorem mem_used_counts_live:
  assumes "pool_ok s as fs"
  shows "mem_used s = (Inr (sum_list (map (size_at (store s)) (filter (\<lambda>a. \<not> free_at (store s) a) as))), s)"
proof -
  let ?size = "size_at (store s)" and ?free = "free_at (store s)"
  have t: "tiled (store s) (memory_pool s) as (memory_pool s + memory_size s)" using assms by (simp add: pool_ok_def)
  have all: "memory_size s = sum_list (map ?size as)" using tiled_sum [OF t] by simp
  have "mset fs = mset (filter ?free as)"
    using assms tiled_distinct [OF t] by (intro set_eq_iff_mset_eq_distinct [THEN iffD1]) (auto simp: pool_ok_def)
  then have "sum_list (map ?size fs) = sum_list (map ?size (filter ?free as))" by (metis mset_map sum_mset_sum_list)
  moreover have "sum_list (map ?size as) = sum_list (map ?size (filter ?free as)) + sum_list (map ?size (filter (\<lambda>a. \<not> ?free a) as))"
    by (induction as) simp_all
  ultimately show ?thesis using mem_used_run [OF assms] all by simp
qed

theorem mem_used_counts_live_witness: "mem_used sample_list_state = (Inr 216, sample_list_state)"
  using mem_used_counts_live [OF sample_pool]
  by (simp add: sample_list_state_def sample_value_def free_block_def free_at_def)

section \<open>Messages of exceptions\<close>

text \<open>A formatted message is kept whole unless it has exactly 256 characters: then the last one is lost.\<close>

theorem format_drops_a_character:
  "exc_error (snd (exception_set_format t msg s)) = Some (if length msg = 256 then butlast msg else msg)"
proof (cases "length msg = 256")
  case True
  then have "take 255 msg = butlast msg" by (simp add: butlast_conv_take)
  then show ?thesis using True by (simp add: exception_set_format_def INITIAL_FORMAT_BUFSIZE_def)
qed (auto simp: exception_set_format_def INITIAL_FORMAT_BUFSIZE_def)

section \<open>Reference counts\<close>

text \<open>C18. Dropping a reference that is held returns (whatever is released with it, and however deep), no reference is followed that is not in
  the table, the counts stay right for the references that remain, and what survives keeps its type and its members.\<close>

theorem decref_keeps_counts:
  assumes "table_inv s" "hinv (objs s) {} (add_mset r M)"
  shows "\<exists>s'. decref r s = (Inr (), s') \<and> table_inv s' \<and> hinv (objs s') {} M \<and> global_vars s' = global_vars s \<and>
    (\<forall>q v'. objs s' q = Some v' \<longrightarrow> (\<exists>v. objs s q = Some v \<and> vtype v' = vtype v \<and> data v' = data v \<and> ref_count v' \<le> ref_count v)) \<and>
    (\<forall>q. q \<in># M \<longrightarrow> (\<exists>v'. objs s' q = Some v' \<and> 0 < ref_count v'))"
proof -
  obtain s' where s': "decref r s = (Inr (), s')" "released {} M s s'"
    using decref_run [OF assms] by (auto simp: pinned_def)
  then have "table_inv s'" "hinv (objs s') {} M" "shrunk s s'" by (simp_all add: released_def)
  then show ?thesis using s'(1) hinv_root by (auto simp: shrunk_def ctx_def) blast
qed

theorem decref_keeps_counts_witness:
  "\<exists>s'. decref 3 sample_list_state = (Inr (), s') \<and> table_inv s' \<and> hinv (objs s') {} ({#5, 6#} + roots sample_list_state) \<and> (\<exists>v'. objs s' 5 = Some v')"
  using decref_keeps_counts [of sample_list_state 3 "{#5, 6#} + roots sample_list_state"] sample_table ok_hinv [OF sample_ok] by auto

section \<open>Integers and strings\<close>

definition integer_in :: "py_state \<Rightarrow> nat \<Rightarrow> 64 word \<Rightarrow> bool" where
  "integer_in s a x \<longleftrightarrow> (\<exists>v. store s a = Some v \<and> vtype v = VAL_INTEGER \<and> data v = Integer_value x)"

lemma integer_coerce_run: "integer_in s a x \<Longrightarrow> integer_coerce a s = (Inr x, s)"
  by (auto simp: integer_in_def integer_coerce_def coerce_def type_at_def integer_value_def bnd_Inr load_value_Some)

lemma word_back: "- (2 ^ 63) \<le> i \<Longrightarrow> i < 2 ^ 63 \<Longrightarrow> sint (word_of_int i :: 64 word) = i"
  by (simp add: int_word_sint)

lemma sdiv_smod_64:
  fixes x y :: "64 word"
  assumes "y \<noteq> 0" "\<not> (sint x = - (2 ^ 63) \<and> sint y = - 1)"
  shows "- (2 ^ 63) \<le> sint x sdiv sint y" "sint x sdiv sint y < 2 ^ 63" "\<bar>sint x smod sint y\<bar> < \<bar>sint y\<bar>"
    "sint x smod sint y = 0 \<or> sgn (sint x smod sint y) = sgn (sint x)"
proof -
  have y: "sint y \<noteq> 0" using assms(1) by (metis signed_eq_0_iff)
  note r = sint_64_range [of x] sint_64_range [of y]
  have abs: "\<bar>sint x sdiv sint y\<bar> = \<bar>sint x\<bar> div \<bar>sint y\<bar>"
    by (simp add: signed_divide_int_def abs_mult sgn_if pos_imp_zdiv_nonneg_iff)
  have le: "\<bar>sint x\<bar> div \<bar>sint y\<bar> \<le> \<bar>sint x\<bar>" using y zdiv_mono2 [of "\<bar>sint x\<bar>" 1 "\<bar>sint y\<bar>"] by simp
  show "- (2 ^ 63) \<le> sint x sdiv sint y" using abs le r by linarith
  show "sint x sdiv sint y < 2 ^ 63"
  proof (cases "sint x = - (2 ^ 63)")
    case False
    then show ?thesis using abs le r by linarith
  next
    case True
    then have "sint y \<noteq> - 1" using assms(2) by simp
    show ?thesis
    proof (cases "0 < sint y")
      case True
      then have "0 \<le> 2 ^ 63 div sint y" by (simp add: pos_imp_zdiv_nonneg_iff)
      moreover have "sint x sdiv sint y = - (2 ^ 63 div sint y)" using True \<open>sint x = _\<close> by (simp add: signed_divide_int_def)
      moreover have "- z < 2 ^ 63" if "0 \<le> z" for z :: int using that by simp
      ultimately show ?thesis by simp
    next
      case False
      then have "2 \<le> \<bar>sint y\<bar>" using y \<open>sint y \<noteq> - 1\<close> by linarith
      then have "\<bar>sint x\<bar> div \<bar>sint y\<bar> \<le> \<bar>sint x\<bar> div 2" by (intro zdiv_mono2) auto
      then show ?thesis using abs True by simp
    qed
  qed
  show "\<bar>sint x smod sint y\<bar> < \<bar>sint y\<bar>" using y by (simp add: signed_modulo_int_def abs_mult sgn_if)
  show "sint x smod sint y = 0 \<or> sgn (sint x smod sint y) = sgn (sint x)"
  proof -
    have "0 \<le> \<bar>sint x\<bar> mod \<bar>sint y\<bar>" using y by simp
    then show ?thesis by (cases "\<bar>sint x\<bar> mod \<bar>sint y\<bar> = 0") (simp_all add: signed_modulo_int_def sgn_mult)
  qed
qed

text \<open>Division and remainder of 64-bit integers: the process traps for a zero divisor and for the quotient \<open>2 ^ 63\<close>; otherwise quotient and remainder
  satisfy \<open>x = q * y + m\<close> with \<open>\<bar>m\<bar> < \<bar>y\<bar>\<close> and \<open>m\<close> of the sign of \<open>x\<close> (the quotient is cut towards zero, where Python rounds down).\<close>

theorem divide_and_modulo:
  assumes "integer_in s l x" "integer_in s r y"
  shows "if y = 0 \<or> (sint x = - (2 ^ 63) \<and> sint y = - 1)
    then integer_binop_divide l r s = (Inl Div_trap, s) \<and> integer_binop_modulo l r s = (Inl Div_trap, s)
    else \<exists>q m. integer_binop_divide l r s = make_reference_int q s \<and> integer_binop_modulo l r s = make_reference_int m s \<and>
      sint x = sint q * sint y + sint m \<and> \<bar>sint m\<bar> < \<bar>sint y\<bar> \<and> (sint m = 0 \<or> sgn (sint m) = sgn (sint x))"
proof (cases "div_traps x y")
  case True
  then show ?thesis
    using assms [THEN integer_coerce_run] by (auto simp: integer_binop_divide_def integer_binop_modulo_def bnd_Inr div_traps_def)
next
  case False
  let ?q = "sint x sdiv sint y" and ?m = "sint x smod sint y"
  have h: "y \<noteq> 0" "\<not> (sint x = - (2 ^ 63) \<and> sint y = - 1)" using False by (auto simp: div_traps_def)
  have h': "\<not> (y = 0 \<or> (sint x = - (2 ^ 63) \<and> sint y = - 1))" using h by simp
  note r = sdiv_smod_64 [OF h]
  have "\<bar>sint y\<bar> \<le> 2 ^ 63" using sint_64_range [of y] by linarith
  then have "- (2 ^ 63) \<le> ?m" "?m < 2 ^ 63" using r(3) by linarith+
  then have words: "sint (word_of_int ?m :: 64 word) = ?m" "sint (word_of_int ?q :: 64 word) = ?q" using r(1,2) by (simp_all add: word_back)
  have "sint x = ?q * sint y + ?m" by (simp add: sdiv_mult_smod_eq)
  moreover have "integer_binop_divide l r s = make_reference_int (word_of_int ?q) s" "integer_binop_modulo l r s = make_reference_int (word_of_int ?m) s"
    using assms [THEN integer_coerce_run] False by (simp_all add: integer_binop_divide_def integer_binop_modulo_def bnd_Inr)
  ultimately show ?thesis unfolding if_not_P [OF h'] using r(3,4) words by metis
qed

theorem divide_and_modulo_witness:
  "\<exists>q. integer_binop_divide 216 248 sample_list_state = make_reference_int q sample_list_state \<and> sint q = - 7"
  using divide_and_modulo [of sample_list_state 216 7 248 "- 1"]
  by (auto simp: integer_in_def sample_list_state_def sample_value_def)

text \<open>The order of \<open>strcmp\<close> is the lexicographic order of the characters, taken as unsigned bytes.\<close>

definition c_string :: "string \<Rightarrow> bool" where
  "c_string xs \<longleftrightarrow> CHR 0x00 \<notin> set xs"

lemma of_char_pos: "c \<noteq> CHR 0x00 \<Longrightarrow> 0 < (of_char c :: nat)"
proof -
  assume "c \<noteq> CHR 0x00"
  then have "(of_char c :: nat) \<noteq> of_char (CHR 0x00)" by (simp only: of_char_eq_iff not_False_eq_True)
  then show ?thesis by simp
qed

lemma strcmp_signs:
  "c_string xs \<Longrightarrow> c_string ys \<Longrightarrow>
   (strcmp xs ys = 0 \<longleftrightarrow> xs = ys) \<and> (strcmp xs ys < 0 \<longleftrightarrow> xs < ys) \<and> (0 < strcmp xs ys \<longleftrightarrow> ys < xs)"
proof (induction xs ys rule: strcmp.induct)
  case (2 d ds)
  then show ?case using of_char_pos [of d] by (auto simp: c_string_def)
next
  case (3 c cs)
  then show ?case using of_char_pos [of c] by (auto simp: c_string_def)
next
  case (4 c cs d ds)
  then show ?case by (cases "c = d") (auto simp: c_string_def less_char_def)
qed simp

definition string_in :: "py_state \<Rightarrow> nat \<Rightarrow> string \<Rightarrow> bool" where
  "string_in s a x \<longleftrightarrow> (\<exists>v. store s a = Some v \<and> vtype v = VAL_STRING \<and> data v = String_value x) \<and> c_string x"

lemma string_coerce_run: "string_in s a x \<Longrightarrow> string_coerce a s = (Inr x, s)"
  by (auto simp: string_in_def string_coerce_def coerce_def type_at_def string_value_def bnd_Inr load_value_Some)

text \<open>Comparing two string values decides equality and the lexicographic order of the strings, their bytes taken as unsigned.\<close>

theorem string_comparisons:
  assumes "string_in s l x" "string_in s r y"
  shows "string_eq l r s = (Inr (x = y), s) \<and>
    (\<exists>k. string_cmp l r s = (Inr k, s) \<and> (k = 0 \<longleftrightarrow> x = y) \<and> (k < 0 \<longleftrightarrow> x < y) \<and> (0 < k \<longleftrightarrow> y < x))"
proof -
  have "c_string x" "c_string y" using assms by (simp_all add: string_in_def)
  note signs = strcmp_signs [OF this]
  show ?thesis
    using assms [THEN string_coerce_run] signs by (simp add: string_eq_def string_cmp_def bnd_Inr)
qed

definition sample_strings :: py_state where
  "sample_strings = sample_list_state\<lparr>store := [400 \<mapsto> sample_value VAL_STRING 1 32 (String_value ''list''), 432 \<mapsto> sample_value VAL_STRING 1 32 (String_value ''lists'')]\<rparr>"

theorem string_comparisons_witness: "\<exists>k. string_cmp 400 432 sample_strings = (Inr k, sample_strings) \<and> k < 0"
  using string_comparisons [of sample_strings 400 "''list''" 432 "''lists''"]
  by (auto simp: string_in_def sample_strings_def sample_value_def c_string_def)

section \<open>Probing\<close>

text \<open>What \<open>eval_dict.c\<close> finds in slots: a key that is taken and differs from the one looked for.\<close>

definition other_key :: "eq_fun \<Rightarrow> reference_t \<Rightarrow> py_state \<Rightarrow> reference_t \<Rightarrow> bool" where
  "other_key req subscr s key \<longleftrightarrow> key \<noteq> NULL_REF \<and> key \<noteq> TOMBSTONE_REF \<and> req subscr key s = (Inr False, s)"

lemma keys_find_skips:
  assumes "store s a = Some v" "data v = Ref_array_value rs" "0 \<le> b" "b \<le> int (length rs)"
    "\<And>i. b + k \<le> i \<Longrightarrow> i < int (length rs) \<Longrightarrow> other_key req subscr s (rs ! nat i)" "0 \<le> k" "b + k \<le> int (length rs)" "0 < b"
  shows "keys_find_from req a (int (length rs)) b subscr skip [k..int (length rs) - 1] s = (Inl Bad_access, s)"
  using assms(5-7)
proof (induction "nat (int (length rs) - (b + k))" arbitrary: k)
  case 0
  then have k: "b + k = int (length rs)" by simp
  have u: "[k..int (length rs) - 1] = k # [k + 1..int (length rs) - 1]" using k assms(8) by (subst upto_rec1) auto
  have "array_get a (int (length rs)) s = (Inl Bad_access, s)"
    using assms(1,2) by (simp add: array_get_def array_values_def bnd_Inr load_value_Some)
  then show ?case unfolding u using k by (simp add: probe_slot_def Let_def bnd_def)
next
  case (Suc n)
  have u: "[k..int (length rs) - 1] = k # [k + 1..int (length rs) - 1]" using Suc.hyps(2) assms(8) by (subst upto_rec1) auto
  have o: "other_key req subscr s (rs ! nat (b + k))" using Suc.hyps(2) Suc.prems by auto
  have "array_get a (b + k) s = (Inr (rs ! nat (b + k)), s)"
    using assms(1,2,3) Suc.hyps(2) Suc.prems(2) by (simp add: array_get_def array_values_def bnd_Inr load_value_Some)
  moreover have "keys_find_from req a (int (length rs)) b subscr skip [k + 1..int (length rs) - 1] s = (Inl Bad_access, s)"
    using Suc.hyps(2) Suc.prems by (intro Suc.hyps(1)) auto
  ultimately show ?case unfolding u using o [unfolded other_key_def] Suc.prems(3) Suc.hyps(2)
    by (auto simp: probe_slot_def Let_def bnd_Inr)
qed

text \<open>C39. Looking for a key whose bucket is not the first, when that bucket and all behind it are taken by other keys, reads the slot one
  past the end of the array of keys: the test \<open>current > capacity\<close> wraps around one slot too late.\<close>

theorem probe_overruns:
  assumes "store s a = Some v" "data v = Ref_array_value rs" "rs \<noteq> []" "0 < unat hash mod length rs"
    "\<forall>i < length rs. unat hash mod length rs \<le> i \<longrightarrow> other_key req subscr s (rs ! i)"
  shows "keys_find req a hash subscr skip s = (Inl Bad_access, s)"
proof -
  let ?b = "int (unat hash mod length rs)"
  have n: "length rs \<noteq> 0" using assms(3) by simp
  have "int (unat hash) mod int (length rs) = ?b" by (simp add: zmod_int)
  moreover have "keys_find_from req a (int (length rs)) ?b subscr skip [0..int (length rs) - 1] s = (Inl Bad_access, s)"
    using assms(4,5) n by (intro keys_find_skips [OF assms(1,2)]) (auto simp: less_imp_le)
  ultimately show ?thesis
    using assms(1,2) n by (simp add: keys_find_def array_capacity_def array_values_def bnd_Inr load_value_Some)
qed

text \<open>The keys 15 and 31 in a table of 16 slots.\<close>

definition sample_keys :: py_state where
  "sample_keys = sample_list_state\<lparr>store := [400 \<mapsto> sample_value VAL_REF_ARRAY 1 96 (Ref_array_value (replicate 15 NULL_REF @ [9]))]\<rparr>"

theorem probe_overruns_witness:
  "keys_find (\<lambda>_ key. ret (key \<noteq> 9)) 400 31 8 True sample_keys = (Inl Bad_access, sample_keys)"
  by (rule probe_overruns [where v = "sample_value VAL_REF_ARRAY 1 96 (Ref_array_value (replicate 15 NULL_REF @ [9]))"])
    (auto simp: sample_keys_def sample_value_def other_key_def NULL_REF_def TOMBSTONE_REF_def nth_append less_Suc_eq)

section \<open>Arenas\<close>

text \<open>A series of allocations: for each request its place, the number of its block and the offset in it.\<close>

fun arena_mallocs :: "arena_t \<Rightarrow> nat list \<Rightarrow> (nat \<times> nat \<times> nat) list \<times> arena_t" where
  "arena_mallocs arena [] = ([], arena)"
| "arena_mallocs arena (n # ns) =
     (let ((b, off), arena') = arena_malloc arena n; (ps, arena'') = arena_mallocs arena' ns in ((b, off, n) # ps, arena''))"

definition block_sizes :: "arena_t \<Rightarrow> nat list" where
  "block_sizes arena = map block_bytes (rev arena)"

definition arena_ok :: "arena_t \<Rightarrow> bool" where
  "arena_ok arena \<longleftrightarrow> arena \<noteq> [] \<and> 8 dvd allocated (hd arena) \<and> allocated (hd arena) \<le> block_bytes (hd arena) \<and> block_bytes (hd arena) < 2 ^ 63"

text \<open>Sizes that objects have: at most \<open>2 ^ 63 - 8\<close> bytes. With them no computation wraps around.\<close>

definition arena_fine :: "nat \<Rightarrow> bool" where
  "arena_fine n \<longleftrightarrow> n + 8 \<le> 2 ^ 63"

lemma arena_malloc_step:
  assumes "arena_ok arena" "arena_fine n"
  obtains off arena' zs where "arena_malloc arena n = ((length arena' - 1, off), arena')" "arena_ok arena'" "8 dvd off"
    "off + n \<le> allocated (hd arena')" "block_sizes arena' = block_sizes arena @ zs"
    "length arena \<le> length arena'" "length arena' = length arena \<Longrightarrow> off = allocated (hd arena)"
proof (cases arena)
  case Nil
  then show thesis using assms by (simp add: arena_ok_def)
next
  case (Cons b bs)
  define sz where "sz = (n + 7) div 8 * 8"
  have n: "n \<le> 9223372036854775800" using assms(2) by (simp add: arena_fine_def)
  then have "sz \<le> (9223372036854775800 + 7) div 8 * 8" unfolding sz_def by (intro mult_le_mono1 div_le_mono) simp
  then have sz: "n \<le> sz" "8 dvd sz" "sz < 2 ^ 63" by (simp_all add: sz_def)
  have b: "8 dvd allocated b" "allocated b \<le> block_bytes b" "block_bytes b < 2 ^ 63" using assms(1) Cons by (simp_all add: arena_ok_def)
  have run: "(7 + n) mod 18446744073709551616 = 7 + n" "(7 + n) div 8 * 8 = sz"
    "(allocated b + sz) mod 18446744073709551616 = allocated b + sz" "sz mod 18446744073709551616 = sz"
    using n sz(3) b(2,3) by (simp_all add: sz_def add.commute)
  note simps = arena_malloc_def DEFAULT_BLOCK_SIZE_def ARENA_ALIGNMENT_def run Let_def Cons block_sizes_def arena_ok_def block_new_def
  show thesis
  proof (cases "allocated b + sz > block_bytes b")
    case True
    let ?k = "if sz > DEFAULT_BLOCK_SIZE then sz else DEFAULT_BLOCK_SIZE"
    show thesis by (rule that [of "\<lparr>block_bytes = ?k, allocated = sz\<rparr> # arena" 0 "[?k]"]) (use True sz in \<open>simp_all add: simps\<close>)
  next
    case False
    show thesis by (rule that [of "b\<lparr>allocated := allocated b + sz\<rparr> # bs" "allocated b" "[]"]) (use False sz b in \<open>simp_all add: simps\<close>)
  qed
qed

lemma arena_mallocs_places:
  "arena_ok arena \<Longrightarrow> list_all arena_fine ns \<Longrightarrow> arena_mallocs arena ns = (ps, arena') \<Longrightarrow>
   (\<exists>zs. block_sizes arena' = block_sizes arena @ zs) \<and>
   (\<forall>(b, off, n) \<in> set ps. 8 dvd off \<and> b < length arena' \<and> off + n \<le> block_sizes arena' ! b \<and> length arena - 1 \<le> b \<and>
      (b = length arena - 1 \<longrightarrow> allocated (hd arena) \<le> off)) \<and>
   sorted_wrt (\<lambda>(b, off, n) (b', off', n'). b = b' \<longrightarrow> off + n \<le> off') ps"
proof (induction ns arbitrary: arena ps)
  case (Cons n ns)
  obtain off arena1 zs where s: "arena_malloc arena n = ((length arena1 - 1, off), arena1)" "arena_ok arena1" "8 dvd off"
    "off + n \<le> allocated (hd arena1)" "block_sizes arena1 = block_sizes arena @ zs"
    "length arena \<le> length arena1" "length arena1 = length arena \<Longrightarrow> off = allocated (hd arena)"
    by (rule arena_malloc_step [OF Cons.prems(1), of n]) (use Cons.prems(2) in simp, rule that)
  obtain qs where q: "arena_mallocs arena1 ns = (qs, arena')" "ps = (length arena1 - 1, off, n) # qs"
    using Cons.prems(3) s(1) by (auto split: prod.splits)
  have "list_all arena_fine ns" using Cons.prems(2) by simp
  note ih = Cons.IH [OF s(2) this q(1)]
  obtain ys where ys: "block_sizes arena' = block_sizes arena1 @ ys" using ih by blast
  have ne: "arena1 \<noteq> []" "arena \<noteq> []" using s(2) Cons.prems(1) by (simp_all add: arena_ok_def)
  have len: "length (block_sizes a) = length a" for a by (simp add: block_sizes_def)
  have last: "block_sizes arena' ! (length arena1 - 1) = block_bytes (hd arena1)"
    unfolding ys using ne(1) by (cases arena1) (simp_all add: block_sizes_def nth_append)
  have "length arena1 \<le> length arena'" using arg_cong [OF ys, of length] len by simp
  moreover have "off + n \<le> block_bytes (hd arena1)" using s(2,4) by (simp add: arena_ok_def)
  ultimately have "8 dvd off \<and> length arena1 - 1 < length arena' \<and> off + n \<le> block_sizes arena' ! (length arena1 - 1) \<and> length arena - 1 \<le> length arena1 - 1 \<and>
      (length arena1 - 1 = length arena - 1 \<longrightarrow> allocated (hd arena) \<le> off)"
    using s(3,6,7) last ne by (cases arena; cases arena1) auto
  moreover have "length arena - 1 \<le> b \<and> (b = length arena - 1 \<longrightarrow> allocated (hd arena) \<le> o')" if "(b, o', m) \<in> set qs" for b o' m
  proof -
    have "length arena1 - 1 \<le> b" "b = length arena1 - 1 \<longrightarrow> allocated (hd arena1) \<le> o'" using ih that by auto
    then show ?thesis using s(4,6,7) ne by (cases arena; cases arena1) auto
  qed
  moreover have "off + n \<le> o'" if "(length arena1 - 1, o', m) \<in> set qs" for o' m
    using ih that s(4) by fastforce
  ultimately show ?case using ih q(2) ys s(5) by auto
qed (simp add: block_sizes_def)

lemma arena_mallocs_sizes: "map (\<lambda>(b, off, n). n) (fst (arena_mallocs arena ns)) = ns"
  by (induction ns arbitrary: arena) (auto split: prod.splits, metis fst_conv)

text \<open>Beyond those sizes the sum wraps around, no new block is made, and the next allocation is put over the first one.\<close>

lemma arena_wraps: "fst (arena_mallocs arena_new [16, 2 ^ 64 - 16, 16]) = [(0, 0, 16), (0, 16, 2 ^ 64 - 16), (0, 0, 16)]"
proof -
  let ?a = "\<lambda>k. [\<lparr>block_bytes = 8192, allocated = k\<rparr>]"
  note simps = arena_malloc_def ARENA_ALIGNMENT_def DEFAULT_BLOCK_SIZE_def
  have "arena_new = ?a 0" by (simp add: arena_new_def block_new_def DEFAULT_BLOCK_SIZE_def)
  moreover have "arena_malloc (?a 0) 16 = ((0, 0), ?a 16)" by (simp add: simps)
  moreover have "arena_malloc (?a 16) (2 ^ 64 - 16) = ((0, 16), ?a 0)" by (simp add: simps)
  ultimately show ?thesis by (simp only: arena_mallocs.simps Let_def prod.case fst_conv)
qed

text \<open>C37. The allocations of an arena, of at most \<open>2 ^ 63 - 8\<close> bytes each, lie at multiples of 8, inside their blocks, and those in the same block
  do not overlap: a later one starts behind the end of an earlier one. (The sizes are computed in \<open>size_t\<close>; for sizes near \<open>2 ^ 64\<close> they
  wrap around and the allocations overlap.)\<close>

theorem arena_places_apart:
  assumes "list_all arena_fine ns"
  shows "case arena_mallocs arena_new ns of (ps, arena) \<Rightarrow> map (\<lambda>(b, off, n). n) ps = ns \<and>
     (\<forall>(b, off, n) \<in> set ps. off mod 8 = 0 \<and> b < length arena \<and> off + n \<le> block_sizes arena ! b) \<and>
     (\<forall>j < length ps. \<forall>i < j. fst (ps ! i) = fst (ps ! j) \<longrightarrow> fst (snd (ps ! i)) + snd (snd (ps ! i)) \<le> fst (snd (ps ! j)))"
proof (cases "arena_mallocs arena_new ns")
  case (Pair ps arena)
  have "arena_ok arena_new" by (simp add: arena_new_def block_new_def arena_ok_def DEFAULT_BLOCK_SIZE_def)
  note p = arena_mallocs_places [OF this assms Pair]
  have "fst (snd (ps ! i)) + snd (snd (ps ! i)) \<le> fst (snd (ps ! j))" if "i < j" "j < length ps" "fst (ps ! i) = fst (ps ! j)" for i j
    using p that by (auto simp: sorted_wrt_iff_nth_less split: prod.splits) (metis fst_conv prod.collapse snd_conv)
  moreover have "map (\<lambda>(b, off, n). n) ps = ns" using arena_mallocs_sizes [of arena_new ns] Pair by simp
  ultimately show ?thesis using p Pair by (auto simp: dvd_eq_mod_eq_0)
qed

theorem arena_places_apart_witness:
  "case arena_mallocs arena_new [10, 8190, 3] of (ps, arena) \<Rightarrow> map (\<lambda>(b, off, n). n) ps = [10, 8190, 3] \<and>
     (\<forall>(b, off, n) \<in> set ps. off mod 8 = 0 \<and> b < length arena \<and> off + n \<le> block_sizes arena ! b)"
proof -
  have "list_all arena_fine [10, 8190, 3]" by (simp add: arena_fine_def)
  from arena_places_apart [OF this] show ?thesis by (cases "arena_mallocs arena_new [10, 8190, 3]") (simp add: prod.case)
qed

section \<open>The indentation stack\<close>

text \<open>C?. Pushing a level of indentation makes it the current one, and popping it brings back the level before; the 100th level and a pop of
  the first fail an assertion.\<close>

theorem indent_push_pop:
  assumes "length (stack d) = MAX_INDENT_LEVELS" "pos d < MAX_INDENT_LEVELS"
  shows "if pos d = MAX_INDENT_LEVELS - 1 then parser_indent_push d level = Inl Assertion
    else \<exists>d' d''. parser_indent_push d level = Inr d' \<and> parser_indent_cur d' = level \<and>
      parser_indent_pop d' = Inr d'' \<and> pos d'' = pos d \<and> (\<forall>i \<le> pos d. stack d'' ! i = stack d ! i)"
  using assms by (auto simp: parser_indent_push_def parser_indent_pop_def parser_indent_cur_def MAX_INDENT_LEVELS_def)

theorem indent_push_pop_witness:
  "\<exists>d'. parser_indent_push \<lparr>stack = replicate 100 0, pos = 0\<rparr> 4 = Inr d' \<and> parser_indent_cur d' = 4"
  using indent_push_pop [of "\<lparr>stack = replicate 100 0, pos = 0\<rparr>" 4] by (auto simp: MAX_INDENT_LEVELS_def)

end
