(* ===== verification/Py_Fuel.thy ===== *)
theory Py_Fuel
  imports Py_Main
begin

text \<open>
  The bound on evaluation steps of the model of Subpython: a session that ends within a bound ends the same way within every
  larger one, so the bound only tells sessions that go on from those that end.
\<close>

section \<open>Runs within a bound\<close>

definition upto_fuel :: "'a py \<Rightarrow> 'a py \<Rightarrow> bool" where
  "upto_fuel m m' \<longleftrightarrow> (\<forall>s. fst (m s) \<noteq> Inl No_fuel \<longrightarrow> m' s = m s)"

definition ev_upto :: "ev \<Rightarrow> ev \<Rightarrow> bool" where
  "ev_upto g h \<longleftrightarrow> (\<forall>node. upto_fuel (g node) (h node))"

named_theorems upto_intros

lemma upto_refl [upto_intros]: "upto_fuel m m"
  by (simp add: upto_fuel_def)

lemma upto_halt [upto_intros]: "upto_fuel (halt No_fuel) m"
  by (simp add: upto_fuel_def)

lemma upto_bnd [upto_intros]: "upto_fuel m m' \<Longrightarrow> (\<And>x. upto_fuel (k x) (k' x)) \<Longrightarrow> upto_fuel (bnd m k) (bnd m' k')"
  unfolding upto_fuel_def bnd_def by (auto split: prod.splits sum.splits)

lemma upto_seq [upto_intros]: "upto_fuel m m' \<Longrightarrow> upto_fuel k k' \<Longrightarrow> upto_fuel (seq m k) (seq m' k')"
  unfolding seq_def by (rule upto_bnd)

lemma upto_if [upto_intros]: "(b \<Longrightarrow> upto_fuel m m') \<Longrightarrow> (\<not> b \<Longrightarrow> upto_fuel k k') \<Longrightarrow> upto_fuel (if b then m else k) (if b then m' else k')"
  by simp

lemma upto_whenP [upto_intros]: "upto_fuel m m' \<Longrightarrow> upto_fuel (whenP b m) (whenP b m')"
  by (simp add: whenP_def upto_refl)

lemma upto_option [upto_intros]: "upto_fuel m m' \<Longrightarrow> (\<And>x. upto_fuel (k x) (k' x)) \<Longrightarrow>
    upto_fuel (case x of None \<Rightarrow> m | Some y \<Rightarrow> k y) (case x of None \<Rightarrow> m' | Some y \<Rightarrow> k' y)"
  by (cases x) simp_all

lemma upto_ev: "ev_upto g h \<Longrightarrow> upto_fuel (g node) (h node)"
  by (simp add: ev_upto_def)

section \<open>The evaluator\<close>

lemma upto_store_elements [upto_intros]: "ev_upto g h \<Longrightarrow> upto_fuel (store_elements g l a i ns) (store_elements h l a i ns)"
  by (induction ns arbitrary: i) (auto intro!: upto_intros elim!: upto_ev)

lemma upto_store_entries [upto_intros]: "ev_upto g h \<Longrightarrow> upto_fuel (store_entries g d v ks vs) (store_entries h d v ks vs)"
  by (induction g d v ks vs rule: store_entries.induct) (auto intro!: upto_intros elim!: upto_ev)

lemma upto_eval_args [upto_intros]: "ev_upto g h \<Longrightarrow> upto_fuel (eval_args g ns) (eval_args h ns)"
  by (induction ns) (auto intro!: upto_intros elim!: upto_ev)

lemma upto_sequence_from [upto_intros]: "ev_upto g h \<Longrightarrow> upto_fuel (sequence_from g r ns) (sequence_from h r ns)"
  by (induction ns arbitrary: r) (auto intro!: upto_intros elim!: upto_ev)

lemma upto_ignore [upto_intros]: "upto_fuel m m' \<Longrightarrow> upto_fuel (ignore_result m) (ignore_result m')"
  and upto_null [upto_intros]: "upto_fuel u u' \<Longrightarrow> upto_fuel (null_result u) (null_result u')"
  unfolding ignore_result_def null_result_def by (auto intro!: upto_intros elim!: upto_ev)

lemma upto_expr_step: "ev_upto g h \<Longrightarrow> upto_fuel (eval_expr_step g node) (eval_expr_step h node)"
  unfolding eval_expr_step_def eval_literal_list_def eval_literal_dict_def eval_not_test_def eval_and_test_def eval_or_test_def
    eval_builtin_def eval_call_def eval_subscript_def Let_def
  by (cases node) (auto intro!: upto_intros elim!: upto_ev)

lemma upto_assign [upto_intros]: "ev_upto g h \<Longrightarrow> upto_fuel (eval_stmt_assign g l r) (eval_stmt_assign h l r)"
  unfolding eval_stmt_assign_def by (cases l) (auto intro!: upto_intros elim!: upto_ev)

lemma upto_del [upto_intros]: "ev_upto g h \<Longrightarrow> upto_fuel (eval_stmt_del g a) (eval_stmt_del h a)"
  unfolding eval_stmt_del_def by (cases a) (auto intro!: upto_intros elim!: upto_ev)

lemma upto_stmt_if [upto_intros]:
  "ev_upto g h \<Longrightarrow> ev_upto g' h' \<Longrightarrow> upto_fuel (eval_stmt_if g g' c l r) (eval_stmt_if h h' c l r)"
  unfolding eval_stmt_if_def by (auto intro!: upto_intros elim!: upto_ev)

lemma upto_while [upto_intros]:
  "ev_upto g h \<Longrightarrow> ev_upto g' h' \<Longrightarrow> n \<le> m \<Longrightarrow> upto_fuel (eval_stmt_while n g g' c b) (eval_stmt_while m h h' c b)"
proof (induction n arbitrary: m)
  case 0
  show ?case unfolding eval_stmt_while.simps by (rule upto_halt)
next
  case (Suc n)
  then obtain k where "m = Suc k" "n \<le> k" by (cases m) auto
  then show ?case using Suc by (auto intro!: upto_intros elim!: upto_ev)
qed

lemma ev_upto_expr: "n \<le> m \<Longrightarrow> ev_upto (eval_expr n) (eval_expr m)"
proof (induction n arbitrary: m)
  case 0
  show ?case unfolding ev_upto_def eval_expr.simps by (simp add: upto_halt)
next
  case (Suc n)
  then obtain k where "m = Suc k" "n \<le> k" by (cases m) auto
  then show ?case using Suc.IH [of k] unfolding ev_upto_def [of "eval_expr (Suc n)"] by (auto intro: upto_expr_step)
qed

lemma ev_upto_stmt: "n \<le> m \<Longrightarrow> ev_upto (eval_stmt n) (eval_stmt m)"
proof (induction n arbitrary: m)
  case 0
  show ?case unfolding ev_upto_def eval_stmt.simps by (simp add: upto_halt)
next
  case (Suc n)
  then obtain k where k: "m = Suc k" "n \<le> k" by (cases m) auto
  note ih = Suc.IH [OF k(2)] ev_upto_expr [OF k(2)]
  have "upto_fuel (eval_stmt (Suc n) node) (eval_stmt m node)" for node
    unfolding k(1) eval_stmt.simps using ih k(2) by (cases node) (auto simp: eval_stmt_sequence_def intro!: upto_intros elim: upto_ev)
  then show ?case by (simp add: ev_upto_def)
qed

lemma upto_eval_node: "n \<le> m \<Longrightarrow> upto_fuel (eval_node debug n root) (eval_node debug m root)"
  unfolding eval_node_def eval_root_def using ev_upto_stmt [of n m] by (auto intro!: upto_intros elim!: upto_ev)

lemma upto_try_parse [upto_intros]: "n \<le> m \<Longrightarrow> upto_fuel (try_parse debug n p) (try_parse debug m p)"
  unfolding try_parse_def using upto_eval_node by (auto intro!: upto_intros elim!: upto_ev)

lemma upto_loop [upto_intros]: "n \<le> m \<Longrightarrow> upto_fuel (read_eval_print_loop debug n ps) (read_eval_print_loop debug m ps)"
  by (induction ps) (auto intro!: upto_intros elim!: upto_ev)

lemma upto_main: "n \<le> m \<Longrightarrow> upto_fuel (subpython_main debug n msize mpool ps) (subpython_main debug m msize mpool ps)"
  unfolding subpython_main_def by (auto intro!: upto_intros elim!: upto_ev)

text \<open>A session of Subpython that ends within the bound \<open>n\<close> (in whatever way) has the same result and the same final state, output
  included, with every larger bound.\<close>

lemma session_more_fuel:
  assumes "fst (subpython_main debug n msize mpool results s) \<noteq> Inl No_fuel" "n \<le> m"
  shows "subpython_main debug m msize mpool results s = subpython_main debug n msize mpool results s"
  using upto_main [OF assms(2)] assms(1) by (simp add: upto_fuel_def)

text \<open>The program \<open>None\<close> ends within two steps.\<close>

lemma none_session_ends: "fst (subpython_main False 2 4096 64 [(RESULT_SUCCESS, Some (ExprLiteralSingleton S_NONE))] (initial_state tty)) \<noteq> Inl No_fuel"
proof -
  let ?p = "(RESULT_SUCCESS, Some (ExprLiteralSingleton S_NONE))"
  obtain s where s: "init_refs 4096 64 (initial_state tty) = (Inr (), s)" "table_inv s" "objs s = Map.empty" "exc_type s = EXC_NONE" "global_vars s = []"
    by (rule initial_pool [of 4096 64 tty]) (simp, simp, simp, rule that)
  have "boot {#} s" using s(2,3) by (simp add: boot_def hinv_def pointed_def)
  then show ?thesis using s(4,5)
  proof (cases rule: eval_init_run)
    case (aborted s')
    then show ?thesis using s(1) by (simp add: subpython_main_def seq_Inr seq_def bnd_def)
  next
    case (started t)
    let ?n = "none_ref t"
    obtain u where u: "incref ?n t = (Inr (), u)" "does {} {#?n#} t u" "exc_type u = exc_type t" "ctx u = ctx t"
      by (rule incref_step [OF started(2) conjunct1 [OF ok_single [OF started(2)]]]) (rule that)
    obtain w where w: "decref ?n u = (Inr (), w)" by (rule decref_step [OF does_ok [OF u(2)]]) (simp, rule that)
    have c: "none_ref u = ?n" using u(4) by (simp add: ctx_def)
    have n: "?n \<noteq> NULL_REF" using ok_not_null [OF does_ok [OF u(2)]] .
    have "eval_node False 2 (snd ?p) t = (Inr True, w)"
      using u(1,3) w started(3) c n
      by (simp add: eval_node_def eval_root_def numeral_2_eq_2 eval_expr_step_def singleton_to_ref_def singleton_to_ref_borrow_def
          bnd_Inr seq_Inr exception_occurred_def ref_is_none_def whenP_def)
    then have "try_parse False 2 ?p t = (Inr REPL_ACTION_CONTINUE, w)" by (simp add: try_parse_def bnd_Inr)
    then show ?thesis using s(1) started(1) by (simp add: subpython_main_def seq_Inr bnd_Inr print_err_def)
  qed
qed

lemma none_session_any_fuel:
  "subpython_main False 1000 4096 64 [(RESULT_SUCCESS, Some (ExprLiteralSingleton S_NONE))] (initial_state True) =
   subpython_main False 2 4096 64 [(RESULT_SUCCESS, Some (ExprLiteralSingleton S_NONE))] (initial_state True)"
  by (rule session_more_fuel [OF none_session_ends]) simp

end
