(* ===== verification/Py_Options.thy ===== *)
theory Py_Options
  imports Py_Main
begin

text \<open>
  The program around a session (\<open>main\<close> of \<open>project05-kweng/repl.c\<close>, and the input functions of \<open>parser.c\<close> that the scanner
  calls): options, the script, the memory of the pool. What \<open>getopt\<close>, the file system and the terminal return, and what the parser makes of an
  input, are parameters.
\<close>

section \<open>Input\<close>

text \<open>A line from the terminal, to which the line break is added; the prompt depends on whether there was a line before. No line: the end.\<close>

definition parser_input_wrap :: "bool \<Rightarrow> bool \<Rightarrow> string list \<Rightarrow> parser_input_t \<Rightarrow> nat \<times> string \<times> string list \<times> parser_input_t" where
  "parser_input_wrap tty first typed inp =
     (if tty then
        let prompt = (if first then ''>>> '' else ''... '') in
        case typed of
          [] \<Rightarrow> (1, prompt, [], inp\<lparr>buffer := ''''\<rparr>)
        | line # rest \<Rightarrow> (0, prompt, rest, inp\<lparr>buffer := line @ [CHR 0x0A], position := 0\<rparr>)
      else (1, '''', typed, inp))"

text \<open>A script is read in pieces; the status tells the end of the file.\<close>

definition script_read :: "string \<Rightarrow> nat \<Rightarrow> string \<times> nat \<times> string" where
  "script_read stream len = (take len stream, if stream = [] \<and> 0 < len then 1 else 0, drop len stream)"

section \<open>Options\<close>

definition DEFAULT_MEMORY_SIZE :: nat where "DEFAULT_MEMORY_SIZE = 1024"

text \<open>\<open>strtol\<close> with base 10.\<close>

definition strtol10 :: "string \<Rightarrow> int" where
  "strtol10 s =
     (let (neg, r) = strtol_sign (dropWhile isspace s); n = int (read_digits 10 0 r)
      in max (- (2 ^ 63)) (min (2 ^ 63 - 1) (if neg then - n else n)))"

text \<open>The memory size and the debugging flag after an option, or how the program ends there.\<close>

definition repl_option :: "char \<times> string \<Rightarrow> nat \<times> bool \<Rightarrow> (stop, nat \<times> bool) res" where
  "repl_option opt cfg =
     (case opt of (c, optarg) \<Rightarrow>
        if c = CHR ''h'' then Inl (Exited 0)
        else if c = CHR ''m'' then
          let memory_size = strtol10 optarg in
          if memory_size \<le> 0 then Inl (Exited 1) else Inr (nat memory_size, snd cfg)
        else if c = CHR ''d'' then Inr (fst cfg, True)
        else if c = CHR 0x3F then Inl (Exited 1)
        else Inl Aborted)"

fun repl_options :: "(char \<times> string) list \<Rightarrow> nat \<times> bool \<Rightarrow> (stop, nat \<times> bool) res" where
  "repl_options [] cfg = Inr cfg"
| "repl_options (opt # opts) cfg = bindE (repl_option opt cfg) (repl_options opts)"

section \<open>The program\<close>

text \<open>The input is a script, when an argument is left, or the terminal; \<open>None\<close> is a script that cannot be opened. An input of which it cannot be told
  whether it is a terminal ends the program.\<close>

record 'f inputs =
  opened :: "string \<Rightarrow> 'f option"
  standard_input :: 'f
  is_terminal :: "'f \<Rightarrow> bool option"
  parsed :: "'f \<Rightarrow> (parse_result_type_t \<times> Node option) list"
  pool_address :: "nat \<Rightarrow> nat"

definition banner :: "nat \<Rightarrow> string" where
  "banner msize =
     ''CS24 Subpython [Fall 2019]'' @ [CHR 0x0A] @ ''Using a memory size of '' @ show_nat msize @ '' bytes.'' @ [CHR 0x0A]"

text \<open>The results: how the program ends, and what is printed on the standard output.\<close>

definition repl_main :: "'f inputs \<Rightarrow> nat \<Rightarrow> (char \<times> string) list \<Rightarrow> string option \<Rightarrow> (stop, nat) res \<times> string" where
  "repl_main I n opts script =
     (case repl_options opts (DEFAULT_MEMORY_SIZE, False) of
        Inl e \<Rightarrow> (Inl e, '''')
      | Inr (msize, debug) \<Rightarrow>
          (case (case script of None \<Rightarrow> Some (standard_input I) | Some file \<Rightarrow> opened I file) of
             None \<Rightarrow> (Inr 2, '''')
           | Some f \<Rightarrow>
               (case is_terminal I f of
                  None \<Rightarrow> (Inr 3, '''')
                | Some tty \<Rightarrow>
                    let out = (if tty then banner msize else '''') in
                    if pool_address I msize = 0 then (Inl Aborted, out)
                    else (case subpython_main debug n msize (pool_address I msize) (parsed I f) (initial_state tty) of
                            (r, s) \<Rightarrow> (r, out @ stdout s)))))"


section \<open>How the program ends\<close>

lemma strtol10_bound: "strtol10 s < 2 ^ 63"
proof -
  have "max (- (2 ^ 63)) (min (2 ^ 63 - 1) n) < (2 ^ 63 :: int)" for n by simp
  then show ?thesis unfolding strtol10_def Let_def by (simp only: split: prod.split) simp
qed

lemma repl_options_stop: "repl_options opts cfg = Inl e \<Longrightarrow> e = Aborted \<or> e \<in> range Exited"
  by (induction opts arbitrary: cfg)
    (auto simp: bindE_def repl_option_def Let_def split: sum.splits prod.splits if_splits)

lemma repl_options_size:
  assumes "repl_options opts cfg = Inr (msize, debug)" "\<forall>a. (CHR ''m'', a) \<in> set opts \<longrightarrow> strtol10 a \<le> 0 \<or> 24 \<le> strtol10 a"
    "24 \<le> fst cfg" "fst cfg < 2 ^ 63"
  shows "24 \<le> msize \<and> msize < 2 ^ 63"
  using assms
proof (induction opts arbitrary: cfg)
  case (Cons opt opts)
  obtain cfg' where c: "repl_option opt cfg = Inr cfg'" "repl_options opts cfg' = Inr (msize, debug)"
    using Cons.prems(1) by (auto simp: bindE_def split: sum.splits)
  obtain o' a where o: "opt = (o', a)" by force
  have "24 \<le> fst cfg' \<and> fst cfg' < 2 ^ 63"
    using c(1) Cons.prems(2-4) strtol10_bound [of a]
    by (auto simp: repl_option_def Let_def o nat_less_iff split: if_splits)
  then show ?case using Cons.IH [OF c(2)] Cons.prems(2) by simp
qed simp

text \<open>C2. The whole program of Subpython: whatever the options, the script or the terminal, whatever the parser makes of the input (dictionary
  literals, calls of \<open>gc\<close> and rebinding of the three constants aside), and whether or not the memory is granted, the program ends
  in order: with an exit status, by a call of \<open>exit\<close> or \<open>abort\<close>, by the trap of a division, by a comparison of cyclic lists that overflows the stack, or by
  exceeding the bound on its steps. No assertion fails and no access leaves the pool. The memory sizes asked for are not between 1 and 23: a pool of such a
  size does not hold its own header.\<close>

theorem program_ends:
  assumes "\<And>f. list_all (\<lambda>p. opt_all plain (snd p)) (parsed I f)"
    "\<forall>a. (CHR ''m'', a) \<in> set opts \<longrightarrow> strtol10 a \<le> 0 \<or> 24 \<le> strtol10 a"
  shows "fst (repl_main I n opts script) \<in> range Inr \<union> Inl ` (range Exited \<union> {Div_trap, Stack_overflow, No_fuel, Aborted})"
proof (cases "repl_options opts (DEFAULT_MEMORY_SIZE, False)")
  case (Inl e)
  then show ?thesis using repl_options_stop [OF Inl] by (auto simp: repl_main_def)
next
  case (Inr cfg)
  obtain msize debug where c: "repl_options opts (DEFAULT_MEMORY_SIZE, False) = Inr (msize, debug)" using Inr by (cases cfg) simp
  have m: "24 \<le> msize div 8 * 8" "msize < 2 ^ 63"
    using repl_options_size [OF c assms(2)] div_le_mono [of 24 msize 8] by (simp_all add: DEFAULT_MEMORY_SIZE_def)
  define ends where "ends = (range Inr \<union> Inl ` (range Exited \<union> {Div_trap, Stack_overflow, No_fuel, Aborted}) :: (stop, nat) res set)"
  have "fst (subpython_main debug n msize (pool_address I msize) (parsed I f) (initial_state tty)) \<in> ends"
    if "pool_address I msize \<noteq> 0" for f tty
    unfolding ends_def using that by (intro session_orderly assms(1) m) simp
  moreover have "Inr k \<in> ends" "Inl Aborted \<in> ends" for k by (simp_all add: ends_def)
  ultimately have "fst (repl_main I n opts script) \<in> ends"
    by (simp add: repl_main_def c Let_def case_prod_unfold split: option.split)
  then show ?thesis by (simp only: ends_def)
qed

text \<open>A script that stores into a list, with 4096 bytes and the debugging mode.\<close>

definition example_inputs :: "unit inputs" where
  "example_inputs =
     \<lparr>opened = (\<lambda>_. Some ()), standard_input = (), is_terminal = (\<lambda>_. Some False),
      parsed = (\<lambda>_. [(RESULT_SUCCESS, Some (StmtSequence
         [StmtAssign (ExprIdentifier ''x'') (ExprLiteralList (Some [ExprLiteralInteger 1, ExprLiteralInteger 2])),
          StmtAssign (ExprSubscript (ExprIdentifier ''x'') (ExprLiteralInteger 0)) (ExprIdentifier ''x''),
          StmtDel (ExprIdentifier ''x'')]))]),
      pool_address = (\<lambda>_. 64)\<rparr>"

theorem program_ends_witness:
  "fst (repl_main example_inputs 100 [(CHR ''d'', ''''), (CHR ''m'', ''4096'')] (Some ''list.py''))
     \<in> range Inr \<union> Inl ` (range Exited \<union> {Div_trap, Stack_overflow, No_fuel, Aborted})"
proof (rule program_ends)
  show "list_all (\<lambda>p. opt_all plain (snd p)) (parsed example_inputs f)" for f
    by (simp add: example_inputs_def plain_target_def reserved_def list_length_def ast_nodelist_length_def)
  have "strtol10 ''4096'' = 4096" by code_simp
  then show "\<forall>a. (CHR ''m'', a) \<in> set [(CHR ''d'', ''''), (CHR ''m'', ''4096'')] \<longrightarrow> strtol10 a \<le> 0 \<or> 24 \<le> strtol10 a" by simp
qed

end
