(* ===== verification/Proxy_Buffer.thy ===== *)
theory Proxy_Buffer
  imports C_Prelude
begin

text \<open>
  The growable byte buffer of the web proxy (\<open>project07-kweng/src/buffer.c\<close>): the bytes up to the capacity, of which those that
  \<open>realloc\<close> has added are indeterminate until they are written. Sizes are 64-bit and wrap around; whether \<open>realloc\<close> grants a size is a
  parameter, and a refusal fails the assertion behind it; so is whether \<open>malloc\<close> grants the 24 bytes of the structure.
\<close>

section \<open>Errors of the proxy\<close>

datatype proxy_stop = Assert_failed | Invalid_access | Deadlock | Out_of_fuel

section \<open>The operations\<close>

record buffer_t =
  buf_data :: "char option list"
  buf_length :: nat
  buf_capacity :: nat

definition wrap64 :: "nat \<Rightarrow> nat" where
  "wrap64 n = n mod 2 ^ 64"

definition buffer_resize :: "(nat \<Rightarrow> bool) \<Rightarrow> nat \<Rightarrow> buffer_t \<Rightarrow> (proxy_stop, buffer_t) res" where
  "buffer_resize grants new_capacity buf =
     (if new_capacity \<le> buf_capacity buf then Inr buf
      else let grown_capacity = wrap64 (buf_capacity buf * 2);
               cap = (if new_capacity < grown_capacity then grown_capacity else new_capacity) in
        bindE (assertE (grants cap) Assert_failed) (\<lambda>_.
        Inr (buf\<lparr>buf_data := buf_data buf @ replicate (cap - buf_capacity buf) None, buf_capacity := cap\<rparr>)))"

definition buffer_create :: "(nat \<Rightarrow> bool) \<Rightarrow> nat \<Rightarrow> (proxy_stop, buffer_t) res" where
  "buffer_create grants initial_capacity =
     bindE (assertE (grants 24) Assert_failed) (\<lambda>_.
     buffer_resize grants (if initial_capacity = 0 then 1 else initial_capacity) \<lparr>buf_data = [], buf_length = 0, buf_capacity = 0\<rparr>)"

definition buffer_append_bytes :: "(nat \<Rightarrow> bool) \<Rightarrow> string \<Rightarrow> buffer_t \<Rightarrow> (proxy_stop, buffer_t) res" where
  "buffer_append_bytes grants bytes buf =
     bindE (buffer_resize grants (wrap64 (buf_length buf + length bytes)) buf) (\<lambda>b.
     bindE (assertE (buf_length b + length bytes \<le> buf_capacity b) Invalid_access) (\<lambda>_.
     Inr (b\<lparr>buf_data := take (buf_length b) (buf_data b) @ map Some bytes @ drop (buf_length b + length bytes) (buf_data b),
            buf_length := wrap64 (buf_length b + length bytes)\<rparr>)))"

definition buffer_append_char :: "(nat \<Rightarrow> bool) \<Rightarrow> char \<Rightarrow> buffer_t \<Rightarrow> (proxy_stop, buffer_t) res" where
  "buffer_append_char grants c buf = buffer_append_bytes grants [c] buf"

text \<open>\<open>buffer_string\<close> returns the data, in which a zero follows the bytes; what a caller reads of it is the C string at its start.\<close>

definition buffer_string :: "(nat \<Rightarrow> bool) \<Rightarrow> buffer_t \<Rightarrow> (proxy_stop, buffer_t) res" where
  "buffer_string grants buf =
     bindE (buffer_resize grants (wrap64 (buf_length buf + 1)) buf) (\<lambda>b.
     bindE (assertE (buf_length b < buf_capacity b) Invalid_access) (\<lambda>_.
     Inr (b\<lparr>buf_data := (buf_data b)[buf_length b := Some (CHR 0x00)]\<rparr>)))"

text \<open>The C string at the start of some bytes; running into an indeterminate byte, or past the end, is an invalid access.\<close>

fun c_string_at :: "char option list \<Rightarrow> (proxy_stop, string) res" where
  "c_string_at [] = Inl Invalid_access"
| "c_string_at (None # bs) = Inl Invalid_access"
| "c_string_at (Some c # bs) = (if c = CHR 0x00 then Inr [] else bindE (c_string_at bs) (\<lambda>t. Inr (c # t)))"

section \<open>What a buffer holds\<close>

definition contents :: "buffer_t \<Rightarrow> string" where
  "contents buf = map the (take (buf_length buf) (buf_data buf))"

definition buffer_ok :: "buffer_t \<Rightarrow> bool" where
  "buffer_ok buf \<longleftrightarrow> length (buf_data buf) = buf_capacity buf \<and> buf_length buf \<le> buf_capacity buf \<and> buf_capacity buf < 2 ^ 63 \<and>
     None \<notin> set (take (buf_length buf) (buf_data buf))"

text \<open>\<open>realloc\<close> grants what is asked for, within the sizes that exist.\<close>

definition generous :: "(nat \<Rightarrow> bool) \<Rightarrow> nat \<Rightarrow> bool" where
  "generous grants lim \<longleftrightarrow> lim < 2 ^ 62 \<and> (\<forall>n < 2 * lim + 2. grants n)"

lemma contents_length [simp]: "buffer_ok buf \<Longrightarrow> length (contents buf) = buf_length buf"
  by (simp add: buffer_ok_def contents_def)

lemma contents_data: "buffer_ok buf \<Longrightarrow> take (buf_length buf) (buf_data buf) = map Some (contents buf)"
  unfolding contents_def buffer_ok_def
  by (simp add: map_idI comp_def) (metis (no_types, lifting) map_idI option.collapse)

lemma wrap64_small [simp]: "n < 2 ^ 64 \<Longrightarrow> wrap64 n = n"
  by (simp add: wrap64_def)

text \<open>Growing: the contents stay, and the capacity at least doubles when it changes.\<close>

lemma buffer_resize_spec:
  assumes "buffer_ok buf" "n \<le> lim" "buf_capacity buf \<le> 2 * lim + 1" "generous grants lim"
  obtains buf' where "buffer_resize grants n buf = Inr buf'" "buffer_ok buf'" "contents buf' = contents buf" "buf_length buf' = buf_length buf"
    "n \<le> buf_capacity buf'" "buf_capacity buf' \<le> 2 * lim + 1" "buf_capacity buf' = buf_capacity buf \<or> 2 * buf_capacity buf \<le> buf_capacity buf'"
proof (cases "n \<le> buf_capacity buf")
  case True
  then show thesis using that assms by (simp add: buffer_resize_def)
next
  case False
  let ?cap = "if n < buf_capacity buf * 2 then buf_capacity buf * 2 else n"
  have small: "wrap64 (buf_capacity buf * 2) = buf_capacity buf * 2" using assms(1) by (simp add: buffer_ok_def)
  have cap: "buf_capacity buf \<le> ?cap" "?cap \<le> 2 * lim + 1" "?cap < 2 ^ 63" using False assms(2,4) by (auto simp: generous_def)
  then have "grants ?cap" using assms(4) by (simp add: generous_def)
  let ?b = "buf\<lparr>buf_data := buf_data buf @ replicate (?cap - buf_capacity buf) None, buf_capacity := ?cap\<rparr>"
  have run: "buffer_resize grants n buf = Inr ?b"
    using False small \<open>grants ?cap\<close> by (simp add: buffer_resize_def Let_def)
  have "buffer_ok ?b" "contents ?b = contents buf" using assms(1) cap by (auto simp: buffer_ok_def contents_def)
  then show thesis using run cap False by (intro that [of ?b]) auto
qed

lemma buffer_append_spec:
  assumes "buffer_ok buf" "buf_length buf + length bytes \<le> lim" "buf_capacity buf \<le> 2 * lim + 1" "generous grants lim"
  obtains buf' where "buffer_append_bytes grants bytes buf = Inr buf'" "buffer_ok buf'" "contents buf' = contents buf @ bytes"
    "buf_length buf' = buf_length buf + length bytes" "buf_capacity buf' \<le> 2 * lim + 1"
    "buf_capacity buf' = buf_capacity buf \<or> 2 * buf_capacity buf \<le> buf_capacity buf'"
proof -
  let ?n = "buf_length buf + length bytes"
  have n: "?n < 2 ^ 62" using assms(2,4) by (simp add: generous_def)
  then have w: "wrap64 ?n = ?n" by simp
  obtain b where b: "buffer_resize grants ?n buf = Inr b" "buffer_ok b" "contents b = contents buf" "buf_length b = buf_length buf"
    "?n \<le> buf_capacity b" "buf_capacity b \<le> 2 * lim + 1" "buf_capacity b = buf_capacity buf \<or> 2 * buf_capacity buf \<le> buf_capacity b"
    by (rule buffer_resize_spec [OF assms]) (rule that)
  let ?b = "b\<lparr>buf_data := take (buf_length b) (buf_data b) @ map Some bytes @ drop ?n (buf_data b), buf_length := ?n\<rparr>"
  have run: "buffer_append_bytes grants bytes buf = Inr ?b" using b(1,4,5) w by (simp add: buffer_append_bytes_def)
  have d: "take ?n (buf_data ?b) = map Some (contents b) @ map Some bytes"
    using b(2,4) contents_data [OF b(2)] by (simp add: buffer_ok_def)
  have "length (buf_data ?b) = buf_capacity b" using b(2,4,5) by (simp add: buffer_ok_def)
  then have "buffer_ok ?b" using b(2,4,5) d by (auto simp: buffer_ok_def)
  moreover have "contents ?b = contents buf @ bytes" using d b(3) by (simp add: contents_def [of ?b] comp_def)
  ultimately show thesis using run b(4,6,7) by (intro that [of ?b]) auto
qed

text \<open>A new buffer is empty; the string of a buffer is its contents up to the first zero byte.\<close>

lemma buffer_create_spec:
  assumes "n \<le> lim" "0 < n" "12 \<le> lim" "generous grants lim"
  obtains buf where "buffer_create grants n = Inr buf" "buffer_ok buf" "contents buf = []" "buf_length buf = 0" "buf_capacity buf \<le> 2 * lim + 1"
proof -
  have "buffer_ok \<lparr>buf_data = [], buf_length = 0, buf_capacity = 0\<rparr>" by (simp add: buffer_ok_def)
  moreover have "grants 24" using assms(3,4) by (simp add: generous_def)
  ultimately show thesis
    using buffer_resize_spec [of "\<lparr>buf_data = [], buf_length = 0, buf_capacity = 0\<rparr>" n lim grants] assms that
    by (simp add: buffer_create_def) (simp add: contents_def, metis)
qed

lemma c_string_prefix: "c_string_at (map Some s @ Some (CHR 0x00) # r) = Inr (takeWhile (\<lambda>c. c \<noteq> CHR 0x00) s)"
  by (induction s) auto

lemma buffer_string_spec:
  assumes "buffer_ok buf" "buf_length buf < lim" "buf_capacity buf \<le> 2 * lim + 1" "generous grants lim"
  obtains buf' where "buffer_string grants buf = Inr buf'" "c_string_at (buf_data buf') = Inr (takeWhile (\<lambda>c. c \<noteq> CHR 0x00) (contents buf))"
proof -
  have w: "wrap64 (buf_length buf + 1) = buf_length buf + 1" using assms(2,4) by (simp add: generous_def)
  have le: "buf_length buf + 1 \<le> lim" using assms(2) by simp
  obtain b where b: "buffer_resize grants (buf_length buf + 1) buf = Inr b" "buffer_ok b" "contents b = contents buf" "buf_length b = buf_length buf"
    "buf_length buf + 1 \<le> buf_capacity b"
    by (rule buffer_resize_spec [OF assms(1) le assms(3,4)]) (rule that)
  let ?b = "b\<lparr>buf_data := (buf_data b)[buf_length b := Some (CHR 0x00)]\<rparr>"
  have run: "buffer_string grants buf = Inr ?b" using b(1,4,5) w by (simp add: buffer_string_def)
  have "buf_length b < length (buf_data b)" using b(2,4,5) by (simp add: buffer_ok_def)
  then have "buf_data ?b = map Some (contents b) @ Some (CHR 0x00) # drop (Suc (buf_length b)) (buf_data b)"
    using contents_data [OF b(2)] by (simp add: upd_conv_take_nth_drop)
  then show thesis using run b(3) c_string_prefix by (intro that [of ?b]) simp_all
qed

end
