(* ===== verification/Proxy_Cache.thy ===== *)
theory Proxy_Cache
  imports Proxy_Buffer
begin

text \<open>
  The cache of the web proxy (\<open>project07-kweng/src/cache.c\<close>): a doubly linked queue of nodes in order of use, a hash table of chains
  through the same nodes, and a lock. Nodes and buffers live at addresses; an access to a freed one stops the run. A
  \<open>pthread_rwlock_t\<close> passed by value is a copy: locking it cannot change the cache's lock. Locking a lock that the thread holds for
  writing may report \<open>EDEADLK\<close> (which the code ignores) or block forever; the parameter \<open>detects\<close> says which.
\<close>

section \<open>The structures\<close>

type_synonym node_ptr = "nat option"

record cache_node_t =
  prev :: node_ptr
  next_node :: node_ptr
  hash_table_prev :: node_ptr
  hash_table_next :: node_ptr
  key :: "nat \<times> string"
  "value" :: nat

record queue_t =
  queue_size :: nat
  front :: node_ptr
  back_node :: node_ptr

record hash_table_t =
  table_capacity :: nat
  arr :: "nat \<Rightarrow> node_ptr"

record cache_t =
  cache_size :: nat
  lock :: bool
  cache_queue :: queue_t
  hash_table :: hash_table_t
  nodes :: "nat \<Rightarrow> cache_node_t option"
  buffers :: "nat \<Rightarrow> buffer_t option"
  fresh_address :: nat

definition BINS :: nat where "BINS = 1024"
definition MAX_CACHE_SIZE :: nat where "MAX_CACHE_SIZE = 1024 * 1024"
definition MAX_OBJECT_SIZE :: nat where "MAX_OBJECT_SIZE = 1024 * 100"

text \<open>Following a pointer, and taking and releasing the lock.\<close>

definition node_at :: "cache_t \<Rightarrow> node_ptr \<Rightarrow> (proxy_stop, cache_node_t) res" where
  "node_at c p = (case p of None \<Rightarrow> Inl Invalid_access
     | Some a \<Rightarrow> (case nodes c a of None \<Rightarrow> Inl Invalid_access | Some n \<Rightarrow> Inr n))"

definition set_node :: "nat \<Rightarrow> (cache_node_t \<Rightarrow> cache_node_t) \<Rightarrow> cache_t \<Rightarrow> (proxy_stop, cache_t) res" where
  "set_node a f c = bindE (node_at c (Some a)) (\<lambda>n. Inr (c\<lparr>nodes := (nodes c)(a \<mapsto> f n)\<rparr>))"

definition buffer_at :: "cache_t \<Rightarrow> nat \<Rightarrow> (proxy_stop, buffer_t) res" where
  "buffer_at c b = (case buffers c b of None \<Rightarrow> Inl Invalid_access | Some buf \<Rightarrow> Inr buf)"

definition buffer_length_at :: "cache_t \<Rightarrow> nat \<Rightarrow> (proxy_stop, nat) res" where
  "buffer_length_at c b = bindE (buffer_at c b) (\<lambda>buf. Inr (buf_length buf))"

definition acquire :: "bool \<Rightarrow> bool \<Rightarrow> (proxy_stop, unit) res" where
  "acquire detects held = assertE (held \<longrightarrow> detects) Deadlock"

definition wrlock :: "bool \<Rightarrow> cache_t \<Rightarrow> (proxy_stop, cache_t) res" where
  "wrlock detects c = bindE (acquire detects (lock c)) (\<lambda>_. Inr (c\<lparr>lock := True\<rparr>))"

definition unlock :: "cache_t \<Rightarrow> cache_t" where
  "unlock c = c\<lparr>lock := False\<rparr>"

section \<open>Hashing\<close>

text \<open>The hash is kept in 8 bits, so that only the first 256 bins are ever used.\<close>

fun hash_from :: "8 word \<Rightarrow> string \<Rightarrow> 8 word" where
  "hash_from h [] = h"
| "hash_from h (c # cs) = (if c = CHR 0x00 then h else hash_from ((push_bit 5 h + h) + word_of_int (schar c)) cs)"

definition hash :: "string \<Rightarrow> nat" where
  "hash s = unat (hash_from (word_of_nat 5381) s) mod BINS"

section \<open>Creating the structures\<close>

definition init_node :: "(nat \<Rightarrow> bool) \<Rightarrow> nat \<times> string \<Rightarrow> nat \<Rightarrow> cache_t \<Rightarrow> (proxy_stop, nat \<times> cache_t) res" where
  "init_node grants k v c =
     bindE (assertE (grants 48) Assert_failed) (\<lambda>_.
     Inr (fresh_address c,
       c\<lparr>nodes := (nodes c)(fresh_address c \<mapsto>
            \<lparr>prev = None, next_node = None, hash_table_prev = None, hash_table_next = None, key = k, value = v\<rparr>),
         fresh_address := fresh_address c + 1\<rparr>))"

definition init_queue :: "(nat \<Rightarrow> bool) \<Rightarrow> (proxy_stop, queue_t) res" where
  "init_queue grants = bindE (assertE (grants 24) Assert_failed) (\<lambda>_. Inr \<lparr>queue_size = 0, front = None, back_node = None\<rparr>)"

definition init_hash_table :: "(nat \<Rightarrow> bool) \<Rightarrow> (proxy_stop, hash_table_t) res" where
  "init_hash_table grants =
     bindE (assertE (grants 16) Assert_failed) (\<lambda>_.
     bindE (assertE (grants (BINS * 8)) Assert_failed) (\<lambda>_.
     Inr \<lparr>table_capacity = BINS, arr = (\<lambda>_. None)\<rparr>))"

definition init_cache :: "(nat \<Rightarrow> bool) \<Rightarrow> (proxy_stop, cache_t) res" where
  "init_cache grants =
     bindE (assertE (grants 80) Assert_failed) (\<lambda>_.
     bindE (init_queue grants) (\<lambda>q.
     bindE (init_hash_table grants) (\<lambda>t.
     Inr \<lparr>cache_size = 0, lock = False, cache_queue = q, hash_table = t, nodes = Map.empty, buffers = Map.empty, fresh_address = 0\<rparr>)))"

section \<open>The queue\<close>

definition is_empty :: "queue_t \<Rightarrow> bool" where
  "is_empty q \<longleftrightarrow> back_node q = None"

text \<open>\<open>held\<close> is the state of the copy of the lock that the caller passes.\<close>

definition dequeue :: "bool \<Rightarrow> bool \<Rightarrow> cache_t \<Rightarrow> (proxy_stop, node_ptr \<times> cache_t) res" where
  "dequeue detects held c =
     (if is_empty (cache_queue c) then Inr (None, c)
      else bindE (acquire detects held) (\<lambda>_.
        if front (cache_queue c) = back_node (cache_queue c)
        then Inr (front (cache_queue c), c\<lparr>cache_queue := (cache_queue c)\<lparr>front := None\<rparr>\<rparr>)
        else bindE (node_at c (back_node (cache_queue c))) (\<lambda>n.
          bindE (case prev n of None \<Rightarrow> Inr c | Some a \<Rightarrow> set_node a (\<lambda>m. m\<lparr>next_node := None\<rparr>) c) (\<lambda>c'.
          Inr (prev n, c'\<lparr>cache_queue := (cache_queue c')\<lparr>queue_size := wrap64 (queue_size (cache_queue c') + 2 ^ 64 - 1)\<rparr>\<rparr>)))))"

text \<open>The stores of \<open>queue_update\<close>, in the order of the code: unlink the node, then put it at the front.\<close>

definition unlink_node :: "nat \<Rightarrow> cache_t \<Rightarrow> (proxy_stop, cache_t) res" where
  "unlink_node a c =
     bindE (node_at c (Some a)) (\<lambda>n.
     bindE (case prev n of None \<Rightarrow> Inl Invalid_access | Some p \<Rightarrow> set_node p (\<lambda>m. m\<lparr>next_node := next_node n\<rparr>) c) (\<lambda>c1.
     bindE (node_at c1 (Some a)) (\<lambda>n1.
     case next_node n1 of None \<Rightarrow> Inr c1 | Some s \<Rightarrow> set_node s (\<lambda>m. m\<lparr>prev := prev n1\<rparr>) c1)))"

definition move_back :: "nat \<Rightarrow> cache_t \<Rightarrow> (proxy_stop, cache_t) res" where
  "move_back a c =
     (if Some a = back_node (cache_queue c)
      then bindE (node_at c (Some a)) (\<lambda>n.
        case prev n of None \<Rightarrow> Inl Invalid_access
        | Some p \<Rightarrow> set_node p (\<lambda>m. m\<lparr>next_node := None\<rparr>) (c\<lparr>cache_queue := (cache_queue c)\<lparr>back_node := Some p\<rparr>\<rparr>))
      else Inr c)"

definition put_front :: "nat \<Rightarrow> cache_t \<Rightarrow> (proxy_stop, cache_t) res" where
  "put_front a c =
     bindE (set_node a (\<lambda>n. n\<lparr>next_node := front (cache_queue c)\<rparr>) c) (\<lambda>c1.
     bindE (set_node a (\<lambda>n. n\<lparr>prev := None\<rparr>) c1) (\<lambda>c2.
     bindE (case front (cache_queue c) of None \<Rightarrow> Inl Invalid_access | Some f \<Rightarrow> set_node f (\<lambda>n. n\<lparr>prev := Some a\<rparr>) c2) (\<lambda>c3.
     Inr (c3\<lparr>cache_queue := (cache_queue c3)\<lparr>front := Some a\<rparr>\<rparr>))))"

definition queue_update :: "bool \<Rightarrow> nat \<Rightarrow> cache_t \<Rightarrow> (proxy_stop, cache_t) res" where
  "queue_update detects a c0 =
     bindE (wrlock detects c0) (\<lambda>c.
     if Some a = front (cache_queue c) then Inr (unlock c)
     else bindE (unlink_node a c) (\<lambda>c1. bindE (move_back a c1) (\<lambda>c2. bindE (put_front a c2) (\<lambda>c3. Inr (unlock c3)))))"

definition peek_front :: "cache_t \<Rightarrow> (proxy_stop, nat) res" where
  "peek_front c = bindE (node_at c (front (cache_queue c))) (\<lambda>n. Inr (value n))"

definition enqueue :: "bool \<Rightarrow> bool \<Rightarrow> nat \<Rightarrow> cache_t \<Rightarrow> (proxy_stop, cache_t) res" where
  "enqueue detects held a c =
     bindE (acquire detects held) (\<lambda>_.
     bindE (set_node a (\<lambda>n. n\<lparr>next_node := front (cache_queue c)\<rparr>) c) (\<lambda>c1.
     bindE (if is_empty (cache_queue c1) then Inr (c1\<lparr>cache_queue := (cache_queue c1)\<lparr>back_node := Some a, front := Some a\<rparr>\<rparr>)
            else bindE (case front (cache_queue c1) of None \<Rightarrow> Inl Invalid_access | Some f \<Rightarrow> set_node f (\<lambda>n. n\<lparr>prev := Some a\<rparr>) c1) (\<lambda>c2.
                 Inr (c2\<lparr>cache_queue := (cache_queue c2)\<lparr>front := Some a\<rparr>\<rparr>))) (\<lambda>c3.
     Inr (c3\<lparr>cache_queue := (cache_queue c3)\<lparr>queue_size := wrap64 (queue_size (cache_queue c3) + 1)\<rparr>\<rparr>))))"

section \<open>The cache\<close>

text \<open>The bin of the key is freed with the whole table cell, whichever node it holds; freeing a freed node stops the run.\<close>

definition cache_remove :: "bool \<Rightarrow> cache_t \<Rightarrow> (proxy_stop, nat \<times> cache_t) res" where
  "cache_remove detects c =
     bindE (node_at c (back_node (cache_queue c))) (\<lambda>n.
     let hashed_key = hash (snd (key n)) mod 256 in
     bindE (dequeue detects (lock c) c) (\<lambda>(_, c1).
     bindE (case arr (hash_table c1) hashed_key of None \<Rightarrow> Inr c1
            | Some a \<Rightarrow> bindE (node_at c1 (Some a)) (\<lambda>_. Inr (c1\<lparr>nodes := (nodes c1)(a := None)\<rparr>))) (\<lambda>c2.
     Inr (value n, c2\<lparr>hash_table := (hash_table c2)\<lparr>arr := (arr (hash_table c2))(hashed_key := None)\<rparr>\<rparr>))))"

fun evict :: "bool \<Rightarrow> nat \<Rightarrow> nat \<Rightarrow> cache_t \<Rightarrow> (proxy_stop, cache_t) res" where
  "evict detects fuel v c =
     bindE (buffer_length_at c v) (\<lambda>len.
     if MAX_CACHE_SIZE \<le> wrap64 (cache_size c + len)
     then (case fuel of 0 \<Rightarrow> Inl Out_of_fuel
           | Suc k \<Rightarrow> bindE (cache_remove detects c) (\<lambda>(removed_buffer, c1).
               bindE (buffer_length_at c1 removed_buffer) (\<lambda>removed.
               evict detects k v (c1\<lparr>cache_size := wrap64 (cache_size c1 + (2 ^ 64 - removed mod 2 ^ 64))\<rparr>))))
     else Inr c)"

declare evict.simps [simp del]

text \<open>The last node of the chain that starts at a node.\<close>

fun last_node :: "nat \<Rightarrow> cache_t \<Rightarrow> nat \<Rightarrow> (proxy_stop, nat) res" where
  "last_node 0 c a = Inl Out_of_fuel"
| "last_node (Suc k) c a = bindE (node_at c (Some a)) (\<lambda>n. case hash_table_next n of None \<Rightarrow> Inr a | Some b \<Rightarrow> last_node k c b)"

definition cache_insert :: "(nat \<Rightarrow> bool) \<Rightarrow> bool \<Rightarrow> nat \<Rightarrow> nat \<times> string \<Rightarrow> nat \<Rightarrow> cache_t \<Rightarrow> (proxy_stop, node_ptr \<times> cache_t) res" where
  "cache_insert grants detects fuel k v c0 =
     bindE (wrlock detects c0) (\<lambda>c1.
     bindE (init_node grants k v c1) (\<lambda>(a, c2).
     let hashed_key = hash (snd k) mod 256; head = arr (hash_table c2) hashed_key in
     bindE (buffer_length_at c2 v) (\<lambda>len.
     if MAX_OBJECT_SIZE \<le> len then Inr (None, c2)
     else bindE (evict detects fuel v c2) (\<lambda>c3.
       bindE (case head of
                None \<Rightarrow> Inr (c3\<lparr>hash_table := (hash_table c3)\<lparr>arr := (arr (hash_table c3))(hashed_key := Some a)\<rparr>\<rparr>)
              | Some h \<Rightarrow> bindE (last_node fuel c3 h) (\<lambda>l. set_node l (\<lambda>n. n\<lparr>hash_table_next := Some a\<rparr>) c3)) (\<lambda>c4.
       bindE (buffer_length_at c4 v) (\<lambda>len'.
       let c5 = unlock (c4\<lparr>cache_size := wrap64 (cache_size c4 + len')\<rparr>) in
       bindE (enqueue detects (lock c5) a c5) (\<lambda>c6. Inr (Some a, c6))))))))"

text \<open>Keys are compared as pointers.\<close>

fun find_key :: "nat \<Rightarrow> cache_t \<Rightarrow> nat \<Rightarrow> node_ptr \<Rightarrow> (proxy_stop, node_ptr) res" where
  "find_key fuel c k None = Inr None"
| "find_key 0 c k (Some a) = Inl Out_of_fuel"
| "find_key (Suc f) c k (Some a) = bindE (node_at c (Some a)) (\<lambda>n. if fst (key n) = k then Inr (Some a) else find_key f c k (hash_table_next n))"

definition contains :: "bool \<Rightarrow> nat \<Rightarrow> nat \<times> string \<Rightarrow> bool \<Rightarrow> cache_t \<Rightarrow> (proxy_stop, node_ptr) res" where
  "contains detects fuel k held c =
     bindE (acquire detects held) (\<lambda>_. find_key fuel c (fst k) (arr (hash_table c) (hash (snd k) mod 256)))"

definition get_lock :: "cache_t \<Rightarrow> bool" where
  "get_lock c = lock c"

definition get_queue :: "cache_t \<Rightarrow> queue_t" where
  "get_queue c = cache_queue c"

section \<open>Freeing the cache\<close>

fun free_chain :: "nat \<Rightarrow> node_ptr \<Rightarrow> cache_t \<Rightarrow> (proxy_stop, cache_t) res" where
  "free_chain fuel None c = Inr c"
| "free_chain 0 (Some a) c = Inl Out_of_fuel"
| "free_chain (Suc f) (Some a) c =
     bindE (node_at c (Some a)) (\<lambda>n.
     bindE (buffer_at c (value n)) (\<lambda>_.
     free_chain f (hash_table_next n) (c\<lparr>buffers := (buffers c)(value n := None), nodes := (nodes c)(a := None)\<rparr>)))"

fun free_bins :: "nat \<Rightarrow> nat list \<Rightarrow> cache_t \<Rightarrow> (proxy_stop, cache_t) res" where
  "free_bins fuel [] c = Inr c"
| "free_bins fuel (i # is) c = bindE (free_chain fuel (arr (hash_table c) i) c) (\<lambda>c1. free_bins fuel is c1)"

definition free_hash_table :: "nat \<Rightarrow> cache_t \<Rightarrow> (proxy_stop, cache_t) res" where
  "free_hash_table fuel c = free_bins fuel [0..<table_capacity (hash_table c)] c"

definition free_cache :: "nat \<Rightarrow> cache_t \<Rightarrow> (proxy_stop, unit) res" where
  "free_cache fuel c = bindE (free_hash_table fuel c) (\<lambda>_. Inr ())"

end
