(* ===== verification/Proxy_Queue.thy ===== *)
theory Proxy_Queue
  imports Proxy_Cache
begin

text \<open>
  The queue of the proxy's cache as a list: \<open>queue_is c xs\<close> says that the links of the nodes and the two end pointers represent the
  addresses \<open>xs\<close>, most recently used first. Against it the operations are checked: putting a new node in front, moving a node to the
  front, and what taking the last one really does.
\<close>

section \<open>Doubly linked segments\<close>

definition head_ptr :: "nat list \<Rightarrow> node_ptr \<Rightarrow> node_ptr" where
  "head_ptr xs d = (case xs of [] \<Rightarrow> d | a # _ \<Rightarrow> Some a)"

definition last_ptr :: "node_ptr \<Rightarrow> nat list \<Rightarrow> node_ptr" where
  "last_ptr d xs = (if xs = [] then d else Some (List.last xs))"

fun dseg :: "(nat \<Rightarrow> cache_node_t option) \<Rightarrow> node_ptr \<Rightarrow> nat list \<Rightarrow> node_ptr \<Rightarrow> bool" where
  "dseg h p [] q \<longleftrightarrow> True"
| "dseg h p (a # as) q \<longleftrightarrow> (\<exists>n. h a = Some n \<and> prev n = p \<and> next_node n = head_ptr as q) \<and> dseg h (Some a) as q"

definition queue_is :: "cache_t \<Rightarrow> nat list \<Rightarrow> bool" where
  "queue_is c xs \<longleftrightarrow> distinct xs \<and> dseg (nodes c) None xs None \<and> front (cache_queue c) = head_ptr xs None \<and>
     back_node (cache_queue c) = last_ptr None xs"

text \<open>What the links leave alone: liveness, key, value and the chain of every node.\<close>

definition unlinked :: "(nat \<Rightarrow> cache_node_t option) \<Rightarrow> nat \<Rightarrow> cache_node_t option" where
  "unlinked h a = map_option (\<lambda>n. n\<lparr>prev := None, next_node := None\<rparr>) (h a)"

lemma ptr_simps [simp]:
  "head_ptr [] d = d" "head_ptr (a # as) d = Some a" "last_ptr d [] = d" "last_ptr d (as @ [a]) = Some a" "last_ptr d [a] = Some a"
  "head_ptr (head @ a # as) d = head_ptr head (Some a)" "last_ptr d (a # b # as) = last_ptr d (b # as)"
  by (simp_all add: head_ptr_def last_ptr_def split: list.split)

lemma head_ptr_in: "xs \<noteq> [] \<Longrightarrow> head_ptr xs d = Some a \<Longrightarrow> a \<in> set xs"
  by (cases xs) auto

lemma last_ptr_append [simp]: "last_ptr d (as @ b # bs) = last_ptr d (b # bs)"
  by (simp add: last_ptr_def)

lemma dseg_append: "dseg h p (as @ bs) q \<longleftrightarrow> dseg h p as (head_ptr bs q) \<and> dseg h (last_ptr p as) bs q"
  by (induction as arbitrary: p) (auto split: option.splits simp: head_ptr_def last_ptr_def split: list.splits)

lemma dseg_cong: "(\<And>a. a \<in> set as \<Longrightarrow> h' a = h a) \<Longrightarrow> dseg h' p as q = dseg h p as q"
  by (induction as arbitrary: p) auto

lemma dseg_upd [simp]: "a \<notin> set as \<Longrightarrow> dseg (h(a := x)) p as q = dseg h p as q"
  by (rule dseg_cong) auto

lemma dseg_live: "dseg h p as q \<Longrightarrow> a \<in> set as \<Longrightarrow> \<exists>n. h a = Some n"
  by (induction as arbitrary: p) (auto split: option.splits)

lemma dseg_new_prev: "dseg h p (s # as) q \<Longrightarrow> s \<notin> set as \<Longrightarrow> h s = Some n \<Longrightarrow> dseg (h(s \<mapsto> n\<lparr>prev := p'\<rparr>)) p' (s # as) q"
  by simp

lemma dseg_new_next: "dseg h p (as @ [t]) q \<Longrightarrow> t \<notin> set as \<Longrightarrow> h t = Some n \<Longrightarrow> dseg (h(t \<mapsto> n\<lparr>next_node := q'\<rparr>)) p (as @ [t]) q'"
  by (simp add: dseg_append)

lemma set_node_Some: "nodes c a = Some n \<Longrightarrow> set_node a f c = Inr (c\<lparr>nodes := (nodes c)(a \<mapsto> f n)\<rparr>)"
  by (simp add: set_node_def node_at_def)

lemma node_at_Some: "nodes c a = Some n \<Longrightarrow> node_at c (Some a) = Inr n"
  by (simp add: node_at_def)

section \<open>A new node goes to the front\<close>

lemma enqueue_spec:
  assumes "queue_is c xs" "a \<notin> set xs" "nodes c a = Some n" "prev n = None" "held \<longrightarrow> detects"
  obtains c' where "enqueue detects held a c = Inr c'" "queue_is c' (a # xs)" "unlinked (nodes c') = unlinked (nodes c)"
    "cache_size c' = cache_size c" "lock c' = lock c" "hash_table c' = hash_table c" "buffers c' = buffers c" "fresh_address c' = fresh_address c"
proof (cases xs)
  case Nil
  let ?c = "c\<lparr>nodes := (nodes c)(a \<mapsto> n\<lparr>next_node := front (cache_queue c)\<rparr>),
    cache_queue := (cache_queue c)\<lparr>back_node := Some a, front := Some a, queue_size := wrap64 (queue_size (cache_queue c) + 1)\<rparr>\<rparr>"
  have "enqueue detects held a c = Inr ?c"
    using assms Nil by (simp add: enqueue_def acquire_def assertE_def set_node_Some is_empty_def queue_is_def)
  moreover have "queue_is ?c (a # xs)" "unlinked (nodes ?c) = unlinked (nodes c)"
    using assms Nil by (auto simp: queue_is_def unlinked_def)
  ultimately show thesis by (intro that [of ?c]) auto
next
  case (Cons f ys)
  then obtain m where m: "nodes c f = Some m" using assms(1) dseg_live [of "nodes c" None xs None f] by (auto simp: queue_is_def)
  let ?h = "(nodes c)(a \<mapsto> n\<lparr>next_node := Some f\<rparr>, f \<mapsto> m\<lparr>prev := Some a\<rparr>)"
  let ?c = "c\<lparr>nodes := ?h, cache_queue := (cache_queue c)\<lparr>front := Some a, queue_size := wrap64 (queue_size (cache_queue c) + 1)\<rparr>\<rparr>"
  have bk: "back_node (cache_queue c) \<noteq> None" using assms(1) Cons by (simp add: queue_is_def last_ptr_def)
  have fr: "front (cache_queue c) = Some f" using assms(1) Cons by (simp add: queue_is_def)
  have "f \<noteq> a" using assms(2) Cons by auto
  then have run: "enqueue detects held a c = Inr ?c"
    using assms(3,5) bk fr m by (auto simp: enqueue_def acquire_def assertE_def set_node_Some is_empty_def)
  have "dseg (nodes c) None (f # ys) None" "f \<notin> set ys" using assms(1) Cons by (auto simp: queue_is_def)
  then have "dseg ?h (Some a) (f # ys) None"
    using assms(2) Cons m by (simp add: fun_upd_twist)
  then have "queue_is ?c (a # xs)" using assms Cons \<open>f \<noteq> a\<close> by (simp add: queue_is_def last_ptr_def)
  moreover have "unlinked (nodes ?c) = unlinked (nodes c)" using assms(3) m \<open>f \<noteq> a\<close> by (auto simp: unlinked_def fun_eq_iff)
  ultimately show thesis using run by (intro that [of ?c]) auto
qed

section \<open>A used node moves to the front\<close>

text \<open>Unlinking: the list without the node, which keeps its own fields.\<close>

lemma unlink_spec:
  assumes q: "queue_is c (ys @ a # zs)" and ys: "ys \<noteq> []"
  obtains c' where "bindE (unlink_node a c) (move_back a) = Inr c'" "queue_is c' (ys @ zs)" "nodes c' a = nodes c a"
    "unlinked (nodes c') = unlinked (nodes c)" "cache_size c' = cache_size c" "hash_table c' = hash_table c" "buffers c' = buffers c"
    "fresh_address c' = fresh_address c"
proof -
  obtain us p where us: "ys = us @ [p]" using ys by (metis rev_exhaust)
  have d: "distinct (us @ p # a # zs)" "dseg (nodes c) None (us @ [p]) (Some a)" "dseg (nodes c) (Some p) (a # zs) None"
    using q by (simp_all add: queue_is_def us dseg_append)
  obtain n m where n: "nodes c a = Some n" "prev n = Some p" "next_node n = head_ptr zs None" and m: "nodes c p = Some m"
    using d(2,3) by (auto simp: dseg_append split: option.splits)
  have fr: "front (cache_queue c) = head_ptr (ys @ zs) None" using q by (simp add: queue_is_def us)
  let ?h = "(nodes c)(p \<mapsto> m\<lparr>next_node := head_ptr zs None\<rparr>)"
  have seg: "dseg ?h None (us @ [p]) (head_ptr zs None)" using dseg_new_next [OF d(2) _ m] d(1) by simp
  show thesis
  proof (cases zs)
    case Nil
    let ?c = "c\<lparr>nodes := ?h, cache_queue := (cache_queue c)\<lparr>back_node := Some p\<rparr>\<rparr>"
    have "back_node (cache_queue c) = Some a" using q Nil by (simp add: queue_is_def)
    then have "bindE (unlink_node a c) (move_back a) = Inr ?c"
      using n m d(1) Nil by (auto simp: unlink_node_def move_back_def set_node_def node_at_def)
    moreover have "queue_is ?c (ys @ zs)" using seg fr Nil us d(1) by (simp add: queue_is_def)
    moreover have "unlinked (nodes ?c) = unlinked (nodes c)" using m by (auto simp: unlinked_def fun_eq_iff)
    ultimately show thesis using d(1) by (intro that [of ?c]) auto
  next
    case (Cons s ws)
    obtain k where k: "nodes c s = Some k" using d(3) Cons by (auto split: option.splits)
    let ?g = "?h(s \<mapsto> k\<lparr>prev := Some p\<rparr>)"
    let ?c = "c\<lparr>nodes := ?g\<rparr>"
    have dis: "s \<noteq> p" "s \<noteq> a" "p \<noteq> a" "s \<notin> set ws" "p \<notin> set ws" "s \<notin> set us" using d(1) Cons by auto
    have bk: "back_node (cache_queue c) = last_ptr None (s # ws)" using q Cons by (simp add: queue_is_def)
    then have "back_node (cache_queue c) \<noteq> Some a" using d(1) Cons by (auto simp: last_ptr_def split: if_splits)
    then have "bindE (unlink_node a c) (move_back a) = Inr ?c"
      using n m k dis Cons by (auto simp: unlink_node_def move_back_def set_node_def node_at_def)
    moreover have "queue_is ?c (ys @ zs)"
    proof -
      have "dseg ?h (Some a) (s # ws) None" using d(3) Cons dis by simp
      then have "dseg ?g (Some p) (s # ws) None" using dseg_new_prev [of ?h "Some a" s ws None k] dis k by simp
      moreover have "dseg ?g None (us @ [p]) (Some s)" using seg Cons dis by simp
      ultimately show ?thesis using fr bk Cons us d(1) by (simp add: queue_is_def dseg_append)
    qed
    moreover have "unlinked (nodes ?c) = unlinked (nodes c)" using m k dis by (auto simp: unlinked_def fun_eq_iff)
    ultimately show thesis using dis by (intro that [of ?c]) auto
  qed
qed

lemma put_front_spec:
  assumes q: "queue_is c xs" and a: "a \<notin> set xs" "nodes c a = Some n" and ne: "xs \<noteq> []"
  obtains c' where "put_front a c = Inr c'" "queue_is c' (a # xs)" "unlinked (nodes c') = unlinked (nodes c)"
    "cache_size c' = cache_size c" "hash_table c' = hash_table c" "buffers c' = buffers c" "fresh_address c' = fresh_address c"
proof -
  obtain f ys where f: "xs = f # ys" using ne by (cases xs) auto
  then obtain m where m: "nodes c f = Some m" using q dseg_live [of "nodes c" None xs None f] by (auto simp: queue_is_def)
  let ?h = "(nodes c)(a \<mapsto> n\<lparr>next_node := Some f, prev := None\<rparr>, f \<mapsto> m\<lparr>prev := Some a\<rparr>)"
  let ?c = "c\<lparr>nodes := ?h, cache_queue := (cache_queue c)\<lparr>front := Some a\<rparr>\<rparr>"
  have fr: "front (cache_queue c) = Some f" "f \<noteq> a" using q f a by (auto simp: queue_is_def)
  have run: "put_front a c = Inr ?c" using a(2) fr m by (simp add: put_front_def set_node_def node_at_def)
  have "dseg (nodes c) None (f # ys) None" "f \<notin> set ys" using q f by (auto simp: queue_is_def)
  then have "dseg ?h (Some a) (f # ys) None" using a f m by (simp add: fun_upd_twist)
  then have "queue_is ?c (a # xs)" using q a f fr by (simp add: queue_is_def last_ptr_def)
  moreover have "unlinked (nodes ?c) = unlinked (nodes c)" using a(2) m fr by (auto simp: unlinked_def fun_eq_iff)
  ultimately show thesis using run by (intro that [of ?c]) auto
qed

lemma queue_is_lock [simp]: "queue_is (c\<lparr>lock := l\<rparr>) xs = queue_is c xs"
  by (simp add: queue_is_def)

text \<open>C30. Using a node of the cache moves it to the front of the queue, the others keeping their order; nothing else changes, and the
  lock is free again.\<close>

theorem queue_update_spec:
  assumes q: "queue_is c xs" and a: "a \<in> set xs" and free: "lock c \<longrightarrow> detects"
  shows "\<exists>c'. queue_update detects a c = Inr c' \<and> queue_is c' (a # remove1 a xs) \<and> \<not> lock c' \<and>
    unlinked (nodes c') = unlinked (nodes c) \<and> cache_size c' = cache_size c \<and> hash_table c' = hash_table c \<and> buffers c' = buffers c"
proof -
  obtain ys zs where xs: "xs = ys @ a # zs" "a \<notin> set ys" using a by (meson split_list_first)
  have lk: "wrlock detects c = Inr (c\<lparr>lock := True\<rparr>)" using free by (simp add: wrlock_def acquire_def assertE_def)
  let ?c = "c\<lparr>lock := True\<rparr>"
  show ?thesis
  proof (cases "ys = []")
    case True
    then have "front (cache_queue c) = Some a" using q xs by (simp add: queue_is_def)
    then show ?thesis using lk q xs True by (simp add: queue_update_def unlock_def)
  next
    case False
    have q': "queue_is ?c (ys @ a # zs)" using q xs by simp
    have fr: "Some a \<noteq> front (cache_queue c)" using q xs False head_ptr_in [of ys "Some a" a] by (auto simp: queue_is_def)
    obtain c1 where c1: "bindE (unlink_node a ?c) (move_back a) = Inr c1" "queue_is c1 (ys @ zs)" "nodes c1 a = nodes ?c a"
      "unlinked (nodes c1) = unlinked (nodes ?c)" "cache_size c1 = cache_size ?c" "hash_table c1 = hash_table ?c" "buffers c1 = buffers ?c"
      by (rule unlink_spec [OF q' False]) (rule that)
    obtain n where n: "nodes c1 a = Some n" using c1(3) dseg_live [of "nodes c" None xs None a] q a by (auto simp: queue_is_def)
    have out: "a \<notin> set (ys @ zs)" "ys @ zs \<noteq> []" using q xs False by (auto simp: queue_is_def)
    obtain c2 where c2: "put_front a c1 = Inr c2" "queue_is c2 (a # ys @ zs)" "unlinked (nodes c2) = unlinked (nodes c1)"
      "cache_size c2 = cache_size c1" "hash_table c2 = hash_table c1" "buffers c2 = buffers c1"
      by (rule put_front_spec [OF c1(2) out(1) n out(2)]) (rule that)
    have "queue_update detects a c = bindE (bindE (unlink_node a ?c) (move_back a)) (\<lambda>c2. bindE (put_front a c2) (\<lambda>c3. Inr (unlock c3)))"
      using lk fr by (simp add: queue_update_def bindE_assoc)
    then have "queue_update detects a c = Inr (unlock c2)" using c1(1) c2(1) by simp
    moreover have "remove1 a xs = ys @ zs" using xs by (simp add: remove1_append)
    ultimately show ?thesis using c1 c2 by (simp add: unlock_def)
  qed
qed

section \<open>Taking the last node\<close>

text \<open>Of a queue of two nodes or more, \<open>dequeue\<close> returns the last node but one and cuts its link, but the pointer to the end of the
  queue still leads to the last one: what remains is no queue, and the next call returns the same node.\<close>

theorem dequeue_keeps_the_end:
  assumes "queue_is c (xs @ [b, a])" "held \<longrightarrow> detects"
  shows "\<exists>c'. dequeue detects held c = Inr (Some b, c') \<and> back_node (cache_queue c') = Some a \<and> front (cache_queue c') \<noteq> Some a \<and>
    (\<exists>n. nodes c' b = Some n \<and> next_node n = None) \<and> (\<exists>c''. dequeue detects held c' = Inr (Some b, c''))"
proof -
  obtain n m where n: "nodes c a = Some n" "prev n = Some b" and m: "nodes c b = Some m"
    using assms(1) by (auto simp: queue_is_def dseg_append)
  have e: "back_node (cache_queue c) = Some a" "front (cache_queue c) \<noteq> Some a" "b \<noteq> a"
    using assms(1) head_ptr_in [of "xs @ [b]" "Some a" a] by (auto simp: queue_is_def)
  let ?q = "(cache_queue c)\<lparr>queue_size := wrap64 (queue_size (cache_queue c) + 2 ^ 64 - 1)\<rparr>"
  let ?c = "c\<lparr>nodes := (nodes c)(b \<mapsto> m\<lparr>next_node := None\<rparr>), cache_queue := ?q\<rparr>"
  have "dequeue detects held c = Inr (Some b, ?c)"
    using assms(2) e n m by (auto simp: dequeue_def is_empty_def acquire_def assertE_def node_at_def set_node_def)
  moreover have "\<exists>c''. dequeue detects held ?c = Inr (Some b, c'')"
    using assms(2) e n m by (auto simp: dequeue_def is_empty_def acquire_def assertE_def node_at_def set_node_def)
  ultimately show ?thesis using e by auto
qed

section \<open>An example\<close>

definition sample_node :: "node_ptr \<Rightarrow> node_ptr \<Rightarrow> cache_node_t" where
  "sample_node p q = \<lparr>prev = p, next_node = q, hash_table_prev = None, hash_table_next = None, key = (9, ''k''), value = 10\<rparr>"

definition sample_queue :: cache_t where
  "sample_queue =
     \<lparr>cache_size = 30, lock = False, cache_queue = \<lparr>queue_size = 3, front = Some 2, back_node = Some 0\<rparr>,
      hash_table = \<lparr>table_capacity = BINS, arr = (\<lambda>_. None)\<rparr>,
      nodes = [0 \<mapsto> sample_node (Some 1) None, 1 \<mapsto> sample_node (Some 2) (Some 0), 2 \<mapsto> sample_node None (Some 1)],
      buffers = Map.empty, fresh_address = 11\<rparr>"

lemma sample_queue_is: "queue_is sample_queue [2, 1, 0]"
  by (simp add: queue_is_def sample_queue_def sample_node_def)

theorem queue_update_spec_witness:
  "\<exists>c'. queue_update False 0 sample_queue = Inr c' \<and> queue_is c' (0 # remove1 0 [2, 1, 0]) \<and> \<not> lock c' \<and>
    unlinked (nodes c') = unlinked (nodes sample_queue) \<and> cache_size c' = cache_size sample_queue \<and>
    hash_table c' = hash_table sample_queue \<and> buffers c' = buffers sample_queue"
  by (rule queue_update_spec [OF sample_queue_is]) (simp_all add: sample_queue_def)

theorem dequeue_keeps_the_end_witness:
  "\<exists>c'. dequeue False False sample_queue = Inr (Some 1, c') \<and> back_node (cache_queue c') = Some 0 \<and> front (cache_queue c') \<noteq> Some 0 \<and>
    (\<exists>n. nodes c' 1 = Some n \<and> next_node n = None) \<and> (\<exists>c''. dequeue False False c' = Inr (Some 1, c''))"
  by (rule dequeue_keeps_the_end [of _ "[2]"]) (use sample_queue_is in simp_all)

end
