(* ===== verification/Proxy_Client.thy ===== *)
theory Proxy_Client
  imports Proxy_Cache
begin

text \<open>
  One request of the web proxy (\<open>project07-kweng/src/client_thread.c\<close>). A socket is what arrives on it, as the segments the network
  delivers (\<open>None\<close> is a read error, the end of the list the end of the stream), what its next writes accept (\<open>None\<close> is a write
  error, after the end of the list every write is accepted whole), what has been sent and whether it has been closed. The name service and
  the network behind \<open>open_client_fd\<close> are a parameter.
\<close>

section \<open>Sockets\<close>

record sock =
  incoming :: "string option list"
  accepts :: "nat option list"
  sent :: string
  closed :: bool

definition read_fd :: "nat \<Rightarrow> sock \<Rightarrow> string option \<times> sock" where
  "read_fd n s =
     (case incoming s of
        [] \<Rightarrow> (Some [], s)
      | None # r \<Rightarrow> (None, s\<lparr>incoming := r\<rparr>)
      | Some seg # r \<Rightarrow> (Some (take n seg), s\<lparr>incoming := (if length seg \<le> n then r else Some (drop n seg) # r)\<rparr>))"

text \<open>The bytes of a write that are taken, or \<open>None\<close> for its failure.\<close>

definition write_fd :: "string \<Rightarrow> sock \<Rightarrow> nat option \<times> sock" where
  "write_fd str s =
     (case accepts s of
        [] \<Rightarrow> (Some (length str), s\<lparr>sent := sent s @ str\<rparr>)
      | None # r \<Rightarrow> (None, s\<lparr>accepts := r\<rparr>)
      | Some k # r \<Rightarrow> (Some (min k (length str)), s\<lparr>accepts := r, sent := sent s @ take k str\<rparr>))"

definition close_fd :: "sock \<Rightarrow> sock" where
  "close_fd s = s\<lparr>closed := True\<rparr>"

definition pending :: "sock \<Rightarrow> nat" where
  "pending s = sum_list (map (\<lambda>x. case x of None \<Rightarrow> 1 | Some seg \<Rightarrow> Suc (length seg)) (incoming s))"

definition BUFFER_SIZE :: nat where "BUFFER_SIZE = 8192"

lemma read_fd_pending: "read_fd n s = (Some (c # cs), s') \<Longrightarrow> pending s' < pending s"
  by (cases n) (auto simp: read_fd_def pending_def split: list.splits option.splits if_splits)

section \<open>Writing\<close>

definition write_string :: "sock \<Rightarrow> string \<Rightarrow> bool \<times> sock" where
  "write_string s str = (case write_fd str s of (r, s') \<Rightarrow> (r \<noteq> None, s'))"

text \<open>Several writes, up to the first that fails.\<close>

fun write_all :: "sock \<Rightarrow> string list \<Rightarrow> bool \<times> sock" where
  "write_all s [] = (True, s)"
| "write_all s (t # ts) = (case write_string s t of (ok, s') \<Rightarrow> if ok then write_all s' ts else (False, s'))"

abbreviation "CRLF \<equiv> [CHR 0x0D, CHR 0x0A]"

definition status_format :: "string list" where
  "status_format =
     [''HTTP/1.0 '', CRLF @ ''Content-Type: text/html'' @ CRLF @ ''Connection: close'' @ CRLF @ CRLF @ ''<html>'' @ ''<head><title>'',
      ''</title></head>'' @ ''<body>'', ''</body>'' @ ''</html>'']"

definition status_message :: "string \<Rightarrow> string \<Rightarrow> string" where
  "status_message status msg =
     (status_format ! 0) @ status @ (status_format ! 1) @ status @ (status_format ! 2) @ msg @ (status_format ! 3)"

text \<open>The array for the message is as long as the format, its three conversions of two characters included, and the arguments; the
  message is stored with a zero byte behind it.\<close>

definition response_size :: "string \<Rightarrow> string \<Rightarrow> nat" where
  "response_size status msg = (sum_list (map length status_format) + 3 * 2) + 2 * length status + length msg"

definition send_status_code :: "sock \<Rightarrow> string \<Rightarrow> string \<Rightarrow> (proxy_stop, bool \<times> sock) res" where
  "send_status_code client status msg =
     bindE (assertE (length (status_message status msg) + 1 \<le> response_size status msg) Invalid_access) (\<lambda>_.
     Inr (write_string client (status_message status msg)))"

section \<open>Connecting to the server\<close>

datatype gai_error = EAI_FAIL | EAI_NONAME | EAI_AGAIN | EAI_NODATA | EAI_OTHER

datatype connection = No_socket | Unresolved gai_error | Refused | Connected sock

text \<open>\<open>atoi\<close> is \<open>strtol\<close> with base 10, cut down to the 32 bits of an \<open>int\<close>.\<close>

definition atoi :: "string \<Rightarrow> int" where
  "atoi s =
     (let (neg, s1) = strtol_sign (dropWhile isspace s);
          n = int (read_digits 10 0 s1);
          v = (if neg then - n else n)
      in sint (word_of_int (max (- (2 ^ 63)) (min (2 ^ 63 - 1) v)) :: 32 word))"

definition open_client_fd :: "(string \<Rightarrow> string \<Rightarrow> connection) \<Rightarrow> string \<Rightarrow> int \<Rightarrow> (proxy_stop, connection) res" where
  "open_client_fd net hostname port =
     bindE (assertE (length (show_int port) + 1 \<le> length (''65535'') + 1) Invalid_access) (\<lambda>_. Inr (net hostname (show_int port)))"

definition split_host :: "string \<Rightarrow> (string \<times> int) option" where
  "split_host full_host =
     (if CHR '':'' \<notin> set full_host then Some (full_host, 80)
      else let port = atoi (tl (dropWhile (\<lambda>c. c \<noteq> CHR '':'') full_host)) in
        if port \<le> 0 \<or> 65535 < port then None else Some (takeWhile (\<lambda>c. c \<noteq> CHR '':'') full_host, port))"

definition gai_message :: "gai_error \<Rightarrow> string option" where
  "gai_message e =
     (case e of
        EAI_FAIL \<Rightarrow> Some ''DNS could not resolve address.''
      | EAI_NONAME \<Rightarrow> Some ''DNS could not resolve address.''
      | EAI_AGAIN \<Rightarrow> Some ''DNS temporarily could not resolve address.''
      | EAI_NODATA \<Rightarrow> Some ''DNS could has no network addresses for host.''
      | EAI_OTHER \<Rightarrow> None)"

text \<open>The result is the server's socket, if there is one, the client's socket, and the host as it has been cut at the colon.\<close>

definition open_server_connection ::
  "(string \<Rightarrow> string \<Rightarrow> connection) \<Rightarrow> sock \<Rightarrow> string \<Rightarrow> (proxy_stop, sock option \<times> sock \<times> string) res" where
  "open_server_connection net client full_host =
     (let host = takeWhile (\<lambda>c. c \<noteq> CHR '':'') full_host in
      case split_host full_host of
        None \<Rightarrow> Inr (None, client, host)
      | Some (hostname, port) \<Rightarrow>
          bindE (open_client_fd net hostname port) (\<lambda>conn.
          case conn of
            Connected server \<Rightarrow> Inr (Some server, client, host)
          | Unresolved e \<Rightarrow>
              (case gai_message e of
                 None \<Rightarrow> Inr (None, client, host)
               | Some msg \<Rightarrow> bindE (send_status_code client ''502 Bad Gateway'' msg) (\<lambda>(_, client'). Inr (None, client', host)))
          | _ \<Rightarrow> Inr (None, client, host)))"

definition send_get_header :: "sock \<Rightarrow> string \<Rightarrow> bool \<times> sock" where
  "send_get_header server path = write_all server [''GET '', path, '' HTTP/1.0'' @ CRLF]"

section \<open>Reading lines\<close>

function read_line_from :: "(nat \<Rightarrow> bool) \<Rightarrow> char \<Rightarrow> buffer_t \<Rightarrow> sock \<Rightarrow> (proxy_stop, buffer_t option \<times> sock) res" where
  "read_line_from grants last_c line s =
     (case read_fd 1 s of
        (None, s') \<Rightarrow> Inr (None, s')
      | (Some [], s') \<Rightarrow> Inr (None, s')
      | (Some (c # _), s') \<Rightarrow>
          bindE (buffer_append_char grants c line) (\<lambda>line'.
          if last_c = CHR 0x0D \<and> c = CHR 0x0A then Inr (Some line', s') else read_line_from grants c line' s'))"
  by pat_completeness auto
termination
  by (relation "measure (\<lambda>(_, _, _, s). pending s)") (auto dest: read_fd_pending [OF sym])

declare read_line_from.simps [simp del]

definition read_full_line :: "(nat \<Rightarrow> bool) \<Rightarrow> sock \<Rightarrow> (proxy_stop, buffer_t option \<times> sock) res" where
  "read_full_line grants s = bindE (buffer_create grants BUFFER_SIZE) (\<lambda>line. read_line_from grants (CHR 0x00) line s)"

lemma read_line_from_pending: "read_line_from grants c line s = Inr (Some b, s') \<Longrightarrow> pending s' < pending s"
proof (induction grants c line s rule: read_line_from.induct)
  case (1 grants last_c line s)
  then show ?case
    by (subst (asm) (2) read_line_from.simps)
       (fastforce split: prod.splits option.splits list.splits if_splits simp: csplit dest: read_fd_pending)
qed

lemma read_full_line_pending: "read_full_line grants s = Inr (Some b, s') \<Longrightarrow> pending s' < pending s"
  by (auto simp: read_full_line_def csplit dest: read_line_from_pending)

section \<open>The request line\<close>

definition starts_with :: "string \<Rightarrow> string \<Rightarrow> bool" where
  "starts_with str prefix \<longleftrightarrow> take (length prefix) str = prefix"

text \<open>\<open>strtok_r\<close> with the delimiter \<open>' '\<close>: the next token, if any, and where the search goes on.\<close>

definition strtok_r :: "string \<Rightarrow> string option \<times> string" where
  "strtok_r s =
     (let t = dropWhile (\<lambda>c. c = CHR '' '') s in
      if t = [] then (None, [])
      else (Some (takeWhile (\<lambda>c. c \<noteq> CHR '' '') t), drop 1 (dropWhile (\<lambda>c. c \<noteq> CHR '' '') t)))"

datatype parsed_request = Malformed | Not_implemented | Request (req_host: string) (req_path: string)

definition parse_request :: "string \<Rightarrow> parsed_request" where
  "parse_request data =
     (let (prefix, s1) = strtok_r data; (url, s2) = strtok_r s1; (version, s3) = strtok_r s2 in
      case (prefix, url, version) of
        (Some p, Some u, Some v) \<Rightarrow>
          if fst (strtok_r s3) \<noteq> None then Malformed
          else if p \<noteq> ''GET'' then Not_implemented
          else if \<not> starts_with v ''HTTP/'' then Malformed
          else if \<not> starts_with u ''http://'' then Malformed
          else let host = drop (length ''http://'') u; path_start = dropWhile (\<lambda>c. c \<noteq> CHR ''/'') host in
            Request (takeWhile (\<lambda>c. c \<noteq> CHR ''/'') host) (if path_start = [] then ''/'' else path_start)
      | _ \<Rightarrow> Malformed)"

text \<open>The result is host and path of a request that is well formed, the client's socket and what is printed. \<open>strdup\<close> asks for the
  text and a zero byte.\<close>

definition make_get_header :: "(nat \<Rightarrow> bool) \<Rightarrow> sock \<Rightarrow> (proxy_stop, (string \<times> string) option \<times> sock \<times> string) res" where
  "make_get_header grants client =
     bindE (read_full_line grants client) (\<lambda>(buf, client1).
     bindE (case buf of None \<Rightarrow> Inr Malformed
            | Some b \<Rightarrow> bindE (buffer_string grants b) (\<lambda>b'. bindE (c_string_at (buf_data b')) (\<lambda>data. Inr (parse_request data)))) (\<lambda>req.
     case req of
       Malformed \<Rightarrow>
         bindE (send_status_code client1 ''400 Bad Request'' ''Invalid request sent to proxy.'') (\<lambda>(_, client2). Inr (None, client2, []))
     | Not_implemented \<Rightarrow>
         bindE (send_status_code client1 ''501 Not Implemented'' ''Invalid request sent to proxy.'') (\<lambda>(_, client2). Inr (None, client2, []))
     | Request host path \<Rightarrow>
         bindE (assertE (grants (length path + 1)) Assert_failed) (\<lambda>_.
         bindE (assertE (grants (length host + 1)) Assert_failed) (\<lambda>_.
         Inr (Some (host, path), client1, ''Handling Request: '' @ host @ path @ [CHR 0x0A])))))"

section \<open>The other headers\<close>

datatype header = Drop | Host_line | Connection_line | Proxy_line | Other_line

definition header_kind :: "string \<Rightarrow> header" where
  "header_kind line =
     (if starts_with line ''Keep-Alive:'' then Drop
      else if starts_with line ''Host:'' then Host_line
      else if starts_with line ''Connection:'' then Connection_line
      else if starts_with line ''Proxy-Connection:'' then Proxy_line
      else Other_line)"

definition header_sent :: "string \<Rightarrow> string" where
  "header_sent line =
     (case header_kind line of
        Connection_line \<Rightarrow> ''Connection: close'' @ CRLF
      | Proxy_line \<Rightarrow> ''Proxy-Connection: close'' @ CRLF
      | _ \<Rightarrow> line)"

definition finish_headers :: "bool \<Rightarrow> bool \<Rightarrow> string \<Rightarrow> sock \<Rightarrow> bool \<times> sock" where
  "finish_headers sent_host_header sent_connection_header host server =
     write_all server
       ((if sent_host_header then [] else [''Host: '', host, CRLF]) @
        (if sent_connection_header then [] else [''Connection: close'' @ CRLF]) @ [CRLF])"

function filter_from :: "(nat \<Rightarrow> bool) \<Rightarrow> bool \<Rightarrow> bool \<Rightarrow> sock \<Rightarrow> sock \<Rightarrow> string \<Rightarrow> (proxy_stop, bool \<times> sock \<times> sock) res" where
  "filter_from grants sent_host sent_connection client server host =
     bindE (read_full_line grants client) (\<lambda>r.
     case r of
       (None, client') \<Rightarrow> Inr (False, client', server)
     | (Some buf, client') \<Rightarrow>
         bindE (buffer_string grants buf) (\<lambda>b.
         bindE (c_string_at (buf_data b)) (\<lambda>line.
         if line = CRLF
         then (case finish_headers sent_host sent_connection host server of (ok, server') \<Rightarrow> Inr (ok, client', server'))
         else if header_kind line = Drop then filter_from grants sent_host sent_connection client' server host
         else (case write_string server (header_sent line) of
           (ok, server') \<Rightarrow>
             if ok then filter_from grants (sent_host \<or> header_kind line = Host_line) (sent_connection \<or> header_kind line = Connection_line)
                          client' server' host
             else Inr (False, client', server')))))"
  by pat_completeness auto
termination
  by (relation "measure (\<lambda>(_, _, _, client, _, _). pending client)") (auto dest: read_full_line_pending)

declare filter_from.simps [simp del]

definition filter_rest_headers :: "(nat \<Rightarrow> bool) \<Rightarrow> sock \<Rightarrow> sock \<Rightarrow> string \<Rightarrow> (proxy_stop, bool \<times> sock \<times> sock) res" where
  "filter_rest_headers grants client server host = filter_from grants False False client server host"

section \<open>The response\<close>

text \<open>One chunk of the response after it has been written to the client: it joins the buffer, and the buffer the cache.\<close>

definition cache_chunk :: "(nat \<Rightarrow> bool) \<Rightarrow> bool \<Rightarrow> nat \<Rightarrow> nat \<times> string \<Rightarrow> nat \<Rightarrow> string \<Rightarrow> cache_t \<Rightarrow> (proxy_stop, cache_t) res" where
  "cache_chunk grants detects fuel k b bytes c =
     bindE (buffer_at c b) (\<lambda>buf.
     bindE (buffer_append_bytes grants bytes buf) (\<lambda>buf'.
     bindE (cache_insert grants detects fuel k b (c\<lparr>buffers := (buffers c)(b \<mapsto> buf')\<rparr>)) (\<lambda>(node, c1).
     case node of
       None \<Rightarrow> Inr c1
     | Some a \<Rightarrow> bindE (queue_update detects a c1) (\<lambda>c2. bindE (peek_front c2) (\<lambda>_. Inr c2)))))"

function relay :: "(nat \<Rightarrow> bool) \<Rightarrow> bool \<Rightarrow> nat \<Rightarrow> nat \<times> string \<Rightarrow> nat \<Rightarrow> sock \<Rightarrow> sock \<Rightarrow> cache_t \<Rightarrow>
    (proxy_stop, bool \<times> sock \<times> sock \<times> cache_t) res" where
  "relay grants detects fuel k b client server c =
     (case read_fd BUFFER_SIZE server of
        (None, server') \<Rightarrow> Inr (False, client, server', c)
      | (Some [], server') \<Rightarrow> Inr (True, client, server', c)
      | (Some (x # xs), server') \<Rightarrow>
          (case write_fd (x # xs) client of
             (None, client') \<Rightarrow> Inr (False, client', server', c)
           | (Some written, client') \<Rightarrow>
               bindE (cache_chunk grants detects fuel k b (take written (x # xs)) c) (\<lambda>c'.
               relay grants detects fuel k b client' server' c')))"
  by pat_completeness auto
termination
  by (relation "measure (\<lambda>(_, _, _, _, _, _, server, _). pending server)") (auto dest: read_fd_pending [OF sym])

declare relay.simps [simp del]

text \<open>The key is a string of its own; with no memory for it, it is written through a null pointer.\<close>

definition send_response :: "(nat \<Rightarrow> bool) \<Rightarrow> bool \<Rightarrow> nat \<Rightarrow> sock \<Rightarrow> sock \<Rightarrow> string \<Rightarrow> string \<Rightarrow> cache_t \<Rightarrow>
    (proxy_stop, bool \<times> sock \<times> sock \<times> cache_t) res" where
  "send_response grants detects fuel client server host path c0 =
     bindE (assertE (grants (length host + length path + 1)) Invalid_access) (\<lambda>_.
     let k = (fresh_address c0, host @ path); c = c0\<lparr>fresh_address := fresh_address c0 + 1\<rparr> in
     bindE (contains detects fuel k (get_lock c) c) (\<lambda>node.
     case node of
       Some a \<Rightarrow> bindE (queue_update detects a c) (\<lambda>c1. bindE (peek_front c1) (\<lambda>_. Inr (True, client, server, c1)))
     | None \<Rightarrow>
         bindE (buffer_create grants BUFFER_SIZE) (\<lambda>buf.
         let b = fresh_address c in
         relay grants detects fuel k b client server (c\<lparr>buffers := (buffers c)(b \<mapsto> buf), fresh_address := b + 1\<rparr>))))"

section \<open>A whole request\<close>

text \<open>\<open>finish_client\<close> closes the write end of the client's socket, waits for what still comes, and closes it.\<close>

definition finish_client :: "bool \<Rightarrow> sock \<Rightarrow> sock" where
  "finish_client shut client = (if shut then close_fd (snd (read_fd BUFFER_SIZE client)) else close_fd client)"

definition handle_request :: "(nat \<Rightarrow> bool) \<Rightarrow> bool \<Rightarrow> nat \<Rightarrow> (string \<Rightarrow> string \<Rightarrow> connection) \<Rightarrow> bool \<Rightarrow> sock \<Rightarrow>
    (proxy_stop, sock \<times> sock option \<times> string) res" where
  "handle_request grants detects fuel net shut client =
     bindE (init_cache grants) (\<lambda>c.
     bindE (make_get_header grants client) (\<lambda>(req, client1, printed).
     case req of
       None \<Rightarrow> Inr (close_fd client1, None, printed)
     | Some (full_host, path) \<Rightarrow>
         bindE (open_server_connection net client1 full_host) (\<lambda>(conn, client2, host).
         case conn of
           None \<Rightarrow> Inr (close_fd client2, None, printed)
         | Some server \<Rightarrow>
             (case send_get_header server path of
                (False, server1) \<Rightarrow> Inr (close_fd client2, Some (close_fd server1), printed)
              | (True, server1) \<Rightarrow>
                  bindE (filter_rest_headers grants client2 server1 host) (\<lambda>(ok, client3, server2).
                  if \<not> ok then Inr (close_fd client3, Some (close_fd server2), printed)
                  else bindE (send_response grants detects fuel client3 server2 host path c) (\<lambda>(_, client4, server3, _).
                    Inr (finish_client shut client4, Some (close_fd server3), printed)))))))"

section \<open>The server process\<close>

text \<open>\<open>main\<close> of \<open>proxy.c\<close>: it listens and gives every connection to a thread of its own, for as long as connections
  come; \<open>accepted\<close> are the results of the first calls of \<open>accept\<close>. The sockets are named by their descriptors here. Whether
  listening works and \<open>atexit\<close> succeeds are parameters.\<close>

datatype proxy_result = Usage | Not_listening | No_cleanup | Threads "int list"

fun accept_loop :: "(nat \<Rightarrow> bool) \<Rightarrow> int list \<Rightarrow> (proxy_stop, int list) res" where
  "accept_loop grants [] = Inr []"
| "accept_loop grants (fd # fds) =
     bindE (assertE (grants 4) Assert_failed) (\<lambda>_.
     bindE (accept_loop grants fds) (\<lambda>threads. Inr (if fd = -1 then threads else fd # threads)))"

definition proxy_main :: "(nat \<Rightarrow> bool) \<Rightarrow> (int \<Rightarrow> bool) \<Rightarrow> bool \<Rightarrow> string list \<Rightarrow> int list \<Rightarrow> (proxy_stop, proxy_result) res" where
  "proxy_main grants listens registers argv accepted =
     (if length argv \<noteq> 2 then Inr Usage
      else let port = atoi (argv ! 1) in
        if port \<le> 0 \<or> 65535 < port then Inr Usage
        else if \<not> listens port then Inr Not_listening
        else if \<not> registers then Inr No_cleanup
        else bindE (accept_loop grants accepted) (\<lambda>threads. Inr (Threads threads)))"

end
