(* ===== verification/Proxy_Relay.thy ===== *)
theory Proxy_Relay
  imports Proxy_Queue Proxy_Client
begin

text \<open>
  Sending the response on and caching it. Every chunk enters the cache as a node of its own, all with the same key and the same growing
  buffer, so that the cache fills with the sum of the lengths so far; \<open>grown\<close> is the state this leads through. The response is
  relayed whole exactly as long as this sum and the length stay within the limits of the cache.
\<close>

section \<open>The chain of a bin\<close>

fun bin_chain :: "(nat \<Rightarrow> cache_node_t option) \<Rightarrow> node_ptr \<Rightarrow> nat list \<Rightarrow> bool" where
  "bin_chain h p [] \<longleftrightarrow> p = None"
| "bin_chain h p (a # as) \<longleftrightarrow> p = Some a \<and> (\<exists>n. h a = Some n \<and> bin_chain h (hash_table_next n) as)"

definition holds_buffer :: "(nat \<Rightarrow> cache_node_t option) \<Rightarrow> nat \<Rightarrow> nat \<Rightarrow> nat list \<Rightarrow> bool" where
  "holds_buffer h bin b as \<longleftrightarrow> (\<forall>a \<in> set as. \<exists>n. h a = Some n \<and> value n = b \<and> hash (snd (key n)) mod 256 = bin)"

lemma unlinked_same:
  assumes "unlinked h' = unlinked h" "h a = Some n"
  obtains n' where "h' a = Some n'" "hash_table_next n' = hash_table_next n" "value n' = value n" "key n' = key n"
proof -
  have "unlinked h' a = Some (n\<lparr>prev := None, next_node := None\<rparr>)" using assms by (simp add: unlinked_def)
  then obtain n' where n': "h' a = Some n'" "n'\<lparr>prev := None, next_node := None\<rparr> = n\<lparr>prev := None, next_node := None\<rparr>"
    by (auto simp: unlinked_def)
  then show thesis by (cases n', cases n) (auto intro: that)
qed

lemma bin_chain_unlinked: "bin_chain h p as \<Longrightarrow> unlinked h' = unlinked h \<Longrightarrow> bin_chain h' p as"
proof (induction as arbitrary: p)
  case (Cons a as)
  then obtain n where n: "p = Some a" "h a = Some n" "bin_chain h (hash_table_next n) as" by auto
  obtain n' where "h' a = Some n'" "hash_table_next n' = hash_table_next n" by (rule unlinked_same [OF Cons.prems(2) n(2)]) (rule that)
  then show ?case using Cons.IH [OF n(3) Cons.prems(2)] n(1) by auto
qed simp

lemma holds_unlinked: "holds_buffer h bin b as \<Longrightarrow> unlinked h' = unlinked h \<Longrightarrow> holds_buffer h' bin b as"
  unfolding holds_buffer_def by (metis unlinked_same)

lemma last_node_chain: "bin_chain (nodes c) (Some a) (a # as) \<Longrightarrow> length as < fuel \<Longrightarrow> last_node fuel c a = Inr (List.last (a # as))"
proof (induction as arbitrary: a fuel)
  case Nil
  then show ?case by (cases fuel) (auto simp: node_at_def)
next
  case (Cons b bs)
  then obtain f n where f: "fuel = Suc f" and n: "nodes c a = Some n" "hash_table_next n = Some b" by (cases fuel) auto
  have "last_node f c b = Inr (List.last (b # bs))" using Cons f n by auto
  then show ?case using f n by (simp add: node_at_def)
qed

lemma bin_chain_upd: "a \<notin> set as \<Longrightarrow> bin_chain (h(a := x)) p as = bin_chain h p as"
  by (induction as arbitrary: p) auto

lemma bin_chain_snoc:
  "bin_chain h p (as @ [l]) \<Longrightarrow> l \<notin> set as \<Longrightarrow> a \<notin> set (as @ [l]) \<Longrightarrow> h l = Some n \<Longrightarrow> h a = Some m \<Longrightarrow> hash_table_next m = None \<Longrightarrow>
   bin_chain (h(l \<mapsto> n\<lparr>hash_table_next := Some a\<rparr>)) p (as @ [l, a])"
  by (induction as arbitrary: p) auto

section \<open>The state between two chunks\<close>

definition buffer_is :: "cache_t \<Rightarrow> nat \<Rightarrow> nat \<Rightarrow> nat \<Rightarrow> bool" where
  "buffer_is c b len lim \<longleftrightarrow> (\<exists>buf. buffers c b = Some buf \<and> buffer_ok buf \<and> buf_length buf = len \<and> buf_capacity buf \<le> 2 * lim + 1)"

definition grown :: "cache_t \<Rightarrow> nat \<Rightarrow> nat \<Rightarrow> nat list \<Rightarrow> nat \<Rightarrow> bool" where
  "grown c bin b as s \<longleftrightarrow>
     bin_chain (nodes c) (arr (hash_table c) bin) as \<and> holds_buffer (nodes c) bin b as \<and> queue_is c (rev as) \<and>
     cache_size c = s \<and> \<not> lock c \<and> (\<forall>a \<in> set as. a < fresh_address c) \<and> (as = [] \<longrightarrow> s = 0)"

lemma grown_new_node:
  assumes g: "grown c bin b as s" and "hash (snd k) mod 256 = bin"
  defines "a \<equiv> fresh_address c"
  defines "h \<equiv> (nodes c)(a \<mapsto> \<lparr>prev = None, next_node = None, hash_table_prev = None, hash_table_next = None, key = k, value = b\<rparr>)"
  shows "a \<notin> set as" "bin_chain h (arr (hash_table c) bin) as" "holds_buffer h bin b (as @ [a])" "dseg h None (rev as) None"
proof -
  show out: "a \<notin> set as" using g by (auto simp: grown_def a_def)
  show "bin_chain h (arr (hash_table c) bin) as" using g out by (simp add: grown_def h_def bin_chain_upd)
  show "holds_buffer h bin b (as @ [a])" using g out assms(2) by (auto simp: grown_def holds_buffer_def h_def)
  show "dseg h None (rev as) None" using g out by (simp add: grown_def h_def queue_is_def)
qed

section \<open>Inserting into the cache\<close>

lemma evict_none:
  assumes "buffers c v = Some buf" "cache_size c + buf_length buf < MAX_CACHE_SIZE"
  shows "evict detects fuel v c = Inr c"
  using assms by (subst evict.simps) (simp add: buffer_length_at_def buffer_at_def MAX_CACHE_SIZE_def)

text \<open>A first chunk that does not fit in any more: the oldest node is freed, but the head of the chain was read before.\<close>

lemma cache_remove_first:
  assumes "bin_chain (nodes c) (arr (hash_table c) bin) (a # as)" "holds_buffer (nodes c) bin b (a # as)" "distinct (a # as)"
    "dseg (nodes c) None (rev (a # as)) None" "front (cache_queue c) = head_ptr (rev (a # as)) None" "back_node (cache_queue c) = Some a"
    "lock c" "detects"
  shows "\<exists>c'. cache_remove detects c = Inr (b, c') \<and> nodes c' a = None \<and> cache_size c' = cache_size c \<and> buffers c' = buffers c"
proof -
  obtain n where n: "nodes c a = Some n" "value n = b" "hash (snd (key n)) mod 256 = bin" using assms(2) by (auto simp: holds_buffer_def)
  have ar: "arr (hash_table c) bin = Some a" using assms(1) by simp
  show ?thesis
  proof (cases as)
    case Nil
    then have "front (cache_queue c) = Some a" using assms(5) by simp
    then show ?thesis using assms(6-8) n ar by (auto simp: cache_remove_def dequeue_def is_empty_def acquire_def assertE_def node_at_def Let_def)
  next
    case (Cons d ds)
    obtain m where m: "prev n = Some d" "nodes c d = Some m" using assms(4) n(1) Cons by (auto simp: dseg_append)
    have "front (cache_queue c) \<noteq> Some a" using assms(3,5) Cons head_ptr_in [of "rev ds @ [d]" "Some a" a] by auto
    moreover have "d \<noteq> a" using assms(3) Cons by auto
    ultimately show ?thesis using assms(6-8) n ar m
      by (auto simp: cache_remove_def dequeue_def is_empty_def acquire_def assertE_def node_at_def set_node_def Let_def)
  qed
qed

lemma evict_once:
  assumes "cache_remove detects c = Inr (b, c')" "cache_size c' = cache_size c" "buffers c' = buffers c" "buffers c b = Some buf"
    "cache_size c < MAX_CACHE_SIZE" "buf_length buf < MAX_OBJECT_SIZE" "MAX_CACHE_SIZE \<le> cache_size c + buf_length buf" "0 < fuel"
  obtains s where "evict detects fuel b c = Inr (c'\<lparr>cache_size := s\<rparr>)"
proof -
  obtain k where k: "fuel = Suc k" using assms(8) by (cases fuel) auto
  let ?l = "buf_length buf"
  let ?s = "wrap64 (cache_size c + (2 ^ 64 - ?l mod 2 ^ 64))"
  have l: "?l < 2 ^ 64" using assms(6) by (simp add: MAX_OBJECT_SIZE_def)
  have "wrap64 (?s + ?l) = (cache_size c + (2 ^ 64 - ?l) + ?l) mod 2 ^ 64" using l by (simp add: wrap64_def mod_add_left_eq)
  also have "\<dots> = (cache_size c + 2 ^ 64) mod 2 ^ 64" using l by simp
  also have "\<dots> = cache_size c" using assms(5) by (simp add: MAX_CACHE_SIZE_def)
  finally have w: "wrap64 (?s + ?l) < MAX_CACHE_SIZE" using assms(5) by simp
  have "evict detects k b (c'\<lparr>cache_size := ?s\<rparr>) = Inr (c'\<lparr>cache_size := ?s\<rparr>)"
    using assms(3,4) w by (subst evict.simps) (simp add: buffer_length_at_def buffer_at_def)
  moreover have "wrap64 (cache_size c + ?l) = cache_size c + ?l" using assms(5,6) by (simp add: MAX_CACHE_SIZE_def MAX_OBJECT_SIZE_def)
  ultimately have "evict detects fuel b c = Inr (c'\<lparr>cache_size := ?s\<rparr>)"
    using assms(1-4,7) unfolding k by (subst evict.simps) (simp add: buffer_length_at_def buffer_at_def)
  then show thesis by (rule that)
qed

lemma evict_deadlock:
  assumes "node_at c (back_node (cache_queue c)) = Inr n" "lock c" "\<not> detects" "buffers c b = Some buf"
    "cache_size c < MAX_CACHE_SIZE" "buf_length buf < MAX_OBJECT_SIZE" "MAX_CACHE_SIZE \<le> cache_size c + buf_length buf" "0 < fuel"
  shows "evict detects fuel b c = Inl Deadlock"
proof -
  obtain k where k: "fuel = Suc k" using assms(8) by (cases fuel) auto
  have "wrap64 (cache_size c + buf_length buf) = cache_size c + buf_length buf" using assms(5,6) by (simp add: MAX_CACHE_SIZE_def MAX_OBJECT_SIZE_def)
  moreover have "back_node (cache_queue c) \<noteq> None" using assms(1) by (auto simp: node_at_def split: option.splits)
  then have "cache_remove detects c = Inl Deadlock"
    using assms(1-3) by (auto simp: cache_remove_def dequeue_def is_empty_def acquire_def Let_def)
  ultimately show ?thesis using assms(4,7) unfolding k by (subst evict.simps) (simp add: buffer_length_at_def buffer_at_def)
qed

text \<open>A chunk that fits in: its node joins the end of the chain and the front of the queue.\<close>

definition hook_node :: "nat \<Rightarrow> nat \<Rightarrow> nat \<Rightarrow> node_ptr \<Rightarrow> cache_t \<Rightarrow> (proxy_stop, cache_t) res" where
  "hook_node fuel bin a head c =
     (case head of
        None \<Rightarrow> Inr (c\<lparr>hash_table := (hash_table c)\<lparr>arr := (arr (hash_table c))(bin := Some a)\<rparr>\<rparr>)
      | Some h \<Rightarrow> bindE (last_node fuel c h) (\<lambda>l. set_node l (\<lambda>n. n\<lparr>hash_table_next := Some a\<rparr>) c))"

lemma dseg_next_in_chain: "dseg h p as q \<Longrightarrow> h l = Some n \<Longrightarrow> dseg (h(l \<mapsto> n\<lparr>hash_table_next := x\<rparr>)) p as q"
  by (induction as arbitrary: p) auto

lemma hook_node_spec:
  assumes ch: "bin_chain (nodes c) (arr (hash_table c) bin) as" and own: "holds_buffer (nodes c) bin b (as @ [a])" and
    seg: "dseg (nodes c) None (rev as) None" and out: "a \<notin> set as" "distinct as" and
    new: "nodes c a = Some m" "hash_table_next m = None" "prev m = None" and fuel: "length as < fuel"
  obtains c' m' where "hook_node fuel bin a (arr (hash_table c) bin) c = Inr c'" "bin_chain (nodes c') (arr (hash_table c') bin) (as @ [a])"
    "holds_buffer (nodes c') bin b (as @ [a])" "dseg (nodes c') None (rev as) None" "nodes c' a = Some m'" "prev m' = None"
    "cache_size c' = cache_size c" "cache_queue c' = cache_queue c" "lock c' = lock c" "fresh_address c' = fresh_address c" "buffers c' = buffers c"
proof (cases as rule: rev_cases)
  case Nil
  let ?c = "c\<lparr>hash_table := (hash_table c)\<lparr>arr := (arr (hash_table c))(bin := Some a)\<rparr>\<rparr>"
  show thesis using assms Nil by (intro that [of ?c m]) (simp_all add: hook_node_def)
next
  case (snoc us l)
  have "as \<noteq> []" using snoc by simp
  then obtain h ts where as: "as = h # ts" by (cases as) auto
  have h: "arr (hash_table c) bin = Some h" using ch as by simp
  have "List.last (h # ts) = l" using snoc as by (metis last_snoc)
  then have last: "last_node fuel c h = Inr l" using last_node_chain [of c h ts fuel] ch h as fuel by simp
  obtain n where n: "nodes c l = Some n" using own snoc by (auto simp: holds_buffer_def)
  have la: "l \<noteq> a" "l \<notin> set us" using out snoc by auto
  let ?c = "c\<lparr>nodes := (nodes c)(l \<mapsto> n\<lparr>hash_table_next := Some a\<rparr>)\<rparr>"
  have "hook_node fuel bin a (arr (hash_table c) bin) c = Inr ?c" using h last n by (simp add: hook_node_def set_node_Some)
  moreover have "bin_chain (nodes ?c) (arr (hash_table ?c) bin) (as @ [a])"
    using bin_chain_snoc [of "nodes c" "arr (hash_table c) bin" us l a n m] ch snoc la out n new by simp
  moreover have "holds_buffer (nodes ?c) bin b (as @ [a])" using own n by (fastforce simp: holds_buffer_def)
  moreover have "dseg (nodes ?c) None (rev as) None" using dseg_next_in_chain [OF seg n] by simp
  ultimately show thesis using new la by (intro that [of ?c m]) simp_all
qed

lemma cache_insert_fits:
  assumes g: "grown c bin b as s" and bin: "hash (snd k) mod 256 = bin" and buf: "buffers c b = Some buf" "buf_length buf < MAX_OBJECT_SIZE"
    and fits: "s + buf_length buf < MAX_CACHE_SIZE" and fuel: "length as < fuel" and mem: "grants 48"
  shows "\<exists>c' a. cache_insert grants detects fuel k b c = Inr (Some a, c') \<and> grown c' bin b (as @ [a]) (s + buf_length buf) \<and>
    buffers c' = buffers c \<and> front (cache_queue c') = Some a"
proof -
  let ?a = "fresh_address c"
  let ?m = "\<lparr>prev = None, next_node = None, hash_table_prev = None, hash_table_next = None, key = k, value = b\<rparr>"
  let ?c2 = "c\<lparr>lock := True, nodes := (nodes c)(?a \<mapsto> ?m), fresh_address := ?a + 1\<rparr>"
  note new = grown_new_node [OF g bin]
  have unheld: "\<not> lock c" and size_c: "cache_size c = s" and dis: "distinct as" and low: "\<forall>a \<in> set as. a < ?a"
    using g by (simp_all add: grown_def queue_is_def)
  have ch: "bin_chain (nodes ?c2) (arr (hash_table ?c2) bin) as" and own: "holds_buffer (nodes ?c2) bin b (as @ [?a])"
    and seg: "dseg (nodes ?c2) None (rev as) None" and m: "nodes ?c2 ?a = Some ?m" "hash_table_next ?m = None" "prev ?m = None"
    using new by simp_all
  obtain c4 m' where c4: "hook_node fuel bin ?a (arr (hash_table ?c2) bin) ?c2 = Inr c4" "bin_chain (nodes c4) (arr (hash_table c4) bin) (as @ [?a])"
    "holds_buffer (nodes c4) bin b (as @ [?a])" "dseg (nodes c4) None (rev as) None" "nodes c4 ?a = Some m'" "prev m' = None"
    "cache_size c4 = cache_size ?c2" "cache_queue c4 = cache_queue ?c2" "lock c4 = lock ?c2" "fresh_address c4 = fresh_address ?c2" "buffers c4 = buffers ?c2"
    by (rule hook_node_spec [OF ch own seg new(1) dis m fuel]) (rule that)
  let ?c5 = "unlock (c4\<lparr>cache_size := s + buf_length buf\<rparr>)"
  have q5: "queue_is ?c5 (rev as)" "?a \<notin> set (rev as)" using c4 g new(1) by (simp_all add: grown_def queue_is_def unlock_def)
  have n5: "nodes ?c5 ?a = Some m'" "lock ?c5 \<longrightarrow> detects" using c4 by (simp_all add: unlock_def)
  obtain c6 where c6: "enqueue detects (lock ?c5) ?a ?c5 = Inr c6" "queue_is c6 (?a # rev as)" "unlinked (nodes c6) = unlinked (nodes ?c5)"
    "cache_size c6 = cache_size ?c5" "lock c6 = lock ?c5" "hash_table c6 = hash_table ?c5" "buffers c6 = buffers ?c5" "fresh_address c6 = fresh_address ?c5"
    by (rule enqueue_spec [OF q5 n5(1) c4(6) n5(2)]) (rule that)
  have ev: "evict detects fuel b ?c2 = Inr ?c2" using evict_none [of ?c2 b buf] buf fits size_c by simp
  have small: "wrap64 (s + buf_length buf) = s + buf_length buf" using fits by (simp add: MAX_CACHE_SIZE_def)
  have "cache_insert grants detects fuel k b c = Inr (Some ?a, c6)"
    using unheld mem bin buf ev c4 c6(1) size_c small
    by (simp add: cache_insert_def wrlock_def acquire_def init_node_def buffer_length_at_def buffer_at_def hook_node_def [symmetric] Let_def)
  moreover have "grown c6 bin b (as @ [?a]) (s + buf_length buf)"
    using c4 c6 low bin_chain_unlinked [OF c4(2), of "nodes c6"] holds_unlinked [OF c4(3), of "nodes c6"]
    by (auto simp: grown_def unlock_def)
  moreover have "front (cache_queue c6) = Some ?a" using c6(2) by (simp add: queue_is_def)
  ultimately show ?thesis using c4 c6 by (auto simp: unlock_def)
qed

lemma cache_insert_overflows:
  assumes g: "grown c bin b as s" and bin: "hash (snd k) mod 256 = bin" and buf: "buffers c b = Some buf" "buf_length buf < MAX_OBJECT_SIZE"
    and full: "s < MAX_CACHE_SIZE" "MAX_CACHE_SIZE \<le> s + buf_length buf" and fuel: "0 < fuel" and mem: "grants 48"
  shows "cache_insert grants detects fuel k b c = Inl (if detects then Invalid_access else Deadlock)"
proof -
  let ?a = "fresh_address c"
  let ?m = "\<lparr>prev = None, next_node = None, hash_table_prev = None, hash_table_next = None, key = k, value = b\<rparr>"
  let ?c2 = "c\<lparr>lock := True, nodes := (nodes c)(?a \<mapsto> ?m), fresh_address := ?a + 1\<rparr>"
  note new = grown_new_node [OF g bin]
  have unheld: "\<not> lock c" and size_c: "cache_size c = s" and dis: "distinct as" and q: "queue_is c (rev as)"
    using g by (simp_all add: grown_def queue_is_def)
  have "as \<noteq> []" using g full(2) buf(2) by (auto simp: grown_def MAX_CACHE_SIZE_def MAX_OBJECT_SIZE_def)
  then obtain d ds where as: "as = d # ds" by (cases as) auto
  have ch: "bin_chain (nodes ?c2) (arr (hash_table ?c2) bin) (d # ds)" and own: "holds_buffer (nodes ?c2) bin b (d # ds)"
    and seg: "dseg (nodes ?c2) None (rev (d # ds)) None"
    using new as by (simp_all add: holds_buffer_def)
  have bk: "back_node (cache_queue ?c2) = Some d" and fr: "front (cache_queue ?c2) = head_ptr (rev (d # ds)) None"
    using q as by (simp_all add: queue_is_def)
  have ar: "arr (hash_table c) bin = Some d" using ch by simp
  have start: "cache_insert grants detects fuel k b c =
    bindE (evict detects fuel b ?c2) (\<lambda>c3. bindE (hook_node fuel bin ?a (Some d) c3) (\<lambda>c4.
       bindE (buffer_length_at c4 b) (\<lambda>len'.
       let c5 = unlock (c4\<lparr>cache_size := wrap64 (cache_size c4 + len')\<rparr>) in
       bindE (enqueue detects (lock c5) ?a c5) (\<lambda>c6. Inr (Some ?a, c6)))))"
    using unheld mem bin buf ar
    by (simp add: cache_insert_def wrlock_def acquire_def init_node_def buffer_length_at_def buffer_at_def hook_node_def Let_def)
  have c2: "buffers ?c2 b = Some buf" "cache_size ?c2 < MAX_CACHE_SIZE" "MAX_CACHE_SIZE \<le> cache_size ?c2 + buf_length buf" "lock ?c2"
    using buf full size_c by simp_all
  show ?thesis
  proof (cases detects)
    case True
    obtain c3 where c3: "cache_remove detects ?c2 = Inr (b, c3)" "nodes c3 d = None" "cache_size c3 = cache_size ?c2" "buffers c3 = buffers ?c2"
      using cache_remove_first [OF ch own _ seg fr bk c2(4) True] dis as by auto
    obtain t where "evict detects fuel b ?c2 = Inr (c3\<lparr>cache_size := t\<rparr>)"
      by (rule evict_once [OF c3(1,3,4) c2(1,2) buf(2) c2(3) fuel]) (rule that)
    moreover obtain f where "fuel = Suc f" using fuel by (cases fuel) auto
    ultimately show ?thesis using start c3(2) True by (simp add: hook_node_def node_at_def)
  next
    case False
    obtain n where "nodes ?c2 d = Some n" using ch by auto
    then have "node_at ?c2 (back_node (cache_queue ?c2)) = Inr n" using bk by (simp add: node_at_def)
    then have "evict detects fuel b ?c2 = Inl Deadlock" by (rule evict_deadlock [OF _ c2(4) False c2(1,2) buf(2) c2(3) fuel])
    then show ?thesis using start False by simp
  qed
qed

lemma cache_insert_big:
  assumes "buffers c b = Some buf" "MAX_OBJECT_SIZE \<le> buf_length buf" "lock c \<longrightarrow> detects" "grants 48"
  shows "\<exists>c'. cache_insert grants detects fuel k b c = Inr (None, c') \<and> lock c' \<and> buffers c' = buffers c"
  using assms by (simp add: cache_insert_def wrlock_def acquire_def assertE_def init_node_def buffer_length_at_def buffer_at_def Let_def)

section \<open>One chunk\<close>

text \<open>What the lengths of a response add up to in the cache, as long as the response is small enough to be cached.\<close>

fun cost :: "nat \<Rightarrow> string list \<Rightarrow> nat" where
  "cost len [] = 0"
| "cost len (x # xs) = (if MAX_OBJECT_SIZE \<le> len + length x then 0 else len + length x + cost (len + length x) xs)"

lemma generous_48: "generous grants lim \<Longrightarrow> 24 \<le> lim \<Longrightarrow> grants 48"
  by (simp add: generous_def)

lemma append_chunk:
  assumes "buffer_is c b len lim" "len + length x \<le> lim" "generous grants lim"
  obtains buf buf' where "buffers c b = Some buf" "buffer_append_bytes grants x buf = Inr buf'" "buf_length buf' = len + length x"
    "\<And>c'. buffers c' = (buffers c)(b \<mapsto> buf') \<Longrightarrow> buffer_is c' b (len + length x) lim"
proof -
  obtain buf where buf: "buffers c b = Some buf" "buffer_ok buf" "buf_length buf = len" "buf_capacity buf \<le> 2 * lim + 1"
    using assms(1) by (auto simp: buffer_is_def)
  have le: "buf_length buf + length x \<le> lim" using assms(2) buf(3) by simp
  obtain buf' where buf': "buffer_append_bytes grants x buf = Inr buf'" "buffer_ok buf'" "contents buf' = contents buf @ x"
    "buf_length buf' = buf_length buf + length x" "buf_capacity buf' \<le> 2 * lim + 1"
    by (rule buffer_append_spec [OF buf(2) le buf(4) assms(3)]) (rule that)
  show thesis using buf(1,3) buf' by (intro that [of buf buf']) (auto simp: buffer_is_def)
qed

lemma grown_buffers [simp]: "grown (c\<lparr>buffers := m\<rparr>) bin b as s = grown c bin b as s"
  by (simp add: grown_def queue_is_def)

lemma cache_chunk_fits:
  assumes g: "grown c bin b as s" and bin: "hash (snd k) mod 256 = bin" and buf: "buffer_is c b len lim" "len + length x < MAX_OBJECT_SIZE"
    and fits: "s + len + length x < MAX_CACHE_SIZE" and fuel: "length as < fuel" and mem: "generous grants lim" "24 \<le> lim" "len + length x \<le> lim"
  shows "\<exists>c' a. cache_chunk grants detects fuel k b x c = Inr c' \<and> grown c' bin b (as @ [a]) (s + len + length x) \<and> buffer_is c' b (len + length x) lim"
proof -
  obtain buf buf' where b: "buffers c b = Some buf" "buffer_append_bytes grants x buf = Inr buf'" "buf_length buf' = len + length x"
    "\<And>c'. buffers c' = (buffers c)(b \<mapsto> buf') \<Longrightarrow> buffer_is c' b (len + length x) lim"
    by (rule append_chunk [OF buf(1) mem(3,1)]) (rule that)
  let ?c = "c\<lparr>buffers := (buffers c)(b \<mapsto> buf')\<rparr>"
  have g': "grown ?c bin b as s" using g by simp
  obtain c' a where c': "cache_insert grants detects fuel k b ?c = Inr (Some a, c')" "grown c' bin b (as @ [a]) (s + buf_length buf')"
    "buffers c' = buffers ?c" "front (cache_queue c') = Some a"
    using cache_insert_fits [where grants = grants, OF g' bin _ _ _ fuel generous_48 [OF mem(1,2)], of buf' detects] b(3) buf(2) fits by auto
  have free: "\<not> lock c'" using c'(2) by (simp add: grown_def)
  have c'': "c'\<lparr>lock := False\<rparr> = c'" using free by simp
  have "nodes c' a \<noteq> None" using c'(2) by (auto simp: grown_def holds_buffer_def)
  then obtain n where "nodes c' a = Some n" by auto
  then have "cache_chunk grants detects fuel k b x c = Inr c'"
    using b(1,2) c' free c''
    by (simp add: cache_chunk_def buffer_at_def queue_update_def wrlock_def acquire_def unlock_def peek_front_def node_at_def)
  then show ?thesis using c' b(3,4) by (auto simp: add.assoc)
qed

lemma cache_chunk_overflows:
  assumes g: "grown c bin b as s" and bin: "hash (snd k) mod 256 = bin" and buf: "buffer_is c b len lim" "len + length x < MAX_OBJECT_SIZE"
    and full: "s < MAX_CACHE_SIZE" "MAX_CACHE_SIZE \<le> s + len + length x" and fuel: "0 < fuel" and mem: "generous grants lim" "24 \<le> lim" "len + length x \<le> lim"
  shows "cache_chunk grants detects fuel k b x c = Inl (if detects then Invalid_access else Deadlock)"
proof -
  obtain buf buf' where b: "buffers c b = Some buf" "buffer_append_bytes grants x buf = Inr buf'" "buf_length buf' = len + length x"
    "\<And>c'. buffers c' = (buffers c)(b \<mapsto> buf') \<Longrightarrow> buffer_is c' b (len + length x) lim"
    by (rule append_chunk [OF buf(1) mem(3,1)]) (rule that)
  have "grown (c\<lparr>buffers := (buffers c)(b \<mapsto> buf')\<rparr>) bin b as s" using g by simp
  from cache_insert_overflows [where grants = grants, OF this bin _ _ full(1) _ fuel generous_48 [OF mem(1,2)], of buf' detects]
  show ?thesis using b(1-3) buf(2) full(2) by (simp add: cache_chunk_def buffer_at_def)
qed

lemma cache_chunk_big:
  assumes buf: "buffer_is c b len lim" "MAX_OBJECT_SIZE \<le> len + length x" and lk: "lock c \<longrightarrow> detects"
    and mem: "generous grants lim" "24 \<le> lim" "len + length x \<le> lim"
  shows "\<exists>c'. cache_chunk grants detects fuel k b x c = Inr c' \<and> lock c' \<and> buffer_is c' b (len + length x) lim"
proof -
  obtain buf buf' where b: "buffers c b = Some buf" "buffer_append_bytes grants x buf = Inr buf'" "buf_length buf' = len + length x"
    "\<And>c'. buffers c' = (buffers c)(b \<mapsto> buf') \<Longrightarrow> buffer_is c' b (len + length x) lim"
    by (rule append_chunk [OF buf(1) mem(3,1)]) (rule that)
  obtain c' where "cache_insert grants detects fuel k b (c\<lparr>buffers := (buffers c)(b \<mapsto> buf')\<rparr>) = Inr (None, c')" "lock c'"
    "buffers c' = (buffers c)(b \<mapsto> buf')"
    using cache_insert_big [of "c\<lparr>buffers := (buffers c)(b \<mapsto> buf')\<rparr>" b buf' detects grants fuel k] b(3) buf(2) lk generous_48 [OF mem(1,2)] by auto
  then show ?thesis using b by (simp add: cache_chunk_def buffer_at_def)
qed

lemma cache_chunk_held:
  assumes buf: "buffer_is c b len lim" and lk: "lock c" "\<not> detects" and mem: "generous grants lim" "len + length x \<le> lim"
  shows "cache_chunk grants detects fuel k b x c = Inl Deadlock"
proof -
  obtain buf buf' where b: "buffers c b = Some buf" "buffer_append_bytes grants x buf = Inr buf'" "buf_length buf' = len + length x"
    "\<And>c'. buffers c' = (buffers c)(b \<mapsto> buf') \<Longrightarrow> buffer_is c' b (len + length x) lim"
    by (rule append_chunk [OF buf mem(2,1)]) (rule that)
  then show ?thesis using lk by (simp add: cache_chunk_def buffer_at_def cache_insert_def wrlock_def acquire_def)
qed

section \<open>A whole response\<close>

text \<open>A server whose response arrives in these segments, each as large as one read at most, with no error.\<close>

definition sends :: "sock \<Rightarrow> string list \<Rightarrow> bool" where
  "sends s segs \<longleftrightarrow> incoming s = map Some segs \<and> (\<forall>seg \<in> set segs. seg \<noteq> [] \<and> length seg \<le> BUFFER_SIZE)"

lemma relay_end: "sends server [] \<Longrightarrow> relay grants detects fuel k b client server c = Inr (True, client, server, c)"
  by (subst relay.simps) (simp add: sends_def read_fd_def)

lemma relay_step:
  assumes "sends server (x # xs)" "accepts client = []"
  shows "relay grants detects fuel k b client server c = bindE (cache_chunk grants detects fuel k b x c) (\<lambda>c'.
    relay grants detects fuel k b (client\<lparr>sent := sent client @ x\<rparr>) (server\<lparr>incoming := map Some xs\<rparr>) c')"
proof -
  obtain y ys where "x = y # ys" using assms(1) by (cases x) (auto simp: sends_def)
  then show ?thesis using assms by (subst relay.simps) (simp add: sends_def read_fd_def write_fd_def)
qed

lemma sends_rest: "sends server (x # xs) \<Longrightarrow> sends (server\<lparr>incoming := map Some xs\<rparr>) xs"
  by (simp add: sends_def)

text \<open>Behind a response too large for the cache the lock stays held; if that is detected, the rest is relayed all the same.\<close>

lemma relay_held:
  assumes "buffer_is c b len lim" "MAX_OBJECT_SIZE \<le> len" "lock c" "detects" "sends server segs" "accepts client = []"
    "len + length (concat segs) \<le> lim" "generous grants lim" "24 \<le> lim"
  shows "\<exists>c'. relay grants detects fuel k b client server c = Inr (True, client\<lparr>sent := sent client @ concat segs\<rparr>, server\<lparr>incoming := []\<rparr>, c')"
  using assms
proof (induction segs arbitrary: c len client server)
  case Nil
  then show ?case by (simp add: relay_end) (simp add: sends_def)
next
  case (Cons x xs)
  have l: "MAX_OBJECT_SIZE \<le> len + length x" "lock c \<longrightarrow> detects" "len + length x \<le> lim" using Cons.prems by auto
  obtain c1 where c1: "cache_chunk grants detects fuel k b x c = Inr c1" "lock c1" "buffer_is c1 b (len + length x) lim"
    using cache_chunk_big [OF Cons.prems(1) l(1,2) Cons.prems(8,9) l(3)] by blast
  have t: "len + length x + length (concat xs) \<le> lim" using Cons.prems(7) by simp
  obtain c2 where "relay grants detects fuel k b (client\<lparr>sent := sent client @ x\<rparr>) (server\<lparr>incoming := map Some xs\<rparr>) c1 =
    Inr (True, client\<lparr>sent := sent client @ x @ concat xs\<rparr>, server\<lparr>incoming := []\<rparr>, c2)"
    using Cons.IH [OF c1(3) l(1) c1(2) Cons.prems(4) sends_rest [OF Cons.prems(5)] _ t Cons.prems(8,9), of "client\<lparr>sent := sent client @ x\<rparr>"]
      Cons.prems(6) by auto
  then show ?case using relay_step [OF Cons.prems(5,6)] c1(1) by simp
qed

text \<open>With a sum of lengths below the size of the cache, the response is relayed whole.\<close>

lemma relay_whole:
  assumes "grown c bin b as s" "buffer_is c b len lim" "s + cost len segs < MAX_CACHE_SIZE" "sends server segs" "accepts client = []"
    "detects \<or> len + length (concat (butlast segs)) < MAX_OBJECT_SIZE" "length as + length segs \<le> fuel"
    "len + length (concat segs) \<le> lim" "generous grants lim" "24 \<le> lim" "hash (snd k) mod 256 = bin"
  shows "\<exists>c'. relay grants detects fuel k b client server c = Inr (True, client\<lparr>sent := sent client @ concat segs\<rparr>, server\<lparr>incoming := []\<rparr>, c')"
  using assms(1-8)
proof (induction segs arbitrary: c len client server as s)
  case Nil
  then show ?case by (simp add: relay_end) (simp add: sends_def)
next
  case (Cons x xs)
  let ?l = "len + length x"
  have lim: "?l \<le> lim" and t: "?l + length (concat xs) \<le> lim" using Cons.prems(8) by auto
  note step = relay_step [OF Cons.prems(4,5)] and rest = sends_rest [OF Cons.prems(4)]
  have free: "lock c \<longrightarrow> detects" using Cons.prems(1) by (simp add: grown_def)
  let ?client = "client\<lparr>sent := sent client @ x\<rparr>" and ?server = "server\<lparr>incoming := map Some xs\<rparr>"
  show ?case
  proof (cases "MAX_OBJECT_SIZE \<le> ?l")
    case True
    obtain c1 where c1: "cache_chunk grants detects fuel k b x c = Inr c1" "lock c1" "buffer_is c1 b ?l lim"
      using cache_chunk_big [OF Cons.prems(2) True free assms(9,10) lim] by blast
    show ?thesis
    proof (cases detects)
      case d: True
      obtain c2 where "relay grants detects fuel k b ?client ?server c1 = Inr (True, ?client\<lparr>sent := sent ?client @ concat xs\<rparr>, ?server\<lparr>incoming := []\<rparr>, c2)"
        using relay_held [OF c1(3) True c1(2) d rest _ t assms(9,10), of ?client fuel k] Cons.prems(5) by auto
      then show ?thesis using step c1(1) by simp
    next
      case d: False
      have "xs = []" using d Cons.prems(6) True by (cases xs) auto
      then show ?thesis using step c1(1) rest by (simp add: relay_end)
    qed
  next
    case False
    have fits: "?l < MAX_OBJECT_SIZE" "s + len + length x < MAX_CACHE_SIZE" using False Cons.prems(3) by simp_all
    have fuel: "length as < fuel" using Cons.prems(7) by simp
    obtain c1 a where c1: "cache_chunk grants detects fuel k b x c = Inr c1" "grown c1 bin b (as @ [a]) (s + len + length x)" "buffer_is c1 b ?l lim"
      using cache_chunk_fits [OF Cons.prems(1) assms(11) Cons.prems(2) fits fuel assms(9,10) lim] by blast
    have c: "s + len + length x + cost ?l xs < MAX_CACHE_SIZE" using False Cons.prems(3) by simp
    have d: "detects \<or> ?l + length (concat (butlast xs)) < MAX_OBJECT_SIZE" using Cons.prems(6) False by (cases "xs = []") auto
    have f: "length (as @ [a]) + length xs \<le> fuel" using Cons.prems(7) by simp
    obtain c2 where "relay grants detects fuel k b ?client ?server c1 = Inr (True, ?client\<lparr>sent := sent ?client @ concat xs\<rparr>, ?server\<lparr>incoming := []\<rparr>, c2)"
      using Cons.IH [OF c1(2,3) c rest _ d f t, of ?client] Cons.prems(5) by auto
    then show ?thesis using step c1(1) by simp
  qed
qed

text \<open>Otherwise the request ends in the cache: by a use of a freed node, or blocked for good on its own lock.\<close>

lemma relay_stops:
  assumes "grown c bin b as s" "buffer_is c b len lim" "s < MAX_CACHE_SIZE" "len < MAX_OBJECT_SIZE" "sends server segs" "accepts client = []"
    "MAX_CACHE_SIZE \<le> s + cost len segs \<or> \<not> detects \<and> MAX_OBJECT_SIZE \<le> len + length (concat (butlast segs))"
    "length as + length segs \<le> fuel" "len + length (concat segs) \<le> lim" "generous grants lim" "24 \<le> lim" "hash (snd k) mod 256 = bin"
  shows "relay grants detects fuel k b client server c = Inl (if detects then Invalid_access else Deadlock)"
  using assms(1-9)
proof (induction segs arbitrary: c len client server as s)
  case Nil
  then show ?case by simp
next
  case (Cons x xs)
  let ?l = "len + length x"
  have lim: "?l \<le> lim" and t: "?l + length (concat xs) \<le> lim" and fuel: "length as < fuel" using Cons.prems(8,9) by auto
  note step = relay_step [OF Cons.prems(5,6)] and rest = sends_rest [OF Cons.prems(5)]
  have free: "lock c \<longrightarrow> detects" using Cons.prems(1) by (simp add: grown_def)
  let ?client = "client\<lparr>sent := sent client @ x\<rparr>" and ?server = "server\<lparr>incoming := map Some xs\<rparr>"
  show ?case
  proof (cases "MAX_OBJECT_SIZE \<le> ?l")
    case True
    then have d: "\<not> detects" using Cons.prems(3,7) by auto
    have "xs \<noteq> []" using True Cons.prems(3,4,7) by (cases xs) auto
    then obtain y ys where xs: "xs = y # ys" by (cases xs) auto
    obtain c1 where c1: "cache_chunk grants detects fuel k b x c = Inr c1" "lock c1" "buffer_is c1 b ?l lim"
      using cache_chunk_big [OF Cons.prems(2) True free assms(10,11) lim] by blast
    have "?l + length y \<le> lim" using t xs by simp
    then have "cache_chunk grants detects fuel k b y c1 = Inl Deadlock" by (rule cache_chunk_held [OF c1(3,2) d assms(10)])
    then show ?thesis using step c1(1) relay_step [of ?server y ys ?client] rest Cons.prems(6) d xs by simp
  next
    case False
    then have l: "?l < MAX_OBJECT_SIZE" by simp
    show ?thesis
    proof (cases "MAX_CACHE_SIZE \<le> s + len + length x")
      case True
      have "0 < fuel" using fuel by simp
      then show ?thesis using step cache_chunk_overflows [OF Cons.prems(1) assms(12) Cons.prems(2) l Cons.prems(3) True _ assms(10,11) lim] by simp
    next
      case f: False
      have s: "s + len + length x < MAX_CACHE_SIZE" using f by simp
      obtain c1 a where c1: "cache_chunk grants detects fuel k b x c = Inr c1" "grown c1 bin b (as @ [a]) (s + len + length x)" "buffer_is c1 b ?l lim"
        using cache_chunk_fits [OF Cons.prems(1) assms(12) Cons.prems(2) l s fuel assms(10,11) lim] by blast
      have "MAX_CACHE_SIZE \<le> s + len + length x + cost ?l xs \<or> \<not> detects \<and> MAX_OBJECT_SIZE \<le> ?l + length (concat (butlast xs))"
        using Cons.prems(7) False f by (cases "xs = []") auto
      moreover have "length (as @ [a]) + length xs \<le> fuel" using Cons.prems(8) by simp
      ultimately have "relay grants detects fuel k b ?client ?server c1 = Inl (if detects then Invalid_access else Deadlock)"
        using Cons.IH [OF c1(2,3) s l rest, of ?client] Cons.prems(6) t by simp
      then show ?thesis using step c1(1) by simp
    qed
  qed
qed

text \<open>The response starts with an empty cache, so that the key is never found.\<close>

definition cache_empty :: "cache_t \<Rightarrow> bool" where
  "cache_empty c \<longleftrightarrow> cache_size c = 0 \<and> \<not> lock c \<and> front (cache_queue c) = None \<and> back_node (cache_queue c) = None \<and>
     arr (hash_table c) = (\<lambda>_. None)"

lemma init_cache_empty: "init_cache grants = Inr c \<Longrightarrow> cache_empty c"
  by (auto simp: init_cache_def init_queue_def init_hash_table_def csplit cache_empty_def)

lemma send_response_start:
  assumes c: "cache_empty c" and mem: "generous grants lim" "BUFFER_SIZE \<le> lim" "length host + length path \<le> lim"
  obtains c' b k where "send_response grants detects fuel client server host path c = relay grants detects fuel k b client server c'"
    "grown c' (hash (snd k) mod 256) b [] 0" "buffer_is c' b 0 lim"
proof -
  have sz: "BUFFER_SIZE \<le> lim" "0 < BUFFER_SIZE" "12 \<le> lim" using mem(2) by (simp_all add: BUFFER_SIZE_def)
  obtain buf where buf: "buffer_create grants BUFFER_SIZE = Inr buf" "buffer_ok buf" "contents buf = []" "buf_length buf = 0" "buf_capacity buf \<le> 2 * lim + 1"
    by (rule buffer_create_spec [OF sz mem(1)]) (rule that)
  let ?k = "(fresh_address c, host @ path)" and ?b = "fresh_address c + 1"
  let ?c = "c\<lparr>buffers := (buffers c)(?b \<mapsto> buf), fresh_address := ?b + 1\<rparr>"
  have "grants (length host + length path + 1)" using mem(1,3) by (simp add: generous_def)
  then have "send_response grants detects fuel client server host path c = relay grants detects fuel ?k ?b client server ?c"
    using c buf(1) by (simp add: send_response_def cache_empty_def contains_def get_lock_def acquire_def Let_def)
  moreover have "grown ?c (hash (snd ?k) mod 256) ?b [] 0" using c by (simp add: grown_def cache_empty_def holds_buffer_def queue_is_def)
  moreover have "buffer_is ?c ?b 0 lim" using buf by (simp add: buffer_is_def)
  ultimately show thesis by (rule that)
qed

end
