(* ===== verification/Proxy_Lines.thy ===== *)
theory Proxy_Lines
  imports Proxy_Client
begin

text \<open>
  What the request handler reads of its client: lines that end with a carriage return and a line feed, however the network cuts the
  stream into segments. \<open>first_line\<close> is the reference for one line; the request line and the other headers are checked against it.
\<close>

section \<open>A client that sends a text\<close>

definition flowing :: "sock \<Rightarrow> bool" where
  "flowing s \<longleftrightarrow> (\<forall>x \<in> set (incoming s). x \<noteq> None \<and> x \<noteq> Some [])"

definition arriving :: "sock \<Rightarrow> string" where
  "arriving s = concat (map the (incoming s))"

lemma read_char:
  assumes "flowing s" "arriving s = c # rest"
  obtains r where "read_fd 1 s = (Some [c], s\<lparr>incoming := r\<rparr>)" "flowing (s\<lparr>incoming := r\<rparr>)" "arriving (s\<lparr>incoming := r\<rparr>) = rest"
proof -
  obtain y x where y: "incoming s = Some y # x" "y \<noteq> []" using assms by (cases "incoming s") (auto simp: flowing_def arriving_def)
  then obtain seg where inc: "incoming s = Some (c # seg) # x" and rest: "rest = seg @ concat (map the x)"
    using assms(2) by (cases y) (auto simp: arriving_def)
  show thesis
  proof (cases seg)
    case Nil
    then show thesis using inc rest assms(1) by (intro that [of x]) (simp_all add: read_fd_def flowing_def arriving_def)
  next
    case (Cons d ds)
    then show thesis using inc rest assms(1) by (intro that [of "Some seg # x"]) (simp_all add: read_fd_def flowing_def arriving_def)
  qed
qed

lemma read_end: "flowing s \<Longrightarrow> arriving s = [] \<Longrightarrow> read_fd 1 s = (Some [], s)"
  by (cases "incoming s") (auto simp: flowing_def arriving_def read_fd_def)

section \<open>Reading a line\<close>

fun first_line :: "char \<Rightarrow> string \<Rightarrow> (string \<times> string) option" where
  "first_line d [] = None"
| "first_line d (c # cs) =
     (if d = CHR 0x0D \<and> c = CHR 0x0A then Some ([c], cs)
      else (case first_line c cs of None \<Rightarrow> None | Some (l, r) \<Rightarrow> Some (c # l, r)))"

lemma first_line_split: "first_line d cs = Some (l, r) \<Longrightarrow> cs = l @ r"
  by (induction cs arbitrary: d l) (auto split: if_splits option.splits)

lemma first_line_more: "first_line d l = Some (l, []) \<Longrightarrow> first_line d (l @ r) = Some (l, r)"
proof -
  have "first_line d l = Some (m, q) \<Longrightarrow> first_line d (l @ r) = Some (m, q @ r)" for m q
    by (induction l arbitrary: d m) (auto split: if_splits option.splits)
  then show "first_line d l = Some (l, []) \<Longrightarrow> first_line d (l @ r) = Some (l, r)" by force
qed

lemma first_line_plain:
  "CHR 0x0D \<notin> set l \<Longrightarrow> d \<noteq> CHR 0x0D \<Longrightarrow> first_line d (l @ CRLF @ r) = Some (l @ CRLF, r)"
proof (induction l arbitrary: d)
  case (Cons c cs)
  then have "CHR 0x0D \<notin> set cs" "c \<noteq> CHR 0x0D" by auto
  then have "first_line c (cs @ CRLF @ r) = Some (cs @ CRLF, r)" by (rule Cons.IH)
  then show ?case using Cons.prems by (simp only: append_Cons first_line.simps) simp
qed simp

lemma append_char_spec:
  assumes "buffer_ok buf" "buf_length buf < lim" "buf_capacity buf \<le> 2 * lim + 1" "generous grants lim"
  obtains buf' where "buffer_append_char grants c buf = Inr buf'" "buffer_ok buf'" "contents buf' = contents buf @ [c]"
    "buf_length buf' = Suc (buf_length buf)" "buf_capacity buf' \<le> 2 * lim + 1"
proof -
  have le: "buf_length buf + length [c] \<le> lim" using assms(2) by simp
  show thesis
    by (rule buffer_append_spec [OF assms(1) le assms(3,4)]) (rule that, simp_all add: buffer_append_char_def)
qed

lemma read_line_from_spec:
  assumes "flowing s" "buffer_ok line" "buf_capacity line \<le> 2 * lim + 1" "buf_length line + length (arriving s) \<le> lim" "generous grants lim"
  shows "case first_line d (arriving s) of
      None \<Rightarrow> \<exists>r. read_line_from grants d line s = Inr (None, s\<lparr>incoming := r\<rparr>)
    | Some (l, rest) \<Rightarrow> \<exists>r b. read_line_from grants d line s = Inr (Some b, s\<lparr>incoming := r\<rparr>) \<and> flowing (s\<lparr>incoming := r\<rparr>) \<and>
        arriving (s\<lparr>incoming := r\<rparr>) = rest \<and> buffer_ok b \<and> contents b = contents line @ l \<and> buf_capacity b \<le> 2 * lim + 1"
  using assms
proof (induction "arriving s" arbitrary: s line d)
  case Nil
  have "read_line_from grants d line s = Inr (None, s\<lparr>incoming := incoming s\<rparr>)"
    using read_end [OF Nil.prems(1) Nil.hyps [symmetric]] by (subst read_line_from.simps) simp
  then have "\<exists>r. read_line_from grants d line s = Inr (None, s\<lparr>incoming := r\<rparr>)" by (rule exI)
  then show ?case by (simp only: Nil.hyps [symmetric] first_line.simps option.case)
next
  case (Cons c cs)
  obtain r where r: "read_fd 1 s = (Some [c], s\<lparr>incoming := r\<rparr>)" "flowing (s\<lparr>incoming := r\<rparr>)" "arriving (s\<lparr>incoming := r\<rparr>) = cs"
    by (rule read_char [OF Cons.prems(1) Cons.hyps(2) [symmetric]]) (rule that)
  have lt: "buf_length line < lim" using Cons.prems(4) Cons.hyps(2) [symmetric] by simp
  obtain b where b: "buffer_append_char grants c line = Inr b" "buffer_ok b" "contents b = contents line @ [c]"
    "buf_length b = Suc (buf_length line)" "buf_capacity b \<le> 2 * lim + 1"
    by (rule append_char_spec [OF Cons.prems(2) lt Cons.prems(3,5)]) (rule that)
  have step: "read_line_from grants d line s =
    (if d = CHR 0x0D \<and> c = CHR 0x0A then Inr (Some b, s\<lparr>incoming := r\<rparr>) else read_line_from grants c b (s\<lparr>incoming := r\<rparr>))"
    using r(1) b(1) by (subst read_line_from.simps) simp
  have le: "buf_length b + length (arriving (s\<lparr>incoming := r\<rparr>)) \<le> lim" using Cons.prems(4) Cons.hyps(2) [symmetric] b(4) r(3) by simp
  note IH = Cons.hyps(1) [OF r(3) [symmetric] r(2) b(2,5) le Cons.prems(5), of c]
  show ?case
  proof (cases "d = CHR 0x0D \<and> c = CHR 0x0A")
    case True
    then show ?thesis using step r(2,3) b Cons.hyps(2) [symmetric] by auto
  next
    case False
    show ?thesis
    proof (cases "first_line c cs")
      case None
      then show ?thesis using IH r(3) step False Cons.hyps(2) [symmetric] by (auto split: option.splits)
    next
      case (Some lr)
      obtain l rest where lr: "lr = (l, rest)" by (cases lr)
      obtain q b' where "read_line_from grants c b (s\<lparr>incoming := r\<rparr>) = Inr (Some b', s\<lparr>incoming := q\<rparr>)" "flowing (s\<lparr>incoming := q\<rparr>)"
        "arriving (s\<lparr>incoming := q\<rparr>) = rest" "buffer_ok b'" "contents b' = contents b @ l" "buf_capacity b' \<le> 2 * lim + 1"
        using IH r(3) Some lr by auto
      moreover have "first_line d (arriving s) = Some (c # l, rest)" using Some lr False Cons.hyps(2) [symmetric] by auto
      ultimately show ?thesis using step False b(3) by auto
    qed
  qed
qed

text \<open>A whole line of text: it ends with the first carriage return and line feed in it, and has no zero byte.\<close>

definition text_line :: "string \<Rightarrow> bool" where
  "text_line l \<longleftrightarrow> first_line (CHR 0x00) l = Some (l, []) \<and> CHR 0x00 \<notin> set l"

definition line_of :: "(nat \<Rightarrow> bool) \<Rightarrow> buffer_t \<Rightarrow> (proxy_stop, string) res" where
  "line_of grants b = bindE (buffer_string grants b) (\<lambda>b'. c_string_at (buf_data b'))"

lemma read_full_line_spec:
  assumes "flowing s" "arriving s = l @ rest" "text_line l" "BUFFER_SIZE + length (arriving s) < lim" "generous grants lim"
  obtains r b where "read_full_line grants s = Inr (Some b, s\<lparr>incoming := r\<rparr>)" "flowing (s\<lparr>incoming := r\<rparr>)" "arriving (s\<lparr>incoming := r\<rparr>) = rest"
    "line_of grants b = Inr l"
proof -
  have sz: "BUFFER_SIZE \<le> lim" "0 < BUFFER_SIZE" "12 \<le> lim" using assms(4) by (simp_all add: BUFFER_SIZE_def)
  obtain buf where buf: "buffer_create grants BUFFER_SIZE = Inr buf" "buffer_ok buf" "contents buf = []" "buf_length buf = 0" "buf_capacity buf \<le> 2 * lim + 1"
    by (rule buffer_create_spec [OF sz assms(5)]) (rule that)
  have le: "buf_length buf + length (arriving s) \<le> lim" using buf(4) assms(4) by simp
  have "first_line (CHR 0x00) (arriving s) = Some (l, rest)" using assms(2,3) first_line_more by (simp add: text_line_def)
  then obtain r b where b: "read_line_from grants (CHR 0x00) buf s = Inr (Some b, s\<lparr>incoming := r\<rparr>)" "flowing (s\<lparr>incoming := r\<rparr>)"
    "arriving (s\<lparr>incoming := r\<rparr>) = rest" "buffer_ok b" "contents b = l" "buf_capacity b \<le> 2 * lim + 1"
    using read_line_from_spec [OF assms(1) buf(2,5) le assms(5), of "CHR 0x00"] buf(3) by auto
  have "buf_length b = length l" using b(4,5) contents_length by metis
  then have lt: "buf_length b < lim" using assms(2,4) by simp
  obtain b' where b': "buffer_string grants b = Inr b'" "c_string_at (buf_data b') = Inr (takeWhile (\<lambda>c. c \<noteq> CHR 0x00) (contents b))"
    by (rule buffer_string_spec [OF b(4) lt b(6) assms(5)]) (rule that)
  have "takeWhile (\<lambda>c. c \<noteq> CHR 0x00) l = l" using assms(3) by (auto simp: text_line_def takeWhile_eq_all_conv)
  then show thesis using b b' buf(1) by (intro that [of b r]) (simp_all add: read_full_line_def line_of_def)
qed

section \<open>Writing to a peer that takes everything\<close>

lemma write_string_all: "accepts s = [] \<Longrightarrow> write_string s t = (True, s\<lparr>sent := sent s @ t\<rparr>)"
  by (simp add: write_string_def write_fd_def)

lemma write_all_all: "accepts s = [] \<Longrightarrow> write_all s ts = (True, s\<lparr>sent := sent s @ concat ts\<rparr>)"
  by (induction ts arbitrary: s) (simp_all add: write_string_all)

section \<open>The headers that are passed on\<close>

text \<open>The reference: headers to keep a connection alive are left out, those that name the connection say \<open>close\<close>, and host and
  connection are added where they are missing.\<close>

definition passed_on :: "string \<Rightarrow> string" where
  "passed_on l =
     (if starts_with l ''Keep-Alive:'' then []
      else if starts_with l ''Connection:'' then ''Connection: close'' @ CRLF
      else if starts_with l ''Proxy-Connection:'' then ''Proxy-Connection: close'' @ CRLF
      else l)"

definition forwarded :: "bool \<Rightarrow> bool \<Rightarrow> string \<Rightarrow> string list \<Rightarrow> string" where
  "forwarded has_host has_connection host ls =
     concat (map passed_on ls) @
     (if has_host \<or> (\<exists>l \<in> set ls. starts_with l ''Host:'') then [] else ''Host: '' @ host @ CRLF) @
     (if has_connection \<or> (\<exists>l \<in> set ls. starts_with l ''Connection:'') then [] else ''Connection: close'' @ CRLF) @
     CRLF"

text \<open>No line starts with two of the names, since they differ in their first letter.\<close>

lemma starts_with_first: "starts_with l (c # cs) \<Longrightarrow> \<exists>r. l = c # r"
  by (cases l) (simp_all add: starts_with_def)

lemma names_differ: "c \<noteq> d \<Longrightarrow> starts_with l (c # cs) \<Longrightarrow> \<not> starts_with l (d # ds)"
  by (auto dest!: starts_with_first)

lemma header_kind_names:
  "header_kind l = Drop \<longleftrightarrow> starts_with l ''Keep-Alive:''"
  "header_kind l = Host_line \<longleftrightarrow> starts_with l ''Host:''"
  "header_kind l = Connection_line \<longleftrightarrow> starts_with l ''Connection:''"
  "header_kind l = Proxy_line \<longleftrightarrow> starts_with l ''Proxy-Connection:''"
  by (auto simp: header_kind_def dest: names_differ [rotated])

lemma header_sent_passed_on: "header_kind l \<noteq> Drop \<Longrightarrow> header_sent l = passed_on l"
  unfolding header_sent_def passed_on_def header_kind_names [symmetric] by (cases "header_kind l") simp_all

lemma text_line_CRLF: "text_line CRLF"
  by (simp add: text_line_def)

lemma filter_from_line:
  assumes "flowing client" "arriving client = l @ rest" "text_line l" "BUFFER_SIZE + length (arriving client) < lim" "generous grants lim"
    and acc: "accepts server = []"
  obtains r where "flowing (client\<lparr>incoming := r\<rparr>)" "arriving (client\<lparr>incoming := r\<rparr>) = rest"
    "filter_from grants h k client server host =
       (if l = CRLF then (case finish_headers h k host server of (ok, server') \<Rightarrow> Inr (ok, client\<lparr>incoming := r\<rparr>, server'))
        else if header_kind l = Drop then filter_from grants h k (client\<lparr>incoming := r\<rparr>) server host
        else filter_from grants (h \<or> header_kind l = Host_line) (k \<or> header_kind l = Connection_line)
               (client\<lparr>incoming := r\<rparr>) (server\<lparr>sent := sent server @ header_sent l\<rparr>) host)"
proof -
  obtain r b where r: "read_full_line grants client = Inr (Some b, client\<lparr>incoming := r\<rparr>)" "flowing (client\<lparr>incoming := r\<rparr>)"
    "arriving (client\<lparr>incoming := r\<rparr>) = rest" "line_of grants b = Inr l"
    by (rule read_full_line_spec [OF assms(1-5)]) (rule that)
  obtain b' where b': "buffer_string grants b = Inr b'" "c_string_at (buf_data b') = Inr l" using r(4) by (auto simp: line_of_def csplit)
  show thesis
    by (rule that [OF r(2,3)], subst filter_from.simps) (simp only: r(1) b' bindE_Inr prod.case option.case write_string_all [OF acc] if_True)
qed

lemma filter_from_spec:
  assumes "flowing client" "arriving client = concat ls @ CRLF @ rest" "\<forall>l \<in> set ls. text_line l \<and> l \<noteq> CRLF" "accepts server = []"
    "BUFFER_SIZE + length (arriving client) < lim" "generous grants lim"
  shows "\<exists>r. filter_from grants h k client server host =
      Inr (True, client\<lparr>incoming := r\<rparr>, server\<lparr>sent := sent server @ forwarded h k host ls\<rparr>) \<and>
    flowing (client\<lparr>incoming := r\<rparr>) \<and> arriving (client\<lparr>incoming := r\<rparr>) = rest"
  using assms(1-5)
proof (induction ls arbitrary: client server h k)
  case Nil
  have ar: "arriving client = CRLF @ rest" using Nil.prems(2) by simp
  obtain r where r: "flowing (client\<lparr>incoming := r\<rparr>)" "arriving (client\<lparr>incoming := r\<rparr>) = rest"
    "filter_from grants h k client server host = (case finish_headers h k host server of (ok, server') \<Rightarrow> Inr (ok, client\<lparr>incoming := r\<rparr>, server'))"
    by (rule filter_from_line [OF Nil.prems(1) ar text_line_CRLF Nil.prems(5) assms(6) Nil.prems(4), of h k host]) (rule that, simp_all)
  have "finish_headers h k host server = (True, server\<lparr>sent := sent server @ forwarded h k host []\<rparr>)"
    using Nil.prems(4) by (simp add: finish_headers_def write_all_all forwarded_def)
  then show ?case using r by auto
next
  case (Cons l ls)
  have l: "text_line l" "l \<noteq> CRLF" and ls: "\<forall>l \<in> set ls. text_line l \<and> l \<noteq> CRLF" using Cons.prems(3) by auto
  have ar: "arriving client = l @ (concat ls @ CRLF @ rest)" using Cons.prems(2) by simp
  obtain r where r: "flowing (client\<lparr>incoming := r\<rparr>)" "arriving (client\<lparr>incoming := r\<rparr>) = concat ls @ CRLF @ rest"
    "filter_from grants h k client server host =
       (if header_kind l = Drop then filter_from grants h k (client\<lparr>incoming := r\<rparr>) server host
        else filter_from grants (h \<or> header_kind l = Host_line) (k \<or> header_kind l = Connection_line)
               (client\<lparr>incoming := r\<rparr>) (server\<lparr>sent := sent server @ header_sent l\<rparr>) host)"
    by (rule filter_from_line [OF Cons.prems(1) ar l(1) Cons.prems(5) assms(6) Cons.prems(4), of h k host])
       (rule that, simp_all only: l(2) if_False)
  have lim: "BUFFER_SIZE + length (arriving (client\<lparr>incoming := r\<rparr>)) < lim" using r(2) Cons.prems(5) ar by simp
  note IH = Cons.IH [OF r(1,2) ls _ lim]
  show ?case
  proof (cases "header_kind l = Drop")
    case True
    then have "forwarded h k host (l # ls) = forwarded h k host ls"
      using names_differ by (auto simp: forwarded_def passed_on_def header_kind_names dest: names_differ [rotated])
    then show ?thesis using IH [of server h k] r(3) True Cons.prems(4) by simp
  next
    case False
    have "passed_on l @ forwarded (h \<or> header_kind l = Host_line) (k \<or> header_kind l = Connection_line) host ls = forwarded h k host (l # ls)"
      by (simp add: forwarded_def header_kind_names)
    then show ?thesis
      using IH [of "server\<lparr>sent := sent server @ header_sent l\<rparr>" "h \<or> header_kind l = Host_line" "k \<or> header_kind l = Connection_line"]
        r(3) False Cons.prems(4) header_sent_passed_on [OF False] by simp
  qed
qed

end
