(* ===== verification/Proxy_Requests.thy ===== *)
theory Proxy_Requests
  imports Proxy_Relay Proxy_Lines
begin

text \<open>
  A whole request through the proxy: the request line is taken apart, the server is asked in the place of the client, and the response is
  handed back -- or the thread ends in its own cache.
\<close>

section \<open>Tokens\<close>

lemma until_char: "c \<notin> set t \<Longrightarrow> takeWhile (\<lambda>x. x \<noteq> c) (t @ c # s) = t \<and> dropWhile (\<lambda>x. x \<noteq> c) (t @ c # s) = c # s"
  by (induction t) auto

lemma without_char: "c \<notin> set t \<Longrightarrow> takeWhile (\<lambda>x. x \<noteq> c) t = t \<and> dropWhile (\<lambda>x. x \<noteq> c) t = []"
  by (induction t) auto

lemma skip_none: "t \<noteq> [] \<Longrightarrow> c \<notin> set t \<Longrightarrow> dropWhile (\<lambda>x. x = c) (t @ s) = t @ s"
  by (cases t) auto

lemma strtok_token: "t \<noteq> [] \<Longrightarrow> CHR '' '' \<notin> set t \<Longrightarrow> strtok_r (t @ CHR '' '' # s) = (Some t, s)"
  using until_char [of "CHR '' ''" t s] skip_none [of t "CHR '' ''"] by (simp add: strtok_r_def Let_def)

lemma strtok_last: "t \<noteq> [] \<Longrightarrow> CHR '' '' \<notin> set t \<Longrightarrow> strtok_r t = (Some t, [])"
  using skip_none [of t "CHR '' ''" "[]"]
  by (simp add: strtok_r_def Let_def without_char [THEN conjunct1] without_char [THEN conjunct2])

lemma starts_with_append [simp]: "starts_with (p @ s) p"
  by (simp add: starts_with_def)

section \<open>The request of a client\<close>

definition plain_text :: "string \<Rightarrow> bool" where
  "plain_text s \<longleftrightarrow> CHR '' '' \<notin> set s \<and> CHR 0x0D \<notin> set s \<and> CHR 0x00 \<notin> set s"

definition request_line :: "string \<Rightarrow> string \<Rightarrow> string \<Rightarrow> string" where
  "request_line host path version = ''GET '' @ (''http://'' @ host @ path) @ '' '' @ (''HTTP/'' @ version) @ CRLF"

definition well_formed :: "string \<Rightarrow> string \<Rightarrow> string \<Rightarrow> bool" where
  "well_formed host path version \<longleftrightarrow> plain_text host \<and> plain_text path \<and> plain_text version \<and> CHR ''/'' \<notin> set host \<and> (path = [] \<or> List.hd path = CHR ''/'')"

definition path_asked :: "string \<Rightarrow> string" where
  "path_asked path = (if path = [] then ''/'' else path)"

lemma parse_request_line:
  assumes "well_formed host path version"
  shows "parse_request (request_line host path version) = Request host (path_asked path)"
proof -
  let ?url = "''http://'' @ host @ path" and ?version = "''HTTP/'' @ version @ CRLF"
  have url: "?url \<noteq> []" "CHR '' '' \<notin> set ?url" and ver: "?version \<noteq> []" "CHR '' '' \<notin> set ?version"
    using assms by (simp_all add: well_formed_def plain_text_def)
  have "strtok_r (request_line host path version) = (Some ''GET'', ?url @ CHR '' '' # ?version)"
    using strtok_token [of "''GET''" "?url @ CHR '' '' # ?version"] by (simp add: request_line_def)
  moreover have "strtok_r (?url @ CHR '' '' # ?version) = (Some ?url, ?version)" by (rule strtok_token [OF url])
  moreover have "strtok_r ?version = (Some ?version, [])" by (rule strtok_last [OF ver])
  moreover have "fst (strtok_r []) = None" by (simp add: strtok_r_def)
  moreover have "takeWhile (\<lambda>c. c \<noteq> CHR ''/'') (host @ path) = host" "dropWhile (\<lambda>c. c \<noteq> CHR ''/'') (host @ path) = path"
    using assms by (cases path; auto simp: well_formed_def takeWhile_append dropWhile_append)+
  moreover have "starts_with ?version ''HTTP/''" "starts_with ?url ''http://''" by (rule starts_with_append)+
  moreover have "drop (length ''http://'') ?url = host @ path" by simp
  ultimately show ?thesis unfolding parse_request_def Let_def by (simp only: prod.case option.case path_asked_def fst_conv) simp
qed

lemma request_line_text: "well_formed host path version \<Longrightarrow> text_line (request_line host path version)"
proof -
  assume wf: "well_formed host path version"
  let ?l = "''GET '' @ (''http://'' @ host @ path) @ '' '' @ ''HTTP/'' @ version"
  have "CHR 0x0D \<notin> set ?l" using wf by (auto simp: well_formed_def plain_text_def)
  then have "first_line (CHR 0x00) (?l @ CRLF @ []) = Some (?l @ CRLF, [])" by (rule first_line_plain) simp
  moreover have "CHR 0x00 \<notin> set (request_line host path version)" using wf by (auto simp: well_formed_def plain_text_def request_line_def)
  ultimately show ?thesis by (simp add: text_line_def request_line_def)
qed

lemma request_line_read:
  assumes "flowing client" "arriving client = request_line host path version @ rest" "well_formed host path version"
    "BUFFER_SIZE + length (arriving client) < lim" "generous grants lim"
  obtains r where "make_get_header grants client =
      Inr (Some (host, path_asked path), client\<lparr>incoming := r\<rparr>, ''Handling Request: '' @ host @ path_asked path @ [CHR 0x0A])"
    "flowing (client\<lparr>incoming := r\<rparr>)" "arriving (client\<lparr>incoming := r\<rparr>) = rest"
proof -
  obtain r b where r: "read_full_line grants client = Inr (Some b, client\<lparr>incoming := r\<rparr>)" "flowing (client\<lparr>incoming := r\<rparr>)"
    "arriving (client\<lparr>incoming := r\<rparr>) = rest" "line_of grants b = Inr (request_line host path version)"
    by (rule read_full_line_spec [OF assms(1,2) request_line_text [OF assms(3)] assms(4,5)]) (rule that)
  obtain b' where b': "buffer_string grants b = Inr b'" "c_string_at (buf_data b') = Inr (request_line host path version)"
    using r(4) by (auto simp: line_of_def csplit)
  have "length host + length (path_asked path) < length (request_line host path version)" by (simp add: request_line_def path_asked_def)
  also have "\<dots> < lim" using assms(2,4) by simp
  finally have g: "grants (length (path_asked path) + 1)" "grants (length host + 1)" using assms(5) by (simp_all add: generous_def)
  then show thesis using r b' parse_request_line [OF assms(3)] by (intro that [of r]) (simp_all add: make_get_header_def)
qed

text \<open>C31. A well-formed request line is understood: the handler gets the host and the path, the path with its leading \<open>/\<close> (and \<open>/\<close> alone
  when the line has none), contrary to the comment on the function; the version is checked and dropped. It has read exactly the line, and has sent the
  client nothing.\<close>

theorem request_line_understood:
  assumes "flowing client" "arriving client = request_line host path version @ rest" "well_formed host path version"
    "BUFFER_SIZE + length (arriving client) < lim" "generous grants lim"
  shows "\<exists>r. make_get_header grants client =
      Inr (Some (host, path_asked path), client\<lparr>incoming := r\<rparr>, ''Handling Request: '' @ host @ path_asked path @ [CHR 0x0A]) \<and>
    flowing (client\<lparr>incoming := r\<rparr>) \<and> arriving (client\<lparr>incoming := r\<rparr>) = rest"
  by (rule request_line_read [OF assms]) blast

section \<open>Reaching the server\<close>

lemma port_fits: "split_host full = Some (hostname, port) \<Longrightarrow> length (show_int port) \<le> 5"
proof -
  assume "split_host full = Some (hostname, port)"
  then have "0 < port" "port \<le> 65535" by (auto simp: split_host_def Let_def split: if_splits)
  then have "nat port < 10 ^ 5" by simp
  then show ?thesis using show_base_length [of 10 "nat port" 5] \<open>0 < port\<close> by (simp add: show_int_def show_nat_def)
qed

lemma split_host_name: "split_host full = Some (hostname, port) \<Longrightarrow> hostname = takeWhile (\<lambda>c. c \<noteq> CHR '':'') full"
  by (simp add: split_host_def Let_def without_char [THEN conjunct1] split: if_splits)

lemma connected:
  assumes "split_host full = Some (hostname, port)" "net hostname (show_int port) = Connected server"
  shows "open_server_connection net client full = Inr (Some server, client, hostname)"
  using assms port_fits [OF assms(1)] split_host_name [OF assms(1)] by (simp add: open_server_connection_def open_client_fd_def Let_def)

text \<open>A client that asks for a path on a host, with some more headers, and takes what it is sent.\<close>

definition asks :: "sock \<Rightarrow> string \<Rightarrow> string \<Rightarrow> string \<Rightarrow> string list \<Rightarrow> string \<Rightarrow> bool" where
  "asks client host path version ls rest \<longleftrightarrow>
     flowing client \<and> accepts client = [] \<and> well_formed host path version \<and> (\<forall>l \<in> set ls. text_line l \<and> l \<noteq> CRLF) \<and>
     arriving client = request_line host path version @ concat ls @ CRLF @ rest"

text \<open>What the server is sent.\<close>

definition asked_of_server :: "string \<Rightarrow> string \<Rightarrow> string list \<Rightarrow> string" where
  "asked_of_server hostname path ls = ''GET '' @ path_asked path @ '' HTTP/1.0'' @ CRLF @ forwarded False False hostname ls"

lemma generous_init: "generous grants lim \<Longrightarrow> BUFFER_SIZE < lim \<Longrightarrow> \<exists>c. init_cache grants = Inr c \<and> cache_empty c"
  by (simp add: generous_def BUFFER_SIZE_def init_cache_def init_queue_def init_hash_table_def BINS_def cache_empty_def)

lemma handle_request_until_response:
  assumes "asks client host path version ls rest" "split_host host = Some (hostname, port)" "net hostname (show_int port) = Connected server"
    "accepts server = []" "BUFFER_SIZE + length (arriving client) < lim" "generous grants lim"
  obtains c r where "cache_empty c" "handle_request grants detects fuel net shut client =
    bindE (send_response grants detects fuel (client\<lparr>incoming := r\<rparr>) (server\<lparr>sent := sent server @ asked_of_server hostname path ls\<rparr>)
             hostname (path_asked path) c)
      (\<lambda>(_, client4, server3, _).
        Inr (finish_client shut client4, Some (close_fd server3), ''Handling Request: '' @ host @ path_asked path @ [CHR 0x0A]))"
proof -
  have a: "flowing client" "arriving client = request_line host path version @ (concat ls @ CRLF @ rest)" "well_formed host path version"
    "\<forall>l \<in> set ls. text_line l \<and> l \<noteq> CRLF" using assms(1) by (simp_all add: asks_def)
  obtain c where c: "init_cache grants = Inr c" "cache_empty c" using generous_init assms(5,6) by (metis add_lessD1)
  obtain r where r: "make_get_header grants client =
      Inr (Some (host, path_asked path), client\<lparr>incoming := r\<rparr>, ''Handling Request: '' @ host @ path_asked path @ [CHR 0x0A])"
    "flowing (client\<lparr>incoming := r\<rparr>)" "arriving (client\<lparr>incoming := r\<rparr>) = concat ls @ CRLF @ rest"
    by (rule request_line_read [OF a(1-3) assms(5,6)]) (rule that)
  let ?server = "server\<lparr>sent := sent server @ ''GET '' @ path_asked path @ '' HTTP/1.0'' @ CRLF\<rparr>"
  have get: "send_get_header server (path_asked path) = (True, ?server)" unfolding send_get_header_def write_all_all [OF assms(4)] by simp
  have lim: "BUFFER_SIZE + length (arriving (client\<lparr>incoming := r\<rparr>)) < lim" using r(3) a(2) assms(5) by simp
  have acc: "accepts ?server = []" using assms(4) by simp
  obtain q where q: "filter_rest_headers grants (client\<lparr>incoming := r\<rparr>) ?server hostname =
    Inr (True, client\<lparr>incoming := q\<rparr>, server\<lparr>sent := sent server @ asked_of_server hostname path ls\<rparr>)"
    using filter_from_spec [OF r(2,3) a(4) acc lim assms(6), of False False hostname] by (auto simp: filter_rest_headers_def asked_of_server_def)
  show thesis
    by (rule that [OF c(2)], simp only: handle_request_def c(1) r(1) connected [where net = net, OF assms(2,3)] get q bindE_Inr prod.case option.case bool.case not_True_eq_False if_False)
qed

lemma finish_client_sent [simp]: "sent (finish_client shut s) = sent s" "closed (finish_client shut s)"
  by (auto simp: finish_client_def close_fd_def read_fd_def split: list.splits option.splits)

lemma response_start:
  assumes "cache_empty c" "asks client host path version ls rest" "split_host host = Some (hostname, port)"
    "BUFFER_SIZE + length (arriving client) < lim" "generous grants lim"
  obtains c' b k where "send_response grants detects fuel client' server hostname (path_asked path) c = relay grants detects fuel k b client' server c'"
    "grown c' (hash (snd k) mod 256) b [] 0" "buffer_is c' b 0 lim"
proof -
  have "length hostname \<le> length host" using split_host_name [OF assms(3)] by (simp add: length_takeWhile_le)
  moreover have "length host + length (path_asked path) \<le> length (arriving client)"
    using assms(2) by (simp add: asks_def request_line_def path_asked_def)
  ultimately have "length hostname + length (path_asked path) \<le> lim" "BUFFER_SIZE \<le> lim" using assms(4) by simp_all
  then show thesis using send_response_start [OF assms(1,5)] that by blast
qed

section \<open>What becomes of a request\<close>

text \<open>C5. A request is served: the server is asked for the path with the client's headers, rewritten as documented, the client receives
  the whole response, and both connections are closed -- if the lengths of the response so far, taken over its chunks, add up to less than
  the size of the cache, and, where the lock does not report a second locking, no chunk follows the first 100 KB.\<close>

theorem request_served:
  assumes "asks client host path version ls rest" "split_host host = Some (hostname, port)" "net hostname (show_int port) = Connected server"
    "accepts server = []" "sends server segs" "cost 0 segs < MAX_CACHE_SIZE" "detects \<or> length (concat (butlast segs)) < MAX_OBJECT_SIZE"
    "length segs \<le> fuel" "BUFFER_SIZE + length (arriving client) + length (concat segs) < lim" "generous grants lim"
  shows "\<exists>client' server'. handle_request grants detects fuel net shut client =
      Inr (client', Some server', ''Handling Request: '' @ host @ path_asked path @ [CHR 0x0A]) \<and>
    sent client' = sent client @ concat segs \<and> sent server' = sent server @ asked_of_server hostname path ls \<and> closed client' \<and> closed server'"
proof -
  have lim: "BUFFER_SIZE + length (arriving client) < lim" "length (concat segs) \<le> lim" "24 \<le> lim" using assms(9) by (simp_all add: BUFFER_SIZE_def)
  obtain c r where c: "cache_empty c" and run: "handle_request grants detects fuel net shut client =
    bindE (send_response grants detects fuel (client\<lparr>incoming := r\<rparr>) (server\<lparr>sent := sent server @ asked_of_server hostname path ls\<rparr>)
             hostname (path_asked path) c)
      (\<lambda>(_, client4, server3, _).
        Inr (finish_client shut client4, Some (close_fd server3), ''Handling Request: '' @ host @ path_asked path @ [CHR 0x0A]))"
    by (rule handle_request_until_response [where net = net, OF assms(1-4) lim(1) assms(10)]) (rule that)
  let ?client = "client\<lparr>incoming := r\<rparr>" and ?server = "server\<lparr>sent := sent server @ asked_of_server hostname path ls\<rparr>"
  obtain c' b k where resp: "send_response grants detects fuel ?client ?server hostname (path_asked path) c = relay grants detects fuel k b ?client ?server c'"
    and g: "grown c' (hash (snd k) mod 256) b [] 0" "buffer_is c' b 0 lim"
    by (rule response_start [OF c assms(1,2) lim(1) assms(10)]) (rule that)
  have acc: "accepts ?client = []" "sends ?server segs" using assms(1,5) by (simp_all add: asks_def sends_def)
  obtain c2 where "relay grants detects fuel k b ?client ?server c' =
    Inr (True, ?client\<lparr>sent := sent ?client @ concat segs\<rparr>, ?server\<lparr>incoming := []\<rparr>, c2)"
    using relay_whole [OF g _ acc(2,1) _ _ _ assms(10) lim(3) refl, of detects fuel] assms(6-8) lim(2) by auto
  then show ?thesis using run resp by (simp add: close_fd_def)
qed

text \<open>C32. Otherwise the thread ends in the cache: where the lock reports a second locking, with an access to a node that the eviction has
  freed; where it does not, blocked for good on the lock it holds itself.\<close>

theorem request_stops:
  assumes "asks client host path version ls rest" "split_host host = Some (hostname, port)" "net hostname (show_int port) = Connected server"
    "accepts server = []" "sends server segs"
    "MAX_CACHE_SIZE \<le> cost 0 segs \<or> \<not> detects \<and> MAX_OBJECT_SIZE \<le> length (concat (butlast segs))"
    "length segs \<le> fuel" "BUFFER_SIZE + length (arriving client) + length (concat segs) < lim" "generous grants lim"
  shows "handle_request grants detects fuel net shut client = Inl (if detects then Invalid_access else Deadlock)"
proof -
  have lim: "BUFFER_SIZE + length (arriving client) < lim" "length (concat segs) \<le> lim" "24 \<le> lim" using assms(8) by (simp_all add: BUFFER_SIZE_def)
  obtain c r where c: "cache_empty c" and run: "handle_request grants detects fuel net shut client =
    bindE (send_response grants detects fuel (client\<lparr>incoming := r\<rparr>) (server\<lparr>sent := sent server @ asked_of_server hostname path ls\<rparr>)
             hostname (path_asked path) c)
      (\<lambda>(_, client4, server3, _).
        Inr (finish_client shut client4, Some (close_fd server3), ''Handling Request: '' @ host @ path_asked path @ [CHR 0x0A]))"
    by (rule handle_request_until_response [where net = net, OF assms(1-4) lim(1) assms(9)]) (rule that)
  let ?client = "client\<lparr>incoming := r\<rparr>" and ?server = "server\<lparr>sent := sent server @ asked_of_server hostname path ls\<rparr>"
  obtain c' b k where resp: "send_response grants detects fuel ?client ?server hostname (path_asked path) c = relay grants detects fuel k b ?client ?server c'"
    and g: "grown c' (hash (snd k) mod 256) b [] 0" "buffer_is c' b 0 lim"
    by (rule response_start [OF c assms(1,2) lim(1) assms(9)]) (rule that)
  have acc: "accepts ?client = []" "sends ?server segs" using assms(1,5) by (simp_all add: asks_def sends_def)
  have small: "(0 :: nat) < MAX_CACHE_SIZE" "(0 :: nat) < MAX_OBJECT_SIZE" by (simp_all add: MAX_CACHE_SIZE_def MAX_OBJECT_SIZE_def)
  have "relay grants detects fuel k b ?client ?server c' = Inl (if detects then Invalid_access else Deadlock)"
    using relay_stops [OF g small acc(2,1) _ _ _ assms(9) lim(3) refl, of detects fuel] assms(6,7) lim(2) by simp
  then show ?thesis using run resp by simp
qed

text \<open>C19. The headers are passed on as documented, whatever the segments in which they arrive: the reference definition \<open>forwarded\<close>
  drops, rewrites and adds lines, and the loop over the stream sends exactly its result.\<close>

theorem headers_rewritten:
  assumes "flowing client" "arriving client = concat ls @ CRLF @ rest" "\<forall>l \<in> set ls. text_line l \<and> l \<noteq> CRLF" "accepts server = []"
    "BUFFER_SIZE + length (arriving client) < lim" "generous grants lim"
  shows "\<exists>r. filter_rest_headers grants client server host =
      Inr (True, client\<lparr>incoming := r\<rparr>, server\<lparr>sent := sent server @ forwarded False False host ls\<rparr>) \<and>
    flowing (client\<lparr>incoming := r\<rparr>) \<and> arriving (client\<lparr>incoming := r\<rparr>) = rest"
  unfolding filter_rest_headers_def by (rule filter_from_spec [OF assms])

text \<open>Every status message fits the array it is printed into, with bytes to spare.\<close>

theorem status_message_fits:
  "length (status_message status msg) + 6 = response_size status msg \<and>
   send_status_code client status msg = Inr (write_string client (status_message status msg))"
  by (simp add: send_status_code_def status_message_def response_size_def status_format_def)

section \<open>An example\<close>

definition sample_browser :: sock where
  "sample_browser =
     \<lparr>incoming = [Some ''GET http://a.b:8080 HT'', Some (''TP/1.1'' @ CRLF @ ''Connection: keep-alive'' @ CRLF @ ''Accept: x'' @ CRLF @ CRLF)],
      accepts = [], sent = [], closed = False\<rparr>"

definition sample_server :: "string list \<Rightarrow> sock" where
  "sample_server segs = \<lparr>incoming = map Some segs, accepts = [], sent = [], closed = False\<rparr>"

definition sample_net :: "string list \<Rightarrow> string \<Rightarrow> string \<Rightarrow> connection" where
  "sample_net segs hostname port = (if hostname = ''a.b'' \<and> port = ''8080'' then Connected (sample_server segs) else Unresolved EAI_NONAME)"

definition sample_headers :: "string list" where
  "sample_headers = [''Connection: keep-alive'' @ CRLF, ''Accept: x'' @ CRLF]"

lemma sample_asks: "asks sample_browser ''a.b:8080'' [] ''1.1'' sample_headers []"
  by (simp add: asks_def flowing_def sample_browser_def well_formed_def plain_text_def sample_headers_def text_line_def arriving_def request_line_def)

lemma sample_connects:
  "split_host ''a.b:8080'' = Some (''a.b'', 8080)"
  "sample_net segs ''a.b'' (show_int 8080) = Connected (sample_server segs)"
proof -
  show "split_host ''a.b:8080'' = Some (''a.b'', 8080)"
    by (simp add: split_host_def atoi_def strtol_sign_def isspace_def digit_value_def Let_def)
  have "show_int 8080 = ''8080''"
    by (simp add: show_int_def show_nat_def digit_char_def char_of_def bit_0 show_base.simps [of 10 8080] show_base.simps [of 10 808]
      show_base.simps [of 10 80] show_base.simps [of 10 8])
  then show "sample_net segs ''a.b'' (show_int 8080) = Connected (sample_server segs)" by (simp add: sample_net_def)
qed

lemma sample_arriving: "length (arriving sample_browser) < 100"
  by (simp add: arriving_def sample_browser_def)

lemma sample_generous: "generous (\<lambda>_. True) 200000"
  by (simp add: generous_def)

theorem request_served_witness:
  "\<exists>client' server'. handle_request (\<lambda>_. True) False 5 (sample_net [''HTTP/1.0 200 OK'', ''abc'']) True sample_browser =
      Inr (client', Some server', ''Handling Request: '' @ ''a.b:8080'' @ path_asked [] @ [CHR 0x0A]) \<and>
    sent client' = sent sample_browser @ concat [''HTTP/1.0 200 OK'', ''abc''] \<and>
    sent server' = sent (sample_server [''HTTP/1.0 200 OK'', ''abc'']) @ asked_of_server ''a.b'' [] sample_headers \<and> closed client' \<and> closed server'"
proof (rule request_served [where lim = 200000 and detects = False and fuel = 5 and net = "sample_net [''HTTP/1.0 200 OK'', ''abc'']", OF sample_asks sample_connects])
  show "accepts (sample_server [''HTTP/1.0 200 OK'', ''abc'']) = []" by (simp add: sample_server_def)
  show "sends (sample_server [''HTTP/1.0 200 OK'', ''abc'']) [''HTTP/1.0 200 OK'', ''abc'']"
    by (simp add: sample_server_def sends_def BUFFER_SIZE_def)
qed (use sample_arriving in \<open>simp_all add: sample_generous BUFFER_SIZE_def MAX_CACHE_SIZE_def MAX_OBJECT_SIZE_def\<close>)

definition sample_chunks :: "string list" where
  "sample_chunks = replicate 23 (replicate 4000 (CHR ''x''))"

lemma sample_chunks_size: "length sample_chunks = 23" "length (concat sample_chunks) = 92000"
  by (simp_all add: sample_chunks_def length_concat sum_list_replicate)

lemma cost_replicate: "len + n * length x < MAX_OBJECT_SIZE \<Longrightarrow> 2 * cost len (replicate n x) = 2 * n * len + length x * (n * (n + 1))"
proof (induction n arbitrary: len)
  case (Suc n)
  have "2 * cost (len + length x) (replicate n x) = 2 * n * (len + length x) + length x * (n * (n + 1))"
    using Suc.prems by (intro Suc.IH) (simp add: algebra_simps)
  then show ?case using Suc.prems by (simp add: algebra_simps)
qed simp

lemma sample_chunks_cost: "MAX_CACHE_SIZE \<le> cost 0 sample_chunks"
  using cost_replicate [of 0 23 "replicate 4000 (CHR ''x'')"] by (simp add: sample_chunks_def MAX_CACHE_SIZE_def MAX_OBJECT_SIZE_def)

theorem request_stops_witness:
  "handle_request (\<lambda>_. True) True 23 (sample_net sample_chunks) True sample_browser = Inl (if True then Invalid_access else Deadlock)"
proof (rule request_stops [where lim = 200000 and detects = True and fuel = 23 and net = "sample_net sample_chunks", OF sample_asks sample_connects])
  show "accepts (sample_server sample_chunks) = []" by (simp add: sample_server_def)
  show "sends (sample_server sample_chunks) sample_chunks"
    by (simp add: sample_server_def sends_def BUFFER_SIZE_def sample_chunks_def)
  show "MAX_CACHE_SIZE \<le> cost 0 sample_chunks \<or> \<not> True \<and> MAX_OBJECT_SIZE \<le> length (concat (butlast sample_chunks))"
    using sample_chunks_cost by simp
qed (use sample_arriving in \<open>simp_all add: sample_generous BUFFER_SIZE_def sample_chunks_size\<close>)

theorem request_line_understood_witness:
  "\<exists>r. make_get_header (\<lambda>_. True) sample_browser =
      Inr (Some (''a.b:8080'', path_asked []), sample_browser\<lparr>incoming := r\<rparr>, ''Handling Request: '' @ ''a.b:8080'' @ path_asked [] @ [CHR 0x0A]) \<and>
    flowing (sample_browser\<lparr>incoming := r\<rparr>) \<and> arriving (sample_browser\<lparr>incoming := r\<rparr>) = concat sample_headers @ CRLF @ []"
  using sample_asks sample_arriving
  by (intro request_line_understood [where lim = 200000 and version = "''1.1''"]) (auto simp: asks_def sample_generous BUFFER_SIZE_def)

definition sample_header_client :: sock where
  "sample_header_client =
     \<lparr>incoming = [Some (''Host: a.b'' @ CRLF @ ''Keep-Al''), Some (''ive: 5'' @ CRLF @ ''Proxy-Connection: x'' @ CRLF @ CRLF @ ''z'')],
      accepts = [], sent = [], closed = False\<rparr>"

theorem headers_rewritten_witness:
  "\<exists>r. filter_rest_headers (\<lambda>_. True) sample_header_client (sample_server []) ''a.b'' =
      Inr (True, sample_header_client\<lparr>incoming := r\<rparr>,
        (sample_server [])\<lparr>sent := sent (sample_server []) @
           forwarded False False ''a.b'' [''Host: a.b'' @ CRLF, ''Keep-Alive: 5'' @ CRLF, ''Proxy-Connection: x'' @ CRLF]\<rparr>) \<and>
    flowing (sample_header_client\<lparr>incoming := r\<rparr>) \<and> arriving (sample_header_client\<lparr>incoming := r\<rparr>) = ''z''"
  by (rule headers_rewritten [where lim = 200000 and server = "sample_server []"])
     (simp_all add: flowing_def arriving_def sample_header_client_def sample_server_def text_line_def BUFFER_SIZE_def sample_generous)

end
