(* ===== verification/C_Double.thy ===== *)
theory C_Double
  imports C_Prelude Complex_Main
begin

text \<open>
  Results of \<open>double\<close> arithmetic: the exact value rounded to 53 significant bits, ties to even. The exponent is not bounded, which is right for
  the quotients of integers of 64 bits that are computed here: they lie between \<open>2 ^ -64\<close> and \<open>2 ^ 64\<close> or are 0.
\<close>

section \<open>Rounding\<close>

definition round_even :: "rat \<Rightarrow> int" where
  "round_even x =
     (let n = \<lfloor>x\<rfloor>; d = x - of_int n in if d < 1 / 2 \<or> d = 1 / 2 \<and> even n then n else n + 1)"

text \<open>The position of the highest bit of a number, and of a positive quotient.\<close>

fun high_bit :: "nat \<Rightarrow> nat" where
  "high_bit n = (if n < 2 then 0 else Suc (high_bit (n div 2)))"

declare high_bit.simps [simp del]

definition exponent :: "rat \<Rightarrow> int" where
  "exponent x =
     (let (a, b) = quotient_of x; e = int (high_bit (nat a)) - int (high_bit (nat b))
      in if 2 powi e \<le> x then e else e - 1)"

definition round_positive :: "rat \<Rightarrow> rat" where
  "round_positive x = (let u = 2 powi (exponent x - 52) in of_int (round_even (x / u)) * u)"

definition to_double :: "rat \<Rightarrow> rat" where
  "to_double x = (if x = 0 then 0 else if 0 < x then round_positive x else - round_positive (- x))"

section \<open>Facts\<close>

lemma round_even_near: "of_int (round_even x) \<le> x + 1 / 2" "x - 1 / 2 \<le> of_int (round_even x)"
proof -
  define n where "n = \<lfloor>x\<rfloor>"
  have "of_int n \<le> x" "x < of_int n + 1" using floor_correct [of x] by (simp_all add: n_def)
  then show "of_int (round_even x) \<le> x + 1 / 2" "x - 1 / 2 \<le> of_int (round_even x)"
    unfolding round_even_def Let_def n_def [symmetric] by (auto simp: field_simps)
qed

lemma round_even_of_int [simp]: "round_even (of_int n) = n"
  by (simp add: round_even_def)

lemma round_even_mono: "x \<le> y \<Longrightarrow> round_even x \<le> round_even y"
proof -
  assume xy: "x \<le> y"
  then have "\<lfloor>x\<rfloor> \<le> \<lfloor>y\<rfloor>" by (rule floor_mono)
  moreover have "\<lfloor>x\<rfloor> \<le> round_even x" "round_even x \<le> \<lfloor>x\<rfloor> + 1" "\<lfloor>y\<rfloor> \<le> round_even y" for x y :: rat
    by (simp_all add: round_even_def Let_def)
  moreover have "round_even x \<le> round_even y" if "\<lfloor>x\<rfloor> = \<lfloor>y\<rfloor>"
    using xy that by (auto simp: round_even_def Let_def)
  ultimately show ?thesis by (cases "\<lfloor>x\<rfloor> = \<lfloor>y\<rfloor>") (smt (verit, best))+
qed

lemma high_bit_bounds: "0 < n \<Longrightarrow> 2 ^ high_bit n \<le> n \<and> n < 2 ^ (high_bit n + 1)"
proof (induction n rule: high_bit.induct)
  case (1 n)
  show ?case
  proof (cases "n < 2")
    case True
    then show ?thesis using 1 by (simp add: high_bit.simps)
  next
    case False
    then have "2 ^ high_bit (n div 2) \<le> n div 2 \<and> n div 2 < 2 ^ (high_bit (n div 2) + 1)" using 1 by simp
    then show ?thesis using False by (simp add: high_bit.simps [of n]) linarith
  qed
qed

lemma exponent_bounds:
  assumes "0 < x"
  shows "2 powi exponent x \<le> x" "x < 2 powi (exponent x + 1)"
proof -
  obtain a b where q: "quotient_of x = (a, b)" by fastforce
  have b: "0 < b" using quotient_of_denom_pos [OF q] .
  have x: "x = of_int a / of_int b" using quotient_of_div [OF q] .
  then have a: "0 < a" using assms b by (simp add: zero_less_divide_iff)
  define i j where "i = high_bit (nat a)" and "j = high_bit (nat b)"
  have rat: "(2 :: rat) ^ high_bit (nat c) \<le> of_int c \<and> (of_int c :: rat) < 2 ^ (high_bit (nat c) + 1)" if "0 < c" for c :: int
  proof -
    have "2 ^ high_bit (nat c) \<le> nat c" "nat c < 2 ^ (high_bit (nat c) + 1)" using high_bit_bounds [of "nat c"] that by simp_all
    then have "(of_nat (2 ^ high_bit (nat c)) :: rat) \<le> of_nat (nat c)" "(of_nat (nat c) :: rat) < of_nat (2 ^ (high_bit (nat c) + 1))"
      by (simp_all only: of_nat_le_iff of_nat_less_iff)
    then show ?thesis using that by simp
  qed
  have ia: "(2 :: rat) ^ i \<le> of_int a" "(of_int a :: rat) < 2 ^ (i + 1)" and jb: "(2 :: rat) ^ j \<le> of_int b" "(of_int b :: rat) < 2 ^ (j + 1)"
    using rat [OF a] rat [OF b] by (simp_all only: i_def j_def)
  have lo: "2 powi (int i - int j - 1) < x"
  proof -
    have "(2 :: rat) powi (int i - int j - 1) = 2 ^ i / 2 ^ (j + 1)" by (simp add: power_int_diff)
    also have "\<dots> < of_int a / of_int b" using ia(1) jb a b by (intro frac_less2) auto
    finally show ?thesis using x by simp
  qed
  have hi: "x < 2 powi (int i - int j + 1)"
  proof -
    have "of_int a / of_int b < (2 :: rat) ^ (i + 1) / 2 ^ j" using ia jb a b by (intro frac_less) auto
    also have "\<dots> = 2 powi (int i - int j + 1)" by (simp add: power_int_diff power_int_add)
    finally show ?thesis using x by simp
  qed
  show "2 powi exponent x \<le> x" "x < 2 powi (exponent x + 1)"
    using lo hi by (auto simp: exponent_def q i_def [symmetric] j_def [symmetric] Let_def)
qed

lemma exponent_mono: "0 < x \<Longrightarrow> x \<le> y \<Longrightarrow> exponent x \<le> exponent y"
proof (rule ccontr)
  assume h: "0 < x" "x \<le> y" "\<not> exponent x \<le> exponent y"
  then have "(2 :: rat) powi (exponent y + 1) \<le> 2 powi exponent x" by (intro power_int_increasing) simp_all
  then show False using exponent_bounds(2) [of y] exponent_bounds(1) [of x] h by linarith
qed

text \<open>The quotient by the unit in the last place lies between \<open>2 ^ 52\<close> and \<open>2 ^ 53\<close>.\<close>

lemma scaled_bounds:
  assumes "0 < x"
  shows "2 ^ 52 \<le> x / 2 powi (exponent x - 52)" "x / 2 powi (exponent x - 52) < 2 ^ 53"
proof -
  have u: "(0 :: rat) < 2 powi (exponent x - 52)" by simp
  have "(2 :: rat) ^ 52 * 2 powi (exponent x - 52) = 2 powi exponent x" "(2 :: rat) ^ 53 * 2 powi (exponent x - 52) = 2 powi (exponent x + 1)"
    by (simp_all add: power_int_diff power_int_add)
  then show "2 ^ 52 \<le> x / 2 powi (exponent x - 52)" "x / 2 powi (exponent x - 52) < 2 ^ 53"
    using exponent_bounds [OF assms] u by (simp_all add: pos_le_divide_eq pos_divide_less_eq)
qed

lemma round_positive_between:
  assumes "0 < x"
  shows "2 powi exponent x \<le> round_positive x" "round_positive x \<le> 2 powi (exponent x + 1)"
proof -
  let ?u = "2 powi (exponent x - 52) :: rat"
  have "round_even (of_int (2 ^ 52)) \<le> round_even (x / ?u)" "round_even (x / ?u) \<le> round_even (of_int (2 ^ 53))"
    using scaled_bounds [OF assms] by (intro round_even_mono; simp)+
  then have "2 ^ 52 \<le> round_even (x / ?u)" "round_even (x / ?u) \<le> 2 ^ 53" by (simp_all only: round_even_of_int)
  then have r: "(2 :: rat) ^ 52 \<le> of_int (round_even (x / ?u))" "of_int (round_even (x / ?u)) \<le> (2 :: rat) ^ 53"
    by (metis of_int_le_iff of_int_numeral of_int_power)+
  have e: "(2 :: rat) powi exponent x = 2 ^ 52 * ?u" "(2 :: rat) powi (exponent x + 1) = 2 ^ 53 * ?u"
    by (simp_all add: power_int_diff power_int_add)
  show "2 powi exponent x \<le> round_positive x" "round_positive x \<le> 2 powi (exponent x + 1)"
    unfolding e round_positive_def Let_def using r by (intro mult_right_mono; simp)+
qed

lemma round_positive_mono: "0 < x \<Longrightarrow> x \<le> y \<Longrightarrow> round_positive x \<le> round_positive y"
proof -
  assume h: "0 < x" "x \<le> y"
  then have y: "0 < y" by simp
  show ?thesis
  proof (cases "exponent x = exponent y")
    case True
    have "round_even (x / 2 powi (exponent y - 52)) \<le> round_even (y / 2 powi (exponent y - 52))"
      using h by (intro round_even_mono divide_right_mono) simp_all
    then show ?thesis unfolding round_positive_def Let_def True by (intro mult_right_mono) simp_all
  next
    case False
    then have "exponent x + 1 \<le> exponent y" using exponent_mono [OF h] by simp
    then have "(2 :: rat) powi (exponent x + 1) \<le> 2 powi exponent y" by (intro power_int_increasing) simp_all
    then show ?thesis using round_positive_between [OF h(1)] round_positive_between [OF y] by linarith
  qed
qed

lemma to_double_mono: "0 \<le> x \<Longrightarrow> x \<le> y \<Longrightarrow> to_double x \<le> to_double y"
proof -
  assume h: "0 \<le> x" "x \<le> y"
  have "0 < round_positive y" if "0 < y" using round_positive_between(1) [OF that] by (meson less_le_trans zero_less_power_int zero_less_numeral)
  then show ?thesis using h round_positive_mono [of x y] by (auto simp: to_double_def)
qed

text \<open>The relative error is at most \<open>2 ^ -53\<close>, and integers of at most 53 bits are exact.\<close>

lemma to_double_near:
  assumes "0 < x"
  shows "to_double x * 2 ^ 53 \<le> x * (2 ^ 53 + 1)" "x * (2 ^ 53 - 1) \<le> to_double x * 2 ^ 53"
proof -
  define u :: rat where "u = 2 powi (exponent x - 52)"
  have u: "0 < u" "2 ^ 52 * u \<le> x" using scaled_bounds(1) [OF assms] by (simp_all add: u_def pos_le_divide_eq)
  have d: "to_double x = of_int (round_even (x / u)) * u" using assms by (simp add: to_double_def round_positive_def u_def Let_def)
  have "of_int (round_even (x / u)) * u \<le> (x / u + 1 / 2) * u" "(x / u - 1 / 2) * u \<le> of_int (round_even (x / u)) * u"
    using round_even_near [of "x / u"] u(1) by (intro mult_right_mono; simp)+
  moreover have "(x / u + 1 / 2) * u = x + u / 2" "(x / u - 1 / 2) * u = x - u / 2" using u(1) by (simp_all add: field_simps)
  ultimately have "to_double x \<le> x + u / 2" "x - u / 2 \<le> to_double x" unfolding d by simp_all
  then show "to_double x * 2 ^ 53 \<le> x * (2 ^ 53 + 1)" "x * (2 ^ 53 - 1) \<le> to_double x * 2 ^ 53"
    using u(2) by (simp_all add: algebra_simps)
qed

lemma to_double_nat: "n < 2 ^ 53 \<Longrightarrow> to_double (of_nat n) = of_nat n"
proof (cases "n = 0")
  case False
  assume n: "n < 2 ^ 53"
  let ?x = "of_nat n :: rat" and ?e = "exponent (of_nat n)"
  have x: "0 < ?x" using False by simp
  have "?x < 2 powi 53" using n by (metis of_nat_less_iff of_nat_numeral of_nat_power power_int_numeral)
  then have "(2 :: rat) powi ?e < 2 powi 53" using exponent_bounds(1) [OF x] by simp
  then have "?e \<le> 52" using power_int_increasing [of 53 ?e "2 :: rat"] by linarith
  then obtain k where k: "52 - ?e = int k" by (metis diff_ge_0_iff_ge nonneg_int_cases)
  then have "(2 :: rat) powi (?e - 52) = 1 / 2 ^ k" by (metis minus_diff_eq power_int_minus power_int_of_nat inverse_eq_divide)
  then have u: "?x / 2 powi (?e - 52) = of_int (int n * 2 ^ k)" and e: "(2 :: rat) powi (?e - 52) = 1 / 2 ^ k" by simp_all
  have "round_positive ?x = of_int (int n * 2 ^ k) * (1 / 2 ^ k)"
    unfolding round_positive_def Let_def u round_even_of_int unfolding e ..
  then show ?thesis using x by (simp add: to_double_def)
qed (simp add: to_double_def)

text \<open>Quotients that are far enough apart stay apart.\<close>

lemma to_double_less:
  assumes "0 < x" "x * (2 ^ 51 + 1) \<le> y * 2 ^ 51"
  shows "to_double x < to_double y"
proof -
  have y: "0 < y" 
  proof (rule ccontr)
    assume "\<not> 0 < y"
    then have "x * (2 ^ 51 + 1) \<le> 0" using assms(2) by simp
    then show False using assms(1) by (simp add: mult_le_0_iff)
  qed
  have "to_double x * 2 ^ 53 * 2 ^ 51 \<le> x * (2 ^ 53 + 1) * 2 ^ 51" using to_double_near(1) [OF assms(1)] by simp
  also have "\<dots> < x * (2 ^ 51 + 1) * (2 ^ 53 - 1)" using assms(1) by (simp add: algebra_simps)
  also have "\<dots> \<le> y * 2 ^ 51 * (2 ^ 53 - 1)" using assms(2) by (intro mult_right_mono) simp_all
  also have "\<dots> \<le> to_double y * 2 ^ 53 * 2 ^ 51" using to_double_near(2) [OF y] by (simp add: algebra_simps)
  finally show ?thesis by simp
qed

lemma example_quotients: "to_double (1 / 3) = 6004799503160661 / 18014398509481984" "to_double (200 / 10) = 20"
  by code_simp+

end
