(* ===== verification/Side_Channel.thy ===== *)
theory Side_Channel
  imports Mdriver C_Double
begin

text \<open>
  The cache side channels of \<open>project06-kweng\<close>: finding out which of 256 pages has been accessed from the times that reads take
  (\<open>index-guesser.c\<close>), reading a string that way (\<open>user-space-secret.c\<close>), voting over many trials where an access may leave no
  trace or several (\<open>meltdown.c\<close>), and the measurement of the times (\<open>timing.c\<close>). The processor is a parameter: what it does when a
  line is flushed, when a page is accessed, when a read that faults is followed by an access, and how long a read takes.
\<close>

section \<open>The processor\<close>

text \<open>Pages are given by their index in the array of pages; that of an access is an \<open>int\<close> and may be negative, which is a place in front of the array.
  \<open>transient\<close> is what is left of an access whose index comes from a read that faults: the program goes on after it in the handler of the
  signal.\<close>

record 's processor =
  flush_cache_line :: "nat \<Rightarrow> 's \<Rightarrow> 's"
  touch :: "int \<Rightarrow> 's \<Rightarrow> 's"
  transient :: "int \<Rightarrow> 's \<Rightarrow> 's"
  time_read :: "nat \<Rightarrow> 's \<Rightarrow> nat \<times> 's"

text \<open>The functions of \<open>lib/util.c\<close> over single instructions: a read is timed by the difference of two readings of the counter, a word
  of 64 bits. The fences, which keep the instructions in this order, and the waiting loop after a flush have no other effect.\<close>

record 's instructions =
  clflush :: "nat \<Rightarrow> 's \<Rightarrow> 's"
  force_read :: "int \<Rightarrow> 's \<Rightarrow> 's"
  speculate :: "int \<Rightarrow> 's \<Rightarrow> 's"
  counter :: "'s \<Rightarrow> 64 word \<times> 's"

definition timed_read :: "'s instructions \<Rightarrow> nat \<Rightarrow> 's \<Rightarrow> nat \<times> 's" where
  "timed_read I i s =
     (let (start, s1) = counter I s; (stop, s2) = counter I (force_read I (int i) s1) in (unat (stop - start), s2))"

definition processor_of :: "'s instructions \<Rightarrow> 's processor" where
  "processor_of I = \<lparr>flush_cache_line = clflush I, touch = force_read I, transient = speculate I, time_read = timed_read I\<rparr>"

definition MAX_CHOICE :: nat where "MAX_CHOICE = 256"

text \<open>\<open>flush\<close> and the first loop of \<open>guess_accessed_page\<close>: every page is flushed.\<close>

definition flush :: "'s processor \<Rightarrow> 's \<Rightarrow> 's" where
  "flush P s = fold (flush_cache_line P) [0..<MAX_CHOICE] s"

section \<open>One trial\<close>

text \<open>A quotient of doubles, which is rounded, compared with a bound (\<open>None\<close>: minus infinity). The divisor may be 0: then a positive
  quotient is infinite, a negative one minus infinity, and that of zeroes is not a number.\<close>

definition ratio_below :: "rat \<Rightarrow> rat \<Rightarrow> rat option \<Rightarrow> bool" where
  "ratio_below t1 t2 bound \<longleftrightarrow>
     (case bound of None \<Rightarrow> False | Some b \<Rightarrow> if t2 = 0 then t1 < 0 else to_double (t1 / t2) < b)"

definition ratio :: "rat \<Rightarrow> rat \<Rightarrow> rat option" where
  "ratio t1 t2 = (if t2 = 0 then None else Some (to_double (t1 / t2)))"

text \<open>Two reads of each page; the page with the least quotient so far, with that quotient. Times are cut down to \<open>int\<close>s,
  which are exact as doubles.\<close>

fun least_ratio :: "'s processor \<Rightarrow> nat list \<Rightarrow> rat option \<times> nat \<Rightarrow> 's \<Rightarrow> nat \<times> 's" where
  "least_ratio P [] (min_ratio, idx) s = (idx, s)"
| "least_ratio P (i # ps) (min_ratio, idx) s =
     (let (a, s1) = time_read P i s; (b, s2) = time_read P i s1; t1 = of_int (as_int (int a)); t2 = of_int (as_int (int b)) in
      least_ratio P ps (if ratio_below t1 t2 min_ratio then (ratio t1 t2, i) else (min_ratio, idx)) s2)"

definition guess_accessed_page :: "'s processor \<Rightarrow> ('s \<Rightarrow> 's) \<Rightarrow> 's \<Rightarrow> nat \<times> 's" where
  "guess_accessed_page P access s = least_ratio P [0..<MAX_CHOICE] (Some 100, 256) (access (flush P s))"

section \<open>A secret string\<close>

text \<open>The access of \<open>user-space-secret.c\<close>: the page with the number of the character, which must not be negative.\<close>

definition secret_access :: "'s processor \<Rightarrow> string \<Rightarrow> nat \<Rightarrow> 's \<Rightarrow> (driver_stop, 's) res" where
  "secret_access P secret k s =
     (let c = schar (secret ! k) in bindE (assertE (0 \<le> c) Out_of_array) (\<lambda>_. Inr (touch P c s)))"

fun guess_characters :: "'s processor \<Rightarrow> string \<Rightarrow> nat list \<Rightarrow> 's \<Rightarrow> (driver_stop, string \<times> 's) res" where
  "guess_characters P secret [] s = Inr ([CHR 0x0A], s)"
| "guess_characters P secret (k # ks) s =
     bindE (secret_access P secret k (flush P s)) (\<lambda>s1.
     case least_ratio P [0..<MAX_CHOICE] (Some 100, 256) s1 of (idx, s2) \<Rightarrow>
       bindE (guess_characters P secret ks s2) (\<lambda>(out, s3). Inr (char_of idx # out, s3)))"

definition secret_main :: "'s processor \<Rightarrow> string \<Rightarrow> 's \<Rightarrow> (driver_stop, string \<times> 's) res" where
  "secret_main P secret s = guess_characters P secret [0..<length secret] s"

section \<open>Voting\<close>

definition TRIALS :: nat where "TRIALS = 100"

text \<open>The reads of a trial after which a vote has been cast: the vote is withdrawn when another page is found as well, and the trial ends. A page
  counts as found when the quotient of the two times, converted to doubles, is below 3. The result tells how the count of trials has changed.\<close>

definition hit :: "'s processor \<Rightarrow> nat \<Rightarrow> 's \<Rightarrow> bool \<times> 's" where
  "hit P i s = (let (t1, s1) = time_read P i s; (t2, s2) = time_read P i s1
     in (ratio_below (to_double (of_nat t1)) (to_double (of_nat t2)) (Some 3), s2))"

fun after_vote :: "'s processor \<Rightarrow> nat \<Rightarrow> nat list \<Rightarrow> int list \<Rightarrow> 's \<Rightarrow> int \<times> int list \<times> 's" where
  "after_vote P voted [] freq s = (1, freq, s)"
| "after_vote P voted (i # ps) freq s =
     (case hit P i s of (h, s') \<Rightarrow>
        if h then (0, freq[voted := freq ! voted - 1], s') else after_vote P voted ps freq s')"

fun trial_reads :: "'s processor \<Rightarrow> nat list \<Rightarrow> int list \<Rightarrow> 's \<Rightarrow> int \<times> int list \<times> 's" where
  "trial_reads P [] freq s = (0, freq, s)"
| "trial_reads P (i # ps) freq s =
     (case hit P i s of (h, s') \<Rightarrow>
        if h then after_vote P i ps (freq[i := freq ! i + 1]) s' else trial_reads P ps freq s')"

text \<open>Trials are made until the count is 100, which need not happen. The access faults; the handler of the signal goes on after it.\<close>

partial_function (option) trials :: "'s processor \<Rightarrow> ('s \<Rightarrow> 's) \<Rightarrow> int \<Rightarrow> int list \<Rightarrow> 's \<Rightarrow> (int list \<times> 's) option" where
  "trials M access k freq s =
     (if 0 \<le> k \<and> nat k < TRIALS then
        (case trial_reads M [1..<MAX_CHOICE] freq (access (flush M s)) of (d, freq', s') \<Rightarrow> trials M access (k + d) freq' s')
      else Some (freq, s))"

text \<open>The most popular page: the first with the most votes, or -1 without votes.\<close>

fun most_popular :: "nat \<Rightarrow> int list \<Rightarrow> int \<Rightarrow> int \<Rightarrow> int" where
  "most_popular i [] max_freq max_idx = max_idx"
| "most_popular i (v # vs) max_freq max_idx =
     (if max_freq < v then most_popular (i + 1) vs v (int i) else most_popular (i + 1) vs max_freq max_idx)"

definition meltdown_guess :: "'s processor \<Rightarrow> ('s \<Rightarrow> 's) \<Rightarrow> 's \<Rightarrow> (int \<times> 's) option" where
  "meltdown_guess P access s =
     (case trials P access 0 (replicate MAX_CHOICE 0) s of
        None \<Rightarrow> None | Some (freq, s') \<Rightarrow> Some (most_popular 0 freq 0 (-1), s'))"

text \<open>The access to the page with the number of byte \<open>k\<close> of the data \<open>x\<close> of the kernel. The bytes are signed \<open>char\<close>s: from 128 on the
  index is negative.\<close>

definition do_access :: "'s processor \<Rightarrow> string \<Rightarrow> nat \<Rightarrow> 's \<Rightarrow> 's" where
  "do_access P x k s = transient P (schar (x ! k)) s"

text \<open>One guess for each byte of the kernel's data, printed as a character.\<close>

fun guess_bytes :: "'s processor \<Rightarrow> string \<Rightarrow> nat list \<Rightarrow> 's \<Rightarrow> (string \<times> 's) option" where
  "guess_bytes P x [] s = Some ([CHR 0x0A], s)"
| "guess_bytes P x (k # ks) s =
     (case meltdown_guess P (do_access P x k) s of
        None \<Rightarrow> None
      | Some (g, s') \<Rightarrow>
          (case guess_bytes P x ks s' of
             None \<Rightarrow> None | Some (out, s'') \<Rightarrow> Some (char_of (nat (g mod 256)) # out, s'')))"

definition meltdown_main :: "'s processor \<Rightarrow> string \<Rightarrow> 's \<Rightarrow> (string \<times> 's) option" where
  "meltdown_main P x s = guess_bytes P x [0..<length x] s"

section \<open>Measuring the times\<close>

definition REPEATS :: nat where "REPEATS = 10000"

text \<open>The sums of the times of misses and hits, which are \<open>int\<close>s; the program prints the quotient of the second and the first.\<close>

fun timing_sums :: "'s processor \<Rightarrow> nat \<Rightarrow> int \<times> int \<Rightarrow> 's \<Rightarrow> (int \<times> int) \<times> 's" where
  "timing_sums P 0 (n1, n2) s = ((n1, n2), s)"
| "timing_sums P (Suc k) (n1, n2) s =
     (let (a, s1) = time_read P 0 (flush_cache_line P 0 s); (b, s2) = time_read P 0 s1
      in timing_sums P k (as_int (n1 + int a), as_int (n2 + int b)) s2)"

definition timing_main :: "'s processor \<Rightarrow> 's \<Rightarrow> (int \<times> int) \<times> 's" where
  "timing_main P s = timing_sums P REPEATS (0, 0) s"

end
