(* ===== verification/Side_Proofs.thy ===== *)
theory Side_Proofs
  imports Side_Channel
begin

text \<open>
  When the side channels of \<open>project06-kweng\<close> work. On a processor whose reads of cached lines are fast and of others slow, the page that has
  been accessed is guessed, and a secret string is printed; and of the votes of many trials the guess is the first page with the most.
\<close>

section \<open>A processor that leaks\<close>

text \<open>The pages of the array in the cache, as the state of the processor has them: a flush removes a line, an access and a read bring it in. A read takes between
  \<open>fast\<close> and \<open>quick\<close> when the line is cached, and at least \<open>slow\<close> when it is not.\<close>

definition pages_of :: "int \<Rightarrow> nat set" where
  "pages_of i = (if 0 \<le> i then {nat i} else {})"

definition leaky :: "'s processor \<Rightarrow> ('s \<Rightarrow> nat set) \<Rightarrow> nat \<Rightarrow> nat \<Rightarrow> nat \<Rightarrow> bool" where
  "leaky P cached fast quick slow \<longleftrightarrow>
     (\<forall>i s. cached (flush_cache_line P i s) = cached s - {i}) \<and> (\<forall>i s. cached (touch P i s) = pages_of i \<union> cached s) \<and>
     (\<forall>i s. cached (snd (time_read P i s)) = insert i (cached s)) \<and>
     (\<forall>i s. i \<in> cached s \<longrightarrow> fst (time_read P i s) \<in> {fast..quick}) \<and>
     (\<forall>i s. i \<notin> cached s \<longrightarrow> fst (time_read P i s) \<in> {slow..<2 ^ 31}) \<and> 0 < fast \<and> fast \<le> quick \<and> quick < 2 ^ 31"

text \<open>Such a processor from its instructions: the counter counts cycles (and wraps around), and a read takes as many as the cache says.\<close>

lemma leaky_processor_of:
  assumes "\<And>s. counter I s = (of_nat (clock s), s)" "\<And>i s. cached (clflush I i s) = cached s - {i}"
    "\<And>i s. cached (force_read I i s) = pages_of i \<union> cached s"
    and cost: "\<And>i s. clock (force_read I (int i) s) = clock s + cost i s" "\<And>i s. i \<in> cached s \<Longrightarrow> fast \<le> cost i s \<and> cost i s \<le> quick"
      "\<And>i s. i \<notin> cached s \<Longrightarrow> slow \<le> cost i s \<and> cost i s < 2 ^ 31"
    and "0 < fast" "fast \<le> quick" "quick < 2 ^ 31"
  shows "leaky (processor_of I) cached fast quick slow"
proof -
  have small: "cost i s < 2 ^ 31" for i s using cost(2,3) [of i s] assms(9) by (cases "i \<in> cached s") auto
  have "unat (of_nat (cost i s) :: 64 word) = cost i s" for i s
    using small [of i s] by (simp add: unat_of_nat)
  then have "timed_read I i s = (cost i s, force_read I (int i) s)" for i s
    by (simp add: timed_read_def assms(1) cost(1))
  then show ?thesis using assms by (auto simp: leaky_def processor_of_def pages_of_def)
qed

lemma leaky_read:
  assumes "leaky P cached fast quick slow" "time_read P i s = (t, s')"
  shows "cached s' = insert i (cached s)" "i \<in> cached s \<Longrightarrow> fast \<le> t \<and> t \<le> quick" "i \<notin> cached s \<Longrightarrow> slow \<le> t" "t < 2 ^ 31"
proof -
  have l: "cached (snd (time_read P i s)) = insert i (cached s)" "i \<in> cached s \<Longrightarrow> fst (time_read P i s) \<in> {fast..quick}"
    "i \<notin> cached s \<Longrightarrow> fst (time_read P i s) \<in> {slow..<2 ^ 31}" "quick < 2 ^ 31"
    using assms(1) unfolding leaky_def by blast+
  show "cached s' = insert i (cached s)" using l(1) assms(2) by simp
  show "i \<in> cached s \<Longrightarrow> fast \<le> t \<and> t \<le> quick" using l(2) assms(2) by simp
  show "i \<notin> cached s \<Longrightarrow> slow \<le> t" using l(3) assms(2) by simp
  show "t < 2 ^ 31" using l(2-4) assms(2) by (cases "i \<in> cached s") auto
qed

text \<open>Two reads: the second is fast, and so the quotient tells whether the line was cached.\<close>

lemma two_reads:
  assumes "leaky P cached fast quick slow" "time_read P i s = (a, s1)" "time_read P i s1 = (b, s2)"
  shows "cached s2 = insert i (cached s)" "fast \<le> b" "a < 2 ^ 31" "b < 2 ^ 31"
    "i \<in> cached s \<Longrightarrow> to_double (of_nat a / of_nat b) \<le> to_double (of_nat quick / of_nat fast)"
    "i \<notin> cached s \<Longrightarrow> to_double (of_nat slow / of_nat quick) \<le> to_double (of_nat a / of_nat b)"
proof -
  note r = leaky_read [OF assms(1,2)] leaky_read [OF assms(1,3)]
  have pos: "0 < fast" using assms(1) by (simp add: leaky_def)
  have b: "fast \<le> b" "b \<le> quick" using r(1,6) by simp_all
  show "cached s2 = insert i (cached s)" "fast \<le> b" "a < 2 ^ 31" "b < 2 ^ 31" using r b by auto
  show "i \<in> cached s \<Longrightarrow> to_double (of_nat a / of_nat b) \<le> to_double (of_nat quick / of_nat fast)"
    using r(2) b pos by (intro to_double_mono frac_le) simp_all
  show "i \<notin> cached s \<Longrightarrow> to_double (of_nat slow / of_nat quick) \<le> to_double (of_nat a / of_nat b)"
    using r(3) b pos by (intro to_double_mono frac_le) simp_all
qed

lemma cached_flush: "leaky P cached fast quick slow \<Longrightarrow> cached (flush P s) = cached s - {..<MAX_CHOICE}"
proof -
  assume l: "leaky P cached fast quick slow"
  have "cached (fold (flush_cache_line P) xs s) = cached s - set xs" for xs
    by (induction xs arbitrary: s) (use l in \<open>auto simp: leaky_def\<close>)
  then show ?thesis by (auto simp: flush_def)
qed

section \<open>The page with the least quotient\<close>

lemma as_int_time: "t < 2 ^ 31 \<Longrightarrow> as_int (int t) = int t"
  by (rule as_int_small) simp_all

lemma least_ratio_stays:
  assumes "leaky P cached fast quick slow" "distinct ps" "\<forall>i \<in> set ps. i \<notin> cached s" "r \<le> to_double (of_nat slow / of_nat quick)"
  shows "fst (least_ratio P ps (Some r, idx) s) = idx \<and> cached (snd (least_ratio P ps (Some r, idx) s)) = cached s \<union> set ps"
  using assms(2,3)
proof (induction ps arbitrary: s)
  case (Cons i ps)
  obtain a s1 b s2 where t: "time_read P i s = (a, s1)" "time_read P i s1 = (b, s2)" by (metis surj_pair)
  note w = two_reads [OF assms(1) t]
  have "0 < b" using w(2) assms(1) by (simp add: leaky_def)
  moreover have "r \<le> to_double (of_nat a / of_nat b)" using w(6) Cons.prems(2) assms(4) by simp
  ultimately have "\<not> ratio_below (of_nat a) (of_nat b) (Some r)" by (simp add: ratio_below_def)
  moreover have "distinct ps" "\<forall>j \<in> set ps. j \<notin> cached s2" using Cons.prems w(1) by auto
  ultimately show ?case using Cons.IH [of s2] w(1,3,4) t by (simp add: as_int_time)
qed simp

lemma least_ratio_finds:
  assumes "leaky P cached fast quick slow" "to_double (of_nat quick / of_nat fast) < to_double (of_nat slow / of_nat quick)"
    "distinct ps" "k \<in> set ps" "\<forall>i \<in> set ps. i \<in> cached s \<longleftrightarrow> i = k" "to_double (of_nat quick / of_nat fast) < r"
  shows "fst (least_ratio P ps (Some r, idx) s) = k"
  using assms(3-6)
proof (induction ps arbitrary: s r idx)
  case (Cons i ps)
  obtain a s1 b s2 where t: "time_read P i s = (a, s1)" "time_read P i s1 = (b, s2)" by (metis surj_pair)
  note w = two_reads [OF assms(1) t]
  have b: "0 < b" using w(2) assms(1) by (simp add: leaky_def)
  let ?q = "to_double (of_nat a / of_nat b)"
  have step: "least_ratio P (i # ps) (Some r, idx) s = (if ?q < r then least_ratio P ps (Some ?q, i) s2 else least_ratio P ps (Some r, idx) s2)"
    using t w(3,4) b by (simp add: as_int_time ratio_below_def ratio_def)
  show ?case
  proof (cases "i = k")
    case True
    then have q: "?q \<le> to_double (of_nat quick / of_nat fast)" using w(5) Cons.prems(3) by simp
    have "\<forall>j \<in> set ps. j \<notin> cached s2" using Cons.prems(1,3) True w(1) by auto
    moreover have "?q \<le> to_double (of_nat slow / of_nat quick)" using q assms(2) by simp
    moreover have "distinct ps" using Cons.prems(1) by simp
    ultimately have "fst (least_ratio P ps (Some ?q, i) s2) = i" using least_ratio_stays [OF assms(1)] by blast
    then show ?thesis using step q Cons.prems(4) True by simp
  next
    case False
    then have "to_double (of_nat quick / of_nat fast) < ?q" using w(6) Cons.prems(3) assms(2) by force
    moreover have "\<forall>j \<in> set ps. j \<in> cached s2 \<longleftrightarrow> j = k" "k \<in> set ps" "distinct ps" using Cons.prems False w(1) by auto
    ultimately show ?thesis using step Cons.IH Cons.prems(4) by simp
  qed
qed simp

text \<open>The processor tells the pages apart when reads of cached lines vary less than the others are slower; they must take fewer than
  \<open>2 ^ 25\<close> cycles for the quotients to be different as doubles.\<close>

definition tells_apart :: "nat \<Rightarrow> nat \<Rightarrow> nat \<Rightarrow> bool" where
  "tells_apart fast quick slow \<longleftrightarrow> quick * quick < slow * fast \<and> quick < 100 * fast \<and> quick < 2 ^ 25"

lemma quotients_less:
  assumes "0 < a" "0 < b" "0 < d" "a * d < c * b" "a * d \<le> 2 ^ 51"
  shows "to_double (of_nat a / of_nat b) < to_double (of_nat c / of_nat d)"
proof -
  have "a * d * (2 ^ 51 + 1) \<le> c * b * 2 ^ 51" using assms(4,5) by simp
  then have "(of_nat (a * d * (2 ^ 51 + 1)) :: rat) \<le> of_nat (c * b * 2 ^ 51)" by (simp only: of_nat_le_iff)
  then have "(of_nat a * of_nat d * (2 ^ 51 + 1) :: rat) \<le> of_nat c * of_nat b * 2 ^ 51" by simp
  then have "(of_nat a / of_nat b :: rat) * (2 ^ 51 + 1) \<le> of_nat c / of_nat d * 2 ^ 51"
    using assms(2,3) by (simp add: field_simps)
  then show ?thesis using assms(1,2) by (intro to_double_less) simp_all
qed

lemma quotient_less_nat:
  assumes "0 < a" "0 < b" "a < n * b" "a \<le> 2 ^ 51" "n < 2 ^ 53"
  shows "to_double (of_nat a / of_nat b) < of_nat n"
  using quotients_less [of a b 1 n] to_double_nat [OF assms(5)] assms by simp

lemma guess_found:
  assumes "leaky P cached fast quick slow" "tells_apart fast quick slow" "k < MAX_CHOICE" "cached s' = insert k (cached s - {..<MAX_CHOICE})"
  shows "fst (least_ratio P [0..<MAX_CHOICE] (Some 100, 256) s') = k"
proof (rule least_ratio_finds [OF assms(1)])
  have pos: "0 < fast" "0 < quick" using assms(1) by (simp_all add: leaky_def)
  have q: "quick < 2 ^ 25" using assms(2) by (simp add: tells_apart_def)
  then have "quick * quick < 2 ^ 25 * 2 ^ 25" by (intro mult_strict_mono) simp_all
  then show "to_double (of_nat quick / of_nat fast) < to_double (of_nat slow / of_nat quick)"
    using pos assms(2) by (intro quotients_less) (simp_all add: tells_apart_def)
  show "to_double (of_nat quick / of_nat fast) < 100"
    using quotient_less_nat [of quick fast 100] pos assms(2) q by (simp add: tells_apart_def)
  show "\<forall>i \<in> set [0..<MAX_CHOICE]. i \<in> cached s' \<longleftrightarrow> i = k" using assms(3,4) by auto
qed (use assms(3) in simp_all)

section \<open>A secret string\<close>

lemma schar_ascii: "(of_char c :: nat) < 128 \<Longrightarrow> 0 \<le> schar c \<and> nat (schar c) = of_char c"
proof -
  assume a: "(of_char c :: nat) < 128"
  have n: "(of_char c :: int) = int (of_char c)" by (rule of_nat_of_char [symmetric])
  show ?thesis unfolding schar_def Let_def n using a by simp
qed

lemma guess_characters_right:
  assumes "leaky P cached fast quick slow" "tells_apart fast quick slow" "\<forall>c \<in> set secret. (of_char c :: nat) < 128" "\<forall>k \<in> set ks. k < length secret"
  shows "\<exists>s'. guess_characters P secret ks s = Inr (map (\<lambda>k. secret ! k) ks @ [CHR 0x0A], s')"
  using assms(4)
proof (induction ks arbitrary: s)
  case (Cons k ks)
  let ?c = "secret ! k" and ?n = "of_char (secret ! k) :: nat"
  let ?s1 = "touch P (schar ?c) (flush P s)"
  have c: "?n < 128" using assms(3) Cons.prems by simp
  have a: "secret_access P secret k (flush P s) = Inr ?s1" using schar_ascii [OF c] by (simp add: secret_access_def)
  have "cached ?s1 = insert ?n (cached s - {..<MAX_CHOICE})"
    using assms(1) cached_flush [OF assms(1)] schar_ascii [OF c] by (simp add: leaky_def pages_of_def)
  then have "fst (least_ratio P [0..<MAX_CHOICE] (Some 100, 256) ?s1) = ?n"
    by (intro guess_found [OF assms(1,2)]) (use c in \<open>simp_all add: MAX_CHOICE_def\<close>)
  then obtain s2 where g: "least_ratio P [0..<MAX_CHOICE] (Some 100, 256) ?s1 = (?n, s2)" by (metis prod.collapse)
  obtain s3 where "guess_characters P secret ks s2 = Inr (map (\<lambda>k. secret ! k) ks @ [CHR 0x0A], s3)" using Cons by fastforce
  then show ?case using a g by simp
qed simp

text \<open>C28. On a processor that tells cached lines from others clearly enough (with \<open>tells_apart\<close>, after the rounding of the quotients to doubles), the
  program prints a string that it only uses to access pages, for every string of ASCII characters, whatever is cached at first.\<close>

theorem secret_printed:
  assumes "leaky P cached fast quick slow" "tells_apart fast quick slow" "\<forall>c \<in> set secret. (of_char c :: nat) < 128"
  shows "\<exists>s'. secret_main P secret s = Inr (secret @ [CHR 0x0A], s')"
  using guess_characters_right [OF assms, of "[0..<length secret]" s] by (auto simp: secret_main_def map_nth)

section \<open>Votes\<close>

text \<open>The pages found in a trial, which ends when the second is found.\<close>

fun found :: "'s processor \<Rightarrow> nat \<Rightarrow> nat list \<Rightarrow> 's \<Rightarrow> nat list \<times> 's" where
  "found P 0 ps s = ([], s)"
| "found P (Suc n) [] s = ([], s)"
| "found P (Suc n) (i # ps) s =
     (case hit P i s of (h, s') \<Rightarrow>
        if h then (case found P n ps s' of (fs, s'') \<Rightarrow> (i # fs, s'')) else found P (Suc n) ps s')"

lemma found_subset: "set (fst (found P n ps s)) \<subseteq> set ps"
proof (induction ps arbitrary: n s)
  case Nil
  then show ?case by (cases n) simp_all
next
  case (Cons i ps)
  obtain h s1 where h: "hit P i s = (h, s1)" by fastforce
  show ?case
  proof (cases n)
    case (Suc m)
    then show ?thesis using h Cons [of m s1] Cons [of "Suc m" s1] by (auto split: prod.splits)
  qed simp
qed

lemma found_2: "found P 2 (i # ps) s =
    (case hit P i s of (h, s') \<Rightarrow> if h then (case found P 1 ps s' of (fs, s'') \<Rightarrow> (i # fs, s'')) else found P 2 ps s')"
  by (cases "hit P i s") (simp add: numeral_2_eq_2)

lemma after_vote_found:
  "after_vote P v ps freq s = (case found P 1 ps s of (fs, s') \<Rightarrow> if fs = [] then (1, freq, s') else (0, freq[v := freq ! v - 1], s'))"
proof (induction ps arbitrary: s)
  case (Cons i ps)
  obtain h s1 where h: "hit P i s = (h, s1)" by fastforce
  then show ?case using Cons [of s1] by (cases h) simp_all
qed simp

lemma trial_reads_found:
  assumes "\<forall>i \<in> set ps. i < length freq"
  shows "trial_reads P ps freq s =
     (case found P 2 ps s of (fs, s') \<Rightarrow>
        if length fs = 1 then (1, freq[hd fs := freq ! hd fs + 1], s') else (0, freq, s'))"
  using assms
proof (induction ps arbitrary: s)
  case Nil
  then show ?case by (simp add: numeral_2_eq_2)
next
  case (Cons i ps)
  obtain h s1 where h: "hit P i s = (h, s1)" by fastforce
  obtain fs s2 where f: "found P 1 ps s1 = (fs, s2)" by fastforce
  show ?case
  proof (cases h)
    case True
    then show ?thesis using h f Cons.prems by (simp add: found_2 after_vote_found del: found.simps)
  next
    case False
    then show ?thesis using Cons h by (simp add: found_2 del: found.simps)
  qed
qed

text \<open>Trials: those that find exactly one page cast a vote.\<close>

inductive polls :: "'s processor \<Rightarrow> ('s \<Rightarrow> 's) \<Rightarrow> 's \<Rightarrow> nat list \<Rightarrow> 's \<Rightarrow> bool" for P access where
  no_trial: "polls P access s [] s"
| vote: "found P 2 [1..<MAX_CHOICE] (access (flush P s)) = ([v], s1) \<Longrightarrow> polls P access s1 vs s2 \<Longrightarrow> polls P access s (v # vs) s2"
| no_vote: "found P 2 [1..<MAX_CHOICE] (access (flush P s)) = (fs, s1) \<Longrightarrow> length fs \<noteq> 1 \<Longrightarrow> polls P access s1 vs s2 \<Longrightarrow>
    polls P access s vs s2"

definition tally :: "nat list \<Rightarrow> int list" where
  "tally vs = map (\<lambda>i. int (count_list vs i)) [0..<MAX_CHOICE]"

lemma count_snoc: "count_list (vs @ [v]) i = count_list vs i + (if i = v then 1 else 0)"
  by simp

lemma tally_vote: "v < MAX_CHOICE \<Longrightarrow> (tally vs)[v := tally vs ! v + 1] = tally (vs @ [v])"
  by (rule nth_equalityI) (auto simp: tally_def nth_list_update)

lemma trials_step:
  assumes "found P 2 [1..<MAX_CHOICE] (access (flush P s)) = (fs, s1)"
  shows "trial_reads P [1..<MAX_CHOICE] (tally vs) (access (flush P s)) =
    (if length fs = 1 then (1, tally (vs @ fs), s1) else (0, tally vs, s1))"
proof -
  have "tally (vs @ fs) = (tally vs)[hd fs := tally vs ! hd fs + 1]" if l: "length fs = 1"
  proof -
    obtain v where v: "fs = [v]" using l by (auto simp: length_Suc_conv)
    then have "v \<in> {1..<MAX_CHOICE}" using found_subset [of P 2 "[1..<MAX_CHOICE]" "access (flush P s)"] assms by auto
    then show ?thesis using tally_vote [of v vs] v by simp
  qed
  then show ?thesis using assms by (subst trial_reads_found) (auto simp: tally_def)
qed

lemma trials_polls:
  "trials P access k freq s = Some r \<Longrightarrow>
   \<forall>vs. freq = tally vs \<and> k = int (length vs) \<and> length vs \<le> TRIALS \<longrightarrow>
     (\<exists>us. polls P access s us (snd r) \<and> length (vs @ us) = TRIALS \<and> fst r = tally (vs @ us))"
proof (induction rule: trials.raw_induct [rotated, consumes 1])
  case (1 loop P access k freq s r)
  show ?case
  proof (intro allI impI)
    fix vs
    assume vs: "freq = tally vs \<and> k = int (length vs) \<and> length vs \<le> TRIALS"
    show "\<exists>us. polls P access s us (snd r) \<and> length (vs @ us) = TRIALS \<and> fst r = tally (vs @ us)"
    proof (cases "length vs < TRIALS")
      case False
      then have "r = (tally vs, s)" "length vs = TRIALS" using 1(2) vs by auto
      then show ?thesis by (auto intro: polls.no_trial)
    next
      case True
      obtain fs s1 where f: "found P 2 [1..<MAX_CHOICE] (access (flush P s)) = (fs, s1)" by fastforce
      note t = trials_step [of P access s fs s1 vs, OF f]
      show ?thesis
      proof (cases "length fs = 1")
        case one: True
        then obtain v where v: "fs = [v]" by (auto simp: length_Suc_conv)
        have "loop P access (int (length (vs @ [v]))) (tally (vs @ [v])) s1 = Some r" using 1(2) vs True t v by (simp add: add.commute)
        from 1(1) [OF this] True obtain us where "polls P access s1 us (snd r)" "length ((vs @ [v]) @ us) = TRIALS" "fst r = tally ((vs @ [v]) @ us)"
          by fastforce
        then show ?thesis using polls.vote [of P access s v s1] f v by (intro exI [of _ "v # us"]) simp
      next
        case False
        have "loop P access (int (length vs)) (tally vs) s1 = Some r" using 1(2) vs True t False by simp
        from 1(1) [OF this] True obtain us where "polls P access s1 us (snd r)" "length (vs @ us) = TRIALS" "fst r = tally (vs @ us)" by fastforce
        then show ?thesis using polls.no_vote [of P access s fs s1] f False by blast
      qed
    qed
  qed
qed

text \<open>The first page with the most votes.\<close>

lemma most_popular_first:
  "(\<forall>j < length fs. fs ! j \<le> m) \<and> most_popular i fs m idx = idx \<or>
   (\<exists>j < length fs. most_popular i fs m idx = int (i + j) \<and> m < fs ! j \<and> (\<forall>l < length fs. fs ! l \<le> fs ! j) \<and> (\<forall>l < j. fs ! l < fs ! j))"
proof (induction fs arbitrary: i m idx)
  case (Cons v fs)
  let ?m = "if m < v then v else m" and ?idx = "if m < v then int i else idx"
  have step: "most_popular i (v # fs) m idx = most_popular (i + 1) fs ?m ?idx" by simp
  from Cons [of ?m "i + 1" ?idx] show ?case
  proof (elim disjE exE conjE)
    assume a: "\<forall>j < length fs. fs ! j \<le> ?m" "most_popular (i + 1) fs ?m ?idx = ?idx"
    show ?thesis
    proof (cases "m < v")
      case True
      then show ?thesis using a step by (intro disjI2 exI [of _ 0]) (auto simp: less_Suc_eq_0_disj)
    next
      case False
      then show ?thesis using a step by (intro disjI1) (auto simp: less_Suc_eq_0_disj)
    qed
  next
    fix j
    assume a: "j < length fs" "most_popular (i + 1) fs ?m ?idx = int (i + 1 + j)" "?m < fs ! j" "\<forall>l < length fs. fs ! l \<le> fs ! j" "\<forall>l < j. fs ! l < fs ! j"
    then have "v < fs ! j" "m < fs ! j" by (auto split: if_splits)
    then show ?thesis using a step by (intro disjI2 exI [of _ "Suc j"]) (auto simp: less_Suc_eq_0_disj)
  qed
qed simp

lemma votes_in_range: "polls P access s vs s' \<Longrightarrow> set vs \<subseteq> {1..<MAX_CHOICE}"
proof (induction rule: polls.induct)
  case (vote s v s1 vs s2)
  have "v \<in> {1..<MAX_CHOICE}" using found_subset [of P 2 "[1..<MAX_CHOICE]" "access (flush P s)"] vote.hyps(1) by auto
  then show ?case using vote.IH by simp
qed simp_all

lemma most_popular_tally:
  assumes "vs \<noteq> []" "set vs \<subseteq> {..<MAX_CHOICE}"
  obtains v where "most_popular 0 (tally vs) 0 (-1) = int v" "v \<in> set vs" "\<forall>w. count_list vs w \<le> count_list vs v \<and> (w < v \<longrightarrow> count_list vs w < count_list vs v)"
proof -
  have len: "length (tally vs) = MAX_CHOICE" by (simp add: tally_def)
  have at: "tally vs ! j = int (count_list vs j)" if "j < MAX_CHOICE" for j using that by (simp add: tally_def)
  have none: "count_list vs w = 0" if "\<not> w < MAX_CHOICE" for w using that assms(2) by (auto simp: count_list_0_iff)
  obtain u where u: "u \<in> set vs" using assms(1) by (cases vs) auto
  then have "u < MAX_CHOICE" "count_list vs u \<noteq> 0" using assms(2) count_list_0_iff [of vs u] by auto
  then have "0 < tally vs ! u" "u < MAX_CHOICE" using at [of u] by simp_all
  then have some: "\<not> (\<forall>j < MAX_CHOICE. tally vs ! j \<le> 0)" by (meson not_le)
  have "\<exists>v < MAX_CHOICE. most_popular 0 (tally vs) 0 (-1) = int v \<and> 0 < tally vs ! v \<and>
    (\<forall>l < MAX_CHOICE. tally vs ! l \<le> tally vs ! v) \<and> (\<forall>l < v. tally vs ! l < tally vs ! v)"
    using most_popular_first [of "tally vs" 0 0 "-1", unfolded len add_0]
  proof
    assume "(\<forall>j < MAX_CHOICE. tally vs ! j \<le> 0) \<and> most_popular 0 (tally vs) 0 (-1) = -1"
    then show ?thesis using some by blast
  qed
  then obtain v where v: "v < MAX_CHOICE" "most_popular 0 (tally vs) 0 (-1) = int v" "0 < tally vs ! v"
    "\<forall>l < MAX_CHOICE. tally vs ! l \<le> tally vs ! v" "\<forall>l < v. tally vs ! l < tally vs ! v" by blast
  have "count_list vs v \<noteq> 0" using v(3) at [OF v(1)] by simp
  then have "v \<in> set vs" using count_list_0_iff by metis
  moreover have "count_list vs w \<le> count_list vs v" for w
  proof (cases "w < MAX_CHOICE")
    case True
    then have "tally vs ! w \<le> tally vs ! v" using v(4) by blast
    then show ?thesis using at [OF True] at [OF v(1)] by simp
  qed (simp add: none)
  moreover have "count_list vs w < count_list vs v" if "w < v" for w
  proof -
    have "tally vs ! w < tally vs ! v" "w < MAX_CHOICE" using v(1,5) that by auto
    then show ?thesis using at [of w] at [OF v(1)] by simp
  qed
  ultimately show thesis using v(2) that by blast
qed

lemma guess_votes:
  assumes "meltdown_guess P access s = Some (g, s')"
  shows "\<exists>vs v. polls P access s vs s' \<and> length vs = TRIALS \<and> g = int v \<and> v \<in> set vs \<and>
    (\<forall>w. count_list vs w \<le> count_list vs v \<and> (w < v \<longrightarrow> count_list vs w < count_list vs v))"
proof -
  have z: "replicate MAX_CHOICE 0 = tally []" by (simp add: tally_def map_replicate_const)
  obtain freq where t: "trials P access 0 (tally []) s = Some (freq, s')" and g: "g = most_popular 0 freq 0 (-1)"
    using assms by (auto simp: meltdown_guess_def z split: option.splits)
  obtain vs where vs: "polls P access s vs s'" "length vs = TRIALS" "freq = tally vs"
    using trials_polls [OF t] by fastforce
  have ne: "vs \<noteq> []" "set vs \<subseteq> {..<MAX_CHOICE}" using vs(2) votes_in_range [OF vs(1)] by (auto simp: TRIALS_def)
  obtain v where "most_popular 0 (tally vs) 0 (-1) = int v" "v \<in> set vs"
    "\<forall>w. count_list vs w \<le> count_list vs v \<and> (w < v \<longrightarrow> count_list vs w < count_list vs v)"
    by (rule most_popular_tally [OF ne])
  then show ?thesis using vs g by blast
qed

text \<open>C27. When the search for a byte ends, it has made trials until 100 of them had found exactly one page, and it returns the page that most of
  these have found, the first one when there are several. Trials that find no page or more than one do not count.\<close>

theorem guess_has_most_votes:
  assumes "meltdown_guess P access s = Some (g, s')"
  shows "\<exists>vs v. polls P access s vs s' \<and> length vs = TRIALS \<and> g = int v \<and> v \<in> set vs \<and>
    (\<forall>w. count_list vs w \<le> count_list vs v \<and> (w < v \<longrightarrow> count_list vs w < count_list vs v))"
  by (rule guess_votes [OF assms])

section \<open>Trials without noise\<close>

definition clear_cut :: "nat \<Rightarrow> nat \<Rightarrow> nat \<Rightarrow> bool" where
  "clear_cut fast quick slow \<longleftrightarrow> quick < 3 * fast \<and> 3 * quick \<le> slow"

lemma hit_leaky:
  assumes "leaky P cached fast quick slow" "clear_cut fast quick slow"
  obtains s2 where "hit P i s = (i \<in> cached s, s2)" "cached s2 = insert i (cached s)"
proof -
  obtain a s1 b s2 where t: "time_read P i s = (a, s1)" "time_read P i s1 = (b, s2)" by (metis surj_pair)
  note w = two_reads [OF assms(1) t]
  have pos: "0 < fast" "0 < quick" "0 < b" "quick < 2 ^ 31" using assms(1) w(2) by (simp_all add: leaky_def)
  have exact: "to_double (of_nat a) = of_nat a" "to_double (of_nat b) = of_nat b" using w(3,4) by (simp_all add: to_double_nat)
  have "to_double (of_nat quick / of_nat fast) < 3"
    using quotient_less_nat [of quick fast 3] pos assms(2) by (simp add: clear_cut_def)
  moreover have "3 \<le> to_double (of_nat slow / of_nat quick)"
  proof -
    have "(of_nat (3 * quick) :: rat) \<le> of_nat slow" using assms(2) by (simp only: clear_cut_def of_nat_le_iff)
    then have "to_double 3 \<le> to_double (of_nat slow / of_nat quick)" using pos(2) by (intro to_double_mono) (simp_all add: field_simps)
    then show ?thesis using to_double_nat [of 3] by simp
  qed
  ultimately have "ratio_below (to_double (of_nat a)) (to_double (of_nat b)) (Some 3) \<longleftrightarrow> i \<in> cached s"
    using w(5,6) pos(3) unfolding exact by (cases "i \<in> cached s") (auto simp: ratio_below_def)
  then show thesis using that t w(1) by (simp add: hit_def)
qed

lemma found_one:
  assumes "leaky P cached fast quick slow" "clear_cut fast quick slow"
  shows "distinct ps \<Longrightarrow> \<forall>i \<in> set ps. i \<in> cached s \<longleftrightarrow> i = v \<Longrightarrow> v \<notin> set ps \<or> 0 < n \<Longrightarrow>
    \<exists>s'. found P (Suc n) ps s = (if v \<in> set ps then [v] else [], s')"
proof (induction ps arbitrary: s n)
  case (Cons i ps)
  obtain s2 where h: "hit P i s = (i = v, s2)" "cached s2 = insert i (cached s)"
    by (rule hit_leaky [OF assms, of i s]) (use Cons.prems(2) in auto)
  have ps: "distinct ps" "\<forall>j \<in> set ps. j \<in> cached s2 \<longleftrightarrow> j = v" using Cons.prems h(2) by auto
  show ?case
  proof (cases "i = v")
    case True
    then obtain m where m: "n = Suc m" "v \<notin> set ps" using Cons.prems by (cases n) auto
    then obtain s' where "found P (Suc m) ps s2 = ([], s')" using Cons.IH [OF ps, of m] by auto
    then show ?thesis using h True m by simp
  next
    case False
    then show ?thesis using Cons.IH [OF ps, of n] Cons.prems(3) h by auto
  qed
qed simp

lemma trials_clean:
  assumes "leaky P cached fast quick slow" "clear_cut fast quick slow" "v \<in> {1..<MAX_CHOICE}" "\<And>s. cached (access s) = insert v (cached s)"
  shows "j \<le> TRIALS \<Longrightarrow> \<exists>s'. trials P access (int j) (tally (replicate j v)) s = Some (tally (replicate TRIALS v), s')"
proof (induction "TRIALS - j" arbitrary: j s)
  case 0
  then show ?case by (subst trials.simps) simp
next
  case (Suc d)
  let ?s = "access (flush P s)"
  have j: "j < TRIALS" using Suc.hyps(2) by linarith
  have "\<forall>i \<in> set [1..<MAX_CHOICE]. i \<in> cached ?s \<longleftrightarrow> i = v" using assms(4) cached_flush [OF assms(1)] by auto
  then obtain s1 where "found P 2 [1..<MAX_CHOICE] ?s = ([v], s1)"
    using found_one [OF assms(1,2), of "[1..<MAX_CHOICE]" ?s v 1] assms(3) by (auto simp: numeral_2_eq_2)
  from trials_step [of P access, OF this, of "replicate j v"]
  have "trial_reads P [1..<MAX_CHOICE] (tally (replicate j v)) ?s = (1, tally (replicate (Suc j) v), s1)"
    by (simp add: replicate_append_same)
  then have "trials P access (int j) (tally (replicate j v)) s = trials P access (int (Suc j)) (tally (replicate (Suc j) v)) s1"
    using j by (subst trials.simps) (simp add: add.commute)
  then show ?case using Suc.hyps(1) [of "Suc j" s1] Suc.hyps(2) by simp
qed

lemma guess_clean:
  assumes "leaky P cached fast quick slow" "clear_cut fast quick slow" "v \<in> {1..<MAX_CHOICE}" "\<And>s. cached (access s) = insert v (cached s)"
  shows "\<exists>s'. meltdown_guess P access s = Some (int v, s')"
proof -
  have z: "replicate MAX_CHOICE 0 = tally (replicate 0 v)" by (simp add: tally_def map_replicate_const)
  obtain s' where t: "trials P access 0 (tally (replicate 0 v)) s = Some (tally (replicate TRIALS v), s')"
    using trials_clean [OF assms, of 0 s] by auto
  have ne: "replicate TRIALS v \<noteq> []" "set (replicate TRIALS v) \<subseteq> {..<MAX_CHOICE}" using assms(3) by (auto simp: TRIALS_def)
  obtain w where "most_popular 0 (tally (replicate TRIALS v)) 0 (-1) = int w" "w \<in> set (replicate TRIALS v)"
    by (rule most_popular_tally [OF ne])
  then have "most_popular 0 (tally (replicate TRIALS v)) 0 (-1) = int v" by (auto simp: TRIALS_def)
  then show ?thesis using t by (simp add: meltdown_guess_def z)
qed

text \<open>An access that brings in none of the pages 1 to 255 casts no vote, and the search does not end.\<close>

lemma guess_endless:
  assumes "leaky P cached fast quick slow" "clear_cut fast quick slow" "\<And>s. cached (access s) \<subseteq> insert 0 (cached s)"
  shows "meltdown_guess P access s = None"
proof (rule ccontr)
  assume "meltdown_guess P access s \<noteq> None"
  then obtain g s' where g: "meltdown_guess P access s = Some (g, s')" by auto
  have "vs = []" if "polls P access s vs s'" for s vs s'
    using that
  proof (induction rule: polls.induct)
    case (vote s v s1 vs s2)
    have "\<forall>i \<in> set [1..<MAX_CHOICE]. i \<in> cached (access (flush P s)) \<longleftrightarrow> i = 0"
      using assms(3) [of "flush P s"] cached_flush [OF assms(1), of s] by auto
    then obtain s' where "found P (Suc 1) [1..<MAX_CHOICE] (access (flush P s)) = ([], s')"
      using found_one [OF assms(1,2), of "[1..<MAX_CHOICE]" "access (flush P s)" 0 1] by auto
    then show ?case using vote(1) by (simp add: numeral_2_eq_2)
  qed simp_all
  moreover obtain vs where "polls P access s vs s'" "length vs = TRIALS" using guess_votes [OF g] by blast
  ultimately have "length ([] :: nat list) = TRIALS" by blast
  then show False by (simp add: TRIALS_def)
qed

definition leaves_trace :: "'s processor \<Rightarrow> ('s \<Rightarrow> nat set) \<Rightarrow> bool" where
  "leaves_trace P cached \<longleftrightarrow> (\<forall>i s. cached (transient P i s) = pages_of i \<union> cached s)"

definition readable :: "char \<Rightarrow> bool" where
  "readable c \<longleftrightarrow> (of_char c :: nat) \<in> {1..<128}"

lemma do_access_trace:
  assumes "leaves_trace P cached"
  shows "readable (x ! k) \<Longrightarrow> cached (do_access P x k s) = insert (of_char (x ! k)) (cached s)"
    "\<not> readable (x ! k) \<Longrightarrow> cached (do_access P x k s) \<subseteq> insert 0 (cached s)"
proof -
  let ?n = "of_char (x ! k) :: nat"
  have a: "cached (do_access P x k s) = pages_of (schar (x ! k)) \<union> cached s" using assms by (simp add: leaves_trace_def do_access_def)
  then show "readable (x ! k) \<Longrightarrow> cached (do_access P x k s) = insert ?n (cached s)"
    using schar_ascii [of "x ! k"] by (simp add: readable_def pages_of_def)
  assume r: "\<not> readable (x ! k)"
  have "schar (x ! k) < 0" if "\<not> ?n < 128"
  proof -
    have "?n < 256" by simp
    moreover have "(of_char (x ! k) :: int) = int ?n" by (rule of_nat_of_char [symmetric])
    ultimately show ?thesis using that by (simp add: schar_def Let_def)
  qed
  moreover have "nat (schar (x ! k)) = 0" if "?n < 128" using schar_ascii [of "x ! k"] that r by (simp add: readable_def)
  ultimately show "cached (do_access P x k s) \<subseteq> insert 0 (cached s)"
    using a r by (cases "?n < 128") (auto simp: pages_of_def)
qed

lemma guess_bytes_right:
  assumes "leaky P cached fast quick slow" "leaves_trace P cached" "clear_cut fast quick slow"
  shows "if \<forall>k \<in> set ks. readable (x ! k) then \<exists>s'. guess_bytes P x ks s = Some (map (\<lambda>k. x ! k) ks @ [CHR 0x0A], s') else guess_bytes P x ks s = None"
proof (induction ks arbitrary: s)
  case (Cons k ks)
  show ?case
  proof (cases "readable (x ! k)")
    case True
    let ?n = "of_char (x ! k) :: nat"
    have n: "?n \<in> {1..<MAX_CHOICE}" using True by (simp add: readable_def MAX_CHOICE_def)
    obtain s1 where g: "meltdown_guess P (do_access P x k) s = Some (int ?n, s1)"
      using guess_clean [OF assms(1,3) n, of "do_access P x k"] do_access_trace(1) [OF assms(2) True] by blast
    moreover have "char_of (nat (int ?n mod 256)) = x ! k" using n by (simp add: MAX_CHOICE_def)
    ultimately show ?thesis using Cons [of s1] True by (auto split: if_splits)
  next
    case False
    have "meltdown_guess P (do_access P x k) s = None"
      by (rule guess_endless [OF assms(1,3)]) (rule do_access_trace(2) [OF assms(2) False])
    then show ?thesis using False by simp
  qed
qed simp

text \<open>C26. Where every access that faults still brings in the page of the byte it has read, and cached reads are at least three times as fast as
  others while varying by less: the program prints the bytes it may not read when all of them are from 1 to 127. Otherwise it does not come to
  an end: the page of a byte 0 is not looked at, and the index of a byte from 128 on is negative, so that none of the pages is brought in.\<close>

theorem kernel_bytes_printed:
  assumes "leaky P cached fast quick slow" "leaves_trace P cached" "clear_cut fast quick slow"
  shows "if \<forall>c \<in> set x. (of_char c :: nat) \<in> {1..<128} then \<exists>s'. meltdown_main P x s = Some (x @ [CHR 0x0A], s')
    else meltdown_main P x s = None"
proof -
  have "(\<forall>c \<in> set x. (of_char c :: nat) \<in> {1..<128}) \<longleftrightarrow> (\<forall>k \<in> set [0..<length x]. readable (x ! k))"
    unfolding readable_def [symmetric] by (auto simp: all_set_conv_all_nth)
  then show ?thesis using guess_bytes_right [OF assms, of "[0..<length x]" x s] unfolding meltdown_main_def map_nth by argo
qed

section \<open>Examples\<close>

text \<open>A cache and a clock: a read takes 10 cycles, or 200 when the line is not in the cache.\<close>

definition sample_instructions :: "(nat set \<times> nat) instructions" where
  "sample_instructions =
     \<lparr>clflush = (\<lambda>i (c, t). (c - {i}, t)),
      force_read = (\<lambda>i (c, t). (pages_of i \<union> c, t + (if pages_of i \<subseteq> c then 10 else 200))),
      speculate = (\<lambda>i (c, t). (pages_of i \<union> c, t + 500)), counter = (\<lambda>s. (of_nat (snd s), s))\<rparr>"

definition sample_processor :: "(nat set \<times> nat) processor" where
  "sample_processor = processor_of sample_instructions"

lemma sample_leaky: "leaky sample_processor fst 10 10 200"
  unfolding sample_processor_def
  by (rule leaky_processor_of [where clock = snd and cost = "\<lambda>i s. if i \<in> fst s then 10 else 200"])
    (auto simp: sample_instructions_def pages_of_def split: prod.splits)

lemma sample_trace: "leaves_trace sample_processor fst"
  by (auto simp: leaves_trace_def sample_processor_def processor_of_def sample_instructions_def)

theorem secret_printed_witness: "\<exists>s'. secret_main sample_processor ''secret!'' ({3}, 0) = Inr (''secret!'' @ [CHR 0x0A], s')"
  by (rule secret_printed [OF sample_leaky]) (simp_all add: tells_apart_def)

theorem kernel_bytes_printed_witness:
  "(\<exists>s'. meltdown_main sample_processor ''Hi'' ({}, 0) = Some (''Hi'' @ [CHR 0x0A], s')) \<and>
   meltdown_main sample_processor [CHR ''H'', CHR 0xE9] ({}, 0) = None"
proof -
  have "clear_cut 10 10 200" by (simp add: clear_cut_def)
  note p = kernel_bytes_printed [OF sample_leaky sample_trace this, of _ "({}, 0)"]
  show ?thesis using p [of "''Hi''"] p [of "[CHR ''H'', CHR 0xE9]"] by simp
qed

theorem guess_has_most_votes_witness:
  "\<exists>s' vs v. meltdown_guess sample_processor (touch sample_processor 7) ({}, 0) = Some (7, s') \<and>
     polls sample_processor (touch sample_processor 7) ({}, 0) vs s' \<and> length vs = TRIALS \<and> 7 = int v \<and> v \<in> set vs"
proof -
  have "clear_cut 10 10 200" "(7 :: nat) \<in> {1..<MAX_CHOICE}" "\<And>s. fst (touch sample_processor 7 s) = insert 7 (fst s)"
    by (auto simp: clear_cut_def MAX_CHOICE_def sample_processor_def processor_of_def sample_instructions_def pages_of_def)
  from guess_clean [OF sample_leaky this, of "({}, 0)"] obtain s' where
    g: "meltdown_guess sample_processor (touch sample_processor 7) ({}, 0) = Some (7, s')" by auto
  from guess_has_most_votes [OF g] show ?thesis using g by blast
qed

end
