(* ===== verification/Spec2Isabelle.thy ===== *)
theory Spec2Isabelle
  imports Basic_Program Basic_Roundtrip Jvm_Safe Malloc_Sessions Mdriver_Runs Mdriver_Whole Py_Alloc Py_Facts Py_Fuel Py_Options
    Proxy_Requests Side_Proofs
begin

text \<open>
  Verification of the programs of the CS 24 coursework repository: a compiler, a byte code interpreter, a memory allocator, a scripting
  language with its own memory management, a web proxy, and cache side channels, all written in C. They are separate programs; what they share is kept in
  \<open>C_Prelude\<close> (results of fallible functions as sums, sequencing, character classes, printing and reading of numbers, digits of
  a number) and \<open>C_Memory\<close> (byte-addressed memory, little-endian loads and stores, \<open>memcpy\<close>).

  \<^bold>\<open>TeenyBASIC\<close> (\<open>src/project03-kweng\<close>). \<open>Basic_Ast\<close>: the syntax trees of \<open>ast.h\<close> and \<open>ast.c\<close>.
  \<open>Basic_Parser\<close>: \<open>parser.c\<close> over a stream of bytes with its position and end-of-file flag, and when it ends.
  \<open>Basic_Compile\<close>: \<open>compile.c\<close>, which emits assembly with numbered labels. \<open>X86_Machine\<close>: the fragment of x86-64
  the code uses, as a machine with registers, flags, memory and output; \<open>printf\<close> is constrained by what the calling convention asks of it
  (\<open>printf_abi\<close> in \<open>Basic_Program\<close>). What the convention asks of the caller is not checked: \<open>print_int\<close> calls it with a stack
  pointer that is 8 more than a multiple of 16, and the model takes it that \<open>printf\<close> works there too.
  \<open>Basic_Correct\<close> and \<open>Basic_Program\<close>: expressions, statements and whole programs are simulated by their code.
  \<open>Basic_Roundtrip\<close>: a program that is written out is parsed back.

  \<^bold>\<open>TeenyJVM\<close> (\<open>src/project01-kweng\<close>). \<open>Class_File\<close>: the class-file reader, byte by byte with its assertions, and
  that it reads back what the format says. \<open>Jvm\<close>: the frame of a method and the opcodes of \<open>jvm.c\<close>. \<open>Jvm_Safe\<close>: code
  whose stack heights pass a check runs without leaving the stack, the locals or the code.

  \<^bold>\<open>The allocator\<close> (\<open>src/project04-kweng\<close>). \<open>Malloc_Heap\<close>: \<open>memlib.c\<close> and \<open>mm.c\<close> on bytes.
  \<open>Malloc_Blocks\<close>: the list of blocks a heap represents. \<open>Malloc_Correct\<close>: each operation against that list.
  \<open>Malloc_Client\<close>: what a client may rely on in every reachable state, and where it may not. A client requests 1 to
  \<open>2 ^ 64 - 32\<close> bytes at a time: after a request of no bytes a release destroys the next header (proved there), and beyond that
  range the size computation wraps around. \<open>Malloc_Sessions\<close>: the allocator provides the interface of \<open>Allocator\<close>.

  \<^bold>\<open>The driver of the allocator\<close> (\<open>mdriver.c\<close> and the timers beside it). \<open>Mdriver\<close>: reading a trace file, replaying
  it, the extents of the live payloads, the checksums of their random contents, and the measure of the use of the heap. \<open>Fcyc\<close>: the timers
  (\<open>clock.c\<close>, \<open>fcyc.c\<close>, \<open>fsecs.c\<close>, \<open>ftimer.c\<close>). \<open>Mdriver_Main\<close>: options, runs, score.
  \<open>Mdriver_Trace\<close>: a trace file that is written out is read back, and what is read is well-formed. \<open>Mdriver_Valid\<close>: the driver finds
  the allocator valid, and what its test of overlaps accepts. \<open>Mdriver_Runs\<close>: the runs for use and speed, which end
  where the node freed last, kept from the run before, is none or the first payload. \<open>Fcyc_Best\<close>: the
  cycle counter subtracts, and the measurement returns the least of its samples. \<open>Mdriver_Whole\<close>: the whole program, from the options to the
  verdict, and a trace on which its second run hangs. Numbers of type \<open>double\<close> are elements of any ordered field here, so that nothing is rounded.

  \<^bold>\<open>Subpython\<close> (\<open>src/project05-kweng\<close>). The program state is one record, and every C function a state transformer that
  ends with a value or with a reason to stop (\<open>Py_State\<close>). Sizes are computed in \<open>size_t\<close>, with wrap-around, and storing members that do
  not fit the size of a value is an access out of bounds. Comparing cyclic lists overflows the stack, which is a reason to stop of its own. The model has one theory per source file: \<open>Py_Mm\<close> (\<open>mm.c\<close>, the pool),
  \<open>Py_Refs\<close> (\<open>refs.c\<close>, \<open>eval_refs.c\<close>), \<open>Py_Types\<close> and \<open>Py_Dispatch\<close> (\<open>eval_types.c\<close>,
  \<open>eval_list.c\<close>), \<open>Py_Dict\<close> (\<open>eval_dict.c\<close>), \<open>Py_Ast\<close> (\<open>ast.c\<close>, \<open>arena.c\<close>,
  \<open>parser.c\<close>), \<open>Py_Eval\<close> (\<open>eval.c\<close>, \<open>repl.c\<close>) and \<open>Py_Options\<close> (\<open>main\<close> of \<open>repl.c\<close>). The proofs go upwards from the pool (\<open>Py_Pool\<close>:
  the free list and the live blocks fill the pool) over the heap of values and their reference counts (\<open>Py_Heap\<close>, \<open>Py_Count\<close>,
  \<open>Py_Decref\<close>), the operations that read (\<open>Py_Access\<close>, \<open>Py_Reads\<close>), single steps and lists (\<open>Py_Steps\<close>,
  \<open>Py_Lists\<close>, \<open>Py_Safe_Ops\<close>), variables, calls and literals (\<open>Py_Globals\<close>, \<open>Py_Calls\<close>, \<open>Py_Build\<close>) to
  expressions and statements (\<open>Py_Safe\<close>), whole sessions (\<open>Py_Main\<close>) and the program with its options (\<open>Py_Options\<close>). \<open>Py_List_Spec\<close> states lists as sequences,
  \<open>Py_Alloc\<close> provides the interface of \<open>Allocator\<close>, \<open>Py_Fuel\<close> shows that a larger bound changes nothing, and
  \<open>Py_Facts\<close> collects the laws of single operations, defects included.

  \<^bold>\<open>The web proxy\<close> (\<open>src/project07-kweng\<close>). \<open>Proxy_Buffer\<close> (\<open>buffer.c\<close>), \<open>Proxy_Cache\<close>
  (\<open>cache.c\<close>: queue, hash table, lock, nodes and buffers at addresses) and \<open>Proxy_Client\<close> (\<open>client_thread.c\<close>, the
  loop of \<open>proxy.c\<close>: sockets as what arrives, what writes accept and what is sent) are the model; \<open>Proxy_Queue\<close> states the
  queue as a list, \<open>Proxy_Lines\<close> what is read from a client, \<open>Proxy_Relay\<close> how a response fills the cache, and
  \<open>Proxy_Requests\<close> what becomes of a request.

  \<^bold>\<open>The side channels\<close> (\<open>src/project06-kweng\<close>). \<open>Side_Channel\<close>: which of 256 pages has been accessed, found out from
  the times of reads (\<open>index-guesser.c\<close>, \<open>user-space-secret.c\<close>), by votes over many trials (\<open>meltdown.c\<close>), and
  the measurement of the times (\<open>timing.c\<close>). The processor is a parameter: what a flush, an access, an access that depends on a read that faults, and a timed
  read do to its state; also over single instructions (\<open>lib/util.c\<close>). Pages are indexed by signed characters. Quotients are rounded to
  doubles, as \<open>C_Double\<close> defines it.
  \<open>Side_Proofs\<close>: on which processors the bytes are found.

  \<^bold>\<open>Interfaces.\<close> The locale \<open>allocator\<close> (theory \<open>Allocator\<close>) states what a session of requests and releases relies on;
  it is interpreted on the model of \<open>mm.c\<close> of the malloc project and on the reference table of Subpython over its pool. The locale
  \<open>cells\<close> of \<open>C_Memory\<close> states the laws of loads and stores of one width, and is interpreted on the quad-words of the machine
  and on the 32-bit fields.

  \<^bold>\<open>Groups of lemmas.\<close> Refinement: the compiled code against the meaning of a program, lists against sequences, the cache queue against
  lists. Invariants: reachable heaps, reference counts, the state of the evaluator. Safety: verified byte code, clients of the allocator, what breaks them,
  the whole program of Subpython. Types: traces that have been read. Round trips: parsing after printing, reading class files, request lines. Equivalence with a reference definition: header
  rewriting, string comparison, the cycle counter. Functional: the peak of a trace, the least time, the page with most votes. Termination: the parser ends except on the input named; requests are served to the end; the driver accepts. Bounds: status messages, arenas. Several theorems state a defect of the code: a theorem of this kind says exactly when
  it shows.

  \<^bold>\<open>Bounds and fuel.\<close> Machine integers keep their width (words, or sizes taken modulo \<open>2 ^ 64\<close>). The parser of TeenyBASIC may run
  forever and has a bound on its steps; the theorems give bounds that suffice and the inputs for which none does. The evaluator of Subpython has a bound on
  the nesting and iteration of evaluation, since programs may loop; results do not depend on it (\<open>Py_Fuel\<close>). Releasing a reference
  descends at most as deep as there are values, which is the bound the model uses. The interpreter of the JVM has a bound on its steps,
  with the same independence. In the proxy, the loops over sockets are total, since every read consumes input; the loops over chains and the eviction
  have a bound, for which the number of segments of the response suffices. Asserting that \<open>malloc\<close> succeeds is a branch of the models; which
  sizes are granted is a parameter of the proxy.

  Loops that wait for the hardware or step by a distance that may be 0 (the calibration of the timers, clearing the cache, the trials of
  \<open>meltdown.c\<close>) are partial functions, whose value is \<open>None\<close> when they do not end; the theorems about them say when they do.

  \<^bold>\<open>Not modelled.\<close> Generated code (the lexer and parser of Subpython; their results are arguments); the tables that the malloc driver
  prints, its messages and the release of a trace (the allocator of the C library, which it runs for comparison, is a parameter: its functions on a
  state of its own); what the instructions that flush lines and read counters do, the page of the kernel with its file and the signal handler of
  \<open>project06\<close>; history files and usage messages; warm-ups that only print; an exam exercise that prints addresses of its own stack; the binary
  bomb, whose phases are not in the repository. The safety of Subpython sessions leaves out dictionary
  literals, string literals of \<open>2 ^ 62\<close> characters and list literals of \<open>2 ^ 60\<close> elements, the collector called by \<open>gc()\<close> and rebinding of the constants: the collector moves values while C variables point to them, and lookups
  in full dictionaries leave the array (see \<open>Py_Facts\<close>). Threads of the proxy share no state, so that one request is modelled at a time; memory
  that the proxy leaks is not counted.
\<close>

end
